(* ===== verification/Prelude.thy ===== *)
theory Prelude
  imports Main "HOL-Library.Word"
begin

section \<open>Shared vocabulary\<close>

text \<open>
  What every component of the development uses: the C integer types and their
  conversions, bytes and C strings, the result codes of SQLite and of its wrappers, and
  generic facts on lists and on the cyclic indices of an open-addressing table.

  A C \<open>int\<close> or \<open>sqlite3_int64\<close> is an \<^typ>\<open>int\<close> kept in range by
  \<open>c_int32\<close> and \<open>c_int64\<close>, which reduce to two's complement as the compilers of
  the supported targets do; an \<open>unsigned int\<close> or an \<open>unsigned char\<close> is a word.
\<close>

unbundle bit_operations_syntax

subsection \<open>Rule collections\<close>

named_theorems jni_simps \<open>unfolding rules of the native wrappers\<close>

subsection \<open>C integers\<close>

type_synonym byte = "8 word"
type_synonym u16 = "16 word"
type_synonym u32 = "32 word"
type_synonym u64 = "64 word"
type_synonym ptr = nat

definition c_int32 :: "int \<Rightarrow> int" where
  "c_int32 x = (x + 2 ^ 31) mod 2 ^ 32 - 2 ^ 31"

definition c_int64 :: "int \<Rightarrow> int" where
  "c_int64 x = (x + 2 ^ 63) mod 2 ^ 64 - 2 ^ 63"

definition in_int32 :: "int \<Rightarrow> bool" where
  "in_int32 x \<longleftrightarrow> - (2 ^ 31) \<le> x \<and> x < 2 ^ 31"

definition in_int64 :: "int \<Rightarrow> bool" where
  "in_int64 x \<longleftrightarrow> - (2 ^ 63) \<le> x \<and> x < 2 ^ 63"

lemma in_int32_c_int32 [simp]: "in_int32 (c_int32 x)"
  using pos_mod_sign [of "2 ^ 32" "x + 2 ^ 31"] pos_mod_bound [of "2 ^ 32" "x + 2 ^ 31"]
  by (simp add: in_int32_def c_int32_def)

lemma in_int64_c_int64 [simp]: "in_int64 (c_int64 x)"
  using pos_mod_sign [of "2 ^ 64" "x + 2 ^ 63"] pos_mod_bound [of "2 ^ 64" "x + 2 ^ 63"]
  by (simp add: in_int64_def c_int64_def)

lemma c_int32_id [simp]: "in_int32 x \<Longrightarrow> c_int32 x = x"
  by (simp add: in_int32_def c_int32_def)

lemma c_int64_id [simp]: "in_int64 x \<Longrightarrow> c_int64 x = x"
  by (simp add: in_int64_def c_int64_def)

text \<open>One turn above the range: what an overflowing sum of two values in range becomes.\<close>

lemma c_int32_over: "2 ^ 31 \<le> x \<Longrightarrow> x < 2 ^ 32 + 2 ^ 31 \<Longrightarrow> c_int32 x = x - 2 ^ 32"
proof -
  assume "2 ^ 31 \<le> x" "x < 2 ^ 32 + 2 ^ 31"
  then have "(x + 2 ^ 31 - 2 ^ 32) mod 2 ^ 32 = x + 2 ^ 31 - 2 ^ 32"
    by (intro mod_pos_pos_trivial) simp_all
  moreover have "(x + 2 ^ 31 - 2 ^ 32) mod 2 ^ 32 = (x + 2 ^ 31) mod 2 ^ 32"
    by (rule minus_mod_self2)
  ultimately show ?thesis by (simp add: c_int32_def)
qed

lemma c_int64_over: "2 ^ 63 \<le> x \<Longrightarrow> x < 2 ^ 64 + 2 ^ 63 \<Longrightarrow> c_int64 x = x - 2 ^ 64"
proof -
  assume "2 ^ 63 \<le> x" "x < 2 ^ 64 + 2 ^ 63"
  then have "(x + 2 ^ 63 - 2 ^ 64) mod 2 ^ 64 = x + 2 ^ 63 - 2 ^ 64"
    by (intro mod_pos_pos_trivial) simp_all
  moreover have "(x + 2 ^ 63 - 2 ^ 64) mod 2 ^ 64 = (x + 2 ^ 63) mod 2 ^ 64"
    by (rule minus_mod_self2)
  ultimately show ?thesis by (simp add: c_int64_def)
qed

lemma in_int32_imp_int64: "in_int32 x \<Longrightarrow> in_int64 x"
  by (simp add: in_int32_def in_int64_def)

subsection \<open>Bytes and C strings\<close>

text \<open>
  A C string is the list of its bytes before the terminating zero. Case folding is that
  of the C locale: only the 26 ASCII letters change.
\<close>

definition tolower :: "byte \<Rightarrow> byte" where
  "tolower c = (if 65 \<le> c \<and> c \<le> 90 then c + 32 else c)"

definition lower :: "byte list \<Rightarrow> byte list" where
  "lower s = map tolower s"

definition stricmp_eq :: "byte list \<Rightarrow> byte list \<Rightarrow> bool" where
  "stricmp_eq a b \<longleftrightarrow> lower a = lower b"

lemma lower_Nil [simp]: "lower [] = []"
  by (simp add: lower_def)

lemma lower_Cons [simp]: "lower (c # cs) = tolower c # lower cs"
  by (simp add: lower_def)

text \<open>A property of bytes is decided by trying all of them.\<close>

definition all_bytes :: "byte list" where
  "all_bytes = map word_of_int [0..255]"

lemma all_bytesI: "list_all P all_bytes \<Longrightarrow> P c"
proof -
  assume all: "list_all P all_bytes"
  have "uint c \<in> {0..255}" using uint_lt2p [of c] by simp
  then have "(word_of_int (uint c) :: byte) \<in> set all_bytes"
    unfolding all_bytes_def set_map set_upto by (rule imageI)
  then have "c \<in> set all_bytes" by simp
  with all show ?thesis by (simp add: list_all_iff)
qed

subsection \<open>Result codes\<close>

definition SQLITE_OK :: int where "SQLITE_OK = 0"
definition SQLITE_ERROR :: int where "SQLITE_ERROR = 1"
definition SQLITE_PERM :: int where "SQLITE_PERM = 3"
definition SQLITE_NOMEM :: int where "SQLITE_NOMEM = 7"
definition SQLITE_READONLY :: int where "SQLITE_READONLY = 8"
definition SQLITE_CORRUPT :: int where "SQLITE_CORRUPT = 11"
definition SQLITE_NOTFOUND :: int where "SQLITE_NOTFOUND = 12"
definition SQLITE_CANTOPEN :: int where "SQLITE_CANTOPEN = 14"
definition SQLITE_ROW :: int where "SQLITE_ROW = 100"
definition SQLITE_DONE :: int where "SQLITE_DONE = 101"

definition INTARRAY_INUSE :: int where "INTARRAY_INUSE = 210"
definition INTARRAY_INTERNAL_ERROR :: int where "INTARRAY_INTERNAL_ERROR = 212"
definition INTARRAY_DUPLICATE_NAME :: int where "INTARRAY_DUPLICATE_NAME = 213"

lemmas sqlite_codes =
  SQLITE_OK_def SQLITE_ERROR_def SQLITE_PERM_def SQLITE_NOMEM_def SQLITE_NOTFOUND_def
  SQLITE_CANTOPEN_def SQLITE_ROW_def SQLITE_DONE_def

lemmas intarray_codes =
  INTARRAY_INUSE_def INTARRAY_INTERNAL_ERROR_def INTARRAY_DUPLICATE_NAME_def

lemmas result_codes = sqlite_codes intarray_codes

subsection \<open>Lists\<close>

lemma filter_none: "\<forall>i < length xs. \<not> P (xs ! i) \<Longrightarrow> filter P xs = []"
  by (auto simp: filter_empty_conv in_set_conv_nth)

lemma filter_single:
  "x < length xs \<Longrightarrow> \<forall>i < length xs. P (xs ! i) \<longleftrightarrow> i = x \<Longrightarrow> filter P xs = [xs ! x]"
proof (induction xs arbitrary: x)
  case (Cons y ys)
  have tl: "P (ys ! i) \<longleftrightarrow> Suc i = x" if "i < length ys" for i
    using Cons.prems(2) that by auto
  have hd: "P y \<longleftrightarrow> x = 0" using Cons.prems(2) by auto
  show ?case
  proof (cases x)
    case 0
    with tl have "filter P ys = []" by (intro filter_none) simp
    with hd 0 show ?thesis by simp
  next
    case (Suc k)
    with tl Cons.IH [of k] Cons.prems(1) have "filter P ys = [ys ! k]" by simp
    with hd Suc show ?thesis by simp
  qed
qed simp

subsection \<open>Cyclic indices\<close>

text \<open>The index reached from \<open>h\<close> after \<open>d\<close> steps round a table of \<open>n\<close> cells.\<close>

definition cyc :: "nat \<Rightarrow> nat \<Rightarrow> nat \<Rightarrow> nat" where
  "cyc n h d = (h + d) mod n"

lemma cyc_less [simp]: "0 < n \<Longrightarrow> cyc n h d < n"
  by (simp add: cyc_def)

lemma cyc_lt: "d < n \<Longrightarrow> cyc n h d' < n"
  by (simp add: cyc_def)

lemma cyc_Suc: "(cyc n h d + 1) mod n = cyc n h (Suc d)"
  by (simp add: cyc_def mod_Suc_eq)

lemma Suc_cyc_mod [simp]: "Suc (cyc n h d) mod n = cyc n h (Suc d)"
  by (simp add: cyc_def mod_Suc_eq)

lemma cyc_0: "cyc n h 0 = h mod n"
  by (simp add: cyc_def)

lemma cyc_surj: "0 < n \<Longrightarrow> p < n \<Longrightarrow> \<exists>d<n. cyc n h d = p"
proof -
  assume n: "0 < n" and p: "p < n"
  let ?d = "(p + (n - h mod n)) mod n"
  have "(h + ?d) mod n = (h mod n + (p + (n - h mod n))) mod n"
    by (simp add: mod_add_eq mod_add_left_eq mod_add_right_eq)
  also have "h mod n + (p + (n - h mod n)) = p + n"
    using n mod_less_divisor [OF n, of h] by linarith
  finally have "cyc n h ?d = p" using p by (simp add: cyc_def)
  with n show ?thesis by (intro exI [of _ ?d]) simp
qed

lemma cyc_inj_le: "d \<le> d' \<Longrightarrow> d' < n \<Longrightarrow> cyc n h d = cyc n h d' \<Longrightarrow> d = d'"
proof -
  assume le: "d \<le> d'" and lt: "d' < n" and eq: "cyc n h d = cyc n h d'"
  have "n dvd (h + d') - (h + d)"
    using eq le mod_eq_dvd_iff_nat [of "h + d" "h + d'" n] by (simp add: cyc_def)
  then have "n dvd d' - d" by simp
  with lt have "d' - d = 0"
    by (metis dvd_imp_le gr0I le_neq_implies_less less_imp_diff_less not_less)
  with le show ?thesis by simp
qed

lemma cyc_inj: "d < n \<Longrightarrow> d' < n \<Longrightarrow> cyc n h d = cyc n h d' \<Longrightarrow> d = d'"
  by (metis cyc_inj_le nat_le_linear)

end
