(* ===== verification/IntArrayCursor.thy ===== *)
theory IntArrayCursor
  imports Prelude "HOL-Library.Log_Nat"
begin

section \<open>Cursors over an integer array (native/intarray.c)\<close>

text \<open>
  The virtual-table cursor of an integer array: the search parameters that
  \<open>intarrayFilter\<close> derives from a plan and its arguments, and the functions that move the
  cursor. Positions are C ints and the elements are 64-bit integers. The values of the
  arguments are those of \<open>sqlite3_value\<close>; a finite double is the rational it stands for.
\<close>

subsection \<open>Data\<close>

record sqlite3_intarray =
  zName :: "byte list"
  n :: int
  a :: "int list"
  xFree :: bool
  ordered :: int
  unique :: int
  useCount :: int
  connectCount :: int
  commitState :: int

record intarray_cursor =
  mode :: int
  cmax :: int
  cmin :: int
  hasMax :: bool
  hasMin :: bool
  ci :: int
  uniqueLeft :: int

datatype double = Fin rat | PosInf | NegInf

datatype sqlite3_value = VInteger int | VFloat double | VText "byte list" | VBlob "byte list" | VNull

definition INTARRAY_ROWID :: int where "INTARRAY_ROWID = 1"
definition INTARRAY_VALUE :: int where "INTARRAY_VALUE = 2"
definition INTARRAY_ZEROSET :: int where "INTARRAY_ZEROSET = -1"
definition INTARRAY_UPPER :: int where "INTARRAY_UPPER = 1"
definition INTARRAY_EQ :: int where "INTARRAY_EQ = 2"
definition INTARRAY_LOWER :: int where "INTARRAY_LOWER = 4"
definition SMALLEST_INT64 :: int where "SMALLEST_INT64 = - (2 ^ 63)"
definition LARGEST_INT64 :: int where "LARGEST_INT64 = 2 ^ 63 - 1"
definition INTARRAY_BSEARCH_THRESHOLD :: int where "INTARRAY_BSEARCH_THRESHOLD = 7"

lemmas mode_defs = INTARRAY_ROWID_def INTARRAY_VALUE_def INTARRAY_ZEROSET_def
lemmas op_defs = INTARRAY_UPPER_def INTARRAY_EQ_def INTARRAY_LOWER_def
lemmas int64_defs = SMALLEST_INT64_def LARGEST_INT64_def

subsection \<open>Searching for the next row\<close>

text \<open>The element at an index that the code has checked, or has computed in range.\<close>

definition elem :: "sqlite3_intarray \<Rightarrow> int \<Rightarrow> int" where
  "elem arr i = a arr ! nat i"

text \<open>The loop over rows that break the bounds.\<close>

function skip_rows :: "intarray_cursor \<Rightarrow> sqlite3_intarray \<Rightarrow> int \<Rightarrow> int" where
  "skip_rows cur arr startIndex =
     (if startIndex < n arr \<and>
         ((hasMin cur \<and> cmin cur > elem arr startIndex) \<or>
          (hasMax cur \<and> cmax cur < elem arr startIndex))
      then skip_rows cur arr (startIndex + 1) else startIndex)"
  by pat_completeness auto
termination
  by (relation "measure (\<lambda>(cur, arr, i). nat (n arr - i))") auto

definition intarrayNextMatch ::
  "intarray_cursor \<Rightarrow> sqlite3_intarray \<Rightarrow> int \<Rightarrow> intarray_cursor \<times> int" where
  "intarrayNextMatch cur arr startIndex =
     (if startIndex \<ge> n arr \<or> mode cur < 0 then (cur, n arr)
      else if mode cur = 1 then
        (cur, if hasMax cur \<and> startIndex > cmax cur then n arr else startIndex)
      else if mode cur = 2 then
        if ordered arr \<noteq> 0 then
          (cur, if hasMax cur \<and> elem arr startIndex > cmax cur then n arr else startIndex)
        else if unique arr \<noteq> 0 \<and> uniqueLeft cur = 0 then (cur, n arr)
        else
          let i = skip_rows cur arr startIndex
          in (if unique arr \<noteq> 0 \<and> uniqueLeft cur > 0 \<and> i < n arr
              then cur\<lparr>uniqueLeft := uniqueLeft cur - 1\<rparr> else cur, i)
      else (cur, startIndex))"

text \<open>
  The binary search. A read outside the array is undefined; it is \<open>None\<close> here, as is a
  search that does not return.
\<close>

definition array_get :: "int list \<Rightarrow> int \<Rightarrow> int option" where
  "array_get xs i = (if 0 \<le> i \<and> i < int (length xs) then Some (xs ! nat i) else None)"

partial_function (option) bsearch_loop ::
  "int \<Rightarrow> int list \<Rightarrow> bool \<Rightarrow> int \<Rightarrow> int \<Rightarrow> int option" where
  "bsearch_loop v xs locateFirst from to =
     (if from \<le> to then
        (case array_get xs (c_int32 (from + to) div 2) of
           None \<Rightarrow> None
         | Some mid \<Rightarrow>
             if mid < v then bsearch_loop v xs locateFirst (c_int32 (from + to) div 2 + 1) to
             else if mid > v \<or> locateFirst
             then bsearch_loop v xs locateFirst from (c_int32 (from + to) div 2 - 1)
             else Some (c_int32 (from + to) div 2))
      else Some from)"

definition intarray_bsearch :: "int \<Rightarrow> int list \<Rightarrow> int \<Rightarrow> int \<Rightarrow> bool \<Rightarrow> int option" where
  "intarray_bsearch v xs from to locateFirst = bsearch_loop v xs locateFirst from (to - 1)"

subsection \<open>Bounds from the arguments\<close>

text \<open>
  The macros \<open>INTARRAY_MAX\<close> and \<open>INTARRAY_MIN\<close>. They change the caller's value when
  the bound is exclusive, so the value is returned with the cursor.
\<close>

definition INTARRAY_MAX :: "intarray_cursor \<Rightarrow> int \<Rightarrow> bool \<Rightarrow> intarray_cursor \<times> int" where
  "INTARRAY_MAX cur val exclusive =
     (let val = (if exclusive \<and> val > SMALLEST_INT64 then val - 1 else val)
      in (if \<not> hasMax cur \<or> cmax cur > val then cur\<lparr>cmax := val, hasMax := True\<rparr> else cur, val))"

definition INTARRAY_MIN :: "intarray_cursor \<Rightarrow> int \<Rightarrow> bool \<Rightarrow> intarray_cursor \<times> int" where
  "INTARRAY_MIN cur val exclusive =
     (let val = (if exclusive \<and> val < LARGEST_INT64 then val + 1 else val)
      in (if \<not> hasMin cur \<or> cmin cur < val then cur\<lparr>cmin := val, hasMin := True\<rparr> else cur, val))"

definition has_bit :: "int \<Rightarrow> int \<Rightarrow> bool" where
  "has_bit opn b \<longleftrightarrow> opn AND b \<noteq> 0"

definition intarrayBoundary :: "int \<Rightarrow> intarray_cursor \<Rightarrow> int \<Rightarrow> bool \<Rightarrow> intarray_cursor" where
  "intarrayBoundary opn cur intValue exactInt =
     (if has_bit opn INTARRAY_LOWER then
        fst (INTARRAY_MIN cur intValue (exactInt \<and> \<not> has_bit opn INTARRAY_EQ))
      else if has_bit opn INTARRAY_UPPER then
        fst (INTARRAY_MAX cur intValue (exactInt \<and> \<not> has_bit opn INTARRAY_EQ))
      else if has_bit opn INTARRAY_EQ then
        if \<not> exactInt then cur\<lparr>mode := INTARRAY_ZEROSET\<rparr>
        else case INTARRAY_MIN cur intValue False of
               (cur, val) \<Rightarrow> fst (INTARRAY_MAX cur val False)
      else cur)"

text \<open>
  Doubles: the order against a rational, the conversion of a 64-bit integer to the nearest
  double (ties to even), and the conversion of a double to a 64-bit integer, which
  truncates and saturates outside the range as the ARM instruction does (C leaves that case
  undefined).
\<close>

fun double_gt :: "double \<Rightarrow> rat \<Rightarrow> bool" where
  "double_gt (Fin q) r = (q > r)"
| "double_gt PosInf r = True"
| "double_gt NegInf r = False"

fun double_lt :: "double \<Rightarrow> rat \<Rightarrow> bool" where
  "double_lt (Fin q) r = (q < r)"
| "double_lt PosInf r = False"
| "double_lt NegInf r = True"

definition int64_to_double :: "int \<Rightarrow> rat" where
  "int64_to_double x =
     (let m = \<bar>x\<bar>; k = nat (bitlen m - 53); q = m div 2 ^ k; r = m mod 2 ^ k;
          q' = (if 2 * r > 2 ^ k \<or> (2 * r = 2 ^ k \<and> odd q) then q + 1 else q)
      in of_int (sgn x * q' * 2 ^ k))"

definition saturate64 :: "int \<Rightarrow> int" where
  "saturate64 x = max SMALLEST_INT64 (min LARGEST_INT64 x)"

definition truncate_rat :: "rat \<Rightarrow> int" where
  "truncate_rat q = (if q < 0 then \<lceil>q\<rceil> else \<lfloor>q\<rfloor>)"

definition intarrayConstrainCursor ::
  "int \<Rightarrow> sqlite3_value \<Rightarrow> intarray_cursor \<Rightarrow> intarray_cursor" where
  "intarrayConstrainCursor opn v cur =
     (case v of
        VText _ \<Rightarrow>
          if \<not> has_bit opn INTARRAY_UPPER then cur\<lparr>mode := INTARRAY_ZEROSET\<rparr> else cur
      | VFloat d \<Rightarrow>
          if double_gt d (int64_to_double LARGEST_INT64) then
            if \<not> has_bit opn INTARRAY_UPPER \<or> has_bit opn INTARRAY_LOWER
            then cur\<lparr>mode := INTARRAY_ZEROSET\<rparr> else cur
          else if double_lt d (int64_to_double SMALLEST_INT64) then
            if \<not> has_bit opn INTARRAY_LOWER \<or> has_bit opn INTARRAY_UPPER
            then cur\<lparr>mode := INTARRAY_ZEROSET\<rparr> else cur
          else
            (case d of
               Fin q \<Rightarrow>
                 let intValue = saturate64
                       (if has_bit opn INTARRAY_LOWER then \<lceil>q\<rceil>
                        else if has_bit opn INTARRAY_UPPER then \<lfloor>q\<rfloor>
                        else truncate_rat q);
                     exactInt = (int64_to_double intValue = q)
                 in intarrayBoundary opn cur intValue exactInt
             | _ \<Rightarrow> cur)
      | VInteger i \<Rightarrow> intarrayBoundary opn cur i True
      | _ \<Rightarrow> cur\<lparr>mode := INTARRAY_ZEROSET\<rparr>)"

subsection \<open>The cursor methods\<close>

definition filter_params :: "intarray_cursor \<Rightarrow> int \<Rightarrow> sqlite3_value list \<Rightarrow> intarray_cursor" where
  "filter_params cur idxNum argv =
     (let op1 = drop_bit 2 idxNum AND 7; op2 = drop_bit 5 idxNum AND 7;
          cur = cur\<lparr>mode := idxNum AND 3, hasMin := False, hasMax := False, cmin := 0,
                    cmax := 0, uniqueLeft := -1\<rparr>;
          cur = (if mode cur > 0 \<and> length argv > 0 \<and> op1 \<noteq> 0
                 then intarrayConstrainCursor op1 (argv ! 0) cur else cur)
      in if mode cur > 0 \<and> length argv > 1 \<and> op2 \<noteq> 0
         then intarrayConstrainCursor op2 (argv ! 1) cur else cur)"

text \<open>
  \<open>None\<close> stands for a binary search that reads outside the array; the properties show
  that it does not happen on arrays of less than 2 to the 30 elements.
\<close>

definition filter_start :: "intarray_cursor \<Rightarrow> sqlite3_intarray \<Rightarrow> int option" where
  "filter_start cur arr =
     (if hasMin cur \<and> mode cur = 1 then
        let startIndex = c_int32 (cmin cur) in Some (if startIndex < 0 then 0 else startIndex)
      else if hasMin cur \<and> mode cur = 2 \<and> ordered arr \<noteq> 0 \<and> n arr > INTARRAY_BSEARCH_THRESHOLD then
        intarray_bsearch (cmin cur) (a arr) 0 (n arr) (unique arr = 0)
      else Some 0)"

definition filter_unique :: "intarray_cursor \<Rightarrow> sqlite3_intarray \<Rightarrow> intarray_cursor" where
  "filter_unique cur arr =
     (if unique arr \<noteq> 0 \<and> mode cur = 2 \<and> hasMin cur \<and> hasMax cur then
        let v = c_int64 (cmax cur - cmin cur + 1)
        in if v > 0 \<and> v < 0x7FFFFFFF then cur\<lparr>uniqueLeft := c_int32 v\<rparr> else cur
      else cur)"

definition intarrayFilter ::
  "intarray_cursor \<Rightarrow> sqlite3_intarray \<Rightarrow> int \<Rightarrow> sqlite3_value list \<Rightarrow> (intarray_cursor \<times> int) option" where
  "intarrayFilter cur arr idxNum argv =
     (let cur = filter_params cur idxNum argv
      in if mode cur < 0 \<or> (hasMin cur \<and> hasMax cur \<and> cmin cur > cmax cur)
         then Some (cur\<lparr>ci := n arr\<rparr>, SQLITE_OK)
         else case filter_start cur arr of
                None \<Rightarrow> None
              | Some startIndex \<Rightarrow>
                  (case intarrayNextMatch (filter_unique cur arr) arr startIndex of
                     (cur, i) \<Rightarrow> Some (cur\<lparr>ci := i\<rparr>, SQLITE_OK)))"

definition intarrayNext :: "intarray_cursor \<Rightarrow> sqlite3_intarray \<Rightarrow> intarray_cursor \<times> int" where
  "intarrayNext cur arr =
     (case intarrayNextMatch cur arr (ci cur + 1) of (cur, i) \<Rightarrow> (cur\<lparr>ci := i\<rparr>, SQLITE_OK))"

definition intarrayEof :: "intarray_cursor \<Rightarrow> sqlite3_intarray \<Rightarrow> bool" where
  "intarrayEof cur arr \<longleftrightarrow> ci cur \<ge> n arr"

text \<open>The value given to \<open>sqlite3_result_int64\<close>, if it is called.\<close>

definition intarrayColumn :: "intarray_cursor \<Rightarrow> sqlite3_intarray \<Rightarrow> int option" where
  "intarrayColumn cur arr = (if ci cur \<ge> 0 \<and> ci cur < n arr then Some (elem arr (ci cur)) else None)"

definition intarrayRowid :: "intarray_cursor \<Rightarrow> int" where
  "intarrayRowid cur = ci cur"

subsection \<open>Specification of a scan\<close>

text \<open>
  The rows a cursor's parameters stand for, and the rows that the methods deliver: the loop
  of the virtual machine, which reads the row id and moves on until the end.
\<close>

definition bounded :: "intarray_cursor \<Rightarrow> int \<Rightarrow> bool" where
  "bounded cur x \<longleftrightarrow> (hasMin cur \<longrightarrow> cmin cur \<le> x) \<and> (hasMax cur \<longrightarrow> x \<le> cmax cur)"

definition row_sat :: "intarray_cursor \<Rightarrow> sqlite3_intarray \<Rightarrow> int \<Rightarrow> bool" where
  "row_sat cur arr i \<longleftrightarrow>
     mode cur \<ge> 0 \<and>
     (mode cur = 1 \<longrightarrow> bounded cur i) \<and> (mode cur = 2 \<longrightarrow> bounded cur (elem arr i))"

definition arr_wf :: "sqlite3_intarray \<Rightarrow> bool" where
  "arr_wf arr \<longleftrightarrow>
     n arr = int (length (a arr)) \<and> n arr \<le> 2 ^ 30 \<and> (\<forall>x \<in> set (a arr). in_int64 x) \<and>
     (ordered arr \<noteq> 0 \<longrightarrow> sorted (a arr)) \<and> (unique arr \<noteq> 0 \<longrightarrow> distinct (a arr))"

definition first_from :: "(int \<Rightarrow> bool) \<Rightarrow> int \<Rightarrow> int \<Rightarrow> int \<Rightarrow> bool" where
  "first_from P s e i \<longleftrightarrow>
     i \<le> e \<and> (\<forall>k. s \<le> k \<and> k < i \<longrightarrow> \<not> P k) \<and> (i < e \<longrightarrow> s \<le> i \<and> P i)"

lemma first_from_step:
  assumes "\<not> P s" "first_from P (s + 1) e i"
  shows "first_from P s e i"
proof -
  have "k = s \<or> s + 1 \<le> k" if "s \<le> k" for k using that by linarith
  then show ?thesis using assms unfolding first_from_def
    by (metis add_le_imp_le_right le_add_same_cancel1 order.trans zero_le_one zle_add1_eq_le less_imp_le)
qed

lemma first_from_extend:
  assumes "first_from P s e i" "0 \<le> s" "\<forall>k. 0 \<le> k \<and> k < s \<and> k < e \<longrightarrow> \<not> P k"
  shows "first_from P 0 e i"
proof -
  have "\<not> P k" if "0 \<le> k" "k < i" for k
    using that assms by (cases "k < s") (auto simp: first_from_def)
  then show ?thesis using assms by (auto simp: first_from_def)
qed

lemma first_from_filter:
  assumes "first_from P s e i" "s \<le> e"
  shows "filter P [s..e - 1] = filter P [i..e - 1] \<and> (i < e \<longrightarrow> s \<le> i)"
proof (cases "i < s")
  case True
  then have "i = e" using assms by (auto simp: first_from_def)
  with True assms(2) show ?thesis by simp
next
  case False
  have "[s..e - 1] = [s..i - 1] @ [i..e - 1]"
  proof (cases "i = e")
    case True
    then show ?thesis by simp
  next
    case False
    then show ?thesis
      using assms \<open>\<not> i < s\<close> by (intro upto_split1) (auto simp: first_from_def)
  qed
  moreover have "filter P [s..i - 1] = []"
    using assms by (auto simp: first_from_def filter_empty_conv)
  ultimately show ?thesis using False by simp
qed

subsection \<open>The next row\<close>

declare skip_rows.simps [simp del]

lemma skip_rows_first:
  "first_from (\<lambda>k. bounded cur (elem arr k)) s (max s (n arr)) (skip_rows cur arr s) \<and> s \<le> skip_rows cur arr s"
proof (induction cur arr s rule: skip_rows.induct)
  case (1 cur arr s)
  let ?bad = "s < n arr \<and> ((hasMin cur \<and> cmin cur > elem arr s) \<or> (hasMax cur \<and> cmax cur < elem arr s))"
  show ?case
  proof (cases ?bad)
    case True
    then have "\<not> bounded cur (elem arr s)" by (auto simp: bounded_def)
    moreover have "skip_rows cur arr s = skip_rows cur arr (s + 1)"
      using True by (subst skip_rows.simps) simp
    moreover have "max (s + 1) (n arr) = n arr" "max s (n arr) = n arr"
      using True by simp_all
    ultimately show ?thesis
      using 1 [OF True] first_from_step [of "\<lambda>k. bounded cur (elem arr k)" s] by simp
  next
    case False
    then show ?thesis
      by (subst (1 2) skip_rows.simps) (auto simp: first_from_def bounded_def)
  qed
qed

text \<open>What a cursor must satisfy for the search from \<open>s\<close> to be right.\<close>

definition next_ok :: "intarray_cursor \<Rightarrow> sqlite3_intarray \<Rightarrow> int \<Rightarrow> bool" where
  "next_ok cur arr s \<longleftrightarrow>
     0 \<le> s \<and> mode cur \<ge> 0 \<and>
     (mode cur = 1 \<and> hasMin cur \<longrightarrow> cmin cur \<le> s) \<and>
     (mode cur = 2 \<and> ordered arr \<noteq> 0 \<and> hasMin cur \<longrightarrow>
        (\<forall>k. s \<le> k \<and> k < n arr \<longrightarrow> cmin cur \<le> elem arr k)) \<and>
     (mode cur = 2 \<and> ordered arr = 0 \<and> unique arr \<noteq> 0 \<and> uniqueLeft cur \<ge> 0 \<longrightarrow>
        int (card {k. s \<le> k \<and> k < n arr \<and> row_sat cur arr k}) \<le> uniqueLeft cur)"

lemma sorted_elem: "arr_wf arr \<Longrightarrow> ordered arr \<noteq> 0 \<Longrightarrow> 0 \<le> i \<Longrightarrow> i \<le> j \<Longrightarrow> j < n arr \<Longrightarrow>
    elem arr i \<le> elem arr j"
  by (auto simp: arr_wf_def elem_def intro!: sorted_nth_mono)

lemma finite_rows [simp]: "finite {k::int. s \<le> k \<and> k < e \<and> P k}"
  by (rule finite_subset [of _ "{s..<e}"]) auto

lemma card_rows_step:
  assumes "first_from P s e i" "i < e" "P i" "s \<le> i"
  shows "card {k::int. s \<le> k \<and> k < e \<and> P k} = Suc (card {k. i + 1 \<le> k \<and> k < e \<and> P k})"
proof -
  have "{k. s \<le> k \<and> k < e \<and> P k} = insert i {k. i + 1 \<le> k \<and> k < e \<and> P k}"
    using assms by (auto simp: first_from_def)
  then show ?thesis by simp
qed

lemma row_sat_uniqueLeft [simp]: "row_sat (cur\<lparr>uniqueLeft := u\<rparr>) arr = row_sat cur arr"
  by (simp add: row_sat_def bounded_def fun_eq_iff)

lemma row_sat_ci [simp]: "row_sat (cur\<lparr>ci := u\<rparr>) arr = row_sat cur arr"
  by (simp add: row_sat_def bounded_def fun_eq_iff)

lemma next_ok_ci [simp]: "next_ok (cur\<lparr>ci := u\<rparr>) arr s = next_ok cur arr s"
  by (simp add: next_ok_def)

definition next_spec :: "intarray_cursor \<Rightarrow> sqlite3_intarray \<Rightarrow> int \<Rightarrow> intarray_cursor \<Rightarrow> int \<Rightarrow> bool" where
  "next_spec cur arr s cur' i \<longleftrightarrow>
     first_from (row_sat cur arr) s (n arr) i \<and> row_sat cur' arr = row_sat cur arr \<and>
     (i < n arr \<longrightarrow> next_ok cur' arr (i + 1))"

lemma next_spec_end: "(\<And>k. s \<le> k \<Longrightarrow> k < n arr \<Longrightarrow> \<not> row_sat cur arr k) \<Longrightarrow> next_spec cur arr s cur (n arr)"
  by (auto simp: next_spec_def first_from_def)

lemma next_spec_here:
  assumes "row_sat cur arr s" "s < n arr" "next_ok cur arr s"
    and "mode cur \<noteq> 2 \<or> ordered arr \<noteq> 0"
  shows "next_spec cur arr s cur s"
  using assms by (auto simp: next_spec_def first_from_def next_ok_def)

lemma nextMatch_rowid:
  assumes ok: "next_ok cur arr s" and m: "mode cur = 1" and s: "s < n arr"
  shows "next_spec cur arr s cur (if hasMax cur \<and> s > cmax cur then n arr else s)"
proof (cases "hasMax cur \<and> s > cmax cur")
  case True
  then have "\<not> row_sat cur arr k" if "s \<le> k" for k
    using that m by (auto simp: row_sat_def bounded_def)
  with True show ?thesis by (auto intro: next_spec_end)
next
  case False
  then have "row_sat cur arr s" using ok m by (auto simp: row_sat_def bounded_def next_ok_def)
  with False show ?thesis using ok m s by (auto intro: next_spec_here)
qed

lemma nextMatch_ordered:
  assumes wf: "arr_wf arr" and ok: "next_ok cur arr s" and m: "mode cur = 2"
    and o: "ordered arr \<noteq> 0" and s: "s < n arr"
  shows "next_spec cur arr s cur (if hasMax cur \<and> elem arr s > cmax cur then n arr else s)"
proof (cases "hasMax cur \<and> elem arr s > cmax cur")
  case True
  have "\<not> row_sat cur arr k" if "s \<le> k" "k < n arr" for k
    using sorted_elem [OF wf o _ that] True ok m by (auto simp: row_sat_def bounded_def next_ok_def)
  with True show ?thesis by (auto intro: next_spec_end)
next
  case False
  then have "row_sat cur arr s" using ok m o s by (auto simp: row_sat_def bounded_def next_ok_def)
  with False show ?thesis using ok o s by (auto intro: next_spec_here)
qed

lemma nextMatch_scan:
  assumes ok: "next_ok cur arr s" and m: "mode cur = 2" and o: "ordered arr = 0" and s: "s < n arr"
    and u: "\<not> (unique arr \<noteq> 0 \<and> uniqueLeft cur = 0)"
  defines "i \<equiv> skip_rows cur arr s"
  shows "next_spec cur arr s
    (if unique arr \<noteq> 0 \<and> uniqueLeft cur > 0 \<and> i < n arr
     then cur\<lparr>uniqueLeft := uniqueLeft cur - 1\<rparr> else cur) i"
proof -
  have sat: "row_sat cur arr = (\<lambda>k. bounded cur (elem arr k))"
    using m by (auto simp: row_sat_def)
  have ff: "first_from (row_sat cur arr) s (n arr) i" and si: "s \<le> i"
    using skip_rows_first [of cur arr s] s unfolding i_def sat by simp_all
  have "next_ok (if unique arr \<noteq> 0 \<and> uniqueLeft cur > 0 \<and> i < n arr
     then cur\<lparr>uniqueLeft := uniqueLeft cur - 1\<rparr> else cur) arr (i + 1)" if i: "i < n arr"
  proof -
    have "row_sat cur arr i" using ff i by (auto simp: first_from_def)
    note cs = card_rows_step [OF ff i this si]
    show ?thesis using ok m o u si i cs by (auto simp: next_ok_def)
  qed
  then show ?thesis using ff by (auto simp: next_spec_def)
qed

lemma nextMatch_spec:
  assumes wf: "arr_wf arr" and ok: "next_ok cur arr s"
  shows "next_spec cur arr s (fst (intarrayNextMatch cur arr s)) (snd (intarrayNextMatch cur arr s))"
proof -
  consider "n arr \<le> s" | "s < n arr" "mode cur = 1" | "s < n arr" "mode cur = 2" "ordered arr \<noteq> 0"
    | "s < n arr" "mode cur = 2" "ordered arr = 0" "unique arr \<noteq> 0" "uniqueLeft cur = 0"
    | "s < n arr" "mode cur = 2" "ordered arr = 0" "\<not> (unique arr \<noteq> 0 \<and> uniqueLeft cur = 0)"
    | "s < n arr" "mode cur \<noteq> 1" "mode cur \<noteq> 2"
    by linarith
  then show ?thesis
  proof cases
    case 1
    then show ?thesis by (auto simp: intarrayNextMatch_def intro: next_spec_end)
  next
    case 2
    then show ?thesis using nextMatch_rowid [OF ok] by (auto simp: intarrayNextMatch_def)
  next
    case 3
    then show ?thesis using nextMatch_ordered [OF wf ok] by (auto simp: intarrayNextMatch_def)
  next
    case 4
    then have "card {k. s \<le> k \<and> k < n arr \<and> row_sat cur arr k} = 0"
      using ok by (simp add: next_ok_def)
    then have "{k. s \<le> k \<and> k < n arr \<and> row_sat cur arr k} = {}" by simp
    then have "\<not> row_sat cur arr k" if "s \<le> k" "k < n arr" for k using that by blast
    then show ?thesis using 4 by (auto simp: intarrayNextMatch_def intro: next_spec_end)
  next
    case 5
    then have "intarrayNextMatch cur arr s = (if unique arr \<noteq> 0 \<and> uniqueLeft cur > 0 \<and> skip_rows cur arr s < n arr
       then cur\<lparr>uniqueLeft := uniqueLeft cur - 1\<rparr> else cur, skip_rows cur arr s)"
      by (auto simp: intarrayNextMatch_def Let_def)
    then show ?thesis using nextMatch_scan [OF ok 5(2,3,1,4)] by simp
  next
    case 6
    then have "row_sat cur arr s" using ok by (simp add: row_sat_def next_ok_def)
    then show ?thesis using 6 ok by (auto simp: intarrayNextMatch_def next_ok_def intro: next_spec_here)
  qed
qed

subsection \<open>A whole scan\<close>

lemma skip_rows_ge: "s \<le> skip_rows cur arr s"
  using skip_rows_first by blast

lemma nextMatch_progress: "s < n arr \<Longrightarrow> s \<le> snd (intarrayNextMatch cur arr s)"
  using skip_rows_ge by (simp add: intarrayNextMatch_def Let_def)

function scan_rows :: "intarray_cursor \<Rightarrow> sqlite3_intarray \<Rightarrow> int list" where
  "scan_rows cur arr =
     (if intarrayEof cur arr then []
      else intarrayRowid cur # scan_rows (fst (intarrayNext cur arr)) arr)"
  by pat_completeness auto
termination
proof (relation "measure (\<lambda>(cur, arr). nat (n arr - ci cur))")
  fix cur arr
  assume "\<not> intarrayEof cur arr"
  then have lt: "ci cur < n arr" by (simp add: intarrayEof_def)
  have "ci cur < ci (fst (intarrayNext cur arr))"
  proof (cases "ci cur + 1 < n arr")
    case True
    then show ?thesis using nextMatch_progress [OF True, of cur]
      by (cases "intarrayNextMatch cur arr (ci cur + 1)") (simp add: intarrayNext_def)
  next
    case False
    then show ?thesis using lt
      by (simp add: intarrayNext_def intarrayNextMatch_def)
  qed
  with lt show "((fst (intarrayNext cur arr), arr), (cur, arr)) \<in> measure (\<lambda>(cur, arr). nat (n arr - ci cur))"
    by simp
qed simp

declare scan_rows.simps [simp del]

definition scan_values :: "intarray_cursor \<Rightarrow> sqlite3_intarray \<Rightarrow> int list" where
  "scan_values cur arr = map (elem arr) (scan_rows cur arr)"

lemma scan_rows_filter:
  assumes "arr_wf arr" "first_from (row_sat cur arr) s (n arr) (ci cur)" "s \<le> n arr" "0 \<le> s"
    and "ci cur < n arr \<longrightarrow> next_ok cur arr (ci cur + 1)"
  shows "scan_rows cur arr = filter (row_sat cur arr) [s..n arr - 1]"
  using assms
proof (induction cur arr arbitrary: s rule: scan_rows.induct)
  case (1 cur arr s)
  show ?case
  proof (cases "intarrayEof cur arr")
    case True
    then have "ci cur = n arr" using "1.prems"(2) by (auto simp: intarrayEof_def first_from_def)
    then have "filter (row_sat cur arr) [s..n arr - 1] = []"
      using first_from_filter [OF "1.prems"(2,3)] by simp
    then show ?thesis using True by (simp add: scan_rows.simps)
  next
    case False
    then have lt: "ci cur < n arr" by (simp add: intarrayEof_def)
    define cur' i' where "cur' = fst (intarrayNextMatch cur arr (ci cur + 1))"
      and "i' = snd (intarrayNextMatch cur arr (ci cur + 1))"
    have nx: "fst (intarrayNext cur arr) = cur'\<lparr>ci := i'\<rparr>"
      by (simp add: intarrayNext_def cur'_def i'_def split: prod.splits)
    have spec: "next_spec cur arr (ci cur + 1) cur' i'"
      unfolding cur'_def i'_def using nextMatch_spec "1.prems"(1,5) lt by blast
    then have IH: "scan_rows (cur'\<lparr>ci := i'\<rparr>) arr = filter (row_sat cur arr) [ci cur + 1..n arr - 1]"
      using "1.IH" [OF False, of "ci cur + 1"] nx "1.prems" lt
      by (auto simp: next_spec_def first_from_def)
    have sat: "row_sat cur arr (ci cur)" using "1.prems"(2) lt by (auto simp: first_from_def)
    have "filter (row_sat cur arr) [s..n arr - 1] = filter (row_sat cur arr) [ci cur..n arr - 1]"
      using first_from_filter [OF "1.prems"(2,3)] by simp
    also have "[ci cur..n arr - 1] = ci cur # [ci cur + 1..n arr - 1]"
      using lt by (intro upto_rec1) simp
    finally show ?thesis using False IH sat nx
      by (simp add: scan_rows.simps [of cur] intarrayRowid_def)
  qed
qed

subsection \<open>The binary search\<close>

text \<open>The first position whose element is not below \<open>v\<close>.\<close>

definition lower_bound :: "int list \<Rightarrow> int \<Rightarrow> int \<Rightarrow> bool" where
  "lower_bound xs v r \<longleftrightarrow>
     0 \<le> r \<and> r \<le> int (length xs) \<and>
     (\<forall>k < length xs. int k < r \<longrightarrow> xs ! k < v) \<and> (\<forall>k < length xs. r \<le> int k \<longrightarrow> v \<le> xs ! k)"

lemma midpoint_in_range:
  assumes "0 \<le> lo" "lo \<le> hi" "hi < 2 ^ 30"
  shows "c_int32 (lo + hi) = lo + hi" "lo \<le> (lo + hi) div 2" "(lo + hi) div 2 \<le> hi"
proof -
  show "c_int32 (lo + hi) = lo + hi"
    by (rule c_int32_id) (use assms in \<open>simp add: in_int32_def\<close>)
  show "lo \<le> (lo + hi) div 2" "(lo + hi) div 2 \<le> hi" using assms by linarith+
qed

lemma bsearch_loop_correct:
  assumes "sorted xs" "int (length xs) \<le> 2 ^ 30" "lf \<or> distinct xs"
    and "0 \<le> lo" "hi < int (length xs)" "lo \<le> hi + 1"
    and "\<forall>k < length xs. int k < lo \<longrightarrow> xs ! k < v"
    and "\<forall>k < length xs. hi < int k \<longrightarrow> v \<le> xs ! k"
  shows "\<exists>r. bsearch_loop v xs lf lo hi = Some r \<and> lower_bound xs v r"
  using assms(4-8)
proof (induction "nat (hi - lo + 1)" arbitrary: lo hi rule: less_induct)
  case (less lo hi)
  show ?case
  proof (cases "lo \<le> hi")
    case False
    then have "bsearch_loop v xs lf lo hi = Some lo" by (simp add: bsearch_loop.simps)
    moreover have "lower_bound xs v lo"
      using False less.prems by (auto simp: lower_bound_def)
    ultimately show ?thesis by blast
  next
    case True
    define i where "i = (lo + hi) div 2"
    have "hi < 2 ^ 30" using less.prems(2) assms(2) by linarith
    note mid = midpoint_in_range [OF less.prems(1) True this, folded i_def]
    have i: "0 \<le> i" "i < int (length xs)" using mid less.prems by linarith+
    then have ni: "nat i < length xs" by linarith
    have get: "array_get xs (c_int32 (lo + hi) div 2) = Some (xs ! nat i)"
      using i mid(1) by (simp add: array_get_def i_def)
    have step: "bsearch_loop v xs lf lo hi =
      (if xs ! nat i < v then bsearch_loop v xs lf (i + 1) hi
       else if xs ! nat i > v \<or> lf then bsearch_loop v xs lf lo (i - 1) else Some i)"
      using True get mid(1) by (simp add: bsearch_loop.simps [of v xs lf lo hi] i_def)
    have below: "xs ! k \<le> xs ! nat i" if "int k \<le> i" for k
      using that ni assms(1) i by (intro sorted_nth_mono) auto
    have above: "xs ! nat i \<le> xs ! k" if "k < length xs" "i \<le> int k" for k
      using that assms(1) i by (intro sorted_nth_mono) auto
    show ?thesis
    proof (cases "xs ! nat i < v")
      case lt: True
      have "\<exists>r. bsearch_loop v xs lf (i + 1) hi = Some r \<and> lower_bound xs v r"
      proof (rule less.hyps)
        show "\<forall>k < length xs. int k < i + 1 \<longrightarrow> xs ! k < v"
          using below lt by (meson less_le_not_le order_le_less_trans zle_add1_eq_le)
      qed (use less.prems mid True in auto)
      with step lt show ?thesis by simp
    next
      case ge: False
      show ?thesis
      proof (cases "xs ! nat i > v \<or> lf")
        case True
        have "\<exists>r. bsearch_loop v xs lf lo (i - 1) = Some r \<and> lower_bound xs v r"
        proof (rule less.hyps)
          show "\<forall>k < length xs. i - 1 < int k \<longrightarrow> v \<le> xs ! k"
            using above ge by (meson dual_order.trans linorder_not_less zle_diff1_eq not_le_imp_less)
        qed (use less.prems mid \<open>lo \<le> hi\<close> in auto)
        with step ge True show ?thesis by simp
      next
        case False
        then have eq: "xs ! nat i = v" and d: "distinct xs" using ge assms(3) by auto
        have "xs ! k < v" if "k < length xs" "int k < i" for k
        proof -
          have "xs ! k \<noteq> xs ! nat i" using d that ni by (simp add: nth_eq_iff_index_eq)
          then show ?thesis using below [of k] that eq by simp
        qed
        then have "lower_bound xs v i"
          using above i eq by (auto simp: lower_bound_def)
        with step ge False show ?thesis by simp
      qed
    qed
  qed
qed

lemma intarray_bsearch_lower_bound:
  assumes "sorted xs" "int (length xs) \<le> 2 ^ 30" "locateFirst \<or> distinct xs"
  shows "\<exists>r. intarray_bsearch v xs 0 (int (length xs)) locateFirst = Some r \<and> lower_bound xs v r"
  unfolding intarray_bsearch_def
  by (rule bsearch_loop_correct) (use assms in auto)

text \<open>The search ends and stays inside the array whatever the order of the elements.\<close>

lemma bsearch_loop_total:
  assumes "int (length xs) \<le> 2 ^ 30" "0 \<le> lo" "hi < int (length xs)"
  shows "bsearch_loop v xs lf lo hi \<noteq> None"
  using assms(2,3)
proof (induction "nat (hi - lo + 1)" arbitrary: lo hi rule: less_induct)
  case (less lo hi)
  show ?case
  proof (cases "lo \<le> hi")
    case False
    then show ?thesis by (simp add: bsearch_loop.simps)
  next
    case True
    define i where "i = (lo + hi) div 2"
    have "hi < 2 ^ 30" using less.prems(2) assms(1) by linarith
    note mid = midpoint_in_range [OF less.prems(1) True this, folded i_def]
    have i: "0 \<le> i" "i < int (length xs)" using mid less.prems by linarith+
    have "bsearch_loop v xs lf (i + 1) hi \<noteq> None" "bsearch_loop v xs lf lo (i - 1) \<noteq> None"
      by (rule less.hyps; use less.prems mid True in simp)+
    moreover have "array_get xs (c_int32 (lo + hi) div 2) = Some (xs ! nat i)"
      using i mid(1) by (simp add: array_get_def i_def)
    ultimately show ?thesis
      using mid(1) by (simp add: bsearch_loop.simps [of v xs lf lo hi] i_def)
  qed
qed

subsection \<open>The parameters that the filter derives\<close>

definition params_ok :: "intarray_cursor \<Rightarrow> bool" where
  "params_ok cur \<longleftrightarrow> (hasMin cur \<longrightarrow> in_int64 (cmin cur)) \<and> (hasMax cur \<longrightarrow> in_int64 (cmax cur))"

fun value_ok :: "sqlite3_value \<Rightarrow> bool" where
  "value_ok (VInteger i) = in_int64 i"
| "value_ok _ = True"

lemma saturate64_range [simp]: "in_int64 (saturate64 x)"
  by (auto simp: saturate64_def in_int64_def int64_defs)

text \<open>What narrowing a cursor's bounds leaves alone.\<close>

definition narrows :: "intarray_cursor \<Rightarrow> intarray_cursor \<Rightarrow> bool" where
  "narrows cur cur' \<longleftrightarrow>
     params_ok cur' \<and> (mode cur' = mode cur \<or> mode cur' = -1) \<and> uniqueLeft cur' = uniqueLeft cur"

lemma narrows_refl: "params_ok cur \<Longrightarrow> narrows cur cur"
  by (simp add: narrows_def)

lemma narrows_zeroset: "params_ok cur \<Longrightarrow> narrows cur (cur\<lparr>mode := INTARRAY_ZEROSET\<rparr>)"
  by (simp add: narrows_def params_ok_def mode_defs)

lemma narrows_trans: "narrows cur cur1 \<Longrightarrow> narrows cur1 cur2 \<Longrightarrow> narrows cur cur2"
  by (auto simp: narrows_def)

lemma narrows_MAX: "in_int64 v \<Longrightarrow> params_ok cur \<Longrightarrow> narrows cur (fst (INTARRAY_MAX cur v e))"
  by (auto simp: INTARRAY_MAX_def narrows_def params_ok_def in_int64_def int64_defs Let_def)

lemma narrows_MIN: "in_int64 v \<Longrightarrow> params_ok cur \<Longrightarrow> narrows cur (fst (INTARRAY_MIN cur v e))"
  by (auto simp: INTARRAY_MIN_def narrows_def params_ok_def in_int64_def int64_defs Let_def)

lemma snd_MIN_False [simp]: "snd (INTARRAY_MIN cur v False) = v"
  by (simp add: INTARRAY_MIN_def Let_def)

lemma narrows_boundary:
  assumes "in_int64 v" "params_ok cur"
  shows "narrows cur (intarrayBoundary opn cur v e)"
proof -
  have "narrows cur (fst (INTARRAY_MIN cur v False))" using narrows_MIN assms by blast
  moreover from this have "params_ok (fst (INTARRAY_MIN cur v False))" by (simp add: narrows_def)
  ultimately have "narrows cur (fst (INTARRAY_MAX (fst (INTARRAY_MIN cur v False)) v False))"
    using narrows_trans narrows_MAX assms(1) by blast
  then show ?thesis
    using assms by (simp add: intarrayBoundary_def narrows_MIN narrows_MAX narrows_zeroset narrows_refl
        case_prod_beta)
qed

lemma narrows_constrain:
  "value_ok v \<Longrightarrow> params_ok cur \<Longrightarrow> narrows cur (intarrayConstrainCursor opn v cur)"
  by (cases v) (simp_all add: intarrayConstrainCursor_def narrows_boundary narrows_zeroset narrows_refl
      Let_def split: double.splits)

definition filter_cursor :: "intarray_cursor \<Rightarrow> int \<Rightarrow> intarray_cursor" where
  "filter_cursor cur idxNum =
     cur\<lparr>mode := idxNum AND 3, hasMin := False, hasMax := False, cmin := 0, cmax := 0, uniqueLeft := -1\<rparr>"

lemma filter_params_steps:
  "filter_params cur idxNum argv =
     (let op1 = drop_bit 2 idxNum AND 7; op2 = drop_bit 5 idxNum AND 7; cur0 = filter_cursor cur idxNum;
          cur1 = (if mode cur0 > 0 \<and> length argv > 0 \<and> op1 \<noteq> 0
                  then intarrayConstrainCursor op1 (argv ! 0) cur0 else cur0)
      in if mode cur1 > 0 \<and> length argv > 1 \<and> op2 \<noteq> 0
         then intarrayConstrainCursor op2 (argv ! 1) cur1 else cur1)"
  by (simp add: filter_params_def filter_cursor_def Let_def)

lemma narrows_filter_params:
  assumes "\<forall>v \<in> set argv. value_ok v"
  shows "narrows (filter_cursor cur idxNum) (filter_params cur idxNum argv)"
proof -
  let ?c0 = "filter_cursor cur idxNum" and ?op1 = "drop_bit 2 idxNum AND 7"
  let ?c1 = "if mode ?c0 > 0 \<and> length argv > 0 \<and> ?op1 \<noteq> 0
    then intarrayConstrainCursor ?op1 (argv ! 0) ?c0 else ?c0"
  have "params_ok ?c0" by (simp add: params_ok_def filter_cursor_def)
  then have 1: "narrows ?c0 ?c1" using assms by (simp add: narrows_constrain narrows_refl)
  then have "params_ok ?c1" by (simp only: narrows_def)
  then have "narrows ?c1 (filter_params cur idxNum argv)"
    unfolding filter_params_steps Let_def using assms by (auto intro!: narrows_constrain narrows_refl)
  with 1 show ?thesis by (rule narrows_trans)
qed

lemma filter_params_scan_mode:
  "idxNum AND 3 = 0 \<Longrightarrow> filter_params cur idxNum argv = filter_cursor cur idxNum"
  by (simp add: filter_params_steps filter_cursor_def)

subsection \<open>Where the filter starts\<close>

text \<open>
  The plans and arrays for which the starting position is right: a lower bound on the row id
  must be a C int, and an ordered array with a lower bound must be long enough for the
  binary search to be used.
\<close>

definition plan_ok :: "intarray_cursor \<Rightarrow> sqlite3_intarray \<Rightarrow> bool" where
  "plan_ok p arr \<longleftrightarrow>
     (hasMin p \<and> mode p = 1 \<longrightarrow> in_int32 (cmin p)) \<and>
     (hasMin p \<and> mode p = 2 \<and> ordered arr \<noteq> 0 \<longrightarrow> n arr > INTARRAY_BSEARCH_THRESHOLD)"

lemma elem_nth: "elem arr (int k) = a arr ! k"
  by (simp add: elem_def)

lemma filter_start_ok:
  assumes wf: "arr_wf arr" and p: "plan_ok p arr" and m: "0 \<le> mode p"
  shows "\<exists>s. filter_start p arr = Some s \<and> 0 \<le> s \<and> (\<forall>k. 0 \<le> k \<and> k < s \<and> k < n arr \<longrightarrow> \<not> row_sat p arr k) \<and>
    (mode p = 1 \<and> hasMin p \<longrightarrow> cmin p \<le> s) \<and>
    (mode p = 2 \<and> ordered arr \<noteq> 0 \<and> hasMin p \<longrightarrow> (\<forall>k. s \<le> k \<and> k < n arr \<longrightarrow> cmin p \<le> elem arr k))"
proof -
  consider "hasMin p" "mode p = 1" | "hasMin p" "mode p = 2" "ordered arr \<noteq> 0"
    | "\<not> (hasMin p \<and> mode p = 1)" "\<not> (hasMin p \<and> mode p = 2 \<and> ordered arr \<noteq> 0)" by blast
  then show ?thesis
  proof cases
    case 1
    then have "c_int32 (cmin p) = cmin p" using p by (simp add: plan_ok_def)
    then show ?thesis using 1 by (auto simp: filter_start_def row_sat_def bounded_def Let_def)
  next
    case 2
    then obtain r where r: "intarray_bsearch (cmin p) (a arr) 0 (n arr) (unique arr = 0) = Some r"
      "lower_bound (a arr) (cmin p) r"
      using intarray_bsearch_lower_bound [of "a arr" "unique arr = 0" "cmin p"] wf
      by (auto simp: arr_wf_def)
    have k: "(k < r \<longrightarrow> elem arr k < cmin p) \<and> (r \<le> k \<longrightarrow> cmin p \<le> elem arr k)" if "0 \<le> k" "k < n arr" for k
      using that r(2) wf elem_nth [of arr "nat k"] by (auto simp: lower_bound_def arr_wf_def)
    have "filter_start p arr = Some r" using 2 p r(1) by (auto simp: filter_start_def plan_ok_def)
    moreover have "0 \<le> r" using r(2) by (simp add: lower_bound_def)
    moreover have "\<not> row_sat p arr j" if "0 \<le> j" "j < r" "j < n arr" for j
      using that 2 k [of j] by (simp add: row_sat_def bounded_def)
    moreover have "cmin p \<le> elem arr j" if "r \<le> j" "j < n arr" for j
      using that k [of j] \<open>0 \<le> r\<close> by simp
    ultimately show ?thesis using 2 by auto
  next
    case 3
    then show ?thesis by (auto simp: filter_start_def)
  qed
qed

lemma unique_rows_card:
  assumes wf: "arr_wf arr" and u: "unique arr \<noteq> 0" and m: "mode p = 2" "hasMin p" "hasMax p" and s: "0 \<le> s"
  shows "card {k. s \<le> k \<and> k < n arr \<and> row_sat p arr k} \<le> nat (cmax p - cmin p + 1)"
proof -
  let ?R = "{k. s \<le> k \<and> k < n arr \<and> row_sat p arr k}"
  have "inj_on (elem arr) ?R"
    using wf u s by (auto simp: inj_on_def arr_wf_def elem_def nth_eq_iff_index_eq)
  then have "card ?R = card (elem arr ` ?R)" by (simp add: card_image)
  also have "\<dots> \<le> card {cmin p..cmax p}"
    using m by (intro card_mono) (auto simp: row_sat_def bounded_def)
  finally show ?thesis by simp
qed

lemma filter_unique_ok:
  assumes wf: "arr_wf arr" and pk: "params_ok p" and u: "uniqueLeft p = -1" and s: "0 \<le> s"
    and le: "\<not> (hasMin p \<and> hasMax p \<and> cmin p > cmax p)"
  shows "uniqueLeft (filter_unique p arr) \<ge> 0 \<longrightarrow>
    int (card {k. s \<le> k \<and> k < n arr \<and> row_sat p arr k}) \<le> uniqueLeft (filter_unique p arr)"
proof (cases "unique arr \<noteq> 0 \<and> mode p = 2 \<and> hasMin p \<and> hasMax p")
  case True
  define v where "v = cmax p - cmin p + 1"
  have v: "0 < v" "v \<le> 2 ^ 64" using True le pk by (auto simp: v_def params_ok_def in_int64_def)
  show ?thesis
  proof (cases "v < 2 ^ 63")
    case small: True
    then have "c_int64 v = v" using v by (simp add: in_int64_def)
    moreover have "v < 0x7FFFFFFF \<Longrightarrow> c_int32 v = v" using v by (simp add: in_int32_def)
    ultimately show ?thesis
      using True u unique_rows_card [OF wf _ _ _ _ s, of p] v
      by (auto simp: filter_unique_def v_def [symmetric] Let_def)
  next
    case False
    then have "c_int64 v \<le> 0" using v c_int64_over [of v] by simp
    then show ?thesis using True u by (simp add: filter_unique_def v_def [symmetric] Let_def)
  qed
next
  case False
  then have "filter_unique p arr = p" by (auto simp: filter_unique_def)
  then show ?thesis using u by simp
qed

subsection \<open>Properties of a scan\<close>

lemma filter_unique_sat [simp]: "row_sat (filter_unique p arr) arr = row_sat p arr"
  by (simp add: filter_unique_def Let_def)

lemma filter_unique_fields [simp]:
  "mode (filter_unique p arr) = mode p" "hasMin (filter_unique p arr) = hasMin p"
  "cmin (filter_unique p arr) = cmin p" "hasMax (filter_unique p arr) = hasMax p"
  "cmax (filter_unique p arr) = cmax p"
  by (simp_all add: filter_unique_def Let_def)

lemma filter_never_true:
  assumes nar: "narrows (filter_cursor cur idxNum) (filter_params cur idxNum argv)"
    and idx: "idxNum AND 3 \<in> {0, 1, 2}"
    and never: "mode (filter_params cur idxNum argv) < 0 \<or>
      (hasMin (filter_params cur idxNum argv) \<and> hasMax (filter_params cur idxNum argv) \<and>
       cmin (filter_params cur idxNum argv) > cmax (filter_params cur idxNum argv))"
  shows "\<exists>cur'. intarrayFilter cur arr idxNum argv = Some (cur', SQLITE_OK) \<and>
    scan_rows cur' arr = filter (row_sat (filter_params cur idxNum argv) arr) [0..n arr - 1]"
proof -
  define p where "p = filter_params cur idxNum argv"
  note never = never [folded p_def]
  have md: "mode p = idxNum AND 3 \<or> mode p = -1"
    using nar by (auto simp: narrows_def filter_cursor_def p_def)
  have "\<not> row_sat p arr k" for k
  proof (cases "mode p < 0")
    case neg: False
    with never md idx have "mode p \<noteq> 0"
      using filter_params_scan_mode [of idxNum cur argv] by (auto simp: p_def filter_cursor_def)
    with md idx neg have "mode p = 1 \<or> mode p = 2" by auto
    then show ?thesis using never neg by (auto simp: row_sat_def bounded_def)
  qed (simp add: row_sat_def)
  then have "filter (row_sat p arr) [0..n arr - 1] = []" by simp
  moreover have "intarrayFilter cur arr idxNum argv = Some (p\<lparr>ci := n arr\<rparr>, SQLITE_OK)"
    using never by (simp add: intarrayFilter_def p_def Let_def)
  moreover have "scan_rows (p\<lparr>ci := n arr\<rparr>) arr = []"
    by (simp add: scan_rows.simps intarrayEof_def)
  ultimately show ?thesis unfolding p_def by simp
qed

lemma intarrayFilter_total:
  assumes "n arr = int (length (a arr))" "n arr \<le> 2 ^ 30"
  shows "\<exists>cur'. intarrayFilter cur arr idxNum argv = Some (cur', SQLITE_OK)"
proof -
  define p where "p = filter_params cur idxNum argv"
  have "intarray_bsearch v (a arr) 0 (n arr) lf \<noteq> None" for v lf
    unfolding intarray_bsearch_def by (rule bsearch_loop_total) (use assms in auto)
  then obtain st where "filter_start p arr = Some st"
    unfolding filter_start_def Let_def by (metis option.exhaust)
  moreover obtain c i where "intarrayNextMatch (filter_unique p arr) arr st = (c, i)" by fastforce
  ultimately show ?thesis by (simp add: intarrayFilter_def p_def [symmetric] Let_def)
qed

text \<open>
  The scan as a whole: the rows visited between \<open>intarrayFilter\<close> and the end.
\<close>

lemma filter_scan_rows:
  assumes wf: "arr_wf arr" and args: "\<forall>v \<in> set argv. value_ok v"
    and idx: "idxNum AND 3 \<in> {0, 1, 2}" and plan: "plan_ok (filter_params cur idxNum argv) arr"
  shows "\<exists>cur'. intarrayFilter cur arr idxNum argv = Some (cur', SQLITE_OK) \<and>
    scan_rows cur' arr = filter (row_sat (filter_params cur idxNum argv) arr) [0..n arr - 1]"
proof -
  define p where "p = filter_params cur idxNum argv"
  have nar: "narrows (filter_cursor cur idxNum) p" unfolding p_def by (rule narrows_filter_params [OF args])
  then have pk: "params_ok p" and ul: "uniqueLeft p = -1" and md: "mode p = idxNum AND 3 \<or> mode p = -1"
    by (auto simp: narrows_def filter_cursor_def)
  have n0: "0 \<le> n arr" using wf by (simp add: arr_wf_def)
  show ?thesis
  proof (cases "mode p < 0 \<or> (hasMin p \<and> hasMax p \<and> cmin p > cmax p)")
    case True
    then show ?thesis
      unfolding p_def using filter_never_true [OF nar [unfolded p_def] idx] by (auto simp: p_def)
  next
    case False
    then have m0: "0 \<le> mode p" by simp
    obtain s where s: "filter_start p arr = Some s" "0 \<le> s"
      "\<forall>k. 0 \<le> k \<and> k < s \<and> k < n arr \<longrightarrow> \<not> row_sat p arr k"
      "mode p = 1 \<and> hasMin p \<longrightarrow> cmin p \<le> s"
      "mode p = 2 \<and> ordered arr \<noteq> 0 \<and> hasMin p \<longrightarrow> (\<forall>k. s \<le> k \<and> k < n arr \<longrightarrow> cmin p \<le> elem arr k)"
      using filter_start_ok [OF wf plan [folded p_def] m0] by blast
    define q where "q = filter_unique p arr"
    have "next_ok q arr s"
      using s m0 filter_unique_ok [OF wf pk ul s(2)] False by (simp add: next_ok_def q_def)
    then have spec: "next_spec q arr s (fst (intarrayNextMatch q arr s)) (snd (intarrayNextMatch q arr s))"
      using nextMatch_spec [OF wf] by blast
    obtain c i where ci: "intarrayNextMatch q arr s = (c, i)" by fastforce
    have res: "intarrayFilter cur arr idxNum argv = Some (c\<lparr>ci := i\<rparr>, SQLITE_OK)"
      using False s(1) ci by (auto simp: intarrayFilter_def p_def [symmetric] q_def [symmetric] Let_def)
    have ff: "first_from (row_sat p arr) s (n arr) i"
      using spec ci by (simp add: next_spec_def q_def)
    have "first_from (row_sat p arr) 0 (n arr) i"
      by (rule first_from_extend [OF ff s(2,3)])
    then have "scan_rows (c\<lparr>ci := i\<rparr>) arr = filter (row_sat p arr) [0..n arr - 1]"
      using scan_rows_filter [OF wf, of "c\<lparr>ci := i\<rparr>" 0] spec ci n0 by (simp add: next_spec_def q_def)
    with res show ?thesis unfolding p_def by blast
  qed
qed

definition small_array :: sqlite3_intarray where
  "small_array = \<lparr>zName = [97], n = 3, a = [1, 2, 3], xFree = False, ordered = 1, unique = 1,
     useCount = 0, connectCount = 1, commitState = 1\<rparr>"

definition big_array :: sqlite3_intarray where
  "big_array = \<lparr>zName = [97], n = 9, a = [-5, -2, 0, 1, 2, 3, 5, 8, 13], xFree = False, ordered = 1,
     unique = 1, useCount = 0, connectCount = 1, commitState = 1\<rparr>"

definition fresh_cursor :: intarray_cursor where
  "fresh_cursor = \<lparr>mode = 0, cmax = 0, cmin = 0, hasMax = False, hasMin = False, ci = 0, uniqueLeft = 0\<rparr>"



subsection \<open>The bounds against the comparisons of SQL\<close>

text \<open>
  The comparison of an integer with a value as SQL defines it: numbers by size, every
  number below every text and every blob, and nothing comparable with NULL.
\<close>

fun compare_value :: "int \<Rightarrow> sqlite3_value \<Rightarrow> int option" where
  "compare_value x (VInteger i) = Some (sgn (x - i))"
| "compare_value x (VFloat (Fin q)) = Some (if of_int x < q then -1 else if of_int x = q then 0 else 1)"
| "compare_value x (VFloat PosInf) = Some (-1)"
| "compare_value x (VFloat NegInf) = Some 1"
| "compare_value x (VText _) = Some (-1)"
| "compare_value x (VBlob _) = Some (-1)"
| "compare_value x VNull = None"

definition op_holds :: "int \<Rightarrow> int \<Rightarrow> sqlite3_value \<Rightarrow> bool" where
  "op_holds opn x v =
     (case compare_value x v of
        None \<Rightarrow> False
      | Some c \<Rightarrow>
          if opn = INTARRAY_UPPER then c < 0
          else if opn = INTARRAY_UPPER + INTARRAY_EQ then c \<le> 0
          else if opn = INTARRAY_LOWER then c > 0
          else if opn = INTARRAY_LOWER + INTARRAY_EQ then c \<ge> 0
          else c = 0)"

definition valid_op :: "int \<Rightarrow> bool" where
  "valid_op opn \<longleftrightarrow> opn \<in> {1, 2, 3, 4, 6}"

text \<open>Finite doubles: a mantissa of 53 bits and a power of two, of either sign.\<close>

definition is_double :: "rat \<Rightarrow> bool" where
  "is_double q \<longleftrightarrow>
     (\<exists>m e. \<bar>m\<bar> < 2 ^ 53 \<and> (q = of_int (m * 2 ^ e) \<or> q = of_int m / 2 ^ e))"

lemma int64_to_double_exact:
  assumes "\<bar>m\<bar> < 2 ^ 53"
  shows "int64_to_double (m * 2 ^ e) = of_int (m * 2 ^ e)"
proof (cases "m = 0")
  case True
  then show ?thesis by (simp add: int64_to_double_def)
next
  case False
  let ?x = "m * 2 ^ e" and ?k = "nat (bitlen \<bar>m * 2 ^ e\<bar> - 53)"
  have x: "\<bar>?x\<bar> = \<bar>m\<bar> * 2 ^ e" by (simp add: abs_mult)
  have "bitlen \<bar>m\<bar> \<le> 53"
    using assms by (simp add: bitlen_le_iff_power)
  then have "bitlen \<bar>?x\<bar> \<le> 53 + int e" using False by (simp add: x)
  then have "?k \<le> e" by linarith
  then have d: "2 ^ ?k dvd \<bar>?x\<bar>" unfolding x by (intro dvd_mult le_imp_power_dvd)
  then have "\<bar>?x\<bar> mod 2 ^ ?k = 0" by (rule dvd_imp_mod_0)
  then have "int64_to_double ?x = of_int (sgn ?x * (\<bar>?x\<bar> div 2 ^ ?k) * 2 ^ ?k)"
    unfolding int64_to_double_def Let_def by simp
  also have "sgn ?x * (\<bar>?x\<bar> div 2 ^ ?k) * 2 ^ ?k = sgn ?x * \<bar>?x\<bar>"
    using dvd_div_mult_self [OF d] by (simp only: mult.assoc)
  also have "\<dots> = ?x" by (rule sgn_mult_abs)
  finally show ?thesis .
qed

lemma int64_to_double_small: "\<bar>x\<bar> \<le> 2 ^ 53 \<Longrightarrow> int64_to_double x = of_int x"
proof -
  assume "\<bar>x\<bar> \<le> 2 ^ 53"
  then consider "\<bar>x\<bar> < 2 ^ 53" | "x = 1 * 2 ^ 53" | "x = -1 * 2 ^ 53" by linarith
  then show ?thesis
  proof cases
    case 1
    then show ?thesis using int64_to_double_exact [of x 0] by simp
  next
    case 2
    then show ?thesis using int64_to_double_exact [of 1 53] by simp
  next
    case 3
    then show ?thesis using int64_to_double_exact [of "-1" 53] by simp
  qed
qed

lemma is_double_below:
  assumes "is_double q" "q < 2 ^ 63"
  shows "q \<le> 2 ^ 63 - 1"
proof -
  from assms(1) obtain m e where m: "\<bar>m\<bar> < 2 ^ 53" "q = of_int (m * 2 ^ e) \<or> q = of_int m / 2 ^ e"
    by (auto simp: is_double_def)
  from m(2) show ?thesis
  proof
    assume q: "q = of_int (m * 2 ^ e)"
    with assms(2) have "(of_int (m * 2 ^ e) :: rat) < of_int (2 ^ 63)" by simp
    then have "m * 2 ^ e \<le> 2 ^ 63 - 1" by (simp only: of_int_less_iff)
    then have "(of_int (m * 2 ^ e) :: rat) \<le> of_int (2 ^ 63 - 1)" by (simp only: of_int_le_iff)
    with q show ?thesis by simp
  next
    assume q: "q = of_int m / 2 ^ e"
    have "of_int m / 2 ^ e \<le> \<bar>of_int m :: rat\<bar>"
      by (rule order_trans [of _ "\<bar>of_int m / 2 ^ e\<bar>"])
        (simp_all add: abs_divide divide_le_eq mult_le_cancel_left1)
    also have "\<dots> \<le> of_int (2 ^ 53)" using m(1) by (simp only: of_int_abs [symmetric] of_int_le_iff)
    finally show ?thesis using q by simp
  qed
qed

text \<open>The double nearest to the integer chosen for a bound is the bound itself exactly when it is an integer.\<close>

lemma double_integral_exact:
  assumes "is_double q" "q = of_int i"
  shows "int64_to_double i = q"
proof -
  from assms(1) obtain m e where m: "\<bar>m\<bar> < 2 ^ 53" "q = of_int (m * 2 ^ e) \<or> q = of_int m / 2 ^ e"
    by (auto simp: is_double_def)
  from m(2) show ?thesis
  proof
    assume "q = of_int (m * 2 ^ e)"
    with assms(2) have "i = m * 2 ^ e" by (simp only: of_int_eq_iff)
    then show ?thesis using int64_to_double_exact [OF m(1)] assms(2) by simp
  next
    assume q: "q = of_int m / 2 ^ e"
    with assms(2) have "(of_int (i * 2 ^ e) :: rat) = of_int m" by (simp add: field_simps)
    then have "m = i * 2 ^ e" by (simp only: of_int_eq_iff)
    then have "\<bar>i\<bar> * 1 \<le> \<bar>m\<bar>" by (simp only: abs_mult) (intro mult_left_mono, simp_all)
    then show ?thesis using m(1) assms(2) int64_to_double_small [of i] by simp
  qed
qed

lemma double_fractional_small:
  assumes "is_double q" "\<forall>i. q \<noteq> of_int i"
  shows "\<bar>q\<bar> < 2 ^ 53"
proof -
  from assms(1) obtain m e where m: "\<bar>m\<bar> < 2 ^ 53" "q = of_int (m * 2 ^ e) \<or> q = of_int m / 2 ^ e"
    by (auto simp: is_double_def)
  with assms(2) have q: "q = of_int m / 2 ^ e" by blast
  have "\<bar>of_int m / 2 ^ e\<bar> \<le> \<bar>of_int m :: rat\<bar>"
    by (simp add: abs_divide divide_le_eq mult_le_cancel_left1)
  also have "\<dots> < of_int (2 ^ 53)" using m(1) by (simp only: of_int_abs [symmetric] of_int_less_iff)
  finally show ?thesis using q by simp
qed

definition cursor_sem :: "intarray_cursor \<Rightarrow> int \<Rightarrow> bool" where
  "cursor_sem cur x \<longleftrightarrow> mode cur \<ge> 0 \<and> bounded cur x"

lemma cursor_sem_MIN:
  "cursor_sem (fst (INTARRAY_MIN cur v e)) x \<longleftrightarrow>
     cursor_sem cur x \<and> (if e \<and> v < LARGEST_INT64 then v + 1 else v) \<le> x"
  by (auto simp: cursor_sem_def INTARRAY_MIN_def bounded_def Let_def)

lemma cursor_sem_MAX:
  "cursor_sem (fst (INTARRAY_MAX cur v e)) x \<longleftrightarrow>
     cursor_sem cur x \<and> x \<le> (if e \<and> v > SMALLEST_INT64 then v - 1 else v)"
  by (auto simp: cursor_sem_def INTARRAY_MAX_def bounded_def Let_def)

lemma cursor_sem_zeroset [simp]: "\<not> cursor_sem (cur\<lparr>mode := INTARRAY_ZEROSET\<rparr>) x"
  by (simp add: cursor_sem_def mode_defs)

lemma has_bit_table [simp]:
  "\<not> has_bit 1 INTARRAY_EQ" "\<not> has_bit 1 INTARRAY_LOWER" "has_bit 1 INTARRAY_UPPER"
  "has_bit 2 INTARRAY_EQ" "\<not> has_bit 2 INTARRAY_LOWER" "\<not> has_bit 2 INTARRAY_UPPER"
  "has_bit 3 INTARRAY_EQ" "\<not> has_bit 3 INTARRAY_LOWER" "has_bit 3 INTARRAY_UPPER"
  "\<not> has_bit 4 INTARRAY_EQ" "has_bit 4 INTARRAY_LOWER" "\<not> has_bit 4 INTARRAY_UPPER"
  "has_bit 6 INTARRAY_EQ" "has_bit 6 INTARRAY_LOWER" "\<not> has_bit 6 INTARRAY_UPPER"
  by (simp_all add: has_bit_def op_defs)

lemma op_holds_table [simp]:
  "op_holds 1 x v \<longleftrightarrow> (\<exists>c. compare_value x v = Some c \<and> c < 0)"
  "op_holds 2 x v \<longleftrightarrow> (\<exists>c. compare_value x v = Some c \<and> c = 0)"
  "op_holds 3 x v \<longleftrightarrow> (\<exists>c. compare_value x v = Some c \<and> c \<le> 0)"
  "op_holds 4 x v \<longleftrightarrow> (\<exists>c. compare_value x v = Some c \<and> c > 0)"
  "op_holds 6 x v \<longleftrightarrow> (\<exists>c. compare_value x v = Some c \<and> c \<ge> 0)"
  by (auto simp: op_holds_def op_defs split: option.splits)

lemma valid_op_cases:
  assumes "valid_op opn"
  obtains "opn = 1" | "opn = 2" | "opn = 3" | "opn = 4" | "opn = 6"
  using assms by (auto simp: valid_op_def)

lemma sgn_diff_table [simp]:
  fixes x i :: int
  shows "sgn (x - i) < 0 \<longleftrightarrow> x < i" "sgn (x - i) \<le> 0 \<longleftrightarrow> x \<le> i" "sgn (x - i) > 0 \<longleftrightarrow> x > i"
    "sgn (x - i) \<ge> 0 \<longleftrightarrow> x \<ge> i" "sgn (x - i) = 0 \<longleftrightarrow> x = i"
  by (auto simp: sgn_if)

lemma boundary_integer:
  assumes "valid_op opn" "\<not> (opn = 1 \<and> i \<le> SMALLEST_INT64)" "\<not> (opn = 4 \<and> i \<ge> LARGEST_INT64)"
  shows "cursor_sem (intarrayBoundary opn cur i True) x \<longleftrightarrow> cursor_sem cur x \<and> op_holds opn x (VInteger i)"
  using assms(1)
  by (rule valid_op_cases)
    (use assms(2,3) in \<open>auto simp: intarrayBoundary_def cursor_sem_MAX cursor_sem_MIN case_prod_beta\<close>)

lemma boundary_fraction:
  assumes "valid_op opn" "\<forall>i. q \<noteq> of_int i"
  shows "cursor_sem (intarrayBoundary opn cur
      (if has_bit opn INTARRAY_LOWER then \<lceil>q\<rceil> else if has_bit opn INTARRAY_UPPER then \<lfloor>q\<rfloor> else truncate_rat q)
      False) x \<longleftrightarrow> cursor_sem cur x \<and> op_holds opn x (VFloat (Fin q))"
proof -
  have ne: "of_int x \<noteq> q" using assms(2) by metis
  have up: "x \<le> \<lfloor>q\<rfloor> \<longleftrightarrow> of_int x < q" using ne by (simp add: le_floor_iff less_le)
  have lo: "\<lceil>q\<rceil> \<le> x \<longleftrightarrow> \<not> of_int x < q" by (simp add: ceiling_le_iff not_less)
  from assms(1) show ?thesis
    by (rule valid_op_cases)
      (auto simp: intarrayBoundary_def cursor_sem_MAX cursor_sem_MIN ne up lo split: if_splits)
qed

lemma double_limits: "int64_to_double LARGEST_INT64 = 2 ^ 63" "int64_to_double SMALLEST_INT64 = - (2 ^ 63)"
  by code_simp+

text \<open>
  The arguments that the code compares as SQL does: every integer but the two at the end of
  the range under an exclusive bound that excludes everything, every double but 2 to the 63
  (and minus that under an exclusive upper bound), text, NULL, and blobs as lower bounds or
  in equalities.
\<close>

definition sound_arg :: "int \<Rightarrow> sqlite3_value \<Rightarrow> bool" where
  "sound_arg opn v \<longleftrightarrow>
     (case v of
        VInteger i \<Rightarrow> in_int64 i \<and> \<not> (opn = 1 \<and> i = SMALLEST_INT64) \<and> \<not> (opn = 4 \<and> i = LARGEST_INT64)
      | VFloat (Fin q) \<Rightarrow> is_double q \<and> q \<noteq> 2 ^ 63 \<and> \<not> (opn = 1 \<and> q = - (2 ^ 63))
      | VBlob _ \<Rightarrow> opn \<noteq> 1 \<and> opn \<noteq> 3
      | _ \<Rightarrow> True)"

lemma constrain_float_in_range:
  assumes op: "valid_op opn" and d: "is_double q" and r: "- (2 ^ 63) \<le> q" "q < 2 ^ 63"
    and e: "\<not> (opn = 1 \<and> q = - (2 ^ 63))"
  shows "cursor_sem (intarrayConstrainCursor opn (VFloat (Fin q)) cur) x \<longleftrightarrow>
    cursor_sem cur x \<and> op_holds opn x (VFloat (Fin q))"
proof -
  let ?i = "if has_bit opn INTARRAY_LOWER then \<lceil>q\<rceil> else if has_bit opn INTARRAY_UPPER then \<lfloor>q\<rfloor> else truncate_rat q"
  have q1: "q \<le> of_int (2 ^ 63 - 1)" using is_double_below [OF d r(2)] by simp
  have q0: "of_int (- (2 ^ 63)) \<le> q" using r(1) by simp
  have c: "- (2 ^ 63) \<le> \<lfloor>q\<rfloor>" "\<lceil>q\<rceil> \<le> 2 ^ 63 - 1"
    using q0 q1 by (simp_all only: le_floor_iff ceiling_le_iff)
  have "\<lfloor>q\<rfloor> \<le> \<lceil>q\<rceil>" by (rule floor_le_ceiling)
  with c have i: "- (2 ^ 63) \<le> ?i" "?i \<le> 2 ^ 63 - 1" by (auto simp: truncate_rat_def)
  then have sat: "saturate64 ?i = ?i" by (simp add: saturate64_def int64_defs)
  have nr: "\<not> 2 ^ 63 < q" "\<not> q < - (2 ^ 63)" using r by (simp_all only: not_less less_imp_le)
  have eq: "intarrayConstrainCursor opn (VFloat (Fin q)) cur =
    intarrayBoundary opn cur ?i (int64_to_double ?i = q)"
    using sat by (simp only: intarrayConstrainCursor_def double_limits sqlite3_value.case double.case
        double_gt.simps double_lt.simps Let_def nr if_False)
  show ?thesis
  proof (cases "\<exists>j. q = of_int j")
    case True
    then obtain j where j: "q = of_int j" by blast
    then have ij: "?i = j" by (simp add: truncate_rat_def)
    have "\<not> (opn = 1 \<and> j \<le> SMALLEST_INT64)" using e i(1) j ij by (auto simp: int64_defs)
    moreover have "\<not> (opn = 4 \<and> j \<ge> LARGEST_INT64)"
    proof
      assume "opn = 4 \<and> j \<ge> LARGEST_INT64"
      then have "j = 2 ^ 63 - 1" using c(2) j by (simp add: int64_defs)
      moreover have "int64_to_double (2 ^ 63 - 1) = 2 ^ 63"
        using double_limits(1) by (simp only: int64_defs)
      ultimately show False using double_integral_exact [OF d j] r(2) by simp
    qed
    ultimately have "cursor_sem (intarrayBoundary opn cur j True) x \<longleftrightarrow>
      cursor_sem cur x \<and> op_holds opn x (VInteger j)"
      by (rule boundary_integer [OF op])
    moreover have "op_holds opn x (VInteger j) \<longleftrightarrow> op_holds opn x (VFloat (Fin q))"
      using op by (rule valid_op_cases) (auto simp: j)
    ultimately show ?thesis using eq ij double_integral_exact [OF d j] by simp
  next
    case False
    have "\<bar>q\<bar> < of_int (2 ^ 53)" using double_fractional_small [OF d] False by simp
    then have "q \<le> of_int (2 ^ 53)" "of_int (- (2 ^ 53)) \<le> q" by (simp_all add: abs_less_iff)
    then have "\<lceil>q\<rceil> \<le> 2 ^ 53" "- (2 ^ 53) \<le> \<lfloor>q\<rfloor>"
      by (simp_all only: le_floor_iff ceiling_le_iff)
    moreover have "?i = \<lfloor>q\<rfloor> \<or> ?i = \<lceil>q\<rceil>" by (simp add: truncate_rat_def)
    ultimately have "\<bar>?i\<bar> \<le> 2 ^ 53"
      using \<open>\<lfloor>q\<rfloor> \<le> \<lceil>q\<rceil>\<close> by (elim disjE) linarith+
    then have "int64_to_double ?i \<noteq> q" using int64_to_double_small False by metis
    then show ?thesis using eq boundary_fraction [OF op, of q cur x] False by simp
  qed
qed

text \<open>
  The bounds derived from one argument mean what SQL means. For every accepted
  comparison, every 64-bit integer \<open>x\<close> and every argument of a type and size that
  \<open>sound_arg\<close> admits, \<open>x\<close> is within the cursor's bounds after
  \<open>intarrayConstrainCursor\<close> exactly when it was before and the comparison of \<open>x\<close> with
  the argument is true in SQL.
\<close>

lemma constrain_cursor_sql:
  assumes "valid_op opn" "in_int64 x" "sound_arg opn v"
  shows "cursor_sem (intarrayConstrainCursor opn v cur) x \<longleftrightarrow> cursor_sem cur x \<and> op_holds opn x v"
proof (cases v)
  case (VInteger i)
  then have "\<not> (opn = 1 \<and> i \<le> SMALLEST_INT64)" "\<not> (opn = 4 \<and> i \<ge> LARGEST_INT64)"
    using assms(3) by (auto simp: sound_arg_def in_int64_def int64_defs)
  then show ?thesis
    using boundary_integer [OF assms(1)] VInteger by (simp add: intarrayConstrainCursor_def)
next
  case (VFloat d)
  have x: "of_int (- (2 ^ 63)) \<le> (of_int x :: rat)" "(of_int x :: rat) < of_int (2 ^ 63)"
    using assms(2) by (simp_all only: in_int64_def of_int_le_iff of_int_less_iff)
  show ?thesis
  proof (cases d)
    case (Fin q)
    consider "q > 2 ^ 63" | "q < - (2 ^ 63)" | "- (2 ^ 63) \<le> q" "q < 2 ^ 63"
      using assms(3) VFloat Fin by (fastforce simp: sound_arg_def)
    then show ?thesis
    proof cases
      case 1
      then have "of_int x < q" using x(2) by simp
      with 1 show ?thesis using assms(1) VFloat Fin
        by (elim valid_op_cases) (auto simp: intarrayConstrainCursor_def double_limits)
    next
      case 2
      then have "q < of_int x" using x(1) by simp
      then have "\<not> of_int x < q" "of_int x \<noteq> q" by simp_all
      with 2 show ?thesis using assms(1) VFloat Fin
        by (elim valid_op_cases) (auto simp: intarrayConstrainCursor_def double_limits)
    next
      case 3
      then show ?thesis
        using constrain_float_in_range [OF assms(1) _ 3] assms(3) VFloat Fin by (auto simp: sound_arg_def)
    qed
  qed (use assms(1) VFloat in \<open>auto elim!: valid_op_cases simp: intarrayConstrainCursor_def\<close>)
qed (use assms in \<open>auto elim!: valid_op_cases simp: intarrayConstrainCursor_def sound_arg_def\<close>)

subsection \<open>Where the scan departs from SQL\<close>

text \<open>
  On an ordered array of at most seven elements the lower bound is not applied: the
  binary search is skipped and the ordered branch of \<open>intarrayNextMatch\<close> tests the upper
  bound only. The query \<open>value = 3\<close> on the ordered array 1, 2, 3 delivers all three rows,
  although the constraint is marked as needing no further test by SQLite.
\<close>

theorem small_ordered_scan_unsound:
  "\<exists>arr cur'. arr_wf arr \<and> intarrayFilter fresh_cursor arr 10 [VInteger 3] = Some (cur', SQLITE_OK) \<and>
    scan_values cur' arr = [1, 2, 3] \<and> \<not> op_holds INTARRAY_EQ 1 (VInteger 3)"
proof (intro exI conjI)
  show "arr_wf small_array" by (simp add: arr_wf_def small_array_def in_int64_def)
  let ?c = "fresh_cursor\<lparr>mode := 2, cmin := 3, cmax := 3, hasMin := True, hasMax := True, uniqueLeft := 1\<rparr>"
  have p: "filter_params fresh_cursor 10 [VInteger 3] = ?c\<lparr>uniqueLeft := -1\<rparr>"
    by (simp add: filter_params_def fresh_cursor_def intarrayConstrainCursor_def intarrayBoundary_def
        INTARRAY_MIN_def INTARRAY_MAX_def has_bit_def op_defs Let_def)
  show "intarrayFilter fresh_cursor small_array 10 [VInteger 3] = Some (?c\<lparr>ci := 0\<rparr>, SQLITE_OK)"
    unfolding intarrayFilter_def p
    by (simp add: filter_start_def filter_unique_def intarrayNextMatch_def small_array_def elem_def
        INTARRAY_BSEARCH_THRESHOLD_def c_int64_def c_int32_def fresh_cursor_def Let_def)
  show "scan_values (?c\<lparr>ci := 0\<rparr>) small_array = [1, 2, 3]"
    by code_simp
  show "\<not> op_holds INTARRAY_EQ 1 (VInteger 3)" by (simp add: op_defs)
qed

text \<open>
  A lower bound on the row id is truncated to 32 bits before it is used as a position:
  \<open>rowid >= 4294967296\<close> delivers every row of the array, none of which satisfies it.
\<close>

theorem rowid_bound_truncated:
  "\<exists>arr cur'. arr_wf arr \<and> intarrayFilter fresh_cursor arr 25 [VInteger (2 ^ 32)] = Some (cur', SQLITE_OK) \<and>
    scan_rows cur' arr = [0, 1, 2] \<and> \<not> op_holds (INTARRAY_LOWER + INTARRAY_EQ) 2 (VInteger (2 ^ 32))"
proof (intro exI conjI)
  show "arr_wf small_array" by (simp add: arr_wf_def small_array_def in_int64_def)
  let ?c = "fresh_cursor\<lparr>mode := 1, cmin := 2 ^ 32, hasMin := True, uniqueLeft := -1\<rparr>"
  have p: "filter_params fresh_cursor 25 [VInteger (2 ^ 32)] = ?c"
    by (simp add: filter_params_def fresh_cursor_def intarrayConstrainCursor_def intarrayBoundary_def
        INTARRAY_MIN_def has_bit_def op_defs Let_def)
  show "intarrayFilter fresh_cursor small_array 25 [VInteger (2 ^ 32)] = Some (?c\<lparr>ci := 0\<rparr>, SQLITE_OK)"
    unfolding intarrayFilter_def p
    by (simp add: filter_start_def filter_unique_def intarrayNextMatch_def small_array_def elem_def
        INTARRAY_BSEARCH_THRESHOLD_def c_int64_def c_int32_def fresh_cursor_def Let_def)
  show "scan_rows (?c\<lparr>ci := 0\<rparr>) small_array = [0, 1, 2]"
    by code_simp
  show "\<not> op_holds (INTARRAY_LOWER + INTARRAY_EQ) 2 (VInteger (2 ^ 32))"
    by (simp add: op_defs)
qed

text \<open>
  Two arguments that SQL and the code compare differently. An exclusive upper bound at
  the smallest 64-bit integer is not lowered, so it admits that integer although nothing is
  below it; and an upper bound that is a blob empties the result although every integer is
  below every blob.
\<close>

theorem exclusive_and_blob_bounds_unsound:
  "cursor_sem (intarrayConstrainCursor INTARRAY_UPPER (VInteger SMALLEST_INT64) fresh_cursor) SMALLEST_INT64 \<and>
   \<not> op_holds INTARRAY_UPPER SMALLEST_INT64 (VInteger SMALLEST_INT64) \<and>
   \<not> cursor_sem (intarrayConstrainCursor INTARRAY_UPPER (VBlob b) fresh_cursor) x \<and>
   op_holds INTARRAY_UPPER x (VBlob b)"
proof (intro conjI)
  show "cursor_sem (intarrayConstrainCursor INTARRAY_UPPER (VInteger SMALLEST_INT64) fresh_cursor) SMALLEST_INT64"
    by code_simp
qed (simp_all add: INTARRAY_UPPER_def intarrayConstrainCursor_def)

end
