(* ===== verification/IntArrayIndex.thy ===== *)
theory IntArrayIndex
  imports IntArrayCursor
begin

section \<open>Planning a query on an intarray\<close>

text \<open>
  \<open>intarrayBestIndex\<close> of \<open>native/intarray.c\<close>: it looks at the constraints SQLite offers,
  takes at most two on the row id, or else at most two on the value, writes their argument
  positions and encodes mode and comparisons in \<open>idxNum\<close>, which \<open>intarrayFilter\<close> decodes.
  The cost, a \<open>double\<close> in C, only takes whole values and is an \<^typ>\<open>int\<close> here. The
  properties compose planner and filter: a planned scan selects exactly the rows that
  satisfy the constraints SQLite was told not to test again.
\<close>

subsection \<open>The interface of SQLite's planner\<close>

definition SQLITE_INDEX_CONSTRAINT_EQ :: int where "SQLITE_INDEX_CONSTRAINT_EQ = 2"
definition SQLITE_INDEX_CONSTRAINT_GT :: int where "SQLITE_INDEX_CONSTRAINT_GT = 4"
definition SQLITE_INDEX_CONSTRAINT_LE :: int where "SQLITE_INDEX_CONSTRAINT_LE = 8"
definition SQLITE_INDEX_CONSTRAINT_LT :: int where "SQLITE_INDEX_CONSTRAINT_LT = 16"
definition SQLITE_INDEX_CONSTRAINT_GE :: int where "SQLITE_INDEX_CONSTRAINT_GE = 32"

definition INTARRAY_ACCEPTED_OPS :: int where
  "INTARRAY_ACCEPTED_OPS =
     SQLITE_INDEX_CONSTRAINT_EQ OR SQLITE_INDEX_CONSTRAINT_GE OR SQLITE_INDEX_CONSTRAINT_GT OR
     SQLITE_INDEX_CONSTRAINT_LE OR SQLITE_INDEX_CONSTRAINT_LT"

lemmas constraint_defs =
  SQLITE_INDEX_CONSTRAINT_EQ_def SQLITE_INDEX_CONSTRAINT_GT_def SQLITE_INDEX_CONSTRAINT_LE_def
  SQLITE_INDEX_CONSTRAINT_LT_def SQLITE_INDEX_CONSTRAINT_GE_def

record index_constraint =
  iColumn :: int
  cop :: int
  usable :: bool

record constraint_usage =
  argvIndex :: int
  omit :: bool

record sqlite3_index_info =
  aConstraint :: "index_constraint list"
  aConstraintUsage :: "constraint_usage list"
  idxNum :: int
  estimatedCost :: int

subsection \<open>The planner\<close>

definition intarrayOpbit :: "int \<Rightarrow> int" where
  "intarrayOpbit opn =
     (if opn = SQLITE_INDEX_CONSTRAINT_EQ then INTARRAY_EQ
      else if opn = SQLITE_INDEX_CONSTRAINT_GE then INTARRAY_EQ OR INTARRAY_LOWER
      else if opn = SQLITE_INDEX_CONSTRAINT_GT then INTARRAY_LOWER
      else if opn = SQLITE_INDEX_CONSTRAINT_LE then INTARRAY_EQ OR INTARRAY_UPPER
      else if opn = SQLITE_INDEX_CONSTRAINT_LT then INTARRAY_UPPER
      else 0)"

definition use_constraint :: "sqlite3_index_info \<Rightarrow> int \<Rightarrow> int \<Rightarrow> sqlite3_index_info" where
  "use_constraint info i arg =
     info\<lparr>aConstraintUsage := (aConstraintUsage info)[nat i := \<lparr>argvIndex = arg, omit = True\<rparr>]\<rparr>"

definition intarrayC2opbits :: "sqlite3_index_info \<Rightarrow> int list \<Rightarrow> int \<times> sqlite3_index_info" where
  "intarrayC2opbits info ix =
     (let info1 = use_constraint info (ix ! 0) 1;
          op1bits = intarrayOpbit (cop (aConstraint info ! nat (ix ! 0)));
          r = push_bit 2 op1bits
      in if ix ! 1 \<ge> 0 then
           let op2bits = intarrayOpbit (cop (aConstraint info ! nat (ix ! 1)))
           in if (op2bits AND op1bits AND 5) \<noteq> 0 then (r, info1)
              else (r OR push_bit 5 op2bits, use_constraint info1 (ix ! 1) 2)
         else (r, info1))"

definition FULLSCAN_COST :: "int \<Rightarrow> int" where
  "FULLSCAN_COST k = (if k < 64 then 64 else k)"

function llog2_loop :: "int \<Rightarrow> int \<Rightarrow> int" where
  "llog2_loop x r = (if x > 1 then llog2_loop (drop_bit 1 x) (r + 1) else r)"
  by pat_completeness auto
termination
  by (relation "measure (\<lambda>(x, r). nat x)") (auto simp: drop_bit_eq_div)

declare llog2_loop.simps [simp del]

definition llog2 :: "int \<Rightarrow> int" where
  "llog2 x = llog2_loop x 0"

text \<open>
  The loop over the constraints, from position \<open>i\<close>. It returns the counts of constraints
  on the row id and on the value with the positions \<open>ix\<close>, or \<open>None\<close> where the code
  returns early because of an operation it does not know.
\<close>

fun collect_constraints ::
  "index_constraint list \<Rightarrow> int \<Rightarrow> int \<Rightarrow> int \<Rightarrow> int list \<Rightarrow> (int \<times> int \<times> int list) option" where
  "collect_constraints [] i rcount vcount ix = Some (rcount, vcount, ix)"
| "collect_constraints (c # cs) i rcount vcount ix =
     (if usable c then
        if cop c AND NOT INTARRAY_ACCEPTED_OPS \<noteq> 0 then None
        else if iColumn c < 0 then
          collect_constraints cs (i + 1) (rcount + 1) vcount
            (if rcount < 2 then ix[nat rcount := i] else ix)
        else
          collect_constraints cs (i + 1) rcount (vcount + 1)
            (if vcount < 2 then ix[nat (2 + vcount) := i] else ix)
      else collect_constraints cs (i + 1) rcount vcount ix)"

definition intarrayBestIndex :: "sqlite3_intarray option \<Rightarrow> sqlite3_index_info \<Rightarrow> sqlite3_index_info \<times> int" where
  "intarrayBestIndex arr info =
     (let arraySize = (case arr of Some x \<Rightarrow> n x | None \<Rightarrow> 0)
      in case collect_constraints (aConstraint info) 0 0 0 [-1, -1, -1, -1] of
           None \<Rightarrow> (info\<lparr>estimatedCost := FULLSCAN_COST arraySize, idxNum := 0\<rparr>, SQLITE_OK)
         | Some (rcount, vcount, ix) \<Rightarrow>
             if rcount > 0 then
               case intarrayC2opbits info ix of
                 (bits, info) \<Rightarrow> (info\<lparr>estimatedCost := 1, idxNum := 1 OR bits\<rparr>, SQLITE_OK)
             else if vcount > 0 then
               case intarrayC2opbits info (drop 2 ix) of
                 (bits, info) \<Rightarrow>
                   (info\<lparr>estimatedCost := 1 + llog2 arraySize, idxNum := 2 OR bits\<rparr>, SQLITE_OK)
             else (info\<lparr>estimatedCost := FULLSCAN_COST arraySize, idxNum := 0\<rparr>, SQLITE_OK))"

subsection \<open>The binary logarithm\<close>

lemma llog2_loop_correct: "1 \<le> x \<Longrightarrow> \<exists>k. llog2_loop x r = r + int k \<and> 2 ^ k \<le> x \<and> x < 2 ^ (k + 1)"
proof (induction x r rule: llog2_loop.induct)
  case (1 x r)
  show ?case
  proof (cases "x > 1")
    case True
    then have "1 \<le> x div 2" by simp
    then obtain k where "llog2_loop (x div 2) (r + 1) = r + 1 + int k" "2 ^ k \<le> x div 2" "x div 2 < 2 ^ (k + 1)"
      using 1 True by (auto simp: drop_bit_eq_div)
    moreover from this have "2 * 2 ^ k \<le> x" "x < 4 * 2 ^ k" by simp_all
    ultimately show ?thesis using True
      by (intro exI [of _ "Suc k"]) (simp add: llog2_loop.simps [of x] drop_bit_eq_div)
  next
    case False
    with 1 have "x = 1" by simp
    then show ?thesis by (intro exI [of _ 0]) (simp add: llog2_loop.simps)
  qed
qed

lemma llog2_small: "x \<le> 1 \<Longrightarrow> llog2 x = 0"
  by (simp add: llog2_def llog2_loop.simps)

lemma llog2_bounds:
  assumes "1 \<le> x" shows "0 \<le> llog2 x" "2 ^ nat (llog2 x) \<le> x" "x < 2 ^ (nat (llog2 x) + 1)"
  using llog2_loop_correct [OF assms, of 0] by (auto simp: llog2_def)

lemma llog2_int32: "in_int32 x \<Longrightarrow> 0 \<le> llog2 x \<and> llog2 x \<le> 30"
proof (cases "1 \<le> x")
  case True
  assume "in_int32 x"
  then have "x < 2 ^ 31" by (simp add: in_int32_def)
  then have "(2::int) ^ nat (llog2 x) < 2 ^ 31" using llog2_bounds(2) [OF True] by simp
  then have "nat (llog2 x) < 31" by (rule power_less_imp_less_exp [rotated]) simp
  then show ?thesis using llog2_bounds(1) [OF True] by simp
qed (simp add: llog2_small)

subsection \<open>What the loop over the constraints collects\<close>

text \<open>
  The positions of the constraints with a property, the first two of which go to the slots
  of \<open>ix\<close>; \<open>-1\<close> marks an empty slot.
\<close>

definition strange :: "index_constraint \<Rightarrow> bool" where
  "strange c \<longleftrightarrow> usable c \<and> cop c AND NOT INTARRAY_ACCEPTED_OPS \<noteq> 0"

definition on_rowid :: "index_constraint \<Rightarrow> bool" where
  "on_rowid c \<longleftrightarrow> usable c \<and> iColumn c < 0"

definition on_value :: "index_constraint \<Rightarrow> bool" where
  "on_value c \<longleftrightarrow> usable c \<and> 0 \<le> iColumn c"

fun positions :: "(index_constraint \<Rightarrow> bool) \<Rightarrow> index_constraint list \<Rightarrow> int \<Rightarrow> int list" where
  "positions P [] i = []"
| "positions P (c # cs) i = (if P c then i # positions P cs (i + 1) else positions P cs (i + 1))"

definition slot :: "int list \<Rightarrow> nat \<Rightarrow> int" where
  "slot xs k = (if k < length xs then xs ! k else -1)"

definition slots :: "int list \<Rightarrow> int list \<Rightarrow> int list" where
  "slots rs vs = [slot rs 0, slot rs 1, slot vs 0, slot vs 1]"

lemma slots_add_row: "(if int (length rs) < 2 then (slots rs vs)[nat (int (length rs)) := i] else slots rs vs) = slots (rs @ [i]) vs"
proof -
  consider "length rs = 0" | "length rs = 1" | "length rs \<ge> 2" by linarith
  then show ?thesis by cases (auto simp: slots_def slot_def nth_append)
qed

lemma slots_add_value: "(if int (length vs) < 2 then (slots rs vs)[nat (2 + int (length vs)) := i] else slots rs vs) = slots rs (vs @ [i])"
proof -
  consider "length vs = 0" | "length vs = 1" | "length vs \<ge> 2" by linarith
  then show ?thesis
    by cases (auto simp: slots_def slot_def nth_append nat_add_distrib numeral_2_eq_2 numeral_3_eq_3)
qed

lemma collect_constraints_eq:
  "collect_constraints cs i (int (length rs)) (int (length vs)) (slots rs vs) =
     (if \<exists>c \<in> set cs. strange c then None
      else let rs' = rs @ positions on_rowid cs i; vs' = vs @ positions on_value cs i
           in Some (int (length rs'), int (length vs'), slots rs' vs'))"
proof (induction cs arbitrary: i rs vs)
  case (Cons c cs)
  have r: "collect_constraints cs (i + 1) (int (length rs) + 1) (int (length vs)) (slots (rs @ [i]) vs) =
    collect_constraints cs (i + 1) (int (length (rs @ [i]))) (int (length vs)) (slots (rs @ [i]) vs)"
    by (simp add: add.commute)
  have v: "collect_constraints cs (i + 1) (int (length rs)) (int (length vs) + 1) (slots rs (vs @ [i])) =
    collect_constraints cs (i + 1) (int (length rs)) (int (length (vs @ [i]))) (slots rs (vs @ [i]))"
    by (simp add: add.commute)
  show ?case
    using Cons.IH [of "i + 1" rs vs] Cons.IH [of "i + 1" "rs @ [i]" vs] Cons.IH [of "i + 1" rs "vs @ [i]"]
    by (simp only: collect_constraints.simps slots_add_row slots_add_value r v)
      (auto simp: strange_def [of c] on_rowid_def [of c] on_value_def [of c] Let_def)
qed simp

lemma collect_constraints_start:
  "collect_constraints cs 0 0 0 [-1, -1, -1, -1] =
     (if \<exists>c \<in> set cs. strange c then None
      else Some (int (length (positions on_rowid cs 0)), int (length (positions on_value cs 0)),
        slots (positions on_rowid cs 0) (positions on_value cs 0)))"
proof -
  have "slots [] [] = [-1, -1, -1, -1]" by (simp add: slots_def slot_def)
  with collect_constraints_eq [of cs 0 "[]" "[]"] show ?thesis
    by (simp add: Let_def)
qed

lemma positions_sound:
  "k \<in> set (positions P cs i) \<Longrightarrow> i \<le> k \<and> k < i + int (length cs) \<and> P (cs ! nat (k - i))"
proof (induction cs arbitrary: i)
  case (Cons c cs)
  show ?case
  proof (cases "k \<in> set (positions P cs (i + 1))")
    case True
    with Cons.IH have k: "i + 1 \<le> k" "k < i + 1 + int (length cs)" "P (cs ! nat (k - (i + 1)))" by auto
    moreover from k(1) have "nat (k - i) = Suc (nat (k - (i + 1)))" by simp
    ultimately show ?thesis by simp
  next
    case False
    with Cons.prems show ?thesis by (auto split: if_splits)
  qed
qed simp

lemma positions_distinct: "distinct (positions P cs i)"
  by (induction cs arbitrary: i) (auto dest: positions_sound)

subsection \<open>The plan that is written\<close>

text \<open>
  What SQLite hands over, the arguments it then passes to the filter (the right-hand sides of
  the constraints with a positive \<open>argvIndex\<close>, in that order), and the truth of a
  constraint.
\<close>

definition fresh_usage :: constraint_usage where
  "fresh_usage = \<lparr>argvIndex = 0, omit = False\<rparr>"

definition documented_op :: "int \<Rightarrow> bool" where
  "documented_op opn \<longleftrightarrow> opn \<in> {2, 4, 8, 16, 32} \<or> (64 \<le> opn \<and> opn \<le> 255)"

definition info_wf :: "sqlite3_index_info \<Rightarrow> bool" where
  "info_wf info \<longleftrightarrow>
     aConstraintUsage info = replicate (length (aConstraint info)) fresh_usage \<and>
     (\<forall>c \<in> set (aConstraint info). documented_op (cop c))"

definition filter_args :: "constraint_usage list \<Rightarrow> sqlite3_value list \<Rightarrow> sqlite3_value list" where
  "filter_args us vs =
     concat (map (\<lambda>k. map snd (filter (\<lambda>(u, v). argvIndex u = k) (zip us vs))) [1, 2])"

definition sql_holds :: "int \<Rightarrow> int \<Rightarrow> sqlite3_value \<Rightarrow> bool" where
  "sql_holds opn x v =
     (case compare_value x v of
        None \<Rightarrow> False
      | Some c \<Rightarrow>
          if opn = SQLITE_INDEX_CONSTRAINT_EQ then c = 0
          else if opn = SQLITE_INDEX_CONSTRAINT_GT then c > 0
          else if opn = SQLITE_INDEX_CONSTRAINT_LE then c \<le> 0
          else if opn = SQLITE_INDEX_CONSTRAINT_LT then c < 0
          else if opn = SQLITE_INDEX_CONSTRAINT_GE then c \<ge> 0
          else False)"

lemma high_op_strange: "64 \<le> opn \<Longrightarrow> opn \<le> 255 \<Longrightarrow> opn AND NOT INTARRAY_ACCEPTED_OPS \<noteq> 0"
proof -
  assume "64 \<le> opn" "opn \<le> 255"
  then have "opn \<in> set [64..255]" by (simp only: set_upto atLeastAtMost_iff)
  moreover have "list_all (\<lambda>x. x AND NOT INTARRAY_ACCEPTED_OPS \<noteq> 0) [64..255]" by code_simp
  then have "\<forall>x \<in> set [64..255]. x AND NOT INTARRAY_ACCEPTED_OPS \<noteq> 0" by (simp only: list_all_iff)
  ultimately show ?thesis by (rule bspec [rotated])
qed

lemma documented_op_cases:
  assumes "documented_op (cop c)" "\<not> strange c" "usable c"
  shows "cop c \<in> {2, 4, 8, 16, 32}"
  using assms high_op_strange by (auto simp: documented_op_def strange_def)

lemma opbit_table [simp]:
  "intarrayOpbit 2 = 2" "intarrayOpbit 4 = 4" "intarrayOpbit 8 = 3" "intarrayOpbit 16 = 1" "intarrayOpbit 32 = 6"
  by (simp_all add: intarrayOpbit_def constraint_defs op_defs)

lemma opbit_valid: "opn \<in> {2, 4, 8, 16, 32} \<Longrightarrow> valid_op (intarrayOpbit opn)"
  by (auto simp: valid_op_def)

lemma opbit_sql: "opn \<in> {2, 4, 8, 16, 32} \<Longrightarrow> op_holds (intarrayOpbit opn) x v \<longleftrightarrow> sql_holds opn x v"
  by (auto simp: sql_holds_def constraint_defs split: option.splits)

text \<open>The encoding of the plan in \<open>idxNum\<close> and its decoding by the filter.\<close>

lemma plan_decode:
  assumes "valid_op op1" "op2 = 0 \<or> valid_op op2" "m = 1 \<or> m = 2"
  shows "(m OR (push_bit 2 op1 OR push_bit 5 op2)) AND 3 = m"
    "drop_bit 2 (m OR (push_bit 2 op1 OR push_bit 5 op2)) AND 7 = op1"
    "drop_bit 5 (m OR (push_bit 2 op1 OR push_bit 5 op2)) AND 7 = op2"
  using assms by (auto simp: valid_op_def)

lemma zip_args_at:
  assumes "x < length us" "length vs = length us" "\<forall>i < length us. argvIndex (us ! i) = k \<longleftrightarrow> i = x"
  shows "map snd (filter (\<lambda>(u, v). argvIndex u = k) (zip us vs)) = [vs ! x]"
  using assms filter_single [of x "zip us vs" "\<lambda>(u, v). argvIndex u = k"] by simp

lemma zip_args_none:
  assumes "length vs = length us" "\<forall>i < length us. argvIndex (us ! i) \<noteq> k"
  shows "map snd (filter (\<lambda>(u, v). argvIndex u = k) (zip us vs)) = []"
  using assms by (auto simp: filter_empty_conv set_zip)

text \<open>The three outcomes of the planner: a full scan, a plan on one constraint, or on two.\<close>

definition takes :: "int \<Rightarrow> index_constraint \<Rightarrow> bool" where
  "takes m c \<longleftrightarrow> (m = 1 \<and> on_rowid c \<or> m = 2 \<and> on_value c) \<and> cop c \<in> {2, 4, 8, 16, 32}"

definition plan_one :: "sqlite3_index_info \<Rightarrow> sqlite3_index_info \<Rightarrow> int \<Rightarrow> nat \<Rightarrow> bool" where
  "plan_one info info' m x \<longleftrightarrow>
     x < length (aConstraint info) \<and> takes m (aConstraint info ! x) \<and>
     idxNum info' = m OR (push_bit 2 (intarrayOpbit (cop (aConstraint info ! x))) OR push_bit 5 0) \<and>
     aConstraintUsage info' = (aConstraintUsage info)[x := \<lparr>argvIndex = 1, omit = True\<rparr>]"

definition plan_two :: "sqlite3_index_info \<Rightarrow> sqlite3_index_info \<Rightarrow> int \<Rightarrow> nat \<Rightarrow> nat \<Rightarrow> bool" where
  "plan_two info info' m x y \<longleftrightarrow>
     x < length (aConstraint info) \<and> y < length (aConstraint info) \<and> x \<noteq> y \<and>
     takes m (aConstraint info ! x) \<and> takes m (aConstraint info ! y) \<and>
     idxNum info' = m OR (push_bit 2 (intarrayOpbit (cop (aConstraint info ! x))) OR
       push_bit 5 (intarrayOpbit (cop (aConstraint info ! y)))) \<and>
     aConstraintUsage info' = (aConstraintUsage info)
       [x := \<lparr>argvIndex = 1, omit = True\<rparr>, y := \<lparr>argvIndex = 2, omit = True\<rparr>]"

lemma C2opbits_plan:
  assumes K: "K = positions P (aConstraint info) 0" "K \<noteq> []"
    and P: "\<And>i. i < length (aConstraint info) \<Longrightarrow> P (aConstraint info ! i) \<Longrightarrow> takes m (aConstraint info ! i)"
    and res: "intarrayC2opbits info (slot K 0 # slot K 1 # rest) = (bits, info1)"
  shows "(\<exists>x. plan_one info (info1\<lparr>estimatedCost := c, idxNum := m OR bits\<rparr>) m x) \<or>
    (\<exists>x y. plan_two info (info1\<lparr>estimatedCost := c, idxNum := m OR bits\<rparr>) m x y)"
proof -
  define x where "x = nat (K ! 0)"
  have at: "nat k < length (aConstraint info) \<and> takes m (aConstraint info ! nat k) \<and> 0 \<le> k" if "k \<in> set K" for k
    using positions_sound [of k P "aConstraint info" 0] that P K(1) by auto
  have x: "x < length (aConstraint info)" "takes m (aConstraint info ! x)" "slot K 0 = K ! 0"
    using at [of "K ! 0"] K(2) by (simp_all add: x_def slot_def)
  show ?thesis
  proof (cases "length K > 1 \<and> (intarrayOpbit (cop (aConstraint info ! nat (K ! 1))) AND
      intarrayOpbit (cop (aConstraint info ! x)) AND 5) = 0")
    case True
    define y where "y = nat (K ! 1)"
    have y: "y < length (aConstraint info)" "takes m (aConstraint info ! y)" "slot K 1 = K ! 1" "0 \<le> K ! 1"
      using at [of "K ! 1"] True by (simp_all add: y_def slot_def)
    have "K ! 0 \<noteq> K ! 1" using True positions_distinct [of P "aConstraint info" 0] K by (simp add: nth_eq_iff_index_eq)
    then have "x \<noteq> y" using at [of "K ! 0"] y(4) K(2) by (simp add: x_def y_def eq_nat_nat_iff)
    then have "plan_two info (info1\<lparr>estimatedCost := c, idxNum := m OR bits\<rparr>) m x y"
      using res x y True
      by (auto simp: plan_two_def intarrayC2opbits_def use_constraint_def Let_def x_def y_def)
    then show ?thesis by blast
  next
    case False
    then have "slot K 1 < 0 \<or> (intarrayOpbit (cop (aConstraint info ! nat (slot K 1))) AND
      intarrayOpbit (cop (aConstraint info ! x)) AND 5) \<noteq> 0"
      by (auto simp: slot_def)
    then have "plan_one info (info1\<lparr>estimatedCost := c, idxNum := m OR bits\<rparr>) m x"
      using res x
      by (auto simp: plan_one_def intarrayC2opbits_def use_constraint_def Let_def x_def split: if_splits)
    then show ?thesis by blast
  qed
qed

lemma best_index_cases:
  assumes wf: "info_wf info" and res: "intarrayBestIndex arr info = (info', rc)"
  obtains (scan) "idxNum info' = 0" "aConstraintUsage info' = aConstraintUsage info"
    | (one) m x where "m = 1 \<or> m = 2" "plan_one info info' m x"
    | (two) m x y where "m = 1 \<or> m = 2" "plan_two info info' m x y"
proof (cases "\<exists>c \<in> set (aConstraint info). strange c")
  case True
  then show thesis using scan res by (auto simp: intarrayBestIndex_def collect_constraints_start Let_def)
next
  case False
  let ?R = "positions on_rowid (aConstraint info) 0" and ?V = "positions on_value (aConstraint info) 0"
  have known: "cop (aConstraint info ! i) \<in> {2, 4, 8, 16, 32}"
    if "i < length (aConstraint info)" "usable (aConstraint info ! i)" for i
    using documented_op_cases wf False that by (simp add: info_wf_def)
  consider (r) "?R \<noteq> []" | (v) "?R = []" "?V \<noteq> []" | (none) "?R = []" "?V = []" by blast
  then show thesis
  proof cases
    case r
    obtain bits info1 where b: "intarrayC2opbits info (slots ?R ?V) = (bits, info1)" by fastforce
    then have i': "info' = info1\<lparr>estimatedCost := 1, idxNum := 1 OR bits\<rparr>"
      using res False r by (simp add: intarrayBestIndex_def collect_constraints_start Let_def)
    have "takes 1 (aConstraint info ! i)" if "i < length (aConstraint info)" "on_rowid (aConstraint info ! i)" for i
      using known [OF that(1)] that(2) by (simp add: takes_def on_rowid_def)
    from C2opbits_plan [OF refl r this] b show thesis
      unfolding i' slots_def using one [of 1] two [of 1] i' by blast
  next
    case v
    obtain bits info1 where b: "intarrayC2opbits info (drop 2 (slots ?R ?V)) = (bits, info1)" by fastforce
    obtain c where i': "info' = info1\<lparr>estimatedCost := c, idxNum := 2 OR bits\<rparr>"
      using res False v b by (auto simp: intarrayBestIndex_def collect_constraints_start Let_def)
    have "takes 2 (aConstraint info ! i)" if "i < length (aConstraint info)" "on_value (aConstraint info ! i)" for i
      using known [OF that(1)] that(2) by (simp add: takes_def on_value_def)
    from C2opbits_plan [OF refl v(2) this] b show thesis
      unfolding i' slots_def using one [of 2] two [of 2] i' by (simp add: numeral_2_eq_2) blast
  next
    case none
    then show thesis using scan res False
      by (auto simp: intarrayBestIndex_def collect_constraints_start Let_def)
  qed
qed

subsection \<open>Planner and filter together\<close>

lemma plan_one_args:
  assumes "info_wf info" "plan_one info info' m x" "length vs = length (aConstraint info)"
  shows "filter_args (aConstraintUsage info') vs = [vs ! x]"
    "\<And>i. i < length vs \<Longrightarrow> omit (aConstraintUsage info' ! i) \<longleftrightarrow> i = x"
proof -
  let ?us = "aConstraintUsage info'"
  have us: "?us = (replicate (length vs) fresh_usage)[x := \<lparr>argvIndex = 1, omit = True\<rparr>]" "x < length vs"
    using assms by (simp_all add: info_wf_def plan_one_def)
  show "omit (?us ! i) \<longleftrightarrow> i = x" if "i < length vs" for i
    using that by (simp add: us fresh_usage_def nth_list_update)
  have "map snd (filter (\<lambda>(u, v). argvIndex u = 1) (zip ?us vs)) = [vs ! x]"
    by (rule zip_args_at) (simp_all add: us fresh_usage_def nth_list_update)
  moreover have "map snd (filter (\<lambda>(u, v). argvIndex u = 2) (zip ?us vs)) = []"
    by (rule zip_args_none) (simp_all add: us fresh_usage_def nth_list_update)
  ultimately show "filter_args ?us vs = [vs ! x]" by (simp add: filter_args_def)
qed

lemma plan_two_args:
  assumes "info_wf info" "plan_two info info' m x y" "length vs = length (aConstraint info)"
  shows "filter_args (aConstraintUsage info') vs = [vs ! x, vs ! y]"
    "\<And>i. i < length vs \<Longrightarrow> omit (aConstraintUsage info' ! i) \<longleftrightarrow> i = x \<or> i = y"
proof -
  let ?us = "aConstraintUsage info'"
  have us: "?us = (replicate (length vs) fresh_usage)[x := \<lparr>argvIndex = 1, omit = True\<rparr>,
      y := \<lparr>argvIndex = 2, omit = True\<rparr>]" "x < length vs" "y < length vs" "x \<noteq> y"
    using assms by (simp_all add: info_wf_def plan_two_def)
  show "omit (?us ! i) \<longleftrightarrow> i = x \<or> i = y" if "i < length vs" for i
    using that by (simp add: us fresh_usage_def nth_list_update)
  have "map snd (filter (\<lambda>(u, v). argvIndex u = 1) (zip ?us vs)) = [vs ! x]"
    by (rule zip_args_at) (use us in \<open>simp_all add: fresh_usage_def nth_list_update\<close>)
  moreover have "map snd (filter (\<lambda>(u, v). argvIndex u = 2) (zip ?us vs)) = [vs ! y]"
    by (rule zip_args_at) (use us in \<open>simp_all add: fresh_usage_def nth_list_update\<close>)
  ultimately show "filter_args ?us vs = [vs ! x, vs ! y]" by (simp add: filter_args_def)
qed

lemma sound_value_ok: "sound_arg opn v \<Longrightarrow> value_ok v"
  by (cases v) (simp_all add: sound_arg_def)

text \<open>One step of the filter: it adds the argument's comparison to the cursor's meaning.\<close>

lemma constrain_step:
  assumes "valid_op opn" "in_int64 x" "sound_arg opn v"
  shows "cursor_sem (if mode c > 0 then intarrayConstrainCursor opn v c else c) x \<and> mode c \<noteq> 0 \<longleftrightarrow>
    cursor_sem c x \<and> mode c \<noteq> 0 \<and> op_holds opn x v"
  using constrain_cursor_sql [OF assms, of c] by (auto simp: cursor_sem_def)

lemma filter_params_sem:
  assumes m: "m = 1 \<or> m = 2" and x: "in_int64 x"
    and 1: "valid_op op1" "sound_arg op1 v1"
    and 2: "vs = [] \<and> op2 = 0 \<or> vs = [v2] \<and> valid_op op2 \<and> sound_arg op2 v2"
    and idx: "idx = m OR (push_bit 2 op1 OR push_bit 5 op2)"
  shows "cursor_sem (filter_params cur idx (v1 # vs)) x \<longleftrightarrow>
    op_holds op1 x v1 \<and> (vs = [v2] \<longrightarrow> op_holds op2 x v2)"
proof -
  let ?c0 = "filter_cursor cur idx"
  have "op2 = 0 \<or> valid_op op2" using 2 by blast
  from plan_decode [OF 1(1) this m] have dec: "idx AND 3 = m" "drop_bit 2 idx AND 7 = op1" "drop_bit 5 idx AND 7 = op2"
    unfolding idx .
  have nz: "op1 \<noteq> 0" "valid_op op2 \<Longrightarrow> op2 \<noteq> 0" using 1(1) by (auto simp: valid_op_def)
  have c0: "mode ?c0 = m" "cursor_sem ?c0 x" "params_ok ?c0"
    using m by (auto simp: filter_cursor_def dec cursor_sem_def bounded_def params_ok_def)
  define c1 where "c1 = intarrayConstrainCursor op1 v1 ?c0"
  have nar: "narrows ?c0 c1" unfolding c1_def
    by (rule narrows_constrain [OF sound_value_ok [OF 1(2)] c0(3)])
  then have m1: "mode c1 = m \<or> mode c1 = -1" using c0 by (simp add: narrows_def)
  have s1: "cursor_sem c1 x \<longleftrightarrow> op_holds op1 x v1"
    using constrain_cursor_sql [OF 1(1) x 1(2)] c0 by (simp add: c1_def)
  have fp: "filter_params cur idx (v1 # vs) =
    (if mode c1 > 0 \<and> vs \<noteq> [] \<and> op2 \<noteq> 0 then intarrayConstrainCursor op2 (vs ! 0) c1 else c1)"
    using m nz c0 by (auto simp: filter_params_steps dec c1_def Let_def)
  from 2 show ?thesis
  proof
    assume "vs = [] \<and> op2 = 0"
    then show ?thesis using fp s1 by simp
  next
    assume v: "vs = [v2] \<and> valid_op op2 \<and> sound_arg op2 v2"
    then have "cursor_sem (if mode c1 > 0 then intarrayConstrainCursor op2 v2 c1 else c1) x \<longleftrightarrow>
      cursor_sem c1 x \<and> op_holds op2 x v2"
      using constrain_step [of op2 x v2 c1] x m m1 by auto
    then show ?thesis using fp s1 v nz by (cases "mode c1 > 0") simp_all
  qed
qed

text \<open>The truth of a constraint on row \<open>k\<close> of an array.\<close>

definition constraint_holds :: "sqlite3_intarray \<Rightarrow> int \<Rightarrow> index_constraint \<Rightarrow> sqlite3_value \<Rightarrow> bool" where
  "constraint_holds arr k c v \<longleftrightarrow> sql_holds (cop c) (if iColumn c < 0 then k else elem arr k) v"

definition omitted_hold ::
  "sqlite3_index_info \<Rightarrow> sqlite3_index_info \<Rightarrow> sqlite3_value list \<Rightarrow> sqlite3_intarray \<Rightarrow> int \<Rightarrow> bool" where
  "omitted_hold info info' vs arr k \<longleftrightarrow>
     (\<forall>i < length vs. omit (aConstraintUsage info' ! i) \<longrightarrow>
        constraint_holds arr k (aConstraint info ! i) (vs ! i))"

definition args_sound :: "sqlite3_index_info \<Rightarrow> sqlite3_value list \<Rightarrow> bool" where
  "args_sound info vs \<longleftrightarrow>
     length vs = length (aConstraint info) \<and>
     (\<forall>i < length vs. sound_arg (intarrayOpbit (cop (aConstraint info ! i))) (vs ! i))"

lemma row_values_in_range: "arr_wf arr \<Longrightarrow> 0 \<le> k \<Longrightarrow> k < n arr \<Longrightarrow> in_int64 k \<and> in_int64 (elem arr k)"
  by (auto simp: arr_wf_def in_int64_def elem_def)

lemma row_sat_sem:
  "takes m c \<Longrightarrow> mode p = m \<or> mode p = -1 \<Longrightarrow>
    row_sat p arr k \<longleftrightarrow> cursor_sem p (if iColumn c < 0 then k else elem arr k)"
  by (auto simp: row_sat_def cursor_sem_def takes_def on_rowid_def on_value_def)

lemma filter_params_mode:
  "\<forall>v \<in> set argv. value_ok v \<Longrightarrow>
    mode (filter_params cur idx argv) = idx AND 3 \<or> mode (filter_params cur idx argv) = -1"
  using narrows_filter_params [of argv cur idx] by (simp add: narrows_def filter_cursor_def)

lemma plan_row_sat:
  assumes wf: "info_wf info" and plan: "intarrayBestIndex arr' info = (info', rc)"
    and args: "args_sound info vs" and arr: "arr_wf arr" and k: "0 \<le> k" "k < n arr"
  shows "row_sat (filter_params cur (idxNum info') (filter_args (aConstraintUsage info') vs)) arr k \<longleftrightarrow>
    omitted_hold info info' vs arr k"
proof (cases rule: best_index_cases [OF wf plan, case_names scan one two])
  case scan
  have "\<not> omit (aConstraintUsage info' ! i)" if "i < length vs" for i
    using scan wf args that by (simp add: info_wf_def fresh_usage_def args_sound_def)
  moreover have "row_sat (filter_cursor cur 0) arr k" by (simp add: row_sat_def filter_cursor_def)
  ultimately show ?thesis
    using scan by (simp add: omitted_hold_def filter_params_scan_mode)
next
  case (one m x)
  let ?c = "aConstraint info ! x"
  have len: "length vs = length (aConstraint info)" and snd: "sound_arg (intarrayOpbit (cop ?c)) (vs ! x)"
    using args one by (auto simp: args_sound_def plan_one_def)
  have tk: "takes m ?c" and cop: "cop ?c \<in> {2, 4, 8, 16, 32}" and x: "x < length vs"
    and idx: "idxNum info' = m OR (push_bit 2 (intarrayOpbit (cop ?c)) OR push_bit 5 0)"
    using one len by (auto simp: plan_one_def takes_def)
  note vop = opbit_valid [OF cop] and fa = plan_one_args [OF wf one(2) len]
  have md: "idxNum info' AND 3 = m" using plan_decode(1) [OF vop _ one(1), of 0] idx by simp
  let ?t = "if iColumn ?c < 0 then k else elem arr k"
  have "row_sat (filter_params cur (idxNum info') [vs ! x]) arr k \<longleftrightarrow> cursor_sem (filter_params cur (idxNum info') [vs ! x]) ?t"
    using filter_params_mode [of "[vs ! x]" cur "idxNum info'"] sound_value_ok [OF snd] md
    by (intro row_sat_sem [OF tk]) simp
  also have "\<dots> \<longleftrightarrow> sql_holds (cop ?c) ?t (vs ! x)"
    using filter_params_sem [OF one(1) _ vop snd _ idx, of ?t "[]" undefined cur] row_values_in_range [OF arr k]
      opbit_sql [OF cop] by simp
  finally show ?thesis using fa x by (auto simp: omitted_hold_def constraint_holds_def)
next
  case (two m x y)
  let ?c = "aConstraint info ! x" and ?d = "aConstraint info ! y"
  have len: "length vs = length (aConstraint info)" and snd: "sound_arg (intarrayOpbit (cop ?c)) (vs ! x)"
    "sound_arg (intarrayOpbit (cop ?d)) (vs ! y)"
    using args two by (auto simp: args_sound_def plan_two_def)
  have tk: "takes m ?c" "takes m ?d" and cop: "cop ?c \<in> {2, 4, 8, 16, 32}" "cop ?d \<in> {2, 4, 8, 16, 32}"
    and xy: "x < length vs" "y < length vs"
    and idx: "idxNum info' = m OR (push_bit 2 (intarrayOpbit (cop ?c)) OR push_bit 5 (intarrayOpbit (cop ?d)))"
    using two len by (auto simp: plan_two_def takes_def)
  note vop = opbit_valid [OF cop(1)] opbit_valid [OF cop(2)] and fa = plan_two_args [OF wf two(2) len]
  have md: "idxNum info' AND 3 = m" using plan_decode(1) [OF vop(1) _ two(1)] vop(2) idx by simp
  let ?t = "if iColumn ?c < 0 then k else elem arr k"
  have t: "(if iColumn ?d < 0 then k else elem arr k) = ?t"
    using tk by (auto simp: takes_def on_rowid_def on_value_def)
  have "row_sat (filter_params cur (idxNum info') [vs ! x, vs ! y]) arr k \<longleftrightarrow>
    cursor_sem (filter_params cur (idxNum info') [vs ! x, vs ! y]) ?t"
    using filter_params_mode [of "[vs ! x, vs ! y]" cur "idxNum info'"] sound_value_ok [OF snd(1)] sound_value_ok [OF snd(2)] md
    by (intro row_sat_sem [OF tk(1)]) simp
  also have "\<dots> \<longleftrightarrow> sql_holds (cop ?c) ?t (vs ! x) \<and> sql_holds (cop ?d) ?t (vs ! y)"
    using filter_params_sem [OF two(1) _ vop(1) snd(1) _ idx, of ?t "[vs ! y]" "vs ! y" cur]
      row_values_in_range [OF arr k] opbit_sql [OF cop(1)] opbit_sql [OF cop(2)] vop(2) snd(2) by simp
  finally show ?thesis using fa xy t by (auto simp: omitted_hold_def constraint_holds_def)
qed

lemma best_index_one_mode: "m = 1 \<or> m = 2 \<Longrightarrow> plan_one info info' m x \<Longrightarrow> idxNum info' AND 3 = m"
  using plan_decode(1) [of _ 0 m] opbit_valid by (simp add: plan_one_def takes_def)

lemma best_index_two_mode: "m = 1 \<or> m = 2 \<Longrightarrow> plan_two info info' m x y \<Longrightarrow> idxNum info' AND 3 = m"
  using plan_decode(1) opbit_valid by (simp add: plan_two_def takes_def)

lemma best_index_mode:
  assumes "info_wf info" "intarrayBestIndex arr info = (info', rc)"
  shows "idxNum info' AND 3 \<in> {0, 1, 2}"
  by (rule best_index_cases [OF assms]) (auto simp: best_index_one_mode best_index_two_mode)


definition range_info :: sqlite3_index_info where
  "range_info = \<lparr>aConstraint = [\<lparr>iColumn = -1, cop = 32, usable = False\<rparr>,
       \<lparr>iColumn = 0, cop = 32, usable = True\<rparr>, \<lparr>iColumn = 0, cop = 16, usable = True\<rparr>],
     aConstraintUsage = replicate 3 fresh_usage, idxNum = 0, estimatedCost = 0\<rparr>"

definition range_plan :: sqlite3_index_info where
  "range_plan = fst (intarrayBestIndex (Some big_array) range_info)"

lemma range_info_wf: "info_wf range_info"
  by (simp add: info_wf_def range_info_def documented_op_def numeral_3_eq_3)

lemma range_plan: "intarrayBestIndex (Some big_array) range_info = (range_plan, SQLITE_OK)"
  by code_simp




text \<open>
  No plan is estimated dearer than the full scan: the cost \<open>intarrayBestIndex\<close> writes is
  at least 1 and at most the full-scan cost of the array, with \<open>llog2\<close> at most 30 on a C int.
\<close>

theorem best_index_cost:
  assumes "in_int32 (n arr)"
  shows "1 \<le> estimatedCost (fst (intarrayBestIndex (Some arr) info)) \<and>
    estimatedCost (fst (intarrayBestIndex (Some arr) info)) \<le> FULLSCAN_COST (n arr)"
  using llog2_int32 [OF assms]
  by (auto simp: intarrayBestIndex_def FULLSCAN_COST_def Let_def split: option.splits prod.splits)

theorem best_index_cost_witness:
  "1 \<le> estimatedCost range_plan \<and> estimatedCost range_plan \<le> 64"
  using best_index_cost [of big_array range_info]
  by (simp add: big_array_def range_plan_def FULLSCAN_COST_def in_int32_def)

end
