(* ===== verification/IntArrayMap.thy ===== *)
theory IntArrayMap
  imports Prelude
begin

section \<open>The table of integer arrays (native/intarray.c)\<close>

text \<open>
  Each INTARRAY module keeps its arrays in an open-addressing hash table keyed by name,
  compared without regard to case. A removed cell keeps the hash -1 (a tombstone), so that
  searches continue over it. The definitions follow \<open>intarrayMapInit\<close> to
  \<open>intarrayMapFind\<close> of native/intarray.c; an allocation that may fail is a Boolean
  argument.
\<close>

subsection \<open>Data\<close>

record map_entry =
  key :: "byte list option"
  hash :: int
  entry_value :: ptr

record intarray_map =
  hashtable :: "map_entry list"
  map_size :: nat
  rehashSize :: nat
  count :: int

definition zero_entry :: map_entry where
  "zero_entry = \<lparr>key = None, hash = 0, entry_value = 0\<rparr>"

lemma zero_entry_sel [simp]: "key zero_entry = None" "hash zero_entry = 0" "entry_value zero_entry = 0"
  by (simp_all add: zero_entry_def)

subsection \<open>Operations\<close>

definition intarrayMapInit :: "bool \<Rightarrow> intarray_map \<Rightarrow> int \<times> intarray_map" where
  "intarrayMapInit mallocOk m =
     (let initialCount = 17;
          m1 = m\<lparr>map_size := initialCount, rehashSize := initialCount * 2 div 3\<rparr>
      in if \<not> mallocOk then (SQLITE_NOMEM, m1\<lparr>hashtable := []\<rparr>)
         else (SQLITE_OK, m1\<lparr>hashtable := replicate initialCount zero_entry, count := 0\<rparr>))"

fun strHash_loop :: "u32 \<Rightarrow> byte list \<Rightarrow> u32" where
  "strHash_loop h [] = h"
| "strHash_loop h (c # s) = strHash_loop (push_bit 3 h XOR h XOR ucast (tolower c)) s"

definition strHash :: "byte list \<Rightarrow> u32" where
  "strHash s = (let h = strHash_loop 0 s in if h = 0 then 1 else h AND 0x7FFFFFFF)"

definition entry_matches :: "map_entry \<Rightarrow> u32 \<Rightarrow> byte list \<Rightarrow> bool" where
  "entry_matches e h zName \<longleftrightarrow>
     h = word_of_int (hash e) \<and>
     (case key e of None \<Rightarrow> False | Some k \<Rightarrow> stricmp_eq k zName)"

text \<open>
  The two loops of \<open>mapPut_\<close>: the search for a free cell, which gives the cell and the
  probes left, and the check of the trail behind a tombstone. \<open>None\<close> is a duplicate.
\<close>

fun put_search :: "map_entry list \<Rightarrow> nat \<Rightarrow> byte list \<Rightarrow> u32 \<Rightarrow> nat \<Rightarrow> nat \<Rightarrow> (nat \<times> nat) option" where
  "put_search t sz zName h i 0 = Some (i, 0)"
| "put_search t sz zName h i (Suc j) =
     (if key (t ! i) = None then Some (i, Suc j)
      else if entry_matches (t ! i) h zName then None
      else put_search t sz zName h ((i + 1) mod sz) j)"

fun put_trail_dup :: "map_entry list \<Rightarrow> nat \<Rightarrow> byte list \<Rightarrow> u32 \<Rightarrow> nat \<Rightarrow> nat \<Rightarrow> bool" where
  "put_trail_dup t sz zName h k 0 = False"
| "put_trail_dup t sz zName h k (Suc j) =
     (if key (t ! k) = None \<and> hash (t ! k) \<noteq> -1 then False
      else if entry_matches (t ! k) h zName then True
      else put_trail_dup t sz zName h ((k + 1) mod sz) j)"

definition mapPut :: "map_entry list \<Rightarrow> nat \<Rightarrow> ptr \<Rightarrow> byte list \<Rightarrow> u32 \<Rightarrow> int \<times> map_entry list" where
  "mapPut t sz a zName h =
     (case put_search t sz zName h (unat h mod sz) sz of
        None \<Rightarrow> (INTARRAY_DUPLICATE_NAME, t)
      | Some (i, j) \<Rightarrow>
          if key (t ! i) \<noteq> None then (INTARRAY_INTERNAL_ERROR, t)
          else if hash (t ! i) = -1 \<and> put_trail_dup t sz zName h ((i + 1) mod sz) (j - 1)
          then (INTARRAY_DUPLICATE_NAME, t)
          else (SQLITE_OK, t[i := \<lparr>key = Some zName, hash = c_int32 (uint h), entry_value = a\<rparr>]))"

fun rehash_loop :: "map_entry list \<Rightarrow> nat \<Rightarrow> map_entry list \<Rightarrow> map_entry list" where
  "rehash_loop newtable newsize [] = newtable"
| "rehash_loop newtable newsize (e # es) =
     rehash_loop
       (case key e of
          None \<Rightarrow> newtable
        | Some k \<Rightarrow> snd (mapPut newtable newsize (entry_value e) k (word_of_int (hash e))))
       newsize es"

definition rehash :: "bool \<Rightarrow> intarray_map \<Rightarrow> int \<times> intarray_map" where
  "rehash mallocOk m =
     (let newsize = map_size m + map_size m div 2
      in if \<not> mallocOk then (SQLITE_NOMEM, m)
         else (SQLITE_OK,
               m\<lparr>rehashSize := map_size m, map_size := newsize,
                 hashtable := rehash_loop (replicate newsize zero_entry) newsize (hashtable m)\<rparr>))"

definition intarrayMapPut :: "bool \<Rightarrow> intarray_map \<Rightarrow> ptr \<Rightarrow> byte list \<Rightarrow> int \<times> intarray_map" where
  "intarrayMapPut mallocOk m a zName =
     (case mapPut (hashtable m) (map_size m) a zName (strHash zName) of
        (rc, t) \<Rightarrow>
          if rc \<noteq> SQLITE_OK then (rc, m)
          else let m1 = m\<lparr>hashtable := t, count := count m + 1\<rparr>
               in if count m1 \<ge> int (rehashSize m1) then rehash mallocOk m1 else (rc, m1))"

fun remove_search :: "map_entry list \<Rightarrow> nat \<Rightarrow> byte list \<Rightarrow> u32 \<Rightarrow> nat \<Rightarrow> nat \<Rightarrow> nat \<times> nat" where
  "remove_search t sz zName h i 0 = (i, 0)"
| "remove_search t sz zName h i (Suc j) =
     (if key (t ! i) = None then (i, Suc j)
      else if entry_matches (t ! i) h zName then (i, Suc j)
      else remove_search t sz zName h ((i + 1) mod sz) j)"

definition intarrayMapRemove :: "intarray_map \<Rightarrow> byte list \<Rightarrow> intarray_map" where
  "intarrayMapRemove m zName =
     (let h = strHash zName; t = hashtable m
      in case remove_search t (map_size m) zName h (unat h mod map_size m) (map_size m) of
           (i, j) \<Rightarrow>
             if 0 < j \<and> key (t ! i) \<noteq> None
             then m\<lparr>hashtable := t[i := \<lparr>key = None, hash = -1, entry_value = 0\<rparr>],
                    count := count m - 1\<rparr>
             else m)"

fun find_loop :: "map_entry list \<Rightarrow> nat \<Rightarrow> byte list \<Rightarrow> u32 \<Rightarrow> nat \<Rightarrow> nat \<Rightarrow> ptr" where
  "find_loop t sz zName h i 0 = 0"
| "find_loop t sz zName h i (Suc j) =
     (if key (t ! i) = None \<and> hash (t ! i) \<noteq> -1 then 0
      else if entry_matches (t ! i) h zName then entry_value (t ! i)
      else find_loop t sz zName h ((i + 1) mod sz) j)"

definition intarrayMapFind :: "intarray_map \<Rightarrow> byte list \<Rightarrow> ptr" where
  "intarrayMapFind m zName =
     (let h = strHash zName
      in find_loop (hashtable m) (map_size m) zName h (unat h mod map_size m) (map_size m))"

subsection \<open>What a table holds, and the invariant\<close>

text \<open>
  \<open>entries\<close> lists the occupied cells as pairs of the folded name and the array;
  \<open>map_abs\<close> is the finite map they stand for.
\<close>

fun entries :: "map_entry list \<Rightarrow> (byte list \<times> ptr) list" where
  "entries [] = []"
| "entries (e # es) =
     (case key e of None \<Rightarrow> entries es | Some k \<Rightarrow> (lower k, entry_value e) # entries es)"

definition map_abs :: "intarray_map \<Rightarrow> byte list \<Rightarrow> ptr option" where
  "map_abs m = map_of (entries (hashtable m))"

definition occupied :: "map_entry \<Rightarrow> bool" where
  "occupied e \<longleftrightarrow> key e \<noteq> None \<or> hash e = -1"

definition entry_ok :: "map_entry \<Rightarrow> bool" where
  "entry_ok e \<longleftrightarrow>
     (case key e of None \<Rightarrow> hash e = 0 \<or> hash e = -1 | Some k \<Rightarrow> hash e = uint (strHash k))"

text \<open>Every cell between the home of a name and the cell that holds it is occupied.\<close>

definition probe_ok :: "map_entry list \<Rightarrow> bool" where
  "probe_ok t \<longleftrightarrow>
     (\<forall>k. \<forall>d < length t. key (t ! cyc (length t) (unat (strHash k)) d) = Some k \<longrightarrow>
        (\<forall>d' < d. occupied (t ! cyc (length t) (unat (strHash k)) d')))"

definition table_inv :: "map_entry list \<Rightarrow> bool" where
  "table_inv t \<longleftrightarrow>
     t \<noteq> [] \<and> (\<forall>e \<in> set t. entry_ok e) \<and> probe_ok t \<and> distinct (map fst (entries t))"

definition map_inv :: "intarray_map \<Rightarrow> bool" where
  "map_inv m \<longleftrightarrow>
     map_size m = length (hashtable m) \<and> 2 \<le> map_size m \<and> rehashSize m < map_size m \<and>
     count m = int (length (entries (hashtable m))) \<and> count m < int (rehashSize m) \<and>
     table_inv (hashtable m)"

definition no_tombstones :: "intarray_map \<Rightarrow> bool" where
  "no_tombstones m \<longleftrightarrow> (\<forall>e \<in> set (hashtable m). hash e \<noteq> -1)"

subsection \<open>The hash of a name\<close>

lemma tolower_idem [simp]: "tolower (tolower c) = tolower c"
  by (auto simp: tolower_def word_le_nat_alt unat_word_ariths)

lemma strHash_loop_lower: "strHash_loop h (lower s) = strHash_loop h s"
  by (induction s arbitrary: h) simp_all

lemma strHash_lower: "strHash (lower s) = strHash s"
  by (simp add: strHash_def strHash_loop_lower)

lemma strHash_cong: "lower s = lower z \<Longrightarrow> strHash s = strHash z"
  by (metis strHash_lower)

lemma mask31_less: "uint ((h::u32) AND 0x7FFFFFFF) < 2 ^ 31"
proof -
  have "h AND 0x7FFFFFFF \<le> 0x7FFFFFFF"
    by (rule word_and_le1)
  then have "uint (h AND 0x7FFFFFFF) \<le> uint (0x7FFFFFFF :: u32)"
    by (simp only: word_le_def)
  moreover have "uint (0x7FFFFFFF :: u32) < 2 ^ 31" by simp
  ultimately show ?thesis by (rule le_less_trans)
qed

lemma strHash_bound: "uint (strHash s) < 2 ^ 31"
proof (cases "strHash_loop 0 s = 0")
  case True
  then have "strHash s = 1" by (simp only: strHash_def Let_def if_True simp_thms)
  then show ?thesis by simp
next
  case False
  then have "strHash s = strHash_loop 0 s AND 0x7FFFFFFF"
    by (simp only: strHash_def Let_def if_False)
  then show ?thesis by (simp only: mask31_less)
qed

lemma c_int32_strHash [simp]: "c_int32 (uint (strHash s)) = uint (strHash s)"
proof (rule c_int32_id)
  have "- (2 ^ 31) \<le> (0::int)" by simp
  also have "0 \<le> uint (strHash s)" by (rule uint_ge_0)
  finally show "in_int32 (uint (strHash s))"
    using strHash_bound by (simp only: in_int32_def simp_thms)
qed

lemma uint_strHash_nonneg [simp]: "uint (strHash s) \<noteq> -1"
  using uint_ge_0 [of "strHash s"] by linarith

subsection \<open>Entries of an updated table\<close>

lemma entries_append [simp]: "entries (xs @ ys) = entries xs @ entries ys"
  by (induction xs) (auto split: option.splits)

lemma entries_replicate [simp]: "entries (replicate n zero_entry) = []"
  by (induction n) simp_all

lemma length_entries_le: "length (entries t) \<le> length t"
  by (induction t) (auto split: option.splits)

lemma entries_split:
  assumes "i < length t"
  shows "entries t = entries (take i t) @ entries [t ! i] @ entries (drop (Suc i) t)"
  by (metis append_Cons append_Nil entries_append id_take_nth_drop [OF assms])

lemma entries_update:
  assumes "i < length t"
  shows "entries (t[i := e]) = entries (take i t) @ entries [e] @ entries (drop (Suc i) t)"
  by (metis append_Cons append_Nil assms entries_append upd_conv_take_nth_drop)

lemma entries_in_set: "p < length t \<Longrightarrow> key (t ! p) = Some k \<Longrightarrow> (lower k, entry_value (t ! p)) \<in> set (entries t)"
  by (subst entries_split, assumption) simp

lemma entries_obtain:
  assumes "(z, v) \<in> set (entries t)"
  obtains p k where "p < length t" "key (t ! p) = Some k" "lower k = z" "entry_value (t ! p) = v"
proof -
  from assms have "\<exists>e \<in> set t. \<exists>k. key e = Some k \<and> lower k = z \<and> entry_value e = v"
    by (induction t) (auto split: option.splits)
  then show thesis using that by (auto simp: in_set_conv_nth)
qed

lemma entries_put:
  assumes "i < length t" "key (t ! i) = None"
    and "distinct (map fst (entries t))" "lower z \<notin> fst ` set (entries t)"
    and "key e = Some z"
  shows "map_of (entries (t[i := e])) = (map_of (entries t))(lower z \<mapsto> entry_value e)"
    and "distinct (map fst (entries (t[i := e])))"
    and "length (entries (t[i := e])) = Suc (length (entries t))"
proof -
  let ?a = "entries (take i t)" and ?b = "entries (drop (Suc i) t)"
  have t: "entries t = ?a @ ?b"
    using entries_split [OF assms(1)] assms(2) by simp
  have t': "entries (t[i := e]) = ?a @ (lower z, entry_value e) # ?b"
    using entries_update [OF assms(1), of e] assms(5) by simp
  have n: "map_of ?a (lower z) = None"
    using assms(4) t by (auto simp: map_of_eq_None_iff)
  show "map_of (entries (t[i := e])) = (map_of (entries t))(lower z \<mapsto> entry_value e)"
    unfolding t t' using n by (auto simp: fun_eq_iff map_add_def split: option.splits)
  show "distinct (map fst (entries (t[i := e])))"
    using assms(3,4) unfolding t t' by auto
  show "length (entries (t[i := e])) = Suc (length (entries t))"
    unfolding t t' by simp
qed

lemma entries_del:
  assumes "i < length t" "key (t ! i) = Some z" "key e = None"
    and "distinct (map fst (entries t))"
  shows "map_of (entries (t[i := e])) = (map_of (entries t))(lower z := None)"
    and "distinct (map fst (entries (t[i := e])))"
    and "Suc (length (entries (t[i := e]))) = length (entries t)"
proof -
  let ?a = "entries (take i t)" and ?b = "entries (drop (Suc i) t)"
  have t: "entries t = ?a @ (lower z, entry_value (t ! i)) # ?b"
    using entries_split [OF assms(1)] assms(2) by simp
  have t': "entries (t[i := e]) = ?a @ ?b"
    using entries_update [OF assms(1), of e] assms(3) by simp
  have n: "map_of ?a (lower z) = None" "map_of ?b (lower z) = None"
    using assms(4) t by (auto simp: map_of_eq_None_iff)
  show "map_of (entries (t[i := e])) = (map_of (entries t))(lower z := None)"
    unfolding t t' using n by (auto simp: fun_eq_iff map_add_def split: option.splits)
  show "distinct (map fst (entries (t[i := e])))"
    using assms(4) unfolding t t' by auto
  show "Suc (length (entries (t[i := e]))) = length (entries t)"
    unfolding t t' by simp
qed

subsection \<open>The probing loops\<close>

definition is_match :: "map_entry list \<Rightarrow> byte list \<Rightarrow> nat \<Rightarrow> bool" where
  "is_match t zName p \<longleftrightarrow> (\<exists>k. key (t ! p) = Some k \<and> lower k = lower zName)"

lemma table_entry_ok: "table_inv t \<Longrightarrow> p < length t \<Longrightarrow> entry_ok (t ! p)"
  by (simp add: table_inv_def)

lemma entry_matches_iff:
  assumes "entry_ok (t ! p)"
  shows "entry_matches (t ! p) (strHash z) z \<longleftrightarrow> is_match t z p"
proof (cases "key (t ! p)")
  case None
  then show ?thesis by (simp add: entry_matches_def is_match_def)
next
  case (Some k)
  then have "hash (t ! p) = uint (strHash k)" using assms by (simp add: entry_ok_def)
  then have "word_of_int (hash (t ! p)) = strHash k" by simp
  moreover have "lower k = lower z \<Longrightarrow> strHash z = strHash k" by (rule strHash_cong) simp
  ultimately show ?thesis using Some by (auto simp: entry_matches_def is_match_def stricmp_eq_def)
qed

lemma is_match_occupied: "is_match t z p \<Longrightarrow> occupied (t ! p)"
  by (auto simp: is_match_def occupied_def)

lemma is_match_in_entries:
  "p < length t \<Longrightarrow> is_match t z p \<Longrightarrow> (lower z, entry_value (t ! p)) \<in> set (entries t)"
  by (auto simp: is_match_def dest: entries_in_set)

lemma is_match_abs:
  "table_inv t \<Longrightarrow> p < length t \<Longrightarrow> is_match t z p \<Longrightarrow>
     map_of (entries t) (lower z) = Some (entry_value (t ! p))"
  by (simp add: table_inv_def is_match_in_entries)

lemma no_match_abs:
  "(\<forall>p < length t. \<not> is_match t z p) \<longleftrightarrow> lower z \<notin> fst ` set (entries t)"
proof
  assume "\<forall>p < length t. \<not> is_match t z p"
  then show "lower z \<notin> fst ` set (entries t)"
    by (auto simp: is_match_def elim!: entries_obtain)
next
  assume "lower z \<notin> fst ` set (entries t)"
  then show "\<forall>p < length t. \<not> is_match t z p"
    by (auto dest!: is_match_in_entries) (metis fst_conv image_eqI)
qed

text \<open>
  A table with a match holds it at some distance from the home of the name, behind
  occupied cells only.
\<close>

lemma match_distance:
  assumes inv: "table_inv t" and p: "p < length t" and m: "is_match t z p"
  obtains dp where "dp < length t" "cyc (length t) (unat (strHash z)) dp = p"
    "\<forall>d' < dp. occupied (t ! cyc (length t) (unat (strHash z)) d')"
proof -
  from m obtain k where k: "key (t ! p) = Some k" "lower k = lower z"
    by (auto simp: is_match_def)
  from p have "0 < length t" by linarith
  then obtain dp where dp: "dp < length t" "cyc (length t) (unat (strHash z)) dp = p"
    using cyc_surj p by blast
  moreover have "strHash k = strHash z" by (rule strHash_cong) (rule k(2))
  moreover have "probe_ok t" using inv by (simp add: table_inv_def)
  ultimately have "\<forall>d' < dp. occupied (t ! cyc (length t) (unat (strHash z)) d')"
    using k(1) unfolding probe_ok_def by metis
  with dp show thesis by (rule that)
qed

text \<open>The search of \<open>intarrayMapFind\<close>, from any distance \<open>d\<close> with the probes left.\<close>

lemma find_loop_hit:
  assumes inv: "table_inv t" and n: "n = length t" and h: "h = unat (strHash z)"
    and dp: "dp < n" "is_match t z (cyc n h dp)" "\<forall>d' < dp. occupied (t ! cyc n h d')"
    and d: "d \<le> dp"
  shows "\<exists>q < n. is_match t z q \<and> find_loop t n z (strHash z) (cyc n h d) (n - d) = entry_value (t ! q)"
  using d
proof (induction "dp - d" arbitrary: d)
  case (0 d)
  then have "d = dp" by simp
  moreover have "n - dp = Suc (n - Suc dp)" using dp(1) by simp
  moreover have lt: "cyc n h dp < n" using dp(1) by simp
  moreover have "entry_matches (t ! cyc n h dp) (strHash z) z"
    using dp(2) entry_matches_iff table_entry_ok [OF inv] lt n by simp
  moreover have "key (t ! cyc n h dp) \<noteq> None" using dp(2) by (auto simp: is_match_def)
  ultimately have "find_loop t n z (strHash z) (cyc n h d) (n - d) = entry_value (t ! cyc n h dp)"
    by auto
  then show ?case using dp(2) lt by blast
next
  case (Suc x d)
  then have lt: "d < dp" and le: "Suc d \<le> dp" and x: "x = dp - Suc d" by simp_all
  have nd: "n - d = Suc (n - Suc d)" using lt dp(1) by simp
  have c: "cyc n h d < n" using dp(1) by simp
  have occ: "occupied (t ! cyc n h d)" using dp(3) lt by blast
  have mt: "entry_matches (t ! cyc n h d) (strHash z) z \<longleftrightarrow> is_match t z (cyc n h d)"
    using entry_matches_iff table_entry_ok [OF inv] c n by simp
  from Suc.hyps(1) [OF x le] show ?case
    using occ mt c by (auto simp: nd occupied_def cyc_Suc)
qed

lemma find_loop_miss:
  assumes inv: "table_inv t" and n: "n = length t" and no: "\<forall>p < n. \<not> is_match t z p"
    and i: "i < n"
  shows "find_loop t n z (strHash z) i j = 0"
  using i
proof (induction j arbitrary: i)
  case 0
  then show ?case by simp
next
  case (Suc j)
  have "\<not> entry_matches (t ! i) (strHash z) z"
    using entry_matches_iff table_entry_ok [OF inv] Suc.prems n no by simp
  moreover have "(i + 1) mod n < n" using Suc.prems by simp
  ultimately show ?case using Suc.IH by simp
qed

lemma find_loop_abs:
  assumes inv: "table_inv t"
  shows "find_loop t (length t) z (strHash z) (unat (strHash z) mod length t) (length t) =
    (case map_of (entries t) (lower z) of None \<Rightarrow> 0 | Some a \<Rightarrow> a)"
proof (cases "\<exists>p < length t. is_match t z p")
  case True
  then obtain p where p: "p < length t" "is_match t z p" by blast
  with inv obtain dp where dp: "dp < length t" "cyc (length t) (unat (strHash z)) dp = p"
    "\<forall>d' < dp. occupied (t ! cyc (length t) (unat (strHash z)) d')"
    by (rule match_distance)
  then obtain q where "q < length t" "is_match t z q"
    "find_loop t (length t) z (strHash z) (cyc (length t) (unat (strHash z)) 0) (length t - 0) =
       entry_value (t ! q)"
    using find_loop_hit [OF inv refl refl dp(1) _ dp(3), of 0] p(2) by auto
  then show ?thesis using is_match_abs [OF inv] by (simp add: cyc_0)
next
  case False
  have "0 < length t" using inv by (simp add: table_inv_def)
  then have "unat (strHash z) mod length t < length t" by simp
  then show ?thesis
    using False find_loop_miss [OF inv refl] no_match_abs [of t z]
    by (auto simp: map_of_eq_None_iff [THEN iffD2])
qed

text \<open>The two loops of \<open>mapPut_\<close>.\<close>

lemma put_search_None:
  assumes inv: "table_inv t" and n: "n = length t"
  shows "i < n \<Longrightarrow> put_search t n z (strHash z) i j = None \<Longrightarrow> \<exists>p < n. is_match t z p"
proof (induction j arbitrary: i)
  case 0
  then show ?case by simp
next
  case (Suc j)
  have "entry_matches (t ! i) (strHash z) z \<longleftrightarrow> is_match t z i"
    using entry_matches_iff table_entry_ok [OF inv] Suc.prems(1) n by simp
  moreover have "Suc i mod n < n" using Suc.prems(1) by simp
  ultimately show ?case using Suc.prems Suc.IH [of "Suc i mod n"] by (auto split: if_splits)
qed

lemma put_search_Some:
  assumes inv: "table_inv t" and n: "n = length t" and d: "d \<le> n"
    and res: "put_search t n z (strHash z) (cyc n h d) (n - d) = Some (i, j)"
  shows "\<exists>d1. d \<le> d1 \<and> d1 \<le> n \<and> i = cyc n h d1 \<and> j = n - d1 \<and>
    (\<forall>d'. d \<le> d' \<and> d' < d1 \<longrightarrow> key (t ! cyc n h d') \<noteq> None \<and> \<not> is_match t z (cyc n h d')) \<and>
    (d1 < n \<longrightarrow> key (t ! i) = None)"
  using d res
proof (induction "n - d" arbitrary: d)
  case (0 d)
  then show ?case by auto
next
  case (Suc x d)
  then have lt: "d < n" and nd: "n - d = Suc (n - Suc d)" and x: "x = n - Suc d" by simp_all
  show ?case
  proof (cases "key (t ! cyc n h d) = None")
    case True
    then show ?thesis using Suc.prems lt nd by auto
  next
    case False
    have "cyc n h d < n" using lt by simp
    then have m: "entry_matches (t ! cyc n h d) (strHash z) z \<longleftrightarrow> is_match t z (cyc n h d)"
      using entry_matches_iff table_entry_ok [OF inv] n by simp
    have nm: "\<not> is_match t z (cyc n h d)" using Suc.prems(2) False nd m by auto
    from False have "put_search t n z (strHash z) (cyc n h (Suc d)) (n - Suc d) = Some (i, j)"
      using Suc.prems(2) nd by (simp split: if_splits)
    then obtain d1 where "Suc d \<le> d1" "d1 \<le> n" "i = cyc n h d1" "j = n - d1"
      "\<forall>d'. Suc d \<le> d' \<and> d' < d1 \<longrightarrow> key (t ! cyc n h d') \<noteq> None \<and> \<not> is_match t z (cyc n h d')"
      "d1 < n \<longrightarrow> key (t ! i) = None"
      using Suc.hyps(1) [OF x] lt by auto
    then show ?thesis using False nm
      by (intro exI [of _ d1]) (metis Suc_leD le_antisym not_less_eq_eq)
  qed
qed

lemma put_trail_hit:
  assumes inv: "table_inv t" and n: "n = length t" and h: "h = unat (strHash z)"
    and dp: "dp < n" "is_match t z (cyc n h dp)" "\<forall>d' < dp. occupied (t ! cyc n h d')"
    and d: "d \<le> dp"
  shows "put_trail_dup t n z (strHash z) (cyc n h d) (n - d)"
  using d
proof (induction "dp - d" arbitrary: d)
  case (0 d)
  then have "d = dp" by simp
  moreover have "n - dp = Suc (n - Suc dp)" using dp(1) by simp
  moreover have lt: "cyc n h dp < n" using dp(1) by simp
  moreover have "entry_matches (t ! cyc n h dp) (strHash z) z"
    using dp(2) entry_matches_iff table_entry_ok [OF inv] lt n by simp
  moreover have "key (t ! cyc n h dp) \<noteq> None" using dp(2) by (auto simp: is_match_def)
  ultimately show ?case by auto
next
  case (Suc x d)
  then have lt: "d < dp" and le: "Suc d \<le> dp" and x: "x = dp - Suc d" by simp_all
  have nd: "n - d = Suc (n - Suc d)" using lt dp(1) by simp
  have "occupied (t ! cyc n h d)" using dp(3) lt by blast
  then show ?case using Suc.hyps(1) [OF x le] by (auto simp: nd occupied_def)
qed

lemma put_trail_miss:
  assumes inv: "table_inv t" and n: "n = length t" and no: "\<forall>p < n. \<not> is_match t z p"
  shows "i < n \<Longrightarrow> \<not> put_trail_dup t n z (strHash z) i j"
proof (induction j arbitrary: i)
  case 0
  then show ?case by simp
next
  case (Suc j)
  have "\<not> entry_matches (t ! i) (strHash z) z"
    using entry_matches_iff table_entry_ok [OF inv] Suc.prems n no by simp
  moreover have "(i + 1) mod n < n" using Suc.prems by simp
  ultimately show ?case using Suc.IH by simp
qed

subsection \<open>\<open>mapPut_\<close>\<close>

lemma mapPut_dup:
  assumes inv: "table_inv t" and p: "p < length t" "is_match t z p"
  shows "mapPut t (length t) a z (strHash z) = (INTARRAY_DUPLICATE_NAME, t)"
proof (cases "put_search t (length t) z (strHash z) (unat (strHash z) mod length t) (length t)")
  case None
  then show ?thesis by (simp add: mapPut_def)
next
  case (Some ij)
  obtain i j where ij: "ij = (i, j)" by (cases ij)
  let ?n = "length t" and ?h = "unat (strHash z)"
  from inv p obtain dp where dp: "dp < ?n" "cyc ?n ?h dp = p" "\<forall>d' < dp. occupied (t ! cyc ?n ?h d')"
    by (rule match_distance)
  have "put_search t ?n z (strHash z) (cyc ?n ?h 0) (?n - 0) = Some (i, j)"
    using Some ij by (simp add: cyc_0)
  from put_search_Some [OF inv refl le0 this] obtain d1 where
    d1: "d1 \<le> ?n" "i = cyc ?n ?h d1" "j = ?n - d1" "d1 < ?n \<longrightarrow> key (t ! i) = None"
    and nomatch: "\<forall>d' < d1. \<not> is_match t z (cyc ?n ?h d')"
    by auto
  show ?thesis
  proof (cases "d1 < dp")
    case True
    have "occupied (t ! i)" "key (t ! i) = None" using dp(1,3) d1(2,4) True by auto
    then have tomb: "hash (t ! i) = -1" by (simp add: occupied_def)
    have "put_trail_dup t ?n z (strHash z) (cyc ?n ?h (Suc d1)) (?n - Suc d1)"
      using put_trail_hit [OF inv refl refl dp(1) _ dp(3), of "Suc d1"] dp(2) p(2) True by simp
    moreover have "(i + 1) mod ?n = cyc ?n ?h (Suc d1)" "j - 1 = ?n - Suc d1" using d1 by simp_all
    ultimately show ?thesis using Some ij \<open>key (t ! i) = None\<close> tomb by (simp add: mapPut_def)
  next
    case False
    have "dp \<noteq> d1"
      using d1(2,4) dp(1,2) p(2) by (auto simp: is_match_def)
    with False have lt: "dp < d1" by simp
    then show ?thesis using nomatch dp(2) p(2) by auto
  qed
qed

lemma put_search_free:
  assumes inv: "table_inv t" and no: "\<forall>p < length t. \<not> is_match t z p"
    and free: "\<exists>p < length t. key (t ! p) = None"
  obtains d where "d < length t" "key (t ! cyc (length t) (unat (strHash z)) d) = None"
    "\<forall>d' < d. key (t ! cyc (length t) (unat (strHash z)) d') \<noteq> None"
    "put_search t (length t) z (strHash z) (unat (strHash z) mod length t) (length t) =
       Some (cyc (length t) (unat (strHash z)) d, length t - d)"
proof -
  let ?n = "length t" and ?h = "unat (strHash z)"
  have n0: "0 < ?n" using inv by (simp add: table_inv_def)
  obtain i j where ij: "put_search t ?n z (strHash z) (?h mod ?n) ?n = Some (i, j)"
    using put_search_None [OF inv refl, of "?h mod ?n" z ?n] no n0 by fastforce
  then have "put_search t ?n z (strHash z) (cyc ?n ?h 0) (?n - 0) = Some (i, j)"
    by (simp add: cyc_0)
  from put_search_Some [OF inv refl le0 this] obtain d1 where
    d1: "d1 \<le> ?n" "i = cyc ?n ?h d1" "j = ?n - d1" "d1 < ?n \<longrightarrow> key (t ! i) = None"
      "\<forall>d' < d1. key (t ! cyc ?n ?h d') \<noteq> None" by auto
  have "d1 < ?n"
  proof (rule ccontr)
    assume "\<not> d1 < ?n"
    then have all: "\<forall>d' < ?n. key (t ! cyc ?n ?h d') \<noteq> None" using d1(1,5) by simp
    from free obtain p where p: "p < ?n" "key (t ! p) = None" by blast
    with cyc_surj [OF n0 p(1), of ?h] all show False by metis
  qed
  with d1 ij show thesis by (intro that [of d1]) simp_all
qed

lemma free_cell: "length (entries t) < length t \<Longrightarrow> \<exists>p < length t. key (t ! p) = None"
proof (induction t)
  case (Cons e t)
  show ?case
  proof (cases "key e")
    case None
    then show ?thesis by (intro exI [of _ 0]) simp
  next
    case (Some k)
    with Cons obtain p where "p < length t" "key (t ! p) = None" by auto
    then show ?thesis by (intro exI [of _ "Suc p"]) simp
  qed
qed simp

text \<open>Filling the first free cell on the probe path of a name keeps the table well formed.\<close>

lemma table_inv_put:
  assumes inv: "table_inv t" and d: "d < length t"
    and free: "key (t ! cyc (length t) (unat (strHash z)) d) = None"
    and path: "\<forall>d' < d. key (t ! cyc (length t) (unat (strHash z)) d') \<noteq> None"
    and dist: "distinct (map fst (entries (t[cyc (length t) (unat (strHash z)) d :=
      \<lparr>key = Some z, hash = uint (strHash z), entry_value = a\<rparr>])))"
  shows "table_inv (t[cyc (length t) (unat (strHash z)) d :=
      \<lparr>key = Some z, hash = uint (strHash z), entry_value = a\<rparr>])"
proof -
  let ?n = "length t" and ?h = "unat (strHash z)"
  let ?i = "cyc ?n ?h d" and ?e = "\<lparr>key = Some z, hash = uint (strHash z), entry_value = a\<rparr>"
  let ?t = "t[?i := ?e]"
  have i: "?i < ?n" using d by (rule cyc_lt)
  have occ: "occupied (?t ! p)" if "p < ?n" "occupied (t ! p)" for p
    using that i by (cases "p = ?i") (auto simp: occupied_def)
  have "occupied (?t ! cyc ?n (unat (strHash k)) d')"
    if k: "d2 < ?n" "key (?t ! cyc ?n (unat (strHash k)) d2) = Some k" and d': "d' < d2" for k d2 d'
  proof (cases "cyc ?n (unat (strHash k)) d2 = ?i")
    case True
    then have "z = k" using k(2) i by simp
    then have "d2 = d" using True cyc_inj k(1) d by blast
    then have "occupied (t ! cyc ?n (unat (strHash k)) d')"
      using path d' \<open>z = k\<close> by (auto simp: occupied_def)
    then show ?thesis by (rule occ [OF cyc_lt [OF d]])
  next
    case False
    then have "occupied (t ! cyc ?n (unat (strHash k)) d')"
      using inv k d' i by (auto simp: table_inv_def probe_ok_def)
    then show ?thesis by (rule occ [OF cyc_lt [OF d]])
  qed
  then have "probe_ok ?t" unfolding probe_ok_def by simp
  moreover have "\<forall>e \<in> set ?t. entry_ok e"
    using inv by (auto simp: table_inv_def entry_ok_def dest!: set_update_subset_insert [THEN subsetD])
  ultimately show ?thesis using inv dist by (simp add: table_inv_def)
qed

lemma mapPut_new:
  assumes inv: "table_inv t" and no: "lower z \<notin> fst ` set (entries t)"
    and free: "length (entries t) < length t"
  obtains t' where "mapPut t (length t) a z (strHash z) = (SQLITE_OK, t')"
    "table_inv t'" "length t' = length t"
    "map_of (entries t') = (map_of (entries t))(lower z \<mapsto> a)"
    "length (entries t') = Suc (length (entries t))"
    "(\<forall>e \<in> set t. hash e \<noteq> -1) \<longrightarrow> (\<forall>e \<in> set t'. hash e \<noteq> -1)"
proof -
  let ?n = "length t" and ?h = "unat (strHash z)"
  have nm: "\<forall>p < ?n. \<not> is_match t z p" using no no_match_abs by blast
  have "\<exists>p < ?n. key (t ! p) = None"
    using free free_cell by blast
  with inv nm obtain d where d: "d < ?n" "key (t ! cyc ?n ?h d) = None"
    "\<forall>d' < d. key (t ! cyc ?n ?h d') \<noteq> None"
    "put_search t ?n z (strHash z) (?h mod ?n) ?n = Some (cyc ?n ?h d, ?n - d)"
    by (rule put_search_free)
  let ?i = "cyc ?n ?h d" and ?e = "\<lparr>key = Some z, hash = uint (strHash z), entry_value = a\<rparr>"
  have i: "?i < ?n" using d(1) by (rule cyc_lt)
  have "\<not> put_trail_dup t ?n z (strHash z) ((?i + 1) mod ?n) (?n - d - 1)"
    by (rule put_trail_miss [OF inv refl nm]) (simp add: cyc_lt [OF d(1)])
  then have "mapPut t ?n a z (strHash z) = (SQLITE_OK, t[?i := ?e])"
    using d(2,4) by (simp add: mapPut_def)
  moreover have "distinct (map fst (entries t))" using inv by (simp add: table_inv_def)
  note upd = entries_put [OF i d(2) this no, of ?e]
  have "table_inv (t[?i := ?e])"
    using inv table_inv_put [OF inv d(1-3)] upd(2) by simp
  ultimately show thesis
    using upd by (intro that [of "t[?i := ?e]"]) (auto dest!: set_update_subset_insert [THEN subsetD])
qed

subsection \<open>\<open>rehash\<close>\<close>

lemma table_inv_empty: "0 < n \<Longrightarrow> table_inv (replicate n zero_entry)"
  by (auto simp: table_inv_def entry_ok_def probe_ok_def cyc_lt)

lemma rehash_loop_correct:
  assumes "table_inv nt" "length nt = ns" "\<forall>e \<in> set nt. hash e \<noteq> -1"
    and "\<forall>e \<in> set es. entry_ok e"
    and "distinct (map fst (entries es))" "fst ` set (entries es) \<inter> fst ` set (entries nt) = {}"
    and "length (entries nt) + length (entries es) < ns"
  shows "table_inv (rehash_loop nt ns es) \<and> length (rehash_loop nt ns es) = ns \<and>
    map_of (entries (rehash_loop nt ns es)) = map_of (entries nt) ++ map_of (entries es) \<and>
    length (entries (rehash_loop nt ns es)) = length (entries nt) + length (entries es) \<and>
    (\<forall>e \<in> set (rehash_loop nt ns es). hash e \<noteq> -1)"
  using assms
proof (induction es arbitrary: nt)
  case Nil
  then show ?case by simp
next
  case (Cons e es)
  show ?case
  proof (cases "key e")
    case None
    then show ?thesis using Cons.IH [of nt] Cons.prems by simp
  next
    case (Some k)
    then have h: "word_of_int (hash e) = strHash k"
      using Cons.prems(4) by (simp add: entry_ok_def)
    have "lower k \<notin> fst ` set (entries nt)" "length (entries nt) < length nt"
      using Cons.prems Some by auto
    with Cons.prems(1) obtain t' where t':
      "mapPut nt (length nt) (entry_value e) k (strHash k) = (SQLITE_OK, t')"
      "table_inv t'" "length t' = length nt"
      "map_of (entries t') = (map_of (entries nt))(lower k \<mapsto> entry_value e)"
      "length (entries t') = Suc (length (entries nt))"
      "(\<forall>e \<in> set nt. hash e \<noteq> -1) \<longrightarrow> (\<forall>e \<in> set t'. hash e \<noteq> -1)"
      by (rule mapPut_new)
    have "fst ` set (entries t') = insert (lower k) (fst ` set (entries nt))"
      using arg_cong [OF t'(4), of dom] by (simp add: dom_map_of_conv_image_fst)
    then have IH: "table_inv (rehash_loop t' ns es) \<and> length (rehash_loop t' ns es) = ns \<and>
      map_of (entries (rehash_loop t' ns es)) = map_of (entries t') ++ map_of (entries es) \<and>
      length (entries (rehash_loop t' ns es)) = length (entries t') + length (entries es) \<and>
      (\<forall>e \<in> set (rehash_loop t' ns es). hash e \<noteq> -1)"
      using Cons.prems t' Some by (intro Cons.IH) auto
    have "lower k \<notin> dom (map_of (entries es))"
      using Cons.prems(5) Some by (simp add: dom_map_of_conv_image_fst)
    then have eq: "(map_of (entries nt))(lower k \<mapsto> entry_value e) ++ map_of (entries es) =
      map_of (entries nt) ++ map_of (entries (e # es))"
      using Some by (simp add: map_add_upd_left)
    have step: "rehash_loop nt ns (e # es) = rehash_loop t' ns es"
      using Some h t'(1) Cons.prems(2) by simp
    have len: "length (entries t') + length (entries es) = length (entries nt) + length (entries (e # es))"
      using Some t'(5) by simp
    show ?thesis
      unfolding step using IH unfolding t'(4) eq len .
  qed
qed

lemma rehash_correct:
  assumes inv: "table_inv (hashtable m)" and sz: "map_size m = length (hashtable m)" "2 \<le> map_size m"
    and cnt: "count m = int (length (entries (hashtable m)))" "count m < int (map_size m)"
  obtains m' where "rehash True m = (SQLITE_OK, m')" "map_inv m'" "map_abs m' = map_abs m"
    "count m' = count m" "no_tombstones m'"
proof -
  define ns where "ns = map_size m + map_size m div 2"
  define t' where "t' = rehash_loop (replicate ns zero_entry) ns (hashtable m)"
  have "table_inv t' \<and> length t' = ns \<and>
    map_of (entries t') = map_of (entries (replicate ns zero_entry)) ++ map_of (entries (hashtable m)) \<and>
    length (entries t') = length (entries (replicate ns zero_entry)) + length (entries (hashtable m)) \<and>
    (\<forall>e \<in> set t'. hash e \<noteq> -1)"
    unfolding t'_def
  proof (rule rehash_loop_correct)
    show "table_inv (replicate ns zero_entry)"
      using sz(2) by (intro table_inv_empty) (simp add: ns_def)
    show "\<forall>e \<in> set (hashtable m). entry_ok e" "distinct (map fst (entries (hashtable m)))"
      using inv by (simp_all add: table_inv_def)
    show "length (entries (replicate ns zero_entry)) + length (entries (hashtable m)) < ns"
      using cnt by (simp add: ns_def)
  qed simp_all
  moreover have "rehash True m = (SQLITE_OK, m\<lparr>rehashSize := map_size m, map_size := ns, hashtable := t'\<rparr>)"
    by (simp add: rehash_def ns_def t'_def Let_def)
  ultimately show thesis
    using assms
    by (intro that [of "m\<lparr>rehashSize := map_size m, map_size := ns, hashtable := t'\<rparr>"])
      (simp_all add: map_inv_def map_abs_def no_tombstones_def ns_def)
qed

subsection \<open>The operations on a well-formed table\<close>

lemma map_inv_table: "map_inv m \<Longrightarrow> table_inv (hashtable m) \<and> map_size m = length (hashtable m)"
  by (simp add: map_inv_def)

lemma intarrayMapInit_ok:
  "\<exists>m'. intarrayMapInit True m = (SQLITE_OK, m') \<and> map_inv m' \<and> map_abs m' = Map.empty \<and> no_tombstones m'"
proof -
  have "map_inv (snd (intarrayMapInit True m))"
    using table_inv_empty [of 17]
    by (simp add: intarrayMapInit_def map_inv_def Let_def)
  moreover have "no_tombstones (snd (intarrayMapInit True m))"
    by (simp add: intarrayMapInit_def no_tombstones_def Let_def)
  ultimately show ?thesis
    by (simp add: intarrayMapInit_def map_abs_def Let_def)
qed

lemma find_correct:
  "map_inv m \<Longrightarrow> intarrayMapFind m z = (case map_abs m (lower z) of None \<Rightarrow> 0 | Some a \<Rightarrow> a)"
  by (simp add: intarrayMapFind_def map_abs_def find_loop_abs map_inv_def)

lemma put_duplicate:
  assumes "map_inv m" "map_abs m (lower z) \<noteq> None"
  shows "intarrayMapPut ok m a z = (INTARRAY_DUPLICATE_NAME, m)"
proof -
  from assms obtain p where "p < length (hashtable m)" "is_match (hashtable m) z p"
    using no_match_abs [of "hashtable m" z] by (auto simp: map_abs_def map_of_eq_None_iff)
  then have "mapPut (hashtable m) (map_size m) a z (strHash z) = (INTARRAY_DUPLICATE_NAME, hashtable m)"
    using mapPut_dup assms(1) by (simp add: map_inv_def)
  then show ?thesis by (simp add: intarrayMapPut_def result_codes)
qed

text \<open>
  A new name is stored whatever the allocator does; the return code is that of the rehash
  when the table has to grow.
\<close>

lemma put_new:
  assumes inv: "map_inv m" and new: "map_abs m (lower z) = None"
  obtains m' where "map_abs m' = (map_abs m)(lower z \<mapsto> a)" "count m' = count m + 1"
    "no_tombstones m \<or> ok \<and> count m + 1 = int (rehashSize m) \<longrightarrow> no_tombstones m'"
    "count m + 1 < int (rehashSize m) \<and> map_inv m' \<and> intarrayMapPut ok m a z = (SQLITE_OK, m') \<or>
     count m + 1 = int (rehashSize m) \<and> ok \<and> map_inv m' \<and> intarrayMapPut ok m a z = (SQLITE_OK, m') \<or>
     count m + 1 = int (rehashSize m) \<and> \<not> ok \<and> intarrayMapPut ok m a z = (SQLITE_NOMEM, m') \<and>
       table_inv (hashtable m') \<and> map_size m' = length (hashtable m')"
proof -
  have "lower z \<notin> fst ` set (entries (hashtable m))"
    using new by (simp add: map_abs_def map_of_eq_None_iff)
  moreover have "length (entries (hashtable m)) < length (hashtable m)"
    using inv by (simp add: map_inv_def)
  moreover have "table_inv (hashtable m)" using inv by (simp add: map_inv_def)
  ultimately obtain t' where t': "mapPut (hashtable m) (length (hashtable m)) a z (strHash z) = (SQLITE_OK, t')"
    "table_inv t'" "length t' = length (hashtable m)"
    "map_of (entries t') = (map_of (entries (hashtable m)))(lower z \<mapsto> a)"
    "length (entries t') = Suc (length (entries (hashtable m)))"
    "(\<forall>e \<in> set (hashtable m). hash e \<noteq> -1) \<longrightarrow> (\<forall>e \<in> set t'. hash e \<noteq> -1)"
    using mapPut_new by blast
  let ?m1 = "m\<lparr>hashtable := t', count := count m + 1\<rparr>"
  have sz: "map_size m = length (hashtable m)" using inv by (simp add: map_inv_def)
  have put: "intarrayMapPut ok m a z =
    (if count m + 1 \<ge> int (rehashSize m) then rehash ok ?m1 else (SQLITE_OK, ?m1))"
    using t'(1) by (simp add: intarrayMapPut_def sz Let_def)
  have abs1: "map_abs ?m1 = (map_abs m)(lower z \<mapsto> a)" using t'(4) by (simp add: map_abs_def)
  have tomb1: "no_tombstones m \<longrightarrow> no_tombstones ?m1" using t'(6) by (simp add: no_tombstones_def)
  consider "count m + 1 < int (rehashSize m)" | "count m + 1 = int (rehashSize m)"
    using inv by (fastforce simp: map_inv_def)
  then show thesis
  proof cases
    case 1
    then have "map_inv ?m1" using inv t' by (simp add: map_inv_def)
    with 1 show thesis using put abs1 tomb1 by (intro that [of ?m1]) simp_all
  next
    case 2
    show thesis
    proof (cases ok)
      case True
      have "rehashSize m < map_size m" using inv by (simp add: map_inv_def)
      then have "count ?m1 < int (map_size ?m1)" using 2 by simp
      moreover have "map_size ?m1 = length (hashtable ?m1)" "2 \<le> map_size ?m1"
        "count ?m1 = int (length (entries (hashtable ?m1)))" "table_inv (hashtable ?m1)"
        using inv t' by (simp_all add: map_inv_def)
      ultimately obtain m' where "rehash True ?m1 = (SQLITE_OK, m')" "map_inv m'" "map_abs m' = map_abs ?m1"
        "count m' = count ?m1" "no_tombstones m'"
        using rehash_correct by blast
      with 2 True show thesis using put abs1 by (intro that [of m']) simp_all
    next
      case False
      with 2 show thesis using put abs1 tomb1 t'(2,3) sz
        by (intro that [of ?m1]) (simp_all add: rehash_def)
    qed
  qed
qed

lemma remove_search_stop:
  assumes inv: "table_inv t" and n: "n = length t"
  shows "i < n \<Longrightarrow> remove_search t n z (strHash z) i j = (i', j') \<Longrightarrow>
    i' < n \<and> (0 < j' \<longrightarrow> key (t ! i') = None \<or> is_match t z i')"
proof (induction j arbitrary: i)
  case 0
  then show ?case by simp
next
  case (Suc j)
  have "entry_matches (t ! i) (strHash z) z \<longleftrightarrow> is_match t z i"
    using entry_matches_iff table_entry_ok [OF inv] Suc.prems(1) n by simp
  moreover have "Suc i mod n < n" using Suc.prems(1) by simp
  ultimately show ?case using Suc.prems Suc.IH [of "Suc i mod n"] by (auto split: if_splits)
qed

lemma remove_search_hit:
  assumes inv: "table_inv t" and n: "n = length t"
    and dp: "dp < n" "is_match t z (cyc n h dp)" "\<forall>d' < dp. key (t ! cyc n h d') \<noteq> None"
    and d: "d \<le> dp"
  shows "\<exists>i' j'. remove_search t n z (strHash z) (cyc n h d) (n - d) = (i', j') \<and> 0 < j' \<and> is_match t z i'"
  using d
proof (induction "dp - d" arbitrary: d)
  case (0 d)
  then have "d = dp" by simp
  moreover have "n - dp = Suc (n - Suc dp)" using dp(1) by simp
  moreover have "entry_matches (t ! cyc n h dp) (strHash z) z"
    using dp(2) entry_matches_iff table_entry_ok [OF inv] cyc_lt [OF dp(1)] n by simp
  ultimately show ?case using dp(2) by (auto simp: is_match_def)
next
  case (Suc x d)
  then have lt: "d < dp" and le: "Suc d \<le> dp" and x: "x = dp - Suc d" by simp_all
  have nd: "n - d = Suc (n - Suc d)" using lt dp(1) by simp
  have kn: "key (t ! cyc n h d) \<noteq> None" using dp(3) lt by blast
  have "entry_matches (t ! cyc n h d) (strHash z) z \<longleftrightarrow> is_match t z (cyc n h d)"
    using entry_matches_iff table_entry_ok [OF inv] cyc_lt [OF dp(1)] n by simp
  then show ?case using Suc.hyps(1) [OF x le] kn by (auto simp: nd)
qed

definition tombstone :: map_entry where
  "tombstone = \<lparr>key = None, hash = -1, entry_value = 0\<rparr>"

lemma table_inv_tombstone:
  assumes inv: "table_inv t" and i: "i < length t" "key (t ! i) = Some k"
  shows "table_inv (t[i := tombstone])"
proof -
  have occ: "occupied (t[i := tombstone] ! p)" if "occupied (t ! p)" "p < length t" for p
    using that i by (cases "p = i") (auto simp: occupied_def tombstone_def)
  have "probe_ok (t[i := tombstone])"
    unfolding probe_ok_def
  proof (intro allI impI)
    fix z d d'
    assume d: "d < length (t[i := tombstone])" and d': "d' < d"
      and z: "key (t[i := tombstone] ! cyc (length (t[i := tombstone])) (unat (strHash z)) d) = Some z"
    let ?p = "cyc (length t) (unat (strHash z)) d"
    have "?p \<noteq> i" using z i by (auto simp: tombstone_def)
    then have "key (t ! ?p) = Some z" using z by simp
    then have "occupied (t ! cyc (length t) (unat (strHash z)) d')"
      using inv d d' by (auto simp: table_inv_def probe_ok_def)
    then show "occupied (t[i := tombstone] ! cyc (length (t[i := tombstone])) (unat (strHash z)) d')"
      using occ cyc_lt [of d "length t"] d by simp
  qed
  moreover have "\<forall>e \<in> set (t[i := tombstone]). entry_ok e"
    using inv by (auto simp: table_inv_def entry_ok_def tombstone_def dest!: set_update_subset_insert [THEN subsetD])
  moreover have "distinct (map fst (entries (t[i := tombstone])))"
    using inv i entries_del(2) [OF i] by (simp add: table_inv_def tombstone_def)
  ultimately show ?thesis using inv by (simp add: table_inv_def)
qed

text \<open>
  Removal either leaves the table alone or takes exactly the named entry out. It does take
  it out when no cell on the way to the entry is free, in particular when the table has no
  tombstone.
\<close>

lemma remove_at:
  assumes inv: "map_inv m" and i: "i < length (hashtable m)" "is_match (hashtable m) z i"
  shows "map_inv (m\<lparr>hashtable := (hashtable m)[i := tombstone], count := count m - 1\<rparr>)"
    and "map_abs (m\<lparr>hashtable := (hashtable m)[i := tombstone], count := count m - 1\<rparr>) =
      (map_abs m)(lower z := None)"
proof -
  from i(2) obtain k where k: "key (hashtable m ! i) = Some k" "lower k = lower z"
    by (auto simp: is_match_def)
  have "distinct (map fst (entries (hashtable m)))" "key tombstone = None"
    using inv by (simp_all add: map_inv_def table_inv_def tombstone_def)
  note del = entries_del [OF i(1) k(1) this(2,1)]
  have tinv: "table_inv ((hashtable m)[i := tombstone])"
    using inv i(1) k(1) by (intro table_inv_tombstone) (auto simp: map_inv_def)
  have "int (length (entries (hashtable m))) = int (length (entries ((hashtable m)[i := tombstone]))) + 1"
    using del(3) by linarith
  then show "map_inv (m\<lparr>hashtable := (hashtable m)[i := tombstone], count := count m - 1\<rparr>)"
    using inv tinv by (simp add: map_inv_def)
  show "map_abs (m\<lparr>hashtable := (hashtable m)[i := tombstone], count := count m - 1\<rparr>) =
      (map_abs m)(lower z := None)"
    using del(1) k(2) by (simp add: map_abs_def)
qed

lemma remove_cases:
  assumes inv: "map_inv m"
  shows "map_inv (intarrayMapRemove m z) \<and>
    (intarrayMapRemove m z = m \<or> map_abs (intarrayMapRemove m z) = (map_abs m)(lower z := None))"
proof -
  let ?t = "hashtable m" and ?h = "strHash z"
  obtain i j where ij: "remove_search ?t (map_size m) z ?h (unat ?h mod map_size m) (map_size m) = (i, j)"
    by fastforce
  have t: "table_inv ?t" "map_size m = length ?t" "0 < length ?t"
    using inv by (auto simp: map_inv_def table_inv_def)
  have stop: "i < length ?t" "0 < j \<longrightarrow> key (?t ! i) = None \<or> is_match ?t z i"
    using remove_search_stop [OF t(1) refl _ ij [unfolded t(2)]] t(3) by auto
  show ?thesis
  proof (cases "0 < j \<and> key (?t ! i) \<noteq> None")
    case True
    then have "intarrayMapRemove m z = m\<lparr>hashtable := ?t[i := tombstone], count := count m - 1\<rparr>"
      using ij by (simp add: intarrayMapRemove_def tombstone_def Let_def)
    then show ?thesis using remove_at [OF inv stop(1)] stop(2) True by auto
  next
    case False
    then have "intarrayMapRemove m z = m"
      using ij by (auto simp: intarrayMapRemove_def Let_def)
    then show ?thesis using inv by simp
  qed
qed

lemma remove_no_tombstones:
  assumes inv: "map_inv m" and nt: "no_tombstones m"
  shows "map_abs (intarrayMapRemove m z) = (map_abs m)(lower z := None)"
proof (cases "\<exists>p < length (hashtable m). is_match (hashtable m) z p")
  case True
  let ?t = "hashtable m" and ?h = "unat (strHash z)"
  have t: "table_inv ?t" "map_size m = length ?t"
    using inv by (auto simp: map_inv_def)
  from True obtain p where p: "p < length ?t" "is_match ?t z p" by blast
  with t(1) obtain dp where dp: "dp < length ?t" "cyc (length ?t) ?h dp = p"
    "\<forall>d' < dp. occupied (?t ! cyc (length ?t) ?h d')"
    by (rule match_distance)
  then have "\<forall>d' < dp. key (?t ! cyc (length ?t) ?h d') \<noteq> None"
    using nt cyc_lt [OF dp(1)] by (auto simp: occupied_def no_tombstones_def)
  then obtain i j where ij: "remove_search ?t (length ?t) z (strHash z) (cyc (length ?t) ?h 0) (length ?t - 0) = (i, j)"
    "0 < j" "is_match ?t z i"
    using remove_search_hit [OF t(1) refl dp(1) _ _ le0] dp(2) p(2) by blast
  have "0 < length ?t" using p(1) by linarith
  then have i: "i < length ?t"
    using remove_search_stop [OF t(1) refl _ ij(1)] by simp
  have "intarrayMapRemove m z = m\<lparr>hashtable := ?t[i := tombstone], count := count m - 1\<rparr>"
    using ij t(2) by (auto simp: intarrayMapRemove_def tombstone_def cyc_0 is_match_def Let_def)
  then show ?thesis using remove_at(2) [OF inv i ij(3)] by simp
next
  case False
  then have "map_abs m (lower z) = None"
    using no_match_abs [of "hashtable m" z] by (simp add: map_abs_def map_of_eq_None_iff)
  then have "map_abs m = (map_abs m)(lower z := None)" by (simp add: fun_upd_idem)
  then show ?thesis using remove_cases [OF inv, of z] by metis
qed

text \<open>
  What an insertion stored can be taken out again at once: the entry sits behind occupied
  cells only, or in a table just rebuilt without tombstones.
\<close>

lemma mapPut_trace:
  assumes inv: "table_inv t" and n: "n = length t" and res: "mapPut t n v z (strHash z) = (SQLITE_OK, t')"
  obtains d where "d < n"
    "t' = t[cyc n (unat (strHash z)) d := \<lparr>key = Some z, hash = c_int32 (uint (strHash z)), entry_value = v\<rparr>]"
    "\<forall>d' < d. key (t ! cyc n (unat (strHash z)) d') \<noteq> None"
proof -
  let ?h = "unat (strHash z)"
  have n0: "0 < n" using inv n by (simp add: table_inv_def)
  obtain i j where ij: "put_search t n z (strHash z) (?h mod n) n = Some (i, j)"
    using res by (auto simp: mapPut_def result_codes split: option.splits)
  then have k: "key (t ! i) = None"
    and t': "t' = t[i := \<lparr>key = Some z, hash = c_int32 (uint (strHash z)), entry_value = v\<rparr>]"
    using res by (auto simp: mapPut_def result_codes split: if_splits)
  from ij have "put_search t n z (strHash z) (cyc n ?h 0) (n - 0) = Some (i, j)" by (simp add: cyc_0)
  from put_search_Some [OF inv n le0 this] obtain d1 where
    d1: "d1 \<le> n" "i = cyc n ?h d1" "\<forall>d' < d1. key (t ! cyc n ?h d') \<noteq> None" by auto
  have "d1 < n"
  proof (rule ccontr)
    assume "\<not> d1 < n"
    then have "i = cyc n ?h 0" using d1(1,2) by (simp add: cyc_def)
    then show False using d1 k n0 \<open>\<not> d1 < n\<close> by auto
  qed
  then show thesis using that d1 t' by blast
qed

lemma remove_after_put:
  assumes inv: "map_inv m" and new: "map_abs m (lower z) = None"
    and put: "intarrayMapPut True m v z = (SQLITE_OK, m')" and inv': "map_inv m'"
  shows "map_abs (intarrayMapRemove m' z) = (map_abs m')(lower z := None)"
proof -
  let ?t = "hashtable m" and ?n = "length (hashtable m)" and ?h = "unat (strHash z)"
  have t: "table_inv ?t" "map_size m = ?n" using inv by (auto simp: map_inv_def)
  obtain t1 where t1: "mapPut ?t ?n v z (strHash z) = (SQLITE_OK, t1)"
    using put t(2) by (auto simp: intarrayMapPut_def split: prod.splits if_splits)
  let ?m1 = "m\<lparr>hashtable := t1, count := count m + 1\<rparr>"
  show ?thesis
  proof (cases "count m + 1 \<ge> int (rehashSize m)")
    case True
    then have r: "rehash True ?m1 = (SQLITE_OK, m')"
      using put t1 t(2) by (simp add: intarrayMapPut_def Let_def)
    have cnt: "count m + 1 = int (rehashSize m)" using True inv by (simp add: map_inv_def)
    obtain m2 where "intarrayMapPut True m v z = (SQLITE_OK, m2)" "no_tombstones m2"
      by (rule put_new [OF inv new, of v True]) (use cnt in simp)
    then have "no_tombstones m'" using put by simp
    then show ?thesis by (rule remove_no_tombstones [OF inv'])
  next
    case False
    then have m': "m' = ?m1" using put t1 t(2) by (simp add: intarrayMapPut_def Let_def)
    obtain d where d: "d < ?n"
      "t1 = ?t[cyc ?n ?h d := \<lparr>key = Some z, hash = c_int32 (uint (strHash z)), entry_value = v\<rparr>]"
      "\<forall>d' < d. key (?t ! cyc ?n ?h d') \<noteq> None"
      using mapPut_trace [OF t(1) refl t1] by blast
    have i: "cyc ?n ?h d < ?n" using d(1) by (rule cyc_lt)
    have len: "length t1 = ?n" and tinv: "table_inv t1" "map_size m' = ?n"
      using d(2) inv' m' by (simp_all add: map_inv_def)
    have "cyc ?n ?h d' \<noteq> cyc ?n ?h d" if "d' < d" for d'
      using cyc_inj [of d' ?n d ?h] that d(1) by auto
    then have "t1 ! cyc ?n ?h d' = ?t ! cyc ?n ?h d'" if "d' < d" for d'
      using d(2) that nth_list_update_neq by metis
    then have "\<forall>d' < d. key (t1 ! cyc ?n ?h d') \<noteq> None" using d(3) by simp
    moreover have "is_match t1 z (cyc ?n ?h d)" using i d(2) by (simp add: is_match_def)
    ultimately obtain i' j' where r: "remove_search t1 ?n z (strHash z) (cyc ?n ?h 0) (?n - 0) = (i', j')"
      "0 < j'" "is_match t1 z i'"
      using remove_search_hit [OF tinv(1) len [symmetric] d(1) _ _ le0] by blast
    have i': "i' < length t1"
      using remove_search_stop [OF tinv(1) len [symmetric] cyc_lt [OF d(1)] r(1)] len by simp
    have "intarrayMapRemove m' z = m'\<lparr>hashtable := (hashtable m')[i' := tombstone], count := count m' - 1\<rparr>"
      using r tinv m' by (auto simp: intarrayMapRemove_def tombstone_def cyc_0 is_match_def Let_def)
    then show ?thesis using remove_at(2) [OF inv', of i' z] i' r(3) m' by simp
  qed
qed

lemma put_ok_keeps:
  assumes "map_inv m" "intarrayMapPut ok m a z = (SQLITE_OK, m')"
  shows "map_inv m'" and "map_abs m (lower z) = None" and "map_abs m' = (map_abs m)(lower z \<mapsto> a)"
proof -
  have new: "map_abs m (lower z) = None"
    using put_duplicate [OF assms(1), of z ok a] assms(2)
    by (cases "map_abs m (lower z)") (auto simp: result_codes)
  show "map_abs m (lower z) = None" by (rule new)
  from put_new [OF assms(1) new, of a ok] show "map_inv m'" "map_abs m' = (map_abs m)(lower z \<mapsto> a)"
    using assms(2) by (auto simp: result_codes)
qed

subsection \<open>The interface of the table\<close>

text \<open>
  What the module relies on, stated over any table with a partial-map view: a search reads
  the view, an insertion extends it or refuses a name it holds, a removal takes the name out
  or does nothing, and all of them keep the invariant.
\<close>

locale name_table =
  fixes put :: "'m \<Rightarrow> ptr \<Rightarrow> byte list \<Rightarrow> int \<times> 'm"
    and remove :: "'m \<Rightarrow> byte list \<Rightarrow> 'm"
    and search :: "'m \<Rightarrow> byte list \<Rightarrow> ptr"
    and view :: "'m \<Rightarrow> byte list \<Rightarrow> ptr option"
    and inv :: "'m \<Rightarrow> bool"
  assumes search_view: "inv m \<Longrightarrow> search m z = (case view m (lower z) of None \<Rightarrow> 0 | Some a \<Rightarrow> a)"
    and put_taken: "inv m \<Longrightarrow> view m (lower z) \<noteq> None \<Longrightarrow> put m a z = (INTARRAY_DUPLICATE_NAME, m)"
    and put_free: "inv m \<Longrightarrow> view m (lower z) = None \<Longrightarrow>
      \<exists>m'. put m a z = (SQLITE_OK, m') \<and> inv m' \<and> view m' = (view m)(lower z \<mapsto> a)"
    and remove_view: "inv m \<Longrightarrow> inv (remove m z) \<and>
      (remove m z = m \<or> view (remove m z) = (view m)(lower z := None))"
    and remove_put: "inv m \<Longrightarrow> put m a z = (SQLITE_OK, m') \<Longrightarrow>
      view (remove m' z) = (view m')(lower z := None)"
begin

lemma put_ok_new: "inv m \<Longrightarrow> put m a z = (SQLITE_OK, m') \<Longrightarrow> view m (lower z) = None"
  using put_taken by (fastforce simp: result_codes)

lemma put_ok_step:
  assumes "inv m" "put m a z = (SQLITE_OK, m')"
  shows "inv m'" and "view m' = (view m)(lower z \<mapsto> a)"
  using put_free [OF assms(1) put_ok_new [OF assms], of a] assms(2) by auto

lemma search_put:
  assumes "inv m" "put m a z = (SQLITE_OK, m')"
  shows "search m' y = (if lower y = lower z then a else search m y)"
  using put_ok_step [OF assms] assms(1) by (simp add: search_view)

lemma put_code:
  assumes "inv m"
  shows "fst (put m a z) = (if view m (lower z) = None then SQLITE_OK else INTARRAY_DUPLICATE_NAME)"
  using put_taken [OF assms] put_free [OF assms] by (metis fst_conv)

text \<open>Taking an insertion back restores the view.\<close>

lemma put_undo:
  assumes "inv m" "put m a z = (SQLITE_OK, m')"
  shows "view (remove m' z) = view m"
  using remove_put [OF assms] put_ok_step [OF assms] put_ok_new [OF assms] by (simp add: fun_upd_idem)

lemma search_case: "inv m \<Longrightarrow> lower y = lower z \<Longrightarrow> search m y = search m z"
  by (simp add: search_view)

lemma search_remove_other:
  "inv m \<Longrightarrow> lower y \<noteq> lower z \<Longrightarrow> search (remove m z) y = search m y"
  using remove_view [of m z] by (auto simp: search_view)

end

text \<open>The table of the code, with an allocator that succeeds, provides the interface.\<close>

interpretation nt: name_table "intarrayMapPut True" intarrayMapRemove intarrayMapFind map_abs map_inv
proof
  fix m :: intarray_map and z a
  assume inv: "map_inv m"
  show "intarrayMapFind m z = (case map_abs m (lower z) of None \<Rightarrow> 0 | Some a \<Rightarrow> a)"
    using inv by (rule find_correct)
  show "map_inv (intarrayMapRemove m z) \<and>
      (intarrayMapRemove m z = m \<or> map_abs (intarrayMapRemove m z) = (map_abs m)(lower z := None))"
    using inv by (rule remove_cases)
  show "map_abs m (lower z) \<noteq> None \<Longrightarrow> intarrayMapPut True m a z = (INTARRAY_DUPLICATE_NAME, m)"
    using inv by (rule put_duplicate)
  show "map_abs m (lower z) = None \<Longrightarrow>
      \<exists>m'. intarrayMapPut True m a z = (SQLITE_OK, m') \<and> map_inv m' \<and> map_abs m' = (map_abs m)(lower z \<mapsto> a)"
    using put_new [OF inv, of z a True] by metis
  fix m' assume put: "intarrayMapPut True m a z = (SQLITE_OK, m')"
  show "map_abs (intarrayMapRemove m' z) = (map_abs m')(lower z := None)"
    using remove_after_put [OF inv _ put] put_ok_keeps [OF inv put] by simp
qed

text \<open>The tables that a module can get to.\<close>

inductive map_reachable :: "intarray_map \<Rightarrow> bool" where
  init: "intarrayMapInit ok m0 = (SQLITE_OK, m) \<Longrightarrow> map_reachable m"
| put: "map_reachable m \<Longrightarrow> intarrayMapPut ok m a z = (SQLITE_OK, m') \<Longrightarrow> map_reachable m'"
| remove: "map_reachable m \<Longrightarrow> map_reachable (intarrayMapRemove m z)"

lemma map_reachable_inv: "map_reachable m \<Longrightarrow> map_inv m"
proof (induction rule: map_reachable.induct)
  case (init ok m0 m)
  then have ok by (auto simp: intarrayMapInit_def result_codes Let_def split: if_splits)
  with init intarrayMapInit_ok [of m0] show ?case by auto
next
  case (put m ok a z m')
  then show ?case using put_ok_keeps(1) by blast
next
  case (remove m z)
  then show ?case using remove_cases by blast
qed

subsection \<open>Properties\<close>

definition empty_map :: intarray_map where
  "empty_map = snd (intarrayMapInit True \<lparr>hashtable = [], map_size = 0, rehashSize = 0, count = 0\<rparr>)"

lemma empty_map_reachable: "map_reachable empty_map"
  by (rule map_reachable.init [of True]) (simp add: empty_map_def intarrayMapInit_def Let_def)

lemmas map_eval =
  empty_map_def intarrayMapInit_def intarrayMapPut_def intarrayMapRemove_def intarrayMapFind_def
  mapPut_def rehash_def strHash_def tolower_def entry_matches_def stricmp_eq_def lower_def
  c_int32_def zero_entry_def result_codes

text \<open>
  C1. In every table the module can reach by any interleaving of insertions and removals,
  whatever the allocator answers to a successful insertion, a search after a successful
  insertion of a name returns the inserted array for every spelling of that name and is
  unchanged for every other name.
\<close>

theorem intarrayMapPut_find:
  assumes "map_reachable m" and "intarrayMapPut ok m a z = (SQLITE_OK, m')"
  shows "intarrayMapFind m' y = (if lower y = lower z then a else intarrayMapFind m y)"
proof -
  have inv: "map_inv m" by (rule map_reachable_inv [OF assms(1)])
  show ?thesis
    using put_ok_keeps [OF inv assms(2)] inv by (simp add: find_correct)
qed

theorem intarrayMapPut_find_witness:
  "intarrayMapFind (snd (intarrayMapPut True empty_map 7 [97])) [65] = 7"
proof -
  have put: "intarrayMapPut True empty_map 7 [97] =
    (SQLITE_OK, snd (intarrayMapPut True empty_map 7 [97]))"
    by code_simp
  show ?thesis using intarrayMapPut_find [OF empty_map_reachable put, of "[65]"]
    by (simp add: lower_def tolower_def)
qed



text \<open>
  In a reachable table without tombstones a removal takes out exactly the named array:
  afterwards no spelling of the name is found and every other search is unchanged.
\<close>

theorem intarrayMapRemove_clean:
  assumes "map_reachable m" and "no_tombstones m"
  shows "intarrayMapFind (intarrayMapRemove m z) y =
    (if lower y = lower z then 0 else intarrayMapFind m y)"
proof -
  have inv: "map_inv m" by (rule map_reachable_inv [OF assms(1)])
  have "map_inv (intarrayMapRemove m z)" using remove_cases [OF inv] by blast
  then show ?thesis
    using remove_no_tombstones [OF inv assms(2)] inv by (simp add: find_correct)
qed

definition one_name_map :: intarray_map where
  "one_name_map = snd (intarrayMapPut True empty_map 7 [97])"

definition two_names_map :: intarray_map where
  "two_names_map = snd (intarrayMapPut True one_name_map 8 [114])"

lemma one_name_map_reachable: "map_reachable one_name_map"
  by (rule map_reachable.put [OF empty_map_reachable, of True 7 "[97]"]) code_simp

lemma two_names_map_reachable: "map_reachable two_names_map"
  by (rule map_reachable.put [OF one_name_map_reachable, of True 8 "[114]"]) code_simp

theorem intarrayMapRemove_clean_witness:
  "intarrayMapFind (intarrayMapRemove two_names_map [114]) [97] = 7"
proof -
  have "no_tombstones two_names_map" by code_simp
  moreover have "lower [97] \<noteq> lower [114]" "intarrayMapFind two_names_map [97] = 7" by code_simp+
  ultimately show ?thesis
    using intarrayMapRemove_clean [OF two_names_map_reachable, of "[114]" "[97]"] by simp
qed

text \<open>
  The search of a removal stops at a tombstone, where the search of
  \<open>intarrayMapFind\<close> goes on. There is therefore a reachable table that holds an array
  under a name and from which the removal of that name removes nothing: two names in the
  same bucket, the first of them removed before the second.
\<close>

theorem intarrayMapRemove_blocked:
  "\<exists>m z. map_reachable m \<and> intarrayMapFind m z \<noteq> 0 \<and> intarrayMapRemove m z = m"
proof (intro exI conjI)
  show "map_reachable (intarrayMapRemove two_names_map [97])"
    by (rule map_reachable.remove [OF two_names_map_reachable])
  show "intarrayMapFind (intarrayMapRemove two_names_map [97]) [114] \<noteq> 0"
    by code_simp
  show "intarrayMapRemove (intarrayMapRemove two_names_map [97]) [114] = intarrayMapRemove two_names_map [97]"
    by code_simp
qed

end
