(* ===== verification/IntArrayLife.thy ===== *)
theory IntArrayLife
  imports IntArrayMap IntArrayCursor
begin

section \<open>The life cycle of intarrays\<close>

text \<open>
  The rest of \<open>native/intarray.c\<close>: the objects the module allocates, the functions the
  wrapper calls (\<open>sqlite3_intarray_register\<close>, \<open>_create\<close>, \<open>_bind\<close>, \<open>_destroy\<close>) and the
  callbacks SQLite makes (\<open>xCreate\<close>, \<open>xDisconnect\<close>, \<open>xOpen\<close>, \<open>xClose\<close>, \<open>xFilter\<close>,
  \<open>xNext\<close>, \<open>xBegin\<close>, \<open>xCommit\<close>, \<open>xRollback\<close>), as one state machine over a heap. An access
  to an object that has been freed is undefined in C and is \<open>None\<close> here. SQLite itself is a
  parameter: the function \<open>exec\<close> that runs a statement, of which \<open>exec_contract\<close> states the
  documented behaviour.
\<close>

subsection \<open>The heap\<close>

text \<open>
  Objects by address; address 0 is \<open>NULL\<close>. \<open>freed\<close> lists the buffers given back through
  \<open>xFree\<close>, latest first. \<open>autocommit\<close> is SQLite's mode of the connection.
\<close>

record life =
  arrayMap :: intarray_map
  arrays :: "ptr \<Rightarrow> sqlite3_intarray option"
  vtabs :: "ptr \<Rightarrow> ptr option"
  cursors :: "ptr \<Rightarrow> (ptr \<times> intarray_cursor) option"
  freed :: "int list list"
  autocommit :: bool

datatype sql = CreateVTable "byte list" | DropTable "byte list"

type_synonym sqlite_exec = "sql \<Rightarrow> life \<Rightarrow> (int \<times> life) option"

definition zero_array :: "byte list \<Rightarrow> sqlite3_intarray" where
  "zero_array z = \<lparr>zName = z, n = 0, a = [], xFree = False, ordered = 0, unique = 0,
     useCount = 0, connectCount = 0, commitState = 0\<rparr>"

definition zero_cursor :: intarray_cursor where
  "zero_cursor = \<lparr>mode = 0, cmax = 0, cmin = 0, hasMax = False, hasMin = False, ci = 0, uniqueLeft = 0\<rparr>"

subsection \<open>Callbacks of SQLite\<close>

text \<open>\<open>xDisconnect\<close> and \<open>xDestroy\<close>.\<close>

definition intarrayDestroy :: "ptr \<Rightarrow> life \<Rightarrow> (int \<times> life) option" where
  "intarrayDestroy v s =
     (case vtabs s v of None \<Rightarrow> None
      | Some p \<Rightarrow>
          (case arrays s p of None \<Rightarrow> None
           | Some x \<Rightarrow>
               Some (SQLITE_OK,
                 s\<lparr>arrays := (arrays s)(p \<mapsto> x\<lparr>connectCount := connectCount x - 1\<rparr>),
                   vtabs := (vtabs s)(v := None)\<rparr>)))"

text \<open>
  \<open>xCreate\<close> and \<open>xConnect\<close>. \<open>hasModule\<close> and \<open>argc\<close> are checked first; \<open>v\<close> is what the
  allocation of the table answers and \<open>declared\<close> the result of \<open>sqlite3_declare_vtab\<close>.
\<close>

definition intarrayCreate :: "bool \<Rightarrow> int \<Rightarrow> ptr \<Rightarrow> int \<Rightarrow> byte list \<Rightarrow> life \<Rightarrow> (int \<times> life) option" where
  "intarrayCreate hasModule argc v declared argv2 s =
     (if \<not> hasModule \<or> argc < 3 then Some (INTARRAY_INTERNAL_ERROR, s)
      else
        let p = intarrayMapFind (arrayMap s) argv2
        in if p = 0 then Some (SQLITE_ERROR, s)
           else if v = 0 then Some (SQLITE_NOMEM, s)
           else if declared \<noteq> SQLITE_OK then Some (declared, s)
           else case arrays s p of None \<Rightarrow> None
             | Some x \<Rightarrow>
                 Some (SQLITE_OK,
                   s\<lparr>arrays := (arrays s)(p \<mapsto> x\<lparr>connectCount := connectCount x + 1\<rparr>),
                     vtabs := (vtabs s)(v \<mapsto> p)\<rparr>))"

definition vtab_array :: "life \<Rightarrow> ptr \<Rightarrow> (ptr \<times> sqlite3_intarray) option" where
  "vtab_array s v =
     (case vtabs s v of None \<Rightarrow> None
      | Some p \<Rightarrow> (case arrays s p of None \<Rightarrow> None | Some x \<Rightarrow> Some (p, x)))"

definition intarrayOpen :: "ptr \<Rightarrow> ptr \<Rightarrow> life \<Rightarrow> (int \<times> life) option" where
  "intarrayOpen c v s =
     (if c = 0 then Some (SQLITE_NOMEM, s)
      else case vtab_array s v of None \<Rightarrow> None
        | Some (p, x) \<Rightarrow>
            Some (SQLITE_OK,
              s\<lparr>arrays := (arrays s)(p \<mapsto> x\<lparr>useCount := useCount x + 1\<rparr>),
                cursors := (cursors s)(c \<mapsto> (v, zero_cursor))\<rparr>))"

definition intarrayClose :: "ptr \<Rightarrow> life \<Rightarrow> (int \<times> life) option" where
  "intarrayClose c s =
     (case cursors s c of None \<Rightarrow> None
      | Some (v, cur) \<Rightarrow>
          (case vtab_array s v of None \<Rightarrow> None
           | Some (p, x) \<Rightarrow>
               Some (SQLITE_OK,
                 s\<lparr>arrays := (arrays s)(p \<mapsto> x\<lparr>useCount := useCount x - 1\<rparr>),
                   cursors := (cursors s)(c := None)\<rparr>)))"

text \<open>Filtering and stepping a cursor of the heap.\<close>

definition on_cursor ::
  "ptr \<Rightarrow> life \<Rightarrow> (intarray_cursor \<Rightarrow> sqlite3_intarray \<Rightarrow> (intarray_cursor \<times> int) option) \<Rightarrow> (int \<times> life) option" where
  "on_cursor c s f =
     (case cursors s c of None \<Rightarrow> None
      | Some (v, cur) \<Rightarrow>
          (case vtab_array s v of None \<Rightarrow> None
           | Some (p, x) \<Rightarrow>
               (case f cur x of None \<Rightarrow> None
                | Some (cur', rc) \<Rightarrow> Some (rc, s\<lparr>cursors := (cursors s)(c \<mapsto> (v, cur'))\<rparr>))))"

definition xFilter :: "ptr \<Rightarrow> int \<Rightarrow> sqlite3_value list \<Rightarrow> life \<Rightarrow> (int \<times> life) option" where
  "xFilter c idxNum argv s = on_cursor c s (\<lambda>cur x. intarrayFilter cur x idxNum argv)"

definition xNext :: "ptr \<Rightarrow> life \<Rightarrow> (int \<times> life) option" where
  "xNext c s = on_cursor c s (\<lambda>cur x. Some (intarrayNext cur x))"

definition intarrayBegin :: "ptr \<Rightarrow> life \<Rightarrow> (int \<times> life) option" where
  "intarrayBegin v s = Some (SQLITE_OK, s)"

definition set_commit :: "int \<Rightarrow> sqlite3_intarray \<Rightarrow> sqlite3_intarray" where
  "set_commit c x = (if commitState x = 0 then x\<lparr>commitState := c\<rparr> else x)"

definition intarrayRollback :: "ptr \<Rightarrow> life \<Rightarrow> (int \<times> life) option" where
  "intarrayRollback v s =
     (case vtab_array s v of None \<Rightarrow> None
      | Some (p, x) \<Rightarrow> Some (SQLITE_OK, s\<lparr>arrays := (arrays s)(p \<mapsto> set_commit (-1) x)\<rparr>))"

definition intarrayCommit :: "ptr \<Rightarrow> life \<Rightarrow> (int \<times> life) option" where
  "intarrayCommit v s =
     (case vtab_array s v of None \<Rightarrow> None
      | Some (p, x) \<Rightarrow> Some (SQLITE_OK, s\<lparr>arrays := (arrays s)(p \<mapsto> set_commit 1 x)\<rparr>))"

subsection \<open>Functions the wrapper calls\<close>

definition drop_array_content :: "ptr \<Rightarrow> life \<Rightarrow> (int \<times> life) option" where
  "drop_array_content p s =
     (if p = 0 then Some (SQLITE_OK, s)
      else case arrays s p of None \<Rightarrow> None
        | Some x \<Rightarrow>
            if useCount x \<noteq> 0 then Some (INTARRAY_INUSE, s)
            else Some (SQLITE_OK,
              s\<lparr>arrays := (arrays s)(p \<mapsto> x\<lparr>xFree := False, a := [], n := 0, ordered := 0, unique := 0\<rparr>),
                freed := (if xFree x then a x # freed s else freed s)\<rparr>))"

definition create_vtable :: "sqlite_exec \<Rightarrow> ptr \<Rightarrow> life \<Rightarrow> (int \<times> life) option" where
  "create_vtable exec p s =
     (case arrays s p of None \<Rightarrow> None | Some x \<Rightarrow> exec (CreateVTable (zName x)) s)"

definition drop_vtable :: "sqlite_exec \<Rightarrow> ptr \<Rightarrow> life \<Rightarrow> (int \<times> life) option" where
  "drop_vtable exec p s =
     (case arrays s p of None \<Rightarrow> None | Some x \<Rightarrow> exec (DropTable (zName x)) s)"

text \<open>
  Registration: \<open>p\<close> tells whether the module object was allocated, \<open>mapOk\<close> whether the
  table was, and \<open>rc\<close> what \<open>sqlite3_create_module_v2\<close> answers; that function frees the
  module itself when it fails. The last component counts the blocks left allocated.
\<close>

definition sqlite3_intarray_register :: "bool \<Rightarrow> bool \<Rightarrow> int \<Rightarrow> intarray_map \<Rightarrow> int \<times> intarray_map option \<times> nat" where
  "sqlite3_intarray_register p mapOk rc m0 =
     (if \<not> p then (SQLITE_NOMEM, None, 0)
      else case intarrayMapInit mapOk m0 of
        (rc1, m) \<Rightarrow>
          if rc1 \<noteq> SQLITE_OK then (rc1, None, 1)
          else if rc = SQLITE_OK then (rc, Some m, 2) else (rc, None, 0))"

definition sqlite3_intarray_create ::
  "sqlite_exec \<Rightarrow> ptr \<Rightarrow> bool \<Rightarrow> byte list \<Rightarrow> life \<Rightarrow> (int \<times> life) option" where
  "sqlite3_intarray_create exec p mapOk z s =
     (if p = 0 then Some (SQLITE_NOMEM, s)
      else
        let (rc, m) = intarrayMapPut mapOk (arrayMap s) p z
        in if rc \<noteq> SQLITE_OK then Some (rc, s\<lparr>arrayMap := m, arrays := (arrays s)(p := None)\<rparr>)
           else
             let x = (zero_array z)\<lparr>commitState := (if autocommit s then 1 else 0)\<rparr>
             in case create_vtable exec p (s\<lparr>arrayMap := m, arrays := (arrays s)(p \<mapsto> x)\<rparr>) of
                  None \<Rightarrow> None
                | Some (rc, s) \<Rightarrow>
                    if rc \<noteq> SQLITE_OK
                    then Some (rc, s\<lparr>arrayMap := intarrayMapRemove (arrayMap s) z,
                      arrays := (arrays s)(p := None)\<rparr>)
                    else Some (rc, s))"

definition bind_vtable :: "sqlite_exec \<Rightarrow> ptr \<Rightarrow> bool \<Rightarrow> life \<Rightarrow> (int \<times> life) option" where
  "bind_vtable exec p ensureTableExists s =
     (case arrays s p of None \<Rightarrow> None
      | Some x \<Rightarrow>
          if ensureTableExists \<and> (commitState x < 0 \<or> connectCount x \<le> 0) then
            case create_vtable exec p s of None \<Rightarrow> None
            | Some (rc, s) \<Rightarrow>
                (case arrays s p of None \<Rightarrow> None
                 | Some x \<Rightarrow>
                     Some (SQLITE_OK,
                       if rc = SQLITE_OK
                       then s\<lparr>arrays := (arrays s)(p \<mapsto> x\<lparr>connectCount := 1,
                         commitState := (if autocommit s then 1 else 0)\<rparr>)\<rparr>
                       else s))
          else Some (SQLITE_OK, s))"

definition sqlite3_intarray_bind ::
  "sqlite_exec \<Rightarrow> ptr \<Rightarrow> int list \<Rightarrow> bool \<Rightarrow> int \<Rightarrow> int \<Rightarrow> bool \<Rightarrow> life \<Rightarrow> (int \<times> life) option" where
  "sqlite3_intarray_bind exec p elements free bOrdered bUnique ensureTableExists s =
     (case drop_array_content p s of None \<Rightarrow> None
      | Some (rc, s) \<Rightarrow>
          if rc \<noteq> SQLITE_OK then Some (rc, s)
          else case bind_vtable exec p ensureTableExists s of None \<Rightarrow> None
            | Some (rc, s) \<Rightarrow>
                (case arrays s p of None \<Rightarrow> None
                 | Some x \<Rightarrow>
                     Some (rc,
                       s\<lparr>arrays := (arrays s)(p \<mapsto> x\<lparr>n := int (length elements), a := elements,
                         xFree := free, ordered := bOrdered, unique := bUnique\<rparr>)\<rparr>)))"

definition sqlite3_intarray_destroy :: "sqlite_exec \<Rightarrow> ptr \<Rightarrow> life \<Rightarrow> (int \<times> life) option" where
  "sqlite3_intarray_destroy exec p s =
     (case drop_array_content p s of None \<Rightarrow> None
      | Some (rc, s) \<Rightarrow>
          if rc \<noteq> SQLITE_OK then Some (rc, s)
          else case drop_vtable exec p s of None \<Rightarrow> None
            | Some (rc, s) \<Rightarrow>
                if rc \<noteq> SQLITE_OK then Some (rc, s)
                else case arrays s p of None \<Rightarrow> None
                  | Some x \<Rightarrow>
                      Some (rc, s\<lparr>arrayMap := intarrayMapRemove (arrayMap s) (zName x),
                        arrays := (arrays s)(p := None)\<rparr>))"

subsection \<open>What SQLite promises\<close>

text \<open>
  A \<open>CREATE VIRTUAL TABLE\<close> either fails before it reaches the module or calls \<open>xCreate\<close>
  with the name it was given and reports what that returns. A \<open>DROP TABLE\<close> either fails
  without effect or disconnects every table of that name, none of which has an open cursor.
\<close>

definition vtabs_of :: "life \<Rightarrow> byte list \<Rightarrow> ptr set" where
  "vtabs_of s z = {v. \<exists>p x. vtab_array s v = Some (p, x) \<and> lower (zName x) = lower z}"

fun destroy_vtabs :: "ptr list \<Rightarrow> life \<Rightarrow> (int \<times> life) option" where
  "destroy_vtabs [] s = Some (SQLITE_OK, s)"
| "destroy_vtabs (v # vs) s =
     (case intarrayDestroy v s of None \<Rightarrow> None | Some (rc, s) \<Rightarrow> destroy_vtabs vs s)"

definition no_cursor_on :: "life \<Rightarrow> ptr \<Rightarrow> bool" where
  "no_cursor_on s v \<longleftrightarrow> (\<forall>c cur. cursors s c \<noteq> Some (v, cur))"

text \<open>What the allocator answers: \<open>NULL\<close> or an address without a vtab.\<close>

definition fresh_vtab :: "life \<Rightarrow> ptr \<Rightarrow> bool" where
  "fresh_vtab s v \<longleftrightarrow> v = 0 \<or> vtabs s v = None"

definition exec_contract :: "sqlite_exec \<Rightarrow> bool" where
  "exec_contract exec \<longleftrightarrow>
     (\<forall>z s.
        ((\<exists>v declared. fresh_vtab s v \<and>
            exec (CreateVTable z) s = intarrayCreate True 3 v declared z s) \<or>
         (\<exists>rc. rc \<noteq> SQLITE_OK \<and> exec (CreateVTable z) s = Some (rc, s))) \<and>
        ((\<exists>vs. distinct vs \<and> set vs = vtabs_of s z \<and> (\<forall>v \<in> set vs. no_cursor_on s v) \<and>
            exec (DropTable z) s = destroy_vtabs vs s) \<or>
         (\<exists>rc. rc \<noteq> SQLITE_OK \<and> exec (DropTable z) s = Some (rc, s))))"

subsection \<open>Runs\<close>

text \<open>
  The calls of the wrapper and of SQLite in any order. \<open>enabled\<close> is what they promise: live
  objects, fresh addresses from the allocator, a table without cursors when it is
  disconnected, at most 2 to the 30 elements. It also excludes the two defects shown below:
  the growth of the name table does not run out of memory (\<open>Create\<close> has no such parameter)
  and a removal is not stopped by a tombstone.
\<close>

datatype call =
    Create ptr "byte list"
  | Bind ptr "int list" bool int int bool
  | Destroy ptr
  | Connect ptr int "byte list"
  | Disconnect ptr
  | Open ptr ptr
  | Close ptr
  | Filter ptr int "sqlite3_value list"
  | Step ptr
  | Begin ptr
  | Commit ptr
  | Rollback ptr
  | Autocommit bool

fun run_call :: "sqlite_exec \<Rightarrow> call \<Rightarrow> life \<Rightarrow> (int \<times> life) option" where
  "run_call exec (Create p z) s = sqlite3_intarray_create exec p True z s"
| "run_call exec (Bind p xs free bOrdered bUnique ensure) s =
     sqlite3_intarray_bind exec p xs free bOrdered bUnique ensure s"
| "run_call exec (Destroy p) s = sqlite3_intarray_destroy exec p s"
| "run_call exec (Connect v declared z) s = intarrayCreate True 3 v declared z s"
| "run_call exec (Disconnect v) s = intarrayDestroy v s"
| "run_call exec (Open c v) s = intarrayOpen c v s"
| "run_call exec (Close c) s = intarrayClose c s"
| "run_call exec (Filter c idxNum argv) s = xFilter c idxNum argv s"
| "run_call exec (Step c) s = xNext c s"
| "run_call exec (Begin v) s = intarrayBegin v s"
| "run_call exec (Commit v) s = intarrayCommit v s"
| "run_call exec (Rollback v) s = intarrayRollback v s"
| "run_call exec (Autocommit b) s = Some (SQLITE_OK, s\<lparr>autocommit := b\<rparr>)"

definition unblocked :: "life \<Rightarrow> ptr \<Rightarrow> bool" where
  "unblocked s p \<longleftrightarrow>
     (case arrays s p of None \<Rightarrow> True
      | Some x \<Rightarrow> map_abs (intarrayMapRemove (arrayMap s) (zName x)) (lower (zName x)) = None)"

fun enabled :: "call \<Rightarrow> life \<Rightarrow> bool" where
  "enabled (Create p z) s \<longleftrightarrow> arrays s p = None"
| "enabled (Bind p xs free bOrdered bUnique ensure) s \<longleftrightarrow> arrays s p \<noteq> None \<and> int (length xs) \<le> 2 ^ 30"
| "enabled (Destroy p) s \<longleftrightarrow> arrays s p \<noteq> None \<and> unblocked s p"
| "enabled (Connect v declared z) s \<longleftrightarrow> fresh_vtab s v"
| "enabled (Disconnect v) s \<longleftrightarrow> vtabs s v \<noteq> None \<and> no_cursor_on s v"
| "enabled (Open c v) s \<longleftrightarrow> (c = 0 \<or> cursors s c = None) \<and> vtabs s v \<noteq> None"
| "enabled (Close c) s \<longleftrightarrow> cursors s c \<noteq> None"
| "enabled (Filter c idxNum argv) s \<longleftrightarrow> cursors s c \<noteq> None"
| "enabled (Step c) s \<longleftrightarrow> cursors s c \<noteq> None"
| "enabled (Begin v) s \<longleftrightarrow> vtabs s v \<noteq> None"
| "enabled (Commit v) s \<longleftrightarrow> vtabs s v \<noteq> None"
| "enabled (Rollback v) s \<longleftrightarrow> vtabs s v \<noteq> None"
| "enabled (Autocommit b) s \<longleftrightarrow> True"

text \<open>The number of buffers handed over by a successful binding.\<close>

fun handed_over :: "call \<Rightarrow> int \<Rightarrow> nat" where
  "handed_over (Bind p xs free bOrdered bUnique ensure) rc = (if free \<and> rc = SQLITE_OK then 1 else 0)"
| "handed_over c rc = 0"

definition start :: "intarray_map \<Rightarrow> life" where
  "start m = \<lparr>arrayMap = m, arrays = (\<lambda>_. None), vtabs = (\<lambda>_. None), cursors = (\<lambda>_. None), freed = [],
     autocommit = True\<rparr>"

inductive runs :: "sqlite_exec \<Rightarrow> nat \<Rightarrow> life \<Rightarrow> bool" for exec where
  register: "sqlite3_intarray_register True True SQLITE_OK m0 = (SQLITE_OK, Some m, k) \<Longrightarrow> runs exec 0 (start m)"
| call: "runs exec b s \<Longrightarrow> enabled c s \<Longrightarrow> run_call exec c s = Some (rc, s') \<Longrightarrow>
    runs exec (b + handed_over c rc) s'"

subsection \<open>The invariant\<close>

definition open_cursors :: "life \<Rightarrow> ptr \<Rightarrow> ptr set" where
  "open_cursors s p = {c. \<exists>v cur. cursors s c = Some (v, cur) \<and> vtabs s v = Some p}"

definition array_ok :: "life \<Rightarrow> ptr \<Rightarrow> sqlite3_intarray \<Rightarrow> bool" where
  "array_ok s p x \<longleftrightarrow>
     map_abs (arrayMap s) (lower (zName x)) = Some p \<and> useCount x = int (card (open_cursors s p)) \<and>
     n x = int (length (a x)) \<and> n x \<le> 2 ^ 30"

definition names_ok :: "life \<Rightarrow> bool" where
  "names_ok s \<longleftrightarrow>
     map_inv (arrayMap s) \<and>
     (\<forall>y p. map_abs (arrayMap s) y = Some p \<longrightarrow> (\<exists>x. arrays s p = Some x \<and> lower (zName x) = y))"

definition links_ok :: "life \<Rightarrow> bool" where
  "links_ok s \<longleftrightarrow>
     arrays s 0 = None \<and> finite (dom (cursors s)) \<and> finite (dom (arrays s)) \<and>
     (\<forall>v p. vtabs s v = Some p \<longrightarrow> arrays s p \<noteq> None) \<and>
     (\<forall>c v cur. cursors s c = Some (v, cur) \<longrightarrow> vtabs s v \<noteq> None)"

definition life_inv :: "life \<Rightarrow> bool" where
  "life_inv s \<longleftrightarrow> names_ok s \<and> links_ok s \<and> (\<forall>p x. arrays s p = Some x \<longrightarrow> array_ok s p x)"

lemmas inv_defs = life_inv_def names_ok_def links_ok_def array_ok_def

text \<open>
  What a step must keep besides the invariant: the content of an array with an open cursor,
  and the balance of the buffers, those given back and those still held.
\<close>

definition same_content :: "sqlite3_intarray \<Rightarrow> sqlite3_intarray \<Rightarrow> bool" where
  "same_content x x' \<longleftrightarrow>
     zName x' = zName x \<and> n x' = n x \<and> a x' = a x \<and> ordered x' = ordered x \<and> unique x' = unique x \<and>
     xFree x' = xFree x"

definition content_kept :: "life \<Rightarrow> life \<Rightarrow> bool" where
  "content_kept s s' \<longleftrightarrow>
     (\<forall>p x. arrays s p = Some x \<and> open_cursors s p \<noteq> {} \<longrightarrow> (\<exists>x'. arrays s' p = Some x' \<and> same_content x x'))"

definition live_buffers :: "life \<Rightarrow> ptr set" where
  "live_buffers s = {p. \<exists>x. arrays s p = Some x \<and> xFree x}"

definition balance :: "life \<Rightarrow> nat" where
  "balance s = length (freed s) + card (live_buffers s)"

definition good :: "life \<Rightarrow> (int \<times> life) option \<Rightarrow> (int \<Rightarrow> nat) \<Rightarrow> bool" where
  "good s r k \<longleftrightarrow>
     (\<exists>rc s'. r = Some (rc, s') \<and> life_inv s' \<and> content_kept s s' \<and> balance s' = balance s + k rc)"

lemma same_content_refl [simp]: "same_content x x"
  by (simp add: same_content_def)

lemma content_kept_refl [simp]: "content_kept s s"
  by (simp add: content_kept_def)

lemma good_same: "life_inv s \<Longrightarrow> k rc = 0 \<Longrightarrow> good s (Some (rc, s)) k"
  by (simp add: good_def)

lemma open_cursors_frame [simp]:
  "open_cursors (s\<lparr>arrays := f\<rparr>) = open_cursors s" "open_cursors (s\<lparr>freed := g\<rparr>) = open_cursors s"
  "open_cursors (s\<lparr>autocommit := b\<rparr>) = open_cursors s" "open_cursors (s\<lparr>arrayMap := m\<rparr>) = open_cursors s"
  by (simp_all add: open_cursors_def fun_eq_iff)

lemma live_buffers_frame [simp]:
  "live_buffers (s\<lparr>cursors := f\<rparr>) = live_buffers s" "live_buffers (s\<lparr>freed := g\<rparr>) = live_buffers s"
  "live_buffers (s\<lparr>vtabs := v\<rparr>) = live_buffers s" "live_buffers (s\<lparr>arrayMap := m\<rparr>) = live_buffers s"
  by (simp_all add: live_buffers_def)

lemma finite_live: "life_inv s \<Longrightarrow> finite (live_buffers s)"
  by (rule finite_subset [of _ "dom (arrays s)"]) (auto simp: live_buffers_def inv_defs)

lemma live_buffers_upd:
  "live_buffers (s\<lparr>arrays := (arrays s)(p \<mapsto> x)\<rparr>) =
     (if xFree x then insert p (live_buffers s) else live_buffers s - {p})"
  by (auto simp: live_buffers_def)

lemma live_buffers_del: "live_buffers (s\<lparr>arrays := (arrays s)(p := None)\<rparr>) = live_buffers s - {p}"
  by (auto simp: live_buffers_def)

lemma live_buffers_keep:
  "arrays s p = Some x \<Longrightarrow> xFree x' = xFree x \<Longrightarrow> live_buffers (s\<lparr>arrays := (arrays s)(p \<mapsto> x')\<rparr>) = live_buffers s"
  by (auto simp: live_buffers_def)

text \<open>
  A step that leaves the name table and the cursors of every array alone keeps the
  invariant as far as its links are right and the arrays keep their names and counts.
\<close>

lemma life_inv_frame:
  assumes inv: "life_inv s" and map: "arrayMap s' = arrayMap s" and cur: "open_cursors s' = open_cursors s"
    and links: "links_ok s'" and none: "\<And>p. arrays s' p = None \<Longrightarrow> arrays s p = None"
    and some: "\<And>p x'. arrays s' p = Some x' \<Longrightarrow> \<exists>x. arrays s p = Some x \<and> zName x' = zName x \<and>
      useCount x' = useCount x \<and> n x' = int (length (a x')) \<and> n x' \<le> 2 ^ 30"
  shows "life_inv s'"
proof -
  have "array_ok s' p x'" if x': "arrays s' p = Some x'" for p x'
  proof -
    obtain x where x: "arrays s p = Some x" "zName x' = zName x" "useCount x' = useCount x"
      "n x' = int (length (a x'))" "n x' \<le> 2 ^ 30" using some [OF x'] by blast
    have "array_ok s p x" using inv x(1) by (simp add: life_inv_def)
    with x show ?thesis by (simp add: array_ok_def map cur)
  qed
  moreover have "\<exists>x'. arrays s' p = Some x' \<and> lower (zName x') = y" if y: "map_abs (arrayMap s') y = Some p" for y p
  proof -
    have "names_ok s" using inv by (simp add: life_inv_def)
    then obtain x where x: "arrays s p = Some x" "lower (zName x) = y"
      using y map by (auto simp: names_ok_def)
    then obtain x' where x': "arrays s' p = Some x'" using none by fastforce
    with some [OF x'] x show ?thesis by auto
  qed
  moreover have "map_inv (arrayMap s')" using inv map by (simp add: life_inv_def names_ok_def)
  ultimately show ?thesis using links by (simp add: life_inv_def names_ok_def)
qed

lemma array_okD: "life_inv s \<Longrightarrow> arrays s p = Some x \<Longrightarrow> array_ok s p x"
  by (simp add: life_inv_def)

lemma linksD: "life_inv s \<Longrightarrow> links_ok s"
  by (simp add: life_inv_def)

lemma links_okI:
  "arrays s 0 = None \<Longrightarrow> finite (dom (cursors s)) \<Longrightarrow> finite (dom (arrays s)) \<Longrightarrow>
    (\<And>v p. vtabs s v = Some p \<Longrightarrow> arrays s p \<noteq> None) \<Longrightarrow>
    (\<And>c v cur. cursors s c = Some (v, cur) \<Longrightarrow> vtabs s v \<noteq> None) \<Longrightarrow> links_ok s"
  unfolding links_ok_def by blast

lemma links_vtab: "links_ok s \<Longrightarrow> vtabs s v = Some p \<Longrightarrow> \<exists>x. arrays s p = Some x"
  unfolding links_ok_def by blast

lemma links_cursor: "links_ok s \<Longrightarrow> cursors s c = Some (v, cur) \<Longrightarrow> \<exists>p. vtabs s v = Some p"
  unfolding links_ok_def by blast

lemma links_finite:
  "links_ok s \<Longrightarrow> arrays s 0 = None" "links_ok s \<Longrightarrow> finite (dom (cursors s))" "links_ok s \<Longrightarrow> finite (dom (arrays s))"
  unfolding links_ok_def by blast+

lemma links_ok_frame:
  assumes "links_ok s" "vtabs s' = vtabs s" "dom (cursors s') = dom (cursors s)" "dom (arrays s') = dom (arrays s)"
    and cur: "\<And>c v cur. cursors s' c = Some (v, cur) \<Longrightarrow> \<exists>cur. cursors s c = Some (v, cur)"
  shows "links_ok s'"
proof -
  have none: "arrays s' p = None \<longleftrightarrow> arrays s p = None" for p using assms(4) by (metis domIff)
  have "vtabs s' v \<noteq> None" if "cursors s' c = Some (v, cur)" for c v cur
    using cur [OF that] assms(1,2) by (auto simp: links_ok_def)
  moreover have "arrays s' p \<noteq> None" if "vtabs s' v = Some p" for v p
    using that none assms(1,2) by (auto simp: links_ok_def)
  moreover have "arrays s' 0 = None" "finite (dom (cursors s'))" "finite (dom (arrays s'))"
    using assms(1,3,4) none by (auto simp: links_ok_def)
  ultimately show ?thesis unfolding links_ok_def by blast
qed

text \<open>Changing an array in place.\<close>

lemma links_ok_upd: "links_ok s \<Longrightarrow> arrays s p = Some x \<Longrightarrow> links_ok (s\<lparr>arrays := (arrays s)(p \<mapsto> x')\<rparr>)"
  by (erule links_ok_frame) (auto simp: dom_def)

lemma life_inv_upd:
  assumes "life_inv s" "arrays s p = Some x" "zName x' = zName x" "useCount x' = useCount x"
    "n x' = int (length (a x'))" "n x' \<le> 2 ^ 30"
  shows "life_inv (s\<lparr>arrays := (arrays s)(p \<mapsto> x')\<rparr>)"
proof (rule life_inv_frame [OF assms(1)])
  fix q y assume q: "arrays (s\<lparr>arrays := (arrays s)(p \<mapsto> x')\<rparr>) q = Some y"
  show "\<exists>x. arrays s q = Some x \<and> zName y = zName x \<and> useCount y = useCount x \<and> n y = int (length (a y)) \<and> n y \<le> 2 ^ 30"
  proof (cases "q = p")
    case True
    with q assms(2-) show ?thesis by simp
  next
    case False
    with q have "arrays s q = Some y" by simp
    with array_okD [OF assms(1) this] show ?thesis by (simp add: array_ok_def)
  qed
qed (use links_ok_upd [OF linksD [OF assms(1)] assms(2)] in \<open>auto split: if_splits\<close>)

lemma vtab_array_Some:
  assumes "life_inv s" "vtabs s v \<noteq> None"
  obtains p x where "vtab_array s v = Some (p, x)" "vtabs s v = Some p" "arrays s p = Some x" "p \<noteq> 0"
proof -
  obtain p where p: "vtabs s v = Some p" using assms(2) by blast
  then have "arrays s p \<noteq> None" using linksD [OF assms(1)] by (auto simp: links_ok_def)
  then obtain x where x: "arrays s p = Some x" by blast
  then have "p \<noteq> 0" using links_finite(1) [OF linksD [OF assms(1)]] by (metis option.distinct(1))
  with p x that show thesis by (simp add: vtab_array_def)
qed

lemma vtab_arrayD: "vtab_array s v = Some (p, x) \<Longrightarrow> vtabs s v = Some p \<and> arrays s p = Some x"
  by (auto simp: vtab_array_def split: option.splits)

lemma good_upd:
  assumes inv: "life_inv s" and x: "arrays s p = Some x" and same: "same_content x x'" "useCount x' = useCount x"
    and k: "k rc = 0"
  shows "good s (Some (rc, s\<lparr>arrays := (arrays s)(p \<mapsto> x')\<rparr>)) k"
proof -
  have "life_inv (s\<lparr>arrays := (arrays s)(p \<mapsto> x')\<rparr>)"
    using life_inv_upd [OF inv x] array_okD [OF inv x] same by (simp add: same_content_def array_ok_def)
  moreover have "content_kept s (s\<lparr>arrays := (arrays s)(p \<mapsto> x')\<rparr>)"
    using x same by (auto simp: content_kept_def)
  moreover have "balance (s\<lparr>arrays := (arrays s)(p \<mapsto> x')\<rparr>) = balance s"
    using live_buffers_keep [OF x, of x'] same by (simp add: balance_def same_content_def)
  ultimately show ?thesis using k by (simp add: good_def)
qed

subsection \<open>Each callback keeps the invariant\<close>

lemma open_cursors_drop_vtab:
  "no_cursor_on s v \<Longrightarrow> open_cursors (s\<lparr>vtabs := (vtabs s)(v := None)\<rparr>) = open_cursors s"
  unfolding open_cursors_def no_cursor_on_def fun_eq_iff set_eq_iff by auto metis

lemma open_cursors_add_vtab:
  "links_ok s \<Longrightarrow> vtabs s v = None \<Longrightarrow> open_cursors (s\<lparr>vtabs := (vtabs s)(v \<mapsto> p)\<rparr>) = open_cursors s"
  unfolding open_cursors_def fun_eq_iff set_eq_iff by (auto dest: links_cursor split: if_splits)

lemma life_inv_vtabs:
  assumes "life_inv s" "open_cursors (s\<lparr>vtabs := f\<rparr>) = open_cursors s" "links_ok (s\<lparr>vtabs := f\<rparr>)"
  shows "life_inv (s\<lparr>vtabs := f\<rparr>)"
proof (rule life_inv_frame [OF assms(1) _ assms(2,3)])
  fix p x assume "arrays (s\<lparr>vtabs := f\<rparr>) p = Some x"
  then have "arrays s p = Some x" by simp
  with array_okD [OF assms(1) this] show "\<exists>x'. arrays s p = Some x' \<and> zName x = zName x' \<and>
      useCount x = useCount x' \<and> n x = int (length (a x)) \<and> n x \<le> 2 ^ 30"
    by (simp add: array_ok_def)
qed simp_all

lemma life_inv_drop_vtab:
  assumes "life_inv s" "no_cursor_on s v" shows "life_inv (s\<lparr>vtabs := (vtabs s)(v := None)\<rparr>)"
proof (rule life_inv_vtabs [OF assms(1) open_cursors_drop_vtab [OF assms(2)]])
  have l: "links_ok s" using assms(1) by (rule linksD)
  show "links_ok (s\<lparr>vtabs := (vtabs s)(v := None)\<rparr>)"
    by (rule links_okI)
      (use assms(2) links_finite [OF l] in \<open>auto simp: no_cursor_on_def split: if_splits dest: links_vtab [OF l] links_cursor [OF l]\<close>)
qed

lemma life_inv_add_vtab:
  assumes "life_inv s" "vtabs s v = None" "arrays s p \<noteq> None"
  shows "life_inv (s\<lparr>vtabs := (vtabs s)(v \<mapsto> p)\<rparr>)"
proof -
  have l: "links_ok s" using assms(1) by (rule linksD)
  have "links_ok (s\<lparr>vtabs := (vtabs s)(v \<mapsto> p)\<rparr>)"
    by (rule links_okI)
      (use assms(2,3) links_finite [OF l] in \<open>auto split: if_splits dest: links_vtab [OF l] links_cursor [OF l]\<close>)
  with life_inv_vtabs [OF assms(1) open_cursors_add_vtab [OF l assms(2)]] show ?thesis .
qed

text \<open>
  A call that leaves all but the vtabs and the connection counts alone: \<open>keeps\<close> is its
  effect.
\<close>

definition reconnected :: "sqlite3_intarray option \<Rightarrow> sqlite3_intarray option \<Rightarrow> bool" where
  "reconnected x x' \<longleftrightarrow> map_option (\<lambda>y. y\<lparr>connectCount := 0\<rparr>) x' = map_option (\<lambda>y. y\<lparr>connectCount := 0\<rparr>) x"

definition keeps :: "life \<Rightarrow> life \<Rightarrow> bool" where
  "keeps s s' \<longleftrightarrow>
     arrayMap s' = arrayMap s \<and> cursors s' = cursors s \<and> freed s' = freed s \<and>
     open_cursors s' = open_cursors s \<and> (\<forall>p. reconnected (arrays s p) (arrays s' p))"

lemma connectCount_cong: "y\<lparr>connectCount := 0\<rparr> = x\<lparr>connectCount := 0\<rparr> \<Longrightarrow> same_content x y \<and> useCount y = useCount x"
  by (cases x, cases y) (simp add: same_content_def)

lemma reconnected_Some:
  assumes "reconnected (Some x) y" obtains x' where "y = Some x'" "same_content x x'" "useCount x' = useCount x"
proof (cases y)
  case None
  with assms show thesis by (simp add: reconnected_def)
next
  case (Some x')
  with assms have "x'\<lparr>connectCount := 0\<rparr> = x\<lparr>connectCount := 0\<rparr>" by (simp add: reconnected_def)
  from connectCount_cong [OF this] show thesis by (intro that [OF Some]) simp_all
qed

lemma reconnected_None [simp]: "reconnected None y \<longleftrightarrow> y = None" "reconnected x None \<longleftrightarrow> x = None"
  by (auto simp: reconnected_def)

lemma keeps_refl [simp]: "keeps s s"
  by (simp add: keeps_def reconnected_def)

lemma reconnected_trans: "reconnected x y \<Longrightarrow> reconnected y z \<Longrightarrow> reconnected x z"
  unfolding reconnected_def by (rule trans)

lemma keeps_trans: 
  assumes "keeps s s1" "keeps s1 s2" shows "keeps s s2"
proof -
  have "reconnected (arrays s p) (arrays s2 p)" for p
    using assms reconnected_trans [of "arrays s p" "arrays s1 p"] by (simp add: keeps_def)
  with assms show ?thesis by (simp add: keeps_def)
qed

lemma keeps_array:
  assumes "keeps s s'" "arrays s p = Some x"
  obtains x' where "arrays s' p = Some x'" "same_content x x'" "useCount x' = useCount x"
  using assms reconnected_Some by (metis keeps_def)

lemma keeps_array_None: "keeps s s' \<Longrightarrow> arrays s' p = None \<longleftrightarrow> arrays s p = None"
  unfolding keeps_def by (metis reconnected_None)

lemma keeps_array_back:
  assumes "keeps s s'" "arrays s' p = Some x'"
  obtains x where "arrays s p = Some x" "same_content x x'" "useCount x' = useCount x"
  using assms keeps_array [of s s' p] keeps_array_None [of s s' p] by (metis not_Some_eq option.inject)

lemma keeps_content: "keeps s s' \<Longrightarrow> content_kept s s'"
  unfolding content_kept_def by (metis keeps_array)

lemma keeps_live: 
  assumes "keeps s s'" shows "live_buffers s' = live_buffers s"
proof (intro set_eqI iffI)
  fix p assume "p \<in> live_buffers s'"
  then obtain x' where "arrays s' p = Some x'" "xFree x'" by (auto simp: live_buffers_def)
  with assms show "p \<in> live_buffers s"
    by (elim keeps_array_back) (auto simp: live_buffers_def same_content_def)
next
  fix p assume "p \<in> live_buffers s"
  then obtain x where "arrays s p = Some x" "xFree x" by (auto simp: live_buffers_def)
  with assms show "p \<in> live_buffers s'"
    by (elim keeps_array) (auto simp: live_buffers_def same_content_def)
qed

lemma keeps_balance: "keeps s s' \<Longrightarrow> balance s' = balance s"
  using keeps_live [of s s'] by (simp add: balance_def keeps_def [of s s'])

lemma good_keeps: "life_inv s' \<Longrightarrow> keeps s s' \<Longrightarrow> k rc = 0 \<Longrightarrow> good s (Some (rc, s')) k"
  using keeps_content [of s s'] keeps_balance [of s s'] by (simp add: good_def)

lemma reconnected_upd: "arrays s p = Some x \<Longrightarrow>
    reconnected (arrays s q) (((arrays s)(p \<mapsto> x\<lparr>connectCount := k\<rparr>)) q)"
  by (simp add: reconnected_def)

lemma intarrayDestroy_keeps:
  assumes inv: "life_inv s" and v: "vtabs s v \<noteq> None" "no_cursor_on s v"
  obtains s' where "intarrayDestroy v s = Some (SQLITE_OK, s')" "life_inv s'" "keeps s s'"
    "vtabs s' = (vtabs s)(v := None)"
proof -
  obtain p x where px: "vtabs s v = Some p" "arrays s p = Some x" using vtab_array_Some [OF inv v(1)] by blast
  let ?x = "x\<lparr>connectCount := connectCount x - 1\<rparr>"
  let ?s1 = "s\<lparr>arrays := (arrays s)(p \<mapsto> ?x)\<rparr>"
  let ?s2 = "?s1\<lparr>vtabs := (vtabs ?s1)(v := None)\<rparr>"
  have nc: "no_cursor_on ?s1 v" using v(2) by (simp add: no_cursor_on_def)
  have "life_inv ?s1"
    using life_inv_upd [OF inv px(2), of ?x] array_okD [OF inv px(2)] by (simp add: array_ok_def)
  then have "life_inv ?s2" using nc by (rule life_inv_drop_vtab)
  moreover have "keeps s ?s2"
    using open_cursors_drop_vtab [OF nc] reconnected_upd [OF px(2)] by (simp add: keeps_def)
  ultimately show thesis using px by (intro that [of ?s2]) (simp_all add: intarrayDestroy_def)
qed

lemma intarrayCreate_keeps:
  assumes inv: "life_inv s" and v: "fresh_vtab s v"
  obtains rc s' where "intarrayCreate True 3 v declared z s = Some (rc, s')" "life_inv s'" "keeps s s'"
    "rc \<noteq> SQLITE_OK \<longrightarrow> s' = s"
proof -
  let ?p = "intarrayMapFind (arrayMap s) z"
  have names: "names_ok s" using inv by (simp add: life_inv_def)
  show thesis
  proof (cases "?p = 0 \<or> v = 0 \<or> declared \<noteq> SQLITE_OK")
    case True
    then obtain rc where "intarrayCreate True 3 v declared z s = Some (rc, s)"
      by (cases "?p = 0"; cases "v = 0") (simp_all add: intarrayCreate_def Let_def)
    with inv that show thesis by simp
  next
    case False
    then have "map_abs (arrayMap s) (lower z) = Some ?p"
      using nt.search_view [of "arrayMap s" z] names by (auto simp: names_ok_def split: option.splits)
    then obtain x where x: "arrays s ?p = Some x" using names unfolding names_ok_def by blast
    let ?x = "x\<lparr>connectCount := connectCount x + 1\<rparr>"
    let ?s1 = "s\<lparr>arrays := (arrays s)(?p \<mapsto> ?x)\<rparr>"
    let ?s2 = "?s1\<lparr>vtabs := (vtabs ?s1)(v \<mapsto> ?p)\<rparr>"
    have fresh: "vtabs ?s1 v = None" using v False by (simp add: fresh_vtab_def)
    have inv1: "life_inv ?s1"
      using life_inv_upd [OF inv x, of ?x] array_okD [OF inv x] by (simp add: array_ok_def)
    then have "life_inv ?s2" using fresh by (rule life_inv_add_vtab) simp
    moreover have "keeps s ?s2"
      using open_cursors_add_vtab [OF linksD [OF inv1] fresh] reconnected_upd [OF x] by (simp add: keeps_def)
    ultimately show thesis using False x
      by (intro that [of SQLITE_OK ?s2]) (simp_all add: intarrayCreate_def Let_def)
  qed
qed

lemma destroy_vtabs_keeps:
  assumes "life_inv s" "distinct vs" "\<forall>v \<in> set vs. vtabs s v \<noteq> None \<and> no_cursor_on s v"
  shows "\<exists>s'. destroy_vtabs vs s = Some (SQLITE_OK, s') \<and> life_inv s' \<and> keeps s s' \<and>
    vtabs s' = (\<lambda>v. if v \<in> set vs then None else vtabs s v)"
  using assms
proof (induction vs arbitrary: s)
  case (Cons v vs)
  obtain s1 where s1: "intarrayDestroy v s = Some (SQLITE_OK, s1)" "life_inv s1" "keeps s s1"
    "vtabs s1 = (vtabs s)(v := None)"
    using Cons.prems by (auto intro: intarrayDestroy_keeps [of s v])
  have "\<forall>u \<in> set vs. vtabs s1 u \<noteq> None \<and> no_cursor_on s1 u"
    using Cons.prems s1(3,4) by (auto simp: keeps_def no_cursor_on_def)
  then obtain s' where "destroy_vtabs vs s1 = Some (SQLITE_OK, s')" "life_inv s'" "keeps s1 s'"
    "vtabs s' = (\<lambda>v. if v \<in> set vs then None else vtabs s1 v)"
    using Cons.IH [OF s1(2)] Cons.prems(2) by auto
  then show ?case using s1 keeps_trans [OF s1(3)] by (intro exI [of _ s']) auto
qed simp

text \<open>The two statements SQLite runs for the module.\<close>

lemma exec_create_keeps:
  assumes exec: "exec_contract exec" and inv: "life_inv s"
  obtains rc s' where "exec (CreateVTable z) s = Some (rc, s')" "life_inv s'" "keeps s s'"
    "rc \<noteq> SQLITE_OK \<longrightarrow> s' = s"
proof -
  have "(\<exists>v declared. fresh_vtab s v \<and>
      exec (CreateVTable z) s = intarrayCreate True 3 v declared z s) \<or>
    (\<exists>rc. rc \<noteq> SQLITE_OK \<and> exec (CreateVTable z) s = Some (rc, s))"
    using exec unfolding exec_contract_def by (elim allE [of _ z] allE [of _ s] conjE)
  then show thesis
  proof (elim disjE exE conjE)
    fix v declared
    assume v: "fresh_vtab s v" and eq: "exec (CreateVTable z) s = intarrayCreate True 3 v declared z s"
    obtain rc s' where "intarrayCreate True 3 v declared z s = Some (rc, s')" "life_inv s'" "keeps s s'"
      "rc \<noteq> SQLITE_OK \<longrightarrow> s' = s"
      by (rule intarrayCreate_keeps [OF inv v])
    with eq show thesis by (intro that [of rc s']) simp_all
  next
    fix rc assume "rc \<noteq> SQLITE_OK" "exec (CreateVTable z) s = Some (rc, s)"
    with inv show thesis by (intro that [of rc s]) simp_all
  qed
qed

lemma exec_drop_keeps:
  assumes exec: "exec_contract exec" and inv: "life_inv s"
  obtains rc s' where "exec (DropTable z) s = Some (rc, s')" "life_inv s'" "keeps s s'"
    "rc = SQLITE_OK \<longrightarrow> (\<forall>v p x. vtabs s' v = Some p \<longrightarrow> arrays s p = Some x \<longrightarrow> lower (zName x) \<noteq> lower z)"
proof -
  have "(\<exists>vs. distinct vs \<and> set vs = vtabs_of s z \<and> (\<forall>v \<in> set vs. no_cursor_on s v) \<and>
      exec (DropTable z) s = destroy_vtabs vs s) \<or>
    (\<exists>rc. rc \<noteq> SQLITE_OK \<and> exec (DropTable z) s = Some (rc, s))"
    using exec unfolding exec_contract_def by (elim allE [of _ z] allE [of _ s] conjE)
  then show thesis
  proof (elim disjE exE conjE)
    fix vs
    assume vs: "distinct vs" "set vs = vtabs_of s z" "\<forall>v \<in> set vs. no_cursor_on s v"
      and eq: "exec (DropTable z) s = destroy_vtabs vs s"
    have "\<forall>v \<in> set vs. vtabs s v \<noteq> None \<and> no_cursor_on s v"
      using vs(2,3) by (auto simp: vtabs_of_def dest!: vtab_arrayD)
    from destroy_vtabs_keeps [OF inv vs(1) this] obtain s' where
      s': "destroy_vtabs vs s = Some (SQLITE_OK, s')" "life_inv s'" "keeps s s'"
        "vtabs s' = (\<lambda>v. if v \<in> set vs then None else vtabs s v)"
      by blast
    have "lower (zName x) \<noteq> lower z" if "vtabs s' v = Some p" "arrays s p = Some x" for v p x
      using that vs(2) by (auto simp: s'(4) vtabs_of_def vtab_array_def split: if_splits)
    with s' that show thesis unfolding eq by blast
  next
    fix rc assume "rc \<noteq> SQLITE_OK" "exec (DropTable z) s = Some (rc, s)"
    with inv show thesis by (intro that [of rc s]) simp_all
  qed
qed

subsection \<open>The other calls\<close>

lemma life_inv_count:
  assumes inv: "life_inv s" and x: "arrays s p = Some x" and map: "arrayMap s' = arrayMap s"
    and arr: "arrays s' = (arrays s)(p \<mapsto> x\<lparr>useCount := k\<rparr>)"
    and cur: "\<And>q. q \<noteq> p \<Longrightarrow> open_cursors s' q = open_cursors s q" "k = int (card (open_cursors s' p))"
    and links: "links_ok s'"
  shows "life_inv s'"
proof -
  have "array_ok s' q y" if "arrays s' q = Some y" for q y
  proof (cases "q = p")
    case True
    with that arr have y: "y = x\<lparr>useCount := k\<rparr>" by simp
    show ?thesis unfolding y using True array_okD [OF inv x] cur(2) map by (simp add: array_ok_def)
  next
    case False
    with that arr have "arrays s q = Some y" by simp
    with array_okD [OF inv this] cur(1) [OF False] map show ?thesis by (simp add: array_ok_def)
  qed
  moreover have "\<exists>y. arrays s' q = Some y \<and> lower (zName y) = w" if q: "map_abs (arrayMap s) w = Some q" for q w
  proof -
    obtain y where "arrays s q = Some y" "lower (zName y) = w"
      using inv q unfolding life_inv_def names_ok_def by blast
    then show ?thesis using x by (cases "q = p") (simp_all add: arr)
  qed
  then have "names_ok s'" using inv by (simp add: life_inv_def names_ok_def map)
  ultimately show ?thesis using links by (simp add: life_inv_def)
qed

lemma finite_open: "life_inv s \<Longrightarrow> finite (open_cursors s p)"
  by (rule finite_subset [of _ "dom (cursors s)"]) (auto simp: open_cursors_def dest: linksD links_finite)

lemma live_useCount: "arrays s p = Some x \<Longrightarrow>
    live_buffers (s\<lparr>arrays := (arrays s)(p \<mapsto> x\<lparr>useCount := k\<rparr>), cursors := f\<rparr>) = live_buffers s"
  by (auto simp: live_buffers_def)

lemma open_good:
  assumes inv: "life_inv s" and c: "c = 0 \<or> cursors s c = None" and v: "vtabs s v \<noteq> None" and k: "\<And>rc. k rc = 0"
  shows "good s (intarrayOpen c v s) k"
proof (cases "c = 0")
  case False
  obtain p x where px: "vtab_array s v = Some (p, x)" "vtabs s v = Some p" "arrays s p = Some x" "p \<noteq> 0"
    using vtab_array_Some [OF inv v] by blast
  let ?s = "s\<lparr>arrays := (arrays s)(p \<mapsto> x\<lparr>useCount := useCount x + 1\<rparr>), cursors := (cursors s)(c \<mapsto> (v, zero_cursor))\<rparr>"
  have new: "cursors s c = None" using c False by simp
  have oc: "open_cursors ?s q = (if q = p then insert c (open_cursors s q) else open_cursors s q)" for q
    using px new by (auto simp: open_cursors_def)
  have "c \<notin> open_cursors s p" using new by (simp add: open_cursors_def)
  then have "card (open_cursors ?s p) = Suc (card (open_cursors s p))" using finite_open [OF inv] by (simp add: oc)
  moreover have "links_ok ?s"
    by (rule links_okI) (use links_finite [OF linksD [OF inv]] px in
      \<open>auto split: if_splits dest: links_vtab [OF linksD [OF inv]] links_cursor [OF linksD [OF inv]]\<close>)
  ultimately have "life_inv ?s"
    using array_okD [OF inv px(3)] oc
    by (intro life_inv_count [OF inv px(3), where k = "useCount x + 1"]) (simp_all add: array_ok_def)
  moreover have "content_kept s ?s" using px by (auto simp: content_kept_def same_content_def)
  moreover have "balance ?s = balance s" using live_useCount [OF px(3)] by (simp add: balance_def)
  ultimately show ?thesis using px False k by (simp add: intarrayOpen_def good_def)
qed (simp add: intarrayOpen_def good_same [OF inv] k)

lemma close_good:
  assumes inv: "life_inv s" and c: "cursors s c \<noteq> None" and k: "\<And>rc. k rc = 0"
  shows "good s (intarrayClose c s) k"
proof -
  obtain v cur where vc: "cursors s c = Some (v, cur)" using c by auto
  then have v: "vtabs s v \<noteq> None" using links_cursor [OF linksD [OF inv]] by blast
  obtain p x where px: "vtab_array s v = Some (p, x)" "vtabs s v = Some p" "arrays s p = Some x" "p \<noteq> 0"
    using vtab_array_Some [OF inv v] by blast
  let ?s = "s\<lparr>arrays := (arrays s)(p \<mapsto> x\<lparr>useCount := useCount x - 1\<rparr>), cursors := (cursors s)(c := None)\<rparr>"
  have oc: "open_cursors ?s q = open_cursors s q - {c}" for q by (auto simp: open_cursors_def)
  have other: "c \<notin> open_cursors s q" if "q \<noteq> p" for q using that vc px by (auto simp: open_cursors_def)
  have "c \<in> open_cursors s p" using vc px by (simp add: open_cursors_def)
  then have "card (open_cursors s p) = Suc (card (open_cursors ?s p))"
    using finite_open [OF inv] unfolding oc by (rule card.remove [rotated])
  moreover have "links_ok ?s"
    by (rule links_okI) (use links_finite [OF linksD [OF inv]] px in
      \<open>auto split: if_splits dest: links_vtab [OF linksD [OF inv]] links_cursor [OF linksD [OF inv]]\<close>)
  ultimately have "life_inv ?s"
    using array_okD [OF inv px(3)] oc other
    by (intro life_inv_count [OF inv px(3), where k = "useCount x - 1"]) (simp_all add: array_ok_def)
  moreover have "content_kept s ?s" using px by (auto simp: content_kept_def same_content_def)
  moreover have "balance ?s = balance s" using live_useCount [OF px(3)] by (simp add: balance_def)
  ultimately show ?thesis using px vc k by (simp add: intarrayClose_def good_def)
qed

lemma on_cursor_good:
  assumes inv: "life_inv s" and c: "cursors s c \<noteq> None" and k: "\<And>rc. k rc = 0"
    and f: "\<And>cur x. n x = int (length (a x)) \<Longrightarrow> n x \<le> 2 ^ 30 \<Longrightarrow> f cur x \<noteq> None"
  shows "good s (on_cursor c s f) k"
proof -
  obtain v cur where vc: "cursors s c = Some (v, cur)" using c by auto
  then have v: "vtabs s v \<noteq> None" using links_cursor [OF linksD [OF inv]] by blast
  obtain p x where px: "vtab_array s v = Some (p, x)" "vtabs s v = Some p" "arrays s p = Some x" "p \<noteq> 0"
    using vtab_array_Some [OF inv v] by blast
  obtain cur' rc where r: "f cur x = Some (cur', rc)"
    using f [of x cur] array_okD [OF inv px(3)] by (auto simp: array_ok_def)
  let ?s = "s\<lparr>cursors := (cursors s)(c \<mapsto> (v, cur'))\<rparr>"
  have oc: "open_cursors ?s = open_cursors s"
    using vc by (auto simp: open_cursors_def fun_eq_iff)
  have "links_ok ?s"
    by (rule links_ok_frame [OF linksD [OF inv]]) (use vc in \<open>auto split: if_splits\<close>)
  then have "life_inv ?s"
  proof (intro life_inv_frame [OF inv])
    fix q y assume "arrays ?s q = Some y"
    then have y: "arrays s q = Some y" by simp
    with array_okD [OF inv y] show "\<exists>x. arrays s q = Some x \<and> zName y = zName x \<and> useCount y = useCount x \<and>
        n y = int (length (a y)) \<and> n y \<le> 2 ^ 30"
      by (simp add: array_ok_def)
  qed (simp_all add: oc)
  moreover have "content_kept s ?s" by (simp add: content_kept_def)
  moreover have "balance ?s = balance s" by (simp add: balance_def)
  ultimately show ?thesis using px vc r k by (simp add: on_cursor_def good_def)
qed

lemma set_commit_good:
  assumes "life_inv s" "vtabs s v \<noteq> None" "\<And>rc. k rc = 0"
  shows "good s (intarrayRollback v s) k" "good s (intarrayCommit v s) k"
proof -
  obtain p x where px: "vtab_array s v = Some (p, x)" "arrays s p = Some x"
    using vtab_array_Some [OF assms(1,2)] by blast
  have "same_content x (set_commit d x)" "useCount (set_commit d x) = useCount x" for d
    by (simp_all add: set_commit_def same_content_def)
  with px show "good s (intarrayRollback v s) k" "good s (intarrayCommit v s) k"
    using good_upd [OF assms(1) px(2)] assms(3) by (simp_all add: intarrayRollback_def intarrayCommit_def)
qed

subsection \<open>Binding, creating and destroying\<close>

lemma life_inv_freed [simp]: "life_inv (s\<lparr>freed := f\<rparr>) = life_inv s"
  by (simp add: inv_defs)

lemma life_inv_autocommit [simp]: "life_inv (s\<lparr>autocommit := b\<rparr>) = life_inv s"
  by (simp add: inv_defs)

lemma unused_array: "life_inv s \<Longrightarrow> arrays s p = Some x \<Longrightarrow> useCount x = 0 \<longleftrightarrow> open_cursors s p = {}"
  using array_okD [of s p x] finite_open [of s p] by (simp add: array_ok_def)

lemma same_content_trans: "same_content x y \<Longrightarrow> same_content y w \<Longrightarrow> same_content x w"
  by (simp add: same_content_def)

lemma content_keptD:
  assumes "content_kept s s'" "arrays s p = Some x" "open_cursors s p \<noteq> {}"
  obtains x' where "arrays s' p = Some x'" "same_content x x'"
  using assms by (auto simp: content_kept_def)

lemma content_kept_trans:
  assumes "content_kept s s1" "open_cursors s1 = open_cursors s" "content_kept s1 s2"
  shows "content_kept s s2"
  unfolding content_kept_def
proof (intro allI impI, elim conjE)
  fix p x assume x: "arrays s p = Some x" "open_cursors s p \<noteq> {}"
  obtain x1 where x1: "arrays s1 p = Some x1" "same_content x x1" by (rule content_keptD [OF assms(1) x])
  obtain x2 where "arrays s2 p = Some x2" "same_content x1 x2"
    using content_keptD [OF assms(3) x1(1)] x(2) assms(2) by metis
  with x1(2) show "\<exists>x'. arrays s2 p = Some x' \<and> same_content x x'" using same_content_trans by blast
qed

lemma replace_content:
  assumes inv: "life_inv s" and x: "arrays s p = Some x" and unused: "open_cursors s p = {}"
    and x': "zName x' = zName x" "useCount x' = useCount x" "n x' = int (length (a x'))" "n x' \<le> 2 ^ 30"
  shows "life_inv (s\<lparr>arrays := (arrays s)(p \<mapsto> x')\<rparr>)"
    "content_kept s (s\<lparr>arrays := (arrays s)(p \<mapsto> x')\<rparr>)"
    "card (live_buffers (s\<lparr>arrays := (arrays s)(p \<mapsto> x')\<rparr>)) =
       card (live_buffers s - {p}) + (if xFree x' then 1 else 0)"
proof -
  show "life_inv (s\<lparr>arrays := (arrays s)(p \<mapsto> x')\<rparr>)" by (rule life_inv_upd [OF inv x x'])
  show "content_kept s (s\<lparr>arrays := (arrays s)(p \<mapsto> x')\<rparr>)" using unused by (auto simp: content_kept_def)
  show "card (live_buffers (s\<lparr>arrays := (arrays s)(p \<mapsto> x')\<rparr>)) =
       card (live_buffers s - {p}) + (if xFree x' then 1 else 0)"
    using card_insert_disjoint [of "live_buffers s - {p}" p] finite_live [OF inv] by (simp add: live_buffers_upd)
qed

definition emptied :: "sqlite3_intarray \<Rightarrow> sqlite3_intarray" where
  "emptied x = x\<lparr>xFree := False, a := [], n := 0, ordered := 0, unique := 0\<rparr>"

lemma emptied_sel [simp]: "zName (emptied x) = zName x" "useCount (emptied x) = useCount x" "n (emptied x) = 0"
  "a (emptied x) = []" "\<not> xFree (emptied x)"
  by (simp_all add: emptied_def)

lemma drop_content_inuse:
  "p \<noteq> 0 \<Longrightarrow> arrays s p = Some x \<Longrightarrow> useCount x \<noteq> 0 \<Longrightarrow> drop_array_content p s = Some (INTARRAY_INUSE, s)"
  by (simp add: drop_array_content_def)

lemma drop_content_ok:
  assumes inv: "life_inv s" and p: "p \<noteq> 0" "arrays s p = Some x" "useCount x = 0"
  obtains s' where "drop_array_content p s = Some (SQLITE_OK, s')" "life_inv s'" "content_kept s s'"
    "balance s' = balance s" "open_cursors s' = open_cursors s" "arrays s' = (arrays s)(p \<mapsto> emptied x)"
    "arrayMap s' = arrayMap s" "open_cursors s' p = {}"
proof -
  let ?s1 = "s\<lparr>arrays := (arrays s)(p \<mapsto> emptied x)\<rparr>"
  let ?s2 = "?s1\<lparr>freed := (if xFree x then a x # freed s else freed s)\<rparr>"
  have unused: "open_cursors s p = {}" using unused_array [OF inv p(2)] p(3) by simp
  note r = replace_content [OF inv p(2) unused, of "emptied x", simplified]
  have "life_inv ?s2" using r(1) by simp
  moreover have "content_kept s ?s2" using r(2) by (simp add: content_kept_def)
  moreover have "balance ?s2 = balance s"
  proof (cases "xFree x")
    case True
    then have "p \<in> live_buffers s" using p by (simp add: live_buffers_def)
    then have "card (live_buffers s) = Suc (card (live_buffers s - {p}))"
      by (rule card.remove [OF finite_live [OF inv]])
    with True r(3) show ?thesis by (simp add: balance_def)
  next
    case False
    then have "p \<notin> live_buffers s" using p by (simp add: live_buffers_def)
    with False r(3) show ?thesis by (simp add: balance_def)
  qed
  ultimately show thesis
    using p unused by (intro that [of ?s2]) (simp_all add: drop_array_content_def emptied_def)
qed

lemma bind_vtable_keeps:
  assumes exec: "exec_contract exec" and inv: "life_inv s" and x: "arrays s p = Some x"
  obtains s' x' where "bind_vtable exec p ensure s = Some (SQLITE_OK, s')" "life_inv s'"
    "content_kept s s'" "balance s' = balance s" "open_cursors s' = open_cursors s"
    "arrays s' p = Some x'" "same_content x x'" "useCount x' = useCount x"
proof (cases "ensure \<and> (commitState x < 0 \<or> connectCount x \<le> 0)")
  case False
  with inv x show thesis by (intro that [of s x]) (auto simp: bind_vtable_def)
next
  case True
  obtain rc s1 where s1: "exec (CreateVTable (zName x)) s = Some (rc, s1)" "life_inv s1" "keeps s s1"
    by (rule exec_create_keeps [OF exec inv])
  obtain x1 where x1: "arrays s1 p = Some x1" "same_content x x1" "useCount x1 = useCount x"
    by (rule keeps_array [OF s1(3) x])
  have oc: "open_cursors s1 = open_cursors s" using s1(3) by (simp add: keeps_def)
  let ?x2 = "x1\<lparr>connectCount := 1, commitState := (if autocommit s1 then 1 else 0)\<rparr>"
  have eq: "bind_vtable exec p ensure s =
    Some (SQLITE_OK, if rc = SQLITE_OK then s1\<lparr>arrays := (arrays s1)(p \<mapsto> ?x2)\<rparr> else s1)"
    using True x s1(1) x1(1) by (simp add: bind_vtable_def create_vtable_def)
  show thesis
  proof (cases "rc = SQLITE_OK")
    case False
    then show thesis
      using eq s1 x1 oc keeps_content [OF s1(3)] keeps_balance [OF s1(3)] by (intro that [of s1 x1]) simp_all
  next
    case True
    let ?s2 = "s1\<lparr>arrays := (arrays s1)(p \<mapsto> ?x2)\<rparr>"
    have "good s1 (Some (SQLITE_OK, ?s2)) (\<lambda>_. 0)"
      by (rule good_upd [OF s1(2) x1(1)]) (simp_all add: same_content_def)
    then have "life_inv ?s2" "content_kept s1 ?s2" "balance ?s2 = balance s1" by (simp_all add: good_def)
    moreover have "content_kept s ?s2"
      by (rule content_kept_trans [OF keeps_content [OF s1(3)] oc calculation(2)])
    moreover have "same_content x ?x2" using x1(2) by (simp add: same_content_def)
    ultimately show thesis
      using eq True oc x1 keeps_balance [OF s1(3)] by (intro that [of ?s2 ?x2]) simp_all
  qed
qed

lemma bind_good:
  assumes exec: "exec_contract exec" and inv: "life_inv s" and x: "arrays s p \<noteq> None"
    and len: "int (length xs) \<le> 2 ^ 30"
  shows "good s (sqlite3_intarray_bind exec p xs free ord uniq ensure s)
    (\<lambda>rc. if free \<and> rc = SQLITE_OK then 1 else 0)"
proof -
  obtain x where x: "arrays s p = Some x" using x by blast
  then have p: "p \<noteq> 0" using links_finite(1) [OF linksD [OF inv]] by (metis option.distinct(1))
  show ?thesis
  proof (cases "useCount x = 0")
    case False
    then show ?thesis using drop_content_inuse [OF p x] inv
      by (simp add: sqlite3_intarray_bind_def good_def result_codes)
  next
    case True
    obtain s1 where s1: "drop_array_content p s = Some (SQLITE_OK, s1)" "life_inv s1" "content_kept s s1"
      "balance s1 = balance s" "open_cursors s1 = open_cursors s" "arrays s1 = (arrays s)(p \<mapsto> emptied x)"
      "open_cursors s1 p = {}"
      by (rule drop_content_ok [OF inv p x True])
    have e: "arrays s1 p = Some (emptied x)" using s1(6) by simp
    obtain s2 x2 where s2: "bind_vtable exec p ensure s1 = Some (SQLITE_OK, s2)" "life_inv s2"
      "content_kept s1 s2" "balance s2 = balance s1" "open_cursors s2 = open_cursors s1"
      "arrays s2 p = Some x2" "same_content (emptied x) x2" "useCount x2 = useCount (emptied x)"
      by (rule bind_vtable_keeps [OF exec s1(2) e])
    let ?x3 = "x2\<lparr>n := int (length xs), a := xs, xFree := free, ordered := ord, unique := uniq\<rparr>"
    let ?s3 = "s2\<lparr>arrays := (arrays s2)(p \<mapsto> ?x3)\<rparr>"
    have unused: "open_cursors s2 p = {}" using s1(7) s2(5) by simp
    have len': "length xs \<le> 1073741824" using len by simp
    note r = replace_content [OF s2(2) s2(6) unused, of ?x3, simplified, OF len']
    have "p \<notin> live_buffers s2" using s2(6,7) by (simp add: live_buffers_def same_content_def)
    then have "balance ?s3 = balance s + (if free then 1 else 0)"
      using r(3) s1(4) s2(4) by (simp add: balance_def)
    moreover have "content_kept s ?s3"
      using content_kept_trans [OF s1(3,5)] content_kept_trans [OF s2(3,5) r(2)] s1(5) by blast
    ultimately show ?thesis
      using s1(1) s2(1,6) r(1) by (simp add: sqlite3_intarray_bind_def good_def)
  qed
qed

text \<open>Adding a fresh array under a name that is free, and taking an array out again.\<close>

lemma no_open_cursors: "life_inv s \<Longrightarrow> arrays s p = None \<Longrightarrow> open_cursors s p = {}"
  using links_vtab [OF linksD] by (fastforce simp: open_cursors_def)

lemma life_inv_add:
  assumes inv: "life_inv s" and p: "p \<noteq> 0" "arrays s p = None"
    and m: "map_inv m" "map_abs (arrayMap s) (lower z) = None" "map_abs m = (map_abs (arrayMap s))(lower z \<mapsto> p)"
    and x: "zName x = z" "useCount x = 0" "n x = 0" "a x = []"
  shows "life_inv (s\<lparr>arrayMap := m, arrays := (arrays s)(p \<mapsto> x)\<rparr>)" (is "life_inv ?s")
proof -
  have "array_ok ?s q y" if "arrays ?s q = Some y" for q y
  proof (cases "q = p")
    case True
    with that x m(3) no_open_cursors [OF inv p(2)] show ?thesis by (auto simp: array_ok_def)
  next
    case False
    with that have "arrays s q = Some y" by simp
    with array_okD [OF inv this] m show ?thesis by (auto simp: array_ok_def)
  qed
  moreover have "\<exists>y. arrays ?s q = Some y \<and> lower (zName y) = w" if "map_abs m w = Some q" for q w
  proof (cases "w = lower z")
    case True
    with that m(3) x show ?thesis by simp
  next
    case False
    with that m(3) have "map_abs (arrayMap s) w = Some q" by simp
    then obtain y where "arrays s q = Some y" "lower (zName y) = w"
      using inv unfolding life_inv_def names_ok_def by blast
    with p(2) show ?thesis by (cases "q = p") simp_all
  qed
  moreover have "links_ok ?s"
    by (rule links_okI) (use p links_finite [OF linksD [OF inv]] in
      \<open>auto split: if_splits dest: links_vtab [OF linksD [OF inv]] links_cursor [OF linksD [OF inv]]\<close>)
  ultimately show ?thesis using m(1) by (simp add: life_inv_def names_ok_def)
qed

lemma life_inv_remove:
  assumes inv: "life_inv s" and p: "arrays s p = Some x"
    and m: "map_inv m" "map_abs m = (map_abs (arrayMap s))(lower (zName x) := None)"
    and free: "\<And>v. vtabs s v \<noteq> Some p"
  shows "life_inv (s\<lparr>arrayMap := m, arrays := (arrays s)(p := None)\<rparr>)" (is "life_inv ?s")
proof -
  have mp: "map_abs (arrayMap s) (lower (zName x)) = Some p"
    using array_okD [OF inv p] by (simp add: array_ok_def)
  have "array_ok ?s q y" if q: "arrays ?s q = Some y" for q y
  proof -
    have y: "arrays s q = Some y" "q \<noteq> p" using q by (auto split: if_splits)
    with array_okD [OF inv y(1)] m mp show ?thesis by (auto simp: array_ok_def)
  qed
  moreover have "\<exists>y. arrays ?s q = Some y \<and> lower (zName y) = w" if q: "map_abs m w = Some q" for q w
  proof -
    have w: "map_abs (arrayMap s) w = Some q" "w \<noteq> lower (zName x)" using q m(2) by (auto split: if_splits)
    then obtain y where y: "arrays s q = Some y" "lower (zName y) = w"
      using inv unfolding life_inv_def names_ok_def by blast
    with w p show ?thesis by (cases "q = p") auto
  qed
  moreover have "links_ok ?s"
    by (rule links_okI) (use p free links_finite [OF linksD [OF inv]] in
      \<open>auto split: if_splits dest: links_vtab [OF linksD [OF inv]] links_cursor [OF linksD [OF inv]]\<close>)
  ultimately show ?thesis using m(1) by (simp add: life_inv_def names_ok_def)
qed

lemma destroy_good:
  assumes exec: "exec_contract exec" and inv: "life_inv s" and x: "arrays s p \<noteq> None" and un: "unblocked s p"
    and k: "\<And>rc. k rc = 0"
  shows "good s (sqlite3_intarray_destroy exec p s) k"
proof -
  obtain x where x: "arrays s p = Some x" using x by blast
  then have p: "p \<noteq> 0" using links_finite(1) [OF linksD [OF inv]] by (metis option.distinct(1))
  show ?thesis
  proof (cases "useCount x = 0")
    case False
    then show ?thesis using drop_content_inuse [OF p x] inv k
      by (simp add: sqlite3_intarray_destroy_def good_def result_codes)
  next
    case True
    obtain s1 where s1: "drop_array_content p s = Some (SQLITE_OK, s1)" "life_inv s1" "content_kept s s1"
      "balance s1 = balance s" "open_cursors s1 = open_cursors s" "arrays s1 = (arrays s)(p \<mapsto> emptied x)"
      "arrayMap s1 = arrayMap s" "open_cursors s1 p = {}"
      by (rule drop_content_ok [OF inv p x True])
    have e: "arrays s1 p = Some (emptied x)" using s1(6) by simp
    obtain rc s2 where s2: "exec (DropTable (zName x)) s1 = Some (rc, s2)" "life_inv s2" "keeps s1 s2"
      "rc = SQLITE_OK \<longrightarrow> (\<forall>v q y. vtabs s2 v = Some q \<longrightarrow> arrays s1 q = Some y \<longrightarrow> lower (zName y) \<noteq> lower (zName x))"
      by (rule exec_drop_keeps [OF exec s1(2)])
    obtain x2 where x2: "arrays s2 p = Some x2" "same_content (emptied x) x2"
      by (rule keeps_array [OF s2(3) e])
    have kept: "content_kept s s2" by (rule content_kept_trans [OF s1(3,5) keeps_content [OF s2(3)]])
    have bal: "balance s2 = balance s" using s1(4) keeps_balance [OF s2(3)] by simp
    have step: "sqlite3_intarray_destroy exec p s =
      (if rc \<noteq> SQLITE_OK then Some (rc, s2)
       else Some (rc, s2\<lparr>arrayMap := intarrayMapRemove (arrayMap s2) (zName x2), arrays := (arrays s2)(p := None)\<rparr>))"
      using s1(1) s2(1) e x2(1) by (simp add: sqlite3_intarray_destroy_def drop_vtable_def)
    show ?thesis
    proof (cases "rc = SQLITE_OK")
      case False
      with step s2(2) kept bal k show ?thesis by (simp add: good_def)
    next
      case True
      let ?m = "intarrayMapRemove (arrayMap s2) (zName x2)"
      have z: "zName x2 = zName x" using x2(2) by (simp add: same_content_def)
      have m: "arrayMap s2 = arrayMap s" using s1(7) s2(3) by (simp add: keeps_def)
      have mi: "map_inv (arrayMap s2)" using s2(2) by (simp add: life_inv_def names_ok_def)
      have "map_abs (arrayMap s2) (lower (zName x)) = Some p"
        using array_okD [OF s2(2) x2(1)] z by (simp add: array_ok_def)
      moreover have "map_abs ?m (lower (zName x)) = None" using un x m z by (simp add: unblocked_def)
      ultimately have mr: "map_inv ?m" "map_abs ?m = (map_abs (arrayMap s2))(lower (zName x2) := None)"
        using nt.remove_view [OF mi, of "zName x2"] z by auto
      have "vtabs s2 v \<noteq> Some p" for v using s2(4) True e by fastforce
      from life_inv_remove [OF s2(2) x2(1) mr this]
      have "life_inv (s2\<lparr>arrayMap := ?m, arrays := (arrays s2)(p := None)\<rparr>)" .
      moreover have "content_kept s (s2\<lparr>arrayMap := ?m, arrays := (arrays s2)(p := None)\<rparr>)"
        using kept s1(5,8) by (auto simp: content_kept_def)
      moreover have "p \<notin> live_buffers s2" using x2 by (simp add: live_buffers_def same_content_def)
      then have "live_buffers (s2\<lparr>arrayMap := ?m, arrays := (arrays s2)(p := None)\<rparr>) = live_buffers s2"
        by (auto simp: live_buffers_def)
      ultimately show ?thesis using step True bal k by (simp add: good_def balance_def)
    qed
  qed
qed

lemma life_inv_map:
  assumes "life_inv s" "map_inv m" "map_abs m = map_abs (arrayMap s)"
  shows "life_inv (s\<lparr>arrayMap := m\<rparr>)"
proof -
  have "array_ok (s\<lparr>arrayMap := m\<rparr>) p x = array_ok s p x" for p x using assms(3) by (simp add: array_ok_def)
  moreover have "links_ok (s\<lparr>arrayMap := m\<rparr>) = links_ok s" by (simp add: links_ok_def)
  ultimately show ?thesis using assms by (simp add: life_inv_def names_ok_def)
qed

lemma create_cases:
  assumes exec: "exec_contract exec" and inv: "life_inv s" and p: "p \<noteq> 0" "arrays s p = None"
  obtains (duplicate) "map_abs (arrayMap s) (lower z) \<noteq> None"
      "sqlite3_intarray_create exec p True z s = Some (INTARRAY_DUPLICATE_NAME, s)"
    | (failed) rc s' where "map_abs (arrayMap s) (lower z) = None" "rc \<noteq> SQLITE_OK"
      "sqlite3_intarray_create exec p True z s = Some (rc, s')" "life_inv s'"
      "arrays s' = arrays s" "map_abs (arrayMap s') = map_abs (arrayMap s)" "freed s' = freed s"
    | (created) s' where "map_abs (arrayMap s) (lower z) = None"
      "sqlite3_intarray_create exec p True z s = Some (SQLITE_OK, s')" "life_inv s'"
      "content_kept s s'" "balance s' = balance s" "map_abs (arrayMap s') = (map_abs (arrayMap s))(lower z \<mapsto> p)"
proof (cases "map_abs (arrayMap s) (lower z) = None")
  case False
  have "map_inv (arrayMap s)" using inv by (simp add: life_inv_def names_ok_def)
  then have "intarrayMapPut True (arrayMap s) p z = (INTARRAY_DUPLICATE_NAME, arrayMap s)"
    using False by (rule nt.put_taken)
  moreover have "(arrays s)(p := None) = arrays s" using p(2) by (simp add: fun_upd_idem)
  ultimately show thesis
    using False p by (intro duplicate) (simp_all add: sqlite3_intarray_create_def result_codes)
next
  case True
  have mi: "map_inv (arrayMap s)" using inv by (simp add: life_inv_def names_ok_def)
  obtain m where m: "intarrayMapPut True (arrayMap s) p z = (SQLITE_OK, m)" "map_inv m"
    "map_abs m = (map_abs (arrayMap s))(lower z \<mapsto> p)"
    using nt.put_free [OF mi True] by blast
  let ?x = "(zero_array z)\<lparr>commitState := (if autocommit s then 1 else 0)\<rparr>"
  let ?s1 = "s\<lparr>arrayMap := m, arrays := (arrays s)(p \<mapsto> ?x)\<rparr>"
  have inv1: "life_inv ?s1"
    by (rule life_inv_add [OF inv p m(2) True m(3)]) (simp_all add: zero_array_def)
  obtain rc s2 where s2: "exec (CreateVTable z) ?s1 = Some (rc, s2)" "life_inv s2" "keeps ?s1 s2"
    "rc \<noteq> SQLITE_OK \<longrightarrow> s2 = ?s1"
    by (rule exec_create_keeps [OF exec inv1])
  have step: "sqlite3_intarray_create exec p True z s =
    (if rc \<noteq> SQLITE_OK then Some (rc, s2\<lparr>arrayMap := intarrayMapRemove (arrayMap s2) z, arrays := (arrays s2)(p := None)\<rparr>)
     else Some (rc, s2))"
    using p m(1) s2(1) by (simp add: sqlite3_intarray_create_def create_vtable_def zero_array_def Let_def)
  show thesis
  proof (cases "rc = SQLITE_OK")
    case False
    let ?s3 = "s\<lparr>arrayMap := intarrayMapRemove m z\<rparr>"
    have mr: "map_inv (intarrayMapRemove m z)" using nt.remove_view [OF m(2)] by blast
    have undo: "map_abs (intarrayMapRemove m z) = map_abs (arrayMap s)" by (rule nt.put_undo [OF mi m(1)])
    have "s2\<lparr>arrayMap := intarrayMapRemove (arrayMap s2) z, arrays := (arrays s2)(p := None)\<rparr> = ?s3"
      using False s2(4) p(2) by (simp add: fun_upd_idem)
    moreover have "life_inv ?s3" by (rule life_inv_map [OF inv mr undo])
    ultimately show thesis using True False step undo by (intro failed [of rc ?s3]) simp_all
  next
    case ok: True
    have kept: "content_kept ?s1 s2" "balance s2 = balance ?s1"
      using keeps_content [OF s2(3)] keeps_balance [OF s2(3)] by simp_all
    have "content_kept s ?s1" using p(2) by (auto simp: content_kept_def)
    then have "content_kept s s2" using content_kept_trans [of s ?s1 s2] kept(1) by simp
    moreover have "live_buffers ?s1 = live_buffers s" using p(2) by (auto simp: live_buffers_def zero_array_def)
    then have "balance s2 = balance s" using kept(2) by (simp add: balance_def)
    moreover have "arrayMap s2 = m" using s2(3) by (simp add: keeps_def)
    ultimately show thesis using True ok step s2(2) m(3) by (intro created [of s2]) simp_all
  qed
qed

lemma create_good:
  assumes exec: "exec_contract exec" and inv: "life_inv s" and p: "arrays s p = None" and k: "\<And>rc. k rc = 0"
  shows "good s (sqlite3_intarray_create exec p True z s) k"
proof (cases "p = 0")
  case True
  then show ?thesis using inv k by (simp add: sqlite3_intarray_create_def good_same)
next
  case False
  show ?thesis
  proof (cases rule: create_cases [OF exec inv False p, of z, case_names duplicate failed created])
    case duplicate
    then show ?thesis using inv k by (simp add: good_same)
  next
    case (failed rc s')
    then have "live_buffers s' = live_buffers s" by (simp add: live_buffers_def)
    with failed k show ?thesis by (simp add: good_def content_kept_def balance_def)
  next
    case created
    then show ?thesis using k by (simp add: good_def)
  qed
qed

lemma call_good:
  assumes exec: "exec_contract exec" and inv: "life_inv s" and en: "enabled c s"
  shows "good s (run_call exec c s) (handed_over c)"
proof (cases c)
  case (Bind p xs free ord uniq ensure)
  have "good s (run_call exec c s) (\<lambda>rc. if free \<and> rc = SQLITE_OK then 1 else 0)"
    using bind_good [OF exec inv] en Bind by simp
  moreover have "(\<lambda>rc. if free \<and> rc = SQLITE_OK then 1 else 0) = handed_over c"
    by (simp add: Bind fun_eq_iff)
  ultimately show ?thesis by simp
next
  case (Connect v declared z)
  then have "fresh_vtab s v" using en by simp
  then obtain rc s' where "intarrayCreate True 3 v declared z s = Some (rc, s')" "life_inv s'" "keeps s s'"
    by (rule intarrayCreate_keeps [OF inv])
  then show ?thesis using Connect good_keeps [of s' s "handed_over c" rc] by simp
next
  case (Disconnect v)
  then have "vtabs s v \<noteq> None" "no_cursor_on s v" using en by simp_all
  then obtain s' where "intarrayDestroy v s = Some (SQLITE_OK, s')" "life_inv s'" "keeps s s'"
    by (rule intarrayDestroy_keeps [OF inv])
  then show ?thesis using Disconnect good_keeps [of s' s "handed_over c" SQLITE_OK] by simp
next
  case (Filter c' idxNum argv)
  then show ?thesis
    using on_cursor_good [OF inv, of c' "handed_over c"] intarrayFilter_total en by (fastforce simp: xFilter_def)
next
  case (Autocommit b)
  have "balance (s\<lparr>autocommit := b\<rparr>) = balance s" by (simp add: balance_def live_buffers_def)
  moreover have "content_kept s (s\<lparr>autocommit := b\<rparr>)" by (simp add: content_kept_def)
  ultimately show ?thesis using inv Autocommit by (simp add: good_def)
qed (use inv en exec in \<open>simp_all add: create_good destroy_good open_good close_good on_cursor_good set_commit_good
  xNext_def intarrayBegin_def good_same\<close>)

subsection \<open>Reachable states\<close>

lemma start_good: "map_inv m \<Longrightarrow> map_abs m = Map.empty \<Longrightarrow> life_inv (start m) \<and> balance (start m) = 0"
  by (simp add: inv_defs start_def balance_def live_buffers_def)

lemma register_map:
  assumes "sqlite3_intarray_register True True SQLITE_OK m0 = (SQLITE_OK, Some m, k)"
  shows "map_inv m" "map_abs m = Map.empty"
  using intarrayMapInit_ok [of m0] assms
  by (auto simp: sqlite3_intarray_register_def split: prod.splits if_splits)

lemma runs_good:
  assumes exec: "exec_contract exec" and run: "runs exec b s"
  shows "life_inv s \<and> balance s = b"
  using run
proof induction
  case (register m0 m k)
  then show ?case using start_good register_map by blast
next
  case (call b s c rc s')
  then show ?case using call_good [OF exec _ call.hyps(2)] by (auto simp: good_def)
qed

lemma runs_call: "runs exec b s \<Longrightarrow> enabled c s \<Longrightarrow> run_call exec c s = Some (rc, s') \<Longrightarrow> \<exists>b. runs exec b s'"
  by (blast intro: runs.call)

text \<open>
  A host for the witnesses. It connects an array at the address 1000 above its own and drops
  a table when no cursor is open on it.
\<close>

definition host_create :: "byte list \<Rightarrow> life \<Rightarrow> (int \<times> life) option" where
  "host_create z s =
     (let v = 1000 + intarrayMapFind (arrayMap s) z
      in if vtabs s v = None then intarrayCreate True 3 v SQLITE_OK z s else Some (SQLITE_ERROR, s))"

definition host_drop :: "byte list \<Rightarrow> life \<Rightarrow> (int \<times> life) option" where
  "host_drop z s =
     (if finite (vtabs_of s z) \<and> (\<forall>v \<in> vtabs_of s z. no_cursor_on s v)
      then destroy_vtabs (sorted_list_of_set (vtabs_of s z)) s else Some (SQLITE_ERROR, s))"

definition host :: "(byte list \<Rightarrow> life \<Rightarrow> (int \<times> life) option) \<Rightarrow> sqlite_exec" where
  "host dropper stmt s = (case stmt of CreateVTable z \<Rightarrow> host_create z s | DropTable z \<Rightarrow> dropper z s)"

lemma host_contract: "exec_contract (host host_drop)"
  unfolding exec_contract_def
proof (intro allI conjI)
  fix z :: "byte list" and s :: life
  let ?v = "1000 + intarrayMapFind (arrayMap s) z"
  show "(\<exists>v declared. fresh_vtab s v \<and> host host_drop (CreateVTable z) s = intarrayCreate True 3 v declared z s) \<or>
      (\<exists>rc. rc \<noteq> SQLITE_OK \<and> host host_drop (CreateVTable z) s = Some (rc, s))"
  proof (cases "vtabs s ?v = None")
    case True
    then have "fresh_vtab s ?v" "host host_drop (CreateVTable z) s = intarrayCreate True 3 ?v SQLITE_OK z s"
      by (simp_all add: fresh_vtab_def host_def host_create_def Let_def)
    then show ?thesis by blast
  next
    case False
    then have "host host_drop (CreateVTable z) s = Some (SQLITE_ERROR, s)"
      by (auto simp: host_def host_create_def Let_def)
    moreover have "SQLITE_ERROR \<noteq> SQLITE_OK" by (simp add: result_codes)
    ultimately show ?thesis by blast
  qed
  show "(\<exists>vs. distinct vs \<and> set vs = vtabs_of s z \<and> (\<forall>v \<in> set vs. no_cursor_on s v) \<and>
        host host_drop (DropTable z) s = destroy_vtabs vs s) \<or>
      (\<exists>rc. rc \<noteq> SQLITE_OK \<and> host host_drop (DropTable z) s = Some (rc, s))"
  proof (cases "finite (vtabs_of s z) \<and> (\<forall>v \<in> vtabs_of s z. no_cursor_on s v)")
    case True
    then have "host host_drop (DropTable z) s = destroy_vtabs (sorted_list_of_set (vtabs_of s z)) s"
      by (simp add: host_def host_drop_def)
    with True show ?thesis by (intro disjI1 exI [of _ "sorted_list_of_set (vtabs_of s z)"]) simp
  next
    case False
    then have "host host_drop (DropTable z) s = Some (SQLITE_ERROR, s)" by (auto simp: host_def host_drop_def)
    moreover have "SQLITE_ERROR \<noteq> SQLITE_OK" by (simp add: result_codes)
    ultimately show ?thesis by blast
  qed
qed

text \<open>Creating an array does not drop tables, so every host computes the same.\<close>

lemma create_host: "sqlite3_intarray_create (host d) p ok z s = sqlite3_intarray_create (host d') p ok z s"
proof -
  have "create_vtable (host d) p t = create_vtable (host d') p t" for t
    by (simp add: create_vtable_def host_def split: option.split)
  then show ?thesis by (simp only: sqlite3_intarray_create_def)
qed

definition no_drop :: "byte list \<Rightarrow> life \<Rightarrow> (int \<times> life) option" where
  "no_drop z s = Some (SQLITE_ERROR, s)"

definition created :: "ptr \<Rightarrow> byte list \<Rightarrow> life \<Rightarrow> life" where
  "created p z s = snd (the (sqlite3_intarray_create (host no_drop) p True z s))"

lemma runs_created:
  assumes "runs (host host_drop) b s" "arrays s p = None"
    "map_option fst (sqlite3_intarray_create (host no_drop) p True z s) = Some rc"
  shows "runs (host host_drop) b (created p z s)"
proof -
  have "run_call (host host_drop) (Create p z) s = Some (rc, created p z s)"
    using assms(3) create_host [of host_drop p True z s no_drop] by (auto simp: created_def)
  from runs.call [OF assms(1) _ this] assms(2) show ?thesis by simp
qed

lemma runs_start: "runs exec 0 (start empty_map)"
  by (rule runs.register [of "\<lparr>hashtable = [], map_size = 0, rehashSize = 0, count = 0\<rparr>" empty_map])
    (simp add: sqlite3_intarray_register_def empty_map_def intarrayMapInit_def Let_def)

definition one_array :: life where
  "one_array = created 7 [97] (start empty_map)"

lemma one_array_runs: "runs (host host_drop) 0 one_array"
  unfolding one_array_def by (rule runs_created [OF runs_start, of _ _ SQLITE_OK]) code_simp+



text \<open>
  C7. The content of an array is stable while a cursor is open on it: no call changes,
  frees or removes the elements that an open cursor reads, and binding or destroying the
  array answers \<open>INTARRAY_INUSE\<close> without any effect.
\<close>

theorem open_cursor_content_stable:
  assumes "exec_contract exec" and "runs exec b s" and "enabled c s"
    and "run_call exec c s = Some (rc, s')" and "arrays s p = Some x" and "open_cursors s p \<noteq> {}"
  shows "(\<exists>x'. arrays s' p = Some x' \<and> same_content x x') \<and>
    (c = Destroy p \<or> (\<exists>xs free ord uniq ensure. c = Bind p xs free ord uniq ensure) \<longrightarrow>
      rc = INTARRAY_INUSE \<and> s' = s)"
proof -
  have inv: "life_inv s" using runs_good [OF assms(1,2)] by simp
  have "content_kept s s'" using call_good [OF assms(1) inv assms(3)] assms(4) by (simp add: good_def)
  then have 1: "\<exists>x'. arrays s' p = Some x' \<and> same_content x x'" using assms(5,6) by (simp add: content_kept_def)
  have "p \<noteq> 0" using links_finite(1) [OF linksD [OF inv]] assms(5) by (metis option.distinct(1))
  moreover have "useCount x \<noteq> 0" using unused_array [OF inv assms(5)] assms(6) by simp
  ultimately have "drop_array_content p s = Some (INTARRAY_INUSE, s)"
    using drop_content_inuse assms(5) by blast
  moreover have "INTARRAY_INUSE \<noteq> SQLITE_OK" by (simp add: result_codes)
  ultimately show ?thesis
    using 1 assms(4) by (auto simp: sqlite3_intarray_bind_def sqlite3_intarray_destroy_def)
qed

definition open_array :: life where
  "open_array = snd (the (intarrayOpen 5 1007 one_array))"

lemma open_array_runs: "runs (host host_drop) 0 open_array"
proof -
  have e: "map_option fst (intarrayOpen 5 1007 one_array) = Some SQLITE_OK" by code_simp
  then have "run_call (host host_drop) (Open 5 1007) one_array = Some (SQLITE_OK, open_array)"
    by (auto simp: open_array_def)
  moreover have "cursors one_array 5 = None" "vtabs one_array 1007 \<noteq> None" by code_simp+
  then have "enabled (Open 5 1007) one_array" by simp
  ultimately show ?thesis using runs.call [OF one_array_runs] by fastforce
qed

lemma open_array_has: "arrays open_array 7 \<noteq> None"
  by code_simp

lemma open_array_cursor: "5 \<in> open_cursors open_array 7"
proof -
  have "map_option fst (cursors open_array 5) = Some 1007" "vtabs open_array 1007 = Some 7" by code_simp+
  then show ?thesis by (auto simp: open_cursors_def)
qed

theorem open_cursor_content_stable_witness:
  "\<exists>x. arrays open_array 7 = Some x \<and>
    run_call (host host_drop) (Bind 7 [1, 2] True 1 1 False) open_array = Some (INTARRAY_INUSE, open_array)"
proof -
  let ?c = "Bind 7 [1, 2] True 1 1 False"
  obtain x where x: "arrays open_array 7 = Some x"
    using option.exhaust_sel [of "arrays open_array 7"] open_array_has by blast
  have en: "enabled ?c open_array" using x by simp
  obtain rc s' where r: "run_call (host host_drop) ?c open_array = Some (rc, s')"
    using call_good [OF host_contract _ en] runs_good [OF host_contract open_array_runs] by (auto simp: good_def)
  have "5 \<in> open_cursors open_array 7" by (rule open_array_cursor)
  then have "open_cursors open_array 7 \<noteq> {}" by blast
  from open_cursor_content_stable [OF host_contract open_array_runs en r x this] r x show ?thesis by blast
qed



text \<open>
  Creation is all or nothing when the name table can grow: either it answers
  \<open>SQLITE_OK\<close> and the name, in any spelling, is found to be the new array, or it answers an
  error, every search gives what it gave before and no array has been added. A name in use is
  refused as a duplicate.
\<close>

theorem create_all_or_nothing:
  assumes "exec_contract exec" and "runs exec b s" and "p \<noteq> 0" and "arrays s p = None"
    and "sqlite3_intarray_create exec p True z s = Some (rc, s')"
  shows "(if rc = SQLITE_OK then \<forall>y. intarrayMapFind (arrayMap s') y =
        (if lower y = lower z then p else intarrayMapFind (arrayMap s) y)
      else arrays s' = arrays s \<and> (\<forall>y. intarrayMapFind (arrayMap s') y = intarrayMapFind (arrayMap s) y)) \<and>
    (intarrayMapFind (arrayMap s) z \<noteq> 0 \<longrightarrow> rc = INTARRAY_DUPLICATE_NAME)"
proof -
  have inv: "life_inv s" using runs_good [OF assms(1,2)] by simp
  have find: "life_inv t \<Longrightarrow>
      intarrayMapFind (arrayMap t) y = (case map_abs (arrayMap t) (lower y) of None \<Rightarrow> 0 | Some q \<Rightarrow> q)" for t y
    using nt.search_view by (simp add: life_inv_def names_ok_def)
  show ?thesis
  proof (cases rule: create_cases [OF assms(1) inv assms(3,4), of z, case_names duplicate failed created])
    case duplicate
    then show ?thesis using assms(5) by (auto simp: result_codes)
  next
    case (failed rc1 s1)
    then have "rc = rc1" "s' = s1" using assms(5) by auto
    with failed show ?thesis using find [OF inv] find [OF failed(4)] by auto
  next
    case (created s1)
    then have "rc = SQLITE_OK" "s' = s1" using assms(5) by auto
    with created show ?thesis using find [OF inv] find [OF created(3)] by auto
  qed
qed

theorem create_all_or_nothing_witness:
  "intarrayMapFind (arrayMap (created 8 [98] one_array)) [66] = 8"
proof -
  have "map_option fst (sqlite3_intarray_create (host no_drop) 8 True [98] one_array) = Some SQLITE_OK" by code_simp
  then have r: "sqlite3_intarray_create (host host_drop) 8 True [98] one_array = Some (SQLITE_OK, created 8 [98] one_array)"
    using create_host [of host_drop 8 True "[98]" one_array no_drop] by (auto simp: created_def)
  have "arrays one_array 8 = None" by code_simp
  from create_all_or_nothing [OF host_contract one_array_runs _ this r] show ?thesis
    by (simp add: lower_def tolower_def)
qed

text \<open>
  When the name table is due to grow and the larger table cannot be allocated,
  \<open>sqlite3_intarray_create\<close> answers \<open>SQLITE_NOMEM\<close> and frees the array and its name, but
  the entry was stored before the growth was tried and stays: the name is found at the freed
  address, and when SQLite connects a table of that name the module writes to freed memory.
\<close>

theorem create_nomem_dangles:
  assumes "exec_contract exec" and "runs exec b s" and "p \<noteq> 0" and "arrays s p = None"
    and "intarrayMapFind (arrayMap s) z = 0" and "count (arrayMap s) + 1 = int (rehashSize (arrayMap s))"
    and "v \<noteq> 0"
  shows "\<exists>s'. sqlite3_intarray_create exec p False z s = Some (SQLITE_NOMEM, s') \<and> arrays s' p = None \<and>
    intarrayMapFind (arrayMap s') z = p \<and> intarrayCreate True 3 v SQLITE_OK z s' = None"
proof -
  let ?m = "arrayMap s"
  have inv: "life_inv s" using runs_good [OF assms(1,2)] by simp
  then have mi: "map_inv ?m" by (simp add: life_inv_def names_ok_def)
  have "map_abs ?m y \<noteq> Some 0" for y
    using inv links_finite(1) [OF linksD [OF inv]] by (fastforce simp: life_inv_def names_ok_def)
  then have new: "map_abs ?m (lower z) = None"
    using assms(5) nt.search_view [OF mi, of z] by (auto split: option.splits)
  obtain m where m: "map_abs m = (map_abs ?m)(lower z \<mapsto> p)" "intarrayMapPut False ?m p z = (SQLITE_NOMEM, m)"
    "table_inv (hashtable m)" "map_size m = length (hashtable m)"
    by (rule put_new [OF mi new, of p False]) (use assms(6) in auto)
  have find: "intarrayMapFind m z = p"
    using find_loop_abs [OF m(3), of z] m(1,4) by (simp add: intarrayMapFind_def map_abs_def)
  let ?s = "s\<lparr>arrayMap := m, arrays := (arrays s)(p := None)\<rparr>"
  have "sqlite3_intarray_create exec p False z s = Some (SQLITE_NOMEM, ?s)"
    using assms(3) m(2) by (simp add: sqlite3_intarray_create_def result_codes)
  moreover have "intarrayCreate True 3 v SQLITE_OK z ?s = None"
    using find assms(3,7) by (simp add: intarrayCreate_def)
  ultimately show ?thesis using find by (intro exI [of _ ?s]) simp
qed

fun create_all :: "(ptr \<times> byte list) list \<Rightarrow> life \<Rightarrow> life option" where
  "create_all [] s = Some s"
| "create_all ((p, z) # xs) s =
     (if arrays s p = None
      then (case sqlite3_intarray_create (host no_drop) p True z s of
              None \<Rightarrow> None | Some (rc, s) \<Rightarrow> create_all xs s)
      else None)"

lemma create_all_runs: "create_all xs s = Some s' \<Longrightarrow> runs (host host_drop) b s \<Longrightarrow> runs (host host_drop) b s'"
proof (induction xs s rule: create_all.induct)
  case (2 p z xs s)
  then obtain rc s1 where s1: "arrays s p = None" "sqlite3_intarray_create (host no_drop) p True z s = Some (rc, s1)"
    "create_all xs s1 = Some s'" by (auto split: if_splits option.splits)
  then have "runs (host host_drop) b s1"
    using runs_created [OF 2(3) s1(1), of z rc] by (simp add: created_def)
  with 2(1) s1 show ?case by auto
qed simp

definition ten_names :: "(ptr \<times> byte list) list" where
  "ten_names = map (\<lambda>i. (i, [word_of_nat (96 + i)])) [1..<11]"

lemma ten_arrays:
  obtains s where "runs (host host_drop) 0 s" "arrays s 11 = None" "intarrayMapFind (arrayMap s) [120] = 0"
    "count (arrayMap s) + 1 = int (rehashSize (arrayMap s))"
proof -
  have "case create_all ten_names (start empty_map) of None \<Rightarrow> False
    | Some s \<Rightarrow> arrays s 11 = None \<and> intarrayMapFind (arrayMap s) [120] = 0 \<and>
        count (arrayMap s) + 1 = int (rehashSize (arrayMap s))"
    by code_simp
  then show thesis
    using create_all_runs [OF _ runs_start, of ten_names] that by (auto split: option.splits)
qed

theorem create_nomem_dangles_witness:
  "\<exists>s s'. sqlite3_intarray_create (host host_drop) 11 False [120] s = Some (SQLITE_NOMEM, s') \<and>
    intarrayCreate True 3 2000 SQLITE_OK [120] s' = None"
proof -
  obtain s where s: "runs (host host_drop) 0 s" "arrays s 11 = None" "intarrayMapFind (arrayMap s) [120] = 0"
    "count (arrayMap s) + 1 = int (rehashSize (arrayMap s))"
    by (rule ten_arrays)
  from create_nomem_dangles [OF host_contract s(1) _ s(2-4), of 2000] show ?thesis by auto
qed

end
