(* ===== verification/JniWrapper.thy ===== *)
theory JniWrapper
  imports Prelude
begin

section \<open>The native methods of the wrapper\<close>

text \<open>
  The functions of \<open>native/sqlite3_wrap_manual.c\<close> that Java calls. A function returns its
  result code and the list of what it does, in order: acquiring and releasing strings and
  arrays of the Java heap, other calls of the JNI, calls of SQLite and of the allocator. What
  those calls answer is a parameter: \<open>env\<close> for the JNI, further arguments for SQLite.
  References and native addresses are numbers, \<open>NULL\<close> is 0.
\<close>

subsection \<open>Result codes of the wrapper\<close>

definition WRAPPER_INVALID_ARG_1 :: int where "WRAPPER_INVALID_ARG_1 = -11"
definition WRAPPER_INVALID_ARG_2 :: int where "WRAPPER_INVALID_ARG_2 = -12"
definition WRAPPER_INVALID_ARG_3 :: int where "WRAPPER_INVALID_ARG_3 = -13"
definition WRAPPER_INVALID_ARG_4 :: int where "WRAPPER_INVALID_ARG_4 = -14"
definition WRAPPER_INVALID_ARG_5 :: int where "WRAPPER_INVALID_ARG_5 = -15"
definition WRAPPER_INVALID_ARG_6 :: int where "WRAPPER_INVALID_ARG_6 = -16"
definition WRAPPER_CANNOT_TRANSFORM_STRING :: int where "WRAPPER_CANNOT_TRANSFORM_STRING = -20"
definition WRAPPER_CANNOT_ALLOCATE_STRING :: int where "WRAPPER_CANNOT_ALLOCATE_STRING = -21"
definition WRAPPER_OUT_OF_MEMORY :: int where "WRAPPER_OUT_OF_MEMORY = -22"
definition WRAPPER_WEIRD :: int where "WRAPPER_WEIRD = -99"
definition WRAPPER_WEIRD_2 :: int where "WRAPPER_WEIRD_2 = -199"

lemmas wrapper_codes =
  WRAPPER_INVALID_ARG_1_def WRAPPER_INVALID_ARG_2_def WRAPPER_INVALID_ARG_3_def
  WRAPPER_INVALID_ARG_4_def WRAPPER_INVALID_ARG_5_def WRAPPER_INVALID_ARG_6_def
  WRAPPER_CANNOT_TRANSFORM_STRING_def WRAPPER_CANNOT_ALLOCATE_STRING_def
  WRAPPER_OUT_OF_MEMORY_def WRAPPER_WEIRD_def WRAPPER_WEIRD_2_def

subsection \<open>Calls and answers\<close>

type_synonym jref = nat

datatype jobject = JNull | JStringUTF "byte list" | JString "u16 list" | JBytes "byte list" | JByteBuffer ptr int

datatype resource = UTFChars | StringCritical | ArrayCritical | ArrayElements

datatype jni_call =
    GetLength jref
  | NewObject jobject
  | SetObjectArrayElement jref nat jobject
  | SetLongArrayRegion jref "int list"
  | SetIntArrayRegion jref "int list"

datatype sqlite_call =
    Open_v2 "byte list" int
  | Close ptr
  | Exec ptr "byte list"
  | Table_column_metadata ptr "byte list option" "byte list" "byte list"
  | Prepare16_v2 ptr "u16 list" int
  | Prepare16_v3 ptr "u16 list" int u32
  | Bind_text16 ptr int "u16 list" int
  | Bind_zeroblob ptr int int
  | Bind_blob ptr int "byte list"
  | Column_text16 ptr int
  | Column_blob ptr int
  | Errcode ptr
  | Blob_open ptr "byte list option" "byte list" "byte list" int int
  | Blob_read ptr int int
  | Blob_write ptr int "byte list"
  | Step ptr
  | Column_int ptr int
  | Column_int64 ptr int
  | Progress_handler ptr int ptr
  | Intarray_register ptr
  | Intarray_create ptr "byte list"
  | Intarray_bind ptr int "int list" bool int int bool
  | Intarray_destroy ptr
  | Load_extension ptr "byte list option" "byte list option"

datatype event =
    Acquire resource jref bool
  | Release resource jref
  | Jni jni_call
  | Sqlite sqlite_call
  | Malloc ptr
  | Free ptr

record jni_env =
  utf_chars :: "jref \<Rightarrow> byte list option"
  utf16_chars :: "jref \<Rightarrow> u16 list option"
  bytes_critical :: "jref \<Rightarrow> byte list option"
  longs_critical :: "jref \<Rightarrow> int list option"
  elements :: "jref \<Rightarrow> int list option"
  string_length :: "jref \<Rightarrow> int"
  array_length :: "jref \<Rightarrow> int"
  new_ok :: "jobject \<Rightarrow> bool"

text \<open>
  Reading a range of a native array that is in memory: \<open>None\<close> when the range leaves it,
  which is undefined in C.
\<close>

definition read_range :: "'a list \<Rightarrow> int \<Rightarrow> int \<Rightarrow> 'a list option" where
  "read_range xs offset len =
     (if 0 \<le> offset \<and> 0 \<le> len \<and> offset + len \<le> int (length xs)
      then Some (take (nat len) (drop (nat offset) xs)) else None)"

definition set_result :: "jref \<Rightarrow> ptr \<Rightarrow> event list" where
  "set_result jresult p = (if p \<noteq> 0 then [Jni (SetLongArrayRegion jresult [int p])] else [])"

definition release_if :: "resource \<Rightarrow> jref \<Rightarrow> 'a option \<Rightarrow> event list" where
  "release_if k r x = (if x \<noteq> None then [Release k r] else [])"

definition acquire :: "resource \<Rightarrow> jref \<Rightarrow> 'a option \<Rightarrow> event list" where
  "acquire k r x = [Acquire k r (x \<noteq> None)]"

text \<open>Storing a message in an array for the caller, if the string can be made.\<close>

definition set_error :: "jni_env \<Rightarrow> jref \<Rightarrow> byte list \<Rightarrow> event list" where
  "set_error env joutError msg =
     Jni (NewObject (JStringUTF msg)) #
     (if new_ok env (JStringUTF msg) then [Jni (SetObjectArrayElement joutError 0 (JStringUTF msg))] else [])"

subsection \<open>Connections and statements\<close>

text \<open>\<open>(rc, db, errmsg)\<close> is what \<open>sqlite3_open_v2\<close> and \<open>sqlite3_errmsg\<close> answer.\<close>

definition sqlite3_open_v2 ::
  "jni_env \<Rightarrow> int \<times> ptr \<times> byte list option \<Rightarrow> jref \<Rightarrow> jref \<Rightarrow> int \<Rightarrow> jref \<Rightarrow> int \<times> event list" where
  "sqlite3_open_v2 env answer jfilename jresult jflags joutError =
     (if jfilename = 0 then (WRAPPER_INVALID_ARG_1, [])
      else if jresult = 0 then (WRAPPER_INVALID_ARG_2, [])
      else case utf_chars env jfilename of
        None \<Rightarrow> (WRAPPER_CANNOT_TRANSFORM_STRING, [Acquire UTFChars jfilename False])
      | Some filename \<Rightarrow>
          (case answer of (rc, db, errmsg) \<Rightarrow>
             (rc,
              [Acquire UTFChars jfilename True, Sqlite (Open_v2 filename jflags)] @
              (if rc \<noteq> SQLITE_OK then
                 (case errmsg of None \<Rightarrow> [] | Some msg \<Rightarrow> set_error env joutError msg) @
                 (if db \<noteq> 0 then [Sqlite (Close db)] else [])
               else set_result jresult db) @
              [Release UTFChars jfilename])))"

text \<open>\<open>(rc, msg)\<close> is the result of \<open>sqlite3_exec\<close> and the message it allocated, with its address.\<close>

definition sqlite3_exec :: "jni_env \<Rightarrow> int \<times> (byte list \<times> ptr) option \<Rightarrow> ptr \<Rightarrow> jref \<Rightarrow> jref \<Rightarrow> int \<times> event list" where
  "sqlite3_exec env answer jdb jsql joutError =
     (if jdb = 0 then (WRAPPER_INVALID_ARG_1, [])
      else if jsql = 0 then (WRAPPER_INVALID_ARG_2, [])
      else case utf_chars env jsql of
        None \<Rightarrow> (WRAPPER_CANNOT_TRANSFORM_STRING, [Acquire UTFChars jsql False])
      | Some sql \<Rightarrow>
          (case answer of (rc, msg) \<Rightarrow>
             (rc,
              [Acquire UTFChars jsql True, Sqlite (Exec jdb sql), Release UTFChars jsql] @
              (if joutError \<noteq> 0 then
                 (case msg of None \<Rightarrow> []
                  | Some (m, p) \<Rightarrow>
                      Jni (GetLength joutError) #
                      (if array_length env joutError = 1 then set_error env joutError m else []) @
                      [Free p])
               else []))))"

definition optional_utf :: "jni_env \<Rightarrow> jref \<Rightarrow> byte list option" where
  "optional_utf env r = (if r \<noteq> 0 then utf_chars env r else None)"

definition acquire_optional :: "jni_env \<Rightarrow> jref \<Rightarrow> event list" where
  "acquire_optional env r = (if r \<noteq> 0 then acquire UTFChars r (utf_chars env r) else [])"

text \<open>
  \<open>answer\<close> is the result code, the data type and collation (\<open>None\<close> when left \<open>NULL\<close>) and
  the three flags of \<open>sqlite3_table_column_metadata\<close>; \<open>errcode\<close> that of \<open>sqlite3_errcode\<close>.
\<close>

definition table_column_metadata ::
  "jni_env \<Rightarrow> int \<times> byte list option \<times> byte list option \<times> int list \<Rightarrow> int \<Rightarrow>
   ptr \<Rightarrow> jref \<Rightarrow> jref \<Rightarrow> jref \<Rightarrow> jref \<Rightarrow> jref \<Rightarrow> int \<times> event list" where
  "table_column_metadata env answer errcode jdb jDbName jTableName jColumnName jOut12 jOut345 =
     (if jdb = 0 then (WRAPPER_INVALID_ARG_1, [])
      else if jTableName = 0 then (WRAPPER_INVALID_ARG_3, [])
      else if jColumnName = 0 then (WRAPPER_INVALID_ARG_4, [])
      else if jOut12 = 0 then (WRAPPER_INVALID_ARG_5, [])
      else if jOut345 = 0 then (WRAPPER_INVALID_ARG_6, [])
      else
        let dbName = optional_utf env jDbName;
            tableName = utf_chars env jTableName; columnName = utf_chars env jColumnName;
            ok = (tableName \<noteq> None \<and> columnName \<noteq> None \<and> (dbName \<noteq> None \<or> jDbName = 0));
            (rc, dataType, collSeq, flags) =
              (if ok then answer else (WRAPPER_CANNOT_TRANSFORM_STRING, None, None, [0, 0, 0]));
            trace =
              acquire_optional env jDbName @ acquire UTFChars jTableName tableName @
              acquire UTFChars jColumnName columnName @
              (if ok then [Sqlite (Table_column_metadata jdb dbName (the tableName) (the columnName))] else []) @
              release_if UTFChars jDbName dbName @ release_if UTFChars jTableName tableName @
              release_if UTFChars jColumnName columnName
        in case (dataType, collSeq) of
             (Some ty, Some cs) \<Rightarrow>
               if \<not> new_ok env (JStringUTF ty)
               then (WRAPPER_CANNOT_ALLOCATE_STRING, trace @ [Jni (NewObject (JStringUTF ty))])
               else if \<not> new_ok env (JStringUTF cs)
               then (WRAPPER_CANNOT_ALLOCATE_STRING,
                     trace @ [Jni (NewObject (JStringUTF ty)), Jni (SetObjectArrayElement jOut12 0 (JStringUTF ty)),
                       Jni (NewObject (JStringUTF cs))])
               else (rc,
                     trace @ [Jni (NewObject (JStringUTF ty)), Jni (SetObjectArrayElement jOut12 0 (JStringUTF ty)),
                       Jni (NewObject (JStringUTF cs)), Jni (SetObjectArrayElement jOut12 1 (JStringUTF cs)),
                       Jni (SetIntArrayRegion jOut345 flags)])
           | _ \<Rightarrow>
               (if errcode = SQLITE_NOMEM then errcode else rc, trace @ [Sqlite (Errcode jdb)]))"

text \<open>The byte length of a string of 16-bit units, a \<open>size_t\<close> product stored in an \<open>int\<close>.\<close>

definition utf16_bytes :: "jni_env \<Rightarrow> jref \<Rightarrow> int" where
  "utf16_bytes env r = c_int32 (string_length env r * 2)"

text \<open>The common text of the two ways to prepare a statement; \<open>prepare\<close> is the call of SQLite.\<close>

definition prepare16 ::
  "jni_env \<Rightarrow> int \<times> ptr \<Rightarrow> (u16 list \<Rightarrow> int \<Rightarrow> sqlite_call) \<Rightarrow> ptr \<Rightarrow> jref \<Rightarrow> jref \<Rightarrow> int \<times> event list" where
  "prepare16 env answer prepare jdb jsql jresult =
     (if jdb = 0 then (WRAPPER_INVALID_ARG_1, [])
      else if jsql = 0 then (WRAPPER_INVALID_ARG_2, [])
      else if jresult = 0 then (WRAPPER_INVALID_ARG_3, [])
      else case utf16_chars env jsql of
        None \<Rightarrow> (WRAPPER_CANNOT_TRANSFORM_STRING, [Jni (GetLength jsql), Acquire StringCritical jsql False])
      | Some sql \<Rightarrow>
          (case answer of (rc, stmt) \<Rightarrow>
             (rc,
              [Jni (GetLength jsql), Acquire StringCritical jsql True,
               Sqlite (prepare sql (utf16_bytes env jsql)), Release StringCritical jsql] @
              set_result jresult stmt)))"

definition sqlite3_prepare_v2 :: "jni_env \<Rightarrow> int \<times> ptr \<Rightarrow> ptr \<Rightarrow> jref \<Rightarrow> jref \<Rightarrow> int \<times> event list" where
  "sqlite3_prepare_v2 env answer jdb jsql jresult = prepare16 env answer (Prepare16_v2 jdb) jdb jsql jresult"

definition sqlite3_prepare_v3 :: "jni_env \<Rightarrow> int \<times> ptr \<Rightarrow> ptr \<Rightarrow> jref \<Rightarrow> int \<Rightarrow> jref \<Rightarrow> int \<times> event list" where
  "sqlite3_prepare_v3 env answer jdb jsql jprepFlags jresult =
     prepare16 env answer (\<lambda>sql len. Prepare16_v3 jdb sql len (word_of_int jprepFlags)) jdb jsql jresult"

subsection \<open>Binding values and reading columns\<close>

definition bind_text :: "jni_env \<Rightarrow> int \<Rightarrow> ptr \<Rightarrow> int \<Rightarrow> jref \<Rightarrow> int \<times> event list" where
  "bind_text env rc stmt jindex jvalue =
     (if stmt = 0 then (WRAPPER_INVALID_ARG_1, [])
      else if jvalue = 0 then (WRAPPER_INVALID_ARG_3, [])
      else
        let len = utf16_bytes env jvalue
        in if len > 0 then
             (case utf16_chars env jvalue of
                None \<Rightarrow> (WRAPPER_CANNOT_TRANSFORM_STRING, [Jni (GetLength jvalue), Acquire StringCritical jvalue False])
              | Some value \<Rightarrow>
                  (rc, [Jni (GetLength jvalue), Acquire StringCritical jvalue True,
                        Sqlite (Bind_text16 stmt jindex value len), Release StringCritical jvalue]))
           else (rc, [Jni (GetLength jvalue), Sqlite (Bind_text16 stmt jindex [] len)]))"

text \<open>
  The test of an offset and a length against an array, shared by the functions on blobs. The
  sum is computed in C ints and wraps.
\<close>

definition range_check :: "int \<Rightarrow> int \<Rightarrow> int \<Rightarrow> int option" where
  "range_check offset len avail =
     (if offset > avail then Some WRAPPER_INVALID_ARG_5
      else if c_int32 (offset + len) > avail then Some WRAPPER_INVALID_ARG_6
      else None)"

text \<open>
  \<open>None\<close> as a whole result: the bytes handed to SQLite are not all inside the array.
\<close>

definition bind_blob ::
  "jni_env \<Rightarrow> int \<Rightarrow> ptr \<Rightarrow> int \<Rightarrow> jref \<Rightarrow> int \<Rightarrow> int \<Rightarrow> (int \<times> event list) option" where
  "bind_blob env rc stmt jindex jvalue joffset jlength =
     (if stmt = 0 then Some (WRAPPER_INVALID_ARG_1, [])
      else if jvalue = 0 then Some (WRAPPER_INVALID_ARG_2, [])
      else if joffset < 0 then Some (WRAPPER_INVALID_ARG_3, [])
      else if jlength < 0 then Some (WRAPPER_INVALID_ARG_4, [])
      else case range_check joffset jlength (array_length env jvalue) of
        Some e \<Rightarrow> Some (e, [Jni (GetLength jvalue)])
      | None \<Rightarrow>
          if jlength = 0 then Some (rc, [Jni (GetLength jvalue), Sqlite (Bind_zeroblob stmt jindex 0)])
          else (case bytes_critical env jvalue of
              None \<Rightarrow> Some (WRAPPER_CANNOT_TRANSFORM_STRING,
                [Jni (GetLength jvalue), Acquire ArrayCritical jvalue False])
            | Some value \<Rightarrow>
                (case read_range value joffset jlength of
                   None \<Rightarrow> None
                 | Some bytes \<Rightarrow>
                     Some (rc, [Jni (GetLength jvalue), Acquire ArrayCritical jvalue True,
                       Sqlite (Bind_blob stmt jindex bytes), Release ArrayCritical jvalue]))))"

text \<open>
  What the three functions on column values do when SQLite answers \<open>NULL\<close>: \<open>db\<close> is the
  connection of the statement and \<open>err\<close> its error code. \<open>None\<close> means to go on with a null
  object.
\<close>

definition null_column :: "ptr \<Rightarrow> int \<Rightarrow> (int \<times> event list) option" where
  "null_column db err =
     (if db = 0 then Some (WRAPPER_WEIRD, [])
      else if err = SQLITE_NOMEM then Some (err, [Sqlite (Errcode db)]) else None)"

definition store_object :: "jref \<Rightarrow> event list \<Rightarrow> jobject \<Rightarrow> int \<times> event list" where
  "store_object jout trace x = (SQLITE_OK, trace @ [Jni (SetObjectArrayElement jout 0 x)])"

text \<open>\<open>text\<close> is the value with its length in bytes, if it is not \<open>NULL\<close>.\<close>

definition column_text ::
  "jni_env \<Rightarrow> (u16 list \<times> int) option \<Rightarrow> ptr \<Rightarrow> int \<Rightarrow> ptr \<Rightarrow> int \<Rightarrow> jref \<Rightarrow> int \<times> event list" where
  "column_text env text db err stmt jcolumn joutValue =
     (if stmt = 0 then (WRAPPER_INVALID_ARG_1, [])
      else if joutValue = 0 then (WRAPPER_INVALID_ARG_3, [])
      else
        let trace = [Sqlite (Column_text16 stmt jcolumn)]
        in case text of
             None \<Rightarrow>
               (case null_column db err of
                  Some (rc, es) \<Rightarrow> (rc, trace @ es)
                | None \<Rightarrow> store_object joutValue (trace @ [Sqlite (Errcode db)]) JNull)
           | Some (value, len) \<Rightarrow>
               if len < 0 then (WRAPPER_WEIRD_2, trace)
               else
                 let x = JString (take (nat len div 2) value)
                 in if \<not> new_ok env x then (WRAPPER_CANNOT_ALLOCATE_STRING, trace @ [Jni (NewObject x)])
                    else store_object joutValue (trace @ [Jni (NewObject x)]) x)"

text \<open>
  \<open>result\<close> is the reference of the new byte array and \<open>critical\<close> whether its content
  could be reached.
\<close>

definition column_blob ::
  "jni_env \<Rightarrow> (byte list \<times> int) option \<Rightarrow> ptr \<Rightarrow> int \<Rightarrow> jref \<Rightarrow> bool \<Rightarrow> ptr \<Rightarrow> int \<Rightarrow> jref \<Rightarrow> int \<times> event list" where
  "column_blob env blob db err result critical stmt jcolumn joutValue =
     (if stmt = 0 then (WRAPPER_INVALID_ARG_1, [])
      else if joutValue = 0 then (WRAPPER_INVALID_ARG_3, [])
      else
        let trace = [Sqlite (Column_blob stmt jcolumn)]
        in case blob of
             None \<Rightarrow>
               (case null_column db err of
                  Some (rc, es) \<Rightarrow> (rc, trace @ es)
                | None \<Rightarrow> store_object joutValue (trace @ [Sqlite (Errcode db)]) JNull)
           | Some (value, len) \<Rightarrow>
               if len < 0 then (WRAPPER_WEIRD_2, trace)
               else
                 let x = JBytes (take (nat len) value); trace = trace @ [Jni (NewObject x)]
                 in if result = 0 then (WRAPPER_CANNOT_ALLOCATE_STRING, trace)
                    else if \<not> critical
                    then (WRAPPER_CANNOT_ALLOCATE_STRING, trace @ [Acquire ArrayCritical result False])
                    else store_object joutValue
                      (trace @ [Acquire ArrayCritical result True, Release ArrayCritical result]) x)"

definition column_buffer ::
  "jni_env \<Rightarrow> (ptr \<times> int) option \<Rightarrow> ptr \<Rightarrow> int \<Rightarrow> ptr \<Rightarrow> int \<Rightarrow> jref \<Rightarrow> int \<times> event list" where
  "column_buffer env value db err stmt jcolumn joutBuffer =
     (if stmt = 0 then (WRAPPER_INVALID_ARG_1, [])
      else if joutBuffer = 0 then (WRAPPER_INVALID_ARG_3, [])
      else
        let trace = [Sqlite (Column_blob stmt jcolumn)]
        in case value of
             None \<Rightarrow>
               (case null_column db err of
                  Some (rc, es) \<Rightarrow> (rc, trace @ es)
                | None \<Rightarrow> store_object joutBuffer (trace @ [Sqlite (Errcode db)]) JNull)
           | Some (p, len) \<Rightarrow>
               if len < 0 then (WRAPPER_WEIRD_2, trace)
               else
                 let x = JByteBuffer p len
                 in if \<not> new_ok env x then (WRAPPER_CANNOT_ALLOCATE_STRING, trace @ [Jni (NewObject x)])
                    else store_object joutBuffer (trace @ [Jni (NewObject x)]) x)"

subsection \<open>Incremental blobs\<close>

definition blob_open ::
  "jni_env \<Rightarrow> int \<times> ptr \<Rightarrow> ptr \<Rightarrow> jref \<Rightarrow> jref \<Rightarrow> jref \<Rightarrow> int \<Rightarrow> bool \<Rightarrow> jref \<Rightarrow> int \<times> event list" where
  "blob_open env answer jdb jdbname jtable jcolumn jrowid jwriteAccess jresult =
     (if jdb = 0 then (WRAPPER_INVALID_ARG_1, [])
      else if jtable = 0 then (WRAPPER_INVALID_ARG_3, [])
      else if jcolumn = 0 then (WRAPPER_INVALID_ARG_4, [])
      else if jresult = 0 then (WRAPPER_INVALID_ARG_5, [])
      else
        let dbname = optional_utf env jdbname; tbl = utf_chars env jtable; col = utf_chars env jcolumn;
            ok = (tbl \<noteq> None \<and> col \<noteq> None \<and> (dbname \<noteq> None \<or> jdbname = 0))
        in (if ok then fst answer else WRAPPER_CANNOT_TRANSFORM_STRING,
            acquire_optional env jdbname @ acquire UTFChars jtable tbl @ acquire UTFChars jcolumn col @
            (if ok then
               Sqlite (Blob_open jdb dbname (the tbl) (the col) jrowid (if jwriteAccess then 1 else 0)) #
               set_result jresult (snd answer)
             else []) @
            release_if UTFChars jdbname dbname @ release_if UTFChars jtable tbl @
            release_if UTFChars jcolumn col))"

text \<open>
  \<open>blob_read\<close> lets SQLite write \<open>jlength\<close> bytes into the array, \<open>blob_write\<close> lets it read
  them; \<open>None\<close> when they are not all inside the array.
\<close>

definition blob_transfer ::
  "jni_env \<Rightarrow> int \<Rightarrow> (byte list \<Rightarrow> sqlite_call) \<Rightarrow> ptr \<Rightarrow> jref \<Rightarrow> int \<Rightarrow> int \<Rightarrow> (int \<times> event list) option" where
  "blob_transfer env rc transfer jblob jbuffer jbufferOffset jlength =
     (if jblob = 0 then Some (WRAPPER_INVALID_ARG_1, [])
      else if jbuffer = 0 then Some (WRAPPER_INVALID_ARG_2, [])
      else if jbufferOffset < 0 then Some (WRAPPER_INVALID_ARG_3, [])
      else if jlength < 0 then Some (WRAPPER_INVALID_ARG_4, [])
      else if jlength = 0 then Some (SQLITE_OK, [])
      else case range_check jbufferOffset jlength (array_length env jbuffer) of
        Some e \<Rightarrow> Some (e, [Jni (GetLength jbuffer)])
      | None \<Rightarrow>
          (case bytes_critical env jbuffer of
             None \<Rightarrow> Some (WRAPPER_CANNOT_TRANSFORM_STRING,
               [Jni (GetLength jbuffer), Acquire ArrayCritical jbuffer False])
           | Some buffer \<Rightarrow>
               (case read_range buffer jbufferOffset jlength of
                  None \<Rightarrow> None
                | Some bytes \<Rightarrow>
                    Some (rc, [Jni (GetLength jbuffer), Acquire ArrayCritical jbuffer True,
                      Sqlite (transfer bytes), Release ArrayCritical jbuffer]))))"

definition blob_read ::
  "jni_env \<Rightarrow> int \<Rightarrow> ptr \<Rightarrow> int \<Rightarrow> jref \<Rightarrow> int \<Rightarrow> int \<Rightarrow> (int \<times> event list) option" where
  "blob_read env rc jblob jblobOffset jbuffer jbufferOffset jlength =
     blob_transfer env rc (\<lambda>_. Blob_read jblob jlength jblobOffset) jblob jbuffer jbufferOffset jlength"

definition blob_write ::
  "jni_env \<Rightarrow> int \<Rightarrow> ptr \<Rightarrow> int \<Rightarrow> jref \<Rightarrow> int \<Rightarrow> int \<Rightarrow> (int \<times> event list) option" where
  "blob_write env rc jblob jblobOffset jbuffer jbufferOffset jlength =
     blob_transfer env rc (Blob_write jblob jblobOffset) jblob jbuffer jbufferOffset jlength"

subsection \<open>Loading a column of many rows\<close>

text \<open>
  A statement is a parameter: \<open>step\<close> answers a code and the next state, \<open>col\<close> reads the
  column of the current row. The store into the buffer is \<open>None\<close> outside of it.
\<close>

definition array_set :: "int list \<Rightarrow> int \<Rightarrow> int \<Rightarrow> int list option" where
  "array_set xs i v = (if 0 \<le> i \<and> i < int (length xs) then Some (xs[nat i := v]) else None)"

function load_loop ::
  "('s \<Rightarrow> int \<times> 's) \<Rightarrow> ('s \<Rightarrow> int) \<Rightarrow> int \<Rightarrow> int list \<Rightarrow> int \<Rightarrow> int \<Rightarrow> 's \<Rightarrow> (int \<times> int list \<times> int \<times> 's) option" where
  "load_loop step col cnt buf p loaded st =
     (case step st of
        (rc, st) \<Rightarrow>
          if rc = SQLITE_ROW then
            (case array_set buf p (col st) of
               None \<Rightarrow> None
             | Some buf \<Rightarrow>
                 if loaded + 1 \<ge> cnt then Some (rc, buf, loaded + 1, st)
                 else load_loop step col cnt buf (c_int32 (p + 1)) (loaded + 1) st)
          else Some (rc, buf, loaded, st))"
  by pat_completeness auto
termination
  by (relation "measure (\<lambda>(step, col, cnt, buf, p, loaded, st). nat (cnt - loaded))") auto

declare load_loop.simps [simp del]

text \<open>The result holds the new content of the Java array, when it is written back.\<close>

definition wrapper_load ::
  "jni_env \<Rightarrow> ('s \<Rightarrow> int \<times> 's) \<Rightarrow> ('s \<Rightarrow> int) \<Rightarrow> 's \<Rightarrow> ptr \<Rightarrow> jref \<Rightarrow> int \<Rightarrow> int \<Rightarrow> jref \<Rightarrow>
   (int \<times> event list \<times> int list option) option" where
  "wrapper_load env step col st stmt ppBuf offset cnt ppCount =
     (if stmt = 0 then Some (WRAPPER_INVALID_ARG_1, [], None)
      else if ppBuf = 0 then Some (WRAPPER_INVALID_ARG_2, [], None)
      else if ppCount = 0 then Some (WRAPPER_INVALID_ARG_3, [], None)
      else if cnt \<le> 0 then Some (WRAPPER_INVALID_ARG_4, [], None)
      else if offset < 0 \<or> c_int32 (offset + cnt) > array_length env ppBuf
      then Some (WRAPPER_INVALID_ARG_4, [Jni (GetLength ppBuf)], None)
      else case elements env ppBuf of
        None \<Rightarrow> Some (WRAPPER_CANNOT_ALLOCATE_STRING, [Jni (GetLength ppBuf), Acquire ArrayElements ppBuf False], None)
      | Some buf \<Rightarrow>
          (case load_loop step col cnt buf offset 0 st of
             None \<Rightarrow> None
           | Some (rc, buf, loaded, st) \<Rightarrow>
               Some (rc,
                 [Jni (GetLength ppBuf), Acquire ArrayElements ppBuf True, Sqlite (Step stmt),
                  Release ArrayElements ppBuf, Jni (SetIntArrayRegion ppCount [loaded])],
                 Some buf)))"

text \<open>\<open>sqlite3_column_int\<close> is the low half of \<open>sqlite3_column_int64\<close>.\<close>

definition wrapper_load_ints ::
  "jni_env \<Rightarrow> ('s \<Rightarrow> int \<times> 's) \<Rightarrow> ('s \<Rightarrow> int \<Rightarrow> int) \<Rightarrow> 's \<Rightarrow> ptr \<Rightarrow> int \<Rightarrow> jref \<Rightarrow> int \<Rightarrow> int \<Rightarrow> jref \<Rightarrow>
   (int \<times> event list \<times> int list option) option" where
  "wrapper_load_ints env step column_int st stmt column ppBuf offset cnt ppCount =
     wrapper_load env step (\<lambda>s. column_int s column) st stmt ppBuf offset cnt ppCount"

definition wrapper_load_longs ::
  "jni_env \<Rightarrow> ('s \<Rightarrow> int \<times> 's) \<Rightarrow> ('s \<Rightarrow> int \<Rightarrow> int) \<Rightarrow> 's \<Rightarrow> ptr \<Rightarrow> int \<Rightarrow> jref \<Rightarrow> int \<Rightarrow> int \<Rightarrow> jref \<Rightarrow>
   (int \<times> event list \<times> int list option) option" where
  "wrapper_load_longs env step column_int64 st stmt column ppBuf offset cnt ppCount =
     wrapper_load env step (\<lambda>s. column_int64 s column) st stmt ppBuf offset cnt ppCount"

subsection \<open>Intarrays and extensions\<close>

definition intarray_register :: "int \<times> ptr \<Rightarrow> ptr \<Rightarrow> jref \<Rightarrow> int \<times> event list" where
  "intarray_register answer db ppBuf =
     (if db = 0 then (WRAPPER_INVALID_ARG_1, [])
      else if ppBuf = 0 then (WRAPPER_INVALID_ARG_3, [])
      else (fst answer, Sqlite (Intarray_register db) # set_result ppBuf (snd answer)))"

text \<open>\<open>namec\<close> is the address of the copy of the name, which \<open>sqlite3_intarray_create\<close> takes over.\<close>

definition intarray_create :: "jni_env \<Rightarrow> int \<times> ptr \<Rightarrow> ptr \<Rightarrow> ptr \<Rightarrow> jref \<Rightarrow> jref \<Rightarrow> int \<times> event list" where
  "intarray_create env answer namec m jname ppBuf =
     (if m = 0 then (WRAPPER_INVALID_ARG_1, [])
      else if ppBuf = 0 then (WRAPPER_INVALID_ARG_3, [])
      else case utf_chars env jname of
        None \<Rightarrow> (WRAPPER_CANNOT_TRANSFORM_STRING, [Acquire UTFChars jname False])
      | Some name \<Rightarrow>
          let trace = [Acquire UTFChars jname True, Malloc namec, Release UTFChars jname]
          in if namec = 0 then (SQLITE_NOMEM, trace)
             else (fst answer, trace @ Sqlite (Intarray_create m name) # set_result ppBuf (snd answer)))"

text \<open>
  \<open>copy\<close> is the address of the copy of the elements; \<open>True\<close> in the call that binds them says
  that SQLite is to free it.
\<close>

definition intarray_bind ::
  "jni_env \<Rightarrow> int \<Rightarrow> ptr \<Rightarrow> ptr \<Rightarrow> jref \<Rightarrow> int \<Rightarrow> int \<Rightarrow> int \<Rightarrow> int \<Rightarrow> (int \<times> event list) option" where
  "intarray_bind env rc copy array jbuffer joffset jlength jordered junique =
     (if array = 0 then Some (WRAPPER_INVALID_ARG_1, [])
      else if jbuffer = 0 then Some (WRAPPER_INVALID_ARG_2, [])
      else
        let len = array_length env jbuffer; trace = [Jni (GetLength jbuffer)]
        in if len < 0 then Some (WRAPPER_INVALID_ARG_3, trace)
           else if joffset < 0 \<or> joffset > len then Some (WRAPPER_INVALID_ARG_4, trace)
           else if jlength < 0 \<or> c_int32 (joffset + jlength) > len then Some (WRAPPER_INVALID_ARG_5, trace)
           else if jlength > 0 then
             if copy = 0 then Some (WRAPPER_CANNOT_ALLOCATE_STRING, trace @ [Malloc copy])
             else (case longs_critical env jbuffer of
                 None \<Rightarrow> Some (WRAPPER_CANNOT_ALLOCATE_STRING,
                   trace @ [Malloc copy, Acquire ArrayCritical jbuffer False])
               | Some buf \<Rightarrow>
                   (case read_range buf joffset jlength of
                      None \<Rightarrow> None
                    | Some xs \<Rightarrow>
                        Some (rc, trace @ [Malloc copy, Acquire ArrayCritical jbuffer True,
                          Release ArrayCritical jbuffer,
                          Sqlite (Intarray_bind array jlength xs True jordered junique True)])))
           else Some (rc, trace @ [Sqlite (Intarray_bind array 0 [] False 0 0 True)]))"

definition intarray_unbind :: "int \<Rightarrow> ptr \<Rightarrow> int \<times> event list" where
  "intarray_unbind rc array =
     (if array = 0 then (WRAPPER_INVALID_ARG_1, [])
      else (rc, [Sqlite (Intarray_bind array 0 [] False 0 0 False)]))"

definition intarray_destroy :: "int \<Rightarrow> ptr \<Rightarrow> int \<times> event list" where
  "intarray_destroy rc array =
     (if array = 0 then (WRAPPER_INVALID_ARG_1, []) else (rc, [Sqlite (Intarray_destroy array)]))"

text \<open>\<open>answer\<close> is the code of \<open>sqlite3_load_extension\<close> and its message with its address.\<close>

definition load_extension ::
  "jni_env \<Rightarrow> int \<times> (byte list \<times> ptr) option \<Rightarrow> ptr \<Rightarrow> jref \<Rightarrow> jref \<Rightarrow> jref \<Rightarrow> int \<times> event list" where
  "load_extension env answer db jfile jproc ppError =
     (let file = optional_utf env jfile; proc = optional_utf env jproc
      in if jfile \<noteq> 0 \<and> file = None then (WRAPPER_CANNOT_TRANSFORM_STRING, acquire_optional env jfile)
         else if jproc \<noteq> 0 \<and> proc = None
         then (WRAPPER_CANNOT_TRANSFORM_STRING,
               acquire_optional env jfile @ acquire_optional env jproc @ release_if UTFChars jfile file)
         else
           (fst answer,
            acquire_optional env jfile @ acquire_optional env jproc @
            [Sqlite (Load_extension db file proc)] @
            (case snd answer of None \<Rightarrow> []
             | Some (msg, p) \<Rightarrow> set_error env ppError msg @ [Free p]) @
            release_if UTFChars jproc proc @ release_if UTFChars jfile file))"

definition win32_set_directory :: "int \<Rightarrow> jref \<Rightarrow> int" where
  "win32_set_directory jtype zValue = SQLITE_ERROR"

subsection \<open>The discipline of the JNI\<close>

text \<open>
  A trace is in order when it releases only what it holds, holds nothing at the end, and
  calls no other function of the JNI while a string or an array is held critically.
\<close>

fun critical :: "resource \<Rightarrow> bool" where
  "critical StringCritical \<longleftrightarrow> True"
| "critical ArrayCritical \<longleftrightarrow> True"
| "critical _ \<longleftrightarrow> False"

definition in_critical :: "(resource \<times> jref) list \<Rightarrow> bool" where
  "in_critical held \<longleftrightarrow> (\<exists>(k, r) \<in> set held. critical k)"

fun jni_run :: "(resource \<times> jref) list \<Rightarrow> event list \<Rightarrow> (resource \<times> jref) list option" where
  "jni_run held [] = Some held"
| "jni_run held (Acquire k r ok # es) =
     (if in_critical held \<and> \<not> critical k then None else jni_run (if ok then (k, r) # held else held) es)"
| "jni_run held (Release k r # es) =
     (if (k, r) \<notin> set held \<or> in_critical held \<and> \<not> critical k then None
      else jni_run (remove1 (k, r) held) es)"
| "jni_run held (Jni c # es) = (if in_critical held then None else jni_run held es)"
| "jni_run held (_ # es) = jni_run held es"

definition jni_ok :: "event list \<Rightarrow> bool" where
  "jni_ok es \<longleftrightarrow> jni_run [] es = Some []"

lemma in_critical_simps [simp]:
  "\<not> in_critical []" "in_critical ((k, r) # held) \<longleftrightarrow> critical k \<or> in_critical held"
  by (auto simp: in_critical_def)

lemma jni_run_append:
  "jni_run held (es @ fs) = (case jni_run held es of None \<Rightarrow> None | Some held \<Rightarrow> jni_run held fs)"
  by (induction held es rule: jni_run.induct) auto

lemma jni_run_set_result [simp]: "\<not> in_critical held \<Longrightarrow> jni_run held (set_result r p) = Some held"
  by (simp add: set_result_def)

lemma jni_run_set_error [simp]: "\<not> in_critical held \<Longrightarrow> jni_run held (set_error env r m) = Some held"
  by (simp add: set_error_def)

lemma jni_run_acquire [simp]:
  "\<not> in_critical held \<Longrightarrow> jni_run held (acquire k r x) = Some (if x \<noteq> None then (k, r) # held else held)"
  by (simp add: acquire_def)

lemma jni_run_acquire_optional [simp]:
  "\<not> in_critical held \<Longrightarrow> jni_run held (acquire_optional env r) =
    Some (if optional_utf env r \<noteq> None then (UTFChars, r) # held else held)"
  by (simp add: acquire_optional_def optional_utf_def)

lemmas [jni_simps] = jni_ok_def jni_run_append Let_def

subsection \<open>Every wrapper keeps the discipline\<close>

lemma open_v2_ok: "jni_ok (snd (sqlite3_open_v2 env ans f r fl e))"
  by (auto simp: sqlite3_open_v2_def jni_simps split: option.splits prod.splits)

lemma exec_ok: "jni_ok (snd (sqlite3_exec env ans db q e))"
  by (auto simp: sqlite3_exec_def jni_simps split: option.splits prod.splits)

lemma release_utf:
  "jni_run held (release_if UTFChars r x) =
    (if x \<noteq> None then if (UTFChars, r) \<in> set held \<and> \<not> in_critical held then Some (remove1 (UTFChars, r) held) else None
     else Some held)"
  by (simp add: release_if_def)

lemma metadata_ok: "jni_ok (snd (table_column_metadata env ans ec db d t c o12 o345))"
  by (auto simp: table_column_metadata_def jni_simps release_utf split: option.splits prod.splits if_splits)

lemma prepare_ok: "jni_ok (snd (prepare16 env ans p db q r))"
  by (auto simp: prepare16_def jni_simps split: option.splits prod.splits)

lemma bind_text_ok: "jni_ok (snd (bind_text env rc st i v))"
  by (auto simp: bind_text_def jni_simps split: option.splits)

lemma bind_blob_ok: "bind_blob env rc st i v off len = Some (rc', es) \<Longrightarrow> jni_ok es"
  by (auto simp: bind_blob_def jni_simps split: option.splits if_splits)

lemma null_column_ok: "null_column db err = Some (rc, es) \<Longrightarrow> jni_run held es = Some held"
  by (auto simp: null_column_def split: if_splits)

lemma column_text_ok: "jni_ok (snd (column_text env t db err st c out))"
  by (auto simp: column_text_def store_object_def jni_simps null_column_ok split: option.splits)

lemma column_blob_ok: "jni_ok (snd (column_blob env b db err res cr st c out))"
  by (auto simp: column_blob_def store_object_def jni_simps null_column_ok split: option.splits)

lemma column_buffer_ok: "jni_ok (snd (column_buffer env v db err st c out))"
  by (auto simp: column_buffer_def store_object_def jni_simps null_column_ok split: option.splits)

lemma blob_open_ok: "jni_ok (snd (blob_open env ans db d t c row w r))"
  by (auto simp: blob_open_def jni_simps release_utf split: option.splits if_splits)

lemma blob_transfer_ok: "blob_transfer env rc tr b buf off len = Some (rc', es) \<Longrightarrow> jni_ok es"
  by (auto simp: blob_transfer_def jni_simps split: option.splits if_splits)

lemma wrapper_load_ok: "wrapper_load env step col st stmt b off cnt c = Some (rc, es, out) \<Longrightarrow> jni_ok es"
  by (auto simp: wrapper_load_def jni_simps split: option.splits if_splits)

lemma intarray_ok:
  "jni_ok (snd (intarray_register ans db b))" "jni_ok (snd (intarray_create env ans nc m nm b))"
  "jni_ok (snd (intarray_unbind rc arr))" "jni_ok (snd (intarray_destroy rc arr))"
  by (auto simp: intarray_register_def intarray_create_def intarray_unbind_def intarray_destroy_def jni_simps
      split: option.splits)

lemma intarray_bind_ok: "intarray_bind env rc cp arr b off len o' u = Some (rc', es) \<Longrightarrow> jni_ok es"
  by (auto simp: intarray_bind_def jni_simps split: option.splits if_splits)

lemma load_extension_ok: "jni_ok (snd (load_extension env ans db f p e))"
  by (auto simp: load_extension_def jni_simps release_utf split: option.splits prod.splits)

text \<open>The trace of a call that may read outside an array, and of one with an output array.\<close>

definition trace_of :: "(int \<times> event list) option \<Rightarrow> event list" where
  "trace_of r = (case r of None \<Rightarrow> [] | Some (rc, es) \<Rightarrow> es)"

definition load_trace :: "(int \<times> event list \<times> int list option) option \<Rightarrow> event list" where
  "load_trace r = (case r of None \<Rightarrow> [] | Some (rc, es, buf) \<Rightarrow> es)"

lemma trace_of_ok: "(\<And>rc es. r = Some (rc, es) \<Longrightarrow> jni_ok es) \<Longrightarrow> jni_ok (trace_of r)"
  by (auto simp: trace_of_def jni_ok_def split: option.splits)

lemma load_trace_ok: "(\<And>rc es buf. r = Some (rc, es, buf) \<Longrightarrow> jni_ok es) \<Longrightarrow> jni_ok (load_trace r)"
  by (auto simp: load_trace_def jni_ok_def split: option.splits)


text \<open>
  \<open>sqlite3_open_v2\<close> leaks no connection: SQLite hands one out even when it fails; the
  wrapper gives it to Java exactly when the result is \<open>SQLITE_OK\<close> and closes it exactly when
  it is not.
\<close>

theorem open_v2_closes_or_returns:
  assumes "jfilename \<noteq> 0" and "jresult \<noteq> 0" and "utf_chars env jfilename \<noteq> None" and "db \<noteq> 0"
  shows "case sqlite3_open_v2 env (rc, db, errmsg) jfilename jresult jflags joutError of
    (rc', es) \<Rightarrow>
      rc' = rc \<and>
      (Jni (SetLongArrayRegion jresult [int db]) \<in> set es \<longleftrightarrow> rc = SQLITE_OK) \<and>
      (Sqlite (Close db) \<in> set es \<longleftrightarrow> rc \<noteq> SQLITE_OK)"
  using assms
  by (auto simp: sqlite3_open_v2_def set_result_def set_error_def split: option.splits)

definition sample_env :: jni_env where
  "sample_env = \<lparr>utf_chars = (\<lambda>_. Some [97]), utf16_chars = (\<lambda>_. Some [97]), bytes_critical = (\<lambda>_. Some [1, 2, 3]),
     longs_critical = (\<lambda>_. Some [1, 2, 3]), elements = (\<lambda>_. Some [0, 0, 0]), string_length = (\<lambda>_. 1),
     array_length = (\<lambda>_. 3), new_ok = (\<lambda>_. True)\<rparr>"

theorem open_v2_closes_or_returns_witness:
  "Sqlite (Close 8) \<in> set (snd (sqlite3_open_v2 sample_env (SQLITE_CANTOPEN, 8, Some [101]) 5 6 2 7))"
  using open_v2_closes_or_returns [of 5 6 sample_env 8 SQLITE_CANTOPEN "Some [101]" 2 7]
  by (simp add: sample_env_def result_codes split: prod.splits)

subsection \<open>Offsets and lengths\<close>

definition env_ok :: "jni_env \<Rightarrow> bool" where
  "env_ok env \<longleftrightarrow>
     (\<forall>r. 0 \<le> array_length env r \<and> array_length env r < 2 ^ 31 \<and>
        (\<forall>xs. bytes_critical env r = Some xs \<longrightarrow> int (length xs) = array_length env r) \<and>
        (\<forall>xs. longs_critical env r = Some xs \<longrightarrow> int (length xs) = array_length env r) \<and>
        (\<forall>xs. elements env r = Some xs \<longrightarrow> int (length xs) = array_length env r))"

lemma c_int32_sum:
  assumes "0 \<le> x" "0 \<le> y" "in_int32 x" "in_int32 y"
  shows "c_int32 (x + y) = (if x + y < 2 ^ 31 then x + y else x + y - 2 ^ 32)"
proof (cases "x + y < 2 ^ 31")
  case True
  then have "in_int32 (x + y)" using assms(1,2) by (simp add: in_int32_def)
  with True show ?thesis by simp
next
  case False
  then show ?thesis using assms by (simp add: c_int32_over in_int32_def)
qed

lemma range_check_read:
  assumes "0 \<le> off" "0 \<le> len" "in_int32 off" "in_int32 len" "int (length xs) < 2 ^ 31"
  shows "range_check off len (int (length xs)) = None \<and> read_range xs off len = None \<longleftrightarrow>
    off \<le> int (length xs) \<and> 2 ^ 31 \<le> off + len"
  using c_int32_sum [OF assms(1-4)] assms
  by (auto simp: range_check_def read_range_def in_int32_def)

text \<open>
  Which offsets and lengths let a native method reach outside a Java array. With the
  array's length as the JVM reports it, \<open>bind_blob\<close>, \<open>blob_read\<close> and \<open>blob_write\<close> hand SQLite
  a range that leaves the array exactly when the sum of offset and length overflows a C int
  (which is tested after it has wrapped); in every other case the range is inside.
\<close>

theorem blob_range_checks:
  assumes "env_ok env" and "in_int32 joffset" and "in_int32 jlength" and "0 < jlength" and "0 \<le> joffset"
    and "h \<noteq> 0" and "jarray \<noteq> 0" and "bytes_critical env jarray \<noteq> None"
  shows "(bind_blob env rc h jindex jarray joffset jlength = None \<longleftrightarrow>
      joffset \<le> array_length env jarray \<and> 2 ^ 31 \<le> joffset + jlength) \<and>
    (blob_read env rc h jblobOffset jarray joffset jlength = None \<longleftrightarrow>
      joffset \<le> array_length env jarray \<and> 2 ^ 31 \<le> joffset + jlength) \<and>
    (blob_write env rc h jblobOffset jarray joffset jlength = None \<longleftrightarrow>
      joffset \<le> array_length env jarray \<and> 2 ^ 31 \<le> joffset + jlength)"
proof -
  obtain xs where xs: "bytes_critical env jarray = Some xs" using assms(8) by blast
  then have len: "array_length env jarray = int (length xs)" "int (length xs) < 2 ^ 31"
    using assms(1) by (metis env_ok_def)+
  have eq: "range_check joffset jlength (array_length env jarray) = None \<and> read_range xs joffset jlength = None \<longleftrightarrow>
    joffset \<le> array_length env jarray \<and> 2 ^ 31 \<le> joffset + jlength"
    using range_check_read [OF assms(5) _ assms(2,3) len(2)] assms(4) len(1) by simp
  show ?thesis unfolding eq [symmetric] blob_read_def blob_write_def
    using assms(4-7) xs by (auto simp: bind_blob_def blob_transfer_def split: option.splits)
qed

theorem blob_range_checks_witness:
  "bind_blob sample_env 0 1 1 9 1 (2 ^ 31 - 1) = None \<and> bind_blob sample_env 0 1 1 9 1 2 \<noteq> None"
proof -
  have env: "env_ok sample_env" by (simp add: env_ok_def sample_env_def)
  have len: "array_length sample_env 9 = 3" "bytes_critical sample_env 9 \<noteq> None" by (simp_all add: sample_env_def)
  show ?thesis
    using blob_range_checks [OF env, of 1 "2 ^ 31 - 1" 1 9 0 1 0] blob_range_checks [OF env, of 1 2 1 9 0 1 0] len
    by (simp add: in_int32_def)
qed

subsection \<open>Loading rows\<close>

text \<open>
  The reference: the values of at most \<open>k\<close> further rows, the last code of \<open>step\<close> and the
  state it leaves.
\<close>

fun fetch :: "('s \<Rightarrow> int \<times> 's) \<Rightarrow> ('s \<Rightarrow> int) \<Rightarrow> nat \<Rightarrow> 's \<Rightarrow> int list \<times> int \<times> 's" where
  "fetch step col 0 st = ([], SQLITE_ROW, st)"
| "fetch step col (Suc k) st =
     (case step st of
        (rc, st1) \<Rightarrow>
          if rc \<noteq> SQLITE_ROW then ([], rc, st1)
          else case fetch step col k st1 of (vs, rc, st) \<Rightarrow> (col st1 # vs, rc, st))"

definition overwrite :: "'a list \<Rightarrow> nat \<Rightarrow> 'a list \<Rightarrow> 'a list" where
  "overwrite xs i ys = take i xs @ ys @ drop (i + length ys) xs"

lemma overwrite_step:
  "i < length xs \<Longrightarrow> overwrite (xs[i := y]) (Suc i) ys = overwrite xs i (y # ys)"
  by (simp add: overwrite_def upd_conv_take_nth_drop min_def add.commute)

lemma fetch_length: "fetch step col k st = (vs, rc, st') \<Longrightarrow> length vs \<le> k"
  by (induction k arbitrary: st vs) (fastforce split: prod.splits if_splits)+

lemma load_loop_fetch:
  assumes "0 \<le> p" "p + int (Suc k) \<le> int (length buf)" "int (length buf) < 2 ^ 31" "cnt = loaded + int (Suc k)"
    and "fetch step col (Suc k) st = (vs, rc, st')"
  shows "load_loop step col cnt buf p loaded st = Some (rc, overwrite buf (nat p) vs, loaded + int (length vs), st')"
  using assms
proof (induction k arbitrary: p buf loaded st vs)
  case (0 p buf loaded st)
  then show ?case
    by (auto simp: load_loop.simps [of step col _ buf] array_set_def overwrite_def upd_conv_take_nth_drop
        split: prod.splits if_splits)
next
  case (Suc k p buf loaded st)
  obtain rc1 st1 where s1: "step st = (rc1, st1)" by fastforce
  show ?case
  proof (cases "rc1 = SQLITE_ROW")
    case False
    then show ?thesis using Suc.prems(5) s1
      by (auto simp: load_loop.simps [of step col _ buf] overwrite_def)
  next
    case True
    obtain ws where ws: "fetch step col (Suc k) st1 = (ws, rc, st')" "vs = col st1 # ws"
      using Suc.prems(5) s1 True by (auto simp del: fetch.simps(2) simp: fetch.simps(2) [of step col "Suc k"] split: prod.splits)
    have p: "nat p < length buf" using Suc.prems(1,2) by linarith
    have "in_int32 (p + 1)" using Suc.prems(1-3) by (simp add: in_int32_def)
    then have "load_loop step col cnt buf p loaded st =
      load_loop step col cnt (buf[nat p := col st1]) (p + 1) (loaded + 1) st1"
      using s1 True Suc.prems(1,2,4) p
      by (simp add: load_loop.simps [of step col _ buf] array_set_def)
    also have "\<dots> = Some (rc, overwrite (buf[nat p := col st1]) (nat (p + 1)) ws, loaded + 1 + int (length ws), st')"
      by (rule Suc.IH) (use Suc.prems ws in auto)
    also have "nat (p + 1) = Suc (nat p)" using Suc.prems(1) by simp
    finally show ?thesis using ws(2) overwrite_step [OF p] by simp
  qed
qed

text \<open>
  C10. Loading a column fills the buffer with the next rows and nothing else: for an offset
  and a count inside the array, the values of the first rows, at most \<open>cnt\<close> of them, are
  stored one after another from the offset on, the rest of the array keeps its content, the
  number of rows is reported and the result is the last code that stepping gave. In
  particular no row beyond the count is fetched, and none that was fetched is lost.
\<close>

theorem wrapper_load_longs_fetches:
  assumes "env_ok env" and "stmt \<noteq> 0" and "ppBuf \<noteq> 0" and "ppCount \<noteq> 0" and "0 < cnt" and "0 \<le> offset"
    and "elements env ppBuf = Some buf" and "offset + cnt \<le> int (length buf)"
    and "fetch step (\<lambda>s. column_int64 s jcolumn) (nat cnt) st = (vs, rc, st')"
  shows "wrapper_load_longs env step column_int64 st stmt jcolumn ppBuf offset cnt ppCount =
    Some (rc,
      [Jni (GetLength ppBuf), Acquire ArrayElements ppBuf True, Sqlite (Step stmt),
       Release ArrayElements ppBuf, Jni (SetIntArrayRegion ppCount [int (length vs)])],
      Some (overwrite buf (nat offset) vs))"
proof -
  have len: "array_length env ppBuf = int (length buf)" "int (length buf) < 2 ^ 31"
    using assms(1,7) by (metis env_ok_def)+
  obtain k where k: "nat cnt = Suc k" using assms(5) by (cases "nat cnt") auto
  then have cnt: "cnt = int (Suc k)" by linarith
  have "in_int32 (offset + cnt)" using assms(5,6,8) len(2) by (simp add: in_int32_def)
  moreover have "load_loop step (\<lambda>s. column_int64 s jcolumn) cnt buf offset 0 st =
    Some (rc, overwrite buf (nat offset) vs, 0 + int (length vs), st')"
    by (rule load_loop_fetch) (use assms cnt k len in auto)
  ultimately show ?thesis
    using assms len by (simp add: wrapper_load_longs_def wrapper_load_def)
qed

theorem wrapper_load_longs_fetches_witness:
  "wrapper_load_longs sample_env (\<lambda>xs. case xs of [] \<Rightarrow> (SQLITE_DONE, []) | y # ys \<Rightarrow> (SQLITE_ROW, ys))
     (\<lambda>xs c. int (length xs)) [5, 6, 7 :: int] 1 0 9 1 2 4 =
   Some (SQLITE_ROW,
     [Jni (GetLength 9), Acquire ArrayElements 9 True, Sqlite (Step 1), Release ArrayElements 9,
      Jni (SetIntArrayRegion 4 [2])],
     Some [0, 2, 1])"
proof -
  have env: "env_ok sample_env" by (simp add: env_ok_def sample_env_def)
  have el: "elements sample_env 9 = Some [0, 0, 0]" by (simp add: sample_env_def)
  show ?thesis
    using wrapper_load_longs_fetches [OF env, of 1 9 4 2 1 "[0, 0, 0]"
        "\<lambda>xs. case xs of [] \<Rightarrow> (SQLITE_DONE, []) | y # ys \<Rightarrow> (SQLITE_ROW, ys)" "\<lambda>xs c. int (length xs)" 0 "[5, 6, 7]"
        "[2, 1]" SQLITE_ROW "[7]"] el
    by (simp add: numeral_2_eq_2 overwrite_def)
qed

end
