(* ===== verification/WrapperBuffer.thy ===== *)
theory WrapperBuffer
  imports JniWrapper
begin

section \<open>Direct buffers and the progress handler\<close>

text \<open>
  The part of \<open>native/sqlite3_wrap_manual.c\<close> that keeps state between calls. A direct buffer
  is native memory that Java writes to; its first two bytes say how often SQLite has it bound
  and whether it is to be freed when SQLite lets go of it. The buffer may be given up by Java
  (\<open>wrapper_free\<close>) and by SQLite (\<open>bind_release\<close>, the destructor of a bound blob) in any
  order. Access to a freed buffer is \<open>None\<close>.
\<close>

subsection \<open>State and operations\<close>

text \<open>
  \<open>heap\<close> holds the two control bytes of the buffers in memory, \<open>slots\<close> the parameters of
  statements that are bound to a buffer and \<open>java\<close> the buffers that Java has not freed.
\<close>

datatype slot = Slot ptr int

record buffers =
  heap :: "ptr \<Rightarrow> (byte \<times> byte) option"
  slots :: "slot \<Rightarrow> ptr option"
  java :: "ptr set"

text \<open>\<open>p\<close> is what the allocator answers, \<open>control\<close> and \<open>data\<close> whether the views are made.\<close>

definition wrapper_alloc ::
  "int \<Rightarrow> jref \<Rightarrow> jref \<Rightarrow> ptr \<Rightarrow> bool \<Rightarrow> bool \<Rightarrow> buffers \<Rightarrow> int \<times> buffers" where
  "wrapper_alloc sz ppBuf ppByteBuffer p control data s =
     (if sz < 3 then (WRAPPER_INVALID_ARG_1, s)
      else if ppBuf = 0 then (WRAPPER_INVALID_ARG_2, s)
      else if ppByteBuffer = 0 then (WRAPPER_INVALID_ARG_3, s)
      else if p = 0 then (WRAPPER_OUT_OF_MEMORY, s)
      else if \<not> control then (WRAPPER_OUT_OF_MEMORY, s)
      else if \<not> data then (WRAPPER_OUT_OF_MEMORY, s)
      else (SQLITE_OK, s\<lparr>heap := (heap s)(p \<mapsto> (0, 0)), java := insert p (java s)\<rparr>))"

definition wrapper_free :: "ptr \<Rightarrow> buffers \<Rightarrow> (int \<times> buffers) option" where
  "wrapper_free p s =
     (if p = 0 then Some (SQLITE_OK, s)
      else case heap s p of None \<Rightarrow> None
        | Some (busy, dispose) \<Rightarrow>
            Some (SQLITE_OK,
              s\<lparr>heap := (if busy = 0 then (heap s)(p := None) else (heap s)(p \<mapsto> (busy, 1))),
                java := java s - {p}\<rparr>))"

definition bind_release :: "ptr \<Rightarrow> buffers \<Rightarrow> buffers option" where
  "bind_release p s =
     (case heap s p of None \<Rightarrow> None
      | Some (busy, dispose) \<Rightarrow>
          let busy = (if busy > 0 then busy - 1 else busy)
          in Some (s\<lparr>heap := (if dispose = 1 then (heap s)(p := None) else (heap s)(p \<mapsto> (busy, dispose)))\<rparr>))"

text \<open>
  SQLite takes a value away from a parameter: its destructor runs once. Binding replaces the
  value; a binding that is refused (a parameter out of range, a statement in use) runs the
  destructor of the new value and keeps the old one, and one that finds the value too big
  keeps the new value and reports the error.
\<close>

definition unbind :: "slot \<Rightarrow> buffers \<Rightarrow> buffers option" where
  "unbind slot s =
     (case slots s slot of None \<Rightarrow> Some s
      | Some p \<Rightarrow> bind_release p (s\<lparr>slots := (slots s)(slot := None)\<rparr>))"

datatype bind_outcome = Bound | Kept int | Refused int

fun outcome_code :: "bind_outcome \<Rightarrow> int" where
  "outcome_code Bound = SQLITE_OK"
| "outcome_code (Kept rc) = rc"
| "outcome_code (Refused rc) = rc"

definition sqlite3_bind_blob :: "bind_outcome \<Rightarrow> slot \<Rightarrow> ptr \<Rightarrow> buffers \<Rightarrow> buffers option" where
  "sqlite3_bind_blob outcome slot p s =
     (case outcome of
        Refused rc \<Rightarrow> bind_release p s
      | _ \<Rightarrow>
          (case unbind slot s of None \<Rightarrow> None
           | Some s \<Rightarrow> Some (s\<lparr>slots := (slots s)(slot \<mapsto> p)\<rparr>)))"

definition add_busy :: "ptr \<Rightarrow> byte \<Rightarrow> buffers \<Rightarrow> buffers option" where
  "add_busy p d s =
     (case heap s p of None \<Rightarrow> None
      | Some (busy, dispose) \<Rightarrow> Some (s\<lparr>heap := (heap s)(p \<mapsto> (busy + d, dispose))\<rparr>))"

definition wrapper_bind_buffer :: "bind_outcome \<Rightarrow> ptr \<Rightarrow> int \<Rightarrow> ptr \<Rightarrow> buffers \<Rightarrow> (int \<times> buffers) option" where
  "wrapper_bind_buffer outcome stmt jindex p s =
     (if stmt = 0 then Some (WRAPPER_INVALID_ARG_1, s)
      else if p = 0 then Some (WRAPPER_INVALID_ARG_2, s)
      else case heap s p of None \<Rightarrow> None
        | Some (busy, dispose) \<Rightarrow>
            if dispose \<noteq> 0 then Some (WRAPPER_INVALID_ARG_3, s)
            else case Option.bind (add_busy p 1 s) (sqlite3_bind_blob outcome (Slot stmt jindex) p) of
                None \<Rightarrow> None
              | Some s \<Rightarrow>
                  let rc = outcome_code outcome
                  in if rc \<noteq> SQLITE_OK
                     then map_option (\<lambda>s. (rc, s)) (add_busy p (- 1) s)
                     else Some (rc, s))"

subsection \<open>The progress handler\<close>

text \<open>
  The two 64-bit numbers Java shares with the handler: a cancel mark and a count of calls.
\<close>

definition progress_handler :: "(int \<times> int) option \<Rightarrow> int \<times> (int \<times> int) option" where
  "progress_handler ptr =
     (case ptr of None \<Rightarrow> (1, None)
      | Some (cancel, calls) \<Rightarrow>
          (if cancel \<noteq> 0 then -1 else 0, Some (cancel, c_int64 (calls + 1))))"

text \<open>\<open>p\<close> is what the allocator answers and \<open>made\<close> whether the view is made.\<close>

definition install_progress_handler ::
  "ptr \<Rightarrow> int \<Rightarrow> jref \<Rightarrow> jref \<Rightarrow> ptr \<Rightarrow> bool \<Rightarrow> int \<times> event list \<times> (int \<times> int) option" where
  "install_progress_handler jdb steps ppBuf ppByteBuffer p made =
     (if jdb = 0 then (WRAPPER_INVALID_ARG_1, [], None)
      else if ppBuf = 0 then (WRAPPER_INVALID_ARG_2, [], None)
      else if ppByteBuffer = 0 then (WRAPPER_INVALID_ARG_3, [], None)
      else if steps < 1 then (WRAPPER_INVALID_ARG_4, [], None)
      else if p = 0 then (WRAPPER_OUT_OF_MEMORY, [Malloc p], None)
      else
        let x = JByteBuffer p 16
        in if \<not> made then (WRAPPER_OUT_OF_MEMORY, [Malloc p, Jni (NewObject x), Free p], None)
           else (SQLITE_OK,
             [Malloc p, Jni (NewObject x), Jni (SetLongArrayRegion ppBuf [int p]),
              Jni (SetObjectArrayElement ppByteBuffer 0 x), Sqlite (Progress_handler jdb steps p)],
             Some (0, 0)))"

definition uninstall_progress_handler :: "ptr \<Rightarrow> ptr \<Rightarrow> int \<times> event list" where
  "uninstall_progress_handler jdb jptr =
     (if jdb = 0 then (WRAPPER_INVALID_ARG_1, [])
      else if jptr = 0 then (WRAPPER_INVALID_ARG_2, [])
      else (SQLITE_OK, [Sqlite (Progress_handler jdb 1 0), Free jptr]))"

subsection \<open>The life of a buffer\<close>

definition bound :: "buffers \<Rightarrow> ptr \<Rightarrow> bool" where
  "bound s p \<longleftrightarrow> (\<exists>slot. slots s slot = Some p)"

definition bound_elsewhere :: "buffers \<Rightarrow> ptr \<Rightarrow> slot \<Rightarrow> bool" where
  "bound_elsewhere s p slot \<longleftrightarrow> (\<exists>slot'. slot' \<noteq> slot \<and> slots s slot' = Some p)"

text \<open>
  The use Java makes of buffers: it binds a buffer it owns to one parameter at a time, and
  the binding succeeds; SQLite unbinds parameters when it likes.
\<close>

inductive buffer_runs :: "buffers \<Rightarrow> bool" where
  start: "buffer_runs \<lparr>heap = (\<lambda>_. None), slots = (\<lambda>_. None), java = {}\<rparr>"
| alloc: "buffer_runs s \<Longrightarrow> heap s p = None \<Longrightarrow>
    wrapper_alloc sz ppBuf ppByteBuffer p control data s = (rc, s') \<Longrightarrow> buffer_runs s'"
| free: "buffer_runs s \<Longrightarrow> p \<in> java s \<Longrightarrow> wrapper_free p s = Some (rc, s') \<Longrightarrow> buffer_runs s'"
| bind: "buffer_runs s \<Longrightarrow> p \<in> java s \<Longrightarrow> \<not> bound_elsewhere s p (Slot stmt i) \<Longrightarrow>
    wrapper_bind_buffer Bound stmt i p s = Some (rc, s') \<Longrightarrow> buffer_runs s'"
| unbind: "buffer_runs s \<Longrightarrow> unbind slot s = Some s' \<Longrightarrow> buffer_runs s'"

definition buffer_inv :: "buffers \<Rightarrow> bool" where
  "buffer_inv s \<longleftrightarrow>
     (\<forall>p. heap s p = (if p \<in> java s then Some (if bound s p then 1 else 0, 0)
                      else if bound s p then Some (1, 1) else None)) \<and>
     (\<forall>slot slot' p. slots s slot = Some p \<longrightarrow> slots s slot' = Some p \<longrightarrow> slot = slot') \<and>
     0 \<notin> java s \<and> \<not> bound s 0"

inductive_cases buffer_runs_cases: "buffer_runs s"

lemma buffer_inv_heap: "buffer_inv s \<Longrightarrow>
    heap s p = (if p \<in> java s then Some (if bound s p then 1 else 0, 0)
      else if bound s p then Some (1, 1) else None)"
  by (simp add: buffer_inv_def)

lemma bound_update:
  "bound (s\<lparr>slots := (slots s)(slot := None)\<rparr>) p \<longleftrightarrow> bound_elsewhere s p slot"
  "bound (s\<lparr>slots := (slots s)(slot \<mapsto> q)\<rparr>) p \<longleftrightarrow> p = q \<or> bound_elsewhere s p slot"
  by (auto simp: bound_def bound_elsewhere_def)

lemma bound_frame [simp]: "bound (s\<lparr>heap := h\<rparr>) p = bound s p" "bound (s\<lparr>java := j\<rparr>) p = bound s p"
  "bound_elsewhere (s\<lparr>heap := h\<rparr>) p slot = bound_elsewhere s p slot"
  by (simp_all add: bound_def bound_elsewhere_def)

lemma bound_here: "slots s slot = Some p \<Longrightarrow> bound s p"
  by (auto simp: bound_def)

lemma sole_slot: "buffer_inv s \<Longrightarrow> slots s slot = Some p \<Longrightarrow> \<not> bound_elsewhere s p slot"
  by (auto simp: buffer_inv_def bound_elsewhere_def)

lemma other_slot: "slots s slot \<noteq> Some q \<Longrightarrow> bound_elsewhere s q slot \<longleftrightarrow> bound s q"
  by (auto simp: bound_def bound_elsewhere_def)

lemma bind_release_inv:
  assumes inv: "buffer_inv s" and p: "slots s slot = Some p"
  obtains s' where "unbind slot s = Some s'" "buffer_inv s'" "java s' = java s" "slots s' = (slots s)(slot := None)"
proof -
  let ?s = "s\<lparr>slots := (slots s)(slot := None)\<rparr>"
  let ?s' = "?s\<lparr>heap := (heap s)(p := if p \<in> java s then Some (0, 0) else None)\<rparr>"
  have b: "bound s p" by (rule bound_here [OF p])
  have hp: "heap s p = (if p \<in> java s then Some (1, 0) else Some (1, 1))"
    using buffer_inv_heap [OF inv, of p] b by simp
  have "unbind slot s = Some ?s'"
    using p hp by (auto simp: unbind_def bind_release_def fun_upd_def)
  moreover have bp: "\<not> bound ?s' p" using sole_slot [OF inv p] by (simp add: bound_update)
  have bq: "bound ?s' q \<longleftrightarrow> bound s q" if "q \<noteq> p" for q
    using that other_slot [of s slot q] p by (simp add: bound_update)
  have h: "heap ?s' q = (if q \<in> java ?s' then Some (if bound ?s' q then 1 else 0, 0)
      else if bound ?s' q then Some (1, 1) else None)" for q
    using buffer_inv_heap [OF inv, of q] bp bq [of q] by (cases "q = p") auto
  have "\<not> bound s 0" and j: "0 \<notin> java ?s'" using inv by (simp_all add: buffer_inv_def)
  then have z: "\<not> bound ?s' 0" using bq [of 0] bp by (cases "p = 0") auto
  have d: "slot1 = slot2" if "slots ?s' slot1 = Some q" "slots ?s' slot2 = Some q" for slot1 slot2 q
    using that inv by (simp add: buffer_inv_def split: if_splits)
  have "buffer_inv ?s'" unfolding buffer_inv_def using h d j z by blast
  ultimately show thesis by (intro that [of ?s']) simp_all
qed

lemma unbind_inv:
  assumes "buffer_inv s"
  obtains s' where "unbind slot s = Some s'" "buffer_inv s'" "java s' = java s" "slots s' = (slots s)(slot := None)"
proof (cases "slots s slot")
  case None
  then have "unbind slot s = Some s" "(slots s)(slot := None) = slots s"
    by (simp_all add: unbind_def fun_upd_idem)
  with assms show thesis by (intro that [of s]) simp_all
next
  case (Some p)
  from bind_release_inv [OF assms this] that show thesis by blast
qed

lemma alloc_inv:
  assumes inv: "buffer_inv s" and p: "heap s p = None"
    and al: "wrapper_alloc sz ppBuf ppByteBuffer p control data s = (rc, s')"
  shows "buffer_inv s'"
proof (cases "s' = s")
  case False
  then have s': "s' = s\<lparr>heap := (heap s)(p \<mapsto> (0, 0)), java := insert p (java s)\<rparr>" and p0: "p \<noteq> 0"
    using al by (auto simp: wrapper_alloc_def split: if_splits)
  have "p \<notin> java s" "\<not> bound s p" using buffer_inv_heap [OF inv, of p] p by (auto split: if_splits)
  then show ?thesis using inv p0 by (auto simp: s' buffer_inv_def)
qed (use inv in simp)

lemma free_inv:
  assumes inv: "buffer_inv s" and p: "p \<in> java s"
  shows "\<exists>s'. wrapper_free p s = Some (SQLITE_OK, s') \<and> buffer_inv s'"
proof -
  have p0: "p \<noteq> 0" using inv p by (metis buffer_inv_def)
  have hp: "heap s p = Some (if bound s p then 1 else 0, 0)" using buffer_inv_heap [OF inv, of p] p by simp
  let ?s' = "s\<lparr>heap := (heap s)(p := if bound s p then Some (1, 1) else None), java := java s - {p}\<rparr>"
  have "wrapper_free p s = Some (SQLITE_OK, ?s')" using p0 hp by (auto simp: wrapper_free_def)
  moreover have "buffer_inv ?s'" using inv by (auto simp: buffer_inv_def)
  ultimately show ?thesis by blast
qed

lemma unbind_heap_update:
  "slots s slot \<noteq> Some p \<Longrightarrow>
    unbind slot (s\<lparr>heap := (heap s)(p \<mapsto> x)\<rparr>) = map_option (\<lambda>s. s\<lparr>heap := (heap s)(p \<mapsto> x)\<rparr>) (unbind slot s)"
  by (auto simp: unbind_def bind_release_def Let_def fun_upd_twist split: option.splits)

lemma bind_inv:
  assumes inv: "buffer_inv s" and p: "p \<in> java s" "\<not> bound_elsewhere s p (Slot stmt i)"
  shows "\<exists>rc s'. wrapper_bind_buffer Bound stmt i p s = Some (rc, s') \<and> buffer_inv s'"
proof (cases "stmt = 0")
  case False
  let ?slot = "Slot stmt i"
  have p0: "p \<noteq> 0" using inv p(1) by (metis buffer_inv_def)
  have hp: "heap s p = Some (if bound s p then 1 else 0, 0)" using buffer_inv_heap [OF inv, of p] p by simp
  show ?thesis
  proof (cases "slots s ?slot = Some p")
    case True
    then have "bound s p" by (rule bound_here)
    with hp have "heap s p = Some (1, 0)" by simp
    moreover have "s\<lparr>heap := (heap s)(p \<mapsto> (1, 0)), slots := (slots s)(?slot \<mapsto> p)\<rparr> = s"
      using calculation True by (simp add: fun_upd_idem)
    ultimately have "wrapper_bind_buffer Bound stmt i p s = Some (SQLITE_OK, s)"
      using False p0 True
      by (simp add: wrapper_bind_buffer_def add_busy_def sqlite3_bind_blob_def unbind_def bind_release_def
          fun_upd_idem Let_def)
    with inv show ?thesis by blast
  next
    case other: False
    have "\<not> bound s p" using p(2) other_slot [OF other] by simp
    with hp have h: "heap s p = Some (0, 0)" by simp
    obtain s2 where s2: "unbind ?slot s = Some s2" "buffer_inv s2" "java s2 = java s"
      "slots s2 = (slots s)(?slot := None)"
      by (rule unbind_inv [OF inv])
    let ?s' = "s2\<lparr>heap := (heap s2)(p \<mapsto> (1, 0)), slots := (slots s2)(?slot \<mapsto> p)\<rparr>"
    have "wrapper_bind_buffer Bound stmt i p s = Some (SQLITE_OK, ?s')"
      using False p0 h s2(1) unbind_heap_update [OF other]
      by (simp add: wrapper_bind_buffer_def add_busy_def sqlite3_bind_blob_def)
    moreover have nb: "\<not> bound s2 p" using s2(4) p(2) by (auto simp: bound_def bound_elsewhere_def)
    have free: "slots s2 ?slot = None" by (simp add: s2(4))
    have b: "bound ?s' q \<longleftrightarrow> q = p \<or> bound s2 q" for q
      unfolding bound_def using free by (simp, metis option.distinct(1))
    have d: "slot1 = slot2" if "slots ?s' slot1 = Some q" "slots ?s' slot2 = Some q" for slot1 slot2 q
    proof (cases "q = p")
      case True
      then have "slots s2 x \<noteq> Some q" for x using nb by (auto simp: bound_def)
      with that True show ?thesis by (simp split: if_splits)
    next
      case False
      with that have "slots s2 slot1 = Some q" "slots s2 slot2 = Some q" by (simp_all split: if_splits)
      with s2(2) show ?thesis unfolding buffer_inv_def by blast
    qed
    have h: "heap ?s' q = (if q \<in> java ?s' then Some (if bound ?s' q then 1 else 0, 0)
        else if bound ?s' q then Some (1, 1) else None)" for q
      using buffer_inv_heap [OF s2(2), of q] b [of q] s2(3) p(1) by (cases "q = p") simp_all
    have "0 \<notin> java ?s'" "\<not> bound ?s' 0" using s2(2) b [of 0] p0 by (simp_all add: buffer_inv_def)
    with h d have "buffer_inv ?s'" unfolding buffer_inv_def by blast
    ultimately show ?thesis by blast
  qed
qed (use inv in \<open>simp add: wrapper_bind_buffer_def\<close>)

lemma buffer_runs_inv: "buffer_runs s \<Longrightarrow> buffer_inv s"
proof (induction rule: buffer_runs.induct)
  case start
  then show ?case by (simp add: buffer_inv_def bound_def)
next
  case (alloc s p sz ppBuf ppByteBuffer control data rc s')
  then show ?case using alloc_inv by blast
next
  case (free s p rc s')
  then show ?case using free_inv [of s p] by auto
next
  case (bind s p stmt i rc s')
  then show ?case using bind_inv [of s p stmt i] by auto
next
  case (unbind s slot s')
  then show ?case by (metis option.inject unbind_inv)
qed


definition one_buffer :: buffers where
  "one_buffer = snd (wrapper_alloc 64 1 2 7 True True \<lparr>heap = (\<lambda>_. None), slots = (\<lambda>_. None), java = {}\<rparr>)"

lemma one_buffer_runs: "buffer_runs one_buffer"
proof -
  let ?s = "\<lparr>heap = (\<lambda>_. None), slots = (\<lambda>_. None), java = {}\<rparr> :: buffers"
  have "wrapper_alloc 64 1 2 7 True True ?s = (SQLITE_OK, one_buffer)"
    by (simp add: one_buffer_def wrapper_alloc_def)
  from buffer_runs.alloc [OF buffer_runs.start _ this] show ?thesis by simp
qed


text \<open>
  One buffer bound to two parameters at once is used after it is freed:
  \<open>bind_release\<close> frees a buffer marked for disposal at the first release, without looking at
  the count of bindings. Java binds one buffer twice, frees it, SQLite drops the first
  binding; the buffer is gone while the second parameter refers to it, and dropping that
  binding touches freed memory.
\<close>

theorem two_bindings_use_after_free:
  "\<exists>s1 s2 s3 s4.
     wrapper_bind_buffer Bound 5 1 7 one_buffer = Some (SQLITE_OK, s1) \<and>
     wrapper_bind_buffer Bound 5 2 7 s1 = Some (SQLITE_OK, s2) \<and>
     wrapper_free 7 s2 = Some (SQLITE_OK, s3) \<and> unbind (Slot 5 1) s3 = Some s4 \<and>
     slots s4 (Slot 5 2) = Some 7 \<and> heap s4 7 = None \<and> unbind (Slot 5 2) s4 = None"
proof (intro exI conjI)
  let ?s1 = "\<lparr>heap = [7 \<mapsto> (1, 0)], slots = [Slot 5 1 \<mapsto> 7], java = {7}\<rparr>"
  let ?s2 = "\<lparr>heap = [7 \<mapsto> (2, 0)], slots = [Slot 5 1 \<mapsto> 7, Slot 5 2 \<mapsto> 7], java = {7}\<rparr>"
  let ?s3 = "\<lparr>heap = [7 \<mapsto> (2, 1)], slots = [Slot 5 1 \<mapsto> 7, Slot 5 2 \<mapsto> 7], java = {}\<rparr>"
  let ?s4 = "\<lparr>heap = (\<lambda>_. None), slots = [Slot 5 2 \<mapsto> 7], java = {}\<rparr>"
  show "wrapper_bind_buffer Bound 5 1 7 one_buffer = Some (SQLITE_OK, ?s1)"
    "wrapper_bind_buffer Bound 5 2 7 ?s1 = Some (SQLITE_OK, ?s2)"
    by (simp_all add: wrapper_bind_buffer_def one_buffer_def wrapper_alloc_def add_busy_def sqlite3_bind_blob_def
      unbind_def Let_def)
  show "wrapper_free 7 ?s2 = Some (SQLITE_OK, ?s3)" by (simp add: wrapper_free_def)
  show "unbind (Slot 5 1) ?s3 = Some ?s4" by (simp add: unbind_def bind_release_def Let_def fun_eq_iff)
  show "unbind (Slot 5 2) ?s4 = None" by (simp add: unbind_def bind_release_def)
qed simp_all

text \<open>
  A binding that SQLite refuses leaks the buffer. SQLite runs the destructor of a value
  it refuses, so \<open>bind_release\<close> has already counted down when \<open>wrapper_bind_buffer\<close> counts
  down again: the count wraps to 255, \<open>wrapper_free\<close> only marks the buffer, and no binding is
  left that would ever free it.
\<close>

theorem refused_binding_leaks:
  "\<exists>s1 s2. wrapper_bind_buffer (Refused 25) 5 99 7 one_buffer = Some (25, s1) \<and>
     heap s1 7 = Some (255, 0) \<and> wrapper_free 7 s1 = Some (SQLITE_OK, s2) \<and>
     heap s2 7 \<noteq> None \<and> 7 \<notin> java s2 \<and> \<not> bound s2 7"
proof (intro exI conjI)
  let ?s1 = "\<lparr>heap = [7 \<mapsto> (- 1, 0)], slots = (\<lambda>_. None), java = {7}\<rparr>"
  let ?s2 = "\<lparr>heap = [7 \<mapsto> (- 1, 1)], slots = (\<lambda>_. None), java = {}\<rparr>"
  show "wrapper_bind_buffer (Refused 25) 5 99 7 one_buffer = Some (25, ?s1)"
    by (simp add: wrapper_bind_buffer_def one_buffer_def wrapper_alloc_def add_busy_def sqlite3_bind_blob_def
      bind_release_def result_codes Let_def)
  show "wrapper_free 7 ?s1 = Some (SQLITE_OK, ?s2)" by (simp add: wrapper_free_def)
qed (simp_all add: bound_def)

end
