(* ===== verification/Varint.thy ===== *)
theory Varint
  imports Prelude
begin

section \<open>Variable-length integers of the file format\<close>

text \<open>
  The variable-length and fixed-length integers of SQLite's file format (\<open>util.c\<close>):
  one to nine bytes, seven bits of data in each of the first eight and a flag that says
  whether another follows, eight bits in the ninth. The reader is unrolled over 32-bit
  registers; the first group of lemmas shows that it is the loop the format describes,
  the second that the writer and the reader agree.

  Memory is a total function from addresses to bytes; a store writes the bytes the code
  writes, and the lemmas say which addresses that is.
\<close>

type_synonym mem = "ptr \<Rightarrow> byte"

subsection \<open>The writer\<close>

text \<open>The loop \<open>for (i = 7; i >= 0; i--)\<close> of the nine byte case, from index \<open>i - 1\<close> down.\<close>

fun put_slots :: "mem \<Rightarrow> ptr \<Rightarrow> nat \<Rightarrow> u64 \<Rightarrow> mem" where
  "put_slots m p 0 v = m"
| "put_slots m p (Suc i) v =
     put_slots (m(p + i := ucast ((v AND 0x7f) OR 0x80))) p i (drop_bit 7 v)"

text \<open>The loop that fills \<open>buf\<close> with the groups of seven bits, the least significant first.\<close>

fun put_groups :: "nat \<Rightarrow> u64 \<Rightarrow> byte list" where
  "put_groups 0 v = []"
| "put_groups (Suc k) v = ucast ((v AND 0x7f) OR 0x80)
     # (if drop_bit 7 v = 0 then [] else put_groups k (drop_bit 7 v))"

fun put_bytes :: "mem \<Rightarrow> ptr \<Rightarrow> byte list \<Rightarrow> mem" where
  "put_bytes m p [] = m"
| "put_bytes m p (x # xs) = put_bytes (m(p := x)) (p + 1) xs"

text \<open>\<open>buf\<close> has room for ten groups; the assertion says that nine are enough.\<close>

definition putVarint64 :: "mem \<Rightarrow> ptr \<Rightarrow> u64 \<Rightarrow> mem \<times> nat" where
  "putVarint64 m p v =
     (if v AND push_bit 32 0xff000000 \<noteq> 0
      then (put_slots (m(p + 8 := ucast v)) p 8 (drop_bit 8 v), 9)
      else let buf = put_groups 10 v;
               buf = buf[0 := buf ! 0 AND 0x7f]
           in (put_bytes m p (rev buf), length buf))"

definition sqlite3PutVarint :: "mem \<Rightarrow> ptr \<Rightarrow> u64 \<Rightarrow> mem \<times> nat" where
  "sqlite3PutVarint m p v =
     (if v \<le> 0x7f then (m(p := ucast (v AND 0x7f)), 1)
      else if v \<le> 0x3fff
      then (m(p := ucast ((drop_bit 7 v AND 0x7f) OR 0x80), p + 1 := ucast (v AND 0x7f)), 2)
      else putVarint64 m p v)"

fun varint_len_loop :: "nat \<Rightarrow> u64 \<Rightarrow> nat \<Rightarrow> nat" where
  "varint_len_loop 0 v i = i"
| "varint_len_loop (Suc k) v i =
     (let v' = drop_bit 7 v in if v' \<noteq> 0 then varint_len_loop k v' (i + 1) else i)"

definition sqlite3VarintLen :: "u64 \<Rightarrow> nat" where
  "sqlite3VarintLen v = varint_len_loop 10 v 1"

subsection \<open>The reader\<close>

definition SLOT_2_0 :: u32 where "SLOT_2_0 = 0x001fc07f"
definition SLOT_4_2_0 :: u32 where "SLOT_4_2_0 = 0xf01fc07f"

text \<open>
  The registers \<open>a\<close>, \<open>b\<close> and \<open>s\<close> of the code, rebound where the code assigns them;
  \<open>wide s a\<close> is its \<open>((u64)s)<<32 | a\<close>.
\<close>

definition wide :: "u32 \<Rightarrow> u32 \<Rightarrow> u64" where
  "wide s r = push_bit 32 (ucast s) OR ucast r"

definition sqlite3GetVarint :: "mem \<Rightarrow> ptr \<Rightarrow> nat \<times> u64" where
  "sqlite3GetVarint m p = (
    let a = ucast (m p) in
    if a AND 0x80 = 0 then (1, ucast a) else
    let b = ucast (m (p + 1)) in
    if b AND 0x80 = 0 then
      (let a = a AND 0x7f; a = push_bit 7 a; a = a OR b in (2, ucast a)) else
    let a = push_bit 14 a; a = a OR ucast (m (p + 2)) in
    if a AND 0x80 = 0 then
      (let a = a AND SLOT_2_0; b = b AND 0x7f; b = push_bit 7 b; a = a OR b in (3, ucast a)) else
    let a = a AND SLOT_2_0; b = push_bit 14 b; b = b OR ucast (m (p + 3)) in
    if b AND 0x80 = 0 then
      (let b = b AND SLOT_2_0; a = push_bit 7 a; a = a OR b in (4, ucast a)) else
    let b = b AND SLOT_2_0; s = a;
        a = push_bit 14 a; a = a OR ucast (m (p + 4)) in
    if a AND 0x80 = 0 then
      (let b = push_bit 7 b; a = a OR b; s = drop_bit 18 s in (5, wide s a)) else
    let s = push_bit 7 s; s = s OR b;
        b = push_bit 14 b; b = b OR ucast (m (p + 5)) in
    if b AND 0x80 = 0 then
      (let a = a AND SLOT_2_0; a = push_bit 7 a; a = a OR b; s = drop_bit 18 s
       in (6, wide s a)) else
    let a = push_bit 14 a; a = a OR ucast (m (p + 6)) in
    if a AND 0x80 = 0 then
      (let a = a AND SLOT_4_2_0; b = b AND SLOT_2_0; b = push_bit 7 b; a = a OR b;
           s = drop_bit 11 s
       in (7, wide s a)) else
    let a = a AND SLOT_2_0; b = push_bit 14 b; b = b OR ucast (m (p + 7)) in
    if b AND 0x80 = 0 then
      (let b = b AND SLOT_4_2_0; a = push_bit 7 a; a = a OR b; s = drop_bit 4 s
       in (8, wide s a)) else
    let a = push_bit 15 a; a = a OR ucast (m (p + 8));
        b = b AND SLOT_2_0; b = push_bit 8 b; a = a OR b;
        s = push_bit 4 s; b = ucast (m (p + 8 - 4)); b = b AND 0x7f; b = drop_bit 3 b;
        s = s OR b
    in (9, wide s a))"

text \<open>The one byte case is handled by the macro \<open>getVarint32\<close>, which calls the function otherwise.\<close>

definition sqlite3GetVarint32 :: "mem \<Rightarrow> ptr \<Rightarrow> nat \<times> u32" where
  "sqlite3GetVarint32 m p = (
    let a = ucast (m p); b = ucast (m (p + 1)) in
    if b AND 0x80 = 0 then
      (let a = a AND 0x7f; a = push_bit 7 a in (2, a OR b)) else
    let a = push_bit 14 a; a = a OR ucast (m (p + 2)) in
    if a AND 0x80 = 0 then
      (let a = a AND (push_bit 14 0x7f OR 0x7f); b = b AND 0x7f; b = push_bit 7 b
       in (3, a OR b)) else
    (case sqlite3GetVarint m p of (n, v64) \<Rightarrow>
       (n, if v64 AND 0xffffffff \<noteq> v64 then 0xffffffff else ucast v64)))"

definition getVarint32 :: "mem \<Rightarrow> ptr \<Rightarrow> nat \<times> u32" where
  "getVarint32 m p = (if m p < 0x80 then (1, ucast (m p)) else sqlite3GetVarint32 m p)"

definition putVarint32 :: "mem \<Rightarrow> ptr \<Rightarrow> u32 \<Rightarrow> mem \<times> nat" where
  "putVarint32 m p v = (if v < 0x80 then (m(p := ucast v), 1) else sqlite3PutVarint m p (ucast v))"

subsection \<open>Fixed-length integers\<close>

definition sqlite3Get4byte :: "mem \<Rightarrow> ptr \<Rightarrow> u32" where
  "sqlite3Get4byte m p = push_bit 24 (ucast (m p)) OR push_bit 16 (ucast (m (p + 1)))
     OR push_bit 8 (ucast (m (p + 2))) OR ucast (m (p + 3))"

definition sqlite3Put4byte :: "mem \<Rightarrow> ptr \<Rightarrow> u32 \<Rightarrow> mem" where
  "sqlite3Put4byte m p v =
     m(p := ucast (drop_bit 24 v), p + 1 := ucast (drop_bit 16 v),
       p + 2 := ucast (drop_bit 8 v), p + 3 := ucast v)"

subsection \<open>The loop the format describes\<close>

text \<open>
  Of the nine bytes at \<open>p\<close>, with \<open>n\<close> of them read into \<open>acc\<close>: seven more bits while the
  flag is set, eight from the ninth byte.
\<close>

fun varint_loop :: "nat \<Rightarrow> u64 \<Rightarrow> byte list \<Rightarrow> nat \<times> u64" where
  "varint_loop n acc [] = (n, acc)"
| "varint_loop n acc [x] = (n + 1, push_bit 8 acc OR ucast x)"
| "varint_loop n acc (x # y # xs) =
     (if bit x 7 then varint_loop (n + 1) (push_bit 7 acc OR ucast (x AND 0x7f)) (y # xs)
      else (n + 1, push_bit 7 acc OR ucast (x AND 0x7f)))"

definition nine :: "mem \<Rightarrow> ptr \<Rightarrow> byte list" where
  "nine m p = [m p, m (p + 1), m (p + 2), m (p + 3), m (p + 4), m (p + 5), m (p + 6),
    m (p + 7), m (p + 8)]"

definition varint_spec :: "mem \<Rightarrow> ptr \<Rightarrow> nat \<times> u64" where
  "varint_spec m p = varint_loop 0 0 (nine m p)"

lemma flag_byte: "(ucast (x :: byte) :: u32) AND 0x80 = 0 \<longleftrightarrow> \<not> bit x 7"
  using and_exp_eq_0_iff_not_bit [of "ucast x :: u32" 7] by (simp add: bit_simps)

lemma flag_shifted:
  "(push_bit 14 y OR ucast (x :: byte) :: u32) AND 0x80 = 0 \<longleftrightarrow> \<not> bit x 7"
  using and_exp_eq_0_iff_not_bit [of "push_bit 14 y OR ucast x :: u32" 7] by (simp add: bit_simps)

lemma bit_beyond_byte [simp]: "8 \<le> n \<Longrightarrow> \<not> bit (x :: byte) n"
  by (auto dest: bit_imp_le_length)

lemma bit_beyond_u64 [simp]: "64 \<le> i \<Longrightarrow> \<not> bit (v :: u64) i"
  by (auto dest: bit_imp_le_length)

lemma u64_bound: "unat (v :: u64) < 2 ^ 64"
  using unsigned_less [where 'a = nat, of v] by simp

lemma drop_zero_iff: "drop_bit k v = 0 \<longleftrightarrow> unat (v :: 'w :: len word) < 2 ^ k"
proof -
  have "drop_bit k v = 0 \<longleftrightarrow> unat (drop_bit k v) = 0" by (simp add: unat_eq_0)
  also have "unat (drop_bit k v) = unat v div 2 ^ k"
    by (rule unat_drop_bit_eq [of k v, unfolded drop_bit_eq_div [of k "unat v"]])
  finally show ?thesis by (simp add: div_eq_0_iff)
qed

lemma small_bits: "unat v < 2 ^ k \<Longrightarrow> k \<le> i \<Longrightarrow> \<not> bit (v :: 'w :: len word) i"
proof -
  assume "unat v < 2 ^ k" and le: "k \<le> i"
  then have "drop_bit k v = 0" by (simp add: drop_zero_iff)
  then have "\<not> bit (drop_bit k v) (i - k)" by simp
  with le show ?thesis by (simp add: bit_simps)
qed

text \<open>Equality of words, bit by bit; each bit has a closed index.\<close>

lemma upt_64: "[0..<64] =
    [0, 1, 2, 3, 4, 5, 6, 7, 8, 9, 10, 11, 12, 13, 14, 15, 16, 17, 18, 19, 20, 21, 22, 23,
     24, 25, 26, 27, 28, 29, 30, 31, 32, 33, 34, 35, 36, 37, 38, 39, 40, 41, 42, 43, 44,
     45, 46, 47, 48, 49, 50, 51, 52, 53, 54, 55, 56, 57, 58, 59, 60, 61, 62, 63]"
  by code_simp

lemma u64_eqI: "list_all (\<lambda>n. bit x n \<longleftrightarrow> bit y n) [0..<64] \<Longrightarrow> x = (y :: u64)"
  by (auto intro: bit_word_eqI simp: list_all_iff)

lemma upt_32: "[0..<32] =
    [0, 1, 2, 3, 4, 5, 6, 7, 8, 9, 10, 11, 12, 13, 14, 15, 16, 17, 18, 19, 20, 21, 22, 23, 24,
     25, 26, 27, 28, 29, 30, 31]"
  by code_simp

lemma u32_eqI: "list_all (\<lambda>n. bit x n \<longleftrightarrow> bit y n) [0..<32] \<Longrightarrow> x = (y :: u32)"
  by (auto intro: bit_word_eqI simp: list_all_iff)

lemma upt_8: "[0..<8] = [0, 1, 2, 3, 4, 5, 6, 7]"
  by code_simp

lemma byte_eqI: "list_all (\<lambda>n. bit x n \<longleftrightarrow> bit y n) [0..<8] \<Longrightarrow> x = (y :: byte)"
  by (auto intro: bit_word_eqI simp: list_all_iff)

lemmas word_bits = upt_64 upt_32 upt_8 bit_simps wide_def SLOT_2_0_def SLOT_4_2_0_def

text \<open>What the registers hold at each exit, against the value the loop has gathered there.\<close>

lemma reg_value_1: fixes p0 :: byte
  assumes f: "\<not> bit p0 7" shows "ucast (ucast p0 :: u32) = (push_bit 7 0 OR ucast (p0 AND 0x7f) :: u64)"
  by (rule u64_eqI) (simp add: word_bits f)

lemma reg_value_2: fixes p0 p1 :: byte
assumes f: "\<not> bit p1 7" shows "ucast (push_bit 7 (ucast p0 AND 0x7f :: u32) OR ucast p1)
    = (push_bit 7 (push_bit 7 0 OR ucast (p0 AND 0x7f)) OR ucast (p1 AND 0x7f) :: u64)"
  by (rule u64_eqI) (simp add: word_bits f)

lemma reg_value_3: fixes p0 p1 p2 :: byte
assumes f: "\<not> bit p2 7" shows "ucast (((push_bit 14 (ucast p0) OR ucast p2) AND SLOT_2_0)
    OR push_bit 7 (ucast p1 AND 0x7f) :: u32) = (push_bit 7 (push_bit 7 (push_bit 7 0 OR
    ucast (p0 AND 0x7f)) OR ucast (p1 AND 0x7f)) OR ucast (p2 AND 0x7f) :: u64)"
  by (rule u64_eqI) (simp add: word_bits f)

lemma reg_value_4: fixes p0 p1 p2 p3 :: byte
assumes f: "\<not> bit p3 7" shows "ucast (push_bit 7 ((push_bit 14 (ucast p0) OR ucast p2)
    AND SLOT_2_0) OR ((push_bit 14 (ucast p1) OR ucast p3) AND SLOT_2_0) :: u32) = (push_bit 7
    (push_bit 7 (push_bit 7 (push_bit 7 0 OR ucast (p0 AND 0x7f)) OR ucast (p1 AND 0x7f)) OR
    ucast (p2 AND 0x7f)) OR ucast (p3 AND 0x7f) :: u64)"
  by (rule u64_eqI) (simp add: word_bits f)

lemma reg_value_5: fixes p0 p1 p2 p3 p4 :: byte
assumes f: "\<not> bit p4 7" shows "wide (drop_bit 18 ((push_bit 14 (ucast p0) OR ucast p2)
    AND SLOT_2_0)) ((push_bit 14 (((push_bit 14 (ucast p0) OR ucast p2) AND SLOT_2_0)) OR
    ucast p4) OR push_bit 7 ((push_bit 14 (ucast p1) OR ucast p3) AND SLOT_2_0)) = (push_bit 7
    (push_bit 7 (push_bit 7 (push_bit 7 (push_bit 7 0 OR ucast (p0 AND 0x7f)) OR ucast (p1
    AND 0x7f)) OR ucast (p2 AND 0x7f)) OR ucast (p3 AND 0x7f)) OR ucast (p4 AND 0x7f) :: u64)"
  by (rule u64_eqI) (simp add: word_bits f)

lemma reg_value_6: fixes p0 p1 p2 p3 p4 p5 :: byte
assumes f: "\<not> bit p5 7" shows "wide (drop_bit 18 (push_bit 7 ((push_bit 14 (ucast p0) OR
    ucast p2) AND SLOT_2_0) OR ((push_bit 14 (ucast p1) OR ucast p3) AND SLOT_2_0))) (push_bit
    7 ((push_bit 14 (((push_bit 14 (ucast p0) OR ucast p2) AND SLOT_2_0)) OR ucast p4) AND
    SLOT_2_0) OR (push_bit 14 (((push_bit 14 (ucast p1) OR ucast p3) AND SLOT_2_0)) OR ucast
    p5)) = (push_bit 7 (push_bit 7 (push_bit 7 (push_bit 7 (push_bit 7 (push_bit 7 0 OR
    ucast (p0 AND 0x7f)) OR ucast (p1 AND 0x7f)) OR ucast (p2 AND 0x7f)) OR ucast (p3 AND
    0x7f)) OR ucast (p4 AND 0x7f)) OR ucast (p5 AND 0x7f) :: u64)"
  by (rule u64_eqI) (simp add: word_bits f)

lemma reg_value_7: fixes p0 p1 p2 p3 p4 p5 p6 :: byte
assumes f: "\<not> bit p6 7" shows "wide (drop_bit 11 (push_bit 7 ((push_bit 14 (ucast p0) OR
    ucast p2) AND SLOT_2_0) OR ((push_bit 14 (ucast p1) OR ucast p3) AND SLOT_2_0)))
    (((push_bit 14 ((push_bit 14 (((push_bit 14 (ucast p0) OR ucast p2) AND SLOT_2_0)) OR
    ucast p4)) OR ucast p6) AND SLOT_4_2_0) OR push_bit 7 ((push_bit 14 (((push_bit 14 (ucast
    p1) OR ucast p3) AND SLOT_2_0)) OR ucast p5) AND SLOT_2_0)) = (push_bit 7 (push_bit 7
    (push_bit 7 (push_bit 7 (push_bit 7 (push_bit 7 (push_bit 7 0 OR ucast (p0 AND 0x7f)) OR
    ucast (p1 AND 0x7f)) OR ucast (p2 AND 0x7f)) OR ucast (p3 AND 0x7f)) OR ucast (p4 AND
    0x7f)) OR ucast (p5 AND 0x7f)) OR ucast (p6 AND 0x7f) :: u64)"
  by (rule u64_eqI) (simp add: word_bits f)

lemma reg_value_8: fixes p0 p1 p2 p3 p4 p5 p6 p7 :: byte
assumes f: "\<not> bit p7 7" shows "wide (drop_bit 4 (push_bit 7 ((push_bit 14 (ucast p0) OR
    ucast p2) AND SLOT_2_0) OR ((push_bit 14 (ucast p1) OR ucast p3) AND SLOT_2_0))) (push_bit
    7 ((push_bit 14 ((push_bit 14 (((push_bit 14 (ucast p0) OR ucast p2) AND SLOT_2_0)) OR
    ucast p4)) OR ucast p6) AND SLOT_2_0) OR ((push_bit 14 ((push_bit 14 (((push_bit 14 (ucast
    p1) OR ucast p3) AND SLOT_2_0)) OR ucast p5)) OR ucast p7) AND SLOT_4_2_0)) = (push_bit 7
    (push_bit 7 (push_bit 7 (push_bit 7 (push_bit 7 (push_bit 7 (push_bit 7 (push_bit 7 0 OR
    ucast (p0 AND 0x7f)) OR ucast (p1 AND 0x7f)) OR ucast (p2 AND 0x7f)) OR ucast (p3 AND
    0x7f)) OR ucast (p4 AND 0x7f)) OR ucast (p5 AND 0x7f)) OR ucast (p6 AND 0x7f)) OR ucast
    (p7 AND 0x7f) :: u64)"
  by (rule u64_eqI) (simp add: word_bits f)

lemma reg_value_9: fixes p0 p1 p2 p3 p4 p5 p6 p7 p8 :: byte shows "wide (push_bit 4 (push_bit
    7 ((push_bit 14 (ucast p0) OR ucast p2) AND SLOT_2_0) OR ((push_bit 14 (ucast p1) OR ucast
    p3) AND SLOT_2_0)) OR drop_bit 3 (ucast p4 AND 0x7f)) ((push_bit 15 ((push_bit 14
    ((push_bit 14 (((push_bit 14 (ucast p0) OR ucast p2) AND SLOT_2_0)) OR ucast p4)) OR ucast
    p6) AND SLOT_2_0) OR ucast p8) OR push_bit 8 ((push_bit 14 ((push_bit 14 (((push_bit 14
    (ucast p1) OR ucast p3) AND SLOT_2_0)) OR ucast p5)) OR ucast p7) AND SLOT_2_0)) =
    (push_bit 8 (push_bit 7 (push_bit 7 (push_bit 7 (push_bit 7 (push_bit 7 (push_bit 7
    (push_bit 7 (push_bit 7 0 OR ucast (p0 AND 0x7f)) OR ucast (p1 AND 0x7f)) OR ucast (p2 AND
    0x7f)) OR ucast (p3 AND 0x7f)) OR ucast (p4 AND 0x7f)) OR ucast (p5 AND 0x7f)) OR ucast
    (p6 AND 0x7f)) OR ucast (p7 AND 0x7f)) OR ucast p8 :: u64)"
  by (rule u64_eqI) (simp add:
    word_bits)

lemmas reg_values = reg_value_1 reg_value_2 reg_value_3 reg_value_4 reg_value_5
  reg_value_6 reg_value_7 reg_value_8 reg_value_9

lemma p_minus_4: "p + 8 - 4 = p + (4 :: nat)"
  by simp

lemmas reader_unroll = sqlite3GetVarint_def varint_spec_def nine_def Let_def varint_loop.simps
  flag_byte flag_shifted p_minus_4

lemma exit_cases:
  fixes m :: mem and p :: ptr
  obtains "\<not> bit (m p) 7"
  | "bit (m p) 7" "\<not> bit (m (p + 1)) 7"
  | "bit (m p) 7" "bit (m (p + 1)) 7"
      "\<not> bit (m (p + 2)) 7"
  | "bit (m p) 7" "bit (m (p + 1)) 7" "bit (m (p + 2)) 7"
      "\<not> bit (m (p + 3)) 7"
  | "bit (m p) 7" "bit (m (p + 1)) 7" "bit (m (p + 2)) 7" "bit (m (p + 3)) 7"
      "\<not> bit (m (p + 4)) 7"
  | "bit (m p) 7" "bit (m (p + 1)) 7" "bit (m (p + 2)) 7" "bit (m (p + 3)) 7" "bit (m (p + 4)) 7"
      "\<not> bit (m (p + 5)) 7"
  | "bit (m p) 7" "bit (m (p + 1)) 7" "bit (m (p + 2)) 7" "bit (m (p + 3)) 7" "bit (m (p + 4)) 7" "bit (m (p + 5)) 7"
      "\<not> bit (m (p + 6)) 7"
  | "bit (m p) 7" "bit (m (p + 1)) 7" "bit (m (p + 2)) 7" "bit (m (p + 3)) 7" "bit (m (p + 4)) 7" "bit (m (p + 5)) 7" "bit (m (p + 6)) 7"
      "\<not> bit (m (p + 7)) 7"
  | "bit (m p) 7" "bit (m (p + 1)) 7" "bit (m (p + 2)) 7" "bit (m (p + 3)) 7" "bit (m (p + 4)) 7" "bit (m (p + 5)) 7" "bit (m (p + 6)) 7" "bit (m (p + 7)) 7"
  by blast

lemma get_varint_is_loop: "sqlite3GetVarint m p = varint_spec m p"
proof (cases rule: exit_cases [of m p])
  case 1
  then show ?thesis
    by (simp only: reader_unroll reg_value_1 simp_thms if_True if_False) simp
next
  case 2
  then show ?thesis
    by (simp only: reader_unroll reg_value_2 simp_thms if_True if_False) simp
next
  case 3
  then show ?thesis
    by (simp only: reader_unroll reg_value_3 simp_thms if_True if_False) simp
next
  case 4
  then show ?thesis
    by (simp only: reader_unroll reg_value_4 simp_thms if_True if_False) simp
next
  case 5
  then show ?thesis
    by (simp only: reader_unroll reg_value_5 simp_thms if_True if_False) simp
next
  case 6
  then show ?thesis
    by (simp only: reader_unroll reg_value_6 simp_thms if_True if_False) simp
next
  case 7
  then show ?thesis
    by (simp only: reader_unroll reg_value_7 simp_thms if_True if_False) simp
next
  case 8
  then show ?thesis
    by (simp only: reader_unroll reg_value_8 simp_thms if_True if_False) simp
next
  case 9
  then show ?thesis
    by (simp only: reader_unroll reg_value_9 simp_thms if_True if_False) simp
qed


subsection \<open>What the writer stores\<close>

definition flagged :: "u64 \<Rightarrow> byte" where
  "flagged v = ucast ((v AND 0x7f) OR 0x80)"

definition group_value :: "u64 \<Rightarrow> byte list \<Rightarrow> u64" where
  "group_value acc xs = fold (\<lambda>x acc. push_bit 7 acc OR ucast (x AND 0x7f)) xs acc"

lemma group_value_simps [simp]:
  "group_value acc [] = acc"
  "group_value acc (x # xs) = group_value (push_bit 7 acc OR ucast (x AND 0x7f)) xs"
  "group_value acc (xs @ [x]) = push_bit 7 (group_value acc xs) OR ucast (x AND 0x7f)"
  by (simp_all add: group_value_def)

lemma join_7: "push_bit 7 (drop_bit 7 v) OR ucast (flagged v AND 0x7f) = v"
  by (rule u64_eqI) (simp add: word_bits flagged_def)

lemma last_group: "flagged v AND 0x7f = ucast (v AND 0x7f)"
  by (rule byte_eqI) (simp add: word_bits flagged_def)

lemma join_8: "push_bit 8 (drop_bit 8 v) OR ucast (ucast v :: byte) = (v :: u64)"
  by (rule u64_eqI) (simp add: word_bits)

lemma flagged_bit [simp]: "bit (flagged v) 7" "\<not> bit (flagged v AND 0x7f) 7"
  by (simp_all add: flagged_def bit_simps)

lemma varint_loop_flagged:
  "list_all (\<lambda>x. bit x 7) xs \<Longrightarrow> ys \<noteq> [] \<Longrightarrow>
   varint_loop i acc (xs @ ys) = varint_loop (i + length xs) (group_value acc xs) ys"
proof (induction xs arbitrary: i acc)
  case (Cons x xs)
  then obtain z zs where "xs @ ys = z # zs" by (cases "xs @ ys") auto
  with Cons show ?case by simp
qed simp

lemma varint_loop_last:
  "\<not> bit y 7 \<Longrightarrow> ys \<noteq> [] \<Longrightarrow>
   varint_loop i acc (y # ys) = (i + 1, push_bit 7 acc OR ucast (y AND 0x7f))"
  by (cases ys) auto

text \<open>The groups of the short form, and the eight flagged groups of the nine byte form.\<close>

lemma put_groups_flagged: "put_groups (Suc k) v = flagged v
     # (if drop_bit 7 v = 0 then [] else put_groups k (drop_bit 7 v))"
  by (simp add: flagged_def)

lemma all_flagged: "list_all (\<lambda>x. bit x 7) (put_groups k v)"
  by (induction k v rule: put_groups.induct) (auto simp: put_groups_flagged simp del: put_groups.simps(2))

lemma put_groups_value:
  "drop_bit (7 * Suc k) v = 0 \<Longrightarrow> group_value 0 (rev (put_groups (Suc k) v)) = v"
proof (induction k arbitrary: v)
  case 0
  then show ?case using join_7 [of v] by (simp add: put_groups_flagged del: put_groups.simps(2))
next
  case (Suc k)
  have "drop_bit (7 * Suc k) (drop_bit 7 v) = 0" using Suc.prems by (simp add: add.commute)
  then have tl: "group_value 0 (rev (put_groups (Suc k) (drop_bit 7 v))) = drop_bit 7 v"
    by (rule Suc.IH)
  show ?case
  proof (cases "drop_bit 7 v = 0")
    case True
    then show ?thesis using join_7 [of v]
      by (simp add: put_groups_flagged del: put_groups.simps(2))
  next
    case False
    with tl join_7 [of v] show ?thesis
      by (subst put_groups_flagged) (simp del: put_groups.simps(2))
  qed
qed

lemma put_groups_length:
  "drop_bit (7 * Suc j) v = 0 \<Longrightarrow> length (put_groups k v) \<le> Suc j"
proof (induction j arbitrary: k v)
  case 0
  then show ?case by (cases k) simp_all
next
  case (Suc j)
  show ?case
  proof (cases k)
    case (Suc k')
    have "drop_bit (7 * Suc j) (drop_bit 7 v) = 0" using Suc.prems by (simp add: add.commute)
    with Suc.IH [of "drop_bit 7 v" k'] Suc show ?thesis by simp
  qed simp
qed

fun slots :: "nat \<Rightarrow> u64 \<Rightarrow> byte list" where
  "slots 0 v = []"
| "slots (Suc k) v = slots k (drop_bit 7 v) @ [flagged v]"

lemma slots_length [simp]: "length (slots k v) = k"
  by (induction k v rule: slots.induct) simp_all

lemma slots_flagged: "list_all (\<lambda>x. bit x 7) (slots k v)"
  by (induction k v rule: slots.induct) simp_all

lemma slots_value: "drop_bit (7 * k) v = 0 \<Longrightarrow> group_value 0 (slots k v) = v"
proof (induction k arbitrary: v)
  case (Suc k)
  have "drop_bit (7 * k) (drop_bit 7 v) = 0" using Suc.prems by (simp add: add.commute)
  with Suc.IH [of "drop_bit 7 v"] join_7 [of v] show ?case by simp
qed simp

subsection \<open>Stores\<close>

lemma put_bytes_frame: "q < p \<or> p + length xs \<le> q \<Longrightarrow> put_bytes m p xs q = m q"
  by (induction m p xs rule: put_bytes.induct) auto

lemma put_bytes_at: "i < length xs \<Longrightarrow> put_bytes m p xs (p + i) = xs ! i"
proof (induction m p xs arbitrary: i rule: put_bytes.induct)
  case (2 m p x xs)
  show ?case
  proof (cases i)
    case 0
    then show ?thesis by (simp add: put_bytes_frame)
  next
    case (Suc j)
    with "2.IH" [of j] "2.prems" show ?thesis by (simp del: fun_upd_apply)
  qed
qed simp

lemma put_bytes_append:
  "put_bytes m p (xs @ ys) = put_bytes (put_bytes m p xs) (p + length xs) ys"
  by (induction m p xs rule: put_bytes.induct) (simp_all del: fun_upd_apply)

lemma put_bytes_upd_after:
  "p + length xs \<le> q \<Longrightarrow> put_bytes (m(q := x)) p xs = (put_bytes m p xs)(q := x)"
proof (induction m p xs rule: put_bytes.induct)
  case (2 m p y ys)
  then show ?case by (simp add: fun_upd_twist [of p q m] del: fun_upd_apply)
qed simp

lemma put_slots_bytes: "put_slots m p k v = put_bytes m p (slots k v)"
proof (induction m p k v rule: put_slots.induct)
  case (2 m p i v)
  then show ?case
    by (simp add: put_bytes_append put_bytes_upd_after flagged_def del: fun_upd_apply)
qed simp

lemma nine_put_bytes:
  "length xs \<le> 9 \<Longrightarrow> nine (put_bytes m p xs) p = xs @ drop (length xs) (nine m p)"
proof (rule nth_equalityI)
  fix i assume le: "length xs \<le> 9" and "i < length (nine (put_bytes m p xs) p)"
  then have i: "i < 9" by (simp add: nine_def)
  have at: "nine m' p ! i = m' (p + i)" for m'
    using i by (auto simp: nine_def less_Suc_eq numeral_eq_Suc)
  show "nine (put_bytes m p xs) p ! i = (xs @ drop (length xs) (nine m p)) ! i"
  proof (cases "i < length xs")
    case True
    then show ?thesis by (simp add: at put_bytes_at nth_append)
  next
    case False
    have "length (nine m p) = 9" by (simp add: nine_def)
    with False i le at [of m] show ?thesis
      by (simp add: at put_bytes_frame nth_append)
  qed
qed (simp add: nine_def)


subsection \<open>The writer in one form\<close>

text \<open>
  The fast paths and the two loops of the writer store one list of bytes: flagged groups
  and then an unflagged group, or eight flagged groups and then a byte.
\<close>

definition big :: "u64 \<Rightarrow> bool" where
  "big v \<longleftrightarrow> v AND push_bit 32 0xff000000 \<noteq> 0"

definition short_bytes :: "u64 \<Rightarrow> byte list" where
  "short_bytes v = rev (tl (put_groups 10 v)) @ [flagged v AND 0x7f]"

definition varint_bytes :: "u64 \<Rightarrow> byte list" where
  "varint_bytes v = (if big v then slots 8 (drop_bit 8 v) @ [ucast v] else short_bytes v)"

lemma ten: "(10 :: nat) = Suc 9"
  by simp

lemma nine_Suc: "(9 :: nat) = Suc 8"
  by simp

lemma put_groups_10: "put_groups 10 v = flagged v # tl (put_groups 10 v)"
  by (simp only: ten put_groups_flagged list.sel)

lemma tl_groups:
  "tl (put_groups 10 v) = (if drop_bit 7 v = 0 then [] else put_groups 9 (drop_bit 7 v))"
  by (simp only: ten put_groups_flagged list.sel)

lemma not_big_drop: "\<not> big v \<Longrightarrow> drop_bit 56 v = 0"
proof (rule u64_eqI)
  assume "\<not> big v"
  then have "bit (v AND push_bit 32 0xff000000) i \<longleftrightarrow> bit (0 :: u64) i" for i
    by (simp add: big_def)
  from this [of 56] this [of 57] this [of 58] this [of 59] this [of 60] this [of 61]
    this [of 62] this [of 63]
  show "list_all (\<lambda>n. bit (drop_bit 56 v) n = bit (0 :: u64) n) [0..<64]"
    by (simp add: word_bits)
qed

lemma small_not_big: "unat v < 2 ^ 14 \<Longrightarrow> \<not> big v"
proof -
  assume v: "unat v < 2 ^ 14"
  have "v AND push_bit 32 0xff000000 = 0"
    by (rule u64_eqI) (use small_bits [OF v] in \<open>simp add: word_bits\<close>)
  then show ?thesis by (simp add: big_def)
qed

lemma putVarint64_bytes: "putVarint64 m p v = (put_bytes m p (varint_bytes v), length (varint_bytes v))"
proof (cases "big v")
  case True
  then show ?thesis
    by (simp add: putVarint64_def varint_bytes_def big_def put_slots_bytes put_bytes_append
        put_bytes_upd_after del: fun_upd_apply)
next
  case False
  have "(put_groups 10 v) [0 := put_groups 10 v ! 0 AND 0x7f]
      = (flagged v AND 0x7f) # tl (put_groups 10 v)"
    by (subst (1 2) put_groups_10) simp
  moreover have "length (put_groups 10 v) = Suc (length (tl (put_groups 10 v)))"
    by (subst put_groups_10) simp
  ultimately show ?thesis
    using False by (simp add: putVarint64_def varint_bytes_def big_def short_bytes_def Let_def)
qed

lemma put_varint_bytes:
  "sqlite3PutVarint m p v = (put_bytes m p (varint_bytes v), length (varint_bytes v))"
proof -
  consider "v \<le> 0x7f" | "\<not> v \<le> 0x7f" "v \<le> 0x3fff" | "\<not> v \<le> 0x7f" "\<not> v \<le> 0x3fff" by blast
  then show ?thesis
  proof cases
    case 1
    then have v: "unat v < 2 ^ 7" by unat_arith
    then have "unat v < 2 ^ 14" by simp
    then have nb: "\<not> big v" by (rule small_not_big)
    have "drop_bit 7 v = 0" using v by (simp only: drop_zero_iff)
    then have "tl (put_groups 10 v) = []" by (simp add: tl_groups)
    with 1 nb show ?thesis
      by (simp add: sqlite3PutVarint_def varint_bytes_def short_bytes_def last_group)
  next
    case 2
    then have v: "unat v < 2 ^ 14" by unat_arith
    then have nb: "\<not> big v" by (rule small_not_big)
    have "\<not> unat v < 2 ^ 7" using 2(1) by unat_arith
    then have "drop_bit 7 v \<noteq> 0" by (simp add: drop_zero_iff)
    moreover have "drop_bit 14 v = 0" using v by (simp only: drop_zero_iff)
    then have "drop_bit 7 (drop_bit 7 v) = 0" by simp
    ultimately have "tl (put_groups 10 v) = [flagged (drop_bit 7 v)]"
      by (simp only: tl_groups nine_Suc put_groups_flagged if_False if_True simp_thms)
    with 2 nb show ?thesis
      by (simp add: sqlite3PutVarint_def varint_bytes_def short_bytes_def last_group,
        simp add: flagged_def)
  next
    case 3
    then show ?thesis by (simp add: sqlite3PutVarint_def putVarint64_bytes)
  qed
qed

lemma varint_bytes_decode:
  assumes "length rest = 9 - length (varint_bytes v)"
  shows "varint_loop 0 0 (varint_bytes v @ rest) = (length (varint_bytes v), v)"
proof (cases "big v")
  case True
  have d: "drop_bit (7 * 8) (drop_bit 8 v) = 0"
    by (rule u64_eqI) (simp add: word_bits)
  have "varint_loop 0 0 (slots 8 (drop_bit 8 v) @ [ucast v])
      = varint_loop 8 (drop_bit 8 v) [ucast v]"
    using varint_loop_flagged [OF slots_flagged [of 8 "drop_bit 8 v"], of "[ucast v]" 0 0]
    by (simp add: slots_value [OF d])
  moreover have "rest = []" using assms True by (simp add: varint_bytes_def)
  ultimately show ?thesis using True by (simp add: varint_bytes_def join_8)
next
  case False
  let ?g = "put_groups 10 v"
  from not_big_drop [OF False] have "length ?g \<le> 8"
    using put_groups_length [of 7 v 10] by simp
  then have "length (tl ?g) \<le> 7" by simp
  with assms False have ne: "rest \<noteq> []"
    by (auto simp: varint_bytes_def short_bytes_def simp del: length_tl)
  have fl: "list_all (\<lambda>x. bit x 7) (rev (tl ?g))"
    using all_flagged [of 10 v] by (subst (asm) put_groups_10) (simp add: list_all_iff)
  have val: "group_value 0 (rev (tl ?g)) = drop_bit 7 v"
  proof (cases "drop_bit 7 v = 0")
    case True
    then show ?thesis by (simp add: tl_groups)
  next
    case F: False
    then have "tl ?g = put_groups (Suc 8) (drop_bit 7 v)"
      by (simp only: tl_groups nine_Suc if_False)
    moreover have "drop_bit (7 * Suc 8) (drop_bit 7 v) = 0"
      by (rule u64_eqI) (simp add: word_bits)
    ultimately show ?thesis using put_groups_value [of 8 "drop_bit 7 v"] by simp
  qed
  from varint_loop_flagged [OF fl, of "(flagged v AND 0x7f) # rest" 0 0]
  have "varint_loop 0 0 (rev (tl ?g) @ (flagged v AND 0x7f) # rest)
     = (length (tl ?g) + 1, push_bit 7 (drop_bit 7 v) OR ucast (flagged v AND 0x7f AND 0x7f))"
    by (simp add: val varint_loop_last [OF flagged_bit(2) ne])
  with False show ?thesis by (simp add: varint_bytes_def short_bytes_def join_7)
qed


lemma varint_bytes_length_le: "length (varint_bytes v) \<le> 9"
proof (cases "big v")
  case False
  then have "length (put_groups 10 v) \<le> 8"
    using put_groups_length [of 7 v 10] not_big_drop by simp
  with False show ?thesis by (simp add: varint_bytes_def short_bytes_def)
qed (simp add: varint_bytes_def)

subsection \<open>Lengths\<close>

lemma put_groups_more:
  "drop_bit (7 * Suc k) v = 0 \<Longrightarrow> put_groups (Suc (Suc k)) v = put_groups (Suc k) v"
proof (induction k arbitrary: v)
  case (Suc k)
  have "drop_bit (7 * Suc k) (drop_bit 7 v) = 0" using Suc.prems by (simp add: add.commute)
  with Suc.IH [of "drop_bit 7 v"] show ?case
    by (simp only: put_groups_flagged [of "Suc (Suc k)"] put_groups_flagged [of "Suc k"])
qed simp

lemma varint_len_groups:
  "varint_len_loop k v i + 1 = i + length (put_groups (Suc k) v)"
proof (induction k v i rule: varint_len_loop.induct)
  case (2 k v i)
  then show ?case
    by (simp add: Let_def put_groups_flagged [of "Suc k"] del: put_groups.simps(2))
qed simp

lemma varint_len_eq: "sqlite3VarintLen v = length (put_groups 10 v)"
proof -
  have "drop_bit (7 * Suc 9) v = 0" by (rule u64_eqI) (simp add: word_bits)
  from put_groups_more [OF this] have "length (put_groups (Suc 10) v) = length (put_groups 10 v)"
    by (simp only: ten)
  with varint_len_groups [of 10 v 1] show ?thesis by (simp add: sqlite3VarintLen_def)
qed

lemma put_groups_length_gt:
  "drop_bit (7 * j) v \<noteq> 0 \<Longrightarrow> j < k \<Longrightarrow> j < length (put_groups k v)"
proof (induction j arbitrary: k v)
  case 0
  then show ?case by (cases k) simp_all
next
  case (Suc j)
  then obtain k' where k: "k = Suc k'" by (cases k) auto
  have d: "drop_bit (7 * j) (drop_bit 7 v) \<noteq> 0" using Suc.prems by (simp add: add.commute)
  then have "drop_bit 7 v \<noteq> 0" by (rule contrapos_nn) (simp only: drop_bit_of_0)
  with Suc.IH [OF d, of k'] Suc.prems k show ?case by simp
qed

text \<open>The number of groups is the least that holds the value, but the tenth is never written.\<close>

lemma varint_len_le: "unat v < 2 ^ (7 * Suc j) \<Longrightarrow> sqlite3VarintLen v \<le> Suc j"
  by (simp only: varint_len_eq drop_zero_iff [symmetric] put_groups_length)

lemma varint_len_gt: "2 ^ (7 * j) \<le> unat v \<Longrightarrow> j < 10 \<Longrightarrow> j < sqlite3VarintLen v"
  using put_groups_length_gt [of j v 10] by (simp add: varint_len_eq drop_zero_iff)

lemma varint_len_range: "1 \<le> sqlite3VarintLen v \<and> sqlite3VarintLen v \<le> 10"
proof -
  have "unat v < 2 ^ (7 * Suc 9)" using u64_bound [of v] by simp
  moreover have "1 \<le> sqlite3VarintLen v" by (subst varint_len_eq, subst put_groups_10) simp
  ultimately show ?thesis using varint_len_le [of v 9] by simp
qed

lemma varint_len_bounds:
  "unat v < 2 ^ (7 * sqlite3VarintLen v) \<and>
   (sqlite3VarintLen v = 1 \<or> 2 ^ (7 * (sqlite3VarintLen v - 1)) \<le> unat v)"
proof -
  obtain l where l: "sqlite3VarintLen v = Suc l" "l < 10"
    using varint_len_range [of v] by (cases "sqlite3VarintLen v") auto
  have "unat v < 2 ^ (7 * Suc l)"
  proof (cases "Suc l < 10")
    case True
    then show ?thesis using varint_len_gt [of "Suc l" v] l by fastforce
  next
    case False
    with l have "l = 9" by simp
    then show ?thesis using u64_bound [of v] by simp
  qed
  moreover have "l = 0 \<or> 2 ^ (7 * l) \<le> unat v"
    using varint_len_le [of v "l - 1"] l by (cases l) (auto simp: not_less [symmetric])
  ultimately show ?thesis using l by simp
qed

lemma big_iff: "big v \<longleftrightarrow> 2 ^ 56 \<le> unat v"
proof -
  have "big v" if "2 ^ 56 \<le> unat v"
    using not_big_drop [of v] that drop_zero_iff [of 56 v] by auto
  moreover have "\<not> big v" if v: "unat v < 2 ^ 56"
  proof -
    have "v AND push_bit 32 0xff000000 = 0"
      by (rule u64_eqI) (use small_bits [OF v] in \<open>simp add: word_bits\<close>)
    then show ?thesis by (simp add: big_def)
  qed
  ultimately show ?thesis by (auto simp: not_le [symmetric])
qed

lemma varint_bytes_length: "length (varint_bytes v) = min 9 (sqlite3VarintLen v)"
proof (cases "big v")
  case True
  then have "8 < sqlite3VarintLen v" using varint_len_gt [of 8 v] by (simp add: big_iff)
  with True show ?thesis by (simp add: varint_bytes_def)
next
  case False
  then have "sqlite3VarintLen v \<le> 8" using varint_len_le [of v 7] by (simp add: big_iff not_le)
  moreover have "length (short_bytes v) = length (put_groups 10 v)"
    unfolding short_bytes_def by (subst (2) put_groups_10) simp
  ultimately show ?thesis using False by (simp add: varint_bytes_def varint_len_eq)
qed


subsection \<open>The narrow reader\<close>

definition saturate32 :: "nat \<times> u64 \<Rightarrow> nat \<times> u32" where
  "saturate32 r = (fst r, if unat (snd r) < 2 ^ 32 then ucast (snd r) else 0xffffffff)"

lemma fits_32: "(v AND 0xffffffff \<noteq> v) \<longleftrightarrow> \<not> unat (v :: u64) < 2 ^ 32"
proof -
  have "v AND 0xffffffff = v" if v: "unat v < 2 ^ 32"
    by (rule u64_eqI) (use small_bits [OF v] in \<open>simp add: word_bits\<close>)
  moreover have "drop_bit 32 v = 0" if v: "v AND 0xffffffff = v"
  proof -
    have "drop_bit 32 (v AND 0xffffffff) = 0" by (rule u64_eqI) (simp add: word_bits)
    with v show ?thesis by simp
  qed
  ultimately show ?thesis by (auto simp: drop_zero_iff)
qed

lemma saturate32_widen: "saturate32 (i, ucast x) = (i, x)"
proof -
  have "drop_bit 32 (ucast x :: u64) = 0"
    by (rule bit_word_eqI) (auto simp: bit_simps dest: bit_imp_le_length)
  then have "unat (ucast x :: u64) < 2 ^ 32" by (simp only: drop_zero_iff)
  moreover have "ucast (ucast x :: u64) = x"
    by (rule bit_word_eqI) (simp add: bit_simps)
  ultimately show ?thesis by (simp add: saturate32_def)
qed

lemma byte_flag: "(x :: byte) < 0x80 \<longleftrightarrow> \<not> bit x 7"
proof -
  have "\<not> bit x 7 \<Longrightarrow> drop_bit 7 x = 0" by (rule byte_eqI) (simp add: word_bits)
  moreover have "bit x 7 \<Longrightarrow> bit (drop_bit 7 x) 0" by (simp add: bit_simps)
  ultimately have "\<not> bit x 7 \<longleftrightarrow> drop_bit 7 x = 0" by auto
  also have "\<dots> \<longleftrightarrow> unat x < 128" by (simp add: drop_zero_iff)
  also have "\<dots> \<longleftrightarrow> x < 0x80" by (simp add: word_less_nat_alt)
  finally show ?thesis by simp
qed

lemma get_varint32_saturates: "getVarint32 m p = saturate32 (sqlite3GetVarint m p)"
proof (cases "bit (m p) 7")
  case False
  then have "sqlite3GetVarint m p = (1, ucast (ucast (m p) :: u32))"
    by (simp only: reader_unroll simp_thms if_True)
  with False show ?thesis by (simp only: saturate32_widen) (simp add: getVarint32_def byte_flag)
next
  case b0: True
  then have "getVarint32 m p = sqlite3GetVarint32 m p" by (simp add: getVarint32_def byte_flag)
  moreover have "sqlite3GetVarint32 m p = saturate32 (sqlite3GetVarint m p)"
  proof (cases "bit (m (p + 1)) 7 \<and> bit (m (p + 2)) 7")
    case True
    then show ?thesis
      by (simp add: sqlite3GetVarint32_def Let_def flag_byte flag_shifted saturate32_def fits_32
          split: prod.split)
  next
    case False
    then consider "\<not> bit (m (p + 1)) 7" | "bit (m (p + 1)) 7" "\<not> bit (m (p + 2)) 7" by blast
    then show ?thesis
    proof cases
      case 1
      with b0 show ?thesis
        by (simp only: reader_unroll sqlite3GetVarint32_def saturate32_widen simp_thms
            if_True if_False)
    next
      case 2
      have mask: "push_bit 14 0x7f OR 0x7f = SLOT_2_0" by (simp add: SLOT_2_0_def)
      from 2 b0 show ?thesis
        by (simp only: reader_unroll sqlite3GetVarint32_def saturate32_widen simp_thms mask
            if_True if_False)
    qed
  qed
  ultimately show ?thesis by simp
qed

subsection \<open>Properties\<close>

text \<open>
  C12. The unrolled reader is the loop of the file format: on every memory it returns the
  number of bytes and the 64-bit value that the byte by byte decoder returns for the nine
  bytes at \<open>p\<close>, although it never holds more than 32 bits in a register.
\<close>

theorem get_varint_unrolled: "sqlite3GetVarint m p = varint_loop 0 0 (nine m p)"
  by (simp only: get_varint_is_loop varint_spec_def)

text \<open>
  C13. Round trip of the writer and the reader: a value written by \<open>sqlite3PutVarint\<close> is
  read back with the length the writer returned, between one and nine bytes; no other
  byte of the memory changes. The fixed-length pair and the 32-bit pair agree too.
\<close>

theorem varint_round_trip:
  "(case sqlite3PutVarint m p v of (m', l) \<Rightarrow>
      sqlite3GetVarint m' p = (l, v) \<and> 1 \<le> l \<and> l \<le> 9
      \<and> (\<forall>q. q \<in> {p..<p + l} \<or> m' q = m q))
   \<and> (case putVarint32 m p w of (m', l) \<Rightarrow> getVarint32 m' p = (l, w))
   \<and> sqlite3Get4byte (sqlite3Put4byte m p w) p = w"
proof -
  have get: "sqlite3GetVarint (put_bytes m p (varint_bytes x)) p = (length (varint_bytes x), x)" for x
    using varint_bytes_decode [of "drop (length (varint_bytes x)) (nine m p)" x]
      varint_bytes_length_le [of x]
    by (simp add: get_varint_is_loop varint_spec_def nine_put_bytes) (simp add: nine_def)
  have "q \<in> {p..<p + length (varint_bytes v)} \<or> put_bytes m p (varint_bytes v) q = m q" for q
    using put_bytes_frame [of q p "varint_bytes v" m] by (simp add: not_less) linarith
  moreover have "1 \<le> length (varint_bytes v)" using varint_len_range by (simp add: varint_bytes_length)
  moreover have "case putVarint32 m p w of (m', l) \<Rightarrow> getVarint32 m' p = (l, w)"
  proof (cases "w < 0x80")
    case True
    then have "unat w < 2 ^ 7" by unat_arith
    then have w: "\<not> bit w i" if "7 \<le> i" for i
      using that by (rule small_bits)
    have "ucast (ucast w :: byte) = w"
      by (rule u32_eqI) (simp add: word_bits w)
    moreover have "(ucast w :: byte) < 0x80" by (simp add: byte_flag bit_simps w)
    ultimately show ?thesis using True by (simp add: putVarint32_def getVarint32_def)
  next
    case False
    with get [of "ucast w"] show ?thesis
      by (simp add: putVarint32_def get_varint32_saturates put_varint_bytes saturate32_widen)
  qed
  moreover have "sqlite3Get4byte (sqlite3Put4byte m p w) p = w"
    by (rule u32_eqI) (simp add: word_bits sqlite3Get4byte_def sqlite3Put4byte_def)
  ultimately show ?thesis
    using get [of v] varint_bytes_length_le [of v] by (simp add: put_varint_bytes)
qed

text \<open>
  \<open>sqlite3VarintLen\<close> is the least number of groups of seven bits that holds the
  value. It is the number of bytes the writer stores exactly below \<open>2 ^ 63\<close>: from there on
  (every negative rowid) it returns ten, and the writer stores nine.
\<close>

theorem varint_len_exact:
  "unat v < 2 ^ (7 * sqlite3VarintLen v)
   \<and> (sqlite3VarintLen v = 1 \<or> 2 ^ (7 * (sqlite3VarintLen v - 1)) \<le> unat v)
   \<and> snd (sqlite3PutVarint m p v) = min 9 (sqlite3VarintLen v)
   \<and> (sqlite3VarintLen v = 10 \<longleftrightarrow> 2 ^ 63 \<le> unat v)"
proof -
  have "sqlite3VarintLen v = 10 \<longleftrightarrow> 2 ^ 63 \<le> unat v"
    using varint_len_range [of v] varint_len_gt [of 9 v] varint_len_le [of v 8]
    by (auto simp: not_less [symmetric])
  then show ?thesis
    using varint_len_bounds [of v] by (simp add: put_varint_bytes varint_bytes_length)
qed

text \<open>
  The 32-bit reader saturates: it consumes as many bytes as the 64-bit reader and
  returns its value when that fits in 32 bits, and the greatest 32-bit value otherwise.
\<close>

theorem get_varint32_saturating:
  "getVarint32 m p = (case sqlite3GetVarint m p of (l, v) \<Rightarrow>
     (l, if unat v < 2 ^ 32 then ucast v else 0xffffffff))"
  by (simp add: get_varint32_saturates saturate32_def split: prod.split)

end
