(* ===== verification/Ctype.thy ===== *)
theory Ctype
  imports Prelude
begin

section \<open>Character classes, case folding and quoting\<close>

text \<open>
  SQLite's own \<open>ctype.h\<close> (\<open>global.c\<close>: two tables of 256 bytes, read by the macros of
  \<open>sqliteInt.h\<close>) and the routines of \<open>util.c\<close> that are built on them: case-insensitive
  comparison of names and the removal of SQL quotes. The tables are transcribed entry by
  entry; the lemmas give the classes and the folding in closed form, which is what the
  scanners of the other theories use.

  A C string is the list of its bytes before the terminator; \<open>hd0\<close> reads the byte a
  pointer shows, which is the terminator at the end.
\<close>

definition sqlite3UpperToLower :: "byte list" where
  "sqlite3UpperToLower =
    [0, 1, 2, 3, 4, 5, 6, 7, 8, 9, 10, 11, 12, 13, 14, 15, 16, 17,
     18, 19, 20, 21, 22, 23, 24, 25, 26, 27, 28, 29, 30, 31, 32, 33, 34, 35,
     36, 37, 38, 39, 40, 41, 42, 43, 44, 45, 46, 47, 48, 49, 50, 51, 52, 53,
     54, 55, 56, 57, 58, 59, 60, 61, 62, 63, 64, 97, 98, 99, 100, 101, 102, 103,
     104, 105, 106, 107, 108, 109, 110, 111, 112, 113, 114, 115, 116, 117, 118, 119, 120, 121,
     122, 91, 92, 93, 94, 95, 96, 97, 98, 99, 100, 101, 102, 103, 104, 105, 106, 107,
     108, 109, 110, 111, 112, 113, 114, 115, 116, 117, 118, 119, 120, 121, 122, 123, 124, 125,
     126, 127, 128, 129, 130, 131, 132, 133, 134, 135, 136, 137, 138, 139, 140, 141, 142, 143,
     144, 145, 146, 147, 148, 149, 150, 151, 152, 153, 154, 155, 156, 157, 158, 159, 160, 161,
     162, 163, 164, 165, 166, 167, 168, 169, 170, 171, 172, 173, 174, 175, 176, 177, 178, 179,
     180, 181, 182, 183, 184, 185, 186, 187, 188, 189, 190, 191, 192, 193, 194, 195, 196, 197,
     198, 199, 200, 201, 202, 203, 204, 205, 206, 207, 208, 209, 210, 211, 212, 213, 214, 215,
     216, 217, 218, 219, 220, 221, 222, 223, 224, 225, 226, 227, 228, 229, 230, 231, 232, 233,
     234, 235, 236, 237, 238, 239, 240, 241, 242, 243, 244, 245, 246, 247, 248, 249, 250, 251,
     252, 253, 254, 255]"

definition sqlite3CtypeMap :: "byte list" where
  "sqlite3CtypeMap =
    [0x00, 0x00, 0x00, 0x00, 0x00, 0x00, 0x00, 0x00, 0x00, 0x01, 0x01, 0x01, 0x01, 0x01, 0x00, 0x00,
     0x00, 0x00, 0x00, 0x00, 0x00, 0x00, 0x00, 0x00, 0x00, 0x00, 0x00, 0x00, 0x00, 0x00, 0x00, 0x00,
     0x01, 0x00, 0x80, 0x00, 0x40, 0x00, 0x00, 0x80, 0x00, 0x00, 0x00, 0x00, 0x00, 0x00, 0x00, 0x00,
     0x0c, 0x0c, 0x0c, 0x0c, 0x0c, 0x0c, 0x0c, 0x0c, 0x0c, 0x0c, 0x00, 0x00, 0x00, 0x00, 0x00, 0x00,
     0x00, 0x0a, 0x0a, 0x0a, 0x0a, 0x0a, 0x0a, 0x02, 0x02, 0x02, 0x02, 0x02, 0x02, 0x02, 0x02, 0x02,
     0x02, 0x02, 0x02, 0x02, 0x02, 0x02, 0x02, 0x02, 0x02, 0x02, 0x02, 0x80, 0x00, 0x00, 0x00, 0x40,
     0x80, 0x2a, 0x2a, 0x2a, 0x2a, 0x2a, 0x2a, 0x22, 0x22, 0x22, 0x22, 0x22, 0x22, 0x22, 0x22, 0x22,
     0x22, 0x22, 0x22, 0x22, 0x22, 0x22, 0x22, 0x22, 0x22, 0x22, 0x22, 0x00, 0x00, 0x00, 0x00, 0x00,
     0x40, 0x40, 0x40, 0x40, 0x40, 0x40, 0x40, 0x40, 0x40, 0x40, 0x40, 0x40, 0x40, 0x40, 0x40, 0x40,
     0x40, 0x40, 0x40, 0x40, 0x40, 0x40, 0x40, 0x40, 0x40, 0x40, 0x40, 0x40, 0x40, 0x40, 0x40, 0x40,
     0x40, 0x40, 0x40, 0x40, 0x40, 0x40, 0x40, 0x40, 0x40, 0x40, 0x40, 0x40, 0x40, 0x40, 0x40, 0x40,
     0x40, 0x40, 0x40, 0x40, 0x40, 0x40, 0x40, 0x40, 0x40, 0x40, 0x40, 0x40, 0x40, 0x40, 0x40, 0x40,
     0x40, 0x40, 0x40, 0x40, 0x40, 0x40, 0x40, 0x40, 0x40, 0x40, 0x40, 0x40, 0x40, 0x40, 0x40, 0x40,
     0x40, 0x40, 0x40, 0x40, 0x40, 0x40, 0x40, 0x40, 0x40, 0x40, 0x40, 0x40, 0x40, 0x40, 0x40, 0x40,
     0x40, 0x40, 0x40, 0x40, 0x40, 0x40, 0x40, 0x40, 0x40, 0x40, 0x40, 0x40, 0x40, 0x40, 0x40, 0x40,
     0x40, 0x40, 0x40, 0x40, 0x40, 0x40, 0x40, 0x40, 0x40, 0x40, 0x40, 0x40, 0x40, 0x40, 0x40, 0x40]"

definition ctype_bit :: "byte \<Rightarrow> byte \<Rightarrow> bool" where
  "ctype_bit b c \<longleftrightarrow> sqlite3CtypeMap ! unat c AND b \<noteq> 0"

definition sqlite3Isspace :: "byte \<Rightarrow> bool" where "sqlite3Isspace c = ctype_bit 0x01 c"
definition sqlite3Isalpha :: "byte \<Rightarrow> bool" where "sqlite3Isalpha c = ctype_bit 0x02 c"
definition sqlite3Isdigit :: "byte \<Rightarrow> bool" where "sqlite3Isdigit c = ctype_bit 0x04 c"
definition sqlite3Isalnum :: "byte \<Rightarrow> bool" where "sqlite3Isalnum c = ctype_bit 0x06 c"
definition sqlite3Isxdigit :: "byte \<Rightarrow> bool" where "sqlite3Isxdigit c = ctype_bit 0x08 c"
definition sqlite3Isquote :: "byte \<Rightarrow> bool" where "sqlite3Isquote c = ctype_bit 0x80 c"
definition IdChar :: "byte \<Rightarrow> bool" where "IdChar c = ctype_bit 0x46 c"

definition sqlite3Toupper :: "byte \<Rightarrow> byte" where
  "sqlite3Toupper c = c AND NOT (sqlite3CtypeMap ! unat c AND 0x20)"

definition sqlite3Tolower :: "byte \<Rightarrow> byte" where
  "sqlite3Tolower c = sqlite3UpperToLower ! unat c"

subsection \<open>The tables in closed form\<close>

definition ctype_class :: "byte \<Rightarrow> byte" where
  "ctype_class c =
     (if c = 0x20 \<or> (9 \<le> c \<and> c \<le> 13) then 0x01
      else if 48 \<le> c \<and> c \<le> 57 then 0x0c
      else if 65 \<le> c \<and> c \<le> 70 then 0x0a
      else if 71 \<le> c \<and> c \<le> 90 then 0x02
      else if 97 \<le> c \<and> c \<le> 102 then 0x2a
      else if 103 \<le> c \<and> c \<le> 122 then 0x22
      else if c = 36 \<or> c = 95 \<or> 128 \<le> c then 0x40
      else if c = 34 \<or> c = 39 \<or> c = 91 \<or> c = 96 then 0x80
      else 0)"

lemma upper_to_lower_table: "sqlite3UpperToLower = map tolower all_bytes"
  by code_simp

lemma ctype_table: "sqlite3CtypeMap = map ctype_class all_bytes"
  by code_simp

lemma upto_nth: "0 \<le> i \<Longrightarrow> i \<le> b \<Longrightarrow> map f [0..b] ! nat i = f (i :: int)"
  by simp

lemma all_bytes_nth: "map f all_bytes ! unat c = f c"
proof -
  have "0 \<le> uint c" and "uint c \<le> 255" using uint_lt2p [of c] by simp_all
  from upto_nth [OF this, of "f \<circ> word_of_int"] show ?thesis
    unfolding all_bytes_def map_map by (simp only: unat_eq_nat_uint o_apply word_of_int_uint)
qed

lemma ctype_bit_eq: "ctype_bit b c \<longleftrightarrow> ctype_class c AND b \<noteq> 0"
  by (simp add: ctype_bit_def ctype_table all_bytes_nth)

lemma isspace_iff: "sqlite3Isspace c \<longleftrightarrow>
    c = 0x20 \<or> (9 \<le> c \<and> c \<le> 13)"
  unfolding sqlite3Isspace_def ctype_bit_eq
  by (rule all_bytesI) code_simp

lemma isdigit_iff: "sqlite3Isdigit c \<longleftrightarrow>
    48 \<le> c \<and> c \<le> 57"
  unfolding sqlite3Isdigit_def ctype_bit_eq
  by (rule all_bytesI) code_simp

lemma isalpha_iff: "sqlite3Isalpha c \<longleftrightarrow>
    (65 \<le> c \<and> c \<le> 90) \<or> (97 \<le> c \<and> c \<le> 122)"
  unfolding sqlite3Isalpha_def ctype_bit_eq
  by (rule all_bytesI) code_simp

lemma isalnum_iff: "sqlite3Isalnum c \<longleftrightarrow>
    (48 \<le> c \<and> c \<le> 57) \<or> (65 \<le> c \<and> c \<le> 90) \<or> (97 \<le> c \<and> c \<le> 122)"
  unfolding sqlite3Isalnum_def ctype_bit_eq
  by (rule all_bytesI) code_simp

lemma isxdigit_iff: "sqlite3Isxdigit c \<longleftrightarrow>
    (48 \<le> c \<and> c \<le> 57) \<or> (65 \<le> c \<and> c \<le> 70) \<or> (97 \<le> c \<and> c \<le> 102)"
  unfolding sqlite3Isxdigit_def ctype_bit_eq
  by (rule all_bytesI) code_simp

lemma isquote_iff: "sqlite3Isquote c \<longleftrightarrow>
    c = 34 \<or> c = 39 \<or> c = 91 \<or> c = 96"
  unfolding sqlite3Isquote_def ctype_bit_eq
  by (rule all_bytesI) code_simp

lemma idchar_iff: "IdChar c \<longleftrightarrow>
    (48 \<le> c \<and> c \<le> 57) \<or> (65 \<le> c \<and> c \<le> 90) \<or> (97 \<le> c \<and> c \<le> 122)
     \<or> c = 36 \<or> c = 95 \<or> 128 \<le> c"
  unfolding IdChar_def ctype_bit_eq
  by (rule all_bytesI) code_simp

lemma tolower_eq: "sqlite3Tolower c = tolower c"
  by (simp add: sqlite3Tolower_def upper_to_lower_table all_bytes_nth)

lemma tolower_0: "tolower c = 0 \<longleftrightarrow> c = 0"
  by (rule all_bytesI) code_simp

lemmas ctype_iff = isspace_iff isdigit_iff isalpha_iff isalnum_iff isxdigit_iff isquote_iff idchar_iff

subsection \<open>Comparison of names\<close>

definition hd0 :: "byte list \<Rightarrow> byte" where
  "hd0 s = (case s of [] \<Rightarrow> 0 | c # _ \<Rightarrow> c)"

lemma hd0_simps [simp]: "hd0 [] = 0" "hd0 (c # s) = c"
  by (simp_all add: hd0_def)

text \<open>The loop stops at a difference or at the terminator of the left string.\<close>

function sqlite3StrICmp :: "byte list \<Rightarrow> byte list \<Rightarrow> int" where
  "sqlite3StrICmp zLeft zRight =
     (let c = uint (sqlite3Tolower (hd0 zLeft)) - uint (sqlite3Tolower (hd0 zRight)) in
      if c \<noteq> 0 \<or> hd0 zLeft = 0 then c else sqlite3StrICmp (tl zLeft) (tl zRight))"
  by auto
termination
  by (relation "measure (\<lambda>(l, r). length l)") (auto simp: hd0_def split: list.splits)

text \<open>\<open>None\<close> is the null pointer.\<close>

definition sqlite3_stricmp :: "byte list option \<Rightarrow> byte list option \<Rightarrow> int" where
  "sqlite3_stricmp zLeft zRight =
     (case zLeft of
        None \<Rightarrow> (if zRight \<noteq> None then - 1 else 0)
      | Some l \<Rightarrow> (case zRight of None \<Rightarrow> 1 | Some r \<Rightarrow> sqlite3StrICmp l r))"

fun strnicmp_loop :: "byte list \<Rightarrow> byte list \<Rightarrow> nat \<Rightarrow> int" where
  "strnicmp_loop l r 0 = 0"
| "strnicmp_loop l r (Suc k) =
     (if hd0 l \<noteq> 0 \<and> sqlite3Tolower (hd0 l) = sqlite3Tolower (hd0 r)
      then strnicmp_loop (tl l) (tl r) k
      else uint (sqlite3Tolower (hd0 l)) - uint (sqlite3Tolower (hd0 r)))"

text \<open>
  \<open>while (N-- > 0 && ...)\<close> leaves \<open>N\<close> negative exactly when the count ran out, and then
  the result is 0; a negative count is no count at all.
\<close>

definition sqlite3_strnicmp :: "byte list option \<Rightarrow> byte list option \<Rightarrow> int \<Rightarrow> int" where
  "sqlite3_strnicmp zLeft zRight N =
     (case zLeft of
        None \<Rightarrow> (if zRight \<noteq> None then - 1 else 0)
      | Some l \<Rightarrow> (case zRight of None \<Rightarrow> 1 | Some r \<Rightarrow> strnicmp_loop l r (nat N)))"

definition sqlite3Strlen30 :: "byte list option \<Rightarrow> int" where
  "sqlite3Strlen30 z =
     (case z of None \<Rightarrow> 0 | Some s \<Rightarrow> 0x3fffffff AND c_int32 (int (length s)))"

declare sqlite3StrICmp.simps [simp del]

definition c_string :: "byte list \<Rightarrow> bool" where
  "c_string s \<longleftrightarrow> 0 \<notin> set s"

lemma c_string_simps [simp]:
  "c_string []" "c_string (c # s) \<longleftrightarrow> c \<noteq> 0 \<and> c_string s"
  by (auto simp: c_string_def)

text \<open>The order the comparison decides: byte by byte on the folded strings.\<close>

fun folded_less :: "byte list \<Rightarrow> byte list \<Rightarrow> bool" where
  "folded_less s [] \<longleftrightarrow> False"
| "folded_less [] (d # t) \<longleftrightarrow> True"
| "folded_less (c # s) (d # t) \<longleftrightarrow>
     tolower c < tolower d \<or> (tolower c = tolower d \<and> folded_less s t)"

lemma uint_diff:
  "(uint x - uint y = 0) = (x = y)" "(uint x - uint y < 0) = (x < (y :: byte))"
  by (auto simp: word_less_def word_uint_eq_iff)

lemma tolower_zero [simp]: "tolower 0 = 0"
  by (simp add: tolower_def)

lemma tolower_pos: "c \<noteq> 0 \<Longrightarrow> uint (tolower c) > 0"
proof -
  assume "c \<noteq> 0"
  then have "0 < tolower c" by (simp add: word_gt_0 tolower_0)
  then show ?thesis by (simp add: word_less_def)
qed

lemma stricmp_Nil: "sqlite3StrICmp [] r = - uint (tolower (hd0 r))"
  by (subst sqlite3StrICmp.simps) (simp add: tolower_eq)

lemma stricmp_Cons: "c \<noteq> 0 \<Longrightarrow> sqlite3StrICmp (c # s) r =
    (if tolower c = tolower (hd0 r) then sqlite3StrICmp s (tl r)
     else uint (tolower c) - uint (tolower (hd0 r)))"
  by (subst sqlite3StrICmp.simps) (auto simp: Let_def tolower_eq word_uint_eq_iff)

lemmas stricmp_simps = stricmp_Nil stricmp_Cons

lemma stricmp_zero_less:
  "c_string l \<Longrightarrow> c_string r \<Longrightarrow>
   (sqlite3StrICmp l r = 0 \<longleftrightarrow> lower l = lower r) \<and> (sqlite3StrICmp l r < 0 \<longleftrightarrow> folded_less l r)"
proof (induction l arbitrary: r)
  case Nil
  then show ?case by (cases r) (auto simp: stricmp_simps dest: tolower_pos)
next
  case step: (Cons c s)
  show ?case
  proof (cases r)
    case Nil
    with step.prems show ?thesis by (auto simp: stricmp_simps dest: tolower_pos)
  next
    case (Cons d t)
    with step.prems step.IH [of t] show ?thesis
      by (auto simp: stricmp_simps word_less_def word_uint_eq_iff)
  qed
qed

lemma stricmp_swap:
  "c_string l \<Longrightarrow> c_string r \<Longrightarrow> sqlite3StrICmp r l = - sqlite3StrICmp l r"
proof (induction l arbitrary: r)
  case Nil
  then show ?case by (cases r) (auto simp: stricmp_simps dest: tolower_pos)
next
  case (Cons c s)
  then show ?case by (cases r) (auto simp: stricmp_simps dest: tolower_pos)
qed

subsection \<open>Quotes\<close>

text \<open>
  The loop of \<open>sqlite3Dequote\<close> after the opening quote. It writes behind the byte it
  reads, so the in-place result is a list of its own. \<open>None\<close> is the failed assertion: the
  text ends before the closing quote.
\<close>

fun dequote_loop :: "byte \<Rightarrow> byte list \<Rightarrow> byte list option" where
  "dequote_loop quote [] = None"
| "dequote_loop quote [c] = (if c = quote then Some [] else None)"
| "dequote_loop quote (c # d # z) =
     (if c = quote
      then (if d = quote then map_option ((#) quote) (dequote_loop quote z) else Some [])
      else map_option ((#) c) (dequote_loop quote (d # z)))"

definition sqlite3Dequote :: "byte list \<Rightarrow> byte list option" where
  "sqlite3Dequote z =
     (let quote = hd0 z in
      if \<not> sqlite3Isquote quote then Some z
      else dequote_loop (if quote = 91 then 93 else quote) (tl z))"

text \<open>SQL quoting: the closing quote is doubled inside the text.\<close>

fun double_quotes :: "byte \<Rightarrow> byte list \<Rightarrow> byte list" where
  "double_quotes q [] = []"
| "double_quotes q (c # s) = (if c = q then c # c # double_quotes q s else c # double_quotes q s)"

definition sql_quote :: "byte \<Rightarrow> byte list \<Rightarrow> byte list" where
  "sql_quote q s = (let e = if q = 91 then 93 else q in q # double_quotes e s @ [e])"

lemma dequote_doubled:
  "hd0 rest \<noteq> e \<Longrightarrow> dequote_loop e (double_quotes e s @ e # rest) = Some s"
proof (induction s)
  case Nil
  then show ?case by (cases rest) auto
next
  case (Cons c s)
  obtain d t where "double_quotes e s @ e # rest = d # t"
    by (cases "double_quotes e s") auto
  with Cons show ?case by auto
qed

subsection \<open>Properties\<close>

text \<open>
  C14. Names are compared as the folded strings: \<open>sqlite3StrICmp\<close> is zero exactly on
  strings that are equal up to the case of the 26 ASCII letters, negative exactly when the
  first folded string comes first, and swapping the arguments changes the sign.
\<close>

theorem stricmp_orders_folded:
  assumes "c_string l" and "c_string r"
  shows "(sqlite3StrICmp l r = 0 \<longleftrightarrow> stricmp_eq l r)
    \<and> (sqlite3StrICmp l r < 0 \<longleftrightarrow> folded_less l r)
    \<and> sqlite3StrICmp r l = - sqlite3StrICmp l r"
  using assms stricmp_zero_less [of l r] stricmp_swap [of l r] by (simp add: stricmp_eq_def)

theorem stricmp_orders_folded_witness:
  "(sqlite3StrICmp [0x41, 0x62] [0x61, 0x42] = 0 \<longleftrightarrow> stricmp_eq [0x41, 0x62] [0x61, 0x42])
    \<and> (sqlite3StrICmp [0x41, 0x62] [0x61, 0x42] < 0 \<longleftrightarrow> folded_less [0x41, 0x62] [0x61, 0x42])
    \<and> sqlite3StrICmp [0x61, 0x42] [0x41, 0x62] = - sqlite3StrICmp [0x41, 0x62] [0x61, 0x42]"
  by (rule stricmp_orders_folded) simp_all

text \<open>
  C15. Round trip of SQL quoting: a text quoted with any of the four quote characters,
  its closing quote doubled inside, is what \<open>sqlite3Dequote\<close> returns, whatever follows
  the closing quote but another one.
\<close>

theorem dequote_round_trip:
  assumes "sqlite3Isquote q" and "hd0 rest \<noteq> (if q = 91 then 93 else q)"
  shows "sqlite3Dequote (sql_quote q s @ rest) = Some s"
  using assms dequote_doubled [OF assms(2), of s]
  by (simp add: sqlite3Dequote_def sql_quote_def Let_def)

theorem dequote_round_trip_witness:
  "sqlite3Dequote (sql_quote 91 [0x61, 93, 0x62] @ [0x20]) = Some [0x61, 93, 0x62]"
  by (rule dequote_round_trip) (simp_all add: isquote_iff)

end
