(* ===== verification/Numbers.thy ===== *)
theory Numbers
  imports Ctype
begin

section \<open>Integers from text, checked arithmetic and logarithmic estimates\<close>

text \<open>
  The number routines of \<open>util.c\<close>: 64-bit arithmetic that reports overflow, conversion
  of decimal and hexadecimal text in UTF-8 and UTF-16 to 32 and 64-bit integers, blobs in
  hexadecimal, and the logarithmic estimates of the query planner. A signed variable is
  an \<^typ>\<open>int\<close> in its range, an unsigned one a word, so that \<open>u * 10 + c - '0'\<close> wraps as it
  does in the code.
\<close>

subsection \<open>Checked arithmetic\<close>

text \<open>
  \<open>*pA\<close> is the first argument; the result is the return code and the new \<open>*pA\<close>. These
  are the portable branches, which is what Clang compiles (it does not claim GCC 5.4).
\<close>

definition LARGEST_INT64 :: int where "LARGEST_INT64 = 0x7fffffffffffffff"
definition SMALLEST_INT64 :: int where "SMALLEST_INT64 = - 1 - LARGEST_INT64"

definition c_div :: "int \<Rightarrow> int \<Rightarrow> int" where
  "c_div x y = sgn x * sgn y * (\<bar>x\<bar> div \<bar>y\<bar>)"

definition sqlite3AddInt64 :: "int \<Rightarrow> int \<Rightarrow> int \<times> int" where
  "sqlite3AddInt64 iA iB =
     (if (if iB \<ge> 0 then iA > 0 \<and> LARGEST_INT64 - iA < iB
          else iA < 0 \<and> - (iA + LARGEST_INT64) > iB + 1)
      then (1, iA) else (0, c_int64 (iA + iB)))"

definition sqlite3SubInt64 :: "int \<Rightarrow> int \<Rightarrow> int \<times> int" where
  "sqlite3SubInt64 iA iB =
     (if iB = SMALLEST_INT64
      then (if iA \<ge> 0 then (1, iA) else (0, c_int64 (iA - iB)))
      else sqlite3AddInt64 iA (- iB))"

definition sqlite3MulInt64 :: "int \<Rightarrow> int \<Rightarrow> int \<times> int" where
  "sqlite3MulInt64 iA iB =
     (if (if iB > 0 then iA > c_div LARGEST_INT64 iB \<or> iA < c_div SMALLEST_INT64 iB
          else if iB < 0 then
            (if iA > 0 then iB < c_div SMALLEST_INT64 iA
             else iA < 0 \<and> (iB = SMALLEST_INT64 \<or> iA = SMALLEST_INT64
                \<or> - iA > c_div LARGEST_INT64 (- iB)))
          else False)
      then (1, iA) else (0, c_int64 (iA * iB)))"

definition sqlite3AbsInt32 :: "int \<Rightarrow> int" where
  "sqlite3AbsInt32 x =
     (if x \<ge> 0 then x else if x = - (2 ^ 31) then 0x7fffffff else - x)"

subsection \<open>Decimal text in any encoding\<close>

text \<open>
  \<open>z\<close> is the memory the text starts in; positions are offsets from \<open>zNum\<close>. The encoding
  is \<open>SQLITE_UTF8\<close>, \<open>SQLITE_UTF16LE\<close> or \<open>SQLITE_UTF16BE\<close>; a step is one or two bytes.
\<close>

type_synonym text_mem = "nat \<Rightarrow> byte"

definition SQLITE_UTF8 :: nat where "SQLITE_UTF8 = 1"
definition SQLITE_UTF16LE :: nat where "SQLITE_UTF16LE = 2"
definition SQLITE_UTF16BE :: nat where "SQLITE_UTF16BE = 3"

text \<open>\<open>while (zNum<zEnd && P(*zNum)) zNum+=incr\<close>: the offset where the loop stops.\<close>

function scan_while :: "(byte \<Rightarrow> bool) \<Rightarrow> text_mem \<Rightarrow> nat \<Rightarrow> nat \<Rightarrow> nat \<Rightarrow> nat" where
  "scan_while P z incr zEnd p =
     (if 0 < incr \<and> p < zEnd \<and> P (z p) then scan_while P z incr zEnd (p + incr) else p)"
  by auto
termination by (relation "measure (\<lambda>(P, z, incr, e, p). e - p)") auto

definition digit :: "byte \<Rightarrow> bool" where "digit c \<longleftrightarrow> 48 \<le> c \<and> c \<le> 57"

text \<open>The digit loop: the number of bytes passed and the value, which wraps at 64 bits.\<close>

function scan_digits :: "text_mem \<Rightarrow> nat \<Rightarrow> nat \<Rightarrow> nat \<Rightarrow> nat \<Rightarrow> u64 \<Rightarrow> nat \<times> u64" where
  "scan_digits z incr zEnd p i u =
     (if 0 < incr \<and> p + i < zEnd \<and> digit (z (p + i))
      then scan_digits z incr zEnd p (i + incr) (u * 10 + ucast (z (p + i)) - 48)
      else (i, u))"
  by auto
termination by (relation "measure (\<lambda>(z, incr, e, p, i, u). e - (p + i))") auto

declare scan_while.simps [simp del] scan_digits.simps [simp del]

definition pow63 :: "byte list" where
  "pow63 = [57, 50, 50, 51, 51, 55, 50, 48, 51, 54, 56, 53, 52, 55, 55, 53, 56, 48]"

fun compare_loop :: "text_mem \<Rightarrow> nat \<Rightarrow> nat \<Rightarrow> nat \<Rightarrow> byte list \<Rightarrow> int" where
  "compare_loop z p incr i [] = 0"
| "compare_loop z p incr i (d # ds) =
     (let c = (uint (z (p + i * incr)) - uint d) * 10 in
      if c = 0 then compare_loop z p incr (i + 1) ds else c)"

definition compare2pow63 :: "text_mem \<Rightarrow> nat \<Rightarrow> nat \<Rightarrow> int" where
  "compare2pow63 z p incr =
     (let c = compare_loop z p incr 0 pow63 in
      if c = 0 then uint (z (p + 18 * incr)) - 56 else c)"

text \<open>
  The step, the flag \<open>nonNum\<close>, and the offsets of the end and of the first character. In
  UTF-16 the text ends where a high byte is not zero.
\<close>

definition text_bounds :: "text_mem \<Rightarrow> nat \<Rightarrow> nat \<Rightarrow> nat \<times> bool \<times> nat \<times> nat" where
  "text_bounds z len enc =
     (if enc = SQLITE_UTF8 then (1, False, len, 0)
      else let i = scan_while (\<lambda>c. c = 0) z 2 len (3 - enc)
           in (2, i < len, (if even i then i + 1 else i - 1), enc mod 2))"

definition sqlite3Atoi64 :: "text_mem \<Rightarrow> nat \<Rightarrow> nat \<Rightarrow> int \<times> int" where
  "sqlite3Atoi64 z len enc =
    (case text_bounds z len enc of (incr, nonNum, zEnd, p0) \<Rightarrow>
     let p = scan_while sqlite3Isspace z incr zEnd p0;
         neg = (p < zEnd \<and> z p = 45);
         p = (if p < zEnd \<and> (z p = 45 \<or> z p = 43) then p + incr else p);
         zStart = p;
         p = scan_while (\<lambda>c. c = 48) z incr zEnd p;
         (i, u) = scan_digits z incr zEnd p 0 0;
         pNum = (if uint u > LARGEST_INT64 then (if neg then SMALLEST_INT64 else LARGEST_INT64)
                 else if neg then - uint u else uint u);
         rc = (if (i = 0 \<and> zStart = p) \<or> nonNum then 1
               else if p + i < zEnd
               then (if scan_while sqlite3Isspace z incr zEnd (p + i) < zEnd then 1 else 0)
               else 0)
     in if i < 19 * incr then (rc, pNum)
        else let c = (if i > 19 * incr then 1 else compare2pow63 z p incr)
             in if c < 0 then (rc, pNum)
                else (if c > 0 then 2 else if neg then rc else 3,
                      if neg then SMALLEST_INT64 else LARGEST_INT64))"

subsection \<open>Hexadecimal text\<close>

text \<open>\<open>h += 9*(1&(h>>6)); return (u8)(h & 0xf)\<close>\<close>

definition sqlite3HexToInt :: "byte \<Rightarrow> byte" where
  "sqlite3HexToInt h = (h + 9 * (1 AND drop_bit 6 h)) AND 0xf"

text \<open>
  \<open>z\<close> is the text after \<open>x'\<close> and \<open>n\<close> its length with the closing quote, so that the loop
  writes \<open>n div 2\<close> bytes and a terminator; \<open>alloc\<close> says whether the allocation succeeds.
\<close>

definition sqlite3HexToBlob :: "bool \<Rightarrow> byte list \<Rightarrow> nat \<Rightarrow> byte list option" where
  "sqlite3HexToBlob alloc z len =
     (if alloc
      then Some (map (\<lambda>k. push_bit 4 (sqlite3HexToInt (z ! (2 * k))) OR sqlite3HexToInt (z ! (2 * k + 1)))
                   [0..<len div 2] @ [0])
      else None)"

definition hexdigits :: "byte list" where
  "hexdigits = [48, 49, 50, 51, 52, 53, 54, 55, 56, 57, 65, 66, 67, 68, 69, 70]"

fun hex_text :: "byte list \<Rightarrow> byte list" where
  "hex_text [] = []"
| "hex_text (c # cs) = hexdigits ! unat (drop_bit 4 c AND 0xf) # hexdigits ! unat (c AND 0xf) # hex_text cs"

text \<open>The text that \<open>hex(X)\<close> returns for a blob; \<open>None\<close> when \<open>contextMalloc\<close> has reported an error.\<close>

definition hexFunc :: "bool \<Rightarrow> byte list \<Rightarrow> byte list option" where
  "hexFunc alloc pBlob = (if alloc then Some (hex_text pBlob) else None)"

subsection \<open>Integers in C strings\<close>

text \<open>The first result is the loop's value, the second what is left of the text.\<close>

fun scan_hex8 :: "nat \<Rightarrow> u32 \<Rightarrow> byte list \<Rightarrow> u32 \<times> byte list" where
  "scan_hex8 0 u z = (u, z)"
| "scan_hex8 (Suc k) u z =
     (if sqlite3Isxdigit (hd0 z) then scan_hex8 k (u * 16 + ucast (sqlite3HexToInt (hd0 z))) (tl z)
      else (u, z))"

fun scan_dec11 :: "nat \<Rightarrow> nat \<Rightarrow> int \<Rightarrow> byte list \<Rightarrow> nat \<times> int" where
  "scan_dec11 0 i v z = (i, v)"
| "scan_dec11 (Suc k) i v z =
     (let c = uint (hd0 z) - 48 in
      if c \<ge> 0 \<and> c \<le> 9 then scan_dec11 k (i + 1) (v * 10 + c) (tl z) else (i, v))"

definition get_hex32 :: "byte list \<Rightarrow> int option" where
  "get_hex32 zNum =
     (let (u, z) = scan_hex8 8 0 (dropWhile (\<lambda>c. c = 48) zNum) in
      if u AND 0x80000000 = 0 \<and> \<not> sqlite3Isxdigit (hd0 z) then Some (uint u) else None)"

definition get_dec32 :: "bool \<Rightarrow> byte list \<Rightarrow> int option" where
  "get_dec32 neg zNum =
     (if \<not> sqlite3Isdigit (hd0 zNum) then None
      else let (i, v) = scan_dec11 11 0 0 (dropWhile (\<lambda>c. c = 48) zNum) in
        if i > 10 then None
        else if v - (if neg then 1 else 0) > 2147483647 then None
        else Some (if neg then - v else v))"

text \<open>\<open>None\<close> is the return value 0, which leaves \<open>*pValue\<close> alone.\<close>

definition sqlite3GetInt32 :: "byte list \<Rightarrow> int option" where
  "sqlite3GetInt32 zNum =
     (if hd0 zNum = 45 then get_dec32 True (tl zNum)
      else if hd0 zNum = 43 then get_dec32 False (tl zNum)
      else if hd0 zNum = 48 \<and> (hd0 (tl zNum) = 120 \<or> hd0 (tl zNum) = 88)
           \<and> sqlite3Isxdigit (hd0 (tl (tl zNum)))
      then get_hex32 (tl (tl zNum))
      else get_dec32 False zNum)"

definition sqlite3Atoi :: "byte list option \<Rightarrow> int" where
  "sqlite3Atoi z = (case z of None \<Rightarrow> 0 | Some s \<Rightarrow> (case sqlite3GetInt32 s of None \<Rightarrow> 0 | Some x \<Rightarrow> x))"

text \<open>The hexadecimal loop of \<open>sqlite3DecOrHexToI64\<close>: count, value and rest.\<close>

fun scan_hex :: "nat \<Rightarrow> u64 \<Rightarrow> byte list \<Rightarrow> nat \<times> u64 \<times> byte list" where
  "scan_hex k u [] = (k, u, [])"
| "scan_hex k u (c # z) =
     (if sqlite3Isxdigit c then scan_hex (k + 1) (u * 16 + ucast (sqlite3HexToInt c)) z
      else (k, u, c # z))"

definition c_chars :: "byte list \<Rightarrow> text_mem" where
  "c_chars z k = (if k < length z then z ! k else 0)"

definition sqlite3DecOrHexToI64 :: "byte list \<Rightarrow> int \<times> int" where
  "sqlite3DecOrHexToI64 z =
     (if hd0 z = 48 \<and> (hd0 (tl z) = 120 \<or> hd0 (tl z) = 88)
      then (case scan_hex 0 0 (dropWhile (\<lambda>c. c = 48) (tl (tl z))) of (k, u, rest) \<Rightarrow>
              (if rest = [] \<and> k \<le> 16 then 0 else 2, sint u))
      else sqlite3Atoi64 (c_chars z) (nat (sqlite3Strlen30 (Some z))) SQLITE_UTF8)"

subsection \<open>Logarithmic estimates\<close>

text \<open>
  A \<open>LogEst\<close> is a 16-bit \<open>10 * log2(x)\<close>. The counts of the first function are 64-bit
  unsigned and its shifts lose no bit, so that they are written with \<^typ>\<open>nat\<close>.
\<close>

definition c_int16 :: "int \<Rightarrow> int" where
  "c_int16 x = (x + 2 ^ 15) mod 2 ^ 16 - 2 ^ 15"

definition logest_add_table :: "int list" where
  "logest_add_table =
    [10, 10, 9, 9, 8, 8, 7, 7, 7, 6, 6, 6, 5, 5, 5, 4, 4, 4, 4, 3, 3, 3, 3, 3, 3,
     2, 2, 2, 2, 2, 2, 2]"

definition sqlite3LogEstAdd :: "int \<Rightarrow> int \<Rightarrow> int" where
  "sqlite3LogEstAdd u v =
     (if u \<ge> v
      then (if u > v + 49 then u else if u > v + 31 then c_int16 (u + 1)
            else c_int16 (u + logest_add_table ! nat (u - v)))
      else (if v > u + 49 then v else if v > u + 31 then c_int16 (v + 1)
            else c_int16 (v + logest_add_table ! nat (v - u))))"

definition logest_table :: "int list" where
  "logest_table = [0, 2, 3, 5, 6, 7, 8, 9]"

function logest_up :: "int \<Rightarrow> nat \<Rightarrow> int \<times> nat" where
  "logest_up y x = (if 0 < x \<and> x < 8 then logest_up (y - 10) (2 * x) else (y, x))"
  by auto
termination by (relation "measure (\<lambda>(y, x). 8 - x)") auto

function logest_down4 :: "int \<Rightarrow> nat \<Rightarrow> int \<times> nat" where
  "logest_down4 y x = (if x > 255 then logest_down4 (y + 40) (x div 16) else (y, x))"
  by auto
termination by (relation "measure (\<lambda>(y, x). x)") auto

function logest_down1 :: "int \<Rightarrow> nat \<Rightarrow> int \<times> nat" where
  "logest_down1 y x = (if x > 15 then logest_down1 (y + 10) (x div 2) else (y, x))"
  by auto
termination by (relation "measure (\<lambda>(y, x). x)") auto

declare logest_up.simps [simp del] logest_down4.simps [simp del] logest_down1.simps [simp del]

definition sqlite3LogEst :: "nat \<Rightarrow> int" where
  "sqlite3LogEst x =
     (if x < 2 then 0
      else let (y, x) = (if x < 8 then logest_up 40 x
                         else let (y, x) = logest_down4 40 x in logest_down1 y x)
           in logest_table ! (x mod 8) + y - 10)"

subsection \<open>The characters of the text\<close>

text \<open>The characters that a scan from \<open>p\<close> meets before \<open>zEnd\<close>.\<close>

fun text_at :: "text_mem \<Rightarrow> nat \<Rightarrow> nat \<Rightarrow> nat \<Rightarrow> byte list \<Rightarrow> bool" where
  "text_at z incr zEnd p [] \<longleftrightarrow> zEnd \<le> p"
| "text_at z incr zEnd p (c # cs) \<longleftrightarrow> p < zEnd \<and> z p = c \<and> text_at z incr zEnd (p + incr) cs"

lemma text_at_nonempty: "text_at z incr zEnd p cs \<Longrightarrow> p < zEnd \<longleftrightarrow> cs \<noteq> []"
  by (cases cs) auto

lemma text_at_hd: "text_at z incr zEnd p cs \<Longrightarrow> p < zEnd \<and> Q (z p) \<longleftrightarrow> cs \<noteq> [] \<and> Q (hd cs)"
  by (cases cs) auto

lemma scan_while_text:
  "0 < incr \<Longrightarrow> text_at z incr zEnd p cs \<Longrightarrow>
   scan_while P z incr zEnd p = p + length (takeWhile P cs) * incr
   \<and> text_at z incr zEnd (p + length (takeWhile P cs) * incr) (dropWhile P cs)"
proof (induction cs arbitrary: p)
  case Nil
  then show ?case by (subst scan_while.simps) simp
next
  case (Cons c cs)
  then show ?case
    by (subst scan_while.simps) (auto simp: add.assoc [symmetric])
qed

definition decimal :: "byte list \<Rightarrow> int" where
  "decimal cs = foldl (\<lambda>v c. v * 10 + (uint c - 48)) 0 cs"

lemma decimal_Nil [simp]: "decimal [] = 0"
  by (simp add: decimal_def)

lemma decimal_snoc [simp]: "decimal (cs @ [c]) = decimal cs * 10 + (uint c - 48)"
  by (simp add: decimal_def)

lemma decimal_Cons: "decimal (c # cs) = (uint c - 48) * 10 ^ length cs + decimal cs"
  by (induction cs rule: rev_induct) (simp_all add: decimal_def algebra_simps)

lemma digit_uint: "digit c \<Longrightarrow> 48 \<le> uint c \<and> uint c \<le> 57"
  by (simp add: digit_def word_le_def)

lemma decimal_bounds: "list_all digit cs \<Longrightarrow> 0 \<le> decimal cs \<and> decimal cs < 10 ^ length cs"
proof (induction cs)
  case (Cons c cs)
  then have c: "48 \<le> uint c" "uint c \<le> 57" and cs: "0 \<le> decimal cs" "decimal cs < 10 ^ length cs"
    using digit_uint [of c] by auto
  have "(uint c - 48) * 10 ^ length cs \<le> 9 * 10 ^ length cs"
    using c by (intro mult_right_mono) simp_all
  with c cs have "(uint c - 48) * 10 ^ length cs + decimal cs < 10 * 10 ^ length cs"
    by linarith
  moreover have "0 \<le> (uint c - 48) * 10 ^ length cs" using c by simp
  ultimately show ?case using cs by (simp add: decimal_Cons)
qed simp

text \<open>The digit loop computes the decimal value modulo \<open>2 ^ 64\<close>.\<close>

lemma scan_digits_text:
  "0 < incr \<Longrightarrow> text_at z incr zEnd (p + i) cs \<Longrightarrow>
   scan_digits z incr zEnd p i (word_of_int v)
   = (i + length (takeWhile digit cs) * incr,
      word_of_int (foldl (\<lambda>v c. v * 10 + (uint c - 48)) v (takeWhile digit cs)))"
proof (induction cs arbitrary: i v)
  case Nil
  then show ?case by (subst scan_digits.simps) simp
next
  case (Cons c cs)
  show ?case
  proof (cases "digit c")
    case True
    have "word_of_int v * 10 + ucast c - 48 = (word_of_int (v * 10 + (uint c - 48)) :: u64)"
      by simp
    with True Cons.prems Cons.IH [of "i + incr" "v * 10 + (uint c - 48)"] show ?thesis
      by (subst scan_digits.simps) (simp add: add.assoc flip: add_diff_eq)
  next
    case False
    with Cons.prems show ?thesis by (subst scan_digits.simps) auto
  qed
qed

text \<open>The comparison with \<open>2 ^ 63\<close>: the first difference decides.\<close>

fun digits_cmp :: "byte list \<Rightarrow> byte list \<Rightarrow> int" where
  "digits_cmp (c # cs) (d # ds) =
     (if c = d then digits_cmp cs ds else (uint c - uint d) * 10)"
| "digits_cmp _ _ = 0"

lemma compare_loop_text:
  "text_at z incr zEnd (p + i * incr) (cs @ rest) \<Longrightarrow> length cs = length ds \<Longrightarrow>
   compare_loop z p incr i ds = digits_cmp cs ds"
proof (induction cs ds arbitrary: i rule: list_induct2')
  case (4 c cs d ds)
  have "p + Suc i * incr = p + i * incr + incr" by simp
  then have "text_at z incr zEnd (p + Suc i * incr) (cs @ rest)"
    using "4.prems"(1) by (simp only: append_Cons text_at.simps)
  from "4.IH" [OF this] "4.prems" show ?case by (auto simp: Let_def word_uint_eq_iff)
qed auto

lemma digits_cmp_sign:
  "length cs = length ds \<Longrightarrow> list_all digit cs \<Longrightarrow> list_all digit ds \<Longrightarrow>
   (digits_cmp cs ds < 0 \<longleftrightarrow> decimal cs < decimal ds) \<and> (digits_cmp cs ds = 0 \<longleftrightarrow> decimal cs = decimal ds)"
proof (induction cs ds rule: list_induct2)
  case (Cons c cs d ds)
  then have cs: "0 \<le> decimal cs" "decimal cs < 10 ^ length ds"
    and ds: "0 \<le> decimal ds" "decimal ds < 10 ^ length ds"
    using decimal_bounds [of cs] decimal_bounds [of ds] by simp_all
  have lt: "x * 10 ^ length ds + a < y * 10 ^ length ds + b"
    if "x < y" "a < 10 ^ length ds" "0 \<le> b" for x y a b :: int
  proof -
    have "(x + 1) * 10 ^ length ds \<le> y * 10 ^ length ds"
      using that(1) by (intro mult_right_mono) simp_all
    then show ?thesis using that(2,3) by (simp add: algebra_simps)
  qed
  consider "c = d" | "uint c < uint d" | "uint d < uint c"
    by (metis linorder_neqE word_uint_eq_iff)
  then show ?case
  proof cases
    case 1
    with Cons show ?thesis by (simp add: decimal_Cons)
  next
    case 2
    then have "uint c - 48 < uint d - 48" by simp
    from lt [OF this cs(2) ds(1)] 2 Cons show ?thesis by (auto simp: decimal_Cons)
  next
    case 3
    then have "uint d - 48 < uint c - 48" by simp
    from lt [OF this ds(2) cs(1)] 3 Cons show ?thesis by (auto simp: decimal_Cons)
  qed
qed simp

lemma text_at_nth: "text_at z incr zEnd p cs \<Longrightarrow> i < length cs \<Longrightarrow> z (p + i * incr) = cs ! i"
proof (induction cs arbitrary: p i)
  case (Cons c cs)
  show ?case
  proof (cases i)
    case (Suc j)
    with Cons.prems Cons.IH [of "p + incr" j] show ?thesis by (simp add: add.assoc)
  qed (use Cons.prems in simp)
qed simp

lemma compare2pow63_text:
  assumes at: "text_at z incr zEnd p (cs @ [c] @ rest)"
    and cs: "length cs = 18" "list_all digit cs" and c: "digit c"
  shows "(compare2pow63 z p incr < 0 \<longleftrightarrow> decimal (cs @ [c]) < 2 ^ 63)
    \<and> (compare2pow63 z p incr = 0 \<longleftrightarrow> decimal (cs @ [c]) = 2 ^ 63)"
proof -
  have len: "length cs = length pow63" using cs by (simp add: pow63_def)
  have dig: "list_all digit pow63" by (simp add: pow63_def digit_def)
  have val: "decimal pow63 = 922337203685477580" by (simp add: pow63_def decimal_def)
  have loop: "compare_loop z p incr 0 pow63 = digits_cmp cs pow63"
    by (rule compare_loop_text [OF _ len]) (use at in simp)
  have last: "z (p + 18 * incr) = c"
    using text_at_nth [OF at, of 18] cs by (simp add: nth_append)
  have "48 \<le> uint c" "uint c \<le> 57" using digit_uint [OF c] by simp_all
  then show ?thesis
    using digits_cmp_sign [OF len cs(2) dig] val
    by (simp add: compare2pow63_def Let_def loop last)
       (cases "digits_cmp cs pow63 = 0"; linarith)
qed


subsection \<open>What the conversion returns\<close>

text \<open>
  The result of reading a text: its characters split into leading spaces, a sign, digits
  and the rest; the value clamped to 64 bits, with the code of the comment.
\<close>

definition atoi64_spec :: "byte list \<Rightarrow> bool \<Rightarrow> int \<times> int" where
  "atoi64_spec text wide =
     (let body = dropWhile sqlite3Isspace text;
          neg = (body \<noteq> [] \<and> hd body = 45);
          body = (if body \<noteq> [] \<and> (hd body = 45 \<or> hd body = 43) then tl body else body);
          ds = takeWhile digit body;
          rest = dropWhile digit body;
          v = (if neg then - decimal ds else decimal ds);
          rc = (if ds = [] \<or> wide \<or> \<not> list_all sqlite3Isspace rest then 1 else 0)
      in if v < SMALLEST_INT64 then (2, SMALLEST_INT64)
         else if v \<le> LARGEST_INT64 then (rc, v)
         else if v = LARGEST_INT64 + 1 then (3, LARGEST_INT64)
         else (2, LARGEST_INT64))"

text \<open>Leading zeros change neither the value nor what follows the digits.\<close>

lemma decimal_zeros:
  "decimal (takeWhile digit cs) = decimal (takeWhile digit (dropWhile (\<lambda>c. c = 48) cs))"
proof (induction cs)
  case (Cons c cs)
  then show ?case by (simp add: decimal_Cons digit_def)
qed simp

lemma rest_zeros: "dropWhile digit (dropWhile (\<lambda>c. c = 48) cs) = dropWhile digit cs"
  by (induction cs) (auto simp: digit_def)

lemma no_digits_zeros: "takeWhile digit cs = [] \<longleftrightarrow>
    takeWhile digit (dropWhile (\<lambda>c. c = 48) cs) = [] \<and> dropWhile (\<lambda>c. c = 48) cs = cs"
proof (cases cs)
  case (Cons c s)
  have "length (dropWhile (\<lambda>c. c = 48) s) \<le> length s" by (rule length_dropWhile_le)
  then have "dropWhile (\<lambda>c. c = 48) s \<noteq> c # s" by (metis Suc_n_not_le_n length_Cons)
  with Cons show ?thesis by (auto simp: digit_def)
qed simp

lemma significant:
  assumes "takeWhile digit (dropWhile (\<lambda>c. c = 48) cs) = d # ds"
  shows "10 ^ length ds \<le> decimal (d # ds)"
proof -
  have dg: "list_all digit (d # ds)" using assms by (metis list_all_iff set_takeWhileD)
  have "d \<noteq> 48"
    using assms hd_dropWhile [of "\<lambda>c. c = 48" cs]
    by (cases "dropWhile (\<lambda>c. c = 48) cs") (auto split: if_splits)
  then have "49 \<le> uint d" using digit_uint [of d] dg by (simp add: word_uint_eq_iff)
  then have "1 * 10 ^ length ds \<le> (uint d - 48) * (10 ^ length ds :: int)"
    by (intro mult_right_mono) simp_all
  moreover have "0 \<le> decimal ds" using decimal_bounds [of ds] dg by simp
  ultimately show ?thesis unfolding decimal_Cons by linarith
qed

text \<open>
  The part of the function after the sign, on the digits \<open>ds\<close> without leading zeros: fewer
  than 19 fit, 19 are compared with \<open>2 ^ 63\<close>, more do not fit.
\<close>

definition clamp_result :: "int \<Rightarrow> bool \<Rightarrow> int \<Rightarrow> int \<times> int" where
  "clamp_result rc neg v =
     (let v = (if neg then - v else v) in
      if v < SMALLEST_INT64 then (2, SMALLEST_INT64)
      else if v \<le> LARGEST_INT64 then (rc, v)
      else if v = LARGEST_INT64 + 1 then (3, LARGEST_INT64)
      else (2, LARGEST_INT64))"

lemma finish_number:
  assumes incr: "0 < incr" and at: "text_at z incr zEnd p (ds @ rest)"
    and dg: "list_all digit ds" and sig: "\<forall>d t. ds = d # t \<longrightarrow> 10 ^ length t \<le> decimal ds"
    and u: "u = (word_of_int (decimal ds) :: u64)" and i: "i = length ds * incr"
  shows "(if i < 19 * incr
          then (rc, if uint u > LARGEST_INT64 then (if neg then SMALLEST_INT64 else LARGEST_INT64)
                    else if neg then - uint u else uint u)
          else let c = (if i > 19 * incr then 1 else compare2pow63 z p incr)
               in if c < 0
                  then (rc, if uint u > LARGEST_INT64 then (if neg then SMALLEST_INT64 else LARGEST_INT64)
                            else if neg then - uint u else uint u)
                  else (if c > 0 then 2 else if neg then rc else 3,
                        if neg then SMALLEST_INT64 else LARGEST_INT64))
    = clamp_result rc neg (decimal ds)"
proof -
  have b: "0 \<le> decimal ds" "decimal ds < 10 ^ length ds" using decimal_bounds [OF dg] by simp_all
  have small: "uint u = decimal ds" if "decimal ds < 10 ^ 19"
    using that b(1) by (simp add: u take_bit_int_eq_self unsigned_of_int)
  consider "length ds < 19" | "length ds = 19" | "19 < length ds" by linarith
  then show ?thesis
  proof cases
    case 1
    then have "(10 :: int) ^ length ds \<le> 10 ^ 18" by (intro power_increasing) simp_all
    with b have v: "decimal ds < 10 ^ 18" by linarith
    then have "uint u = decimal ds" using small by simp
    with 1 v b(1) i incr show ?thesis
      by (auto simp: clamp_result_def LARGEST_INT64_def SMALLEST_INT64_def Let_def)
  next
    case 2
    then obtain cs c where ds: "ds = cs @ [c]" by (cases ds rule: rev_cases) auto
    have cmp: "(compare2pow63 z p incr < 0 \<longleftrightarrow> decimal ds < 2 ^ 63)
        \<and> (compare2pow63 z p incr = 0 \<longleftrightarrow> decimal ds = 2 ^ 63)"
      unfolding ds
    proof (rule compare2pow63_text)
      show "text_at z incr zEnd p (cs @ [c] @ rest)" using at ds by simp
    qed (use 2 ds dg in auto)
    have "uint u = decimal ds" using small b(2) 2 by simp
    with 2 cmp b(1) i show ?thesis
      by (auto simp: clamp_result_def LARGEST_INT64_def SMALLEST_INT64_def Let_def)
  next
    case 3
    then obtain d t where ds: "ds = d # t" by (cases ds) auto
    with 3 have "(10 :: int) ^ 19 \<le> 10 ^ length t" by (intro power_increasing) simp_all
    moreover have "10 ^ length t \<le> decimal ds" using sig ds by blast
    ultimately have v: "10 ^ 19 \<le> decimal ds" by linarith
    with 3 i incr show ?thesis
      by (auto simp: clamp_result_def LARGEST_INT64_def SMALLEST_INT64_def Let_def)
  qed
qed


lemma text_at_append:
  "text_at z incr zEnd p (xs @ ys) \<Longrightarrow> text_at z incr zEnd (p + length xs * incr) ys"
proof (induction xs arbitrary: p)
  case (Cons x xs)
  then have "text_at z incr zEnd (p + incr + length xs * incr) ys" by simp
  then show ?case by (simp add: add.assoc)
qed simp

lemma atoi64_text:
  assumes bounds: "text_bounds z len enc = (incr, nonNum, zEnd, p0)"
    and incr: "0 < incr" and at: "text_at z incr zEnd p0 text"
  shows "sqlite3Atoi64 z len enc = atoi64_spec text nonNum"
proof -
  define p1 where "p1 = scan_while sqlite3Isspace z incr zEnd p0"
  define body where "body = dropWhile sqlite3Isspace text"
  have at1: "text_at z incr zEnd p1 body"
    using scan_while_text [OF incr at] by (simp add: p1_def body_def)
  have sgn: "p1 < zEnd \<and> z p1 = k \<longleftrightarrow> body \<noteq> [] \<and> hd body = k" for k
    using text_at_hd [OF at1, of "\<lambda>c. c = k"] .
  define p2 where "p2 = (if p1 < zEnd \<and> (z p1 = 45 \<or> z p1 = 43) then p1 + incr else p1)"
  define num where "num = (if body \<noteq> [] \<and> (hd body = 45 \<or> hd body = 43) then tl body else body)"
  have at2: "text_at z incr zEnd p2 num"
    using at1 by (cases body) (auto simp: p2_def num_def)
  define p3 where "p3 = scan_while (\<lambda>c. c = 48) z incr zEnd p2"
  define sig where "sig = dropWhile (\<lambda>c. c = 48) num"
  have p3: "p3 = p2 + length (takeWhile (\<lambda>c. c = 48) num) * incr" and at3: "text_at z incr zEnd p3 sig"
    using scan_while_text [OF incr at2] by (simp_all add: p3_def sig_def)
  let ?ds = "takeWhile digit sig"
  define i where "i = length ?ds * incr"
  define u where "u = (word_of_int (decimal ?ds) :: u64)"
  have digits: "scan_digits z incr zEnd p3 0 0 = (i, u)"
    using scan_digits_text [OF incr, of z zEnd p3 0 sig 0] at3
    by (simp add: i_def u_def decimal_def)
  have split: "?ds @ dropWhile digit num = sig"
    using takeWhile_dropWhile_id [of digit sig] by (simp add: sig_def rest_zeros)
  have at4: "text_at z incr zEnd p3 (?ds @ dropWhile digit num)" using at3 split by simp
  have after: "text_at z incr zEnd (p3 + i) (dropWhile digit num)"
    using text_at_append [OF at4] by (simp add: i_def)
  define rest where "rest = dropWhile digit num"
  define rc where "rc = (if (i = 0 \<and> p2 = p3) \<or> nonNum then 1
     else if p3 + i < zEnd
     then (if scan_while sqlite3Isspace z incr zEnd (p3 + i) < zEnd then 1 else 0)
     else (0 :: int))"
  have blanks: "scan_while sqlite3Isspace z incr zEnd (p3 + i) < zEnd
      \<longleftrightarrow> \<not> list_all sqlite3Isspace rest"
    using scan_while_text [OF incr after, of sqlite3Isspace]
      text_at_nonempty [OF scan_while_text [OF incr after, of sqlite3Isspace, THEN conjunct2]]
    by (simp add: rest_def dropWhile_eq_Nil_conv list_all_iff)
  have no_digits: "i = 0 \<and> p2 = p3 \<longleftrightarrow> takeWhile digit num = []"
  proof -
    have "p2 = p3 \<longleftrightarrow> takeWhile (\<lambda>c. c = 48) num = []" using incr p3 by simp
    also have "\<dots> \<longleftrightarrow> sig = num"
      by (metis append_self_conv2 sig_def takeWhile_dropWhile_id)
    finally show ?thesis using incr no_digits_zeros [of num] by (simp add: i_def sig_def)
  qed
  have rc: "rc = (if takeWhile digit num = [] \<or> nonNum \<or> \<not> list_all sqlite3Isspace rest then 1 else 0)"
    using text_at_nonempty [OF after, folded rest_def]
    by (cases "rest = []") (simp_all add: rc_def no_digits blanks)
  have dg: "list_all digit ?ds" by (metis list_all_iff set_takeWhileD)
  have first: "\<forall>d t. ?ds = d # t \<longrightarrow> 10 ^ length t \<le> decimal ?ds"
    using significant [of num] by (metis sig_def)
  have val: "decimal (takeWhile digit num) = decimal ?ds"
    unfolding sig_def by (rule decimal_zeros)
  have "sqlite3Atoi64 z len enc = clamp_result rc (p1 < zEnd \<and> z p1 = 45) (decimal ?ds)"
    unfolding finish_number [OF incr at4 dg first u_def i_def, symmetric]
    unfolding sqlite3Atoi64_def bounds prod.case Let_def
    unfolding p1_def [symmetric] p2_def [symmetric] p3_def [symmetric] digits prod.case
      rc_def [symmetric] by (rule refl)
  moreover have "atoi64_spec text nonNum
      = clamp_result rc (body \<noteq> [] \<and> hd body = 45) (decimal (takeWhile digit num))"
    unfolding atoi64_spec_def clamp_result_def Let_def rc body_def num_def rest_def by (rule refl)
  ultimately show ?thesis by (simp only: sgn val)
qed

text \<open>The three encodings.\<close>

lemma text_at_map:
  "0 < incr \<Longrightarrow> (\<And>k. p + k * incr < zEnd \<longleftrightarrow> k < m) \<Longrightarrow>
   text_at z incr zEnd p (map (\<lambda>k. z (p + k * incr)) [0..<m])"
proof (induction m arbitrary: p)
  case 0
  from 0(2) [of 0] show ?case by simp
next
  case (Suc m)
  have "text_at z incr zEnd (p + incr) (map (\<lambda>k. z (p + incr + k * incr)) [0..<m])"
  proof (rule Suc.IH [OF Suc.prems(1)])
    fix k
    show "p + incr + k * incr < zEnd \<longleftrightarrow> k < m" using Suc.prems(2) [of "Suc k"] by (simp add: add.assoc)
  qed
  moreover have "map (\<lambda>k. z (p + k * incr)) [0..<Suc m]
      = z p # map (\<lambda>k. z (p + incr + k * incr)) [0..<m]"
    by (subst map_upt_Suc) (simp add: add.assoc)
  ultimately show ?case using Suc.prems(2) [of 0] by simp
qed

lemma bounds_utf8: "text_bounds z len SQLITE_UTF8 = (1, False, len, 0)"
  by (simp add: text_bounds_def)

lemma scan_high_bytes:
  assumes "list_all (\<lambda>k. z (2 * k + h) = 0) [0..<m]" "h < 2"
  shows "scan_while (\<lambda>c. c = 0) z 2 (2 * m) h = 2 * m + h"
proof -
  have at: "text_at z 2 (2 * m) h (map (\<lambda>k. z (h + k * 2)) [0..<m])"
    by (rule text_at_map) (use assms(2) in auto)
  have "takeWhile (\<lambda>c. c = 0) (map (\<lambda>k. z (h + k * 2)) [0..<m]) = map (\<lambda>k. z (h + k * 2)) [0..<m]"
    using assms(1) by (intro takeWhile_eq_all_conv [THEN iffD2])
      (auto simp: list_all_iff mult.commute add.commute)
  with scan_while_text [OF _ at, of "\<lambda>c. c = 0"] show ?thesis by simp
qed

lemma bounds_utf16le:
  "list_all (\<lambda>k. z (2 * k + 1) = 0) [0..<m] \<Longrightarrow>
   text_bounds z (2 * m) SQLITE_UTF16LE = (2, False, 2 * m, 0)"
  using scan_high_bytes [of z 1 m]
  by (simp add: text_bounds_def SQLITE_UTF8_def SQLITE_UTF16LE_def Let_def)

lemma bounds_utf16be:
  "list_all (\<lambda>k. z (2 * k) = 0) [0..<m] \<Longrightarrow>
   text_bounds z (2 * m) SQLITE_UTF16BE = (2, False, 2 * m + 1, 1)"
  using scan_high_bytes [of z 0 m]
  by (simp add: text_bounds_def SQLITE_UTF8_def SQLITE_UTF16BE_def Let_def)

subsection \<open>Checked arithmetic is exact\<close>

lemma div_less_iff: "0 < b \<Longrightarrow> L div b < x \<longleftrightarrow> L < x * (b :: int)"
proof -
  assume b: "0 < b"
  have split: "L = b * (L div b) + L mod b" and m: "0 \<le> L mod b" "L mod b < b"
    using b by simp_all
  show ?thesis
  proof
    assume "L div b < x"
    then have "b * (L div b + 1) \<le> b * x" using b by (intro mult_left_mono) simp_all
    moreover have "b * (L div b + 1) = b * (L div b) + b" by (simp add: algebra_simps)
    ultimately have "L < b * x" using split m by linarith
    then show "L < x * b" by (simp only: mult.commute)
  next
    assume lt: "L < x * b"
    show "L div b < x"
    proof (rule ccontr)
      assume "\<not> L div b < x"
      then have "b * x \<le> b * (L div b)" using b by (intro mult_left_mono) simp_all
      moreover have "L < b * x" using lt by (simp only: mult.commute)
      ultimately show False using split m by linarith
    qed
  qed
qed

lemmas int64_bounds = LARGEST_INT64_def SMALLEST_INT64_def in_int64_def

lemma add_guard: "in_int64 x \<Longrightarrow> in_int64 y \<Longrightarrow>
    (if y \<ge> 0 then x > 0 \<and> LARGEST_INT64 - x < y else x < 0 \<and> - (x + LARGEST_INT64) > y + 1)
    \<longleftrightarrow> \<not> in_int64 (x + y)"
  by (auto simp: int64_bounds)

lemma add_exact: "in_int64 x \<Longrightarrow> in_int64 y \<Longrightarrow>
    sqlite3AddInt64 x y = (if in_int64 (x + y) then (0, x + y) else (1, x))"
  unfolding sqlite3AddInt64_def by (simp only: add_guard) simp

lemma sub_exact:
  assumes x: "in_int64 x" and y: "in_int64 y"
  shows "sqlite3SubInt64 x y = (if in_int64 (x - y) then (0, x - y) else (1, x))"
proof (cases "y = SMALLEST_INT64")
  case True
  have "in_int64 (x - y) \<longleftrightarrow> \<not> x \<ge> 0" using x True by (auto simp: int64_bounds)
  with True show ?thesis by (simp add: sqlite3SubInt64_def)
next
  case False
  then have "in_int64 (- y)" using y by (auto simp: int64_bounds)
  from add_exact [OF x this] False show ?thesis by (simp add: sqlite3SubInt64_def)
qed

lemma c_div_pos: "0 < y \<Longrightarrow> 0 \<le> x \<Longrightarrow> c_div x y = x div y"
  by (cases "x = 0") (simp_all add: c_div_def)

lemma c_div_neg: "0 < y \<Longrightarrow> 0 < x \<Longrightarrow> c_div (- x) y = - (x div y)"
  by (simp add: c_div_def sgn_minus)

lemma mul_guard: "in_int64 x \<Longrightarrow> in_int64 y \<Longrightarrow>
    (if y > 0 then x > c_div LARGEST_INT64 y \<or> x < c_div SMALLEST_INT64 y
     else if y < 0 then
       (if x > 0 then y < c_div SMALLEST_INT64 x
        else x < 0 \<and> (y = SMALLEST_INT64 \<or> x = SMALLEST_INT64 \<or> - x > c_div LARGEST_INT64 (- y)))
     else False) \<longleftrightarrow> \<not> in_int64 (x * y)"
proof -
  assume x: "in_int64 x" and y: "in_int64 y"
  have small: "SMALLEST_INT64 = - (2 ^ 63)" "LARGEST_INT64 = 2 ^ 63 - 1"
    by (simp_all add: SMALLEST_INT64_def LARGEST_INT64_def)
  have low: "x' < c_div SMALLEST_INT64 y' \<longleftrightarrow> x' * y' < - (2 ^ 63)" if "0 < y'" for x' y' :: int
  proof -
    have "x' < c_div SMALLEST_INT64 y' \<longleftrightarrow> 2 ^ 63 div y' < - x'"
      using that by (simp add: small(1) c_div_neg) linarith
    also have "\<dots> \<longleftrightarrow> 2 ^ 63 < - x' * y'" by (rule div_less_iff [OF that])
    also have "- x' * y' = - (x' * y')" by simp
    finally show ?thesis by linarith
  qed
  have high: "x' > c_div LARGEST_INT64 y' \<longleftrightarrow> x' * y' \<ge> 2 ^ 63" if "0 < y'" for x' y' :: int
    using that div_less_iff [OF that, of "2 ^ 63 - 1" x'] by (simp add: small(2) c_div_pos) linarith
  consider "y > 0" | "y = 0" | "y < 0" "x > 0" | "y < 0" "x = 0" | "y < 0" "x < 0" by linarith
  then show ?thesis
  proof cases
    case 1
    then show ?thesis using low [of y x] high [of y x] by (auto simp: in_int64_def)
  next
    case 2
    then show ?thesis by (simp add: in_int64_def)
  next
    case 3
    moreover have "x * y \<le> 0" using 3 by (simp add: mult_le_0_iff)
    ultimately show ?thesis using low [of x y] by (auto simp: in_int64_def mult.commute)
  next
    case 4
    then show ?thesis by (simp add: in_int64_def)
  next
    case 5
    have pos: "0 \<le> x * y" using 5 by (simp add: zero_le_mult_iff)
    have big: "2 ^ 63 \<le> x * y" if "y = SMALLEST_INT64 \<or> x = SMALLEST_INT64"
    proof -
      have "1 * (2 ^ 63) \<le> (- x) * (- y)"
      proof (cases "y = SMALLEST_INT64")
        case True
        then show ?thesis using 5 by (intro mult_mono) (simp_all add: small)
      next
        case False
        have "(2 ^ 63) * 1 \<le> (- x) * (- y)"
          using that False 5 by (intro mult_mono) (simp_all add: small)
        then show ?thesis by simp
      qed
      then show ?thesis by simp
    qed
    show ?thesis using 5 pos big high [of "- y" "- x"] by (auto simp: in_int64_def)
  qed
qed

lemma mul_exact: "in_int64 x \<Longrightarrow> in_int64 y \<Longrightarrow>
    sqlite3MulInt64 x y = (if in_int64 (x * y) then (0, x * y) else (1, x))"
  unfolding sqlite3MulInt64_def by (simp only: mul_guard) simp

subsection \<open>Hexadecimal round trip\<close>

lemma hex_digit_value: "k < 16 \<Longrightarrow> sqlite3HexToInt (hexdigits ! k) = of_nat k"
proof -
  have "list_all (\<lambda>k. sqlite3HexToInt (hexdigits ! k) = of_nat k) [0..<16]" by code_simp
  then show "k < 16 \<Longrightarrow> ?thesis" by (simp add: list_all_iff)
qed

lemma nibble: "unat (w AND 0xf :: byte) < 16"
proof -
  have "w AND 0xf \<le> 0xf" by (rule word_and_le1)
  then show ?thesis by (simp add: word_le_nat_alt)
qed

lemma hex_byte:
  "push_bit 4 (sqlite3HexToInt (hexdigits ! unat (drop_bit 4 c AND 0xf)))
   OR sqlite3HexToInt (hexdigits ! unat (c AND 0xf)) = c"
proof -
  have "push_bit 4 (drop_bit 4 c AND 0xf) OR (c AND 0xf) = c"
  proof (rule bit_word_eqI)
    fix i assume i: "i < LENGTH(8)"
    have "list_all (\<lambda>i. bit (push_bit 4 (drop_bit 4 c AND 0xf) OR (c AND 0xf)) i = bit c i)
       [0, 1, 2, 3, 4, 5, 6, 7]" by (simp add: bit_simps)
    moreover have "i \<in> set [0, 1, 2, 3, 4, 5, 6, 7]" using i by auto
    ultimately show "bit (push_bit 4 (drop_bit 4 c AND 0xf) OR (c AND 0xf)) i = bit c i"
      by (simp only: list_all_iff)
  qed
  then show ?thesis by (simp add: hex_digit_value nibble)
qed

lemma hex_text_length [simp]: "length (hex_text b) = 2 * length b"
  by (induction b) simp_all

lemma hex_loop:
  "map (\<lambda>k. push_bit 4 (sqlite3HexToInt ((hex_text b @ r) ! (2 * k)))
        OR sqlite3HexToInt ((hex_text b @ r) ! (2 * k + 1))) [0..<length b] = b"
proof (induction b)
  case (Cons c b)
  show ?case
    unfolding length_Cons map_upt_Suc
    using Cons by (simp add: hex_byte)
qed simp


subsection \<open>Integers in C strings\<close>

definition hex_value :: "byte list \<Rightarrow> int" where
  "hex_value cs = foldl (\<lambda>v c. v * 16 + uint (sqlite3HexToInt c)) 0 cs"

definition getint32_spec :: "byte list \<Rightarrow> int option" where
  "getint32_spec z =
     (if hd0 z = 48 \<and> (hd0 (tl z) = 120 \<or> hd0 (tl z) = 88) \<and> sqlite3Isxdigit (hd0 (tl (tl z)))
      then (let v = hex_value (takeWhile sqlite3Isxdigit (tl (tl z)))
            in if v < 2 ^ 31 then Some v else None)
      else (let body = (if hd0 z = 45 \<or> hd0 z = 43 then tl z else z);
                ds = takeWhile digit body;
                v = (if hd0 z = 45 then - decimal ds else decimal ds)
            in if ds \<noteq> [] \<and> in_int32 v then Some v else None))"

lemma isdigit_digit: "sqlite3Isdigit = digit"
  by (rule ext) (simp add: isdigit_iff digit_def)

lemma digit_hd0: "digit (hd0 z) \<longleftrightarrow> takeWhile digit z \<noteq> []"
  by (cases z) (auto simp: digit_def)

lemma digit_range: "48 \<le> uint c \<and> uint c \<le> 57 \<longleftrightarrow> digit c"
  by (auto simp: digit_def word_le_def)

lemma scan_dec11_eq:
  "scan_dec11 k i v z =
     (i + length (take k (takeWhile digit z)),
      foldl (\<lambda>v c. v * 10 + (uint c - 48)) v (take k (takeWhile digit z)))"
proof (induction k i v z rule: scan_dec11.induct)
  case (2 k i v z)
  have "\<not> digit 0" by (simp add: digit_def)
  with 2 show ?case
    by (cases z) (simp_all add: Let_def digit_range)
qed simp

lemma dec32_exact:
  "get_dec32 neg z = (let ds = takeWhile digit z; v = (if neg then - decimal ds else decimal ds)
     in if ds \<noteq> [] \<and> in_int32 v then Some v else None)"
proof (cases "takeWhile digit z = []")
  case True
  then show ?thesis by (simp add: get_dec32_def isdigit_digit digit_hd0)
next
  case False
  let ?s = "takeWhile digit (dropWhile (\<lambda>c. c = 48) z)"
  have dg: "list_all digit ?s" by (metis list_all_iff set_takeWhileD)
  have b: "0 \<le> decimal ?s" using decimal_bounds [OF dg] by simp
  have val: "decimal (takeWhile digit z) = decimal ?s" by (rule decimal_zeros)
  show ?thesis
  proof (cases "length ?s \<le> 10")
    case True
    then have "take 11 ?s = ?s" by simp
    with True False b val show ?thesis
      by (auto simp: get_dec32_def isdigit_digit digit_hd0 scan_dec11_eq decimal_def [symmetric]
          Let_def in_int32_def)
  next
    case long: False
    then obtain d t where s: "?s = d # t" by (cases ?s) auto
    with long have "(10 :: int) ^ 10 \<le> 10 ^ length t" by (intro power_increasing) simp_all
    with significant [OF s] have "10 ^ 10 \<le> decimal ?s" unfolding s by linarith
    with long False val show ?thesis
      by (auto simp: get_dec32_def isdigit_digit digit_hd0 scan_dec11_eq Let_def in_int32_def)
  qed
qed

lemma xdigit_0: "\<not> sqlite3Isxdigit 0"
  by (simp add: isxdigit_iff)

lemma xdigit_after: "\<not> sqlite3Isxdigit (hd0 (dropWhile sqlite3Isxdigit cs))"
  by (induction cs) (simp_all add: xdigit_0)

lemma hex_digit_lt: "uint (sqlite3HexToInt c) < 16"
proof -
  have "sqlite3HexToInt c \<le> 0xf" unfolding sqlite3HexToInt_def by (rule word_and_le1)
  then show ?thesis by (simp add: word_le_def)
qed

lemma hex_value_Nil [simp]: "hex_value [] = 0"
  by (simp add: hex_value_def)

lemma hex_value_snoc [simp]:
  "hex_value (cs @ [c]) = hex_value cs * 16 + uint (sqlite3HexToInt c)"
  by (simp add: hex_value_def)

lemma hex_value_Cons:
  "hex_value (c # cs) = uint (sqlite3HexToInt c) * 16 ^ length cs + hex_value cs"
  by (induction cs rule: rev_induct) (simp_all add: hex_value_def algebra_simps)

lemma hex_value_bounds: "0 \<le> hex_value cs \<and> hex_value cs < 16 ^ length cs"
proof (induction cs rule: rev_induct)
  case (snoc c cs)
  then show ?case using hex_digit_lt [of c] by (simp add: algebra_simps)
qed simp

lemma hex_zeros:
  "hex_value (takeWhile sqlite3Isxdigit cs)
   = hex_value (takeWhile sqlite3Isxdigit (dropWhile (\<lambda>c. c = 48) cs))"
proof (induction cs)
  case (Cons c cs)
  have "sqlite3HexToInt 48 = 0" by (simp add: sqlite3HexToInt_def)
  with Cons show ?case by (simp add: hex_value_Cons isxdigit_iff)
qed simp

lemma scan_hex8_eq:
  "scan_hex8 k (word_of_int v) z =
     (word_of_int (foldl (\<lambda>v c. v * 16 + uint (sqlite3HexToInt c)) v (take k (takeWhile sqlite3Isxdigit z))),
      drop (length (take k (takeWhile sqlite3Isxdigit z))) z)"
proof (induction k arbitrary: v z)
  case (Suc k)
  show ?case
  proof (cases z)
    case (Cons c s)
    with Suc.IH [of "v * 16 + uint (sqlite3HexToInt c)" s] show ?thesis by simp
  qed (simp add: xdigit_0)
qed simp

lemma hex_digit_pos: "sqlite3Isxdigit c \<Longrightarrow> c \<noteq> 48 \<Longrightarrow> sqlite3HexToInt c \<noteq> 0"
proof -
  assume "sqlite3Isxdigit c" "c \<noteq> 48"
  then have m: "uint c \<in> set ([49..57] @ [65..70] @ [97..102])"
    unfolding set_append set_upto by (auto simp: isxdigit_iff word_le_def word_uint_eq_iff)
  have nz: "list_all (\<lambda>i. sqlite3HexToInt (word_of_int i) \<noteq> 0) ([49..57] @ [65..70] @ [97..102])"
    by code_simp
  have "sqlite3HexToInt (word_of_int (uint c)) \<noteq> 0"
    by (rule bspec [OF nz [unfolded list_all_iff] m])
  then show ?thesis by simp
qed

lemma hex_significant:
  assumes "takeWhile sqlite3Isxdigit (dropWhile (\<lambda>c. c = 48) cs) = d # ds"
  shows "16 ^ length ds \<le> hex_value (d # ds)"
proof -
  have x: "sqlite3Isxdigit d" using assms by (metis list.set_intros(1) set_takeWhileD)
  have "d \<noteq> 48"
    using assms hd_dropWhile [of "\<lambda>c. c = 48" cs]
    by (cases "dropWhile (\<lambda>c. c = 48) cs") (auto split: if_splits)
  with x have "0 < sqlite3HexToInt d" by (simp add: hex_digit_pos word_gt_0)
  then have "1 \<le> uint (sqlite3HexToInt d)" by (simp add: word_less_def)
  then have "1 * 16 ^ length ds \<le> uint (sqlite3HexToInt d) * (16 ^ length ds :: int)"
    by (intro mult_right_mono) simp_all
  then show ?thesis using hex_value_bounds [of ds] unfolding hex_value_Cons by linarith
qed

lemma bit31: "(u :: u32) AND 0x80000000 = 0 \<longleftrightarrow> uint u < 2 ^ 31"
proof -
  have "u AND 0x80000000 = 0 \<longleftrightarrow> \<not> bit u 31"
    using and_exp_eq_0_iff_not_bit [of u 31] by simp
  also have "\<dots> \<longleftrightarrow> \<not> odd (uint u div 2 ^ 31)"
    using bit_uint_iff [of u 31] by (simp add: bit_iff_odd)
  also have "\<dots> \<longleftrightarrow> uint u < 2 ^ 31"
  proof -
    define q where "q = uint u div 2 ^ 31"
    have "0 \<le> q" "q < 2" unfolding q_def
      using uint_lt2p [of u] uint_ge_0 [of u] by (simp_all add: pos_imp_zdiv_nonneg_iff)
    then have "\<not> odd q \<longleftrightarrow> q = 0" by presburger
    then show ?thesis using uint_ge_0 [of u] by (simp add: q_def zdiv_eq_0_iff)
  qed
  finally show ?thesis .
qed

lemma hex32_exact:
  "get_hex32 z = (let v = hex_value (takeWhile sqlite3Isxdigit z) in if v < 2 ^ 31 then Some v else None)"
proof -
  let ?z = "dropWhile (\<lambda>c. c = 48) z"
  let ?s = "takeWhile sqlite3Isxdigit ?z"
  have b: "0 \<le> hex_value ?s" "hex_value ?s < 16 ^ length ?s" using hex_value_bounds by simp_all
  have scan: "scan_hex8 8 0 ?z = (word_of_int (hex_value (take 8 ?s)), drop (length (take 8 ?s)) ?z)"
    using scan_hex8_eq [of 8 0 ?z] by (simp add: hex_value_def)
  have rest: "drop (length ?s) ?z = dropWhile sqlite3Isxdigit ?z"
    by (metis append_eq_conv_conj takeWhile_dropWhile_id)
  show ?thesis
  proof (cases "length ?s \<le> 8")
    case True
    then have take: "take 8 ?s = ?s" by simp
    have "(16 :: int) ^ length ?s \<le> 16 ^ 8" using True by (intro power_increasing) simp_all
    with b have lt: "hex_value ?s < 2 ^ 32" by simp
    then have u: "uint (word_of_int (hex_value ?s) :: u32) = hex_value ?s"
      using b(1) by (simp add: unsigned_of_int take_bit_int_eq_self)
    with xdigit_after [of ?z] show ?thesis
      by (simp add: get_hex32_def scan take rest bit31 hex_zeros [of z] Let_def)
  next
    case False
    then obtain d t where s: "?s = d # t" by (cases ?s) auto
    with False have "(16 :: int) ^ 8 \<le> 16 ^ length t" by (intro power_increasing) simp_all
    with hex_significant [OF s] have big: "2 ^ 31 \<le> hex_value ?s" unfolding s by simp
    have "sqlite3Isxdigit (hd0 (drop 8 ?z))"
    proof -
      have "?s ! 8 \<in> set ?s" using False by (intro nth_mem) simp
      then have "sqlite3Isxdigit (?s ! 8)" by (meson set_takeWhileD)
      moreover have "?s ! 8 = ?z ! 8" using False by (intro takeWhile_nth) simp
      moreover have "length ?s \<le> length ?z" by (rule length_takeWhile_le)
      then have "hd0 (drop 8 ?z) = ?z ! 8"
        using False by (simp add: hd0_def hd_drop_conv_nth [symmetric] split: list.split)
      ultimately show ?thesis by simp
    qed
    with False big show ?thesis
      by (simp add: get_hex32_def scan hex_zeros [of z] Let_def)
  qed
qed

lemma getint32_exact: "sqlite3GetInt32 z = getint32_spec z"
  unfolding sqlite3GetInt32_def getint32_spec_def dec32_exact hex32_exact by (auto simp: Let_def)


subsection \<open>Logarithmic estimates\<close>

text \<open>The normalising loops divide or multiply by a power of two and account for it.\<close>

lemma logest_down1_eq: "8 \<le> x \<Longrightarrow> \<exists>k. logest_down1 y x = (y + 10 * int k, x div 2 ^ k)
    \<and> 8 \<le> x div 2 ^ k \<and> x div 2 ^ k < 16"
proof (induction y x rule: logest_down1.induct)
  case (1 y x)
  show ?case
  proof (cases "x > 15")
    case True
    then have "8 \<le> x div 2" by simp
    with "1.IH" [OF True] obtain k where "logest_down1 (y + 10) (x div 2) = (y + 10 + 10 * int k, x div 2 div 2 ^ k)"
      "8 \<le> x div 2 div 2 ^ k" "x div 2 div 2 ^ k < 16" by blast
    with True show ?thesis
      by (subst logest_down1.simps) (auto intro!: exI [of _ "Suc k"] simp: div_mult2_eq)
  next
    case False
    with "1.prems" show ?thesis by (subst logest_down1.simps) (auto intro!: exI [of _ 0])
  qed
qed

lemma logest_down4_eq: "8 \<le> x \<Longrightarrow> \<exists>k. logest_down4 y x = (y + 10 * int k, x div 2 ^ k)
    \<and> 8 \<le> x div 2 ^ k"
proof (induction y x rule: logest_down4.induct)
  case (1 y x)
  show ?case
  proof (cases "x > 255")
    case True
    then have "8 \<le> x div 16" by simp
    with "1.IH" [OF True] obtain k where "logest_down4 (y + 40) (x div 16) = (y + 40 + 10 * int k, x div 16 div 2 ^ k)"
      "8 \<le> x div 16 div 2 ^ k" by blast
    moreover have "x div 16 div 2 ^ k = x div 2 ^ (k + 4)"
      by (simp add: power_add div_mult2_eq [symmetric] mult.commute)
    ultimately show ?thesis using True
      by (subst logest_down4.simps) (auto intro!: exI [of _ "k + 4"])
  next
    case False
    with "1.prems" show ?thesis by (subst logest_down4.simps) (auto intro!: exI [of _ 0])
  qed
qed

lemma logest_large: "8 \<le> x \<Longrightarrow> \<exists>k. 8 \<le> x div 2 ^ k \<and> x div 2 ^ k < 16
    \<and> sqlite3LogEst x = logest_table ! (x div 2 ^ k - 8) + 30 + 10 * int k"
proof -
  assume x: "8 \<le> x"
  obtain j where j: "logest_down4 40 x = (40 + 10 * int j, x div 2 ^ j)" "8 \<le> x div 2 ^ j"
    using logest_down4_eq [OF x] by blast
  obtain k where k: "logest_down1 (40 + 10 * int j) (x div 2 ^ j)
      = (40 + 10 * int j + 10 * int k, x div 2 ^ j div 2 ^ k)"
    "8 \<le> x div 2 ^ j div 2 ^ k" "x div 2 ^ j div 2 ^ k < 16"
    using logest_down1_eq [OF j(2)] by blast
  have e: "x div 2 ^ j div 2 ^ k = x div 2 ^ (j + k)" by (simp add: div_mult2_eq power_add)
  have "sqlite3LogEst x = logest_table ! (x div 2 ^ (j + k) mod 8) + 30 + 10 * int (j + k)"
    using x j k(1) by (simp add: sqlite3LogEst_def e)
  moreover have "x div 2 ^ (j + k) mod 8 = x div 2 ^ (j + k) - 8"
    using k e by (simp add: mod_if)
  ultimately show ?thesis using k e by (intro exI [of _ "j + k"]) simp
qed

text \<open>The exponent is the one that normalises the number; small numbers are scaled by eight.\<close>

lemma exponent_unique:
  fixes x y k l :: nat
  assumes "8 * 2 ^ k \<le> x" "x \<le> y" "y < 16 * 2 ^ l"
  shows "k \<le> l"
proof (rule ccontr)
  assume "\<not> k \<le> l"
  then have "(2 :: nat) ^ Suc l \<le> 2 ^ k" by (intro power_increasing) simp_all
  with assms show False by simp
qed

lemma logest_at:
  assumes lo: "8 * 2 ^ k \<le> x" and hi: "x < 16 * 2 ^ k"
  shows "sqlite3LogEst x = logest_table ! (x div 2 ^ k - 8) + 30 + 10 * int k"
proof -
  have "8 * 1 \<le> (8 :: nat) * 2 ^ k" by (intro mult_left_mono) simp_all
  with lo have "8 \<le> x" by linarith
  then obtain l where l: "8 \<le> x div 2 ^ l" "x div 2 ^ l < 16"
    "sqlite3LogEst x = logest_table ! (x div 2 ^ l - 8) + 30 + 10 * int l"
    using logest_large by blast
  have "8 * 2 ^ l \<le> x" "x < 16 * 2 ^ l"
    using l(1,2) by (simp_all add: less_eq_div_iff_mult_less_eq div_less_iff_less_mult)
  then have "k = l" using lo hi exponent_unique [of k x x l] exponent_unique [of l x x k] by simp
  with l show ?thesis by simp
qed

lemma logest_by_8: "1 \<le> x \<Longrightarrow> sqlite3LogEst (8 * x) = sqlite3LogEst x + 30"
proof (cases "8 \<le> x")
  case True
  then obtain k where k: "8 \<le> x div 2 ^ k" "x div 2 ^ k < 16" using logest_large by blast
  then have "8 * 2 ^ k \<le> x" "x < 16 * 2 ^ k"
    by (simp_all add: less_eq_div_iff_mult_less_eq div_less_iff_less_mult)
  moreover have "8 * x div 2 ^ (k + 3) = x div 2 ^ k" by (simp add: power_add)
  ultimately show ?thesis
    using logest_at [of k x] logest_at [of "k + 3" "8 * x"] by (simp add: power_add)
next
  case False
  assume "1 \<le> x"
  with False have "x \<in> set [1, 2, 3, 4, 5, 6, 7]" by auto
  moreover have "list_all (\<lambda>x. sqlite3LogEst (8 * x) = sqlite3LogEst x + 30) [1, 2, 3, 4, 5, 6, 7]"
    by code_simp
  ultimately show ?thesis by (simp only: list_all_iff)
qed

lemma logest_cases:
  assumes "1 \<le> x"
  obtains k i where "i < 8" "(8 + i) * 2 ^ k \<le> 8 * x" "8 * x < (9 + i) * 2 ^ k"
    "sqlite3LogEst x = logest_table ! i + 10 * int k"
proof -
  have "8 \<le> 8 * x" using assms by simp
  then obtain k where k: "8 \<le> 8 * x div 2 ^ k" "8 * x div 2 ^ k < 16"
    "sqlite3LogEst (8 * x) = logest_table ! (8 * x div 2 ^ k - 8) + 30 + 10 * int k"
    using logest_large by blast
  let ?q = "8 * x div 2 ^ k"
  show thesis
  proof (rule that [of "?q - 8" k])
    show "?q - 8 < 8" using k by simp
    have "8 * x = ?q * 2 ^ k + 8 * x mod 2 ^ k" by (rule div_mult_mod_eq [symmetric])
    moreover have "8 * x mod 2 ^ k < 2 ^ k" by simp
    ultimately have "?q * 2 ^ k \<le> 8 * x" "8 * x < (?q + 1) * 2 ^ k"
      by (simp_all only: add_mult_distrib mult_1)
    with k(1) show "(8 + (?q - 8)) * 2 ^ k \<le> 8 * x" "8 * x < (9 + (?q - 8)) * 2 ^ k"
      by simp_all
    show "sqlite3LogEst x = logest_table ! (?q - 8) + 10 * int k"
      using logest_by_8 [OF assms] k(3) by simp
  qed
qed

lemma table_range: "i < 8 \<Longrightarrow> 0 \<le> logest_table ! i \<and> logest_table ! i \<le> 9"
proof -
  have "list_all (\<lambda>i. 0 \<le> logest_table ! i \<and> logest_table ! i \<le> 9) [0..<8]" by code_simp
  then show "i < 8 \<Longrightarrow> ?thesis" by (simp add: list_all_iff)
qed

lemma table_mono: "i \<le> j \<Longrightarrow> j < 8 \<Longrightarrow> logest_table ! i \<le> logest_table ! j"
proof -
  have "sorted logest_table \<and> length logest_table = 8" by code_simp
  then show "i \<le> j \<Longrightarrow> j < 8 \<Longrightarrow> ?thesis" by (simp add: sorted_nth_mono)
qed

lemma logest_mono: "1 \<le> x \<Longrightarrow> x \<le> y \<Longrightarrow> sqlite3LogEst x \<le> sqlite3LogEst y"
proof -
  assume x: "1 \<le> x" and le: "x \<le> y"
  obtain k i where X: "i < 8" "(8 + i) * 2 ^ k \<le> 8 * x" "8 * x < (9 + i) * 2 ^ k"
    "sqlite3LogEst x = logest_table ! i + 10 * int k" using logest_cases [OF x] .
  have "1 \<le> y" using x le by simp
  then obtain l j where Y: "j < 8" "(8 + j) * 2 ^ l \<le> 8 * y" "8 * y < (9 + j) * 2 ^ l"
    "sqlite3LogEst y = logest_table ! j + 10 * int l" using logest_cases by blast
  have "8 * 2 ^ k \<le> (8 + i) * 2 ^ k" "(9 + j) * 2 ^ l \<le> 16 * 2 ^ l"
    using Y(1) by (intro mult_right_mono; simp)+
  then have kl: "k \<le> l"
    using X Y le exponent_unique [of k "8 * x" "8 * y" l] by linarith
  show ?thesis
  proof (cases "k = l")
    case True
    have "(8 + i) * 2 ^ k \<le> 8 * x" by (rule X(2))
    also have "\<dots> \<le> 8 * y" using le by simp
    also have "\<dots> < (9 + j) * 2 ^ k" using Y(3) True by simp
    finally have "(8 + i) * 2 ^ k < (9 + j) * 2 ^ k" .
    then have "i \<le> j" by simp
    with True X Y table_mono [of i j] show ?thesis by simp
  next
    case False
    with kl have "int k + 1 \<le> int l" by simp
    with X Y table_range [of i] table_range [of j] show ?thesis by simp
  qed
qed

lemma table_powers: "i < 8 \<Longrightarrow>
    2 ^ (nat (logest_table ! i) + 29) \<le> (8 + i) ^ 10 \<and> (9 + i) ^ 10 \<le> 2 ^ (nat (logest_table ! i) + 32)"
proof -
  have "list_all (\<lambda>i. 2 ^ (nat (logest_table ! i) + 29) \<le> (8 + i) ^ 10
      \<and> (9 + i) ^ 10 \<le> 2 ^ (nat (logest_table ! i) + 32)) [0, 1, 2, 3, 4, 5, 6, 7]"
    by (simp add: logest_table_def)
  moreover assume "i < 8"
  then have "i \<in> set [0, 1, 2, 3, 4, 5, 6, 7]" by auto
  ultimately show ?thesis by (simp only: list_all_iff)
qed

lemma logest_accuracy: "1 \<le> x \<Longrightarrow>
    0 \<le> sqlite3LogEst x \<and> 2 ^ nat (sqlite3LogEst x) \<le> 2 * x ^ 10 \<and> x ^ 10 < 2 ^ (nat (sqlite3LogEst x) + 2)"
proof -
  assume "1 \<le> x"
  then obtain k i where X: "i < 8" "(8 + i) * 2 ^ k \<le> 8 * x" "8 * x < (9 + i) * 2 ^ k"
    "sqlite3LogEst x = logest_table ! i + 10 * int k" by (rule logest_cases)
  have r: "0 \<le> logest_table ! i" using table_range [OF X(1)] by simp
  then have L: "nat (sqlite3LogEst x) = nat (logest_table ! i) + 10 * k" using X(4) by simp
  let ?t = "nat (logest_table ! i)"
  have p: "(8 * x) ^ 10 = 2 ^ 30 * x ^ 10" by (simp add: power_mult_distrib)
  have e: "((m :: nat) * 2 ^ k) ^ 10 = m ^ 10 * 2 ^ (10 * k)" for m
    by (simp add: power_mult_distrib power_mult [symmetric] mult.commute)
  have "2 ^ (?t + 29) * 2 ^ (10 * k) \<le> (8 + i) ^ 10 * 2 ^ (10 * k)"
    using table_powers [OF X(1)] by (intro mult_right_mono) simp_all
  also have "\<dots> \<le> (8 * x) ^ 10" unfolding e [symmetric] using X(2) by (intro power_mono) simp_all
  finally have "2 ^ 29 * 2 ^ (?t + 10 * k) \<le> 2 ^ 29 * (2 * x ^ 10)"
    unfolding p by (simp add: power_add mult.assoc mult.commute mult.left_commute)
  then have lo: "2 ^ (?t + 10 * k) \<le> 2 * x ^ 10" by (simp only: mult_le_cancel1) simp
  have "(8 * x) ^ 10 < ((9 + i) * 2 ^ k) ^ 10" using X(3) by (intro power_strict_mono) simp_all
  also have "\<dots> \<le> 2 ^ (?t + 32) * 2 ^ (10 * k)" unfolding e
    using table_powers [OF X(1)] by (intro mult_right_mono) simp_all
  finally have "2 ^ 30 * x ^ 10 < 2 ^ 30 * 2 ^ (?t + 10 * k + 2)"
    unfolding p by (simp add: power_add mult.assoc mult.commute mult.left_commute)
  then have "x ^ 10 < 2 ^ (?t + 10 * k + 2)" by (simp only: mult_less_cancel1)
  with lo r X(4) L show ?thesis by simp
qed


lemma add_table_range: "i < 32 \<Longrightarrow> 0 \<le> logest_add_table ! i \<and> logest_add_table ! i \<le> 10"
proof -
  have "list_all (\<lambda>i. 0 \<le> logest_add_table ! i \<and> logest_add_table ! i \<le> 10) [0..<32]" by code_simp
  then show "i < 32 \<Longrightarrow> ?thesis" by (simp add: list_all_iff)
qed

lemma c_int16_id: "- (2 ^ 15) \<le> x \<Longrightarrow> x < 2 ^ 15 \<Longrightarrow> c_int16 x = x"
  by (simp add: c_int16_def)

definition in_int16 :: "int \<Rightarrow> bool" where
  "in_int16 x \<longleftrightarrow> - (2 ^ 15) \<le> x \<and> x < 2 ^ 15"

lemma logest_add_ge: "v \<le> u \<Longrightarrow> in_int16 v \<Longrightarrow> in_int16 (u + 10) \<Longrightarrow>
    u \<le> sqlite3LogEstAdd u v \<and> sqlite3LogEstAdd u v \<le> u + 10"
proof -
  assume le: "v \<le> u" and r: "in_int16 v" "in_int16 (u + 10)"
  show ?thesis
  proof (cases "u > v + 31")
    case True
    with le r show ?thesis by (auto simp: sqlite3LogEstAdd_def in_int16_def c_int16_id)
  next
    case False
    with le have "nat (u - v) < 32" by simp
    from add_table_range [OF this] False le r show ?thesis
      by (auto simp: sqlite3LogEstAdd_def in_int16_def c_int16_id)
  qed
qed

lemma logest_add_commute: "sqlite3LogEstAdd u v = sqlite3LogEstAdd v u"
  by (cases "u = v") (auto simp: sqlite3LogEstAdd_def)

subsection \<open>Properties\<close>



text \<open>
  C17. The checked operations are exact on 64-bit operands: the sum, difference or product
  with code 0 when it is a 64-bit integer, and otherwise code 1 with the operand unchanged.
  The absolute value is exact but for the least integer, which has none.
\<close>

theorem checked_arithmetic_exact:
  assumes "in_int64 x" and "in_int64 y" and "in_int32 w"
  shows "sqlite3AddInt64 x y = (if in_int64 (x + y) then (0, x + y) else (1, x))
    \<and> sqlite3SubInt64 x y = (if in_int64 (x - y) then (0, x - y) else (1, x))
    \<and> sqlite3MulInt64 x y = (if in_int64 (x * y) then (0, x * y) else (1, x))
    \<and> sqlite3AbsInt32 w = min \<bar>w\<bar> (2 ^ 31 - 1)"
  using assms by (auto simp: add_exact sub_exact mul_exact sqlite3AbsInt32_def in_int32_def)

theorem checked_arithmetic_exact_witness:
  "sqlite3AddInt64 (2 ^ 63 - 1) 1 = (1, 2 ^ 63 - 1)
    \<and> sqlite3SubInt64 (2 ^ 63 - 1) 1 = (0, 2 ^ 63 - 2)
    \<and> sqlite3MulInt64 (2 ^ 63 - 1) 1 = (0, 2 ^ 63 - 1)
    \<and> sqlite3AbsInt32 (- (2 ^ 31)) = 2 ^ 31 - 1"
  using checked_arithmetic_exact [of "2 ^ 63 - 1" 1 "- (2 ^ 31)"]
  by (simp add: in_int64_def in_int32_def)

text \<open>
  Round trip of blobs through hexadecimal text: the text that \<open>hex(X)\<close> produces for a
  blob, closed with a quote as in the literal \<open>x'...'\<close>, is read back by
  \<open>sqlite3HexToBlob\<close> as the same bytes and the terminator.
\<close>

theorem hex_round_trip:
  "(case hexFunc True blob of
      Some t \<Rightarrow> sqlite3HexToBlob True (t @ [39]) (length t + 1) = Some (blob @ [0])
    | None \<Rightarrow> False)"
  using hex_loop [of blob "[39]"] by (simp add: hexFunc_def sqlite3HexToBlob_def)

text \<open>
  \<open>sqlite3GetInt32\<close> accepts exactly the texts that begin with a decimal integer, or a
  hexadecimal one after \<open>0x\<close>, whose value is in range, and returns that value; leading
  zeros and whatever follows the digits do not matter, and eleven digits never fit.
  \<open>sqlite3Atoi\<close> returns it, or 0.
\<close>

theorem get_int32_exact:
  "sqlite3GetInt32 z = getint32_spec z
   \<and> sqlite3Atoi (Some z) = (case getint32_spec z of None \<Rightarrow> 0 | Some x \<Rightarrow> x)"
  by (simp add: getint32_exact sqlite3Atoi_def)

text \<open>
  The logarithmic estimate of a number is monotone and within the bounds
  \<open>10 * log2(x) - 2 < LogEst(x) <= 10 * log2(x) + 1\<close>, stated without logarithms; the sum of
  two estimates does not depend on their order and lies between the greater one and ten
  more.
\<close>

theorem logest_bounds:
  assumes "1 \<le> x" and "x \<le> y" and "in_int16 u" and "in_int16 v" and "in_int16 (max u v + 10)"
  shows "sqlite3LogEst x \<le> sqlite3LogEst y
    \<and> 2 ^ nat (sqlite3LogEst x) \<le> 2 * x ^ 10 \<and> x ^ 10 < 2 ^ (nat (sqlite3LogEst x) + 2)
    \<and> sqlite3LogEstAdd u v = sqlite3LogEstAdd v u
    \<and> max u v \<le> sqlite3LogEstAdd u v \<and> sqlite3LogEstAdd u v \<le> max u v + 10"
proof -
  have "max u v \<le> sqlite3LogEstAdd u v \<and> sqlite3LogEstAdd u v \<le> max u v + 10"
    using assms logest_add_ge [of v u] logest_add_ge [of u v] logest_add_commute [of u v]
    by (auto simp: max_def)
  then show ?thesis
    using logest_mono [OF assms(1,2)] logest_accuracy [OF assms(1)] logest_add_commute by simp
qed

theorem logest_bounds_witness:
  "sqlite3LogEst 1000 \<le> sqlite3LogEst 4000
    \<and> 2 ^ nat (sqlite3LogEst 1000) \<le> 2 * (1000 :: nat) ^ 10
    \<and> (1000 :: nat) ^ 10 < 2 ^ (nat (sqlite3LogEst 1000) + 2)
    \<and> sqlite3LogEstAdd 50 43 = sqlite3LogEstAdd 43 50
    \<and> max 50 43 \<le> sqlite3LogEstAdd 50 43 \<and> sqlite3LogEstAdd 50 43 \<le> max 50 43 + 10"
  by (rule logest_bounds) (simp_all add: in_int16_def)

end
