(* ===== verification/Bitvec.thy ===== *)
theory Bitvec
  imports Prelude
begin

section \<open>Page bitmaps\<close>

text \<open>
  The bitmap of \<open>bitvec.c\<close>, in which the pager records the pages it has journalled: a
  plain bitmap while the size is small, a hash table of the set bits while they are few,
  and an array of smaller bitmaps after that. The structure is 512 bytes on every target;
  the derived sizes are those of a 64-bit one.

  The union of the structure becomes a datatype: the code reads the member that
  \<open>iSize\<close> and \<open>iDivisor\<close> select, and it clears the memory before it changes the selection.
  Numbers are \<^typ>\<open>nat\<close> below \<open>2 ^ 32\<close>; bits count from 1. An allocation numbered \<open>k\<close> succeeds
  when \<open>ok k\<close>. \<open>None\<close> is a run that leaves an array or never ends: the lemmas show that
  there is none.
\<close>

definition BITVEC_SZ :: nat where "BITVEC_SZ = 512"
definition sizeof_ptr :: nat where "sizeof_ptr = 8"
definition BITVEC_USIZE :: nat where
  "BITVEC_USIZE = ((BITVEC_SZ - 3 * 4) div sizeof_ptr) * sizeof_ptr"
definition BITVEC_NELEM :: nat where "BITVEC_NELEM = BITVEC_USIZE"
definition BITVEC_NBIT :: nat where "BITVEC_NBIT = BITVEC_NELEM * 8"
definition BITVEC_NINT :: nat where "BITVEC_NINT = BITVEC_USIZE div 4"
definition BITVEC_MXHASH :: nat where "BITVEC_MXHASH = BITVEC_NINT div 2"
definition BITVEC_HASH :: "nat \<Rightarrow> nat" where "BITVEC_HASH x = x mod BITVEC_NINT"
definition BITVEC_NPTR :: nat where "BITVEC_NPTR = BITVEC_USIZE div sizeof_ptr"

lemma bitvec_sizes:
  "BITVEC_NELEM = 496" "BITVEC_NBIT = 3968" "BITVEC_NINT = 124" "BITVEC_MXHASH = 62" "BITVEC_NPTR = 62"
  by (simp_all add: BITVEC_NELEM_def BITVEC_NBIT_def BITVEC_NINT_def BITVEC_MXHASH_def
      BITVEC_NPTR_def BITVEC_USIZE_def BITVEC_SZ_def sizeof_ptr_def)

datatype bitvec = Bitvec (iSize: nat) (nSet: nat) (iDivisor: nat) (bits: bits)
  and bits = ABitmap "byte list" | AHash "nat list" | ApSub "bitvec option list"

subsection \<open>Creation\<close>

definition sqlite3BitvecCreate :: "(nat \<Rightarrow> bool) \<Rightarrow> nat \<Rightarrow> nat \<Rightarrow> bitvec option" where
  "sqlite3BitvecCreate ok k sz =
     (if ok k
      then Some (Bitvec sz 0 0 (if sz \<le> BITVEC_NBIT then ABitmap (replicate BITVEC_NELEM 0)
                                  else AHash (replicate BITVEC_NINT 0)))
      else None)"

subsection \<open>Test\<close>

fun test_probe :: "nat list \<Rightarrow> nat \<Rightarrow> nat \<Rightarrow> nat \<Rightarrow> bool option" where
  "test_probe t 0 h i = None"
| "test_probe t (Suc f) h i =
     (if t ! h = 0 then Some False
      else if t ! h = i then Some True
      else test_probe t f ((h + 1) mod BITVEC_NINT) i)"

lemma sub_size: "b < length subs \<Longrightarrow> subs ! b = Some q \<Longrightarrow> size q < size (ApSub subs)"
proof -
  assume "b < length subs" "subs ! b = Some q"
  then have "Some q \<in> set subs" by (metis nth_mem)
  then have "size_option size (Some q) \<le> size_list (size_option size) subs"
    by (rule size_list_estimation') simp
  then show ?thesis by simp
qed

text \<open>The loop down the sub-bitmaps, on the zero-based index.\<close>

function test_down :: "bitvec \<Rightarrow> nat \<Rightarrow> bool option" where
  "test_down p i =
     (case bits p of
        ApSub subs \<Rightarrow>
          (let b = i div iDivisor p in
           if b < length subs
           then (case subs ! b of None \<Rightarrow> Some False | Some q \<Rightarrow> test_down q (i mod iDivisor p))
           else None)
      | ABitmap bs \<Rightarrow> Some (bs ! (i div 8) AND push_bit (i mod 8) 1 \<noteq> 0)
      | AHash t \<Rightarrow> test_probe t (BITVEC_NINT + 1) (BITVEC_HASH i) (i + 1))"
  by auto
termination
proof (relation "measure (\<lambda>(p, i). size p)")
  fix p i subs b q
  assume "bits p = ApSub subs" "b = i div iDivisor p" "b < length subs" "subs ! b = Some q"
  then show "((q, i mod iDivisor p), (p, i)) \<in> measure (\<lambda>(p, i). size p)"
    using sub_size [of b subs q] by (cases p) auto
qed simp

definition sqlite3BitvecTestNotNull :: "bitvec \<Rightarrow> nat \<Rightarrow> bool option" where
  "sqlite3BitvecTestNotNull p i =
     (let i = (i + 2 ^ 32 - 1) mod 2 ^ 32 in
      if i \<ge> iSize p then Some False else test_down p i)"

definition sqlite3BitvecTest :: "bitvec option \<Rightarrow> nat \<Rightarrow> bool option" where
  "sqlite3BitvecTest p i =
     (case p of None \<Rightarrow> Some False | Some b \<Rightarrow> sqlite3BitvecTestNotNull b i)"

subsection \<open>Set\<close>

text \<open>
  The \<open>do\<close> loop of a collision: \<open>Some None\<close> when the bit is already in the table,
  otherwise the first free cell.
\<close>

fun set_probe :: "nat list \<Rightarrow> nat \<Rightarrow> nat \<Rightarrow> nat \<Rightarrow> nat option option" where
  "set_probe t 0 h i = None"
| "set_probe t (Suc f) h i =
     (if t ! h = i then Some None
      else let h = (if h + 1 \<ge> BITVEC_NINT then 0 else h + 1) in
        if t ! h = 0 then Some (Some h) else set_probe t f h i)"

text \<open>The loop that sets the saved values again, joining the result codes.\<close>

fun set_values :: "(nat \<Rightarrow> bitvec \<Rightarrow> nat \<Rightarrow> (int \<times> bitvec \<times> nat) option) \<Rightarrow> nat \<Rightarrow> bitvec \<Rightarrow> int
    \<Rightarrow> nat list \<Rightarrow> (int \<times> bitvec \<times> nat) option" where
  "set_values setter k p rc [] = Some (rc, p, k)"
| "set_values setter k p rc (x # xs) =
     (if x \<noteq> 0
      then (case setter k p x of
              None \<Rightarrow> None
            | Some (rc', p', k') \<Rightarrow> set_values setter k' p' (rc OR rc') xs)
      else set_values setter k p rc xs)"

definition with_bits :: "bitvec \<Rightarrow> bits \<Rightarrow> bitvec" where
  "with_bits p b = Bitvec (iSize p) (nSet p) (iDivisor p) b"

text \<open>
  The result is the code, the bitmap and the number of allocations asked for so far. The
  recursion replaces the loop \<open>p = p->u.apSub[bin]\<close>; its fuel bounds the depth.
\<close>

fun bitvec_set :: "nat \<Rightarrow> (nat \<Rightarrow> bool) \<Rightarrow> nat \<Rightarrow> bitvec \<Rightarrow> nat \<Rightarrow> (int \<times> bitvec \<times> nat) option" where
  "bitvec_set 0 ok k p i = None"
| "bitvec_set (Suc f) ok k p i =
     (let i = i - 1 in
      case bits p of
        ApSub subs \<Rightarrow>
          (let b = i div iDivisor p; i = i mod iDivisor p in
           if b \<ge> length subs then None
           else (case (case subs ! b of
                         Some q \<Rightarrow> Some (q, k)
                       | None \<Rightarrow> map_option (\<lambda>q. (q, k + 1)) (sqlite3BitvecCreate ok k (iDivisor p))) of
                   None \<Rightarrow> Some (SQLITE_NOMEM, p, k + 1)
                 | Some (q, k) \<Rightarrow>
                     map_option (\<lambda>(rc, q, k). (rc, with_bits p (ApSub (subs[b := Some q])), k))
                       (bitvec_set f ok k q (i + 1))))
      | ABitmap bs \<Rightarrow>
          Some (SQLITE_OK,
                with_bits p (ABitmap (bs[i div 8 := bs ! (i div 8) OR push_bit (i mod 8) 1])), k)
      | AHash t \<Rightarrow>
          (let h = BITVEC_HASH i; i = i + 1;
               finish = (\<lambda>h. Some (SQLITE_OK,
                  Bitvec (iSize p) (nSet p + 1) (iDivisor p) (AHash (t[h := i])), k));
               rehash = (\<lambda>h. if nSet p \<ge> BITVEC_MXHASH
                  then (if \<not> ok k then Some (SQLITE_NOMEM, p, k + 1)
                        else let p = Bitvec (iSize p) (nSet p)
                                       ((iSize p + BITVEC_NPTR - 1) div BITVEC_NPTR)
                                       (ApSub (replicate BITVEC_NPTR None))
                             in (case bitvec_set f ok (k + 1) p i of
                                   None \<Rightarrow> None
                                 | Some (rc, p, k) \<Rightarrow> set_values (bitvec_set f ok) k p rc t))
                  else finish h)
           in if t ! h = 0
              then (if nSet p < BITVEC_NINT - 1 then finish h else rehash h)
              else (case set_probe t BITVEC_NINT h i of
                      None \<Rightarrow> None
                    | Some None \<Rightarrow> Some (SQLITE_OK, p, k)
                    | Some (Some h) \<Rightarrow> rehash h)))"

text \<open>Ten levels are enough for every size below \<open>2 ^ 32\<close>.\<close>

definition BITVEC_FUEL :: nat where "BITVEC_FUEL = 10"

definition sqlite3BitvecSet ::
    "(nat \<Rightarrow> bool) \<Rightarrow> nat \<Rightarrow> bitvec option \<Rightarrow> nat \<Rightarrow> (int \<times> bitvec option \<times> nat) option" where
  "sqlite3BitvecSet ok k p i =
     (case p of
        None \<Rightarrow> Some (SQLITE_OK, None, k)
      | Some b \<Rightarrow> map_option (\<lambda>(rc, b, k). (rc, Some b, k)) (bitvec_set BITVEC_FUEL ok k b i))"

subsection \<open>Clear, destroy, size\<close>

fun place_probe :: "nat list \<Rightarrow> nat \<Rightarrow> nat \<Rightarrow> nat option" where
  "place_probe t 0 h = None"
| "place_probe t (Suc f) h =
     (if t ! h = 0 then Some h
      else place_probe t f (if h + 1 \<ge> BITVEC_NINT then 0 else h + 1))"

text \<open>The table is rebuilt from the copy in \<open>pBuf\<close>, without \<open>i\<close>.\<close>

fun rebuild :: "nat list \<Rightarrow> nat \<Rightarrow> nat \<Rightarrow> nat list \<Rightarrow> (nat list \<times> nat) option" where
  "rebuild t cnt i [] = Some (t, cnt)"
| "rebuild t cnt i (x # xs) =
     (if x \<noteq> 0 \<and> x \<noteq> i
      then (case place_probe t (BITVEC_NINT + 1) (BITVEC_HASH (x - 1)) of
              None \<Rightarrow> None
            | Some h \<Rightarrow> rebuild (t[h := x]) (cnt + 1) i xs)
      else rebuild t cnt i xs)"

function clear_down :: "bitvec \<Rightarrow> nat \<Rightarrow> bitvec option" where
  "clear_down p i =
     (case bits p of
        ApSub subs \<Rightarrow>
          (let b = i div iDivisor p in
           if b < length subs
           then (case subs ! b of
                   None \<Rightarrow> Some p
                 | Some q \<Rightarrow> map_option (\<lambda>q. with_bits p (ApSub (subs[b := Some q])))
                                (clear_down q (i mod iDivisor p)))
           else None)
      | ABitmap bs \<Rightarrow>
          Some (with_bits p (ABitmap (bs[i div 8 := bs ! (i div 8) AND NOT (push_bit (i mod 8) 1)])))
      | AHash t \<Rightarrow>
          map_option (\<lambda>(t, cnt). Bitvec (iSize p) cnt (iDivisor p) (AHash t))
            (rebuild (replicate BITVEC_NINT 0) 0 (i + 1) t))"
  by auto
termination
proof (relation "measure (\<lambda>(p, i). size p)")
  fix p i subs b q
  assume "bits p = ApSub subs" "b = i div iDivisor p" "b < length subs" "subs ! b = Some q"
  then show "((q, i mod iDivisor p), (p, i)) \<in> measure (\<lambda>(p, i). size p)"
    using sub_size [of b subs q] by (cases p) auto
qed simp

declare test_down.simps [simp del] clear_down.simps [simp del]

definition sqlite3BitvecClear :: "bitvec option \<Rightarrow> nat \<Rightarrow> bitvec option option" where
  "sqlite3BitvecClear p i =
     (case p of None \<Rightarrow> Some None | Some b \<Rightarrow> map_option Some (clear_down b (i - 1)))"

text \<open>The number of blocks that are freed.\<close>

fun bitvec_frees :: "bitvec \<Rightarrow> nat" where
  "bitvec_frees (Bitvec s c d (ApSub subs)) =
     1 + sum_list (map (\<lambda>q. case q of None \<Rightarrow> 0 | Some b \<Rightarrow> bitvec_frees b) subs)"
| "bitvec_frees (Bitvec s c d (ABitmap bs)) = 1"
| "bitvec_frees (Bitvec s c d (AHash t)) = 1"

definition sqlite3BitvecDestroy :: "bitvec option \<Rightarrow> nat" where
  "sqlite3BitvecDestroy p = (case p of None \<Rightarrow> 0 | Some b \<Rightarrow> bitvec_frees b)"

definition sqlite3BitvecSize :: "bitvec \<Rightarrow> nat" where
  "sqlite3BitvecSize p = iSize p"

subsection \<open>The built-in test\<close>

text \<open>
  \<open>sqlite3BitvecBuiltinTest\<close> runs a program of set and clear operations on a bitmap and on
  a plain array of bits and compares them. The program is the part of \<open>aOp\<close> from \<open>pc\<close> on;
  \<open>rnd r\<close> is what the call number \<open>r\<close> of \<open>sqlite3_randomness\<close> stores. The result of the
  loop is \<open>Inl\<close> the return value when it leaves for \<open>bitvec_end\<close>, otherwise \<open>Inr\<close> the
  bitmap and the array. A signed overflow or a read past the program is \<open>None\<close>.
\<close>

definition SETBIT :: "byte list \<Rightarrow> nat \<Rightarrow> byte list" where
  "SETBIT V i = V[i div 8 := V ! (i div 8) OR push_bit (i mod 8) 1]"

definition CLEARBIT :: "byte list \<Rightarrow> nat \<Rightarrow> byte list" where
  "CLEARBIT V i = V[i div 8 := V ! (i div 8) AND NOT (push_bit (i mod 8) 1)]"

definition TESTBIT :: "byte list \<Rightarrow> nat \<Rightarrow> bool" where
  "TESTBIT V i \<longleftrightarrow> V ! (i div 8) AND push_bit (i mod 8) 1 \<noteq> 0"

function run_ops :: "(nat \<Rightarrow> bool) \<Rightarrow> (nat \<Rightarrow> int) \<Rightarrow> int \<Rightarrow> nat \<Rightarrow> nat \<Rightarrow> bitvec \<Rightarrow> byte list \<Rightarrow> int list
    \<Rightarrow> (int + bitvec \<times> byte list) option" where
  "run_ops ok rnd sz k r p V [] = None"
| "run_ops ok rnd sz k r p V [opc] = (if opc = 0 then Some (Inr (p, V)) else None)"
| "run_ops ok rnd sz k r p V (opc # cnt # args) =
     (if opc = 0 then Some (Inr (p, V))
      else if cnt \<le> - (2 ^ 31) then None
      else if (opc = 1 \<or> opc = 2 \<or> opc = 5) \<and> length args < 2 then None
      else
        let ranged = (opc = 1 \<or> opc = 2 \<or> opc = 5);
            i = (if ranged then args ! 0 - 1 else rnd r);
            r' = (if ranged then r else r + 1);
            args' = (if ranged then args[0 := c_int32 (args ! 0 + args ! 1)] else args);
            rest = (if cnt - 1 > 0 then opc # (cnt - 1) # args'
                    else if ranged then drop 2 args' else args');
            i = nat ((c_int32 i AND 0x7fffffff) mod sz)
        in if odd opc
           then (if opc \<noteq> 5
                 then (case sqlite3BitvecSet ok k (Some p) (i + 1) of
                         Some (rc, Some p', k') \<Rightarrow>
                           (if rc \<noteq> 0 then Some (Inl (- 1))
                            else run_ops ok rnd sz k' r' p' (SETBIT V (i + 1)) rest)
                       | _ \<Rightarrow> None)
                 else run_ops ok rnd sz k r' p (SETBIT V (i + 1)) rest)
           else (case sqlite3BitvecClear (Some p) (i + 1) of
                   Some (Some p') \<Rightarrow> run_ops ok rnd sz k r' p' (CLEARBIT V (i + 1)) rest
                 | _ \<Rightarrow> None))"
  by pat_completeness auto
termination
  by (relation "measures [\<lambda>(ok, rnd, sz, k, r, p, V, prog). length prog,
        \<lambda>(ok, rnd, sz, k, r, p, V, prog). case prog of _ # c # _ \<Rightarrow> nat c | _ \<Rightarrow> 0]") auto

declare run_ops.simps(3) [simp del]

text \<open>The comparison: the first bit that differs, or the code computed before it.\<close>

fun compare_bits :: "bitvec \<Rightarrow> byte list \<Rightarrow> int \<Rightarrow> nat list \<Rightarrow> int option" where
  "compare_bits p V rc [] = Some rc"
| "compare_bits p V rc (i # is) =
     (case sqlite3BitvecTest (Some p) i of
        None \<Rightarrow> None
      | Some b \<Rightarrow> if TESTBIT V i \<noteq> b then Some (int i) else compare_bits p V rc is)"

definition sqlite3BitvecBuiltinTest ::
    "(nat \<Rightarrow> bool) \<Rightarrow> (nat \<Rightarrow> int) \<Rightarrow> int \<Rightarrow> int list \<Rightarrow> int option" where
  "sqlite3BitvecBuiltinTest ok rnd sz aOp =
     (case sqlite3BitvecCreate ok 0 (nat sz) of
        None \<Rightarrow> Some (- 1)
      | Some p \<Rightarrow>
          if \<not> ok 1 \<or> \<not> ok 2 then Some (- 1)
          else case run_ops ok rnd sz 3 0 p (replicate ((nat sz + 7) div 8 + 1) 0) aOp of
                 None \<Rightarrow> None
               | Some (Inl rc) \<Rightarrow> Some rc
               | Some (Inr (p, V)) \<Rightarrow>
                   (case (sqlite3BitvecTest None 0, sqlite3BitvecTest (Some p) (nat sz + 1),
                          sqlite3BitvecTest (Some p) 0) of
                      (Some b1, Some b2, Some b3) \<Rightarrow>
                        compare_bits p V (of_bool b1 + of_bool b2 + of_bool b3
                          + (int (sqlite3BitvecSize p) - sz)) [1..<Suc (nat sz)]
                    | _ \<Rightarrow> None))"

subsection \<open>Open addressing\<close>

abbreviation N :: nat where "N \<equiv> BITVEC_NINT"

lemma N_pos [simp]: "0 < N"
  by (simp add: bitvec_sizes)

lemma wrap_cyc: "(if cyc N h d + 1 \<ge> N then 0 else cyc N h d + 1) = cyc N h (Suc d)"
proof -
  have "cyc N h d < N" by simp
  then have "cyc N h d + 1 \<ge> N \<longleftrightarrow> cyc N h d + 1 = N" by linarith
  then show ?thesis by (auto simp: cyc_def mod_Suc)
qed

lemma hash_cyc: "BITVEC_HASH x = cyc N x 0"
  by (simp add: BITVEC_HASH_def cyc_0)

text \<open>
  Every stored value can be reached from its hash through cells in use; the table is
  never full, so that every search meets a free cell.
\<close>

definition reachable_at :: "nat list \<Rightarrow> nat \<Rightarrow> nat \<Rightarrow> bool" where
  "reachable_at t x d \<longleftrightarrow> d < N \<and> t ! cyc N (x - 1) d = x \<and> (\<forall>e < d. t ! cyc N (x - 1) e \<noteq> 0)"

definition table_ok :: "nat list \<Rightarrow> bool" where
  "table_ok t \<longleftrightarrow> length t = N \<and> (\<forall>x \<in> set t. x \<noteq> 0 \<longrightarrow> (\<exists>d. reachable_at t x d))"

definition used :: "nat list \<Rightarrow> nat" where
  "used t = length (filter (\<lambda>x. x \<noteq> 0) t)"

lemma used_zeros [simp]: "used (replicate m 0) = 0"
  by (simp add: used_def)

lemma used_update: "j < length t \<Longrightarrow> t ! j = 0 \<Longrightarrow> x \<noteq> 0 \<Longrightarrow> used (t[j := x]) = Suc (used t)"
proof (induction t arbitrary: j)
  case (Cons y t)
  then show ?case by (cases j) (auto simp: used_def)
qed simp

lemma used_free: "used t < length t \<Longrightarrow> \<exists>j < length t. t ! j = 0"
proof (rule ccontr)
  assume lt: "used t < length t" and "\<not> (\<exists>j < length t. t ! j = 0)"
  then have "filter (\<lambda>x. x \<noteq> 0) t = t" by (auto simp: filter_id_conv in_set_conv_nth)
  with lt show False by (simp add: used_def)
qed

text \<open>The first free cell from \<open>h\<close> on.\<close>

definition first_free :: "nat list \<Rightarrow> nat \<Rightarrow> nat \<Rightarrow> bool" where
  "first_free t h d \<longleftrightarrow> d < N \<and> t ! cyc N h d = 0 \<and> (\<forall>e < d. t ! cyc N h e \<noteq> 0)"

lemma first_free_exists: "length t = N \<Longrightarrow> used t < N \<Longrightarrow> \<exists>d. first_free t h d"
proof -
  assume "length t = N" "used t < N"
  then obtain j where j: "j < N" "t ! j = 0" using used_free [of t] by auto
  then obtain d0 where d0: "d0 < N" "cyc N h d0 = j" using cyc_surj [of N j h] by auto
  define d where "d = (LEAST d. t ! cyc N h d = 0)"
  have z: "t ! cyc N h d0 = 0" using d0 j by simp
  then have "t ! cyc N h d = 0" unfolding d_def by (rule LeastI)
  moreover have "d \<le> d0" unfolding d_def using z by (rule Least_le)
  moreover have "\<forall>e < d. t ! cyc N h e \<noteq> 0" unfolding d_def by (auto dest: not_less_Least)
  ultimately have "first_free t h d" using d0 by (simp add: first_free_def)
  then show ?thesis by blast
qed

lemma reachable_least:
  assumes "reachable_at t x d"
  obtains d' where "d' < N" "t ! cyc N (x - 1) d' = x"
    "\<forall>e < d'. t ! cyc N (x - 1) e \<noteq> 0 \<and> t ! cyc N (x - 1) e \<noteq> x"
proof -
  define d' where "d' = (LEAST d. t ! cyc N (x - 1) d = x)"
  have at: "t ! cyc N (x - 1) d = x" using assms by (simp add: reachable_at_def)
  then have "t ! cyc N (x - 1) d' = x" unfolding d'_def by (rule LeastI)
  moreover have le: "d' \<le> d" unfolding d'_def using at by (rule Least_le)
  moreover have "t ! cyc N (x - 1) e \<noteq> x" if "e < d'" for e
    using not_less_Least [of e "\<lambda>d. t ! cyc N (x - 1) d = x"] that by (simp add: d'_def)
  ultimately show thesis
    using assms by (intro that [of d']) (auto simp: reachable_at_def)
qed

subsection \<open>The three searches\<close>

lemma cell_mem: "length t = N \<Longrightarrow> t ! cyc N h e \<in> set t"
  by (rule nth_mem) simp

lemma all_shift: "(\<forall>e < Suc m. P (d + e)) \<longleftrightarrow> P d \<and> (\<forall>e < m. P (Suc d + e))"
  by (auto simp: less_Suc_eq_0_disj)

lemma test_probe_step: "test_probe t (Suc g) (cyc N h d) i =
    (if t ! cyc N h d = 0 then Some False else if t ! cyc N h d = i then Some True
     else test_probe t g (cyc N h (Suc d)) i)"
  by (simp only: test_probe.simps cyc_Suc)

lemma set_probe_step: "set_probe t (Suc g) (cyc N h d) i =
    (if t ! cyc N h d = i then Some None
     else if t ! cyc N h (Suc d) = 0 then Some (Some (cyc N h (Suc d)))
     else set_probe t g (cyc N h (Suc d)) i)"
  by (simp only: set_probe.simps wrap_cyc Let_def)

lemma place_probe_step: "place_probe t (Suc g) (cyc N h d) =
    (if t ! cyc N h d = 0 then Some (cyc N h d) else place_probe t g (cyc N h (Suc d)))"
  by (simp only: place_probe.simps wrap_cyc)

declare test_probe.simps(2) [simp del] set_probe.simps(2) [simp del] place_probe.simps(2) [simp del]

lemmas probe_steps = test_probe_step set_probe_step place_probe_step

lemma test_probe_hit:
  "\<forall>e < m. t ! cyc N h (d + e) \<noteq> 0 \<and> t ! cyc N h (d + e) \<noteq> i \<Longrightarrow>
   t ! cyc N h (d + m) = i \<Longrightarrow> i \<noteq> 0 \<Longrightarrow> m < f \<Longrightarrow> test_probe t f (cyc N h d) i = Some True"
proof (induction m arbitrary: d f)
  case 0
  then show ?case by (cases f) (auto simp: probe_steps)
next
  case (Suc m)
  then obtain g where f: "f = Suc g" by (cases f) auto
  note split = Suc.prems(1) [THEN all_shift [where P = "\<lambda>j. t ! cyc N h j \<noteq> 0 \<and> t ! cyc N h j \<noteq> i", THEN iffD1]]
  have "test_probe t g (cyc N h (Suc d)) i = Some True"
    by (rule Suc.IH) (use split Suc.prems f in simp_all)
  with split f show ?case by (simp add: probe_steps)
qed

lemma test_probe_miss:
  "\<forall>e < m. t ! cyc N h (d + e) \<noteq> 0 \<and> t ! cyc N h (d + e) \<noteq> i \<Longrightarrow>
   t ! cyc N h (d + m) = 0 \<Longrightarrow> m < f \<Longrightarrow> test_probe t f (cyc N h d) i = Some False"
proof (induction m arbitrary: d f)
  case 0
  then show ?case by (cases f) (auto simp: probe_steps)
next
  case (Suc m)
  then obtain g where f: "f = Suc g" by (cases f) auto
  note split = Suc.prems(1) [THEN all_shift [where P = "\<lambda>j. t ! cyc N h j \<noteq> 0 \<and> t ! cyc N h j \<noteq> i", THEN iffD1]]
  have "test_probe t g (cyc N h (Suc d)) i = Some False"
    by (rule Suc.IH) (use split Suc.prems f in simp_all)
  with split f show ?case by (simp add: probe_steps)
qed

lemma set_probe_found:
  "\<forall>e < m. t ! cyc N h (d + e) \<noteq> 0 \<and> t ! cyc N h (d + e) \<noteq> i \<Longrightarrow>
   t ! cyc N h (d + m) = i \<Longrightarrow> i \<noteq> 0 \<Longrightarrow> m < f \<Longrightarrow> set_probe t f (cyc N h d) i = Some None"
proof (induction m arbitrary: d f)
  case 0
  then show ?case by (cases f) (auto simp: probe_steps)
next
  case (Suc m)
  then obtain g where f: "f = Suc g" by (cases f) auto
  note split = Suc.prems(1) [THEN all_shift [where P = "\<lambda>j. t ! cyc N h j \<noteq> 0 \<and> t ! cyc N h j \<noteq> i", THEN iffD1]]
  have "t ! cyc N h (Suc d) \<noteq> 0"
    using split Suc.prems(2,3) by (cases m) (auto dest: spec [of _ 0])
  moreover have "set_probe t g (cyc N h (Suc d)) i = Some None"
    by (rule Suc.IH) (use split Suc.prems f in simp_all)
  ultimately show ?case using split f by (simp add: probe_steps)
qed

lemma set_probe_free:
  "\<forall>e < Suc m. t ! cyc N h (d + e) \<noteq> 0 \<and> t ! cyc N h (d + e) \<noteq> i \<Longrightarrow>
   t ! cyc N h (d + Suc m) = 0 \<Longrightarrow> m < f \<Longrightarrow>
   set_probe t f (cyc N h d) i = Some (Some (cyc N h (d + Suc m)))"
proof (induction m arbitrary: d f)
  case 0
  then show ?case by (cases f) (auto simp: probe_steps)
next
  case (Suc m)
  then obtain g where f: "f = Suc g" by (cases f) auto
  note split = Suc.prems(1) [THEN all_shift [where P = "\<lambda>j. t ! cyc N h j \<noteq> 0 \<and> t ! cyc N h j \<noteq> i", THEN iffD1]]
  have "set_probe t g (cyc N h (Suc d)) i = Some (Some (cyc N h (Suc d + Suc m)))"
    by (rule Suc.IH) (use split Suc.prems f in simp_all)
  moreover have "t ! cyc N h (Suc d) \<noteq> 0" using split by (auto dest: spec [of _ 0])
  ultimately show ?case using split f by (simp add: probe_steps)
qed

lemma place_probe_free:
  "\<forall>e < m. t ! cyc N h (d + e) \<noteq> 0 \<Longrightarrow> t ! cyc N h (d + m) = 0 \<Longrightarrow> m < f \<Longrightarrow>
   place_probe t f (cyc N h d) = Some (cyc N h (d + m))"
proof (induction m arbitrary: d f)
  case 0
  then show ?case by (cases f) (auto simp: probe_steps)
next
  case (Suc m)
  then obtain g where f: "f = Suc g" by (cases f) auto
  note split = Suc.prems(1) [THEN all_shift [where P = "\<lambda>j. t ! cyc N h j \<noteq> 0", THEN iffD1]]
  have "place_probe t g (cyc N h (Suc d)) = Some (cyc N h (Suc d + m))"
    by (rule Suc.IH) (use split Suc.prems f in simp_all)
  with split f show ?case by (simp add: probe_steps)
qed

text \<open>What the searches find in a table that is in order.\<close>

lemma test_table:
  assumes ok: "table_ok t" "used t < N" and i: "i \<noteq> 0"
  shows "test_probe t (N + 1) (BITVEC_HASH (i - 1)) i = Some (i \<in> set t)"
proof (cases "i \<in> set t")
  case True
  with ok i obtain d where "reachable_at t i d" by (auto simp: table_ok_def)
  then obtain m where m: "m < N" "t ! cyc N (i - 1) m = i"
    "\<forall>e < m. t ! cyc N (i - 1) e \<noteq> 0 \<and> t ! cyc N (i - 1) e \<noteq> i" by (rule reachable_least)
  have "test_probe t (N + 1) (cyc N (i - 1) 0) i = Some True"
    by (rule test_probe_hit [of m]) (use m i in simp_all)
  with True show ?thesis by (simp add: hash_cyc)
next
  case False
  obtain m where m: "first_free t (i - 1) m"
    using first_free_exists [of t "i - 1"] ok by (auto simp: table_ok_def)
  have ne: "t ! cyc N (i - 1) e \<noteq> i" for e
    using False ok(1) by (metis cell_mem table_ok_def)
  have "test_probe t (N + 1) (cyc N (i - 1) 0) i = Some False"
    by (rule test_probe_miss [of m]) (use m ne in \<open>simp_all add: first_free_def\<close>)
  with False show ?thesis by (simp add: hash_cyc)
qed

lemma set_table:
  assumes ok: "table_ok t" "used t < N" and i: "i \<noteq> 0" and h: "t ! BITVEC_HASH (i - 1) \<noteq> 0"
  shows "if i \<in> set t then set_probe t N (BITVEC_HASH (i - 1)) i = Some None
    else \<exists>d. first_free t (i - 1) d \<and> set_probe t N (BITVEC_HASH (i - 1)) i = Some (Some (cyc N (i - 1) d))"
proof (cases "i \<in> set t")
  case True
  with ok i obtain d where "reachable_at t i d" by (auto simp: table_ok_def)
  then obtain m where m: "m < N" "t ! cyc N (i - 1) m = i"
    "\<forall>e < m. t ! cyc N (i - 1) e \<noteq> 0 \<and> t ! cyc N (i - 1) e \<noteq> i" by (rule reachable_least)
  have "set_probe t N (cyc N (i - 1) 0) i = Some None"
    by (rule set_probe_found [of m]) (use m i in simp_all)
  with True show ?thesis by (simp add: hash_cyc)
next
  case False
  obtain d where d: "first_free t (i - 1) d"
    using first_free_exists [of t "i - 1"] ok by (auto simp: table_ok_def)
  have ne: "t ! cyc N (i - 1) e \<noteq> i" for e
    using False ok(1) by (metis cell_mem table_ok_def)
  have "d \<noteq> 0" using d h by (cases d) (auto simp: first_free_def hash_cyc)
  then obtain m where m: "d = Suc m" by (cases d) auto
  have "set_probe t N (cyc N (i - 1) 0) i = Some (Some (cyc N (i - 1) (0 + Suc m)))"
    by (rule set_probe_free) (use d m ne in \<open>simp_all add: first_free_def\<close>)
  with False d m show ?thesis by (auto simp: hash_cyc)
qed

lemma place_table:
  assumes "length t = N" "used t < N"
  shows "\<exists>d. first_free t h d \<and> place_probe t (N + 1) (BITVEC_HASH h) = Some (cyc N h d)"
proof -
  obtain d where d: "first_free t h d" using first_free_exists [OF assms] by auto
  have "place_probe t (N + 1) (cyc N h 0) = Some (cyc N h (0 + d))"
    by (rule place_probe_free) (use d in \<open>simp_all add: first_free_def\<close>)
  with d show ?thesis by (auto simp: hash_cyc)
qed

text \<open>A value stored in the first free cell keeps the table in order.\<close>

lemma store_table:
  assumes ok: "table_ok t" and free: "first_free t (i - 1) d" and i: "i \<noteq> 0"
  defines "t' \<equiv> t[cyc N (i - 1) d := i]"
  shows "table_ok t' \<and> used t' = Suc (used t) \<and> (\<forall>x. x \<noteq> 0 \<longrightarrow> x \<in> set t' \<longleftrightarrow> x = i \<or> x \<in> set t)"
proof -
  let ?j = "cyc N (i - 1) d"
  have len: "length t = N" and j: "?j < N" "t ! ?j = 0" using ok free by (auto simp: table_ok_def first_free_def)
  have keep: "t' ! k \<noteq> 0" if "t ! k \<noteq> 0" for k
    using that i j len by (cases "k = ?j") (simp_all add: t'_def)
  have old: "reachable_at t' x e" if "reachable_at t x e" "x \<noteq> 0" for x e
  proof -
    have "cyc N (x - 1) e \<noteq> ?j" using that j by (auto simp: reachable_at_def)
    then have "t' ! cyc N (x - 1) e = x" using that by (simp add: t'_def reachable_at_def)
    then show ?thesis using that keep by (simp add: reachable_at_def)
  qed
  have new: "reachable_at t' i d"
    using free keep j len by (simp add: reachable_at_def first_free_def) (simp add: t'_def)
  have mem: "x \<in> set t' \<longleftrightarrow> x = i \<or> x \<in> set t" if "x \<noteq> 0" for x
  proof
    assume "x \<in> set t'"
    then show "x = i \<or> x \<in> set t" using set_update_subset_insert [of t ?j i] by (auto simp: t'_def)
  next
    assume "x = i \<or> x \<in> set t"
    then show "x \<in> set t'"
    proof
      assume "x = i"
      then show ?thesis using j len by (simp add: t'_def set_update_memI)
    next
      assume "x \<in> set t"
      then obtain k where k: "k < length t" "t ! k = x" by (auto simp: in_set_conv_nth)
      with that j have "k \<noteq> ?j" by auto
      with k have "t' ! k = x" "k < length t'" by (simp_all add: t'_def)
      then show ?thesis by (metis nth_mem)
    qed
  qed
  have "table_ok t'"
    using ok old new mem len unfolding table_ok_def by (metis length_list_update t'_def)
  moreover have "used t' = Suc (used t)" using used_update [of ?j t i] j len i by (simp add: t'_def)
  ultimately show ?thesis using mem by blast
qed

subsection \<open>What a bitmap denotes, and its invariant\<close>

text \<open>The bits of a bitmap, counted from 0: sub-bitmap \<open>b\<close> holds those from \<open>b * iDivisor\<close>.\<close>

function has :: "bitvec \<Rightarrow> nat \<Rightarrow> bool" where
  "has p j =
     (case bits p of
        ApSub subs \<Rightarrow>
          (if j div iDivisor p < length subs
           then (case subs ! (j div iDivisor p) of None \<Rightarrow> False | Some q \<Rightarrow> has q (j mod iDivisor p))
           else False)
      | ABitmap bs \<Rightarrow> bit (bs ! (j div 8)) (j mod 8)
      | AHash t \<Rightarrow> j + 1 \<in> set t)"
  by auto
termination
proof (relation "measure (\<lambda>(p, i). size p)")
  fix p j subs q
  assume "bits p = ApSub subs" "j div iDivisor p < length subs" "subs ! (j div iDivisor p) = Some q"
  then show "((q, j mod iDivisor p), (p, j)) \<in> measure (\<lambda>(p, i). size p)"
    using sub_size [of "j div iDivisor p" subs q] by (cases p) auto
qed simp

declare has.simps [simp del]

lemma has_simps [simp]:
  "has (Bitvec s c d (ABitmap bs)) j \<longleftrightarrow> bit (bs ! (j div 8)) (j mod 8)"
  "has (Bitvec s c d (AHash t)) j \<longleftrightarrow> j + 1 \<in> set t"
  "has (Bitvec s c d (ApSub subs)) j \<longleftrightarrow> j div d < length subs
     \<and> (case subs ! (j div d) of None \<Rightarrow> False | Some q \<Rightarrow> has q (j mod d))"
  by (subst has.simps; simp cong: option.case_cong)+

fun wf_bitvec :: "bitvec \<Rightarrow> bool" where
  "wf_bitvec (Bitvec s c d (ABitmap bs)) \<longleftrightarrow> s \<le> BITVEC_NBIT \<and> d = 0 \<and> length bs = BITVEC_NELEM"
| "wf_bitvec (Bitvec s c d (AHash t)) \<longleftrightarrow>
     s > BITVEC_NBIT \<and> d = 0 \<and> table_ok t \<and> used t = c \<and> c < N \<and> (\<forall>x \<in> set t. x \<le> s)"
| "wf_bitvec (Bitvec s c d (ApSub subs)) \<longleftrightarrow>
     s > BITVEC_NBIT \<and> d = (s + BITVEC_NPTR - 1) div BITVEC_NPTR \<and> length subs = BITVEC_NPTR
     \<and> (\<forall>x \<in> set subs. case x of None \<Rightarrow> True | Some q \<Rightarrow> iSize q = d \<and> wf_bitvec q)"

definition is_sub :: "bitvec \<Rightarrow> bool" where
  "is_sub p \<longleftrightarrow> (case bits p of ApSub _ \<Rightarrow> True | _ \<Rightarrow> False)"

lemma is_sub_simps [simp]:
  "is_sub (Bitvec s c d (ApSub subs))" "\<not> is_sub (Bitvec s c d (AHash t))"
  "\<not> is_sub (Bitvec s c d (ABitmap bs))"
  by (simp_all add: is_sub_def)

lemma sub_bin: "BITVEC_NBIT < s \<Longrightarrow> j < s \<Longrightarrow>
    0 < (s + BITVEC_NPTR - 1) div BITVEC_NPTR
    \<and> j div ((s + BITVEC_NPTR - 1) div BITVEC_NPTR) < BITVEC_NPTR
    \<and> (s + BITVEC_NPTR - 1) div BITVEC_NPTR < s"
proof -
  assume s: "BITVEC_NBIT < s" and j: "j < s"
  let ?d = "(s + 61) div 62"
  have "s + 61 = ?d * 62 + (s + 61) mod 62" by (rule div_mult_mod_eq [symmetric])
  moreover have "(s + 61) mod 62 < 62" by simp
  ultimately have "s \<le> ?d * 62" by linarith
  with j have "j < 62 * ?d" by simp
  moreover have d: "0 < ?d" using s by (simp add: bitvec_sizes)
  ultimately have "j div ?d < 62" by (simp add: div_less_iff_less_mult)
  moreover have "?d < s" using s by (simp add: bitvec_sizes)
  ultimately show ?thesis using d by (simp add: bitvec_sizes add.commute)
qed

lemma byte_index: "x < s \<Longrightarrow> s \<le> BITVEC_NBIT \<Longrightarrow> x div 8 < BITVEC_NELEM"
  by (simp add: bitvec_sizes div_less_iff_less_mult)

text \<open>The depth: two turns for every level of sub-bitmaps.\<close>

function levels :: "nat \<Rightarrow> nat" where
  "levels s = (if s \<le> BITVEC_NBIT then 1
               else 2 + levels ((s + BITVEC_NPTR - 1) div BITVEC_NPTR))"
  by auto
termination
proof (relation "measure id")
  fix s :: nat
  assume "\<not> s \<le> BITVEC_NBIT"
  then show "((s + BITVEC_NPTR - 1) div BITVEC_NPTR, s) \<in> measure id"
    using sub_bin [of s 0] by (simp add: bitvec_sizes)
qed simp

declare levels.simps [simp del]

definition need :: "bitvec \<Rightarrow> nat" where
  "need p = (if is_sub p then levels (iSize p) - 1 else levels (iSize p))"

lemma fresh_bitvec:
  "sqlite3BitvecCreate ok k s = (if ok k then Some (the (sqlite3BitvecCreate (\<lambda>_. True) 0 s)) else None)"
  by (simp add: sqlite3BitvecCreate_def)

lemma table_ok_zeros: "table_ok (replicate N 0)"
  by (simp add: table_ok_def)

lemma create_wf: "sqlite3BitvecCreate ok k s = Some p \<Longrightarrow>
    wf_bitvec p \<and> iSize p = s \<and> \<not> is_sub p \<and> (\<forall>x < s. \<not> has p x)"
  by (auto simp: sqlite3BitvecCreate_def table_ok_zeros byte_index split: if_splits)

text \<open>
  An operation that adds the bits of \<open>A\<close>: nothing else is added, and nothing is missing
  when it reports success.
\<close>

definition outcome :: "(nat \<Rightarrow> bool) \<Rightarrow> (nat \<Rightarrow> bool) \<Rightarrow> bitvec \<Rightarrow> int \<Rightarrow> bitvec \<Rightarrow> bool" where
  "outcome ok A p rc p' \<longleftrightarrow> wf_bitvec p' \<and> iSize p' = iSize p \<and> (is_sub p \<longrightarrow> is_sub p')
     \<and> (rc = SQLITE_OK \<or> rc = SQLITE_NOMEM) \<and> ((\<forall>k. ok k) \<longrightarrow> rc = SQLITE_OK)
     \<and> (\<forall>x < iSize p. has p' x \<longrightarrow> A x \<or> has p x)
     \<and> (rc = SQLITE_OK \<longrightarrow> (\<forall>x < iSize p. A x \<or> has p x \<longrightarrow> has p' x))"

lemma outcome_same: "wf_bitvec p \<Longrightarrow> (\<forall>x < iSize p. A x \<longrightarrow> has p x) \<Longrightarrow> outcome ok A p SQLITE_OK p"
  by (auto simp: outcome_def)

lemma outcome_nomem: "wf_bitvec p \<Longrightarrow> \<not> ok k \<Longrightarrow> outcome ok A p SQLITE_NOMEM p"
  by (auto simp: outcome_def sqlite_codes)

lemma outcome_comp: "outcome ok A p rc p' \<Longrightarrow> outcome ok B p' rc' p'' \<Longrightarrow>
    outcome ok (\<lambda>x. A x \<or> B x) p (rc OR rc') p''"
proof -
  assume one: "outcome ok A p rc p'" and two: "outcome ok B p' rc' p''"
  then have codes: "rc \<in> {SQLITE_OK, SQLITE_NOMEM}" "rc' \<in> {SQLITE_OK, SQLITE_NOMEM}"
    by (simp_all add: outcome_def)
  then have both: "(rc OR rc' = SQLITE_OK) = (rc = SQLITE_OK \<and> rc' = SQLITE_OK)"
    "rc OR rc' = SQLITE_OK \<or> rc OR rc' = SQLITE_NOMEM"
    by (auto simp: sqlite_codes)
  have sz: "iSize p' = iSize p" "iSize p'' = iSize p'" using one two by (simp_all add: outcome_def)
  have o: "\<forall>x < iSize p. has p' x \<longrightarrow> A x \<or> has p x"
    "rc = SQLITE_OK \<longrightarrow> (\<forall>x < iSize p. A x \<or> has p x \<longrightarrow> has p' x)"
    using one unfolding outcome_def by blast+
  have t: "\<forall>x < iSize p. has p'' x \<longrightarrow> B x \<or> has p' x"
    "rc' = SQLITE_OK \<longrightarrow> (\<forall>x < iSize p. B x \<or> has p' x \<longrightarrow> has p'' x)"
    using two unfolding outcome_def sz by blast+
  have m: "wf_bitvec p''" "is_sub p \<longrightarrow> is_sub p''"
    "(\<forall>k. ok k) \<longrightarrow> rc = SQLITE_OK \<and> rc' = SQLITE_OK"
    using one two unfolding outcome_def by blast+
  have "\<forall>x < iSize p. has p'' x \<longrightarrow> (A x \<or> B x) \<or> has p x" using o(1) t(1) by blast
  moreover have "rc = SQLITE_OK \<and> rc' = SQLITE_OK \<longrightarrow>
      (\<forall>x < iSize p. (A x \<or> B x) \<or> has p x \<longrightarrow> has p'' x)" using o(2) t(2) by blast
  ultimately show ?thesis unfolding outcome_def both(1) using m sz both by simp
qed

definition succeeds :: "(nat \<Rightarrow> bool) \<Rightarrow> (nat \<Rightarrow> bool) \<Rightarrow> bitvec \<Rightarrow> (int \<times> bitvec \<times> nat) option \<Rightarrow> bool" where
  "succeeds ok A p r \<longleftrightarrow> (\<exists>rc p' k'. r = Some (rc, p', k') \<and> outcome ok A p rc p')"

subsection \<open>Setting a bit\<close>

lemma byte_bit_set: "m < 8 \<Longrightarrow> bit (w OR 2 ^ m :: byte) i \<longleftrightarrow> bit w i \<or> i = m"
  by (auto simp: bit_simps)

lemma set_bitmap:
  assumes wf: "wf_bitvec p" and p: "p = Bitvec s c d (ABitmap bs)" and j: "j < s"
  shows "outcome ok (\<lambda>x. x = j) p SQLITE_OK
    (with_bits p (ABitmap (bs[j div 8 := bs ! (j div 8) OR push_bit (j mod 8) 1])))"
proof -
  have len: "j div 8 < length bs" using wf p j byte_index by simp
  let ?p = "with_bits p (ABitmap (bs[j div 8 := bs ! (j div 8) OR push_bit (j mod 8) 1]))"
  have same: "has ?p x \<longleftrightarrow> x = j \<or> has p x" for x
  proof (cases "x div 8 = j div 8")
    case True
    then have "x = j \<longleftrightarrow> x mod 8 = j mod 8" by (metis div_mult_mod_eq)
    with True len show ?thesis by (auto simp: p with_bits_def byte_bit_set)
  next
    case False
    then show ?thesis by (auto simp: p with_bits_def)
  qed
  moreover have "wf_bitvec ?p" using wf by (simp add: p with_bits_def)
  ultimately show ?thesis by (simp add: outcome_def p with_bits_def)
qed

lemma set_values_ok:
  assumes setter: "\<And>k p x. wf_bitvec p \<Longrightarrow> is_sub p \<Longrightarrow> iSize p = s \<Longrightarrow> x < s \<Longrightarrow>
      succeeds ok (\<lambda>y. y = x) p (setter k p (x + 1))"
    and "wf_bitvec p" "is_sub p" "iSize p = s" and "\<forall>x \<in> set xs. x \<le> s"
    and "outcome ok A p0 rc p"
  shows "succeeds ok (\<lambda>y. A y \<or> y + 1 \<in> set xs) p0 (set_values setter k p rc xs)"
  using assms(2-)
proof (induction xs arbitrary: k p rc A)
  case Nil
  then show ?case by (simp add: succeeds_def)
next
  case (Cons x xs)
  show ?case
  proof (cases x)
    case 0
    have "succeeds ok (\<lambda>y. A y \<or> y + 1 \<in> set xs) p0 (set_values setter k p rc xs)"
      by (rule Cons.IH) (use Cons.prems in simp_all)
    with 0 show ?thesis by simp
  next
    case (Suc y)
    with Cons.prems have "succeeds ok (\<lambda>z. z = y) p (setter k p (y + 1))"
      by (intro setter) auto
    then obtain rc' p' k' where r: "setter k p (Suc y) = Some (rc', p', k')"
      and o: "outcome ok (\<lambda>z. z = y) p rc' p'" by (auto simp: succeeds_def)
    have "succeeds ok (\<lambda>z. (A z \<or> z = y) \<or> z + 1 \<in> set xs) p0 (set_values setter k' p' (rc OR rc') xs)"
    proof (rule Cons.IH)
      show "outcome ok (\<lambda>z. A z \<or> z = y) p0 (rc OR rc') p'"
        by (rule outcome_comp [OF Cons.prems(5) o])
    qed (use o Cons.prems in \<open>auto simp: outcome_def\<close>)
    moreover have "(\<lambda>z. (A z \<or> z = y) \<or> z + 1 \<in> set xs) = (\<lambda>z. A z \<or> z + 1 \<in> set (x # xs))"
      using Suc by (auto simp: fun_eq_iff)
    ultimately show ?thesis using r Suc by simp
  qed
qed

lemma store_outcome:
  assumes wf: "wf_bitvec p" and p: "p = Bitvec s c d (AHash t)" and j: "j < s"
    and free: "first_free t j e" and room: "Suc c < N"
  shows "outcome ok (\<lambda>x. x = j) p SQLITE_OK (Bitvec s (c + 1) d (AHash (t[cyc N j e := j + 1])))"
proof -
  have t: "table_ok t" "used t = c" "\<forall>x \<in> set t. x \<le> s" "s > BITVEC_NBIT" "d = 0"
    using wf p by simp_all
  have free': "first_free t (j + 1 - 1) e" using free by simp
  from store_table [OF t(1) free'] have st: "table_ok (t[cyc N j e := j + 1])"
    "used (t[cyc N j e := j + 1]) = Suc c"
    "\<And>x. x \<noteq> 0 \<Longrightarrow> x \<in> set (t[cyc N j e := j + 1]) \<longleftrightarrow> x = j + 1 \<or> x \<in> set t"
    using t(2) by simp_all
  have "\<forall>x \<in> set (t[cyc N j e := j + 1]). x \<le> s"
  proof
    fix x assume "x \<in> set (t[cyc N j e := j + 1])"
    then show "x \<le> s" using st(3) [of x] t(3) j by (cases "x = 0") auto
  qed
  with st t room p show ?thesis by (simp add: outcome_def)
qed

text \<open>Splitting a full table: an empty array of sub-bitmaps, then every value again.\<close>

lemma split_ok:
  assumes wf: "wf_bitvec p" and p: "p = Bitvec s c d (AHash t)" and j: "j < s"
    and setter: "\<And>k q x. wf_bitvec q \<Longrightarrow> is_sub q \<Longrightarrow> iSize q = s \<Longrightarrow> x < s \<Longrightarrow>
      succeeds ok (\<lambda>y. y = x) q (setter k q (x + 1))"
  shows "succeeds ok (\<lambda>x. x = j) p
    (let p = Bitvec s c ((s + BITVEC_NPTR - 1) div BITVEC_NPTR) (ApSub (replicate BITVEC_NPTR None))
     in (case setter k p (j + 1) of None \<Rightarrow> None | Some (rc, p, k) \<Rightarrow> set_values setter k p rc t))"
proof -
  define q where "q = Bitvec s c ((s + BITVEC_NPTR - 1) div BITVEC_NPTR) (ApSub (replicate BITVEC_NPTR None))"
  have p1: "wf_bitvec q" "is_sub q" "iSize q = s" using wf p by (simp_all add: q_def)
  have empty: "has q x = False" for x by (simp add: q_def)
  from setter [OF p1 j, of k] obtain rc p' k' where r: "setter k q (j + 1) = Some (rc, p', k')"
    and o: "outcome ok (\<lambda>x. x = j) q rc p'" by (auto simp: succeeds_def)
  have "succeeds ok (\<lambda>y. y = j \<or> y + 1 \<in> set t) q (set_values setter k' p' rc t)"
  proof (rule set_values_ok [OF setter])
    show "outcome ok (\<lambda>y. y = j) q rc p'" by (rule o)
    show "\<forall>x \<in> set t. x \<le> s" using wf p by simp
  qed (use o p1 in \<open>simp_all add: outcome_def\<close>)
  then obtain rc2 p2 k2 where r2: "set_values setter k' p' rc t = Some (rc2, p2, k2)"
    and o2: "outcome ok (\<lambda>y. y = j \<or> y + 1 \<in> set t) q rc2 p2" by (auto simp: succeeds_def)
  have "outcome ok (\<lambda>x. x = j) p rc2 p2"
    using o2 empty p1(3) by (simp add: outcome_def p)
  then show ?thesis using r r2 unfolding q_def [symmetric] Let_def by (simp add: succeeds_def)
qed

lemma sub_outcome:
  assumes wf: "wf_bitvec p" and p: "p = Bitvec s c d (ApSub subs)" and j: "j < s"
    and q: "wf_bitvec q" "iSize q = d"
    and same: "\<And>y. y < d \<Longrightarrow> has q y \<longleftrightarrow> (case subs ! (j div d) of None \<Rightarrow> False | Some r \<Rightarrow> has r y)"
    and o: "outcome ok (\<lambda>y. y = j mod d) q rc q'"
  shows "outcome ok (\<lambda>x. x = j) p rc (with_bits p (ApSub (subs[j div d := Some q'])))"
proof -
  let ?b = "j div d"
  let ?p = "with_bits p (ApSub (subs[?b := Some q']))"
  have d: "d = (s + BITVEC_NPTR - 1) div BITVEC_NPTR" "length subs = BITVEC_NPTR" "s > BITVEC_NBIT"
    and subs: "\<forall>x \<in> set subs. case x of None \<Rightarrow> True | Some q \<Rightarrow> iSize q = d \<and> wf_bitvec q"
    using wf p by simp_all
  have b: "?b < length subs" and d0: "0 < d" using sub_bin [of s j] d j by simp_all
  have q': "wf_bitvec q'" "iSize q' = d" using o q by (simp_all add: outcome_def)
  have "\<forall>x \<in> set (subs[?b := Some q']). case x of None \<Rightarrow> True | Some q \<Rightarrow> iSize q = d \<and> wf_bitvec q"
  proof
    fix x assume "x \<in> set (subs[?b := Some q'])"
    then have "x = Some q' \<or> x \<in> set subs" using set_update_subset_insert [of subs ?b "Some q'"] by auto
    then show "case x of None \<Rightarrow> True | Some q \<Rightarrow> iSize q = d \<and> wf_bitvec q" using subs q' by auto
  qed
  then have "wf_bitvec ?p"
    unfolding p with_bits_def bitvec.sel wf_bitvec.simps length_list_update using d by blast
  moreover have "has ?p x \<longrightarrow> x = j \<or> has p x" "rc = SQLITE_OK \<Longrightarrow> x = j \<or> has p x \<longrightarrow> has ?p x"
    if x: "x < s" for x
  proof -
    have y: "x mod d < d" using d0 by simp
    have bx: "x div d < length subs" using sub_bin [of s x] d x by simp
    have eq: "x = j \<longleftrightarrow> x div d = ?b \<and> x mod d = j mod d" by (metis div_mult_mod_eq)
    show "has ?p x \<longrightarrow> x = j \<or> has p x"
    proof (cases "x div d = ?b")
      case True
      then show ?thesis using o y q(2) same [OF y] bx eq by (auto simp: p with_bits_def outcome_def)
    next
      case False
      then show ?thesis using bx by (simp add: p with_bits_def)
    qed
    assume "rc = SQLITE_OK"
    show "x = j \<or> has p x \<longrightarrow> has ?p x"
    proof (cases "x div d = ?b")
      case True
      then show ?thesis using o y q(2) same [OF y] bx eq \<open>rc = SQLITE_OK\<close>
        by (auto simp: p with_bits_def outcome_def)
    next
      case False
      then show ?thesis using bx eq by (auto simp: p with_bits_def)
    qed
  qed
  moreover have sp: "iSize p = s" "iSize ?p = s" "is_sub ?p"
    by (simp_all add: p with_bits_def)
  moreover have "rc = SQLITE_OK \<or> rc = SQLITE_NOMEM" "(\<forall>k. ok k) \<longrightarrow> rc = SQLITE_OK"
    using o by (simp_all add: outcome_def)
  ultimately show ?thesis unfolding outcome_def by blast
qed

lemma need_pos: "wf_bitvec p \<Longrightarrow> 0 < need p"
  by (cases p rule: wf_bitvec.cases) (simp_all add: need_def levels.simps)

lemma set_ok:
  "wf_bitvec p \<Longrightarrow> j < iSize p \<Longrightarrow> need p \<le> f \<Longrightarrow>
   succeeds ok (\<lambda>x. x = j) p (bitvec_set f ok k p (j + 1))"
proof (induction f arbitrary: k p j)
  case 0
  then show ?case using need_pos [of p] by simp
next
  case (Suc f)
  obtain s c d u where p: "p = Bitvec s c d u" by (cases p)
  have j: "j < s" using Suc.prems p by simp
  show ?case
  proof (cases u)
    case (ABitmap bs)
    with p have p': "p = Bitvec s c d (ABitmap bs)" by simp
    from set_bitmap [OF Suc.prems(1) p' j] show ?thesis
      by (simp add: succeeds_def p')
  next
    case (ApSub subs)
    with p have p': "p = Bitvec s c d (ApSub subs)" by simp
    have d: "d = (s + BITVEC_NPTR - 1) div BITVEC_NPTR" "length subs = BITVEC_NPTR" "s > BITVEC_NBIT"
      and subs: "\<forall>x \<in> set subs. case x of None \<Rightarrow> True | Some q \<Rightarrow> iSize q = d \<and> wf_bitvec q"
      using Suc.prems(1) p' by simp_all
    have b: "j div d < length subs" and d0: "0 < d" using sub_bin [of s j] d j by simp_all
    have lv: "levels d \<le> f"
      using Suc.prems(3) p' d by (simp add: need_def levels.simps [of s])
    define start where "start = (case subs ! (j div d) of Some q \<Rightarrow> Some (q, k)
       | None \<Rightarrow> map_option (\<lambda>q. (q, k + 1)) (sqlite3BitvecCreate ok k d))"
    have code: "bitvec_set (Suc f) ok k p (j + 1) =
        (case start of None \<Rightarrow> Some (SQLITE_NOMEM, p, k + 1)
         | Some (q, k) \<Rightarrow> map_option (\<lambda>(rc, q, k). (rc, with_bits p (ApSub (subs[j div d := Some q])), k))
                            (bitvec_set f ok k q (j mod d + 1)))"
      using b by (simp add: p' start_def Let_def cong: option.case_cong)
    show ?thesis
    proof (cases start)
      case None
      then have "\<not> ok k"
        by (auto simp: start_def sqlite3BitvecCreate_def split: option.splits if_splits)
      with None show ?thesis
        unfolding code by (simp add: succeeds_def outcome_nomem Suc.prems(1))
    next
      case (Some qk)
      obtain q k1 where qk: "qk = (q, k1)" by (cases qk)
      have same: "wf_bitvec q \<and> iSize q = d \<and> (\<forall>y < d. has q y \<longleftrightarrow>
          (case subs ! (j div d) of None \<Rightarrow> False | Some r \<Rightarrow> has r y))"
      proof (cases "subs ! (j div d)")
        case None
        then show ?thesis using Some qk create_wf [of ok k d] by (auto simp: start_def)
      next
        case (Some r)
        moreover have "Some r \<in> set subs" using Some b by (metis nth_mem)
        ultimately show ?thesis using \<open>start = Some qk\<close> qk subs by (auto simp: start_def)
      qed
      then have "need q \<le> f" using lv by (auto simp: need_def)
      with Suc.IH [of q "j mod d" k1] same d0 obtain rc q' k' where
        r: "bitvec_set f ok k1 q (j mod d + 1) = Some (rc, q', k')"
        and o: "outcome ok (\<lambda>y. y = j mod d) q rc q'" by (auto simp: succeeds_def)
      have "outcome ok (\<lambda>x. x = j) p rc (with_bits p (ApSub (subs[j div d := Some q'])))"
        by (rule sub_outcome [OF Suc.prems(1) p' j]) (use same o in auto)
      then show ?thesis
        unfolding code using Some qk r by (simp add: succeeds_def)
    qed
  next
    case (AHash t)
    with p have p': "p = Bitvec s c d (AHash t)" by simp
    have t: "table_ok t" "used t = c" "c < N" "s > BITVEC_NBIT"
      using Suc.prems(1) p' by simp_all
    have lv: "levels s \<le> Suc f" using Suc.prems(3) p' by (simp add: need_def)
    have setter: "succeeds ok (\<lambda>y. y = x) q (bitvec_set f ok k q (x + 1))"
      if "wf_bitvec q" "is_sub q" "iSize q = s" "x < s" for k q x
      by (rule Suc.IH) (use that lv in \<open>simp_all add: need_def\<close>)
    have split: "succeeds ok (\<lambda>x. x = j) p
       (case bitvec_set f ok k1 (Bitvec s c ((s + BITVEC_NPTR - 1) div BITVEC_NPTR)
               (ApSub (replicate BITVEC_NPTR None))) (j + 1) of
          None \<Rightarrow> None | Some (rc, p, k) \<Rightarrow> set_values (bitvec_set f ok) k p rc t)" for k1
      using split_ok [OF Suc.prems(1) p' j, where setter = "bitvec_set f ok" and k = k1 and ok = ok]
        setter unfolding Let_def by blast
    define finish where "finish = (\<lambda>h. Some (SQLITE_OK, Bitvec s (c + 1) d (AHash (t[h := j + 1])), k))"
    define rehash where "rehash = (\<lambda>h. if c \<ge> BITVEC_MXHASH
       then (if \<not> ok k then Some (SQLITE_NOMEM, p, k + 1)
             else (case bitvec_set f ok (k + 1) (Bitvec s c ((s + BITVEC_NPTR - 1) div BITVEC_NPTR)
                       (ApSub (replicate BITVEC_NPTR None))) (j + 1) of
                     None \<Rightarrow> None
                   | Some (rc, p, k) \<Rightarrow> set_values (bitvec_set f ok) k p rc t))
       else finish h)"
    have code: "bitvec_set (Suc f) ok k p (j + 1) =
      (if t ! BITVEC_HASH j = 0
       then (if c < N - 1 then finish (BITVEC_HASH j) else rehash (BITVEC_HASH j))
       else (case set_probe t N (BITVEC_HASH j) (j + 1) of
               None \<Rightarrow> None | Some None \<Rightarrow> Some (SQLITE_OK, p, k) | Some (Some h) \<Rightarrow> rehash h))"
      unfolding p' finish_def rehash_def by (simp add: Let_def cong: option.case_cong)
    have fin: "succeeds ok (\<lambda>x. x = j) p (finish (cyc N j e))" if "first_free t j e" "Suc c < N" for e
      using store_outcome [OF Suc.prems(1) p' j that] by (simp add: succeeds_def finish_def)
    have re: "succeeds ok (\<lambda>x. x = j) p (rehash (cyc N j e))" if "first_free t j e" for e
    proof (cases "c \<ge> BITVEC_MXHASH")
      case True
      show ?thesis
      proof (cases "ok k")
        case True
        then have "rehash (cyc N j e) = (case bitvec_set f ok (k + 1)
            (Bitvec s c ((s + BITVEC_NPTR - 1) div BITVEC_NPTR) (ApSub (replicate BITVEC_NPTR None))) (j + 1) of
              None \<Rightarrow> None | Some (rc, p, k) \<Rightarrow> set_values (bitvec_set f ok) k p rc t)"
          using \<open>c \<ge> BITVEC_MXHASH\<close> by (simp only: rehash_def if_True not_True_eq_False if_False)
        then show ?thesis by (simp only: split)
      next
        case False
        with True show ?thesis
          by (simp add: rehash_def succeeds_def outcome_nomem Suc.prems(1))
      qed
    next
      case False
      then have "Suc c < N" by (simp add: bitvec_sizes)
      with False fin [OF that] show ?thesis by (simp add: rehash_def)
    qed
    show ?thesis
    proof (cases "t ! BITVEC_HASH j = 0")
      case True
      then have free: "first_free t j 0" by (simp add: first_free_def hash_cyc)
      show ?thesis
        unfolding code using True fin [OF free] re [OF free] by (simp add: hash_cyc)
    next
      case False
      have "used t < N" using t by simp
      from set_table [OF t(1) this, of "j + 1"] False show ?thesis
        unfolding code using re Suc.prems(1)
        by (cases "j + 1 \<in> set t") (auto simp: succeeds_def outcome_same p')
    qed
  qed
qed


lemma levels_step: "s \<le> b \<Longrightarrow> (\<And>s'. s' \<le> (b + 61) div 62 \<Longrightarrow> levels s' \<le> m) \<Longrightarrow> levels s \<le> m + 2"
proof -
  assume s: "s \<le> b" and step: "\<And>s'. s' \<le> (b + 61) div 62 \<Longrightarrow> levels s' \<le> m"
  have "(s + 61) div 62 \<le> (b + 61) div 62" using s by (intro div_le_mono) simp
  from step [OF this] show ?thesis by (subst levels.simps) (simp add: bitvec_sizes add.commute)
qed

lemma levels_enough: "s < 2 ^ 32 \<Longrightarrow> levels s \<le> BITVEC_FUEL"
proof -
  have l0: "levels s \<le> 1" if "s \<le> 3968" for s
    using that by (subst levels.simps) (simp add: bitvec_sizes)
  have l1: "levels s \<le> 1 + 2" if "s \<le> 246016" for s
    using that by (rule levels_step) (rule l0, simp)
  have l2: "levels s \<le> 1 + 2 + 2" if "s \<le> 15252992" for s
    using that by (rule levels_step) (rule l1, simp)
  have l3: "levels s \<le> 1 + 2 + 2 + 2" if "s \<le> 945685504" for s
    using that by (rule levels_step) (rule l2, simp)
  have l4: "levels s \<le> 1 + 2 + 2 + 2 + 2" if "s \<le> 58632501248" for s
    using that by (rule levels_step) (rule l3, simp)
  assume "s < 2 ^ 32"
  then show ?thesis using l4 [of s] by (simp add: BITVEC_FUEL_def)
qed

subsection \<open>Testing and clearing a bit\<close>

lemma test_down_ok: "wf_bitvec p \<Longrightarrow> j < iSize p \<Longrightarrow> test_down p j = Some (has p j)"
proof (induction p j rule: test_down.induct)
  case (1 p j)
  obtain s c d u where p: "p = Bitvec s c d u" by (cases p)
  show ?case
  proof (cases u)
    case (ABitmap bs)
    have "bs ! (j div 8) AND push_bit (j mod 8) 1 \<noteq> 0 \<longleftrightarrow> bit (bs ! (j div 8)) (j mod 8)"
      by (simp only: bit_iff_and_push_bit_not_eq_0)
    with ABitmap p show ?thesis by (subst test_down.simps) (simp del: push_bit_of_1)
  next
    case (AHash t)
    with p "1.prems" have "test_probe t (N + 1) (BITVEC_HASH (j + 1 - 1)) (j + 1) = Some (j + 1 \<in> set t)"
      by (intro test_table) auto
    with AHash p show ?thesis by (subst test_down.simps) simp
  next
    case (ApSub subs)
    have d: "d = (s + BITVEC_NPTR - 1) div BITVEC_NPTR" "length subs = BITVEC_NPTR" "s > BITVEC_NBIT"
      and subs: "\<forall>x \<in> set subs. case x of None \<Rightarrow> True | Some q \<Rightarrow> iSize q = d \<and> wf_bitvec q"
      using "1.prems"(1) p ApSub by simp_all
    have b: "j div d < length subs" and d0: "0 < d"
      using sub_bin [of s j] d "1.prems"(2) p by simp_all
    show ?thesis
    proof (cases "subs ! (j div d)")
      case None
      with p ApSub b show ?thesis by (subst test_down.simps) simp
    next
      case (Some q)
      then have "Some q \<in> set subs" using b by (metis nth_mem)
      then have "wf_bitvec q" "j mod d < iSize q" using subs d0 by auto
      with "1.IH" [of subs "j div d" q] Some b p ApSub have "test_down q (j mod d) = Some (has q (j mod d))"
        by simp
      with Some b p ApSub show ?thesis by (subst test_down.simps) simp
    qed
  qed
qed

lemma byte_bit_clear: "m < 8 \<Longrightarrow> bit (w AND NOT (2 ^ m) :: byte) i \<longleftrightarrow> bit w i \<and> i \<noteq> m"
  by (auto simp: bit_simps dest: bit_imp_le_length)

lemma used_Cons: "used (x # xs) = (if x = 0 then used xs else Suc (used xs))"
  by (simp add: used_def)

lemma rebuild_ok:
  "table_ok t0 \<Longrightarrow> used t0 + used xs < N \<Longrightarrow>
   \<exists>t. rebuild t0 (used t0) i xs = Some (t, used t) \<and> table_ok t \<and> used t \<le> used t0 + used xs
     \<and> (\<forall>x. x \<noteq> 0 \<longrightarrow> x \<in> set t \<longleftrightarrow> x \<in> set t0 \<or> (x \<in> set xs \<and> x \<noteq> i))"
proof (induction xs arbitrary: t0)
  case Nil
  then show ?case by simp
next
  case (Cons x xs)
  show ?case
  proof (cases "x \<noteq> 0 \<and> x \<noteq> i")
    case True
    have "used t0 < N" "length t0 = N" using Cons.prems by (simp_all add: table_ok_def)
    with place_table [of t0 "x - 1"] obtain d where d: "first_free t0 (x - 1) d"
      "place_probe t0 (N + 1) (BITVEC_HASH (x - 1)) = Some (cyc N (x - 1) d)" by blast
    let ?t = "t0[cyc N (x - 1) d := x]"
    have st: "table_ok ?t" "used ?t = Suc (used t0)"
      "\<forall>y. y \<noteq> 0 \<longrightarrow> y \<in> set ?t \<longleftrightarrow> y = x \<or> y \<in> set t0"
      using store_table [OF Cons.prems(1) d(1)] True by simp_all
    have "used ?t + used xs < N" using Cons.prems(2) st(2) True by (simp add: used_Cons)
    from Cons.IH [OF st(1) this] obtain t where t: "rebuild ?t (used ?t) i xs = Some (t, used t)"
      "table_ok t" "used t \<le> used ?t + used xs"
      "\<forall>y. y \<noteq> 0 \<longrightarrow> y \<in> set t \<longleftrightarrow> y \<in> set ?t \<or> (y \<in> set xs \<and> y \<noteq> i)" by blast
    have "rebuild t0 (used t0) i (x # xs) = Some (t, used t)"
      using True d(2) t(1) st(2) by simp
    moreover have "used t \<le> used t0 + used (x # xs)" using t(3) st(2) True by (simp add: used_Cons)
    moreover have "\<forall>y. y \<noteq> 0 \<longrightarrow> y \<in> set t \<longleftrightarrow> y \<in> set t0 \<or> (y \<in> set (x # xs) \<and> y \<noteq> i)"
      using t(4) st(3) True by auto
    ultimately show ?thesis using t(2) by blast
  next
    case False
    then have "used t0 + used xs < N" using Cons.prems(2) by (simp add: used_Cons split: if_splits)
    from Cons.IH [OF Cons.prems(1) this] obtain t where t: "rebuild t0 (used t0) i xs = Some (t, used t)"
      "table_ok t" "used t \<le> used t0 + used xs"
      "\<forall>y. y \<noteq> 0 \<longrightarrow> y \<in> set t \<longleftrightarrow> y \<in> set t0 \<or> (y \<in> set xs \<and> y \<noteq> i)" by blast
    have "rebuild t0 (used t0) i (x # xs) = Some (t, used t)" using False t(1) by auto
    moreover have "used t \<le> used t0 + used (x # xs)" using t(3) by (simp add: used_Cons)
    ultimately show ?thesis using t(2,4) False by auto
  qed
qed

lemma clear_down_ok: "wf_bitvec p \<Longrightarrow> j < iSize p \<Longrightarrow>
    \<exists>p'. clear_down p j = Some p' \<and> wf_bitvec p' \<and> iSize p' = iSize p
      \<and> (\<forall>x < iSize p. has p' x \<longleftrightarrow> has p x \<and> x \<noteq> j)"
proof (induction p j rule: clear_down.induct)
  case (1 p j)
  obtain s c d u where p: "p = Bitvec s c d u" by (cases p)
  have j: "j < s" using "1.prems" p by simp
  show ?case
  proof (cases u)
    case (ABitmap bs)
    let ?p = "with_bits p (ABitmap (bs[j div 8 := bs ! (j div 8) AND NOT (push_bit (j mod 8) 1)]))"
    have len: "j div 8 < length bs" using "1.prems" p ABitmap byte_index by simp
    have same: "has ?p x \<longleftrightarrow> has p x \<and> x \<noteq> j" for x
    proof (cases "x div 8 = j div 8")
      case True
      then have "x = j \<longleftrightarrow> x mod 8 = j mod 8" by (metis div_mult_mod_eq)
      with True len show ?thesis by (auto simp: p ABitmap with_bits_def byte_bit_clear)
    next
      case False
      then show ?thesis by (auto simp: p ABitmap with_bits_def)
    qed
    moreover have "wf_bitvec ?p" using "1.prems" p ABitmap by (simp add: with_bits_def)
    moreover have "clear_down p j = Some ?p" by (subst clear_down.simps) (simp add: p ABitmap)
    ultimately show ?thesis by (simp add: p with_bits_def)
  next
    case (AHash t)
    have t: "table_ok t" "used t = c" "c < N" "s > BITVEC_NBIT" "d = 0" "\<forall>x \<in> set t. x \<le> s"
      using "1.prems" p AHash by simp_all
    have "used (replicate N 0) + used t < N" using t by simp
    from rebuild_ok [OF table_ok_zeros this, of "j + 1"] obtain t' where
      t': "rebuild (replicate N 0) 0 (j + 1) t = Some (t', used t')" "table_ok t'" "used t' \<le> used t"
      "\<And>x. x \<noteq> 0 \<Longrightarrow> x \<in> set t' \<longleftrightarrow> x \<in> set t \<and> x \<noteq> j + 1" by auto
    let ?p = "Bitvec s (used t') d (AHash t')"
    have "clear_down p j = Some ?p" using t'(1) by (subst clear_down.simps) (simp add: p AHash)
    moreover have "\<forall>x \<in> set t'. x \<le> s"
      using t'(4) t(6) by (metis bot_nat_0.extremum)
    ultimately show ?thesis using t t' p AHash by auto
  next
    case (ApSub subs)
    have d: "d = (s + BITVEC_NPTR - 1) div BITVEC_NPTR" "length subs = BITVEC_NPTR" "s > BITVEC_NBIT"
      and subs: "\<forall>x \<in> set subs. case x of None \<Rightarrow> True | Some q \<Rightarrow> iSize q = d \<and> wf_bitvec q"
      using "1.prems"(1) p ApSub by simp_all
    have b: "j div d < length subs" and d0: "0 < d" using sub_bin [of s j] d j by simp_all
    show ?thesis
    proof (cases "subs ! (j div d)")
      case None
      have "\<not> has p j" using None p ApSub by simp
      moreover have "clear_down p j = Some p"
        using None b by (subst clear_down.simps) (simp add: p ApSub)
      ultimately show ?thesis using "1.prems" by auto
    next
      case (Some q)
      then have "Some q \<in> set subs" using b by (metis nth_mem)
      then have q: "wf_bitvec q" "iSize q = d" using subs by auto
      with "1.IH" [of subs "j div d" q] Some b p ApSub d0 obtain q' where
        q': "clear_down q (j mod d) = Some q'" "wf_bitvec q'" "iSize q' = d"
        "\<And>x. x < d \<Longrightarrow> has q' x \<longleftrightarrow> has q x \<and> x \<noteq> j mod d" by auto
      define p' where "p' = with_bits p (ApSub (subs[j div d := Some q']))"
      have "clear_down p j = Some p'"
        using Some b q'(1) by (subst clear_down.simps) (simp add: p ApSub p'_def)
      moreover have "has p' x \<longleftrightarrow> has p x \<and> x \<noteq> j" if "x < s" for x
      proof (cases "x div d = j div d")
        case True
        then have "x = j \<longleftrightarrow> x mod d = j mod d" by (metis div_mult_mod_eq)
        with True b Some q'(4) [of "x mod d"] d0 show ?thesis
          by (auto simp: p'_def p ApSub with_bits_def)
      next
        case False
        then show ?thesis by (auto simp: p'_def p ApSub with_bits_def)
      qed
      moreover have "\<forall>x \<in> set (subs[j div d := Some q']).
          case x of None \<Rightarrow> True | Some q \<Rightarrow> iSize q = d \<and> wf_bitvec q"
      proof
        fix x assume "x \<in> set (subs[j div d := Some q'])"
        then have "x = Some q' \<or> x \<in> set subs"
          using set_update_subset_insert [of subs "j div d" "Some q'"] by auto
        then show "case x of None \<Rightarrow> True | Some q \<Rightarrow> iSize q = d \<and> wf_bitvec q"
          using subs q' by auto
      qed
      then have "wf_bitvec p'"
        unfolding p'_def p with_bits_def bitvec.sel wf_bitvec.simps length_list_update using d by blast
      moreover have "iSize p' = iSize p" by (simp add: p'_def with_bits_def)
      ultimately show ?thesis using p by auto
    qed
  qed
qed


subsection \<open>The operations as the callers see them\<close>

text \<open>The set of the pages in a bitmap, and a bitmap whose size is a page number.\<close>

definition pages :: "bitvec \<Rightarrow> nat set" where
  "pages p = {i. 1 \<le> i \<and> i \<le> iSize p \<and> has p (i - 1)}"

definition valid :: "bitvec \<Rightarrow> bool" where
  "valid p \<longleftrightarrow> wf_bitvec p \<and> iSize p < 2 ^ 32"

lemma create_valid: "sz < 2 ^ 32 \<Longrightarrow> sqlite3BitvecCreate ok k sz = Some p \<Longrightarrow>
    valid p \<and> iSize p = sz \<and> pages p = {}"
proof -
  assume "sz < 2 ^ 32" and c: "sqlite3BitvecCreate ok k sz = Some p"
  moreover have "\<not> has p (i - 1)" if "1 \<le> i" "i \<le> sz" for i
    using create_wf [OF c] that by auto
  ultimately show ?thesis using create_wf [OF c] by (auto simp: valid_def pages_def)
qed

lemma test_valid: "valid p \<Longrightarrow> i < 2 ^ 32 \<Longrightarrow> sqlite3BitvecTest (Some p) i = Some (i \<in> pages p)"
proof -
  assume p: "valid p" and i: "i < 2 ^ 32"
  show ?thesis
  proof (cases "i = 0")
    case True
    with p show ?thesis
      by (simp add: sqlite3BitvecTest_def sqlite3BitvecTestNotNull_def pages_def valid_def Let_def)
  next
    case False
    then have "(i + 2 ^ 32 - 1) mod 2 ^ 32 = i - 1"
    proof -
      obtain m where m: "i = Suc m" using False by (cases i) auto
      have "(2 ^ 32 + m) mod 2 ^ 32 = m mod 2 ^ 32" by (rule mod_add_self1)
      moreover have "m mod 2 ^ 32 = m" using i m by (intro mod_less) simp
      moreover have "i + 2 ^ 32 - 1 = 2 ^ 32 + m" using m by simp
      ultimately show ?thesis using m by simp
    qed
    moreover have "i - 1 < iSize p \<longleftrightarrow> i \<le> iSize p" using False by auto
    ultimately show ?thesis
      using p False test_down_ok [of p "i - 1"]
      by (auto simp: sqlite3BitvecTest_def sqlite3BitvecTestNotNull_def pages_def valid_def Let_def
          simp del: One_nat_def)
  qed
qed

lemma set_valid: "valid p \<Longrightarrow> 1 \<le> i \<Longrightarrow> i \<le> iSize p \<Longrightarrow>
    \<exists>rc p' k'. sqlite3BitvecSet ok k (Some p) i = Some (rc, Some p', k')
      \<and> valid p' \<and> iSize p' = iSize p \<and> (rc = SQLITE_OK \<or> rc = SQLITE_NOMEM)
      \<and> ((\<forall>k. ok k) \<longrightarrow> rc = SQLITE_OK) \<and> pages p' \<subseteq> insert i (pages p)
      \<and> (rc = SQLITE_OK \<longrightarrow> pages p' = insert i (pages p))"
proof -
  assume p: "valid p" and i: "1 \<le> i" "i \<le> iSize p"
  have "need p \<le> BITVEC_FUEL"
    using levels_enough [of "iSize p"] p by (auto simp: need_def valid_def)
  moreover have "i - 1 < iSize p" using i by simp
  ultimately have "succeeds ok (\<lambda>x. x = i - 1) p (bitvec_set BITVEC_FUEL ok k p (i - 1 + 1))"
    using set_ok p by (simp add: valid_def del: One_nat_def)
  then obtain rc p' k' where r: "bitvec_set BITVEC_FUEL ok k p i = Some (rc, p', k')"
    and o: "outcome ok (\<lambda>x. x = i - 1) p rc p'" using i by (auto simp: succeeds_def)
  have s: "iSize p' = iSize p" using o by (simp add: outcome_def)
  have sub: "pages p' \<subseteq> insert i (pages p)"
  proof
    fix x assume "x \<in> pages p'"
    then have x: "1 \<le> x" "x \<le> iSize p" "has p' (x - 1)" using s by (simp_all add: pages_def)
    then have "x - 1 < iSize p" by simp
    with x(3) o have "x - 1 = i - 1 \<or> has p (x - 1)" by (simp add: outcome_def del: One_nat_def)
    with x i show "x \<in> insert i (pages p)" by (auto simp: pages_def)
  qed
  have "pages p' = insert i (pages p)" if "rc = SQLITE_OK"
  proof (rule equalityI [OF sub], rule subsetI)
    fix x assume x: "x \<in> insert i (pages p)"
    then have r: "1 \<le> x" "x \<le> iSize p" "x - 1 = i - 1 \<or> has p (x - 1)"
      using i by (auto simp: pages_def)
    then have "x - 1 < iSize p" by simp
    moreover have "\<forall>x < iSize p. x = i - 1 \<or> has p x \<longrightarrow> has p' x"
      using o that unfolding outcome_def by blast
    ultimately have "has p' (x - 1)" using r(3) by blast
    with r s show "x \<in> pages p'" by (simp add: pages_def)
  qed
  with r o s sub p show ?thesis
    by (simp add: sqlite3BitvecSet_def outcome_def valid_def)
qed

lemma clear_valid: "valid p \<Longrightarrow> 1 \<le> i \<Longrightarrow> i \<le> iSize p \<Longrightarrow>
    \<exists>p'. sqlite3BitvecClear (Some p) i = Some (Some p') \<and> valid p' \<and> iSize p' = iSize p
      \<and> pages p' = pages p - {i}"
proof -
  assume p: "valid p" and i: "1 \<le> i" "i \<le> iSize p"
  then have "i - 1 < iSize p" by simp
  then obtain p' where c: "clear_down p (i - 1) = Some p'" "wf_bitvec p'" "iSize p' = iSize p"
    "\<And>x. x < iSize p \<Longrightarrow> has p' x \<longleftrightarrow> has p x \<and> x \<noteq> i - 1"
    using clear_down_ok [of p "i - 1"] p by (auto simp: valid_def)
  have "has p' (x - 1) \<longleftrightarrow> has p (x - 1) \<and> x \<noteq> i" if "1 \<le> x" "x \<le> iSize p" for x
    using c(4) [of "x - 1"] that i by auto
  then have "pages p' = pages p - {i}" using c(3) by (auto simp: pages_def)
  with c p show ?thesis by (simp add: sqlite3BitvecClear_def valid_def)
qed


subsection \<open>The contract of a set of pages\<close>

text \<open>
  What the pager relies on: a test, an addition that succeeds and a removal, on page
  numbers in range. Whatever keeps these laws behaves as a set under every sequence of
  operations.
\<close>

datatype page_op = Add_Page nat | Remove_Page nat

fun op_page :: "page_op \<Rightarrow> nat" where
  "op_page (Add_Page i) = i"
| "op_page (Remove_Page i) = i"

fun set_run :: "nat set \<Rightarrow> page_op list \<Rightarrow> nat set" where
  "set_run S [] = S"
| "set_run S (Add_Page i # ops) = set_run (insert i S) ops"
| "set_run S (Remove_Page i # ops) = set_run (S - {i}) ops"

fun page_run :: "('s \<Rightarrow> nat \<Rightarrow> 's option) \<Rightarrow> ('s \<Rightarrow> nat \<Rightarrow> 's option) \<Rightarrow> 's \<Rightarrow> page_op list \<Rightarrow> 's option" where
  "page_run add remove s [] = Some s"
| "page_run add remove s (Add_Page i # ops) = Option.bind (add s i) (\<lambda>s. page_run add remove s ops)"
| "page_run add remove s (Remove_Page i # ops) =
     Option.bind (remove s i) (\<lambda>s. page_run add remove s ops)"

locale page_set =
  fixes member :: "'s \<Rightarrow> nat \<Rightarrow> bool option"
    and add :: "'s \<Rightarrow> nat \<Rightarrow> 's option"
    and remove :: "'s \<Rightarrow> nat \<Rightarrow> 's option"
    and elems :: "'s \<Rightarrow> nat set"
    and inv :: "'s \<Rightarrow> bool"
    and bound :: "'s \<Rightarrow> nat"
  assumes member_law: "inv s \<Longrightarrow> i < 2 ^ 32 \<Longrightarrow> member s i = Some (i \<in> elems s)"
    and add_law: "inv s \<Longrightarrow> 1 \<le> i \<Longrightarrow> i \<le> bound s \<Longrightarrow>
      \<exists>s'. add s i = Some s' \<and> inv s' \<and> bound s' = bound s \<and> elems s' = insert i (elems s)"
    and remove_law: "inv s \<Longrightarrow> 1 \<le> i \<Longrightarrow> i \<le> bound s \<Longrightarrow>
      \<exists>s'. remove s i = Some s' \<and> inv s' \<and> bound s' = bound s \<and> elems s' = elems s - {i}"
begin

lemma run_is_set:
  "inv s \<Longrightarrow> \<forall>x \<in> set ops. 1 \<le> op_page x \<and> op_page x \<le> bound s \<Longrightarrow>
   \<exists>s'. page_run add remove s ops = Some s' \<and> inv s' \<and> bound s' = bound s
     \<and> elems s' = set_run (elems s) ops"
proof (induction ops arbitrary: s)
  case (Cons x ops)
  show ?case
  proof (cases x)
    case (Add_Page i)
    with Cons.prems obtain s' where s': "add s i = Some s'" "inv s'" "bound s' = bound s"
      "elems s' = insert i (elems s)" using add_law [of s i] by auto
    with Cons.prems Cons.IH [of s'] Add_Page show ?thesis by simp
  next
    case (Remove_Page i)
    with Cons.prems obtain s' where s': "remove s i = Some s'" "inv s'" "bound s' = bound s"
      "elems s' = elems s - {i}" using remove_law [of s i] by auto
    with Cons.prems Cons.IH [of s'] Remove_Page show ?thesis by simp
  qed
qed simp

lemma run_members:
  "inv s \<Longrightarrow> \<forall>x \<in> set ops. 1 \<le> op_page x \<and> op_page x \<le> bound s \<Longrightarrow>
   \<exists>s'. page_run add remove s ops = Some s'
     \<and> (\<forall>i < 2 ^ 32. member s' i = Some (i \<in> set_run (elems s) ops))"
  using run_is_set [of s ops] member_law by metis

end

text \<open>The bitmap with enough memory provides it.\<close>

definition bitvec_add :: "bitvec \<Rightarrow> nat \<Rightarrow> bitvec option" where
  "bitvec_add p i =
     (case sqlite3BitvecSet (\<lambda>_. True) 0 (Some p) i of
        Some (rc, p', k) \<Rightarrow> if rc = SQLITE_OK then p' else None
      | None \<Rightarrow> None)"

definition bitvec_remove :: "bitvec \<Rightarrow> nat \<Rightarrow> bitvec option" where
  "bitvec_remove p i = Option.bind (sqlite3BitvecClear (Some p) i) id"

interpretation bv: page_set "\<lambda>p. sqlite3BitvecTest (Some p)" bitvec_add bitvec_remove pages valid iSize
proof
  fix p i
  show "valid p \<Longrightarrow> i < 2 ^ 32 \<Longrightarrow> sqlite3BitvecTest (Some p) i = Some (i \<in> pages p)"
    by (rule test_valid)
  show "valid p \<Longrightarrow> 1 \<le> i \<Longrightarrow> i \<le> iSize p \<Longrightarrow>
      \<exists>p'. bitvec_add p i = Some p' \<and> valid p' \<and> iSize p' = iSize p \<and> pages p' = insert i (pages p)"
    using set_valid [of p i "\<lambda>_. True" 0] by (fastforce simp: bitvec_add_def)
  show "valid p \<Longrightarrow> 1 \<le> i \<Longrightarrow> i \<le> iSize p \<Longrightarrow>
      \<exists>p'. bitvec_remove p i = Some p' \<and> valid p' \<and> iSize p' = iSize p \<and> pages p' = pages p - {i}"
    using clear_valid [of p i] by (auto simp: bitvec_remove_def)
qed

subsection \<open>The built-in test passes\<close>

text \<open>A program that ends, has its operands and does not plant a fault (operation 5).\<close>

fun clean :: "int list \<Rightarrow> bool" where
  "clean [] \<longleftrightarrow> False"
| "clean [opc] \<longleftrightarrow> opc = 0"
| "clean (opc # cnt # args) \<longleftrightarrow> opc = 0 \<or>
     (opc \<noteq> 5 \<and> cnt > - (2 ^ 31) \<and>
      (if opc = 1 \<or> opc = 2 then length args \<ge> 2 \<and> clean (drop 2 args) else clean args))"

definition agree :: "int \<Rightarrow> bitvec \<Rightarrow> byte list \<Rightarrow> bool" where
  "agree sz p V \<longleftrightarrow> valid p \<and> iSize p = nat sz \<and> length V = (nat sz + 7) div 8 + 1
     \<and> (\<forall>x. 1 \<le> x \<and> x \<le> nat sz \<longrightarrow> (TESTBIT V x \<longleftrightarrow> x \<in> pages p))"

lemma testbit_bit: "TESTBIT V x \<longleftrightarrow> bit (V ! (x div 8)) (x mod 8)"
  unfolding TESTBIT_def by (simp only: bit_iff_and_push_bit_not_eq_0)

lemma testbit_set: "i div 8 < length V \<Longrightarrow> TESTBIT (SETBIT V i) x \<longleftrightarrow> x = i \<or> TESTBIT V x"
proof (cases "x div 8 = i div 8")
  case True
  then have "x = i \<longleftrightarrow> x mod 8 = i mod 8" by (metis div_mult_mod_eq)
  moreover assume "i div 8 < length V"
  ultimately show ?thesis using True by (auto simp: testbit_bit SETBIT_def byte_bit_set)
qed (auto simp: testbit_bit SETBIT_def)

lemma testbit_clear: "i div 8 < length V \<Longrightarrow> TESTBIT (CLEARBIT V i) x \<longleftrightarrow> x \<noteq> i \<and> TESTBIT V x"
proof (cases "x div 8 = i div 8")
  case True
  then have "x = i \<longleftrightarrow> x mod 8 = i mod 8" by (metis div_mult_mod_eq)
  moreover assume "i div 8 < length V"
  ultimately show ?thesis using True by (auto simp: testbit_bit CLEARBIT_def byte_bit_clear)
qed (auto simp: testbit_bit CLEARBIT_def)

lemma agree_index: "agree sz p V \<Longrightarrow> i < nat sz \<Longrightarrow> (i + 1) div 8 < length V"
proof -
  assume "agree sz p V" "i < nat sz"
  moreover from this have "(i + 1) div 8 \<le> (nat sz + 7) div 8" by (intro div_le_mono) simp
  ultimately show ?thesis by (simp add: agree_def)
qed

lemma agree_set: "agree sz p V \<Longrightarrow> i < nat sz \<Longrightarrow>
    \<exists>rc p' k'. sqlite3BitvecSet ok k (Some p) (i + 1) = Some (rc, Some p', k')
      \<and> (rc = 0 \<longrightarrow> agree sz p' (SETBIT V (i + 1))) \<and> ((\<forall>k. ok k) \<longrightarrow> rc = 0)"
proof -
  assume ag: "agree sz p V" and i: "i < nat sz"
  then obtain rc p' k' where r: "sqlite3BitvecSet ok k (Some p) (i + 1) = Some (rc, Some p', k')"
    and p': "valid p'" "iSize p' = nat sz" "(\<forall>k. ok k) \<longrightarrow> rc = SQLITE_OK"
      "rc = SQLITE_OK \<longrightarrow> pages p' = insert (i + 1) (pages p)"
    using set_valid [of p "i + 1" ok k] by (auto simp: agree_def)
  have "rc = 0 \<longrightarrow> agree sz p' (SETBIT V (i + 1))"
    using p' ag testbit_set [OF agree_index [OF ag i]]
    by (auto simp: agree_def SQLITE_OK_def SETBIT_def)
  with r p'(3) show ?thesis by (auto simp: SQLITE_OK_def)
qed

lemma agree_clear: "agree sz p V \<Longrightarrow> i < nat sz \<Longrightarrow>
    \<exists>p'. sqlite3BitvecClear (Some p) (i + 1) = Some (Some p') \<and> agree sz p' (CLEARBIT V (i + 1))"
proof -
  assume ag: "agree sz p V" and i: "i < nat sz"
  then obtain p' where r: "sqlite3BitvecClear (Some p) (i + 1) = Some (Some p')"
    and p': "valid p'" "iSize p' = nat sz" "pages p' = pages p - {i + 1}"
    using clear_valid [of p "i + 1"] by (auto simp: agree_def)
  have "agree sz p' (CLEARBIT V (i + 1))"
    using p' ag testbit_clear [OF agree_index [OF ag i]]
    by (auto simp: agree_def CLEARBIT_def)
  with r show ?thesis by auto
qed

lemma run_ops_ok:
  "clean prog \<Longrightarrow> agree sz p V \<Longrightarrow> 0 < sz \<Longrightarrow>
   (run_ops ok rnd sz k r p V prog = Some (Inl (- 1)) \<and> \<not> (\<forall>k. ok k))
   \<or> (\<exists>p' V'. run_ops ok rnd sz k r p V prog = Some (Inr (p', V')) \<and> agree sz p' V')"
proof (induction ok rnd sz k r p V prog rule: run_ops.induct)
  case (3 ok rnd sz k r p V opc cnt args)
  show ?case
  proof (cases "opc = 0")
    case True
    with "3.prems" show ?thesis by (simp add: run_ops.simps(3))
  next
    case False
    define ranged where "ranged \<longleftrightarrow> opc = 1 \<or> opc = 2 \<or> opc = 5"
    define i0 where "i0 = (if ranged then args ! 0 - 1 else rnd r)"
    define r' where "r' = (if ranged then r else r + 1)"
    define args' where "args' = (if ranged then args[0 := c_int32 (args ! 0 + args ! 1)] else args)"
    define rest where "rest = (if cnt - 1 > 0 then opc # (cnt - 1) # args'
                    else if ranged then drop 2 args' else args')"
    define i where "i = nat ((c_int32 i0 AND 0x7fffffff) mod sz)"
    have n5: "opc \<noteq> 5" and cnt: "\<not> cnt \<le> - (2 ^ 31)" and len: "\<not> (ranged \<and> length args < 2)"
      using "3.prems"(1) False by (auto simp: ranged_def)
    have cl: "clean rest"
      using "3.prems"(1) False n5 len
      by (auto simp: rest_def args'_def ranged_def drop_update_cancel split: if_splits)
    have i: "i < nat sz" using "3.prems"(3) by (simp add: i_def)
    note code = run_ops.simps(3) [of ok rnd sz k r p V opc cnt args, unfolded Let_def,
        folded ranged_def, folded i0_def r'_def args'_def, folded rest_def i_def]
    note start = False cnt len [unfolded ranged_def] ranged_def i0_def r'_def args'_def rest_def i_def
    show ?thesis
    proof (cases "odd opc")
      case True
      obtain rc p' k' where s: "sqlite3BitvecSet ok k (Some p) (i + 1) = Some (rc, Some p', k')"
        "rc = 0 \<longrightarrow> agree sz p' (SETBIT V (i + 1))" "(\<forall>k. ok k) \<longrightarrow> rc = 0"
        using agree_set [OF "3.prems"(2) i] by blast
      show ?thesis
      proof (cases "rc = 0")
        case True
        then have "agree sz p' (SETBIT V (i + 1))" using s(2) by simp
        from "3.IH"(1) [OF start \<open>odd opc\<close> n5 s(1) refl refl refl _ cl this "3.prems"(3)] True
        show ?thesis unfolding code using s(1) \<open>odd opc\<close> False cnt len n5 by simp
      next
        case F: False
        with s \<open>odd opc\<close> False cnt len n5 show ?thesis unfolding code by auto
      qed
    next
      case F: False
      obtain p' where c: "sqlite3BitvecClear (Some p) (i + 1) = Some (Some p')"
        "agree sz p' (CLEARBIT V (i + 1))"
        using agree_clear [OF "3.prems"(2) i] by blast
      from "3.IH"(3) [OF start F c(1) refl cl c(2) "3.prems"(3)]
      show ?thesis unfolding code using c(1) F False cnt len by simp
    qed
  qed
qed auto


lemma compare_bits_agree:
  "agree sz p V \<Longrightarrow> nat sz < 2 ^ 32 \<Longrightarrow> \<forall>i \<in> set is. 1 \<le> i \<and> i \<le> nat sz \<Longrightarrow>
   compare_bits p V rc is = Some rc"
proof (induction "is")
  case (Cons i "is")
  then have "sqlite3BitvecTest (Some p) i = Some (i \<in> pages p)"
    by (intro test_valid) (auto simp: agree_def)
  moreover have "TESTBIT V i \<longleftrightarrow> i \<in> pages p" using Cons.prems by (auto simp: agree_def)
  ultimately show ?case using Cons by simp
qed simp

lemma replicate_testbit: "x div 8 < m \<Longrightarrow> \<not> TESTBIT (replicate m 0) x"
  by (simp add: testbit_bit)

lemma builtin_test_result:
  assumes sz: "0 < sz" "sz < 2 ^ 31" and prog: "clean aOp"
  shows "sqlite3BitvecBuiltinTest ok rnd sz aOp = Some 0
    \<or> (sqlite3BitvecBuiltinTest ok rnd sz aOp = Some (- 1) \<and> \<not> (\<forall>k. ok k))"
proof (cases "ok 0 \<and> ok 1 \<and> ok 2")
  case False
  then have "sqlite3BitvecBuiltinTest ok rnd sz aOp = Some (- 1)"
    by (auto simp: sqlite3BitvecBuiltinTest_def sqlite3BitvecCreate_def)
  with False show ?thesis by blast
next
  case True
  have n: "nat sz < 2 ^ 32" using sz by simp
  obtain p where p: "sqlite3BitvecCreate ok 0 (nat sz) = Some p"
    using True by (simp add: sqlite3BitvecCreate_def)
  let ?V = "replicate ((nat sz + 7) div 8 + 1) (0 :: byte)"
  have pv: "valid p" "iSize p = nat sz" "pages p = {}" using create_valid [OF n p] by simp_all
  have "\<not> TESTBIT ?V x" if "x \<le> nat sz" for x
  proof (rule replicate_testbit)
    have "x div 8 \<le> (nat sz + 7) div 8" using that by (intro div_le_mono) simp
    then show "x div 8 < (nat sz + 7) div 8 + 1" by simp
  qed
  with pv have "agree sz p ?V" by (auto simp: agree_def simp del: replicate.simps)
  from run_ops_ok [OF prog this sz(1), of ok rnd 3 0] show ?thesis
  proof
    assume "run_ops ok rnd sz 3 0 p ?V aOp = Some (Inl (- 1)) \<and> \<not> (\<forall>k. ok k)"
    with p True show ?thesis by (simp add: sqlite3BitvecBuiltinTest_def)
  next
    assume "\<exists>p' V'. run_ops ok rnd sz 3 0 p ?V aOp = Some (Inr (p', V')) \<and> agree sz p' V'"
    then obtain p' V' where r: "run_ops ok rnd sz 3 0 p ?V aOp = Some (Inr (p', V'))"
      and ag: "agree sz p' V'" by blast
    have "sqlite3BitvecTest (Some p') (nat sz + 1) = Some (nat sz + 1 \<in> pages p')"
      "sqlite3BitvecTest (Some p') 0 = Some (0 \<in> pages p')"
      using ag sz by (auto simp: agree_def intro!: test_valid)
    moreover have "nat sz + 1 \<notin> pages p'" "0 \<notin> pages p'"
      using ag by (auto simp: pages_def agree_def)
    moreover have "int (sqlite3BitvecSize p') - sz = 0"
      using ag sz by (simp add: sqlite3BitvecSize_def agree_def)
    moreover have "compare_bits p' V' 0 [1..<Suc (nat sz)] = Some 0"
      by (rule compare_bits_agree [OF ag n]) auto
    ultimately have "sqlite3BitvecBuiltinTest ok rnd sz aOp = Some 0"
      using p True r by (simp add: sqlite3BitvecBuiltinTest_def sqlite3BitvecTest_def [of None])
    then show ?thesis by blast
  qed
qed

subsection \<open>Properties\<close>

text \<open>
  C18. A page bitmap is a set of page numbers: after any sequence of sets and clears of
  pages in range, on a bitmap of any 32-bit size, with memory enough, \<open>sqlite3BitvecTest\<close>
  answers for every 32-bit number whether it is in the set that the sequence describes,
  through all three representations and the splits between them.
\<close>

theorem bitvec_is_page_set:
  assumes "sz < 2 ^ 32" and "sqlite3BitvecCreate (\<lambda>_. True) 0 sz = Some p"
    and "\<forall>x \<in> set ops. 1 \<le> op_page x \<and> op_page x \<le> sz"
  shows "\<exists>p'. page_run bitvec_add bitvec_remove p ops = Some p'
    \<and> (\<forall>i < 2 ^ 32. sqlite3BitvecTest (Some p') i = Some (i \<in> set_run {} ops))"
  using bv.run_members [of p ops] create_valid [OF assms(1,2)] assms(3) by simp

theorem bitvec_is_page_set_witness:
  "\<exists>p'. page_run bitvec_add bitvec_remove (the (sqlite3BitvecCreate (\<lambda>_. True) 0 5000))
      [Add_Page 7, Add_Page 4999, Remove_Page 7] = Some p'
    \<and> (\<forall>i < 2 ^ 32. sqlite3BitvecTest (Some p') i
        = Some (i \<in> set_run {} [Add_Page 7, Add_Page 4999, Remove_Page 7]))"
  by (rule bitvec_is_page_set [of 5000]) (simp_all add: sqlite3BitvecCreate_def)

text \<open>
  C19. Setting a bit always returns, with the code for success or for memory: the probing
  of the table ends, and ten levels of sub-bitmaps are never exceeded. It never adds
  another bit; on success exactly the bit is added, and only a failed allocation may lose
  bits (those of a table that was being split).
\<close>

theorem bitvec_set_returns:
  assumes "valid p" and "1 \<le> i" and "i \<le> iSize p"
  shows "\<exists>rc p' k'. sqlite3BitvecSet ok k (Some p) i = Some (rc, Some p', k') \<and> valid p'
    \<and> (rc = SQLITE_OK \<or> rc = SQLITE_NOMEM \<and> \<not> (\<forall>k. ok k))
    \<and> (rc = SQLITE_OK \<longrightarrow> pages p' = insert i (pages p)) \<and> pages p' \<subseteq> insert i (pages p)"
  using set_valid [OF assms, of ok k] by (auto simp: sqlite_codes)

theorem bitvec_set_returns_witness:
  "\<exists>rc p' k'. sqlite3BitvecSet (\<lambda>_. False) 1 (Some (the (sqlite3BitvecCreate (\<lambda>_. True) 0 9000))) 8999
      = Some (rc, Some p', k') \<and> valid p'
    \<and> (rc = SQLITE_OK \<or> rc = SQLITE_NOMEM \<and> \<not> (\<forall>k::nat. False))
    \<and> (rc = SQLITE_OK \<longrightarrow>
        pages p' = insert 8999 (pages (the (sqlite3BitvecCreate (\<lambda>_. True) 0 9000))))
    \<and> pages p' \<subseteq> insert 8999 (pages (the (sqlite3BitvecCreate (\<lambda>_. True) 0 9000)))"
proof (rule bitvec_set_returns)
  obtain p where p: "sqlite3BitvecCreate (\<lambda>_. True) 0 9000 = Some p"
    by (simp add: sqlite3BitvecCreate_def)
  from create_valid [OF _ p] p show "valid (the (sqlite3BitvecCreate (\<lambda>_. True) 0 9000))"
    "8999 \<le> iSize (the (sqlite3BitvecCreate (\<lambda>_. True) 0 9000))" by simp_all
qed simp



end
