(* ===== verification/Hash.thy ===== *)
theory Hash
  imports Ctype "HOL-Library.Monad_Syntax"
begin

section \<open>Hash tables keyed by names\<close>

text \<open>
  \<open>hash.c\<close> and \<open>hash.h\<close>: the symbol tables of SQLite (tables, indices, functions,
  collations and virtual-table modules are found by name in one of these). All elements
  are on one doubly linked list; a bucket holds a pointer into that list and the number
  of consecutive elements that belong to it, and below ten elements there are no buckets
  at all.

  The elements live in a store \<open>cells\<close> that the routines mutate through \<open>next\<close> and \<open>prev\<close>
  as the C code does; reading or writing through a pointer that is not an allocated
  element, or outside the bucket array, makes the result \<open>None\<close>, so a theorem that an
  operation returns \<open>Some\<close> is also memory safety. A key is the string its pointer shows:
  the table does not copy it, and the caller keeps it unchanged. What the allocator
  answers is an argument of each operation that allocates.
\<close>

subsection \<open>Data\<close>

record HashElem =
  elem_next :: ptr
  elem_prev :: ptr
  elem_data :: ptr
  elem_key :: "byte list"

record ht_entry =
  ht_count :: int
  ht_chain :: ptr

record Hash =
  htsize :: u32
  hcount :: u32
  hfirst :: ptr
  ht :: "ht_entry list option"
  cells :: "ptr \<Rightarrow> HashElem option"

definition deref :: "Hash \<Rightarrow> ptr \<Rightarrow> HashElem option" where
  "deref s p = (if p = 0 then None else cells s p)"

definition set_next :: "ptr \<Rightarrow> ptr \<Rightarrow> Hash \<Rightarrow> Hash option" where
  "set_next p v s =
     do { e \<leftarrow> deref s p; Some (s\<lparr>cells := (cells s)(p \<mapsto> e\<lparr>elem_next := v\<rparr>)\<rparr>) }"

definition set_prev :: "ptr \<Rightarrow> ptr \<Rightarrow> Hash \<Rightarrow> Hash option" where
  "set_prev p v s =
     do { e \<leftarrow> deref s p; Some (s\<lparr>cells := (cells s)(p \<mapsto> e\<lparr>elem_prev := v\<rparr>)\<rparr>) }"

definition free_elem :: "ptr \<Rightarrow> Hash \<Rightarrow> Hash option" where
  "free_elem p s = do { e \<leftarrow> deref s p; Some (s\<lparr>cells := (cells s)(p := None)\<rparr>) }"

definition bucket :: "Hash \<Rightarrow> nat \<Rightarrow> ht_entry option" where
  "bucket s h = do { t \<leftarrow> ht s; if h < length t then Some (t ! h) else None }"

definition set_bucket :: "nat \<Rightarrow> ht_entry \<Rightarrow> Hash \<Rightarrow> Hash option" where
  "set_bucket h e s =
     do { t \<leftarrow> ht s; if h < length t then Some (s\<lparr>ht := Some (t[h := e])\<rparr>) else None }"

subsection \<open>Operations\<close>

definition sqlite3HashInit :: "Hash \<Rightarrow> Hash" where
  "sqlite3HashInit s = s\<lparr>hfirst := 0, hcount := 0, htsize := 0, ht := None\<rparr>"

partial_function (option) clear_loop :: "ptr \<Rightarrow> Hash \<Rightarrow> Hash option" where
  "clear_loop elem s =
     (if elem = 0 then Some s
      else do { e \<leftarrow> deref s elem; s \<leftarrow> free_elem elem s; clear_loop (elem_next e) s })"

definition sqlite3HashClear :: "Hash \<Rightarrow> Hash option" where
  "sqlite3HashClear s =
     do { s' \<leftarrow> clear_loop (hfirst s) (s\<lparr>hfirst := 0, ht := None, htsize := 0\<rparr>);
          Some (s'\<lparr>hcount := 0\<rparr>) }"

fun strHash_loop :: "u32 \<Rightarrow> byte list \<Rightarrow> u32" where
  "strHash_loop h [] = h"
| "strHash_loop h (c # z) =
     (if c = 0 then h
      else strHash_loop ((h + ucast (sqlite3UpperToLower ! unat c)) * 0x9e3779b1) z)"

definition strHash :: "byte list \<Rightarrow> u32" where
  "strHash z = strHash_loop 0 z"

text \<open>
  Linking an element in: in front of the first element of its bucket, or, when the bucket
  is empty or there are no buckets, at the front of the whole list. The bucket argument is
  the index of the bucket in the array, or none.
\<close>

definition link_before :: "ptr \<Rightarrow> ptr \<Rightarrow> Hash \<Rightarrow> Hash option" where
  "link_before pHead pNew s =
     (if pHead \<noteq> 0 then
        do { s \<leftarrow> set_next pNew pHead s;
             eh \<leftarrow> deref s pHead;
             s \<leftarrow> set_prev pNew (elem_prev eh) s;
             s \<leftarrow> (if elem_prev eh \<noteq> 0 then set_next (elem_prev eh) pNew s
                  else Some (s\<lparr>hfirst := pNew\<rparr>));
             set_prev pHead pNew s }
      else
        do { s \<leftarrow> set_next pNew (hfirst s) s;
             s \<leftarrow> (if hfirst s \<noteq> 0 then set_prev (hfirst s) pNew s else Some s);
             s \<leftarrow> set_prev pNew 0 s;
             Some (s\<lparr>hfirst := pNew\<rparr>) })"

definition insertElement :: "nat option \<Rightarrow> ptr \<Rightarrow> Hash \<Rightarrow> Hash option" where
  "insertElement pEntry pNew s =
     (case pEntry of
        Some h \<Rightarrow>
          do { b \<leftarrow> bucket s h;
               s \<leftarrow> set_bucket h \<lparr>ht_count = ht_count b + 1, ht_chain = pNew\<rparr> s;
               link_before (if ht_count b \<noteq> 0 then ht_chain b else 0) pNew s }
      | None \<Rightarrow> link_before 0 pNew s)"

text \<open>
  \<open>struct _ht\<close> takes 16 bytes on a 64-bit target. \<open>al\<close> is the allocator: the number of
  bytes requested is mapped to the usable size of the block (\<open>sqlite3MallocSize\<close>), or to
  \<open>None\<close> for a null result.
\<close>

definition SQLITE_MALLOC_SOFT_LIMIT :: nat where "SQLITE_MALLOC_SOFT_LIMIT = 1024"
definition sizeof_ht :: nat where "sizeof_ht = 16"

partial_function (option) rehash_loop :: "nat \<Rightarrow> ptr \<Rightarrow> Hash \<Rightarrow> Hash option" where
  "rehash_loop new_size elem s =
     (if elem = 0 then Some s
      else do { e \<leftarrow> deref s elem;
                s \<leftarrow> insertElement (Some (unat (strHash (elem_key e)) mod new_size)) elem s;
                rehash_loop new_size (elem_next e) s })"

definition rehash :: "(nat \<Rightarrow> nat option) \<Rightarrow> u32 \<Rightarrow> Hash \<Rightarrow> (bool \<times> Hash) option" where
  "rehash al new_size s =
     (let new_size = (if unat new_size * sizeof_ht > SQLITE_MALLOC_SOFT_LIMIT
                      then of_nat (SQLITE_MALLOC_SOFT_LIMIT div sizeof_ht) else new_size) in
      if new_size = htsize s then Some (False, s)
      else case al (unat new_size * sizeof_ht) of
        None \<Rightarrow> Some (False, s)
      | Some msize \<Rightarrow>
          (let new_size = msize div sizeof_ht;
               new_ht = replicate new_size \<lparr>ht_count = 0, ht_chain = 0\<rparr>;
               elem = hfirst s in
           do { s \<leftarrow> rehash_loop new_size elem
                     (s\<lparr>ht := Some new_ht, htsize := of_nat new_size, hfirst := 0\<rparr>);
                Some (True, s) }))"

text \<open>The count of a walk is an \<open>int\<close>; zero elements left stands for the null element.\<close>

fun find_loop :: "Hash \<Rightarrow> byte list \<Rightarrow> nat \<Rightarrow> ptr \<Rightarrow> ptr option" where
  "find_loop s pKey 0 elem = Some 0"
| "find_loop s pKey (Suc k) elem =
     do { e \<leftarrow> deref s elem;
          if sqlite3StrICmp (elem_key e) pKey = 0 then Some elem
          else find_loop s pKey k (elem_next e) }"

definition findElementWithHash :: "Hash \<Rightarrow> byte list \<Rightarrow> (ptr \<times> nat) option" where
  "findElementWithHash s pKey =
     (case ht s of
        Some _ \<Rightarrow>
          do { let h = unat (strHash pKey mod htsize s);
               b \<leftarrow> bucket s h;
               if ht_count b < 0 then None
               else do { elem \<leftarrow> find_loop s pKey (nat (ht_count b)) (ht_chain b);
                         Some (elem, h) } }
      | None \<Rightarrow>
          (let count = c_int32 (uint (hcount s)) in
           if count < 0 then None
           else do { elem \<leftarrow> find_loop s pKey (nat count) (hfirst s); Some (elem, 0) }))"

definition unlink :: "HashElem \<Rightarrow> Hash \<Rightarrow> Hash option" where
  "unlink e s =
     do { s \<leftarrow> (if elem_prev e \<noteq> 0 then set_next (elem_prev e) (elem_next e) s
               else Some (s\<lparr>hfirst := elem_next e\<rparr>));
          if elem_next e \<noteq> 0 then set_prev (elem_next e) (elem_prev e) s else Some s }"

definition removeElementGivenHash :: "ptr \<Rightarrow> nat \<Rightarrow> Hash \<Rightarrow> Hash option" where
  "removeElementGivenHash elem h s =
     do { e \<leftarrow> deref s elem;
          s \<leftarrow> unlink e s;
          s \<leftarrow> (if ht s \<noteq> None then
                 do { b \<leftarrow> bucket s h;
                      let chain = (if ht_chain b = elem then elem_next e else ht_chain b);
                      set_bucket h \<lparr>ht_count = ht_count b - 1, ht_chain = chain\<rparr> s }
               else Some s);
          s \<leftarrow> free_elem elem s;
          let s = s\<lparr>hcount := hcount s - 1\<rparr>;
          if hcount s = 0 then sqlite3HashClear s else Some s }"

text \<open>The data of the null element is the null pointer.\<close>

definition data_of :: "Hash \<Rightarrow> ptr \<Rightarrow> ptr option" where
  "data_of s elem = (if elem = 0 then Some 0 else map_option elem_data (deref s elem))"

definition sqlite3HashFind :: "Hash \<Rightarrow> byte list \<Rightarrow> ptr option" where
  "sqlite3HashFind s pKey = do { (elem, h) \<leftarrow> findElementWithHash s pKey; data_of s elem }"

text \<open>\<open>pnew\<close> is what \<open>sqlite3Malloc(sizeof(HashElem))\<close> returns.\<close>

definition sqlite3HashInsert ::
    "(nat \<Rightarrow> nat option) \<Rightarrow> ptr \<Rightarrow> byte list \<Rightarrow> ptr \<Rightarrow> Hash \<Rightarrow> (ptr \<times> Hash) option" where
  "sqlite3HashInsert al pnew pKey data s =
     do { (elem, h) \<leftarrow> findElementWithHash s pKey;
          old \<leftarrow> data_of s elem;
          if old \<noteq> 0 then
            (if data = 0 then do { s \<leftarrow> removeElementGivenHash elem h s; Some (old, s) }
             else do { e \<leftarrow> deref s elem;
                       Some (old, s\<lparr>cells := (cells s)
                         (elem \<mapsto> e\<lparr>elem_data := data, elem_key := pKey\<rparr>)\<rparr>) })
          else if data = 0 then Some (0, s)
          else if pnew = 0 then Some (data, s)
          else
            do { let s = s\<lparr>cells := (cells s)
                   (pnew \<mapsto> \<lparr>elem_next = 0, elem_prev = 0, elem_data = data, elem_key = pKey\<rparr>),
                   hcount := hcount s + 1\<rparr>;
                 (h, s) \<leftarrow>
                   (if hcount s \<ge> 10 \<and> hcount s > 2 * htsize s then
                      do { (done, s) \<leftarrow> rehash al (hcount s * 2) s;
                           Some (if done then unat (strHash pKey mod htsize s) else h, s) }
                    else Some (h, s));
                 s \<leftarrow> insertElement (if ht s \<noteq> None then Some h else None) pnew s;
                 Some (0, s) } }"

subsection \<open>Segments of the doubly linked list\<close>

fun headz :: "ptr list \<Rightarrow> ptr \<Rightarrow> ptr" where
  "headz [] nx = nx"
| "headz (p # ps) nx = p"

fun lastz :: "ptr \<Rightarrow> ptr list \<Rightarrow> ptr" where
  "lastz pr [] = pr"
| "lastz pr (p # ps) = lastz p ps"

fun dseg :: "(ptr \<Rightarrow> HashElem option) \<Rightarrow> ptr \<Rightarrow> ptr list \<Rightarrow> ptr \<Rightarrow> bool" where
  "dseg c pr [] nx = True"
| "dseg c pr (p # ps) nx =
     (p \<noteq> 0 \<and> (\<exists>e. c p = Some e \<and> elem_prev e = pr \<and> elem_next e = headz ps nx) \<and> dseg c p ps nx)"

lemma headz_append [simp]: "headz (xs @ ys) nx = headz xs (headz ys nx)"
  by (cases xs) auto

lemma lastz_append [simp]: "lastz pr (xs @ ys) = lastz (lastz pr xs) ys"
  by (induction xs arbitrary: pr) auto

lemma dseg_append [simp]:
  "dseg c pr (xs @ ys) nx \<longleftrightarrow> dseg c pr xs (headz ys nx) \<and> dseg c (lastz pr xs) ys nx"
  by (induction xs arbitrary: pr) auto

lemma dseg_upd [simp]: "p \<notin> set ps \<Longrightarrow> dseg (c(p := x)) pr ps nx = dseg c pr ps nx"
  by (induction ps arbitrary: pr) auto

lemma dseg_cells: "dseg c pr ps nx \<Longrightarrow> p \<in> set ps \<Longrightarrow> p \<noteq> 0 \<and> (\<exists>e. c p = Some e)"
  by (induction ps arbitrary: pr) auto

lemma dseg_cong: "(\<And>p. p \<in> set ps \<Longrightarrow> c p = c' p) \<Longrightarrow> dseg c pr ps nx = dseg c' pr ps nx"
  by (induction ps arbitrary: pr) auto

text \<open>What the links do not touch: keys and data.\<close>

definition kd :: "(ptr \<Rightarrow> HashElem option) \<Rightarrow> ptr \<Rightarrow> (byte list \<times> ptr) option" where
  "kd c p = map_option (\<lambda>e. (elem_key e, elem_data e)) (c p)"

definition linked :: "Hash \<Rightarrow> ptr list \<Rightarrow> bool" where
  "linked s ps \<longleftrightarrow> dseg (cells s) 0 ps 0 \<and> hfirst s = headz ps 0 \<and> distinct ps"

definition same_table :: "Hash \<Rightarrow> Hash \<Rightarrow> bool" where
  "same_table s s' \<longleftrightarrow> ht s' = ht s \<and> htsize s' = htsize s \<and> hcount s' = hcount s
     \<and> kd (cells s') = kd (cells s)"

lemmas store_ops = set_next_def set_prev_def deref_def same_table_def kd_def linked_def fun_eq_iff

lemma link_before_spec:
  assumes "linked s (xs @ zs)" and "p \<noteq> 0" and "cells s p = Some e" and "p \<notin> set (xs @ zs)"
    and "(pHead = 0 \<and> xs = []) \<or> (zs \<noteq> [] \<and> pHead = hd zs)"
  shows "\<exists>s'. link_before pHead p s = Some s' \<and> linked s' (xs @ p # zs) \<and> same_table s s'
    \<and> (\<forall>q. q \<notin> set (xs @ p # zs) \<longrightarrow> cells s' q = cells s q)"
  using assms(5)
proof
  assume "pHead = 0 \<and> xs = []"
  with assms show ?thesis
    by (cases zs) (auto simp: link_before_def store_ops)
next
  assume "zs \<noteq> [] \<and> pHead = hd zs"
  then obtain z zs' where zs: "zs = z # zs'" "pHead = z" by (cases zs) auto
  show ?thesis
  proof (cases xs rule: rev_cases)
    case Nil
    with assms zs show ?thesis by (auto simp: link_before_def store_ops)
  next
    case (snoc ys y)
    with assms zs show ?thesis by (auto simp: link_before_def store_ops)
  qed
qed

subsection \<open>Buckets as windows of the list\<close>

definition key_of :: "(ptr \<Rightarrow> HashElem option) \<Rightarrow> ptr \<Rightarrow> byte list" where
  "key_of c p = (case kd c p of Some (k, d) \<Rightarrow> k | None \<Rightarrow> [])"

definition data_at :: "(ptr \<Rightarrow> HashElem option) \<Rightarrow> ptr \<Rightarrow> ptr" where
  "data_at c p = (case kd c p of Some (k, d) \<Rightarrow> d | None \<Rightarrow> 0)"

fun grouped :: "('p \<Rightarrow> nat) \<Rightarrow> 'p list \<Rightarrow> bool" where
  "grouped f [] = True"
| "grouped f (p # ps) = (grouped f ps \<and> ((\<exists>q \<in> set ps. f q = f p) \<longrightarrow> f (hd ps) = f p))"

lemma grouped_add: "grouped f (xs @ z # zs) \<Longrightarrow> f p = f z \<Longrightarrow> grouped f (xs @ p # z # zs)"
proof (induction xs)
  case (Cons x xs)
  then show ?case by (cases xs) (simp, simp)
qed simp

lemma grouped_remove: "grouped f (xs @ p # zs) \<Longrightarrow> grouped f (xs @ zs)"
proof (induction xs)
  case (Cons x xs)
  then have IH: "grouped f (xs @ zs)" by simp
  have "f (hd (xs @ zs)) = f x" if "q \<in> set (xs @ zs)" "f q = f x" for q
  proof (cases xs)
    case Nil
    with Cons.prems that show ?thesis by (cases "f p = f x") auto
  next
    case (Cons y ys)
    with Cons.prems that show ?thesis by auto
  qed
  with IH show ?case by auto
qed simp

lemma grouped_cong: "(\<And>p. p \<in> set ps \<Longrightarrow> f p = g p) \<Longrightarrow> grouped f ps = grouped g ps"
proof (induction ps)
  case (Cons p ps)
  then show ?case by (cases ps) auto
qed simp

text \<open>The elements of a bucket follow each other, so its window is all of them.\<close>

lemma grouped_window:
  "grouped f ps \<Longrightarrow> filter (\<lambda>p. f p = b) ps
     = takeWhile (\<lambda>p. f p = b) (dropWhile (\<lambda>p. f p \<noteq> b) ps)"
proof (induction ps)
  case (Cons p ps)
  then have IH: "filter (\<lambda>p. f p = b) ps
     = takeWhile (\<lambda>p. f p = b) (dropWhile (\<lambda>p. f p \<noteq> b) ps)" by simp
  show ?case
  proof (cases "\<exists>q \<in> set ps. f q = f p")
    case True
    with Cons.prems have "f (hd ps) = f p" by simp
    moreover obtain q qs where "ps = q # qs" using True by (cases ps) auto
    ultimately show ?thesis using IH by (cases "f p = b") simp_all
  next
    case False
    show ?thesis
    proof (cases "f p = b")
      case True
      with False have "\<forall>q \<in> set ps. f q \<noteq> b" by auto
      then have "filter (\<lambda>p. f p = b) ps = []" "takeWhile (\<lambda>p. f p = b) ps = []"
        by (auto simp: filter_empty_conv takeWhile_eq_Nil_iff)
      with True show ?thesis by simp
    next
      case False
      with IH show ?thesis by simp
    qed
  qed
qed simp

definition tabled :: "ht_entry list \<Rightarrow> (ptr \<Rightarrow> nat) \<Rightarrow> ptr list \<Rightarrow> bool" where
  "tabled t f ps \<longleftrightarrow> grouped f ps \<and> (\<forall>b < length t.
     ht_count (t ! b) = int (length (filter (\<lambda>p. f p = b) ps))
     \<and> ((\<exists>q \<in> set ps. f q = b) \<longrightarrow> ht_chain (t ! b) = hd (filter (\<lambda>p. f p = b) ps)))"

lemma tabled_grouped: "tabled t f ps \<Longrightarrow> grouped f ps"
  by (simp add: tabled_def)

lemma tabled_count: "tabled t f ps \<Longrightarrow> b < length t \<Longrightarrow>
    ht_count (t ! b) = int (length (filter (\<lambda>p. f p = b) ps))"
  by (simp add: tabled_def)

lemma tabled_chain: "tabled t f ps \<Longrightarrow> b < length t \<Longrightarrow> q \<in> set ps \<Longrightarrow> f q = b \<Longrightarrow>
    ht_chain (t ! b) = hd (filter (\<lambda>p. f p = b) ps)"
  unfolding tabled_def by blast

lemma tabledI:
  assumes "grouped f ps"
    and "\<And>b. b < length t \<Longrightarrow> ht_count (t ! b) = int (length (filter (\<lambda>p. f p = b) ps))"
    and "\<And>b q. b < length t \<Longrightarrow> q \<in> set ps \<Longrightarrow> f q = b \<Longrightarrow>
      ht_chain (t ! b) = hd (filter (\<lambda>p. f p = b) ps)"
  shows "tabled t f ps"
  using assms unfolding tabled_def by blast

lemma tabled_cong: "(\<And>p. p \<in> set ps \<Longrightarrow> f p = g p) \<Longrightarrow> tabled t f ps = tabled t g ps"
proof -
  assume eq: "\<And>p. p \<in> set ps \<Longrightarrow> f p = g p"
  then have "filter (\<lambda>p. f p = b) ps = filter (\<lambda>p. g p = b) ps" for b
    by (intro filter_cong) auto
  moreover have "(\<exists>q \<in> set ps. f q = b) = (\<exists>q \<in> set ps. g q = b)" for b using eq by auto
  ultimately show ?thesis using grouped_cong [of ps f g] eq by (simp add: tabled_def)
qed

lemma tabled_empty: "tabled (replicate k \<lparr>ht_count = 0, ht_chain = 0\<rparr>) f []"
  by (simp add: tabled_def)

lemma tabled_add_front:
  assumes "tabled t f ps" and "f p < length t" and "\<forall>q \<in> set ps. f q \<noteq> f p"
  shows "tabled (t[f p := \<lparr>ht_count = ht_count (t ! f p) + 1, ht_chain = p\<rparr>]) f (p # ps)"
proof -
  have "filter (\<lambda>q. f q = f p) ps = []" using assms(3) by (auto simp: filter_empty_conv)
  with assms show ?thesis by (auto simp: tabled_def nth_list_update)
qed

lemma tabled_add:
  assumes "tabled t f (xs @ z # zs)" and "f p = f z" and "f p < length t"
    and "\<forall>q \<in> set xs. f q \<noteq> f z"
  shows "tabled (t[f p := \<lparr>ht_count = ht_count (t ! f p) + 1, ht_chain = p\<rparr>]) f (xs @ p # z # zs)"
proof -
  have "filter (\<lambda>q. f q = f z) xs = []" using assms(4) by (auto simp: filter_empty_conv)
  with assms show ?thesis
    by (auto simp: tabled_def nth_list_update intro: grouped_add)
qed

text \<open>Taking an element out of its bucket.\<close>

lemma hd_filter_split:
  "distinct (xs @ p # zs) \<Longrightarrow> P p \<Longrightarrow> (hd (filter P (xs @ p # zs)) = p) = (filter P xs = [])"
proof -
  assume "distinct (xs @ p # zs)" "P p"
  then have "p \<notin> set (filter P xs)" by auto
  then show ?thesis using \<open>P p\<close> by (cases "filter P xs") auto
qed

lemma grouped_hd_filter:
  "grouped f (p # zs) \<Longrightarrow> \<exists>q \<in> set zs. f q = f p \<Longrightarrow>
    hd (filter (\<lambda>q. f q = f p) zs) = headz zs nx"
  by (cases zs) auto

lemma grouped_suffix: "grouped f (xs @ ys) \<Longrightarrow> grouped f ys"
  by (induction xs) auto

lemma tabled_remove:
  assumes "tabled t f (xs @ p # zs)" and "distinct (xs @ p # zs)" and "f p < length t"
    and "c = (if ht_chain (t ! f p) = p then headz zs nx else ht_chain (t ! f p))"
  shows "tabled (t[f p := \<lparr>ht_count = ht_count (t ! f p) - 1, ht_chain = c\<rparr>]) f (xs @ zs)"
proof -
  let ?P = "\<lambda>q. f q = f p"
  have chain: "ht_chain (t ! f p) = hd (filter ?P (xs @ p # zs))"
    using tabled_chain [OF assms(1,3), of p] by simp
  have head: "ht_chain (t ! f p) = p \<longleftrightarrow> filter ?P xs = []"
    using hd_filter_split [OF assms(2), of ?P] chain by simp
  have gz: "grouped f (p # zs)"
    using tabled_grouped [OF assms(1)] by (rule grouped_suffix)
  have c: "c = hd (filter ?P (xs @ zs))" if ex: "q \<in> set (xs @ zs)" "f q = f p" for q
  proof (cases "filter ?P xs = []")
    case True
    with ex have "\<exists>q \<in> set zs. f q = f p" by (auto simp: filter_empty_conv)
    with True head assms(4) grouped_hd_filter [OF gz, of nx] show ?thesis by simp
  next
    case False
    with head assms(4) chain show ?thesis by (simp add: hd_append)
  qed
  have count: "ht_count (t ! f p) = 1 + int (length (filter ?P (xs @ zs)))"
    using tabled_count [OF assms(1,3)] by simp
  have other: "filter (\<lambda>q. f q = b) (xs @ zs) = filter (\<lambda>q. f q = b) (xs @ p # zs)"
    if "b \<noteq> f p" for b
    using that by simp
  show ?thesis
  proof (rule tabledI)
    show "grouped f (xs @ zs)" using tabled_grouped [OF assms(1)] by (rule grouped_remove)
  next
    fix b assume "b < length (t[f p := \<lparr>ht_count = ht_count (t ! f p) - 1, ht_chain = c\<rparr>])"
    then show "ht_count (t[f p := \<lparr>ht_count = ht_count (t ! f p) - 1, ht_chain = c\<rparr>] ! b)
        = int (length (filter (\<lambda>p. f p = b) (xs @ zs)))"
      using count other [of b] tabled_count [OF assms(1), of b]
      by (cases "b = f p") (simp_all del: filter_append)
  next
    fix b q assume "b < length (t[f p := \<lparr>ht_count = ht_count (t ! f p) - 1, ht_chain = c\<rparr>])"
      and q: "q \<in> set (xs @ zs)" "f q = b"
    then show "ht_chain (t[f p := \<lparr>ht_count = ht_count (t ! f p) - 1, ht_chain = c\<rparr>] ! b)
        = hd (filter (\<lambda>p. f p = b) (xs @ zs))"
      using c [of q] other [of b] tabled_chain [OF assms(1), of b q]
      by (cases "b = f p") (auto simp del: filter_append)
  qed
qed

subsection \<open>The table as a map\<close>

definition slot :: "(ptr \<Rightarrow> HashElem option) \<Rightarrow> nat \<Rightarrow> ptr \<Rightarrow> nat" where
  "slot c k p = unat (strHash (key_of c p)) mod k"

definition buckets :: "Hash \<Rightarrow> ptr list \<Rightarrow> bool" where
  "buckets s ps \<longleftrightarrow> (case ht s of None \<Rightarrow> True
     | Some t \<Rightarrow> 0 < length t \<and> length t < 2 ^ 32 \<and> htsize s = of_nat (length t)
         \<and> tabled t (slot (cells s) (length t)) ps)"

definition entries :: "(ptr \<Rightarrow> HashElem option) \<Rightarrow> ptr set \<Rightarrow> bool" where
  "entries c P \<longleftrightarrow> (\<forall>p \<in> P. c_string (key_of c p) \<and> data_at c p \<noteq> 0)
     \<and> inj_on (\<lambda>p. lower (key_of c p)) P"

definition content :: "(ptr \<Rightarrow> HashElem option) \<Rightarrow> ptr list \<Rightarrow> byte list \<Rightarrow> ptr option" where
  "content c ps = map_of (map (\<lambda>p. (lower (key_of c p), data_at c p)) ps)"

text \<open>
  The representation: the store holds exactly the elements of the list, no key occurs
  twice up to case, and no element has null data.
\<close>

definition repr :: "Hash \<Rightarrow> ptr list \<Rightarrow> bool" where
  "repr s ps \<longleftrightarrow> linked s ps \<and> buckets s ps \<and> entries (cells s) (set ps)
     \<and> dom (cells s) = set ps \<and> hcount s = of_nat (length ps) \<and> length ps < 2 ^ 31"

definition hit :: "(ptr \<Rightarrow> HashElem option) \<Rightarrow> byte list \<Rightarrow> ptr list \<Rightarrow> ptr" where
  "hit c k ps = (case List.find (\<lambda>p. lower (key_of c p) = lower k) ps of None \<Rightarrow> 0 | Some p \<Rightarrow> p)"

lemma folded_table: "sqlite3UpperToLower ! unat c = tolower c"
  using tolower_eq [of c] by (simp add: sqlite3Tolower_def)

lemma strHash_folds:
  "c_string k \<Longrightarrow> c_string l \<Longrightarrow> lower k = lower l \<Longrightarrow> strHash_loop h k = strHash_loop h l"
proof (induction k arbitrary: l h)
  case Nil
  then show ?case by (cases l) auto
next
  case (Cons c k)
  then obtain d l' where "l = d # l'" by (cases l) auto
  with Cons.prems have eq: "c \<noteq> 0" "d \<noteq> 0" "tolower c = tolower d" "lower k = lower l'"
    "c_string k" "c_string l'" by auto
  with Cons.IH [OF eq(5,6,4)] show ?case unfolding \<open>l = d # l'\<close>
    by (simp only: strHash_loop.simps folded_table if_False)
qed

lemma strHash_folded:
  "c_string k \<Longrightarrow> c_string l \<Longrightarrow> lower k = lower l \<Longrightarrow> strHash k = strHash l"
  unfolding strHash_def by (rule strHash_folds)

lemma find_loop_spec:
  "dseg (cells s) pr (ys @ zs) nx \<Longrightarrow> (\<forall>p \<in> set ys. c_string (key_of (cells s) p)) \<Longrightarrow> c_string k
   \<Longrightarrow> find_loop s k (length ys) (headz (ys @ zs) nx) = Some (hit (cells s) k ys)"
proof (induction ys arbitrary: pr)
  case Nil
  then show ?case by (simp add: hit_def)
next
  case (Cons p ys)
  then obtain e where e: "p \<noteq> 0" "cells s p = Some e" "elem_next e = headz (ys @ zs) nx"
    by auto
  then have key: "key_of (cells s) p = elem_key e" by (simp add: key_of_def kd_def)
  with Cons.prems have "c_string (elem_key e)" by simp
  with stricmp_zero_less [of "elem_key e" k] Cons.prems
  have "sqlite3StrICmp (elem_key e) k = 0 \<longleftrightarrow> lower (elem_key e) = lower k" by simp
  with Cons e key show ?case by (auto simp: hit_def deref_def)
qed

lemma hit_filter:
  "(\<And>p. p \<in> set ps \<Longrightarrow> lower (key_of c p) = lower k \<Longrightarrow> P p) \<Longrightarrow> hit c k (filter P ps) = hit c k ps"
proof -
  assume "\<And>p. p \<in> set ps \<Longrightarrow> lower (key_of c p) = lower k \<Longrightarrow> P p"
  then have "List.find (\<lambda>p. lower (key_of c p) = lower k) (filter P ps)
      = List.find (\<lambda>p. lower (key_of c p) = lower k) ps"
    by (induction ps) auto
  then show ?thesis by (simp add: hit_def)
qed

lemma hit_cases:
  assumes "0 \<notin> set ps"
  shows "(hit c k ps = 0 \<and> content c ps (lower k) = None \<and> (\<forall>p \<in> set ps. lower (key_of c p) \<noteq> lower k))
    \<or> (hit c k ps \<noteq> 0 \<and> hit c k ps \<in> set ps \<and> lower (key_of c (hit c k ps)) = lower k
       \<and> content c ps (lower k) = Some (data_at c (hit c k ps)))"
  using assms by (induction ps) (auto simp: hit_def content_def)

lemma window_split:
  assumes "grouped f ps"
  shows "ps = takeWhile (\<lambda>p. f p \<noteq> b) ps @ filter (\<lambda>p. f p = b) ps
    @ dropWhile (\<lambda>p. f p = b) (dropWhile (\<lambda>p. f p \<noteq> b) ps)"
  unfolding grouped_window [OF assms, of b] by simp

lemma reprD:
  assumes "repr s ps"
  shows "dseg (cells s) 0 ps 0" "hfirst s = headz ps 0" "distinct ps" "buckets s ps"
    "entries (cells s) (set ps)" "dom (cells s) = set ps" "hcount s = of_nat (length ps)"
    "length ps < 2 ^ 31" "0 \<notin> set ps" "linked s ps"
  using assms dseg_cells [of "cells s" 0 ps 0] by (auto simp: repr_def linked_def)

definition hash_index :: "Hash \<Rightarrow> byte list \<Rightarrow> nat" where
  "hash_index s k = (case ht s of None \<Rightarrow> 0 | Some t \<Rightarrow> unat (strHash k) mod length t)"

lemma unat_length: "length xs < 2 ^ 32 \<Longrightarrow> unat (of_nat (length xs) :: u32) = length xs"
  by (simp add: unat_of_nat)

lemma hash_mod: "length (t :: ht_entry list) < 2 ^ 32 \<Longrightarrow>
    unat (strHash k mod of_nat (length t)) = unat (strHash k) mod length t"
  by (simp add: unat_mod_distrib unat_length)

lemma count_int32: "m < 2 ^ 31 \<Longrightarrow> c_int32 (uint (of_nat m :: u32)) = int m"
proof -
  assume "m < 2 ^ 31"
  then have "unat (of_nat m :: u32) = m" by (simp add: unat_of_nat)
  then have "uint (of_nat m :: u32) = int m" by (metis uint_nat)
  then show ?thesis using \<open>m < 2 ^ 31\<close> by (simp add: in_int32_def)
qed

lemma find_spec:
  assumes "repr s ps" and "c_string k"
  shows "findElementWithHash s k = Some (hit (cells s) k ps, hash_index s k)"
proof (cases "ht s")
  case None
  have keys: "\<forall>p \<in> set ps. c_string (key_of (cells s) p)"
    using reprD(5) [OF assms(1)] by (simp add: entries_def)
  have "find_loop s k (length ps) (headz (ps @ []) 0) = Some (hit (cells s) k ps)"
    by (rule find_loop_spec [of s 0 ps "[]" 0 k])
      (use reprD(1) [OF assms(1)] keys assms(2) in simp_all)
  with None show ?thesis using count_int32 [OF reprD(8) [OF assms(1)]]
      reprD(2,7) [OF assms(1)]
    by (simp add: findElementWithHash_def hash_index_def Let_def)
next
  case (Some t)
  define b where "b = unat (strHash k) mod length t"
  let ?f = "slot (cells s) (length t)"
  let ?ys = "filter (\<lambda>p. ?f p = b) ps"
  from reprD(4) [OF assms(1)] Some have t: "0 < length t" "length t < 2 ^ 32"
    "htsize s = of_nat (length t)" "tabled t ?f ps" by (auto simp: buckets_def)
  have b: "b < length t" using t(1) by (simp add: b_def)
  have keys: "\<forall>p \<in> set ps. c_string (key_of (cells s) p)"
    using reprD(5) [OF assms(1)] by (simp add: entries_def)
  have split: "ps = takeWhile (\<lambda>p. ?f p \<noteq> b) ps @ ?ys
    @ dropWhile (\<lambda>p. ?f p = b) (dropWhile (\<lambda>p. ?f p \<noteq> b) ps)" (is "_ = ?xs @ _ @ ?zs")
    by (rule window_split) (rule tabled_grouped [OF t(4)])
  have "dseg (cells s) 0 (?xs @ ?ys @ ?zs) 0" using reprD(1) [OF assms(1)] split by simp
  then have seg: "dseg (cells s) (lastz 0 ?xs) (?ys @ ?zs) 0" by simp
  have "hit (cells s) k ?ys = hit (cells s) k ps"
  proof (rule hit_filter)
    fix p assume "p \<in> set ps" "lower (key_of (cells s) p) = lower k"
    with keys assms(2) strHash_folded [of "key_of (cells s) p" k] show "?f p = b"
      by (simp add: slot_def b_def)
  qed
  moreover have "find_loop s k (length ?ys) (headz (?ys @ ?zs) 0) = Some (hit (cells s) k ?ys)"
    by (rule find_loop_spec [OF seg _ assms(2)]) (use keys in auto)
  moreover have "?ys \<noteq> [] \<Longrightarrow> ht_chain (t ! b) = headz (?ys @ ?zs) 0"
  proof -
    assume ne: "?ys \<noteq> []"
    then have "hd ?ys \<in> set ?ys" by (rule hd_in_set)
    then have "ht_chain (t ! b) = hd ?ys" using tabled_chain [OF t(4) b, of "hd ?ys"] by auto
    with ne show ?thesis by (cases ?ys) auto
  qed
  ultimately have "find_loop s k (length ?ys) (ht_chain (t ! b)) = Some (hit (cells s) k ps)"
    by (cases "?ys = []") (auto simp: hit_def)
  then show ?thesis using Some t b tabled_count [OF t(4) b]
    by (simp add: findElementWithHash_def hash_index_def bucket_def Let_def hash_mod b_def)
qed

subsection \<open>Linking and resizing\<close>

lemma kd_eq_key: "kd c = kd c' \<Longrightarrow> key_of c = key_of c'"
  by (simp add: key_of_def fun_eq_iff)

lemma kd_eq_data: "kd c = kd c' \<Longrightarrow> data_at c = data_at c'"
  by (simp add: data_at_def fun_eq_iff)

lemma kd_eq_slot: "kd c = kd c' \<Longrightarrow> slot c = slot c'"
  by (drule kd_eq_key) (simp add: slot_def fun_eq_iff)

lemma kd_eq_dom: "kd c = kd c' \<Longrightarrow> dom c = dom c'"
proof -
  assume "kd c = kd c'"
  then have "kd c p = None \<longleftrightarrow> kd c' p = None" for p by simp
  then show ?thesis by (auto simp: kd_def dom_def)
qed

lemmas kd_eq = kd_eq_key kd_eq_data kd_eq_slot kd_eq_dom

text \<open>The bucket of an element, if the table has buckets.\<close>

definition own_bucket :: "Hash \<Rightarrow> ptr \<Rightarrow> nat option" where
  "own_bucket s p = map_option (\<lambda>t. slot (cells s) (length t) p) (ht s)"

definition frame :: "ptr set \<Rightarrow> Hash \<Rightarrow> Hash \<Rightarrow> bool" where
  "frame P s s' \<longleftrightarrow> kd (cells s') = kd (cells s) \<and> hcount s' = hcount s \<and> htsize s' = htsize s
     \<and> map_option length (ht s') = map_option length (ht s)
     \<and> (\<forall>q. q \<notin> P \<longrightarrow> cells s' q = cells s q)"

lemma frame_refl: "frame P s s"
  by (simp add: frame_def)

lemma frame_trans: "frame P s s' \<Longrightarrow> frame Q s' s'' \<Longrightarrow> frame (P \<union> Q) s s''"
  by (simp add: frame_def)

lemma insertElement_spec:
  assumes "linked s ps" and "buckets s ps" and "p \<noteq> 0" and "cells s p = Some e"
    and "p \<notin> set ps"
  shows "\<exists>s' xs zs. insertElement (own_bucket s p) p s = Some s' \<and> ps = xs @ zs
    \<and> linked s' (xs @ p # zs) \<and> buckets s' (xs @ p # zs) \<and> frame (insert p (set ps)) s s'"
proof (cases "ht s")
  case None
  have "\<exists>s'. link_before 0 p s = Some s' \<and> linked s' ([] @ p # ps) \<and> same_table s s'
    \<and> (\<forall>q. q \<notin> set ([] @ p # ps) \<longrightarrow> cells s' q = cells s q)"
    by (rule link_before_spec) (use assms in auto)
  then obtain s' where s': "link_before 0 p s = Some s'" "linked s' ([] @ p # ps)"
    "same_table s s'" "\<forall>q. q \<notin> set ([] @ p # ps) \<longrightarrow> cells s' q = cells s q" by blast
  have "insertElement (own_bucket s p) p s = Some s'"
    using None s'(1) by (simp add: insertElement_def own_bucket_def)
  moreover have "buckets s' ([] @ p # ps)" "frame (insert p (set ps)) s s'"
    using s'(3,4) None by (simp_all add: same_table_def buckets_def frame_def)
  ultimately show ?thesis using s'(2) by blast
next
  case (Some t)
  let ?f = "slot (cells s) (length t)"
  let ?t = "t[?f p := \<lparr>ht_count = ht_count (t ! ?f p) + 1, ht_chain = p\<rparr>]"
  define s1 where "s1 = s\<lparr>ht := Some ?t\<rparr>"
  from assms(2) Some have t: "0 < length t" "length t < 2 ^ 32"
    "htsize s = of_nat (length t)" "tabled t ?f ps" by (auto simp: buckets_def)
  have b: "?f p < length t" using t(1) by (simp add: slot_def)
  have ins: "insertElement (own_bucket s p) p s =
      link_before (if ht_count (t ! ?f p) \<noteq> 0 then ht_chain (t ! ?f p) else 0) p s1"
    using b Some by (simp add: insertElement_def own_bucket_def bucket_def set_bucket_def s1_def)
  have s1: "linked s1 ps" "cells s1 p = Some e" "cells s1 = cells s" "ht s1 = Some ?t"
    "hcount s1 = hcount s" "htsize s1 = htsize s"
    using assms by (simp_all add: s1_def linked_def)
  define h where "h = (if ht_count (t ! ?f p) \<noteq> 0 then ht_chain (t ! ?f p) else 0)"
  have "\<exists>xs zs. ps = xs @ zs \<and> ((h = 0 \<and> xs = []) \<or> (zs \<noteq> [] \<and> h = hd zs))
    \<and> tabled ?t ?f (xs @ p # zs)"
  proof (cases "\<exists>q \<in> set ps. ?f q = ?f p")
    case False
    then have "filter (\<lambda>q. ?f q = ?f p) ps = []" by (auto simp: filter_empty_conv)
    then have "h = 0" using tabled_count [OF t(4) b] by (simp add: h_def)
    moreover have "tabled ?t ?f (p # ps)"
      by (rule tabled_add_front [OF t(4) b]) (use False in auto)
    ultimately have "ps = [] @ ps \<and> ((h = 0 \<and> ([] :: ptr list) = []) \<or> (ps \<noteq> [] \<and> h = hd ps))
      \<and> tabled ?t ?f ([] @ p # ps)" by simp
    then show ?thesis by blast
  next
    case True
    then obtain q where q: "q \<in> set ps" "?f q = ?f p" by blast
    let ?ys = "filter (\<lambda>q. ?f q = ?f p) ps"
    from q obtain z ys where ys: "?ys = z # ys" by (cases ?ys) (auto simp: filter_empty_conv)
    then have "z \<in> set ?ys" by simp
    then have z: "?f z = ?f p" by simp
    define xs where "xs = takeWhile (\<lambda>q. ?f q \<noteq> ?f p) ps"
    define rest where "rest = ys @ dropWhile (\<lambda>q. ?f q = ?f p) (dropWhile (\<lambda>q. ?f q \<noteq> ?f p) ps)"
    have split: "ps = xs @ z # rest"
      using window_split [OF tabled_grouped [OF t(4)], of "?f p"] ys
      by (simp add: xs_def rest_def)
    have "\<forall>q \<in> set xs. ?f q \<noteq> ?f z"
      unfolding xs_def z by (auto dest: set_takeWhileD)
    then have "tabled ?t ?f (xs @ p # z # rest)"
      by (intro tabled_add) (use t(4) split z b in auto)
    moreover have "ht_count (t ! ?f p) \<noteq> 0"
      using tabled_count [OF t(4) b] ys by (simp del: of_nat_Suc)
    then have "h = z" using tabled_chain [OF t(4) b q] ys by (simp add: h_def)
    ultimately show ?thesis using split by (metis list.discI list.sel(1))
  qed
  then obtain xs zs where xz: "ps = xs @ zs" "(h = 0 \<and> xs = []) \<or> (zs \<noteq> [] \<and> h = hd zs)"
    "tabled ?t ?f (xs @ p # zs)" by blast
  have "\<exists>s'. link_before h p s1 = Some s' \<and> linked s' (xs @ p # zs) \<and> same_table s1 s'
    \<and> (\<forall>q. q \<notin> set (xs @ p # zs) \<longrightarrow> cells s' q = cells s1 q)"
    by (rule link_before_spec) (use assms s1 xz in auto)
  then obtain s' where s': "link_before h p s1 = Some s'" "linked s' (xs @ p # zs)"
    "same_table s1 s'" "\<forall>q. q \<notin> set (xs @ p # zs) \<longrightarrow> cells s' q = cells s1 q" by blast
  have "kd (cells s') = kd (cells s)" using s'(3) s1 by (simp add: same_table_def)
  then have "slot (cells s') = slot (cells s)" by (rule kd_eq_slot)
  then have "buckets s' (xs @ p # zs)"
    using s'(3) s1 xz(3) t by (simp add: same_table_def buckets_def)
  moreover have "frame (insert p (set ps)) s s'"
    using s'(3,4) s1 xz(1) Some by (auto simp: same_table_def frame_def)
  ultimately show ?thesis using s' ins xz(1) unfolding h_def by metis
qed

lemma rehash_loop_spec:
  assumes "linked s ps" and "buckets s ps" and "map_option length (ht s) = Some m"
    and "dseg (cells s) pr rs 0" and "distinct rs" and "set rs \<inter> set ps = {}"
  shows "\<exists>s' ps'. rehash_loop m (headz rs 0) s = Some s' \<and> linked s' ps' \<and> buckets s' ps'
    \<and> set ps' = set ps \<union> set rs \<and> frame (set ps \<union> set rs) s s'"
  using assms
proof (induction rs arbitrary: s ps pr)
  case Nil
  then show ?case by (auto simp: rehash_loop.simps [of m 0] frame_refl)
next
  case (Cons r rs)
  then obtain e where e: "r \<noteq> 0" "cells s r = Some e" "elem_next e = headz rs 0"
    and rs: "dseg (cells s) r rs 0" by auto
  have "r \<notin> set ps" using Cons.prems by auto
  from insertElement_spec [OF Cons.prems(1,2) e(1,2) this]
  obtain s1 xs zs where s1: "insertElement (own_bucket s r) r s = Some s1" "ps = xs @ zs"
    "linked s1 (xs @ r # zs)" "buckets s1 (xs @ r # zs)" "frame (insert r (set ps)) s s1"
    by blast
  have own: "own_bucket s r = Some (unat (strHash (elem_key e)) mod m)"
    using Cons.prems(3) e by (auto simp: own_bucket_def slot_def key_of_def kd_def)
  have "dseg (cells s1) r rs 0 = dseg (cells s) r rs 0"
    by (rule dseg_cong) (use s1(5) Cons.prems(5,6) in \<open>auto simp: frame_def\<close>)
  then have "dseg (cells s1) r rs 0" using rs by simp
  moreover have "map_option length (ht s1) = Some m"
    using s1(5) Cons.prems(3) by (simp add: frame_def)
  moreover have "set rs \<inter> set (xs @ r # zs) = {}" "distinct rs" using Cons.prems s1(2) by auto
  ultimately obtain s' ps' where s': "rehash_loop m (headz rs 0) s1 = Some s'" "linked s' ps'"
    "buckets s' ps'" "set ps' = set (xs @ r # zs) \<union> set rs"
    "frame (set (xs @ r # zs) \<union> set rs) s1 s'"
    using Cons.IH [OF s1(3,4)] by blast
  have "rehash_loop m (headz (r # rs) 0) s = Some s'"
    using e s1(1) s'(1) own by (simp add: rehash_loop.simps [of m r] deref_def)
  moreover have "frame (insert r (set ps) \<union> (set (xs @ r # zs) \<union> set rs)) s s'"
    using frame_trans [OF s1(5) s'(5)] .
  moreover have "insert r (set ps) \<union> (set (xs @ r # zs) \<union> set rs) = set ps \<union> set (r # rs)"
    "set ps' = set ps \<union> set (r # rs)"
    using s1(2) s'(4) by auto
  ultimately show ?case using s'(2,3) by metis
qed

text \<open>
  What the table relies on from the allocator: no block of size zero, and a usable size
  of at least what was asked for and below two gigabytes.
\<close>

definition alloc_ok :: "(nat \<Rightarrow> nat option) \<Rightarrow> bool" where
  "alloc_ok al \<longleftrightarrow> al 0 = None \<and> (\<forall>k sz. al k = Some sz \<longrightarrow> k \<le> sz \<and> sz < 2 ^ 31)"

lemma alloc_buckets:
  assumes "alloc_ok al" and "al (unat (w :: u32) * sizeof_ht) = Some sz"
  shows "0 < sz div sizeof_ht" and "sz div sizeof_ht < 2 ^ 32"
proof -
  have "unat w \<noteq> 0" using assms by (cases "unat w = 0") (auto simp: alloc_ok_def)
  moreover have "unat w * 16 \<le> sz" "sz < 2 ^ 31"
    using assms by (auto simp: alloc_ok_def sizeof_ht_def)
  ultimately show "0 < sz div sizeof_ht" "sz div sizeof_ht < 2 ^ 32"
    by (simp_all add: sizeof_ht_def div_greater_zero_iff)
qed

lemma rehash_spec:
  assumes "linked s ps" and "buckets s ps" and "alloc_ok al"
  shows "\<exists>r s' ps'. rehash al w s = Some (r, s') \<and> linked s' ps' \<and> buckets s' ps'
    \<and> set ps' = set ps \<and> kd (cells s') = kd (cells s) \<and> hcount s' = hcount s
    \<and> (\<forall>q. q \<notin> set ps \<longrightarrow> cells s' q = cells s q)
    \<and> (r \<longrightarrow> ht s' \<noteq> None) \<and> (\<not> r \<longrightarrow> s' = s)"
proof -
  define w' where "w' = (if unat w * sizeof_ht > SQLITE_MALLOC_SOFT_LIMIT
    then of_nat (SQLITE_MALLOC_SOFT_LIMIT div sizeof_ht) else w)"
  show ?thesis
  proof (cases "w' = htsize s \<or> al (unat w' * sizeof_ht) = None")
    case True
    then have "rehash al w s = Some (False, s)"
      by (auto simp: rehash_def Let_def w'_def [symmetric])
    with assms show ?thesis by auto
  next
    case False
    then obtain sz where sz: "al (unat w' * sizeof_ht) = Some sz" by auto
    define m where "m = sz div sizeof_ht"
    note m = alloc_buckets [OF assms(3) sz, folded m_def]
    define s0 where "s0 = s\<lparr>ht := Some (replicate m \<lparr>ht_count = 0, ht_chain = 0\<rparr>),
      htsize := of_nat m, hfirst := 0\<rparr>"
    have s0: "linked s0 []" "buckets s0 []" "map_option length (ht s0) = Some m"
      using m by (simp_all add: s0_def linked_def buckets_def tabled_empty)
    moreover have "dseg (cells s0) 0 ps 0" "distinct ps" "set ps \<inter> set [] = {}"
      using assms(1) by (simp_all add: s0_def linked_def)
    ultimately obtain s' ps' where s': "rehash_loop m (headz ps 0) s0 = Some s'" "linked s' ps'"
      "buckets s' ps'" "set ps' = set [] \<union> set ps" "frame (set [] \<union> set ps) s0 s'"
      using rehash_loop_spec [of s0 "[]" m 0 ps] by blast
    have "rehash al w s = Some (True, s')"
      using False sz s'(1) assms(1)
      by (simp add: rehash_def Let_def w'_def [symmetric] m_def [symmetric] s0_def linked_def)
    moreover have "ht s' \<noteq> None" using s'(5) s0(3) by (auto simp: frame_def)
    moreover have "kd (cells s') = kd (cells s)" "hcount s' = hcount s"
      "\<forall>q. q \<notin> set ps \<longrightarrow> cells s' q = cells s q"
      using s'(5) by (simp_all add: frame_def s0_def)
    ultimately show ?thesis using s'(2-4)
      by (intro exI [of _ True] exI [of _ s'] exI [of _ ps']) simp
  qed
qed

subsection \<open>Removal\<close>

lemma unlink_spec:
  assumes "linked s (xs @ p # zs)" and "cells s p = Some e"
  shows "\<exists>s'. unlink e s = Some s' \<and> linked s' (xs @ zs) \<and> same_table s s'
    \<and> elem_next e = headz zs 0"
  using assms
  by (cases xs rule: rev_cases; cases zs) (auto simp: unlink_def store_ops)

lemma entries_cong: "(\<And>p. p \<in> P \<Longrightarrow> kd c p = kd c' p) \<Longrightarrow> entries c P = entries c' P"
proof -
  assume eq: "\<And>p. p \<in> P \<Longrightarrow> kd c p = kd c' p"
  then have "key_of c p = key_of c' p" "data_at c p = data_at c' p" if "p \<in> P" for p
    using that by (simp_all add: key_of_def data_at_def)
  then show ?thesis by (simp add: entries_def cong: inj_on_cong)
qed

lemma entries_subset: "entries c P \<Longrightarrow> Q \<subseteq> P \<Longrightarrow> entries c Q"
  by (auto simp: entries_def dest: inj_on_subset)

lemma content_iff:
  "entries c (set ps) \<Longrightarrow> content c ps k = Some d
    \<longleftrightarrow> (\<exists>p \<in> set ps. lower (key_of c p) = k \<and> data_at c p = d)"
proof (induction ps)
  case Nil
  then show ?case by (simp add: content_def)
next
  case (Cons p ps)
  have "entries c (set ps)" by (rule entries_subset [OF Cons.prems]) auto
  note IH = Cons.IH [OF this]
  have "q = p" if "q \<in> set ps" "lower (key_of c q) = lower (key_of c p)" for q
    using Cons.prems that by (auto simp: entries_def inj_on_def)
  with IH show ?case by (auto simp: content_def)
qed

lemma content_eqI:
  "entries c (set ps) \<Longrightarrow> (\<And>k d. m k = Some d
     \<longleftrightarrow> (\<exists>p \<in> set ps. lower (key_of c p) = k \<and> data_at c p = d)) \<Longrightarrow> content c ps = m"
proof (rule ext)
  fix k
  assume "entries c (set ps)" and m: "\<And>k d. m k = Some d
     \<longleftrightarrow> (\<exists>p \<in> set ps. lower (key_of c p) = k \<and> data_at c p = d)"
  then have "content c ps k = Some d \<longleftrightarrow> m k = Some d" for d by (simp add: content_iff)
  then show "content c ps k = m k" by (metis not_Some_eq)
qed

lemma unlink_keeps: "unlink e s = Some s' \<Longrightarrow> ht s' = ht s"
  by (auto simp: unlink_def set_next_def set_prev_def split: if_splits bind_splits)

lemma clear_loop_spec:
  "dseg (cells s) pr ps 0 \<Longrightarrow> distinct ps \<Longrightarrow>
   \<exists>s'. clear_loop (headz ps 0) s = Some s' \<and> hfirst s' = hfirst s \<and> ht s' = ht s
     \<and> htsize s' = htsize s \<and> cells s' = (\<lambda>q. if q \<in> set ps then None else cells s q)"
proof (induction ps arbitrary: s pr)
  case Nil
  then show ?case by (simp add: clear_loop.simps [of 0])
next
  case (Cons p ps)
  define s1 where "s1 = s\<lparr>cells := (cells s)(p := None)\<rparr>"
  from Cons.prems obtain e where e: "p \<noteq> 0" "cells s p = Some e" "elem_next e = headz ps 0"
    and ps: "dseg (cells s) p ps 0" "p \<notin> set ps" "distinct ps" by auto
  have "dseg (cells s1) p ps 0" using ps by (simp add: s1_def)
  from Cons.IH [OF this ps(3)] obtain s' where s': "clear_loop (headz ps 0) s1 = Some s'"
    "hfirst s' = hfirst s1" "ht s' = ht s1" "htsize s' = htsize s1"
    "cells s' = (\<lambda>q. if q \<in> set ps then None else cells s1 q)" by blast
  have "clear_loop (headz (p # ps) 0) s = Some s'"
    using e s'(1) by (simp add: clear_loop.simps [of p] deref_def free_elem_def s1_def)
  with s'(2-5) show ?case by (auto simp: s1_def fun_eq_iff)
qed

lemma repr_empty: "hfirst s = 0 \<Longrightarrow> ht s = None \<Longrightarrow> hcount s = 0 \<Longrightarrow> cells s = Map.empty
    \<Longrightarrow> repr s []"
  by (simp add: repr_def linked_def buckets_def entries_def)

lemma HashClear_spec:
  assumes "linked s ps" and "dom (cells s) \<subseteq> set ps"
  shows "\<exists>s'. sqlite3HashClear s = Some s' \<and> repr s' [] \<and> ht s' = None \<and> cells s' = Map.empty"
proof -
  define s0 where "s0 = s\<lparr>hfirst := 0, ht := None, htsize := 0\<rparr>"
  have "dseg (cells s0) 0 ps 0" "distinct ps" using assms(1) by (simp_all add: linked_def s0_def)
  from clear_loop_spec [OF this] obtain s' where s': "clear_loop (headz ps 0) s0 = Some s'"
    "hfirst s' = 0" "ht s' = None"
    "cells s' = (\<lambda>q. if q \<in> set ps then None else cells s0 q)" by (auto simp: s0_def)
  have "q \<notin> set ps \<Longrightarrow> cells s0 q = None" for q using assms(2) by (auto simp: s0_def)
  then have "cells s' = Map.empty" using s'(4) by auto
  moreover have "sqlite3HashClear s = Some (s'\<lparr>hcount := 0\<rparr>)"
    using assms(1) s'(1) by (simp add: sqlite3HashClear_def linked_def s0_def [symmetric])
  ultimately show ?thesis using s'(2,3) by (simp add: repr_empty)
qed

lemma content_remove:
  assumes "entries c (set (xs @ p # zs))" and "distinct (xs @ p # zs)"
  shows "content c (xs @ zs) = (content c (xs @ p # zs))(lower (key_of c p) := None)"
proof (rule content_eqI)
  show "entries c (set (xs @ zs))" by (rule entries_subset [OF assms(1)]) auto
  fix k d
  have "q = p" if "q \<in> set (xs @ p # zs)" "lower (key_of c q) = lower (key_of c p)" for q
    using assms(1) that by (auto simp: entries_def inj_on_def)
  with assms content_iff [OF assms(1), of k d]
  show "((content c (xs @ p # zs))(lower (key_of c p) := None)) k = Some d
    \<longleftrightarrow> (\<exists>q \<in> set (xs @ zs). lower (key_of c q) = k \<and> data_at c q = d)" by auto
qed

lemma content_cong: "(\<And>p. p \<in> set ps \<Longrightarrow> kd c p = kd c' p) \<Longrightarrow> content c ps = content c' ps"
proof -
  assume "\<And>p. p \<in> set ps \<Longrightarrow> kd c p = kd c' p"
  then have "map (\<lambda>p. (lower (key_of c p), data_at c p)) ps
      = map (\<lambda>p. (lower (key_of c' p), data_at c' p)) ps"
    by (intro map_cong) (simp_all add: key_of_def data_at_def)
  then show ?thesis unfolding content_def by (rule arg_cong)
qed

lemma remove_spec:
  assumes "repr s (xs @ p # zs)" and "ht s \<noteq> None \<Longrightarrow> own_bucket s p = Some h"
  shows "\<exists>s'. removeElementGivenHash p h s = Some s' \<and> repr s' (xs @ zs)
    \<and> content (cells s') (xs @ zs)
        = (content (cells s) (xs @ p # zs))(lower (key_of (cells s) p) := None)"
proof -
  note r = reprD [OF assms(1)]
  have "p \<noteq> 0" using r(9) by auto
  have "p \<in> dom (cells s)" using r(6) by simp
  then obtain e where e: "cells s p = Some e" by auto
  from unlink_spec [OF r(10) e] obtain s1 where s1: "unlink e s = Some s1" "linked s1 (xs @ zs)"
    "same_table s s1" "elem_next e = headz zs 0" by blast
  have kd1: "kd (cells s1) = kd (cells s)" using s1(3) by (simp add: same_table_def)
  define s2 where "s2 = (case ht s of None \<Rightarrow> s1 | Some t \<Rightarrow> s1\<lparr>ht := Some
    (t[h := \<lparr>ht_count = ht_count (t ! h) - 1,
       ht_chain = (if ht_chain (t ! h) = p then headz zs 0 else ht_chain (t ! h))\<rparr>])\<rparr>)"
  define s3 where "s3 = s2\<lparr>cells := (cells s1)(p := None), hcount := hcount s - 1\<rparr>"
  have cells2: "cells s2 = cells s1" by (simp add: s2_def split: option.split)
  have "p \<in> dom (cells s1)" using kd_eq_dom [OF kd1] \<open>p \<in> dom (cells s)\<close> by simp
  then obtain e1 where e1: "cells s1 p = Some e1" by auto
  have same: "kd (cells s3) q = kd (cells s) q" if "q \<noteq> p" for q
    using that kd1 by (simp add: s3_def kd_def fun_eq_iff)
  have dist: "distinct (xs @ p # zs)" using r(3) .
  then have pn: "p \<notin> set (xs @ zs)" by simp
  have bk: "bucket s1 h = Some (t ! h) \<and> h < length t" if "ht s = Some t" for t
  proof -
    from r(4) that have "0 < length t" by (simp add: buckets_def)
    then have "h < length t" using assms(2) that by (auto simp: own_bucket_def slot_def)
    then show ?thesis using that s1(3) by (simp add: bucket_def same_table_def)
  qed
  have run: "removeElementGivenHash p h s = (if hcount s3 = 0 then sqlite3HashClear s3 else Some s3)"
  proof (cases "ht s")
    case None
    then have "ht s1 = None" using s1(3) by (simp add: same_table_def)
    with None e e1 s1(1,3) \<open>p \<noteq> 0\<close> show ?thesis
      by (simp add: removeElementGivenHash_def deref_def free_elem_def s3_def s2_def
          same_table_def Let_def)
  next
    case (Some t)
    then have "ht s1 = Some t" using s1(3) by (simp add: same_table_def)
    with Some e e1 s1(1,3,4) \<open>p \<noteq> 0\<close> bk [OF Some] show ?thesis
      by (simp add: removeElementGivenHash_def deref_def free_elem_def s3_def s2_def
          same_table_def Let_def set_bucket_def)
  qed
  have "linked s3 (xs @ zs)"
    using s1(2) pn by (simp add: s3_def linked_def s2_def split: option.split)
  moreover have "buckets s3 (xs @ zs)"
  proof (cases "ht s")
    case None
    then show ?thesis using s1(3) by (simp add: buckets_def s3_def s2_def same_table_def)
  next
    case (Some t)
    let ?f = "slot (cells s) (length t)"
    from r(4) Some have t: "0 < length t" "length t < 2 ^ 32"
      "htsize s = of_nat (length t)" "tabled t ?f (xs @ p # zs)" by (auto simp: buckets_def)
    have h: "?f p = h" using assms(2) Some by (simp add: own_bucket_def)
    have "?f p < length t" using t(1) by (simp add: slot_def)
    from tabled_remove [OF t(4) dist this refl, of 0]
    have "tabled (t[h := \<lparr>ht_count = ht_count (t ! h) - 1,
       ht_chain = (if ht_chain (t ! h) = p then headz zs 0 else ht_chain (t ! h))\<rparr>]) ?f (xs @ zs)"
      unfolding h .
    moreover have "slot (cells s3) (length t) q = ?f q" if "q \<in> set (xs @ zs)" for q
    proof -
      have "q \<noteq> p" using that pn by auto
      from same [OF this] show ?thesis by (simp add: slot_def key_of_def)
    qed
    ultimately show ?thesis using Some s1(3) t tabled_cong [of "xs @ zs" ?f "slot (cells s3) (length t)"]
      by (simp add: buckets_def s3_def s2_def same_table_def)
  qed
  moreover have sub: "\<And>q. q \<in> set (xs @ zs) \<Longrightarrow> kd (cells s3) q = kd (cells s) q"
    using same pn by metis
  have "entries (cells s) (set (xs @ zs))" by (rule entries_subset [OF r(5)]) auto
  then have "entries (cells s3) (set (xs @ zs))" using entries_cong [OF sub] by blast
  moreover have "dom (cells s3) = set (xs @ zs)"
    using kd_eq_dom [OF kd1] r(6) pn by (auto simp: s3_def)
  moreover have "hcount s3 = of_nat (length (xs @ zs))" "length (xs @ zs) < 2 ^ 31"
    using r(7,8) by (simp_all add: s3_def)
  ultimately have rep: "repr s3 (xs @ zs)" by (simp add: repr_def)
  have cont: "content (cells s3) (xs @ zs)
        = (content (cells s) (xs @ p # zs))(lower (key_of (cells s) p) := None)"
    unfolding content_cong [OF sub, of "xs @ zs", simplified] content_remove [OF r(5) dist] ..
  show ?thesis
  proof (cases "hcount s3 = 0")
    case False
    with run rep cont show ?thesis by simp
  next
    case True
    have "hcount s3 = of_nat (length (xs @ zs))" using reprD(7) [OF rep] .
    then have "unat (of_nat (length (xs @ zs)) :: u32) = 0" using True by simp
    then have nil: "xs = []" "zs = []"
      using reprD(8) [OF rep] unat_length [of "xs @ zs"] by simp_all
    obtain s' where "sqlite3HashClear s3 = Some s'" "repr s' []"
      using HashClear_spec [OF reprD(10) [OF rep] equalityD1 [OF reprD(6) [OF rep]]] by blast
    then show ?thesis using True run cont nil by (simp add: content_def)
  qed
qed

subsection \<open>Insertion\<close>

text \<open>The contract: what the caller sees of an insertion into a map keyed by folded names.\<close>

definition table_insert ::
    "bool \<Rightarrow> 'k \<Rightarrow> ptr \<Rightarrow> ('k \<Rightarrow> ptr option) \<Rightarrow> ptr \<times> ('k \<Rightarrow> ptr option)" where
  "table_insert oom k d m =
     (case m k of
        Some old \<Rightarrow> (old, m(k := (if d = 0 then None else Some d)))
      | None \<Rightarrow> (if d = 0 then (0, m) else if oom then (d, m) else (0, m(k \<mapsto> d))))"

lemma content_perm:
  assumes "entries c (set ps)" and "set ps' = set ps" and "kd c' = kd c"
  shows "content c' ps' = content c ps"
proof (rule content_eqI)
  have "entries c' (set ps)" using entries_cong [of "set ps" c' c] assms by simp
  then show "entries c' (set ps')" using assms(2) by simp
  fix k d
  show "content c ps k = Some d
    \<longleftrightarrow> (\<exists>p \<in> set ps'. lower (key_of c' p) = k \<and> data_at c' p = d)"
    using content_iff [OF assms(1)] assms(2) kd_eq_key [OF assms(3)] kd_eq_data [OF assms(3)]
    by simp
qed

lemma entries_add:
  assumes "entries c (set ps)" and "p \<notin> set ps" and "kd c' p = Some (k, d)"
    and "\<And>q. q \<in> set ps \<Longrightarrow> kd c' q = kd c q" and "c_string k" and "d \<noteq> 0"
    and "\<forall>q \<in> set ps. lower (key_of c q) \<noteq> lower k" and "set ps' = insert p (set ps)"
  shows "entries c' (set ps')" and "content c' ps' = (content c ps)(lower k \<mapsto> d)"
proof -
  have old: "key_of c' q = key_of c q \<and> data_at c' q = data_at c q" if "q \<in> set ps" for q
    using assms(4) [OF that] by (simp add: key_of_def data_at_def)
  have new: "key_of c' p = k" "data_at c' p = d"
    using assms(3) by (simp_all add: key_of_def data_at_def)
  have "inj_on (\<lambda>p. lower (key_of c' p)) (set ps) = inj_on (\<lambda>p. lower (key_of c p)) (set ps)"
    by (rule inj_on_cong) (simp add: old)
  then show ent: "entries c' (set ps')"
    unfolding assms(8) using assms(1,2,5,6,7) old new
    by (auto simp: entries_def inj_on_insert)
  show "content c' ps' = (content c ps)(lower k \<mapsto> d)"
  proof (rule content_eqI [OF ent])
    fix l v
    have "content c ps l = Some v
      \<longleftrightarrow> (\<exists>q \<in> set ps. lower (key_of c' q) = l \<and> data_at c' q = v)"
      using content_iff [OF assms(1), of l v] old by auto
    moreover have "\<forall>q \<in> set ps. lower (key_of c' q) \<noteq> lower k" using assms(7) old by simp
    ultimately show "((content c ps)(lower k \<mapsto> d)) l = Some v
      \<longleftrightarrow> (\<exists>q \<in> set ps'. lower (key_of c' q) = l \<and> data_at c' q = v)"
      unfolding assms(8) using new by (auto simp: assms(8))
  qed
qed

lemma bucket_of_key: "kd (cells s) p = Some (k, d) \<Longrightarrow>
    own_bucket s p = (if ht s \<noteq> None then Some (hash_index s k) else None)"
  by (auto simp: own_bucket_def slot_def hash_index_def key_of_def)

lemma hash_index_kd: "buckets s ps \<Longrightarrow> ht s \<noteq> None \<Longrightarrow>
    unat (strHash k mod htsize s) = hash_index s k"
  by (auto simp: buckets_def hash_index_def hash_mod)

lemma add_element:
  assumes "repr s ps" and "c_string k" and "d \<noteq> 0" and "alloc_ok al"
    and "p \<noteq> 0" and "cells s p = None" and "length ps < 2 ^ 31 - 1"
    and "\<forall>q \<in> set ps. lower (key_of (cells s) q) \<noteq> lower k"
    and "s1 = s\<lparr>cells := (cells s)
           (p \<mapsto> \<lparr>elem_next = 0, elem_prev = 0, elem_data = d, elem_key = k\<rparr>),
           hcount := hcount s + 1\<rparr>"
  shows "\<exists>s' ps'. do { (h, s) \<leftarrow>
        (if hcount s1 \<ge> 10 \<and> hcount s1 > 2 * htsize s1 then
           do { (done, s) \<leftarrow> rehash al (hcount s1 * 2) s1;
                Some (if done then unat (strHash k mod htsize s) else hash_index s1 k, s) }
         else Some (hash_index s1 k, s1));
      s \<leftarrow> insertElement (if ht s \<noteq> None then Some h else None) p s;
      Some (0 :: ptr, s) } = Some (0, s')
    \<and> repr s' ps' \<and> content (cells s') ps' = (content (cells s) ps)(lower k \<mapsto> d)"
proof -
  note r = reprD [OF assms(1)]
  have pn: "p \<notin> set ps" using assms(6) r(6) by auto
  have kdp: "kd (cells s1) p = Some (k, d)" and kdo: "q \<noteq> p \<Longrightarrow> kd (cells s1) q = kd (cells s) q" for q
    using assms(9) by (simp_all add: kd_def)
  have l1: "linked s1 ps" using r(10) pn assms(9) by (simp add: linked_def)
  have b1: "buckets s1 ps"
  proof (cases "ht s")
    case (Some t)
    have "slot (cells s1) (length t) q = slot (cells s) (length t) q" if "q \<in> set ps" for q
      using that pn kdo [of q] by (cases "q = p") (simp_all add: slot_def key_of_def)
    then show ?thesis using Some r(4) assms(9)
        tabled_cong [of ps "slot (cells s1) (length t)" "slot (cells s) (length t)"]
      by (simp add: buckets_def)
  qed (use assms(9) in \<open>simp add: buckets_def\<close>)
  have "\<exists>s2 ps2. (if hcount s1 \<ge> 10 \<and> hcount s1 > 2 * htsize s1 then
           do { (done, s) \<leftarrow> rehash al (hcount s1 * 2) s1;
                Some (if done then unat (strHash k mod htsize s) else hash_index s1 k, s) }
         else Some (hash_index s1 k, s1)) = Some (hash_index s2 k, s2)
    \<and> linked s2 ps2 \<and> buckets s2 ps2 \<and> set ps2 = set ps \<and> kd (cells s2) = kd (cells s1)
    \<and> hcount s2 = hcount s1 \<and> cells s2 p = cells s1 p"
  proof -
    from rehash_spec [OF l1 b1 assms(4), of "hcount s1 * 2"] obtain g s2 ps2 where
      s2: "rehash al (hcount s1 * 2) s1 = Some (g, s2)" "linked s2 ps2" "buckets s2 ps2"
      "set ps2 = set ps" "kd (cells s2) = kd (cells s1)" "hcount s2 = hcount s1"
      "\<forall>q. q \<notin> set ps \<longrightarrow> cells s2 q = cells s1 q" "g \<longrightarrow> ht s2 \<noteq> None" "\<not> g \<longrightarrow> s2 = s1"
      by blast
    have "(if g then unat (strHash k mod htsize s2) else hash_index s1 k) = hash_index s2 k"
      using s2(8,9) hash_index_kd [OF s2(3)] by simp
    with s2 pn have "do { (done, s) \<leftarrow> rehash al (hcount s1 * 2) s1;
        Some (if done then unat (strHash k mod htsize s) else hash_index s1 k, s) }
        = Some (hash_index s2 k, s2)" by simp
    then show ?thesis using s2 l1 b1 pn by (metis (no_types, lifting))
  qed
  then obtain s2 ps2 where s2: "(if hcount s1 \<ge> 10 \<and> hcount s1 > 2 * htsize s1 then
           do { (done, s) \<leftarrow> rehash al (hcount s1 * 2) s1;
                Some (if done then unat (strHash k mod htsize s) else hash_index s1 k, s) }
         else Some (hash_index s1 k, s1)) = Some (hash_index s2 k, s2)"
    "linked s2 ps2" "buckets s2 ps2" "set ps2 = set ps" "kd (cells s2) = kd (cells s1)"
    "hcount s2 = hcount s1" "cells s2 p = cells s1 p" by blast
  obtain e where e: "cells s2 p = Some e" using s2(7) assms(9) by auto
  have kd2: "kd (cells s2) p = Some (k, d)" using s2(5) kdp by simp
  from insertElement_spec [OF s2(2,3) assms(5) e] pn s2(4) obtain s' xs zs where
    s': "insertElement (own_bucket s2 p) p s2 = Some s'" "ps2 = xs @ zs"
    "linked s' (xs @ p # zs)" "buckets s' (xs @ p # zs)" "frame (insert p (set ps2)) s2 s'"
    by blast
  have kd': "kd (cells s') = kd (cells s1)" using s'(5) s2(5) by (simp add: frame_def)
  have set': "set (xs @ p # zs) = insert p (set ps)" using s'(2) s2(4) by auto
  have old: "\<And>q. q \<in> set ps \<Longrightarrow> kd (cells s') q = kd (cells s) q"
  proof -
    fix q assume "q \<in> set ps"
    then have "q \<noteq> p" using pn by auto
    then show "kd (cells s') q = kd (cells s) q" using kd' kdo by simp
  qed
  have kdp': "kd (cells s') p = Some (k, d)" using kd' kdp by simp
  note add = entries_add [OF r(5) pn kdp' old assms(2,3,8) set']
  have "card (set ps2) = card (set ps)" using s2(4) by simp
  then have len: "length ps2 = length ps"
    using r(3) s2(2) by (simp add: distinct_card linked_def)
  have "dom (cells s1) = insert p (set ps)" using r(6) assms(9) by simp
  then have "dom (cells s') = set (xs @ p # zs)" using kd_eq_dom [OF kd'] set' by simp
  moreover have "hcount s' = of_nat (length (xs @ p # zs))" "length (xs @ p # zs) < 2 ^ 31"
    using s'(2,5) s2(6) r(7) assms(7,9) len by (simp_all add: frame_def)
  ultimately have "repr s' (xs @ p # zs)"
    using s'(3,4) add(1) by (simp add: repr_def)
  moreover have "insertElement (if ht s2 \<noteq> None then Some (hash_index s2 k) else None) p s2
      = Some s'"
    using bucket_of_key [OF kd2] s'(1) by simp
  ultimately show ?thesis using s2(1) add(2)
    by (intro exI [of _ s'] exI [of _ "xs @ p # zs"]) simp
qed

lemma content_card:
  assumes "entries c (set ps)" and "distinct ps"
  shows "card (dom (content c ps)) = length ps"
proof -
  have "dom (content c ps) = (\<lambda>p. lower (key_of c p)) ` set ps"
    using content_iff [OF assms(1)] by auto
  moreover have "inj_on (\<lambda>p. lower (key_of c p)) (set ps)"
    using assms(1) by (simp add: entries_def)
  ultimately show ?thesis using assms(2) by (simp add: card_image distinct_card)
qed

lemma HashInsert_spec:
  assumes rep: "repr s ps" and k: "c_string k" and al: "alloc_ok al"
    and new: "p = 0 \<or> cells s p = None" and len: "length ps < 2 ^ 31 - 1"
  shows "\<exists>r s' ps'. sqlite3HashInsert al p k d s = Some (r, s') \<and> repr s' ps'
    \<and> table_insert (p = 0) (lower k) d (content (cells s) ps) = (r, content (cells s') ps')"
proof -
  note r = reprD [OF rep] and find = find_spec [OF rep k]
  consider (none) "hit (cells s) k ps = 0" "content (cells s) ps (lower k) = None"
      "\<forall>q \<in> set ps. lower (key_of (cells s) q) \<noteq> lower k"
    | (some) "hit (cells s) k ps \<noteq> 0" "hit (cells s) k ps \<in> set ps"
      "lower (key_of (cells s) (hit (cells s) k ps)) = lower k"
      "content (cells s) ps (lower k) = Some (data_at (cells s) (hit (cells s) k ps))"
    using hit_cases [OF r(9), of "cells s" k] by meson
  then show ?thesis
  proof cases
    case none
    show ?thesis
    proof (cases "d = 0 \<or> p = 0")
      case True
      then have "sqlite3HashInsert al p k d s = Some (d, s)"
        using none(1) find by (auto simp: sqlite3HashInsert_def data_of_def)
      then show ?thesis using True none(2) rep by (auto simp: table_insert_def)
    next
      case False
      define s1 where "s1 = s\<lparr>cells := (cells s)
           (p \<mapsto> \<lparr>elem_next = 0, elem_prev = 0, elem_data = d, elem_key = k\<rparr>),
           hcount := hcount s + 1\<rparr>"
      have hi: "hash_index s k = hash_index s1 k" by (simp add: hash_index_def s1_def)
      have "sqlite3HashInsert al p k d s = do { (h, s) \<leftarrow>
        (if hcount s1 \<ge> 10 \<and> hcount s1 > 2 * htsize s1 then
           do { (done, s) \<leftarrow> rehash al (hcount s1 * 2) s1;
                Some (if done then unat (strHash k mod htsize s) else hash_index s1 k, s) }
         else Some (hash_index s1 k, s1));
      s \<leftarrow> insertElement (if ht s \<noteq> None then Some h else None) p s;
      Some (0 :: ptr, s) }"
        using none(1) find False unfolding hi
        by (simp add: sqlite3HashInsert_def data_of_def Let_def s1_def [symmetric])
      note run = this
      have "d \<noteq> 0" "p \<noteq> 0" "cells s p = None" using False new by auto
      from add_element [OF rep k this(1) al this(2,3) len none(3) s1_def] obtain s' ps' where
        "sqlite3HashInsert al p k d s = Some (0, s')" "repr s' ps'"
        "content (cells s') ps' = (content (cells s) ps)(lower k \<mapsto> d)"
        unfolding run by blast
      then show ?thesis using none(2) False by (auto simp: table_insert_def)
    qed
  next
    case some
    define q where "q = hit (cells s) k ps"
    note some = some [folded q_def] and find = find [folded q_def]
    have "q \<in> dom (cells s)" using r(6) some(2) by simp
    then obtain e where e: "cells s q = Some e" by auto
    have old: "data_at (cells s) q = elem_data e" "key_of (cells s) q = elem_key e"
      using e by (simp_all add: data_at_def key_of_def kd_def)
    have "elem_data e \<noteq> 0" using r(5) some(2) old by (auto simp: entries_def)
    have kq: "c_string (key_of (cells s) q)" using r(5) some(2) by (simp add: entries_def)
    show ?thesis
    proof (cases "d = 0")
      case True
      obtain xs zs where ps: "ps = xs @ q # zs" using some(2) by (auto simp: in_set_conv_decomp)
      have "strHash (key_of (cells s) q) = strHash k"
        by (rule strHash_folded [OF kq k some(3)])
      then have "ht s \<noteq> None \<Longrightarrow> own_bucket s q = Some (hash_index s k)"
        by (auto simp: own_bucket_def slot_def hash_index_def)
      from remove_spec [OF rep [unfolded ps] this] obtain s' where
        s': "removeElementGivenHash q (hash_index s k) s = Some s'" "repr s' (xs @ zs)"
        "content (cells s') (xs @ zs)
          = (content (cells s) ps)(lower (key_of (cells s) q) := None)" unfolding ps by blast
      have "sqlite3HashInsert al p k d s = Some (elem_data e, s')"
        using find True some(1) e s'(1) \<open>elem_data e \<noteq> 0\<close>
        by (simp add: sqlite3HashInsert_def data_of_def deref_def)
      then show ?thesis using s'(2,3) some(3,4) True old by (auto simp: table_insert_def)
    next
      case False
      define s' where "s' = s\<lparr>cells := (cells s)(q \<mapsto> e\<lparr>elem_data := d, elem_key := k\<rparr>)\<rparr>"
      have run: "sqlite3HashInsert al p k d s = Some (elem_data e, s')"
        using find False some(1) e \<open>elem_data e \<noteq> 0\<close>
        by (simp add: sqlite3HashInsert_def data_of_def deref_def s'_def)
      have keys: "lower (key_of (cells s') x) = lower (key_of (cells s) x)"
        "strHash (key_of (cells s') x) = strHash (key_of (cells s) x)" for x
        using some(3) old strHash_folded [OF kq k some(3)]
        by (simp_all add: s'_def key_of_def kd_def)
      have data: "data_at (cells s') x = (if x = q then d else data_at (cells s) x)" for x
        by (simp add: s'_def data_at_def kd_def)
      have "dseg (cells s') pr xs nx = dseg (cells s) pr xs nx" for pr xs nx
        using e by (induction xs arbitrary: pr) (auto simp: s'_def)
      then have "linked s' ps" using r(10) by (simp add: linked_def s'_def)
      have "slot (cells s') = slot (cells s)" by (simp add: slot_def keys fun_eq_iff)
      moreover have "ht s' = ht s" "htsize s' = htsize s" by (simp_all add: s'_def)
      ultimately have "buckets s' ps" using r(4) by (simp add: buckets_def split: option.splits)
      have ent: "entries (cells s') (set ps)"
        using r(5) k False by (auto simp: entries_def keys data) (auto simp: s'_def key_of_def kd_def)
      note \<open>linked s' ps\<close> \<open>buckets s' ps\<close> ent
      moreover have "dom (cells s') = set ps" using r(6) some(2) by (auto simp: s'_def)
      moreover have "hcount s' = of_nat (length ps)" using r(7) by (simp add: s'_def)
      ultimately have "repr s' ps" using r(8) by (simp add: repr_def)
      moreover have "content (cells s') ps = (content (cells s) ps)(lower k \<mapsto> d)"
      proof (rule content_eqI [OF ent])
        fix l v
        have uniq: "x = q" if "x \<in> set ps" "lower (key_of (cells s) x) = lower k" for x
          using that r(5) some(2,3) by (auto simp: entries_def inj_on_def)
        show "((content (cells s) ps)(lower k \<mapsto> d)) l = Some v \<longleftrightarrow>
          (\<exists>p \<in> set ps. lower (key_of (cells s') p) = l \<and> data_at (cells s') p = v)"
        proof (cases "l = lower k")
          case True
          have "(lower (key_of (cells s) x) = lower k \<and> (if x = q then d else data_at (cells s) x) = v)
              = (x = q \<and> d = v)" if "x \<in> set ps" for x
            using uniq [OF that] some(3) by (cases "x = q") auto
          then have "(\<exists>x \<in> set ps. lower (key_of (cells s) x) = lower k
              \<and> (if x = q then d else data_at (cells s) x) = v) = (\<exists>x \<in> set ps. x = q \<and> d = v)"
            by (rule bex_cong [OF refl])
          then show ?thesis unfolding keys data True using some(2) by simp
        next
          case False
          have eq: "(lower (key_of (cells s) x) = l \<and> (if x = q then d else data_at (cells s) x) = v)
              = (lower (key_of (cells s) x) = l \<and> data_at (cells s) x = v)" for x
            using some(3) False by (cases "x = q") simp_all
          show ?thesis unfolding keys data eq using content_iff [OF r(5), of l v] False by simp
        qed
      qed
      ultimately show ?thesis using run some(4) False old by (auto simp: table_insert_def)
    qed
  qed
qed

subsection \<open>The contract of a keyed table\<close>

text \<open>
  What a client of a table relies on, whatever the table is made of: a relation \<open>R\<close> to a
  map that the operations simulate. The environment \<open>e\<close> stands for the allocator; it
  decides by \<open>oom e s\<close> whether a new entry can be had. A table holds fewer than \<open>2^31\<close>
  entries.
\<close>

fun table_run :: "bool list \<Rightarrow> ('k \<times> ptr) list \<Rightarrow> ('k \<Rightarrow> ptr option)
    \<Rightarrow> ptr list \<times> ('k \<Rightarrow> ptr option)" where
  "table_run (oom # ooms) ((k, d) # kds) m =
     (let (r, m) = table_insert oom k d m; (rs, m) = table_run ooms kds m in (r # rs, m))"
| "table_run _ _ m = ([], m)"

fun ops_run :: "('k \<Rightarrow> ptr \<Rightarrow> 's \<Rightarrow> (ptr \<times> 's) option) \<Rightarrow> ('k \<times> ptr) list \<Rightarrow> 's
    \<Rightarrow> (ptr list \<times> 's) option" where
  "ops_run ins [] s = Some ([], s)"
| "ops_run ins ((k, d) # kds) s =
     do { (r, s) \<leftarrow> ins k d s; (rs, s) \<leftarrow> ops_run ins kds s; Some (r # rs, s) }"

lemma table_insert_card:
  "finite (dom m) \<Longrightarrow> table_insert oom k d m = (r, m') \<Longrightarrow>
    finite (dom m') \<and> card (dom m') \<le> Suc (card (dom m))"
  by (auto simp: table_insert_def card_insert_if card_Diff_singleton_if
      split: option.splits if_splits)

locale keyed_table =
  fixes R :: "'s \<Rightarrow> ('n \<Rightarrow> ptr option) \<Rightarrow> bool"
    and valid :: "'k \<Rightarrow> bool" and name :: "'k \<Rightarrow> 'n"
    and env_ok :: "'e \<Rightarrow> bool" and oom :: "'e \<Rightarrow> 's \<Rightarrow> bool"
    and find :: "'s \<Rightarrow> 'k \<Rightarrow> ptr option"
    and ins :: "'e \<Rightarrow> 'k \<Rightarrow> ptr \<Rightarrow> 's \<Rightarrow> (ptr \<times> 's) option"
  assumes R_finite: "R s m \<Longrightarrow> finite (dom m)"
    and find_law: "R s m \<Longrightarrow> valid k \<Longrightarrow>
      find s k = Some (case m (name k) of None \<Rightarrow> 0 | Some d \<Rightarrow> d)"
    and ins_law: "R s m \<Longrightarrow> valid k \<Longrightarrow> env_ok e \<Longrightarrow> card (dom m) < 2 ^ 31 - 1 \<Longrightarrow>
      \<exists>r s' m'. ins e k d s = Some (r, s') \<and> R s' m' \<and> table_insert (oom e s) (name k) d m = (r, m')"
begin

lemma run_simulates:
  "R s m \<Longrightarrow> env_ok e \<Longrightarrow> \<forall>(k, d) \<in> set kds. valid k \<Longrightarrow> card (dom m) + length kds < 2 ^ 31 \<Longrightarrow>
   \<exists>rs s' ooms m'. ops_run (ins e) kds s = Some (rs, s') \<and> R s' m' \<and> length ooms = length kds
     \<and> table_run ooms (map (\<lambda>(k, d). (name k, d)) kds) m = (rs, m')"
proof (induction kds arbitrary: s m)
  case Nil
  then show ?case by auto
next
  case (Cons kd kds)
  obtain k d where kd: "kd = (k, d)" by (cases kd)
  with Cons.prems obtain r s1 m1 where one: "ins e k d s = Some (r, s1)" "R s1 m1"
    "table_insert (oom e s) (name k) d m = (r, m1)"
    using ins_law [of s m k e d] by auto
  have "card (dom m1) \<le> Suc (card (dom m))"
    using table_insert_card [OF R_finite [OF Cons.prems(1)] one(3)] by simp
  then obtain rs s' ooms m' where "ops_run (ins e) kds s1 = Some (rs, s')" "R s' m'"
    "length ooms = length kds"
    "table_run ooms (map (\<lambda>(k, d). (name k, d)) kds) m1 = (rs, m')"
    using Cons.IH [OF one(2) Cons.prems(2)] Cons.prems by auto
  with one kd show ?case
    by (intro exI [of _ "r # rs"] exI [of _ s'] exI [of _ "oom e s # ooms"] exI [of _ m']) simp
qed

lemma found_after_insert:
  assumes "R s m" and "valid k" and "valid l" and "env_ok e" and "card (dom m) < 2 ^ 31 - 1"
    and "ins e k d s = Some (r, s')" and "\<not> oom e s"
  shows "find s' l = (if name l = name k then Some d else find s l)"
proof -
  from ins_law [OF assms(1,2,4,5), of d] assms(6,7) obtain m' where m': "R s' m'"
    "table_insert False (name k) d m = (r, m')" by auto
  show ?thesis using m'(2)
    unfolding find_law [OF m'(1) assms(3)] find_law [OF assms(1,3)]
    by (auto simp: table_insert_def split: option.splits if_splits)
qed

end

text \<open>
  The environment of a table: the allocator of bucket arrays, and a choice of a free
  address (or null) for each new element.
\<close>

type_synonym hash_env = "(nat \<Rightarrow> nat option) \<times> (Hash \<Rightarrow> ptr)"

definition hash_env_ok :: "hash_env \<Rightarrow> bool" where
  "hash_env_ok e \<longleftrightarrow> alloc_ok (fst e) \<and> (\<forall>s. snd e s = 0 \<or> cells s (snd e s) = None)"

definition hash_oom :: "hash_env \<Rightarrow> Hash \<Rightarrow> bool" where
  "hash_oom e s \<longleftrightarrow> snd e s = 0"

definition hash_insert :: "hash_env \<Rightarrow> byte list \<Rightarrow> ptr \<Rightarrow> Hash \<Rightarrow> (ptr \<times> Hash) option" where
  "hash_insert e k d s = sqlite3HashInsert (fst e) (snd e s) k d s"

definition hash_rel :: "Hash \<Rightarrow> (byte list \<Rightarrow> ptr option) \<Rightarrow> bool" where
  "hash_rel s m \<longleftrightarrow> (\<exists>ps. repr s ps \<and> m = content (cells s) ps)"

definition empty_hash :: Hash where
  "empty_hash = sqlite3HashInit \<lparr>htsize = 0, hcount = 0, hfirst = 0, ht = None, cells = Map.empty\<rparr>"

lemma empty_hash_rel: "hash_rel empty_hash Map.empty"
  unfolding hash_rel_def
  by (rule exI [of _ "[]"])
    (simp add: empty_hash_def sqlite3HashInit_def repr_empty content_def)

lemma find_data:
  assumes "repr s ps" and "c_string k"
  shows "sqlite3HashFind s k
    = Some (case content (cells s) ps (lower k) of None \<Rightarrow> 0 | Some d \<Rightarrow> d)"
proof -
  note r = reprD [OF assms(1)]
  from hit_cases [OF r(9), of "cells s" k] show ?thesis
  proof (elim disjE conjE)
    assume h: "hit (cells s) k ps \<noteq> 0" "hit (cells s) k ps \<in> set ps"
      "content (cells s) ps (lower k) = Some (data_at (cells s) (hit (cells s) k ps))"
    then have "hit (cells s) k ps \<in> dom (cells s)" using r(6) by simp
    then obtain e where e: "cells s (hit (cells s) k ps) = Some e" by auto
    then have "data_at (cells s) (hit (cells s) k ps) = elem_data e"
      by (simp add: data_at_def kd_def)
    with e h find_spec [OF assms] show ?thesis
      by (simp add: sqlite3HashFind_def data_of_def deref_def)
  qed (simp add: sqlite3HashFind_def find_spec [OF assms] data_of_def)
qed

interpretation symtab: keyed_table hash_rel c_string lower hash_env_ok hash_oom
  sqlite3HashFind hash_insert
proof unfold_locales
  fix s m k e d
  assume "hash_rel s m"
  then obtain ps where ps: "repr s ps" "m = content (cells s) ps" by (auto simp: hash_rel_def)
  note r = reprD [OF ps(1)]
  have card: "card (dom m) = length ps" unfolding ps(2) by (rule content_card [OF r(5,3)])
  show "finite (dom m)" unfolding ps(2) content_def by (rule finite_dom_map_of)
  show "c_string k \<Longrightarrow> sqlite3HashFind s k = Some (case m (lower k) of None \<Rightarrow> 0 | Some d \<Rightarrow> d)"
    unfolding ps(2) by (rule find_data [OF ps(1)])
  assume "c_string k" "hash_env_ok e" "card (dom m) < 2 ^ 31 - 1"
  then have "alloc_ok (fst e)" "snd e s = 0 \<or> cells s (snd e s) = None" "length ps < 2 ^ 31 - 1"
    using card by (simp_all add: hash_env_ok_def)
  from HashInsert_spec [OF ps(1) \<open>c_string k\<close> this, of d]
  show "\<exists>r s' m'. hash_insert e k d s = Some (r, s') \<and> hash_rel s' m'
    \<and> table_insert (hash_oom e s) (lower k) d m = (r, m')"
    unfolding hash_insert_def hash_rel_def hash_oom_def ps(2) by blast
qed

subsection \<open>Properties\<close>


definition small_env :: hash_env where
  "small_env = (\<lambda>k. None, \<lambda>s. if cells s 16 = None then 16 else if cells s 48 = None then 48 else 0)"

lemma small_env_ok: "hash_env_ok small_env"
  by (simp add: hash_env_ok_def small_env_def alloc_ok_def)


text \<open>
  What was inserted last is found: after a successful insertion a lookup of the key in any
  case returns the new data (null after a removal), and every other name is found as before.
\<close>

theorem hash_find_after_insert:
  assumes "hash_rel s m" and "c_string k" and "c_string l" and "hash_env_ok e"
    and "card (dom m) < 2 ^ 31 - 1" and "hash_insert e k d s = Some (r, s')" and "\<not> hash_oom e s"
  shows "sqlite3HashFind s' l = (if lower l = lower k then Some d else sqlite3HashFind s l)"
  using assms by (rule symtab.found_after_insert)

theorem hash_find_after_insert_witness:
  "\<exists>r s'. hash_insert small_env [0x74] 5 empty_hash = Some (r, s')
    \<and> sqlite3HashFind s' [0x54] = Some 5"
proof -
  obtain r s' where run: "hash_insert small_env [0x74] 5 empty_hash = Some (r, s')"
    using symtab.ins_law [OF empty_hash_rel, of "[0x74]" small_env 5] small_env_ok by auto
  have "sqlite3HashFind s' [0x54]
      = (if lower [0x54] = lower [0x74] then Some 5 else sqlite3HashFind empty_hash [0x54])"
    by (rule hash_find_after_insert [OF empty_hash_rel _ _ small_env_ok _ run])
      (simp_all add: hash_oom_def small_env_def empty_hash_def sqlite3HashInit_def)
  then show ?thesis using run by (simp add: tolower_def)
qed

end
