(* ===== verification/Rowset.thy ===== *)
theory Rowset
  imports Prelude "HOL-Library.Tree" "HOL-Library.Monad_Syntax"
begin

section \<open>Sets of rowids\<close>

text \<open>
  \<open>rowset.c\<close>: the object in which a statement collects rowids. Rowids are inserted in any
  order into a list; extraction sorts the list once (a merge sort over 40 buckets that
  drops duplicates) and hands the rowids out in order; a membership test of a new batch
  turns the list into balanced search trees kept in a forest.

  An entry is on one list or in one tree at a time and no entry is shared, so a list of
  entries is the list of its rowids and a tree is a \<^typ>\<open>int tree\<close>. \<open>pLast\<close> is the rowid
  of the last entry. \<open>pChunk\<close> counts the allocated chunks. A violated assertion, and an
  access past the 40 buckets, make the result \<open>None\<close>. The boolean argument of an operation
  is whether the allocator serves it, should it ask for a chunk.
\<close>

subsection \<open>Data\<close>

definition ROWSET_ALLOCATION_SIZE :: nat where "ROWSET_ALLOCATION_SIZE = 1024"
definition sizeof_RowSetEntry :: nat where "sizeof_RowSetEntry = 24"

definition ROWSET_ENTRY_PER_CHUNK :: nat where
  "ROWSET_ENTRY_PER_CHUNK = (ROWSET_ALLOCATION_SIZE - 8) div sizeof_RowSetEntry"

definition ROWSET_SORTED :: u16 where "ROWSET_SORTED = 0x01"
definition ROWSET_NEXT :: u16 where "ROWSET_NEXT = 0x02"

record RowSet =
  pChunk :: nat
  pEntry :: "int list"
  pLast :: "int option"
  pForest :: "int tree list"
  nFresh :: u16
  rsFlags :: u16
  iBatch :: int

text \<open>\<open>sizeof(RowSet)\<close> is 56, and \<open>msize\<close> the usable size of its block.\<close>

definition sqlite3RowSetInit :: "nat \<Rightarrow> RowSet" where
  "sqlite3RowSetInit msize =
     \<lparr>pChunk = 0, pEntry = [], pLast = None, pForest = [],
      nFresh = of_nat ((msize - 56) div sizeof_RowSetEntry),
      rsFlags = ROWSET_SORTED, iBatch = 0\<rparr>"

definition sqlite3RowSetClear :: "RowSet \<Rightarrow> RowSet" where
  "sqlite3RowSetClear p =
     p\<lparr>pChunk := 0, nFresh := 0, pEntry := [], pLast := None, pForest := [],
       rsFlags := ROWSET_SORTED\<rparr>"

text \<open>The destructor; its value is the number of blocks it gives back.\<close>

definition sqlite3RowSetDelete :: "RowSet \<Rightarrow> nat" where
  "sqlite3RowSetDelete p = (pChunk p - pChunk (sqlite3RowSetClear p)) + 1"

definition rowSetEntryAlloc :: "bool \<Rightarrow> RowSet \<Rightarrow> bool \<times> RowSet" where
  "rowSetEntryAlloc ok p =
     (if nFresh p = 0 \<and> \<not> ok then (False, p)
      else let p = (if nFresh p = 0
                    then p\<lparr>pChunk := pChunk p + 1, nFresh := of_nat ROWSET_ENTRY_PER_CHUNK\<rparr>
                    else p)
           in (True, p\<lparr>nFresh := nFresh p - 1\<rparr>))"

definition sqlite3RowSetInsert :: "bool \<Rightarrow> int \<Rightarrow> RowSet \<Rightarrow> RowSet option" where
  "sqlite3RowSetInsert ok rowid p =
     (if rsFlags p AND ROWSET_NEXT \<noteq> 0 then None
      else let (got, p) = rowSetEntryAlloc ok p in
        if \<not> got then Some p
        else
          (case pLast p of
             Some v \<Rightarrow>
               Some (p\<lparr>rsFlags := (if rowid \<le> v then rsFlags p AND NOT ROWSET_SORTED
                                   else rsFlags p),
                       pEntry := pEntry p @ [rowid], pLast := Some rowid\<rparr>)
           | None \<Rightarrow> Some (p\<lparr>pEntry := [rowid], pLast := Some rowid\<rparr>)))"

subsection \<open>Merge sort\<close>

text \<open>The loop leaves through one of its two \<open>break\<close>s, when a list has run out.\<close>

fun rowSetEntryMerge :: "int list \<Rightarrow> int list \<Rightarrow> int list" where
  "rowSetEntryMerge [] pB = pB"
| "rowSetEntryMerge pA [] = pA"
| "rowSetEntryMerge (x # pA) (y # pB) =
     (if x \<le> y
      then (if x < y then x # rowSetEntryMerge pA (y # pB) else rowSetEntryMerge pA (y # pB))
      else y # rowSetEntryMerge (x # pA) pB)"

text \<open>
  Filing one entry: \<open>for(i=0; aBucket[i]; i++)\<close> merges the occupied buckets into it and
  empties them. Past the last bucket the loop would read outside the array.
\<close>

fun sort_file :: "int list list \<Rightarrow> int list \<Rightarrow> int list list option" where
  "sort_file [] pIn = None"
| "sort_file (b # aBucket) pIn =
     (if b \<noteq> [] then map_option ((#) []) (sort_file aBucket (rowSetEntryMerge b pIn))
      else Some (pIn # aBucket))"

fun sort_loop :: "int list \<Rightarrow> int list list \<Rightarrow> int list list option" where
  "sort_loop [] aBucket = Some aBucket"
| "sort_loop (x # pIn) aBucket =
     do { aBucket \<leftarrow> sort_file aBucket [x]; sort_loop pIn aBucket }"

fun sort_collect :: "int list \<Rightarrow> int list list \<Rightarrow> int list" where
  "sort_collect pIn [] = pIn"
| "sort_collect pIn (b # aBucket) =
     sort_collect (if b = [] then pIn else if pIn \<noteq> [] then rowSetEntryMerge pIn b else b) aBucket"

definition rowSetEntrySort :: "int list \<Rightarrow> int list option" where
  "rowSetEntrySort pIn =
     do { aBucket \<leftarrow> sort_loop pIn (replicate 40 []);
          Some (sort_collect (hd aBucket) (tl aBucket)) }"

subsection \<open>Trees\<close>

fun rowSetTreeToList :: "int tree \<Rightarrow> int list" where
  "rowSetTreeToList Leaf = []"
| "rowSetTreeToList (Node l v r) =
     (if l \<noteq> Leaf then rowSetTreeToList l @ [v] else [v])
     @ (if r \<noteq> Leaf then rowSetTreeToList r else [])"

fun rowSetNDeepTree :: "int list \<Rightarrow> nat \<Rightarrow> int tree \<times> int list" where
  "rowSetNDeepTree [] iDepth = (Leaf, [])"
| "rowSetNDeepTree (x # xs) iDepth =
     (if iDepth > 1 then
        (case rowSetNDeepTree (x # xs) (iDepth - 1) of
           (pLeft, []) \<Rightarrow> (pLeft, [])
         | (pLeft, v # rest) \<Rightarrow>
             (case rowSetNDeepTree rest (iDepth - 1) of (r, rest) \<Rightarrow> (Node pLeft v r, rest)))
      else (Node Leaf x Leaf, xs))"

declare rowSetNDeepTree.simps(2) [simp del]

lemma NDeepTree_leaf: "d \<le> 1 \<Longrightarrow> rowSetNDeepTree (x # xs) d = (Node Leaf x Leaf, xs)"
  by (subst rowSetNDeepTree.simps(2)) simp

lemma NDeepTree_last:
  "d > 1 \<Longrightarrow> rowSetNDeepTree (x # xs) (d - 1) = (l, []) \<Longrightarrow> rowSetNDeepTree (x # xs) d = (l, [])"
  by (subst rowSetNDeepTree.simps(2)) simp

lemma NDeepTree_node:
  "d > 1 \<Longrightarrow> rowSetNDeepTree (x # xs) (d - 1) = (l, v # ys) \<Longrightarrow>
   rowSetNDeepTree ys (d - 1) = (r, zs) \<Longrightarrow> rowSetNDeepTree (x # xs) d = (Node l v r, zs)"
  by (subst rowSetNDeepTree.simps(2)) simp

text \<open>The way the routine returns, as an induction rule for what it returns.\<close>

lemma NDeepTree_induct:
  assumes "rowSetNDeepTree xs d = (t, rest)"
    and "\<And>d. P [] d Leaf []" and "\<And>x xs d. d \<le> 1 \<Longrightarrow> P (x # xs) d (Node Leaf x Leaf) xs"
    and "\<And>x xs d l. d > 1 \<Longrightarrow> P (x # xs) (d - 1) l [] \<Longrightarrow> P (x # xs) d l []"
    and "\<And>x xs d l v ys r zs. d > 1 \<Longrightarrow> P (x # xs) (d - 1) l (v # ys) \<Longrightarrow> P ys (d - 1) r zs \<Longrightarrow>
      P (x # xs) d (Node l v r) zs"
  shows "P xs d t rest"
  using assms(1)
proof (induction xs d arbitrary: t rest rule: rowSetNDeepTree.induct)
  case (1 d)
  then show ?case using assms(2) by simp
next
  case (2 x xs d)
  show ?case
  proof (cases "d > 1")
    case False
    then show ?thesis using "2.prems" assms(3) by (auto simp: NDeepTree_leaf)
  next
    case True
    obtain l ys where l: "rowSetNDeepTree (x # xs) (d - 1) = (l, ys)" by force
    show ?thesis
    proof (cases ys)
      case Nil
      have "t = l" "rest = []" using NDeepTree_last [OF True l [unfolded Nil]] "2.prems" by simp_all
      then show ?thesis using "2.IH"(1) [OF True l] assms(4) [OF True] Nil by simp
    next
      case (Cons v us)
      obtain r zs where r: "rowSetNDeepTree us (d - 1) = (r, zs)" by force
      have "t = Node l v r" "rest = zs"
        using NDeepTree_node [OF True l [unfolded Cons] r] "2.prems" by simp_all
      then show ?thesis using "2.IH"(1) [OF True l] "2.IH"(2) [OF True l [symmetric] Cons r]
          assms(5) [OF True] Cons by simp
    qed
  qed
qed

lemma NDeepTree_inorder: "rowSetNDeepTree xs d = (t, rest) \<Longrightarrow> inorder t @ rest = xs"
  by (erule NDeepTree_induct) auto

lemma NDeepTree_rest: "length (snd (rowSetNDeepTree xs d)) \<le> length xs"
  using NDeepTree_inorder [of xs d] by (metis le_add2 length_append prod.collapse)

function list_tree_loop :: "nat \<Rightarrow> int tree \<Rightarrow> int list \<Rightarrow> int tree" where
  "list_tree_loop iDepth p [] = p"
| "list_tree_loop iDepth p (v # pList) =
     (let (r, pList) = rowSetNDeepTree pList iDepth
      in list_tree_loop (iDepth + 1) (Node p v r) pList)"
  by pat_completeness auto
termination
proof (relation "measure (\<lambda>(d, p, xs). length xs)")
  fix iDepth :: nat and p :: "int tree" and v :: int and xs ys :: "int list"
    and x :: "int tree \<times> int list" and r :: "int tree"
  assume "x = rowSetNDeepTree xs iDepth" "(r, ys) = x"
  then have "ys = snd (rowSetNDeepTree xs iDepth)" by (metis snd_conv)
  with NDeepTree_rest [of xs iDepth]
  show "((iDepth + 1, Node p v r, ys), iDepth, p, v # xs) \<in> measure (\<lambda>(d, p, xs). length xs)"
    by simp
qed simp

definition rowSetListToTree :: "int list \<Rightarrow> int tree" where
  "rowSetListToTree pList =
     (case pList of [] \<Rightarrow> Leaf | x # xs \<Rightarrow> list_tree_loop 1 (Node Leaf x Leaf) xs)"

subsection \<open>Extraction and test\<close>

definition sqlite3RowSetNext :: "RowSet \<Rightarrow> (int option \<times> RowSet) option" where
  "sqlite3RowSetNext p =
     (if pForest p \<noteq> [] then None
      else do {
        p \<leftarrow> (if rsFlags p AND ROWSET_NEXT = 0 then
               do { es \<leftarrow> (if rsFlags p AND ROWSET_SORTED = 0 then rowSetEntrySort (pEntry p)
                          else Some (pEntry p));
                    Some (p\<lparr>pEntry := es, rsFlags := rsFlags p OR (ROWSET_SORTED OR ROWSET_NEXT)\<rparr>) }
             else Some p);
        case pEntry p of
          [] \<Rightarrow> Some (None, p)
        | v # es \<Rightarrow>
            let p = p\<lparr>pEntry := es\<rparr>
            in Some (Some v, if es = [] then sqlite3RowSetClear p else p) })"

text \<open>
  The walk over the forest: the list goes into the first header without a tree; the trees
  before it are emptied and merged into the list. At the end of the forest a new header is
  needed.
\<close>

fun forest_add :: "bool \<Rightarrow> int list \<Rightarrow> int tree list \<Rightarrow> RowSet \<Rightarrow> int tree list \<times> RowSet" where
  "forest_add ok p [] s =
     (case rowSetEntryAlloc ok s of
        (got, s) \<Rightarrow> (if got then [rowSetListToTree p] else [], s))"
| "forest_add ok p (t # ts) s =
     (if t = Leaf then (rowSetListToTree p # ts, s)
      else case forest_add ok (rowSetEntryMerge (rowSetTreeToList t) p) ts s of
        (ts, s) \<Rightarrow> (Leaf # ts, s))"

fun tree_search :: "int tree \<Rightarrow> int \<Rightarrow> bool" where
  "tree_search Leaf iRowid = False"
| "tree_search (Node l v r) iRowid =
     (if v < iRowid then tree_search r iRowid
      else if v > iRowid then tree_search l iRowid
      else True)"

definition sqlite3RowSetTest :: "bool \<Rightarrow> int \<Rightarrow> int \<Rightarrow> RowSet \<Rightarrow> (bool \<times> RowSet) option" where
  "sqlite3RowSetTest ok batch iRowid s =
     (if rsFlags s AND ROWSET_NEXT \<noteq> 0 then None
      else do {
        s \<leftarrow> (if batch \<noteq> iBatch s then
               do { s \<leftarrow> (if pEntry s \<noteq> [] then
                        do { es \<leftarrow> (if rsFlags s AND ROWSET_SORTED = 0
                                   then rowSetEntrySort (pEntry s) else Some (pEntry s));
                             let (forest, s) = forest_add ok es (pForest s) s;
                             Some (s\<lparr>pForest := forest, pEntry := [], pLast := None,
                                     rsFlags := rsFlags s OR ROWSET_SORTED\<rparr>) }
                      else Some s);
                    Some (s\<lparr>iBatch := batch\<rparr>) }
             else Some s);
        Some (list_ex (\<lambda>t. tree_search t iRowid) (pForest s), s) })"

subsection \<open>Sorting\<close>

abbreviation ascending :: "int list \<Rightarrow> bool" where
  "ascending xs \<equiv> sorted_wrt (<) xs"

lemma merge_set: "set (rowSetEntryMerge xs ys) = set xs \<union> set ys"
  by (induction xs ys rule: rowSetEntryMerge.induct) auto

lemma merge_ascending:
  "ascending xs \<Longrightarrow> ascending ys \<Longrightarrow> ascending (rowSetEntryMerge xs ys)"
  by (induction xs ys rule: rowSetEntryMerge.induct) (auto simp: merge_set)

lemma merge_Nil_iff: "rowSetEntryMerge xs ys = [] \<longleftrightarrow> xs = [] \<and> ys = []"
  using merge_set [of xs ys] by (metis Un_empty set_empty)

text \<open>
  The buckets are a binary counter of the entries filed: bucket \<open>i\<close> is occupied when bit
  \<open>i\<close> of the count is set.
\<close>

fun filed :: "int list list \<Rightarrow> nat" where
  "filed [] = 0"
| "filed (b # bs) = (if b = [] then 0 else 1) + 2 * filed bs"

lemma filed_bound: "filed bs < 2 ^ length bs"
  by (induction bs) auto

lemma sort_file_spec:
  "pIn \<noteq> [] \<Longrightarrow> ascending pIn \<Longrightarrow> \<forall>b \<in> set bs. ascending b \<Longrightarrow> Suc (filed bs) < 2 ^ length bs \<Longrightarrow>
   \<exists>bs'. sort_file bs pIn = Some bs' \<and> length bs' = length bs \<and> (\<forall>b \<in> set bs'. ascending b)
     \<and> filed bs' = Suc (filed bs) \<and> \<Union> (set ` set bs') = \<Union> (set ` set bs) \<union> set pIn"
proof (induction bs arbitrary: pIn)
  case (Cons b bs)
  show ?case
  proof (cases "b = []")
    case True
    with Cons.prems show ?thesis by auto
  next
    case False
    let ?m = "rowSetEntryMerge b pIn"
    have "?m \<noteq> []" "ascending ?m" using Cons.prems False
      by (auto simp: merge_Nil_iff intro: merge_ascending)
    moreover have "Suc (filed bs) < 2 ^ length bs" using Cons.prems(4) False by simp
    ultimately obtain bs' where "sort_file bs ?m = Some bs'" "length bs' = length bs"
      "\<forall>b \<in> set bs'. ascending b" "filed bs' = Suc (filed bs)"
      "\<Union> (set ` set bs') = \<Union> (set ` set bs) \<union> set ?m"
      using Cons.IH [of ?m] Cons.prems(3) by auto
    with False show ?thesis by (auto simp: merge_set)
  qed
qed simp

lemma sort_loop_spec:
  "\<forall>b \<in> set bs. ascending b \<Longrightarrow> filed bs + length xs < 2 ^ length bs \<Longrightarrow>
   \<exists>bs'. sort_loop xs bs = Some bs' \<and> length bs' = length bs \<and> (\<forall>b \<in> set bs'. ascending b)
     \<and> \<Union> (set ` set bs') = \<Union> (set ` set bs) \<union> set xs"
proof (induction xs arbitrary: bs)
  case (Cons x xs)
  have "Suc (filed bs) < 2 ^ length bs" using Cons.prems(2) by simp
  from sort_file_spec [OF _ _ Cons.prems(1) this, of "[x]"] obtain bs1 where
    bs1: "sort_file bs [x] = Some bs1" "length bs1 = length bs" "\<forall>b \<in> set bs1. ascending b"
    "filed bs1 = Suc (filed bs)" "\<Union> (set ` set bs1) = \<Union> (set ` set bs) \<union> {x}" by auto
  have "filed bs1 + length xs < 2 ^ length bs1" using Cons.prems(2) bs1 by simp
  from Cons.IH [OF bs1(3) this] bs1 show ?case by auto
qed auto

lemma sort_collect_spec:
  "ascending xs \<Longrightarrow> \<forall>b \<in> set bs. ascending b \<Longrightarrow>
   ascending (sort_collect xs bs) \<and> set (sort_collect xs bs) = set xs \<union> \<Union> (set ` set bs)"
proof (induction bs arbitrary: xs)
  case (Cons b bs)
  show ?case
    using Cons.prems Cons.IH [of xs] Cons.IH [of b] Cons.IH [of "rowSetEntryMerge xs b"]
    by (auto simp: merge_ascending merge_set)
qed simp

lemma ascending_unique:
  "ascending xs \<Longrightarrow> set xs = A \<Longrightarrow> xs = sorted_list_of_set A"
proof -
  assume "ascending xs" "set xs = A"
  moreover have "finite A" using \<open>set xs = A\<close> by auto
  ultimately show ?thesis
    by (intro strict_sorted_equal) simp_all
qed

lemma rowSetEntrySort_spec:
  assumes "length xs < 2 ^ 40"
  shows "rowSetEntrySort xs = Some (sorted_list_of_set (set xs))"
proof -
  have filed0: "filed (replicate k []) = 0" for k by (induction k) auto
  have "\<forall>b \<in> set (replicate 40 []). ascending b" by simp
  from sort_loop_spec [OF this, of xs] assms obtain bs where
    bs: "sort_loop xs (replicate 40 []) = Some bs" "length bs = 40" "\<forall>b \<in> set bs. ascending b"
    "\<Union> (set ` set bs) = set xs"
    by (auto simp: filed0 simp del: replicate.simps)
  then obtain b bs' where cons: "bs = b # bs'" by (cases bs) auto
  have "ascending (sort_collect b bs')" "set (sort_collect b bs') = set xs"
    using sort_collect_spec [of b bs'] bs cons by auto
  then have "sort_collect b bs' = sorted_list_of_set (set xs)"
    by (intro ascending_unique) simp_all
  then show ?thesis using bs(1) cons by (simp add: rowSetEntrySort_def)
qed

subsection \<open>Balanced search trees\<close>

lemma TreeToList_inorder: "rowSetTreeToList t = inorder t"
  by (induction t) auto

lemma list_tree_loop_inorder: "inorder (list_tree_loop d p xs) = inorder p @ xs"
proof (induction d p xs rule: list_tree_loop.induct)
  case (2 d p v xs)
  obtain r ys where r: "rowSetNDeepTree xs d = (r, ys)" by force
  with "2.IH" [OF refl, of r ys] NDeepTree_inorder [OF r] show ?case by simp
qed simp

lemma ListToTree_inorder: "inorder (rowSetListToTree xs) = xs"
  by (simp add: rowSetListToTree_def list_tree_loop_inorder split: list.split)

lemma NDeepTree_height:
  "rowSetNDeepTree xs d = (t, rest) \<Longrightarrow> 1 \<le> d \<longrightarrow>
     height t \<le> d \<and> (rest \<noteq> [] \<longrightarrow> complete t \<and> height t = d)"
  by (erule NDeepTree_induct) auto

lemma list_tree_loop_height:
  "complete p \<Longrightarrow> height p = d \<Longrightarrow> 1 \<le> d \<Longrightarrow>
    2 ^ height (list_tree_loop d p xs) \<le> 2 * size (list_tree_loop d p xs)"
proof (induction d p xs rule: list_tree_loop.induct)
  case (1 d p)
  have "2 \<le> (2 :: nat) ^ d" using 1 by (cases d) auto
  then show ?case using 1 by (simp add: size_if_complete)
next
  case (2 d p v xs)
  obtain r ys where r: "rowSetNDeepTree xs d = (r, ys)" by force
  note h = NDeepTree_height [OF r] and sz = size_if_complete [OF "2.prems"(1)]
  show ?case
  proof (cases ys)
    case Nil
    have "height (Node p v r) = d + 1" using h "2.prems" by simp
    moreover have "2 ^ d \<le> size (Node p v r)" using sz "2.prems" by simp
    ultimately have "2 ^ height (Node p v r) \<le> 2 * size (Node p v r)" by simp
    then show ?thesis using r Nil by simp
  next
    case (Cons u us)
    then have "complete (Node p v r)" "height (Node p v r) = d + 1" using h "2.prems" by simp_all
    with "2.IH" [OF refl, of r ys] r show ?thesis by simp
  qed
qed

lemma ListToTree_height: "xs \<noteq> [] \<Longrightarrow> 2 ^ height (rowSetListToTree xs) \<le> 2 * length xs"
proof -
  assume "xs \<noteq> []"
  then obtain x ys where xs: "xs = x # ys" by (cases xs) auto
  have "2 ^ height (rowSetListToTree xs) \<le> 2 * size (rowSetListToTree xs)"
    unfolding xs rowSetListToTree_def by (simp add: list_tree_loop_height)
  also have "size (rowSetListToTree xs) = length xs"
    by (metis ListToTree_inorder length_inorder)
  finally show ?thesis .
qed

lemma tree_search_spec: "ascending (inorder t) \<Longrightarrow> tree_search t x \<longleftrightarrow> x \<in> set_tree t"
proof (induction t)
  case (Node l v r)
  then have b: "\<forall>y \<in> set_tree l. y < v" "\<forall>y \<in> set_tree r. v < y"
    by (simp_all add: sorted_wrt_append)
  have "ascending (inorder l)" "ascending (inorder r)"
    using Node.prems by (simp_all add: sorted_wrt_append)
  with Node.IH b show ?case by (cases v x rule: linorder_cases) force+
qed simp

subsection \<open>The set a rowset holds\<close>

text \<open>
  \<open>collects s seen pending\<close>: a rowset that is still open for inserts. The forest holds the
  rowids of earlier batches, the list those of the current one. A clear \<open>ROWSET_SORTED\<close>
  flag only says that the list may be out of order.
\<close>

definition collects :: "RowSet \<Rightarrow> int set \<Rightarrow> int set \<Rightarrow> bool" where
  "collects s seen pending \<longleftrightarrow>
     (rsFlags s = ROWSET_SORTED \<and> ascending (pEntry s) \<or> rsFlags s = 0)
     \<and> pLast s = (if pEntry s = [] then None else Some (last (pEntry s)))
     \<and> set (pEntry s) = pending
     \<and> (\<forall>t \<in> set (pForest s). ascending (inorder t))
     \<and> (\<Union>t \<in> set (pForest s). set_tree t) = seen"

lemmas rowset_flags = ROWSET_SORTED_def ROWSET_NEXT_def

lemma init_collects: "collects (sqlite3RowSetInit msize) {} {}"
  by (simp add: collects_def sqlite3RowSetInit_def)

lemma alloc_fields:
  "rowSetEntryAlloc ok s = (got, s') \<Longrightarrow>
    rsFlags s' = rsFlags s \<and> pEntry s' = pEntry s \<and> pLast s' = pLast s \<and> pForest s' = pForest s
    \<and> iBatch s' = iBatch s \<and> (ok \<longrightarrow> got) \<and> (\<not> got \<longrightarrow> s' = s)"
  by (auto simp: rowSetEntryAlloc_def Let_def split: if_splits)

lemma ascending_snoc: "ascending (xs @ [x]) \<longleftrightarrow> ascending xs \<and> (xs \<noteq> [] \<longrightarrow> last xs < x)"
  by (cases xs rule: rev_cases) (auto simp: sorted_wrt_append)

lemma collects_flags: "collects s seen pending \<Longrightarrow> rsFlags s AND ROWSET_NEXT = 0
    \<and> (rsFlags s AND ROWSET_SORTED = 0 \<longleftrightarrow> rsFlags s \<noteq> ROWSET_SORTED)
    \<and> rsFlags s OR ROWSET_SORTED = ROWSET_SORTED
    \<and> rsFlags s OR (ROWSET_SORTED OR ROWSET_NEXT) = 3"
  by (auto simp: collects_def rowset_flags)

lemma insert_spec:
  assumes "collects s seen pending"
  shows "\<exists>s'. sqlite3RowSetInsert True x s = Some s' \<and> collects s' seen (insert x pending)
    \<and> pEntry s' = pEntry s @ [x] \<and> iBatch s' = iBatch s \<and> pForest s' = pForest s"
proof -
  obtain got s1 where s1: "rowSetEntryAlloc True s = (got, s1)" by force
  note f = alloc_fields [OF s1] and flags = collects_flags [OF assms]
  show ?thesis
  proof (cases "pEntry s = []")
    case True
    with assms f flags s1 show ?thesis
      by (auto simp: sqlite3RowSetInsert_def collects_def Let_def)
  next
    case False
    have "(if x \<le> last (pEntry s) then rsFlags s AND NOT ROWSET_SORTED else rsFlags s)
        = (if rsFlags s = ROWSET_SORTED \<and> last (pEntry s) < x then ROWSET_SORTED else 0)"
      using assms by (auto simp: collects_def rowset_flags)
    with False assms f flags s1 show ?thesis
      by (auto simp: sqlite3RowSetInsert_def collects_def Let_def ascending_snoc)
  qed
qed

text \<open>The list as a test or an extraction uses it: sorted unless the flag says it is.\<close>

lemma sorted_entries:
  assumes "collects s seen pending" and "length (pEntry s) < 2 ^ 40"
  shows "(if rsFlags s AND ROWSET_SORTED = 0 then rowSetEntrySort (pEntry s) else Some (pEntry s))
    = Some (sorted_list_of_set pending)"
  using assms collects_flags [OF assms(1)] rowSetEntrySort_spec [OF assms(2)]
    ascending_unique [of "pEntry s" pending]
  by (auto simp: collects_def)

lemma forest_add_spec:
  "forest_add True p ts s = (ts', s') \<Longrightarrow> ascending p \<Longrightarrow> \<forall>t \<in> set ts. ascending (inorder t) \<Longrightarrow>
    (\<forall>t \<in> set ts'. ascending (inorder t))
    \<and> (\<Union>t \<in> set ts'. set_tree t) = set p \<union> (\<Union>t \<in> set ts. set_tree t)
    \<and> iBatch s' = iBatch s \<and> rsFlags s' = rsFlags s"
proof (induction ts arbitrary: p ts' s')
  case Nil
  then obtain got where "rowSetEntryAlloc True s = (got, s')" by (auto split: prod.splits)
  with Nil alloc_fields [OF this] show ?case
    by (auto simp: ListToTree_inorder simp flip: set_inorder)
next
  case (Cons t ts)
  show ?case
  proof (cases "t = Leaf")
    case True
    with Cons.prems show ?thesis by (auto simp: ListToTree_inorder simp flip: set_inorder)
  next
    case False
    obtain us u where us: "forest_add True (rowSetEntryMerge (rowSetTreeToList t) p) ts s = (us, u)"
      by force
    have "ascending (rowSetEntryMerge (rowSetTreeToList t) p)"
      using Cons.prems by (simp add: TreeToList_inorder merge_ascending)
    moreover have eq: "ts' = Leaf # us" "s' = u" using Cons.prems(1) us False by auto
    moreover have "\<forall>t \<in> set ts. ascending (inorder t)" using Cons.prems(3) by simp
    moreover have "set (rowSetEntryMerge (rowSetTreeToList t) p) = set_tree t \<union> set p"
      by (simp add: TreeToList_inorder merge_set)
    ultimately show ?thesis using Cons.IH [OF us] by (simp add: Un_ac)
  qed
qed

lemma search_forest:
  assumes "collects s seen pending"
  shows "list_ex (\<lambda>t. tree_search t x) (pForest s) \<longleftrightarrow> x \<in> seen"
  using assms tree_search_spec [of _ x] by (auto simp: collects_def list_ex_iff)

lemma test_spec:
  assumes "collects s seen pending" and "length (pEntry s) < 2 ^ 40"
  shows "\<exists>s'. sqlite3RowSetTest True b x s
      = Some (x \<in> (if b \<noteq> iBatch s then seen \<union> pending else seen), s')
    \<and> collects s' (if b \<noteq> iBatch s then seen \<union> pending else seen)
        (if b \<noteq> iBatch s then {} else pending)
    \<and> iBatch s' = b \<and> length (pEntry s') \<le> length (pEntry s)"
proof -
  note flags = collects_flags [OF assms(1)]
  consider (old) "b = iBatch s" | (none) "b \<noteq> iBatch s" "pEntry s = []"
    | (some) "b \<noteq> iBatch s" "pEntry s \<noteq> []" by blast
  then show ?thesis
  proof cases
    case old
    with flags assms search_forest [OF assms(1)] show ?thesis by (simp add: sqlite3RowSetTest_def)
  next
    case none
    define s' where "s' = s\<lparr>iBatch := b\<rparr>"
    have "pending = {}" using assms(1) none(2) by (simp add: collects_def)
    then have "collects s' (seen \<union> pending) {}" using assms(1) by (auto simp: collects_def s'_def)
    with search_forest [OF this] none flags show ?thesis
      by (simp add: sqlite3RowSetTest_def s'_def)
  next
    case some
    obtain ts s1 where ts: "forest_add True (sorted_list_of_set pending) (pForest s) s = (ts, s1)"
      by force
    have fin: "finite pending" using assms(1) by (auto simp: collects_def)
    have "\<forall>t \<in> set (pForest s). ascending (inorder t)" using assms(1) by (simp add: collects_def)
    note f = forest_add_spec [OF ts strict_sorted_list_of_set this]
    define s' where "s' = s1\<lparr>pForest := ts, pEntry := [], pLast := None,
      rsFlags := rsFlags s1 OR ROWSET_SORTED, iBatch := b\<rparr>"
    have "collects s' (seen \<union> pending) {}"
      using f fin assms(1) flags by (auto simp: collects_def s'_def)
    moreover have "sqlite3RowSetTest True b x s
        = Some (list_ex (\<lambda>t. tree_search t x) (pForest s'), s')"
      using some flags ts sorted_entries [OF assms]
      by (simp add: sqlite3RowSetTest_def s'_def)
    ultimately show ?thesis using search_forest [of s' "seen \<union> pending" "{}" x] some
      by (simp add: s'_def)
  qed
qed

subsection \<open>Contract with the statement that collects rowids\<close>

datatype rs_op = Insert int | Test int int

fun batch_run :: "rs_op list \<Rightarrow> int set \<Rightarrow> int set \<Rightarrow> int \<Rightarrow> bool list" where
  "batch_run [] seen pending b = []"
| "batch_run (Insert x # ops) seen pending b = batch_run ops seen (insert x pending) b"
| "batch_run (Test c x # ops) seen pending b =
     (if c \<noteq> b
      then (x \<in> seen \<union> pending) # batch_run ops (seen \<union> pending) {} c
      else (x \<in> seen) # batch_run ops seen pending b)"

fun collector_run :: "(int \<Rightarrow> 's \<Rightarrow> 's option) \<Rightarrow> (int \<Rightarrow> int \<Rightarrow> 's \<Rightarrow> (bool \<times> 's) option)
    \<Rightarrow> rs_op list \<Rightarrow> 's \<Rightarrow> bool list option" where
  "collector_run ins tst [] s = Some []"
| "collector_run ins tst (Insert x # ops) s =
     do { s \<leftarrow> ins x s; collector_run ins tst ops s }"
| "collector_run ins tst (Test c x # ops) s =
     do { (r, s) \<leftarrow> tst c x s; rs \<leftarrow> collector_run ins tst ops s; Some (r # rs) }"

text \<open>
  \<open>R s seen pending b k\<close>: the collector \<open>s\<close> shows \<open>seen\<close> to the tests of batch \<open>b\<close>, holds
  \<open>pending\<close> back, and has at most \<open>k\<close> entries to sort.
\<close>

locale rowid_collector =
  fixes R :: "'s \<Rightarrow> int set \<Rightarrow> int set \<Rightarrow> int \<Rightarrow> nat \<Rightarrow> bool" and lim :: nat
    and ins :: "int \<Rightarrow> 's \<Rightarrow> 's option" and tst :: "int \<Rightarrow> int \<Rightarrow> 's \<Rightarrow> (bool \<times> 's) option"
  assumes ins_law: "R s seen pending b k \<Longrightarrow>
      \<exists>s'. ins x s = Some s' \<and> R s' seen (insert x pending) b (Suc k)"
    and tst_same: "R s seen pending b k \<Longrightarrow> k < lim \<Longrightarrow>
      \<exists>s'. tst b x s = Some (x \<in> seen, s') \<and> R s' seen pending b k"
    and tst_new: "R s seen pending b k \<Longrightarrow> k < lim \<Longrightarrow> c \<noteq> b \<Longrightarrow>
      \<exists>s'. tst c x s = Some (x \<in> seen \<union> pending, s') \<and> R s' (seen \<union> pending) {} c k"
begin

lemma run_batches:
  "R s seen pending b k \<Longrightarrow> k + length ops < lim \<Longrightarrow>
   collector_run ins tst ops s = Some (batch_run ops seen pending b)"
proof (induction ops arbitrary: s seen pending b k)
  case (Cons x xs)
  show ?case
  proof (cases x)
    case (Insert r)
    from ins_law [OF Cons.prems(1), of r] obtain s' where
      s': "ins r s = Some s'" "R s' seen (insert r pending) b (Suc k)" by blast
    with Cons.IH [OF s'(2)] Cons.prems(2) Insert show ?thesis by simp
  next
    case (Test c r)
    have k: "k < lim" "k + length xs < lim" using Cons.prems(2) by simp_all
    show ?thesis
    proof (cases "c = b")
      case True
      from tst_same [OF Cons.prems(1) k(1), of r] obtain s' where
        s': "tst b r s = Some (r \<in> seen, s')" "R s' seen pending b k" by blast
      with Cons.IH [OF s'(2) k(2)] Test True show ?thesis by simp
    next
      case False
      from tst_new [OF Cons.prems(1) k(1) False, of r] obtain s' where
        s': "tst c r s = Some (r \<in> seen \<union> pending, s')" "R s' (seen \<union> pending) {} c k" by blast
      with Cons.IH [OF s'(2) k(2)] Test False show ?thesis by simp
    qed
  qed
qed simp

end

definition rowset_rel :: "RowSet \<Rightarrow> int set \<Rightarrow> int set \<Rightarrow> int \<Rightarrow> nat \<Rightarrow> bool" where
  "rowset_rel s seen pending b k \<longleftrightarrow>
     collects s seen pending \<and> iBatch s = b \<and> length (pEntry s) \<le> k"

interpretation rowset: rowid_collector rowset_rel "2 ^ 40" "sqlite3RowSetInsert True"
  "sqlite3RowSetTest True"
proof unfold_locales
  fix s seen pending b k x c
  assume "rowset_rel s seen pending b k"
  then have r: "collects s seen pending" "iBatch s = b" "length (pEntry s) \<le> k"
    by (simp_all add: rowset_rel_def)
  from insert_spec [OF r(1), of x] r
  show "\<exists>s'. sqlite3RowSetInsert True x s = Some s'
      \<and> rowset_rel s' seen (insert x pending) b (Suc k)"
    by (auto simp: rowset_rel_def)
  assume "k < 2 ^ 40"
  then have len: "length (pEntry s) < 2 ^ 40" using r(3) by simp
  from test_spec [OF r(1) len, of b x] r
  show "\<exists>s'. sqlite3RowSetTest True b x s = Some (x \<in> seen, s') \<and> rowset_rel s' seen pending b k"
    by (auto simp: rowset_rel_def)
  assume "c \<noteq> b"
  with test_spec [OF r(1) len, of c x] r
  show "\<exists>s'. sqlite3RowSetTest True c x s = Some (x \<in> seen \<union> pending, s')
      \<and> rowset_rel s' (seen \<union> pending) {} c k"
    by (auto simp: rowset_rel_def)
qed

subsection \<open>Properties\<close>

text \<open>The smallest rowid again and again.\<close>

fun rowset_drain :: "nat \<Rightarrow> RowSet \<Rightarrow> (int option list \<times> RowSet) option" where
  "rowset_drain 0 s = Some ([], s)"
| "rowset_drain (Suc k) s =
     do { (v, s) \<leftarrow> sqlite3RowSetNext s; (vs, s) \<leftarrow> rowset_drain k s; Some (v # vs, s) }"

fun rowset_inserts :: "int list \<Rightarrow> RowSet \<Rightarrow> RowSet option" where
  "rowset_inserts [] s = Some s"
| "rowset_inserts (x # xs) s = do { s \<leftarrow> sqlite3RowSetInsert True x s; rowset_inserts xs s }"

lemma inserts_spec:
  "collects s seen pending \<Longrightarrow>
   \<exists>s'. rowset_inserts xs s = Some s' \<and> collects s' seen (pending \<union> set xs)
     \<and> pEntry s' = pEntry s @ xs \<and> pForest s' = pForest s"
proof (induction xs arbitrary: s pending)
  case (Cons x xs)
  from insert_spec [OF Cons.prems, of x] obtain s1 where
    s1: "sqlite3RowSetInsert True x s = Some s1" "collects s1 seen (insert x pending)"
    "pEntry s1 = pEntry s @ [x]" "pForest s1 = pForest s" by blast
  from Cons.IH [OF s1(2)] s1 show ?case by auto
qed auto

lemma next_sorted:
  "pForest s = [] \<Longrightarrow> rsFlags s = 3 \<Longrightarrow> pEntry s = es \<Longrightarrow>
   \<exists>s'. rowset_drain (Suc (length es)) s = Some (map Some es @ [None], s')
     \<and> (es \<noteq> [] \<longrightarrow> pChunk s' = 0)"
proof (induction es arbitrary: s)
  case Nil
  then show ?case by (simp add: sqlite3RowSetNext_def rowset_flags)
next
  case (Cons e es)
  show ?case
  proof (cases es)
    case Nil
    have "sqlite3RowSetNext s = Some (Some e, sqlite3RowSetClear (s\<lparr>pEntry := []\<rparr>))"
      using Cons.prems Nil by (simp add: sqlite3RowSetNext_def rowset_flags)
    then show ?thesis using Nil
      by (simp add: sqlite3RowSetNext_def rowset_flags sqlite3RowSetClear_def)
  next
    case (Cons f fs)
    define s1 where "s1 = s\<lparr>pEntry := es\<rparr>"
    have "sqlite3RowSetNext s = Some (Some e, s1)"
      using Cons.prems Cons by (simp add: sqlite3RowSetNext_def rowset_flags s1_def)
    moreover obtain s' where "rowset_drain (Suc (length es)) s1 = Some (map Some es @ [None], s')"
      "pChunk s' = 0"
      using Cons.IH [of s1] Cons.prems Cons by (auto simp: s1_def)
    ultimately show ?thesis by (simp del: rowset_drain.simps(2) add: rowset_drain.simps(2) [of "Suc (length es)"])
  qed
qed

text \<open>
  C22. Batches: in any sequence of insertions and tests on a new rowset, every test answers
  whether the rowid was inserted before the batch number last changed; insertions of the
  current batch stay invisible to it. No sequence of fewer than \<open>2^40\<close> operations violates
  an assertion or leaves the array of buckets.
\<close>

theorem rowset_batches:
  assumes "length ops < 2 ^ 40"
  shows "collector_run (sqlite3RowSetInsert True) (sqlite3RowSetTest True) ops (sqlite3RowSetInit msize)
    = Some (batch_run ops {} {} 0)"
proof (rule rowset.run_batches)
  show "rowset_rel (sqlite3RowSetInit msize) {} {} 0 0"
    using init_collects by (simp add: rowset_rel_def sqlite3RowSetInit_def)
  show "0 + length ops < 2 ^ 40" using assms by simp
qed

theorem rowset_batches_witness:
  "collector_run (sqlite3RowSetInsert True) (sqlite3RowSetTest True)
      [Insert 7, Insert 3, Test 0 7, Test 1 7, Insert 5, Test 1 5, Test 2 5] (sqlite3RowSetInit 512)
    = Some [False, True, False, True]"
  using rowset_batches [of "[Insert 7, Insert 3, Test 0 7, Test 1 7, Insert 5, Test 1 5, Test 2 5]" 512]
  by simp

text \<open>
  C23. Extraction: whatever order the rowids come in and however often, taking the smallest
  again and again returns each of them once in ascending order, then reports that the set
  is empty; by then every chunk has been freed.
\<close>

theorem rowset_extracts_sorted:
  assumes "length xs < 2 ^ 40"
  shows "\<exists>s s'. rowset_inserts xs (sqlite3RowSetInit msize) = Some s
    \<and> rowset_drain (Suc (card (set xs))) s
        = Some (map Some (sorted_list_of_set (set xs)) @ [None], s')
    \<and> pChunk s' = 0"
proof (cases "xs = []")
  case True
  then show ?thesis
    by (simp add: sqlite3RowSetNext_def sqlite3RowSetInit_def rowset_flags)
next
  case False
  from inserts_spec [OF init_collects, of xs msize] obtain s where
    s: "rowset_inserts xs (sqlite3RowSetInit msize) = Some s" "collects s {} (set xs)"
    "pEntry s = xs" "pForest s = []" by (auto simp: sqlite3RowSetInit_def)
  define es where "es = sorted_list_of_set (set xs)"
  define s1 where "s1 = s\<lparr>pEntry := es, rsFlags := 3\<rparr>"
  note flags = collects_flags [OF s(2)]
  have "es \<noteq> []" using False by (simp add: es_def)
  have "sqlite3RowSetNext s = sqlite3RowSetNext s1"
    using flags sorted_entries [OF s(2)] assms s(3,4) \<open>es \<noteq> []\<close>
    by (simp add: sqlite3RowSetNext_def s1_def es_def rowset_flags)
  then have "rowset_drain (Suc (length es)) s = rowset_drain (Suc (length es)) s1"
    by (simp only: rowset_drain.simps)
  moreover obtain s' where "rowset_drain (Suc (length es)) s1 = Some (map Some es @ [None], s')"
    "pChunk s' = 0"
    using next_sorted [of s1 es] s(4) \<open>es \<noteq> []\<close> by (auto simp: s1_def)
  moreover have "length es = card (set xs)" by (simp add: es_def)
  ultimately show ?thesis using s(1) es_def by metis
qed

theorem rowset_extracts_sorted_witness:
  "\<exists>s s'. rowset_inserts [7, 3, 7] (sqlite3RowSetInit 512) = Some s
    \<and> rowset_drain 3 s = Some ([Some 3, Some 7, None], s') \<and> pChunk s' = 0"
proof -
  have len: "length [7, 3, 7 :: int] < 2 ^ 40" by simp
  have c: "Suc (card (set [7, 3, 7 :: int])) = 3" by (simp add: card_insert_if)
  have "[3, 7] = sorted_list_of_set (set [7, 3, 7 :: int])"
    by (rule ascending_unique) auto
  then have l: "map Some (sorted_list_of_set (set [7, 3, 7 :: int])) @ [None]
      = [Some 3, Some 7, None]"
    by (metis append_Cons append_Nil list.map)
  show ?thesis using rowset_extracts_sorted [OF len, of 512] unfolding c l .
qed

text \<open>
  The tree built from a sorted list holds exactly the list, in order, and its height is
  within one of the logarithm of its size, which makes a test logarithmic.
\<close>

theorem rowset_tree_balanced:
  assumes "xs \<noteq> []"
  shows "inorder (rowSetListToTree xs) = xs \<and> 2 ^ height (rowSetListToTree xs) \<le> 2 * length xs"
  using ListToTree_inorder ListToTree_height [OF assms] by simp

theorem rowset_tree_balanced_witness:
  "inorder (rowSetListToTree [1, 2, 3, 4, 5]) = [1, 2, 3, 4, 5]
    \<and> 2 ^ height (rowSetListToTree [1, 2, 3, 4, 5]) \<le> (10 :: nat)"
  using rowset_tree_balanced [of "[1, 2, 3, 4, 5]"] by simp

end
