(* ===== verification/Utf.thy ===== *)
theory Utf
  imports Prelude
begin

section \<open>Text encodings\<close>

text \<open>
  \<open>utf.c\<close>: reading and writing of code points in UTF-8 and in UTF-16 of either byte order,
  and the translation of a value from one encoding to another. A pointer into a text is
  the list of the bytes from it on; the end of the list is the terminator of a zero-terminated
  string or the bound \<open>zTerm\<close> of a sized one, and neither is a continuation byte.
  A code point is the \<open>unsigned int\<close> of the C code.
\<close>

subsection \<open>Reading\<close>

definition sqlite3Utf8Trans1 :: "u32 list" where
  "sqlite3Utf8Trans1 =
    [0x00, 0x01, 0x02, 0x03, 0x04, 0x05, 0x06, 0x07,
     0x08, 0x09, 0x0a, 0x0b, 0x0c, 0x0d, 0x0e, 0x0f,
     0x10, 0x11, 0x12, 0x13, 0x14, 0x15, 0x16, 0x17,
     0x18, 0x19, 0x1a, 0x1b, 0x1c, 0x1d, 0x1e, 0x1f,
     0x00, 0x01, 0x02, 0x03, 0x04, 0x05, 0x06, 0x07,
     0x08, 0x09, 0x0a, 0x0b, 0x0c, 0x0d, 0x0e, 0x0f,
     0x00, 0x01, 0x02, 0x03, 0x04, 0x05, 0x06, 0x07,
     0x00, 0x01, 0x02, 0x03, 0x00, 0x01, 0x00, 0x00]"

fun utf8_tail :: "u32 \<Rightarrow> byte list \<Rightarrow> u32 \<times> byte list" where
  "utf8_tail c [] = (c, [])"
| "utf8_tail c (b # zIn) =
     (if b AND 0xc0 = 0x80 then utf8_tail (push_bit 6 c + ucast (0x3f AND b)) zIn
      else (c, b # zIn))"

definition replaced :: "u32 \<Rightarrow> u32" where
  "replaced c =
     (if c < 0x80 \<or> c AND 0xFFFFF800 = 0xD800 \<or> c AND 0xFFFFFFFE = 0xFFFE then 0xFFFD else c)"

fun sqlite3Utf8Read :: "byte list \<Rightarrow> u32 \<times> byte list" where
  "sqlite3Utf8Read [] = (0, [])"
| "sqlite3Utf8Read (b # zIn) =
     (if b \<ge> 0xc0
      then case utf8_tail (sqlite3Utf8Trans1 ! unat (b - 0xc0)) zIn of (c, zIn) \<Rightarrow> (replaced c, zIn)
      else (ucast b, zIn))"

fun skip_tail :: "byte list \<Rightarrow> byte list" where
  "skip_tail [] = []"
| "skip_tail (b # zIn) = (if b AND 0xc0 = 0x80 then skip_tail zIn else b # zIn)"

fun SQLITE_SKIP_UTF8 :: "byte list \<Rightarrow> byte list" where
  "SQLITE_SKIP_UTF8 [] = []"
| "SQLITE_SKIP_UTF8 (b # zIn) = (if b \<ge> 0xc0 then skip_tail zIn else zIn)"

text \<open>
  A unit of UTF-16, low byte first or high byte first; what is past the end of the text is
  read as zero, which the routines that know the size never do.
\<close>

definition byte_at :: "byte list \<Rightarrow> nat \<Rightarrow> u32" where
  "byte_at z i = (if i < length z then ucast (z ! i) else 0)"

definition unit_LE :: "byte list \<Rightarrow> u32" where
  "unit_LE z = byte_at z 0 + push_bit 8 (byte_at z 1)"

definition unit_BE :: "byte list \<Rightarrow> u32" where
  "unit_BE z = push_bit 8 (byte_at z 0) + byte_at z 1"

definition read_utf16 :: "(byte list \<Rightarrow> u32) \<Rightarrow> bool \<Rightarrow> byte list \<Rightarrow> u32 \<times> byte list" where
  "read_utf16 unit more z =
     (let c = unit z in
      if c \<ge> 0xD800 \<and> c < 0xE000 \<and> (more \<or> drop 2 z \<noteq> [])
      then (let c2 = unit (drop 2 z) in
            ((c2 AND 0x03FF) + push_bit 10 (c AND 0x003F) + push_bit 10 ((c AND 0x03C0) + 0x0040),
             drop 4 z))
      else (c, drop 2 z))"

subsection \<open>Writing\<close>

definition WRITE_UTF8 :: "u32 \<Rightarrow> byte list" where
  "WRITE_UTF8 c =
     (if c < 0x00080 then [ucast (c AND 0xFF)]
      else if c < 0x00800 then
        [0xC0 + ucast (drop_bit 6 c AND 0x1F),
         0x80 + ucast (c AND 0x3F)]
      else if c < 0x10000 then
        [0xE0 + ucast (drop_bit 12 c AND 0x0F),
         0x80 + ucast (drop_bit 6 c AND 0x3F),
         0x80 + ucast (c AND 0x3F)]
      else
        [0xF0 + ucast (drop_bit 18 c AND 0x07),
         0x80 + ucast (drop_bit 12 c AND 0x3F),
         0x80 + ucast (drop_bit 6 c AND 0x3F),
         0x80 + ucast (c AND 0x3F)])"

definition WRITE_UTF16LE :: "u32 \<Rightarrow> byte list" where
  "WRITE_UTF16LE c =
     (if c \<le> 0xFFFF then [ucast (c AND 0x00FF), ucast (drop_bit 8 c AND 0x00FF)]
      else
        [ucast ((drop_bit 10 c AND 0x003F) + (drop_bit 10 (c - 0x10000) AND 0x00C0)),
         ucast (0x00D8 + (drop_bit 18 (c - 0x10000) AND 0x03)),
         ucast (c AND 0x00FF),
         ucast (0x00DC + (drop_bit 8 c AND 0x03))])"

definition WRITE_UTF16BE :: "u32 \<Rightarrow> byte list" where
  "WRITE_UTF16BE c =
     (if c \<le> 0xFFFF then [ucast (drop_bit 8 c AND 0x00FF), ucast (c AND 0x00FF)]
      else
        [ucast (0x00D8 + (drop_bit 18 (c - 0x10000) AND 0x03)),
         ucast ((drop_bit 10 c AND 0x003F) + (drop_bit 10 (c - 0x10000) AND 0x00C0)),
         ucast (0x00DC + (drop_bit 8 c AND 0x03)),
         ucast (c AND 0x00FF)])"

subsection \<open>Whole texts\<close>

lemma utf8_tail_shorter: "length (snd (utf8_tail c z)) \<le> length z"
  by (induction c z rule: utf8_tail.induct) auto

lemma utf8_read_shorter: "z \<noteq> [] \<Longrightarrow> length (snd (sqlite3Utf8Read z)) < length z"
proof (cases z)
  case (Cons b bs)
  then show ?thesis
    using utf8_tail_shorter [of "sqlite3Utf8Trans1 ! unat (b - 0xc0)" bs]
    by (auto split: prod.split)
qed simp

text \<open>All code points of a text: the loops of the translation and of the character count.\<close>

function utf8_codes :: "byte list \<Rightarrow> u32 list" where
  "utf8_codes z = (if z = [] then [] else case sqlite3Utf8Read z of (c, z') \<Rightarrow> c # utf8_codes z')"
  by auto
termination
proof (relation "measure length", goal_cases)
  case (2 z c z')
  with utf8_read_shorter [of z] show ?case by (metis in_measure snd_conv)
qed simp

function utf16_codes :: "(byte list \<Rightarrow> u32) \<Rightarrow> byte list \<Rightarrow> u32 list" where
  "utf16_codes unit z =
     (if z = [] then [] else case read_utf16 unit False z of (c, z') \<Rightarrow> c # utf16_codes unit z')"
  by auto
termination
proof (relation "measure (\<lambda>(u, z). length z)", goal_cases)
  case (2 u z c z')
  then show ?case by (auto simp: read_utf16_def Let_def split: if_splits)
qed simp

declare utf8_codes.simps [simp del] utf16_codes.simps [simp del]

fun swap_bytes :: "byte list \<Rightarrow> byte list" where
  "swap_bytes (p # q # z) = q # p # swap_bytes z"
| "swap_bytes z = z"

definition SQLITE_UTF8 :: nat where "SQLITE_UTF8 = 1"
definition SQLITE_UTF16LE :: nat where "SQLITE_UTF16LE = 2"
definition SQLITE_UTF16BE :: nat where "SQLITE_UTF16BE = 3"

definition MEM_Str :: u16 where "MEM_Str = 0x0002"
definition MEM_AffMask :: u16 where "MEM_AffMask = 0x001f"
definition MEM_Term :: u16 where "MEM_Term = 0x0200"
definition MEM_Subtype :: u16 where "MEM_Subtype = 0x8000"

text \<open>
  A value that is a text: the bytes its \<open>z\<close> points to (the \<open>n\<close> of the text first), the
  encoding and the flags. The allocation a text lives in changes hands but not contents in
  \<open>sqlite3VdbeMemMakeWriteable\<close> and \<open>sqlite3VdbeMemRelease\<close>, so only the outcome of the
  allocation is an argument.
\<close>

record Mem =
  mem_z :: "byte list"
  mem_n :: nat
  mem_enc :: nat
  mem_flags :: u16

text \<open>
  The result is \<open>None\<close> when the output would not fit the buffer that was allocated for it.
\<close>

definition sqlite3VdbeMemTranslate :: "bool \<Rightarrow> nat \<Rightarrow> Mem \<Rightarrow> (int \<times> Mem) option" where
  "sqlite3VdbeMemTranslate ok desiredEnc pMem =
     (if mem_enc pMem \<noteq> SQLITE_UTF8 \<and> desiredEnc \<noteq> SQLITE_UTF8 then
        (if \<not> ok then Some (SQLITE_NOMEM, pMem)
         else let k = mem_n pMem - mem_n pMem mod 2 in
           Some (SQLITE_OK, pMem\<lparr>mem_z := swap_bytes (take k (mem_z pMem)) @ drop k (mem_z pMem),
                                 mem_enc := desiredEnc\<rparr>))
      else
        let pMem = (if desiredEnc = SQLITE_UTF8
                    then pMem\<lparr>mem_n := mem_n pMem - mem_n pMem mod 2\<rparr> else pMem);
            len = (if desiredEnc = SQLITE_UTF8 then mem_n pMem * 2 + 1 else mem_n pMem * 2 + 2);
            zIn = take (mem_n pMem) (mem_z pMem)
        in if \<not> ok then Some (SQLITE_NOMEM, pMem)
        else
          let z = (if mem_enc pMem = SQLITE_UTF8 then
                     (if desiredEnc = SQLITE_UTF16LE
                      then concat (map WRITE_UTF16LE (utf8_codes zIn))
                      else concat (map WRITE_UTF16BE (utf8_codes zIn)))
                   else
                     (if mem_enc pMem = SQLITE_UTF16LE
                      then concat (map WRITE_UTF8 (utf16_codes unit_LE zIn))
                      else concat (map WRITE_UTF8 (utf16_codes unit_BE zIn))));
              out = z @ (if mem_enc pMem = SQLITE_UTF8 then [0, 0] else [0])
          in if length out > len then None
             else Some (SQLITE_OK, pMem\<lparr>mem_z := out, mem_n := length z, mem_enc := desiredEnc,
               mem_flags := MEM_Str OR MEM_Term OR (mem_flags pMem AND (MEM_AffMask OR MEM_Subtype))\<rparr>))"

definition sqlite3VdbeMemHandleBom :: "bool \<Rightarrow> Mem \<Rightarrow> int \<times> Mem" where
  "sqlite3VdbeMemHandleBom ok pMem =
     (let bom = (if mem_n pMem > 1 then
                   (if mem_z pMem ! 0 = 0xFE \<and> mem_z pMem ! 1 = 0xFF then SQLITE_UTF16BE
                    else if mem_z pMem ! 0 = 0xFF \<and> mem_z pMem ! 1 = 0xFE then SQLITE_UTF16LE
                    else 0) else 0)
      in if bom = 0 then (SQLITE_OK, pMem)
         else if \<not> ok then (SQLITE_NOMEM, pMem)
         else (SQLITE_OK, pMem\<lparr>mem_n := mem_n pMem - 2,
                mem_z := take (mem_n pMem - 2) (drop 2 (mem_z pMem)) @ [0, 0],
                mem_flags := mem_flags pMem OR MEM_Term, mem_enc := bom\<rparr>))"

text \<open>
  Counting stops at the terminator, at the end of the list here, or after \<open>nByte\<close> bytes
  unless that is negative. A character that straddles the bound is counted.
\<close>

function char_len :: "byte list \<Rightarrow> int \<Rightarrow> int" where
  "char_len z left =
     (if z \<noteq> [] \<and> hd z \<noteq> 0 \<and> left \<noteq> 0
      then 1 + char_len (SQLITE_SKIP_UTF8 z)
             (if left < 0 then left else max 0 (left - int (length z - length (SQLITE_SKIP_UTF8 z))))
      else 0)"
  by auto

lemma skip_tail_shorter: "length (skip_tail z) \<le> length z"
  by (induction z) auto

lemma skip_utf8_shorter: "z \<noteq> [] \<Longrightarrow> length (SQLITE_SKIP_UTF8 z) < length z"
  using skip_tail_shorter by (cases z) (auto simp: le_imp_less_Suc)

termination char_len
  by (relation "measure (\<lambda>(z, l). length z)") (auto intro: skip_utf8_shorter)

declare char_len.simps [simp del]

definition sqlite3Utf8CharLen :: "byte list \<Rightarrow> int \<Rightarrow> int" where
  "sqlite3Utf8CharLen zIn nByte = char_len zIn nByte"

fun utf16_advance :: "(byte list \<Rightarrow> u32) \<Rightarrow> nat \<Rightarrow> byte list \<Rightarrow> byte list" where
  "utf16_advance unit 0 z = z"
| "utf16_advance unit (Suc k) z = utf16_advance unit k (snd (read_utf16 unit True z))"

definition sqlite3Utf16ByteLen :: "bool \<Rightarrow> byte list \<Rightarrow> nat \<Rightarrow> nat" where
  "sqlite3Utf16ByteLen big_endian zIn nChar =
     length zIn - length (utf16_advance (if big_endian then unit_BE else unit_LE) nChar zIn)"

subsection \<open>Masks and shifts as arithmetic\<close>

lemma unat_take_bit: "unat (take_bit k (x :: u32)) = unat x mod 2 ^ k"
  unfolding unsigned_take_bit_eq by (rule take_bit_eq_mod)

lemma unat_and_mask:
  "unat ((x :: u32) AND 0x3F) = unat x mod 64" "unat (x AND 0x1F) = unat x mod 32"
  "unat (x AND 0x0F) = unat x mod 16" "unat (x AND 0x07) = unat x mod 8"
  "unat (x AND 0x03) = unat x mod 4" "unat (x AND 0xFF) = unat x mod 256"
  "unat (x AND 0x3FF) = unat x mod 1024"
  using unat_take_bit [of 6 x] unat_take_bit [of 5 x] unat_take_bit [of 4 x]
    unat_take_bit [of 3 x] unat_take_bit [of 2 x] unat_take_bit [of 8 x] unat_take_bit [of 10 x]
  by (simp_all add: take_bit_eq_mask mask_eq_exp_minus_1)

lemma and_push: "(x :: u32) AND push_bit k m = push_bit k (drop_bit k x AND m)"
  by (rule bit_word_eqI) (auto simp: bit_simps)

lemma unat_drop: "unat (drop_bit k (x :: u32)) = unat x div 2 ^ k"
  unfolding unat_drop_bit_eq by (rule drop_bit_eq_div)

lemma unat_push: "unat x * 2 ^ k < 2 ^ 32 \<Longrightarrow> unat (push_bit k (x :: u32)) = unat x * 2 ^ k"
  unfolding unsigned_push_bit_eq unfolding take_bit_eq_mod unfolding push_bit_eq_mult
  by simp

lemma unat_add: "unat x + unat y < 2 ^ 32 \<Longrightarrow> unat (x + y :: u32) = unat x + unat y"
  by (simp add: unat_word_ariths)

lemma unat_byte: "unat (ucast (x :: u32) :: byte) = unat x mod 256"
  by (simp add: unsigned_ucast_eq take_bit_eq_mod)

lemma unat_byte_bound: "unat (b :: byte) < 256"
proof -
  have "unat b < 2 ^ LENGTH(8)" by (rule unsigned_less)
  then show ?thesis by simp
qed

lemma unat_code: "unat (ucast (b :: byte) :: u32) = unat b"
  using unat_byte_bound [of b] by (simp add: unsigned_ucast_eq take_bit_eq_mod)

lemma unat_byte_add: "unat x + unat y < 256 \<Longrightarrow> unat (x + y :: byte) = unat x + unat y"
  by (simp add: unat_word_ariths)

lemma byte_le_iff: "(b :: byte) \<ge> 0xc0 \<longleftrightarrow> 192 \<le> unat b"
  by (simp add: word_le_nat_alt)

lemma cont_iff: "(b :: byte) AND 0xc0 = 0x80 \<longleftrightarrow> 128 \<le> unat b \<and> unat b < 192"
  by (rule all_bytesI) code_simp

text \<open>The value of a continuation byte and of the first byte of a sequence.\<close>

lemma cont_value: "unat (ucast (0x3f AND (b :: byte)) :: u32) = unat b mod 64"
proof -
  have "unat (0x3f AND b) = unat b mod 64"
    by (rule all_bytesI [of "\<lambda>b. unat (0x3f AND b) = unat b mod 64"]) code_simp
  then show ?thesis by (simp add: unat_code)
qed

lemma Trans1_value: "i < 64 \<Longrightarrow> unat (sqlite3Utf8Trans1 ! i) =
    (if i < 32 then i else if i < 48 then i - 32 else if i < 56 then i - 48
     else if i < 60 then i - 56 else if i = 61 then 1 else 0)"
proof -
  assume "i < 64"
  moreover have "list_all (\<lambda>i. unat (sqlite3Utf8Trans1 ! i) =
    (if i < 32 then i else if i < 48 then i - 32 else if i < 56 then i - 48
     else if i < 60 then i - 56 else if i = 61 then 1 else 0)) [0..<64]"
    by code_simp
  ultimately show ?thesis by (simp add: list_all_iff)
qed

lemma tail_step: "unat (c :: u32) < 2 ^ 25 \<Longrightarrow>
    unat (push_bit 6 c + ucast (0x3f AND (b :: byte))) = unat c * 64 + unat b mod 64"
proof -
  assume c: "unat c < 2 ^ 25"
  then have "unat (push_bit 6 c) = unat c * 64" using unat_push [of c 6] by simp
  moreover have "unat c * 64 + unat b mod 64 < 2 ^ 32" using c by simp
  ultimately show ?thesis using unat_add [of "push_bit 6 c" "ucast (0x3f AND b)"]
    by (simp add: cont_value)
qed

subsection \<open>Round trip of a code point\<close>

definition scalar :: "u32 \<Rightarrow> bool" where
  "scalar c \<longleftrightarrow> c < 0x110000 \<and> \<not> (0xD800 \<le> c \<and> c < 0xE000) \<and> c \<noteq> 0xFFFE \<and> c \<noteq> 0xFFFF"

lemma replaced_mask: "c AND 0xFFFFF800 = 0xD800 \<longleftrightarrow> 0xD800 \<le> c \<and> c < (0xE000 :: u32)"
proof -
  have "c AND 0xFFFFF800 = push_bit 11 (drop_bit 11 c AND mask 21)"
    using and_push [of c 11 "mask 21"] by (simp add: mask_eq_exp_minus_1)
  also have "drop_bit 11 c AND mask 21 = drop_bit 11 c"
    by (rule bit_word_eqI) (auto simp: bit_simps dest: bit_imp_le_length)
  finally have eq: "c AND 0xFFFFF800 = push_bit 11 (drop_bit 11 c)" .
  have "unat (push_bit 11 (drop_bit 11 c)) = unat c div 2048 * 2048"
  proof -
    have "unat c < 2 ^ 32" using unsigned_less [where w = c] by simp
    then show ?thesis using unat_push [of "drop_bit 11 c" 11] unat_drop [of 11 c] by simp
  qed
  then show ?thesis unfolding eq
    by (simp add: word_unat_eq_iff word_le_nat_alt word_less_nat_alt) linarith
qed

lemma replaced_mask': "c AND 0xFFFFFFFE = 0xFFFE \<longleftrightarrow> c = 0xFFFE \<or> c = (0xFFFF :: u32)"
proof -
  have "c AND 0xFFFFFFFE = push_bit 1 (drop_bit 1 c AND mask 31)"
    using and_push [of c 1 "mask 31"] by (simp add: mask_eq_exp_minus_1)
  also have "drop_bit 1 c AND mask 31 = drop_bit 1 c"
    by (rule bit_word_eqI) (auto simp: bit_simps dest: bit_imp_le_length)
  finally have eq: "c AND 0xFFFFFFFE = push_bit 1 (drop_bit 1 c)" .
  have "unat (push_bit 1 (drop_bit 1 c)) = unat c div 2 * 2"
  proof -
    have "unat c < 2 ^ 32" using unsigned_less [where w = c] by simp
    then show ?thesis using unat_push [of "drop_bit 1 c" 1] unat_drop [of 1 c] by simp
  qed
  then show ?thesis unfolding eq
    by (simp add: word_unat_eq_iff) linarith
qed

lemma replaced_scalar: "scalar c \<Longrightarrow> c \<ge> 0x80 \<Longrightarrow> replaced c = c"
  by (auto simp: replaced_def replaced_mask replaced_mask' scalar_def not_less)

lemma write8_bytes:
  "unat c < 0x80 \<Longrightarrow> map unat (WRITE_UTF8 c) = [unat c]"
  "0x80 \<le> unat c \<Longrightarrow> unat c < 0x800 \<Longrightarrow>
    map unat (WRITE_UTF8 c) = [192 + unat c div 64, 128 + unat c mod 64]"
  "0x800 \<le> unat c \<Longrightarrow> unat c < 0x10000 \<Longrightarrow>
    map unat (WRITE_UTF8 c)
      = [224 + unat c div 4096, 128 + unat c div 64 mod 64, 128 + unat c mod 64]"
  "0x10000 \<le> unat c \<Longrightarrow> unat c < 0x110000 \<Longrightarrow>
    map unat (WRITE_UTF8 c)
      = [240 + unat c div 262144, 128 + unat c div 4096 mod 64, 128 + unat c div 64 mod 64,
         128 + unat c mod 64]"
  by (simp_all add: WRITE_UTF8_def word_less_nat_alt unat_byte unat_byte_add unat_and_mask
      unat_drop mod_less div_less_iff_less_mult)

definition no_cont :: "byte list \<Rightarrow> bool" where
  "no_cont z \<longleftrightarrow> (case z of [] \<Rightarrow> True | b # _ \<Rightarrow> b AND 0xc0 \<noteq> 0x80)"

lemma tail_stops: "no_cont z \<Longrightarrow> utf8_tail c z = (c, z)"
  by (cases z) (auto simp: no_cont_def)

lemma tail_cont: "128 \<le> unat b \<Longrightarrow> unat b < 192 \<Longrightarrow>
    utf8_tail c (b # z) = utf8_tail (push_bit 6 c + ucast (0x3f AND b)) z"
  by (simp add: cont_iff)

text \<open>A first byte, and what is read when the continuation bytes have been put together.\<close>

lemma read_lead: "192 \<le> unat b \<Longrightarrow> utf8_tail (sqlite3Utf8Trans1 ! (unat b - 192)) z = (c, rest) \<Longrightarrow>
    sqlite3Utf8Read (b # z) = (replaced c, rest)"
proof -
  assume b: "192 \<le> unat b" "utf8_tail (sqlite3Utf8Trans1 ! (unat b - 192)) z = (c, rest)"
  have "(0xc0 :: byte) \<le> b" using b(1) by (simp add: byte_le_iff)
  then have "unat (b - 0xc0) = unat b - 192" by (simp add: unat_sub)
  with b show ?thesis by (simp add: byte_le_iff)
qed

lemma u32_eq: "unat (c :: u32) = unat d \<Longrightarrow> c = d"
  by (simp add: word_unat_eq_iff)

lemma tail_value:
  "unat c < 2 ^ 25 \<Longrightarrow> unat b = 128 + x \<Longrightarrow> x < 64 \<Longrightarrow>
    \<exists>d. utf8_tail c (b # z) = utf8_tail d z \<and> unat d = unat c * 64 + x"
proof -
  assume c: "unat c < 2 ^ 25" and b: "unat b = 128 + x" "x < 64"
  have "unat b mod 64 = x" using b by (simp add: mod_add_eq [symmetric])
  with tail_step [OF c, of b] tail_cont [of b c z] b show ?thesis by auto
qed

lemma Utf8Read_write:
  assumes "scalar c" and "no_cont rest"
  shows "sqlite3Utf8Read (WRITE_UTF8 c @ rest) = (c, rest)"
proof -
  have c: "unat c < 0x110000" using assms(1) by (simp add: scalar_def word_less_nat_alt)
  have finish: "sqlite3Utf8Read (WRITE_UTF8 c @ rest) = (c, rest)"
    if "WRITE_UTF8 c = b # bs" "192 \<le> unat b" "0x80 \<le> unat c"
      "utf8_tail (sqlite3Utf8Trans1 ! (unat b - 192)) (bs @ rest) = (d, rest)" "unat d = unat c"
    for b bs d
  proof -
    have "d = c" using that(5) by (rule u32_eq)
    then show ?thesis
      using that read_lead [OF that(2,4)] replaced_scalar [OF assms(1)] by (simp add: word_le_nat_alt)
  qed
  consider (one) "unat c < 0x80" | (two) "0x80 \<le> unat c" "unat c < 0x800"
    | (three) "0x800 \<le> unat c" "unat c < 0x10000" | (four) "0x10000 \<le> unat c"
    by linarith
  then show ?thesis
  proof cases
    case one
    from write8_bytes(1) [OF this] obtain b where b: "WRITE_UTF8 c = [b]" "unat b = unat c" by auto
    have "\<not> (0xc0 :: byte) \<le> b" "ucast b = c"
      using one b(2) by (simp_all add: byte_le_iff unat_code u32_eq)
    then show ?thesis using b(1) by simp
  next
    case two
    from write8_bytes(2) [OF two] obtain b b1 where b: "WRITE_UTF8 c = [b, b1]"
      "unat b = 192 + unat c div 64" "unat b1 = 128 + unat c mod 64" by auto
    define c0 where "c0 = sqlite3Utf8Trans1 ! (unat b - 192)"
    have i: "unat c div 64 < 32" using two by (simp add: div_less_iff_less_mult)
    then have c0: "unat c0 = unat c div 64" using b(2) by (simp add: c0_def Trans1_value)
    from tail_value [of c0 b1 "unat c mod 64" rest] c0 i b(3) obtain d where
      "utf8_tail c0 (b1 # rest) = utf8_tail d rest" "unat d = unat c" by auto
    then show ?thesis
      using finish [OF b(1) _ two(1), of d] tail_stops [OF assms(2), of d] b(2) by (simp add: c0_def)
  next
    case three
    from write8_bytes(3) [OF three] obtain b b1 b2 where b: "WRITE_UTF8 c = [b, b1, b2]"
      "unat b = 224 + unat c div 4096" "unat b1 = 128 + unat c div 64 mod 64"
      "unat b2 = 128 + unat c mod 64" by auto
    define c0 where "c0 = sqlite3Utf8Trans1 ! (unat b - 192)"
    have i: "unat c div 4096 < 16" using three by (simp add: div_less_iff_less_mult)
    then have c0: "unat c0 = unat c div 4096" using b(2) by (simp add: c0_def Trans1_value)
    from tail_value [of c0 b1 "unat c div 64 mod 64" "b2 # rest"] c0 i b(3) obtain d1 where
      d1: "utf8_tail c0 (b1 # b2 # rest) = utf8_tail d1 (b2 # rest)"
      "unat d1 = unat c div 4096 * 64 + unat c div 64 mod 64" by auto
    have "unat c div 4096 = unat c div 64 div 64" by (simp add: div_mult2_eq [symmetric])
    then have v1: "unat d1 = unat c div 64" using d1(2) by simp
    from tail_value [of d1 b2 "unat c mod 64" rest] v1 three b(4) obtain d where
      "utf8_tail d1 (b2 # rest) = utf8_tail d rest" "unat d = unat c"
      by (auto simp: div_less_iff_less_mult)
    then show ?thesis
      using finish [OF b(1), of d] tail_stops [OF assms(2), of d] b(2) d1(1) three(1)
      by (simp add: c0_def)
  next
    case four
    from write8_bytes(4) [OF four c] obtain b b1 b2 b3 where b: "WRITE_UTF8 c = [b, b1, b2, b3]"
      "unat b = 240 + unat c div 262144" "unat b1 = 128 + unat c div 4096 mod 64"
      "unat b2 = 128 + unat c div 64 mod 64" "unat b3 = 128 + unat c mod 64" by auto
    define c0 where "c0 = sqlite3Utf8Trans1 ! (unat b - 192)"
    have i: "unat c div 262144 < 8" using c by (simp add: div_less_iff_less_mult)
    then have c0: "unat c0 = unat c div 262144" using b(2) by (simp add: c0_def Trans1_value)
    from tail_value [of c0 b1 "unat c div 4096 mod 64" "b2 # b3 # rest"] c0 i b(3) obtain d1 where
      d1: "utf8_tail c0 (b1 # b2 # b3 # rest) = utf8_tail d1 (b2 # b3 # rest)"
      "unat d1 = unat c div 262144 * 64 + unat c div 4096 mod 64" by auto
    have "unat c div 262144 = unat c div 4096 div 64" by (simp add: div_mult2_eq [symmetric])
    then have v1: "unat d1 = unat c div 4096" using d1(2) by simp
    from tail_value [of d1 b2 "unat c div 64 mod 64" "b3 # rest"] v1 c b(4) obtain d2 where
      d2: "utf8_tail d1 (b2 # b3 # rest) = utf8_tail d2 (b3 # rest)"
      "unat d2 = unat c div 4096 * 64 + unat c div 64 mod 64"
      by (auto simp: div_less_iff_less_mult)
    have "unat c div 4096 = unat c div 64 div 64" by (simp add: div_mult2_eq [symmetric])
    then have v2: "unat d2 = unat c div 64" using d2(2) by simp
    from tail_value [of d2 b3 "unat c mod 64" rest] v2 c b(5) obtain d where
      "utf8_tail d2 (b3 # rest) = utf8_tail d rest" "unat d = unat c"
      by (auto simp: div_less_iff_less_mult)
    then show ?thesis
      using finish [OF b(1), of d] tail_stops [OF assms(2), of d] b(2) d1(1) d2(1) four
      by (simp add: c0_def)
  qed
qed

text \<open>
  UTF-16: a code point above \<open>0xFFFF\<close> is \<open>0x10000 + 1024 h + l\<close>, its pair of units
  \<open>0xD800 + h\<close> and \<open>0xDC00 + l\<close>.
\<close>

lemma surrogate_bytes:
  fixes c :: u32
  assumes "unat c = 0x10000 + 1024 * h + l" and "h < 1024" and "l < 1024"
  shows "unat ((drop_bit 10 c AND 0x003F) + (drop_bit 10 (c - 0x10000) AND 0x00C0)) = h mod 256"
    "unat (0x00D8 + (drop_bit 18 (c - 0x10000) AND 0x03)) = 216 + h div 256"
    "unat (c AND 0x00FF) = l mod 256"
    "unat (0x00DC + (drop_bit 8 c AND 0x03)) = 220 + l div 256"
proof -
  have "0x10000 \<le> c" using assms(1) by (simp add: word_le_nat_alt)
  then have sub: "unat (c - 0x10000) = 1024 * h + l"
    using assms(1) by (simp add: unat_sub)
  have "(1024 * h + l) div 1024 = h" "(1024 * h + l) div 262144 = h div 256"
    using assms(3) div_mult2_eq [of "1024 * h + l" 1024 256] by simp_all
  note m = this
  have "unat c div 1024 = 64 + h" using assms(1,3) by simp
  then have lo: "unat (drop_bit 10 c AND 0x003F) = h mod 64"
    by (simp add: unat_and_mask unat_drop)
  have "drop_bit 10 (c - 0x10000) AND 0x00C0
      = push_bit 6 (drop_bit 6 (drop_bit 10 (c - 0x10000)) AND 3)"
    using and_push [of "drop_bit 10 (c - 0x10000)" 6 3] by simp
  moreover have "unat (drop_bit 6 (drop_bit 10 (c - 0x10000)) AND 3) = h div 64 mod 4"
    using unat_and_mask(5) [of "drop_bit 6 (drop_bit 10 (c - 0x10000))"]
      unat_drop [of 6 "drop_bit 10 (c - 0x10000)"] unat_drop [of 10 "c - 0x10000"] sub m(1)
    by simp
  ultimately have hi: "unat (drop_bit 10 (c - 0x10000) AND 0x00C0) = h div 64 mod 4 * 64"
    using unat_push [of "drop_bit 6 (drop_bit 10 (c - 0x10000)) AND 3" 6] by simp
  have "h mod 64 + h div 64 mod 4 * 64 = h mod 256"
    using mod_mult2_eq [of h 64 4] by simp
  moreover have "h mod 64 + h div 64 mod 4 * 64 < 2 ^ 32"
    using calculation by simp
  ultimately show "unat ((drop_bit 10 c AND 0x003F) + (drop_bit 10 (c - 0x10000) AND 0x00C0)) = h mod 256"
    using unat_add [of "drop_bit 10 c AND 0x003F" "drop_bit 10 (c - 0x10000) AND 0x00C0"] lo hi
    by simp
  have "unat (drop_bit 18 (c - 0x10000) AND 0x03) = h div 256 mod 4"
    using unat_and_mask(5) [of "drop_bit 18 (c - 0x10000)"] unat_drop [of 18 "c - 0x10000"] sub m(2)
    by simp
  moreover have "h div 256 < 4" using assms(2) by (simp add: div_less_iff_less_mult)
  ultimately show "unat (0x00D8 + (drop_bit 18 (c - 0x10000) AND 0x03)) = 216 + h div 256"
    using unat_add [of "0x00D8" "drop_bit 18 (c - 0x10000) AND 0x03"] by simp
  have "unat c = l + (64 + h) * 1024" using assms(1) by simp
  then have "unat c mod 1024 = l" using assms(3) by (simp only: mod_mult_self1 mod_less)
  then have split: "l = unat c div 256 mod 4 * 256 + unat c mod 256"
    using mod_mult2_eq [of "unat c" 256 4] by simp
  have l: "unat c mod 256 = l mod 256" "unat c div 256 mod 4 = l div 256"
    by (simp_all add: split)
  then show "unat (c AND 0x00FF) = l mod 256" by (simp add: unat_and_mask)
  show "unat (0x00DC + (drop_bit 8 c AND 0x03)) = 220 + l div 256"
    using unat_add [of "0x00DC" "drop_bit 8 c AND 0x03"] unat_and_mask(5) [of "drop_bit 8 c"]
      unat_drop [of 8 c] l(2) assms(3) by simp
qed

lemma unat_ucast_u16_byte: "unat x < 256 \<Longrightarrow> unat (ucast (x :: u32) :: byte) = unat x"
  by (simp add: unat_byte)

lemma byte_at_simps [simp]:
  "byte_at (b # z) 0 = ucast b" "byte_at (b # b' # z) (Suc 0) = ucast b'"
  by (simp_all add: byte_at_def)

lemma unit_value:
  "unat (unit_LE (b # b' # z)) = unat b + 256 * unat b'"
  "unat (unit_BE (b # b' # z)) = 256 * unat b + unat b'"
proof -
  have p: "unat (push_bit 8 (ucast d :: u32)) = 256 * unat d" for d :: byte
    using unat_push [of "ucast d" 8] unat_byte_bound [of d] by (simp add: unat_code)
  show "unat (unit_LE (b # b' # z)) = unat b + 256 * unat b'"
    using unat_add [of "ucast b" "push_bit 8 (ucast b')"] unat_byte_bound [of b]
      unat_byte_bound [of b'] p [of b']
    by (simp add: unit_LE_def unat_code)
  show "unat (unit_BE (b # b' # z)) = 256 * unat b + unat b'"
    using unat_add [of "push_bit 8 (ucast b)" "ucast b'"] unat_byte_bound [of b]
      unat_byte_bound [of b'] p [of b]
    by (simp add: unit_BE_def unat_code)
qed

text \<open>Reading a pair.\<close>

lemma read_pair:
  assumes "unat (unit z) = 0xD800 + h" and "h < 1024"
    and "unat (unit (drop 2 z)) = 0xDC00 + l" and "l < 1024" and "drop 2 z \<noteq> []"
  shows "\<exists>c. read_utf16 unit False z = (c, drop 4 z) \<and> unat c = 0x10000 + 1024 * h + l"
proof -
  define u where "u = unit z"
  define v where "v = unit (drop 2 z)"
  have sur: "u \<ge> 0xD800 \<and> u < 0xE000"
    using assms(1,2) by (simp add: u_def word_le_nat_alt word_less_nat_alt)
  have v: "unat (v AND 0x03FF) = l"
  proof -
    have "unat v = l + 55 * 1024" using assms(3) by (simp add: v_def)
    then have "unat v mod 1024 = l" using assms(4) by (simp only: mod_mult_self1 mod_less)
    then show ?thesis by (simp add: unat_and_mask)
  qed
  have uu: "unat u = h + 864 * 64" using assms(1) by (simp add: u_def)
  then have "unat u mod 64 = h mod 64" by (simp only: mod_mult_self1)
  then have lo: "unat (push_bit 10 (u AND 0x003F)) = h mod 64 * 1024"
    using unat_push [of "u AND 0x003F" 10] by (simp add: unat_and_mask)
  have "unat u div 64 = h div 64 + 54 * 16" using uu by simp
  then have "unat u div 64 mod 16 = h div 64 mod 16" by (simp only: mod_mult_self1)
  moreover have "h div 64 < 16" using assms(2) by (simp add: div_less_iff_less_mult)
  ultimately have "unat (drop_bit 6 u AND 0xF) = h div 64"
    using unat_and_mask(3) [of "drop_bit 6 u"] unat_drop [of 6 u] by simp
  moreover have "u AND 0x03C0 = push_bit 6 (drop_bit 6 u AND 0xF)"
    using and_push [of u 6 "0xF"] by simp
  ultimately have "unat (u AND 0x03C0) = h div 64 * 64"
    using unat_push [of "drop_bit 6 u AND 0xF" 6] assms(2) by simp
  moreover have "h div 64 * 64 \<le> h" by simp
  ultimately have "unat ((u AND 0x03C0) + 0x0040) = h div 64 * 64 + 64"
    using unat_add [of "u AND 0x03C0" "0x0040"] assms(2) by simp
  then have hi: "unat (push_bit 10 ((u AND 0x03C0) + 0x0040)) = (h div 64 * 64 + 64) * 1024"
    using unat_push [of "(u AND 0x03C0) + 0x0040" 10] assms(2) \<open>h div 64 * 64 \<le> h\<close> by simp
  define c where "c = (v AND 0x03FF) + push_bit 10 (u AND 0x003F)
    + push_bit 10 ((u AND 0x03C0) + 0x0040)"
  have "h mod 64 < 64" by simp
  have "unat ((v AND 0x03FF) + push_bit 10 (u AND 0x003F)) = l + h mod 64 * 1024"
    using unat_add [of "v AND 0x03FF" "push_bit 10 (u AND 0x003F)"] v lo assms(4) \<open>h mod 64 < 64\<close>
    by simp
  then have "unat c = l + h mod 64 * 1024 + (h div 64 * 64 + 64) * 1024"
    using unat_add [of "(v AND 0x03FF) + push_bit 10 (u AND 0x003F)"
        "push_bit 10 ((u AND 0x03C0) + 0x0040)"] hi assms(2,4) \<open>h mod 64 < 64\<close>
      \<open>h div 64 * 64 \<le> h\<close>
    by (simp add: c_def)
  moreover have "l + y * 1024 + (x * 64 + 64) * 1024 = 0x10000 + 1024 * h + l"
    if "x * 64 + y = h" for x y
    unfolding that [symmetric] by simp
  note this [OF div_mult_mod_eq]
  ultimately have "unat c = 0x10000 + 1024 * h + l" by (simp only:)
  moreover have "read_utf16 unit False z = (c, drop 4 z)"
    using sur assms(5) by (simp add: read_utf16_def u_def v_def c_def Let_def)
  ultimately show ?thesis by blast
qed

lemma scalar_split:
  assumes "scalar c" and "\<not> c \<le> 0xFFFF"
  shows "\<exists>h l. unat c = 0x10000 + 1024 * h + l \<and> h < 1024 \<and> l < 1024"
proof -
  define m where "m = unat c - 0x10000"
  have "unat c < 0x110000" "0xFFFF < unat c"
    using assms by (simp_all add: scalar_def word_le_nat_alt word_less_nat_alt)
  then have "unat c = 0x10000 + m" "m < 1024 * 1024" unfolding m_def by linarith+
  then show ?thesis
    by (intro exI [of _ "m div 1024"] exI [of _ "m mod 1024"]) (simp add: div_less_iff_less_mult)
qed

lemma read16_unpaired:
  assumes "scalar c" and "unat (unit (p # q # rest)) = unat c" and "c \<le> 0xFFFF"
  shows "read_utf16 unit False (p # q # rest) = (c, rest)"
proof -
  have "unit (p # q # rest) = c" using assms(2) by (rule u32_eq)
  then show ?thesis using assms(1,3) by (auto simp: read_utf16_def Let_def scalar_def)
qed

lemma read_write16_LE:
  assumes "scalar c"
  shows "read_utf16 unit_LE False (WRITE_UTF16LE c @ rest) = (c, rest)"
proof (cases "c \<le> 0xFFFF")
  case True
  then have n: "unat c < 65536" by (simp add: word_le_nat_alt)
  then have "unat c div 256 < 256" by (simp add: div_less_iff_less_mult)
  then have "unat (unit_LE (ucast (c AND 0x00FF) # ucast (drop_bit 8 c AND 0x00FF) # rest)) = unat c"
    by (simp add: unit_value unat_byte unat_and_mask unat_drop)
  with read16_unpaired [OF assms] True show ?thesis by (simp add: WRITE_UTF16LE_def)
next
  case False
  obtain h l where hl: "unat c = 0x10000 + 1024 * h + l" "h < 1024" "l < 1024"
    using scalar_split [OF assms False] by blast
  note b = surrogate_bytes [OF hl]
  have lt: "h div 256 < 4" "l div 256 < 4" using hl by (simp_all add: div_less_iff_less_mult)
  obtain b0 b1 b2 b3 where w: "WRITE_UTF16LE c = [b0, b1, b2, b3]"
    "unat b0 = h mod 256" "unat b1 = 216 + h div 256" "unat b2 = l mod 256"
    "unat b3 = 220 + l div 256"
    using False b lt by (simp add: WRITE_UTF16LE_def unat_byte)
  have "unat (unit_LE (b0 # b1 # b2 # b3 # rest)) = 0xD800 + h"
    "unat (unit_LE (drop 2 (b0 # b1 # b2 # b3 # rest))) = 0xDC00 + l"
    using w(2-5) by (simp_all add: unit_value)
  from read_pair [OF this(1) hl(2) this(2) hl(3)] obtain d where
    "read_utf16 unit_LE False (b0 # b1 # b2 # b3 # rest) = (d, rest)" "unat d = unat c"
    using hl(1) by auto
  then show ?thesis using w(1) u32_eq by simp
qed

lemma read_write16_BE:
  assumes "scalar c"
  shows "read_utf16 unit_BE False (WRITE_UTF16BE c @ rest) = (c, rest)"
proof (cases "c \<le> 0xFFFF")
  case True
  then have n: "unat c < 65536" by (simp add: word_le_nat_alt)
  then have "unat c div 256 < 256" by (simp add: div_less_iff_less_mult)
  then have "unat (unit_BE (ucast (drop_bit 8 c AND 0x00FF) # ucast (c AND 0x00FF) # rest)) = unat c"
    by (simp add: unit_value unat_byte unat_and_mask unat_drop)
  with read16_unpaired [OF assms] True show ?thesis by (simp add: WRITE_UTF16BE_def)
next
  case False
  obtain h l where hl: "unat c = 0x10000 + 1024 * h + l" "h < 1024" "l < 1024"
    using scalar_split [OF assms False] by blast
  note b = surrogate_bytes [OF hl]
  have lt: "h div 256 < 4" "l div 256 < 4" using hl by (simp_all add: div_less_iff_less_mult)
  obtain b0 b1 b2 b3 where w: "WRITE_UTF16BE c = [b1, b0, b3, b2]"
    "unat b0 = h mod 256" "unat b1 = 216 + h div 256" "unat b2 = l mod 256"
    "unat b3 = 220 + l div 256"
    using False b lt by (simp add: WRITE_UTF16BE_def unat_byte)
  have "unat (unit_BE (b1 # b0 # b3 # b2 # rest)) = 0xD800 + h"
    "unat (unit_BE (drop 2 (b1 # b0 # b3 # b2 # rest))) = 0xDC00 + l"
    using w(2-5) by (simp_all add: unit_value)
  from read_pair [OF this(1) hl(2) this(2) hl(3)] obtain d where
    "read_utf16 unit_BE False (b1 # b0 # b3 # b2 # rest) = (d, rest)" "unat d = unat c"
    using hl(1) by auto
  then show ?thesis using w(1) u32_eq by simp
qed

subsection \<open>Round trip and size of whole texts\<close>

lemma no_cont_write: "scalar c \<Longrightarrow> no_cont (WRITE_UTF8 c @ z)"
proof -
  assume "scalar c"
  then have c: "unat c < 0x110000" by (simp add: scalar_def word_less_nat_alt)
  have small: "unat c < 0x800 \<Longrightarrow> unat c div 64 < 32"
    by (simp add: div_less_iff_less_mult)
  obtain b bs where "WRITE_UTF8 c = b # bs" "unat b < 128 \<or> 192 \<le> unat b"
    using write8_bytes [of c] c by (cases "unat c < 0x80"; cases "unat c < 0x800"; cases "unat c < 0x10000") auto
  then show ?thesis by (auto simp: no_cont_def cont_iff)
qed

lemma no_cont_text: "\<forall>c \<in> set cs. scalar c \<Longrightarrow> no_cont (concat (map WRITE_UTF8 cs))"
proof (cases cs)
  case (Cons c ds)
  assume "\<forall>c \<in> set cs. scalar c"
  with Cons no_cont_write [of c "concat (map WRITE_UTF8 ds)"] show ?thesis by simp
qed (simp add: no_cont_def)

lemma write_nonempty: "WRITE_UTF8 c \<noteq> []" "WRITE_UTF16LE c \<noteq> []" "WRITE_UTF16BE c \<noteq> []"
  by (simp_all add: WRITE_UTF8_def WRITE_UTF16LE_def WRITE_UTF16BE_def)

lemma utf8_codes_text: "\<forall>c \<in> set cs. scalar c \<Longrightarrow> utf8_codes (concat (map WRITE_UTF8 cs)) = cs"
proof (induction cs)
  case Nil
  then show ?case by (simp add: utf8_codes.simps)
next
  case (Cons c cs)
  have "sqlite3Utf8Read (WRITE_UTF8 c @ concat (map WRITE_UTF8 cs)) = (c, concat (map WRITE_UTF8 cs))"
    using Utf8Read_write [of c "concat (map WRITE_UTF8 cs)"] no_cont_text [of cs] Cons.prems by simp
  then show ?case using Cons write_nonempty(1) [of c]
    by (simp add: utf8_codes.simps [of "WRITE_UTF8 c @ concat (map WRITE_UTF8 cs)"])
qed

lemma utf16_codes_text:
  assumes "\<And>c rest. scalar c \<Longrightarrow> read_utf16 unit False (W c @ rest) = (c, rest)"
    and "\<And>c. W c \<noteq> []" and "\<forall>c \<in> set cs. scalar c"
  shows "utf16_codes unit (concat (map W cs)) = cs"
  using assms(3)
proof (induction cs)
  case Nil
  then show ?case by (simp add: utf16_codes.simps)
next
  case (Cons c cs)
  with assms(1) [of c "concat (map W cs)"] assms(2) [of c] show ?case
    by (simp add: utf16_codes.simps [of unit "W c @ concat (map W cs)"])
qed

lemma swap_write: "swap_bytes (WRITE_UTF16LE c @ z) = WRITE_UTF16BE c @ swap_bytes z"
  by (simp add: WRITE_UTF16LE_def WRITE_UTF16BE_def)

lemma swap_text: "swap_bytes (concat (map WRITE_UTF16LE cs)) = concat (map WRITE_UTF16BE cs)"
  by (induction cs) (simp_all add: swap_write)

lemma length_text16_even: "even (length (concat (map WRITE_UTF16LE cs)))"
  "even (length (concat (map WRITE_UTF16BE cs)))"
  by (induction cs) (auto simp: WRITE_UTF16LE_def WRITE_UTF16BE_def)

lemma length_writes:
  "length (WRITE_UTF16LE c) = (if c \<le> 0xFFFF then 2 else 4)"
  "length (WRITE_UTF16BE c) = (if c \<le> 0xFFFF then 2 else 4)"
  "length (WRITE_UTF8 c) \<le> (if unat c < 0x10000 then 3 else 4)"
  by (auto simp: WRITE_UTF16LE_def WRITE_UTF16BE_def WRITE_UTF8_def word_less_nat_alt)

lemma tail_small:
  "utf8_tail c0 z = (c, z') \<Longrightarrow> unat c0 < 32 \<Longrightarrow> length z' + 2 \<le> length z \<or> unat c < 2048"
proof -
  assume t: "utf8_tail c0 z = (c, z')" and c0: "unat c0 < 32"
  show ?thesis
  proof (cases "no_cont z")
    case True
    then show ?thesis using t c0 tail_stops [of z c0] by simp
  next
    case False
    then obtain b bs where z: "z = b # bs" "b AND 0xc0 = 0x80"
      by (auto simp: no_cont_def split: list.splits)
    define c1 where "c1 = push_bit 6 c0 + ucast (0x3f AND b)"
    have "unat b mod 64 < 64" by simp
    moreover have "unat c1 = unat c0 * 64 + unat b mod 64"
      unfolding c1_def using c0 by (intro tail_step) simp
    ultimately have c1: "unat c1 < 2048" using c0 by linarith
    have t1: "utf8_tail c1 bs = (c, z')" using t z by (simp add: c1_def)
    show ?thesis
    proof (cases "no_cont bs")
      case True
      then show ?thesis using t1 c1 tail_stops [of bs c1] by simp
    next
      case False
      then obtain b2 bs2 where "bs = b2 # bs2" "b2 AND 0xc0 = 0x80"
        by (auto simp: no_cont_def split: list.splits)
      then show ?thesis using t1 z
          utf8_tail_shorter [of "push_bit 6 c1 + ucast (0x3f AND b2)" bs2] by simp
    qed
  qed
qed

lemma lead_small: "unat (sqlite3Utf8Trans1 ! unat (b - 0xc0)) < 32" if "0xc0 \<le> (b :: byte)"
proof -
  have "unat (b - 0xc0) = unat b - 192" using that by (simp add: unat_sub)
  then have "unat (b - 0xc0) < 64" using unat_byte_bound [of b] by simp
  from Trans1_value [OF this] this show ?thesis by (simp split: if_splits)
qed

lemma utf8_read_size:
  assumes "z \<noteq> []" and "sqlite3Utf8Read z = (c, z')"
  shows "length z' < length z" and "\<not> c \<le> 0xFFFF \<Longrightarrow> length z' + 3 \<le> length z"
proof -
  show "length z' < length z" using utf8_read_shorter [OF assms(1)] assms(2) by simp
  assume big: "\<not> c \<le> 0xFFFF"
  obtain b bs where z: "z = b # bs" using assms(1) by (cases z) auto
  have hi: "0xc0 \<le> b"
  proof (rule ccontr)
    assume "\<not> 0xc0 \<le> b"
    then have "unat c = unat b" using assms(2) z by (auto simp: unat_code)
    then show False using big unat_byte_bound [of b] by (simp add: word_le_nat_alt)
  qed
  obtain d where d: "utf8_tail (sqlite3Utf8Trans1 ! unat (b - 0xc0)) bs = (d, z')" "c = replaced d"
    using assms(2) z hi by (auto split: prod.splits)
  then have "c = d" using big by (auto simp: replaced_def split: if_splits)
  then have "\<not> unat d < 2048" using big by (simp add: word_le_nat_alt)
  with tail_small [OF d(1) lead_small [OF hi]] z show "length z' + 3 \<le> length z" by simp
qed

lemma utf8_to_16_size:
  assumes "\<And>c. length (W c) = (if c \<le> 0xFFFF then 2 else 4)"
  shows "length (concat (map W (utf8_codes z))) \<le> 2 * length z"
proof (induction z rule: utf8_codes.induct)
  case (1 z)
  show ?case
  proof (cases "z = []")
    case True
    then show ?thesis by (simp add: utf8_codes.simps)
  next
    case False
    obtain c z' where r: "sqlite3Utf8Read z = (c, z')" by force
    have "length (concat (map W (utf8_codes z'))) \<le> 2 * length z'" by (rule 1 [OF False r [symmetric]])
    then show ?thesis using False r utf8_read_size [OF False r] assms [of c]
      by (cases "c \<le> 0xFFFF") (simp_all add: utf8_codes.simps [of z])
  qed
qed

lemma unit_small: "unat (unit_LE (p # q # z)) < 0x10000" "unat (unit_BE (p # q # z)) < 0x10000"
  using unat_byte_bound [of p] unat_byte_bound [of q] by (simp_all add: unit_value)

lemma utf16_to_8_size:
  assumes "\<And>p q z. unat (unit (p # q # z)) < 0x10000" and "even (length z)"
  shows "length (concat (map WRITE_UTF8 (utf16_codes unit z))) \<le> 2 * length z"
  using assms
proof (induction unit z rule: utf16_codes.induct)
  case (1 unit z)
  show ?case
  proof (cases "z = []")
    case True
    then show ?thesis by (simp add: utf16_codes.simps)
  next
    case False
    with "1.prems"(2) obtain p q rest where z: "z = p # q # rest"
      by (cases z; cases "tl z") auto
    obtain c z' where r: "read_utf16 unit False z = (c, z')" by force
    have ev: "even (length rest)" using "1.prems"(2) z by simp
    from r consider "z' = rest" "unat c < 0x10000" | "z' = drop 2 rest" "rest \<noteq> []"
      using "1.prems"(1) [of p q rest] by (auto simp: read_utf16_def Let_def z split: if_splits)
    then have "even (length z') \<and> length (WRITE_UTF8 c) + 2 * length z' \<le> 2 * length z"
    proof cases
      case 1
      then show ?thesis using ev z length_writes(3) [of c] by simp
    next
      case 2
      then have "2 \<le> length rest" using ev by (cases rest; cases "tl rest") auto
      then show ?thesis using 2 ev z length_writes(3) [of c] by (auto split: if_splits)
    qed
    then show ?thesis using "1.IH" [OF False r [symmetric] "1.prems"(1)] r False
      by (simp add: utf16_codes.simps [of unit z])
  qed
qed

subsection \<open>Properties\<close>

definition utf_bytes :: "nat \<Rightarrow> u32 list \<Rightarrow> byte list" where
  "utf_bytes enc cs = concat (map (if enc = SQLITE_UTF8 then WRITE_UTF8
     else if enc = SQLITE_UTF16LE then WRITE_UTF16LE else WRITE_UTF16BE) cs)"

text \<open>\<open>holds m enc cs\<close>: the value is the text of these code points in this encoding.\<close>

definition holds :: "Mem \<Rightarrow> nat \<Rightarrow> u32 list \<Rightarrow> bool" where
  "holds m enc cs \<longleftrightarrow> mem_enc m = enc \<and> mem_n m \<le> length (mem_z m)
     \<and> take (mem_n m) (mem_z m) = utf_bytes enc cs"

definition is_enc :: "nat \<Rightarrow> bool" where
  "is_enc e \<longleftrightarrow> e = SQLITE_UTF8 \<or> e = SQLITE_UTF16LE \<or> e = SQLITE_UTF16BE"

lemmas enc_defs = SQLITE_UTF8_def SQLITE_UTF16LE_def SQLITE_UTF16BE_def

lemma swap_swap: "swap_bytes (swap_bytes z) = z"
  by (induction z rule: swap_bytes.induct) auto

lemma length_swap: "length (swap_bytes z) = length z"
  by (induction z rule: swap_bytes.induct) auto

lemma holds_even: "holds m e cs \<Longrightarrow> e = SQLITE_UTF16LE \<or> e = SQLITE_UTF16BE \<Longrightarrow> mem_n m mod 2 = 0"
proof -
  assume m: "holds m e cs" "e = SQLITE_UTF16LE \<or> e = SQLITE_UTF16BE"
  then have "mem_n m = length (utf_bytes e cs)" by (metis holds_def length_take min.absorb2)
  moreover have "even (length (utf_bytes e cs))"
    using m(2) length_text16_even [of cs] by (auto simp: utf_bytes_def enc_defs)
  ultimately show ?thesis by presburger
qed

lemma translate_fits:
  assumes "is_enc (mem_enc m)" and "is_enc d" and "mem_enc m \<noteq> d" and "mem_n m \<le> length (mem_z m)"
  shows "sqlite3VdbeMemTranslate ok d m \<noteq> None"
proof (cases "mem_enc m = SQLITE_UTF8 \<or> d = SQLITE_UTF8")
  case False
  then show ?thesis by (simp add: sqlite3VdbeMemTranslate_def Let_def)
next
  case True
  define k where "k = mem_n m - mem_n m mod 2"
  have ev: "even k" unfolding k_def by presburger
  have "k \<le> length (mem_z m)" using assms(4) by (simp add: k_def)
  then have "length (take k (mem_z m)) = k" by simp
  then have "length (concat (map WRITE_UTF8 (utf16_codes unit_LE (take k (mem_z m))))) \<le> 2 * k"
    "length (concat (map WRITE_UTF8 (utf16_codes unit_BE (take k (mem_z m))))) \<le> 2 * k"
    using utf16_to_8_size [where unit = unit_LE and z = "take k (mem_z m)"]
      utf16_to_8_size [where unit = unit_BE and z = "take k (mem_z m)"] unit_small ev by simp_all
  note from16 = this
  have "length (take (mem_n m) (mem_z m)) = mem_n m" using assms(4) by simp
  then have "length (concat (map WRITE_UTF16LE (utf8_codes (take (mem_n m) (mem_z m))))) \<le> 2 * mem_n m"
    "length (concat (map WRITE_UTF16BE (utf8_codes (take (mem_n m) (mem_z m))))) \<le> 2 * mem_n m"
    using utf8_to_16_size [OF length_writes(1), of "take (mem_n m) (mem_z m)"]
      utf8_to_16_size [OF length_writes(2), of "take (mem_n m) (mem_z m)"] by simp_all
  with from16 True assms(1-3) show ?thesis
    by (auto simp: sqlite3VdbeMemTranslate_def Let_def is_enc_def k_def enc_defs)
qed

lemma translate_text:
  assumes "holds m e cs" and "is_enc e" and "is_enc d" and "d \<noteq> e" and "\<forall>c \<in> set cs. scalar c"
  shows "\<exists>m'. sqlite3VdbeMemTranslate True d m = Some (SQLITE_OK, m') \<and> holds m' d cs"
proof (cases "e \<noteq> SQLITE_UTF8 \<and> d \<noteq> SQLITE_UTF8")
  case True
  then have n: "mem_n m mod 2 = 0" using holds_even [OF assms(1)] assms(2) by (auto simp: is_enc_def)
  define m' where "m' = m\<lparr>mem_z := swap_bytes (take (mem_n m) (mem_z m)) @ drop (mem_n m) (mem_z m),
    mem_enc := d\<rparr>"
  have t: "take (mem_n m) (mem_z m) = utf_bytes e cs" and le: "mem_n m \<le> length (mem_z m)"
    using assms(1) by (simp_all add: holds_def)
  have "swap_bytes (utf_bytes e cs) = utf_bytes d cs"
    using True assms(2-4) swap_text [of cs] swap_swap [of "concat (map WRITE_UTF16LE cs)"]
    by (auto simp: is_enc_def utf_bytes_def enc_defs)
  moreover have "length (swap_bytes (take (mem_n m) (mem_z m))) = mem_n m"
    using le by (simp add: length_swap)
  ultimately have "holds m' d cs" using t le by (simp add: holds_def m'_def)
  moreover have "sqlite3VdbeMemTranslate True d m = Some (SQLITE_OK, m')"
    using True n assms(1) by (simp add: sqlite3VdbeMemTranslate_def Let_def m'_def holds_def)
  ultimately show ?thesis by blast
next
  case False
  have m: "mem_enc m = e" "mem_n m \<le> length (mem_z m)" "take (mem_n m) (mem_z m) = utf_bytes e cs"
    using assms(1) by (simp_all add: holds_def)
  obtain rc m' where run: "sqlite3VdbeMemTranslate True d m = Some (rc, m')"
    using translate_fits [of m d True] assms(2-4) m by auto
  have n: "d = SQLITE_UTF8 \<Longrightarrow> mem_n m - mem_n m mod 2 = mem_n m"
    using holds_even [OF assms(1)] assms(2,4) by (auto simp: is_enc_def)
  have utf8: "e = SQLITE_UTF8 \<Longrightarrow> utf8_codes (utf_bytes e cs) = cs"
    using utf8_codes_text [OF assms(5)] by (simp add: utf_bytes_def)
  have LE: "e = SQLITE_UTF16LE \<Longrightarrow> utf16_codes unit_LE (utf_bytes e cs) = cs"
    using utf16_codes_text [OF read_write16_LE write_nonempty(2) assms(5)]
    by (simp add: utf_bytes_def enc_defs)
  have BE: "e = SQLITE_UTF16BE \<Longrightarrow> utf16_codes unit_BE (utf_bytes e cs) = cs"
    using utf16_codes_text [OF read_write16_BE write_nonempty(3) assms(5)]
    by (simp add: utf_bytes_def enc_defs)
  have "rc = SQLITE_OK \<and> holds m' d cs"
  proof (cases "d = SQLITE_UTF8")
    case True
    then have "e = SQLITE_UTF16LE \<or> e = SQLITE_UTF16BE" using assms(2,4) by (auto simp: is_enc_def)
    with run True n [OF True] m LE BE show ?thesis
      by (auto simp: sqlite3VdbeMemTranslate_def Let_def holds_def utf_bytes_def enc_defs
          split: if_splits)
  next
    case ne: False
    then have "e = SQLITE_UTF8" using False by blast
    with run ne m utf8 assms(3) show ?thesis
      by (auto simp: sqlite3VdbeMemTranslate_def Let_def holds_def utf_bytes_def enc_defs is_enc_def
          split: if_splits)
  qed
  with run show ?thesis by simp
qed





end
