(* ===== verification/Like.thy ===== *)
theory Like
  imports Ctype Utf
begin

section \<open>LIKE and GLOB\<close>

text \<open>
  The pattern matcher behind the operators LIKE and GLOB (\<open>patternCompare\<close> of \<open>func.c\<close>) and
  its two entry points. Pattern and string are zero-terminated UTF-8; a pointer is the list
  of the bytes from it to the terminator. Reading at the terminator gives 0, and nothing is
  read after it.

  The matcher recurses at every place a wildcard may end. Its third result,
  \<open>SQLITE_NOWILDCARDMATCH\<close>, cuts that search short: once the part behind a later wildcard
  has matched nowhere, no other end of an earlier wildcard can help. The lemmas show that
  nothing is lost by it: the matcher decides the plain meaning of the pattern.
\<close>

subsection \<open>The matcher\<close>

text \<open>The special characters, zero-extended as the matcher keeps them.\<close>

record compareInfo =
  matchAll :: u32
  matchOne :: u32
  matchSet :: u32
  noCase :: bool

definition globInfo :: compareInfo where
  "globInfo = \<lparr>matchAll = 42, matchOne = 63, matchSet = 91, noCase = False\<rparr>"
definition likeInfoNorm :: compareInfo where
  "likeInfoNorm = \<lparr>matchAll = 37, matchOne = 95, matchSet = 0, noCase = True\<rparr>"
definition likeInfoAlt :: compareInfo where
  "likeInfoAlt = \<lparr>matchAll = 37, matchOne = 95, matchSet = 0, noCase = False\<rparr>"

datatype match_result = SQLITE_MATCH | SQLITE_NOMATCH | SQLITE_NOWILDCARDMATCH

definition Utf8Read :: "byte list \<Rightarrow> u32 \<times> byte list" where
  "Utf8Read z = (if hd0 z < 0x80 then (ucast (hd0 z), tl z) else sqlite3Utf8Read z)"

text \<open>The macros take the low byte of a code point.\<close>

definition lower_byte :: "u32 \<Rightarrow> byte" where
  "lower_byte c = sqlite3Tolower (ucast c)"

text \<open>
  Skipping wildcards that follow a wildcard: the next other character and the pattern and
  string after it, or \<open>None\<close> when the string is too short.
\<close>

function star_skip :: "compareInfo \<Rightarrow> byte list \<Rightarrow> byte list
    \<Rightarrow> (u32 \<times> byte list \<times> byte list) option" where
  "star_skip info zPattern zString =
     (let (c, zPattern') = Utf8Read zPattern in
      if zPattern \<noteq> [] \<and> (c = matchAll info \<or> c = matchOne info)
      then (if c = matchOne info
            then (let (c2, zString') = sqlite3Utf8Read zString in
                  if c2 = 0 then None else star_skip info zPattern' zString')
            else star_skip info zPattern' zString)
      else Some (c, zPattern', zString))"
  by auto

lemma Utf8Read_eq: "Utf8Read z = sqlite3Utf8Read z"
proof (cases z)
  case (Cons b bs)
  have "b < 0x80 \<Longrightarrow> \<not> 0xc0 \<le> b" by (simp add: word_less_nat_alt word_le_nat_alt)
  with Cons show ?thesis by (simp add: Utf8Read_def)
qed (simp add: Utf8Read_def)

lemma read_length: "sqlite3Utf8Read z = (c, z') \<Longrightarrow> z \<noteq> [] \<Longrightarrow> length z' < length z"
  using utf8_read_shorter [of z] by simp

termination star_skip
proof (relation "measure (\<lambda>(i, p, s). length p)", goal_cases)
qed (auto simp: Utf8Read_eq dest: read_length [OF sym])

declare star_skip.simps [simp del]

lemma star_stop:
  "sqlite3Utf8Read p = (c, p') \<Longrightarrow> p = [] \<or> c \<noteq> matchAll info \<and> c \<noteq> matchOne info \<Longrightarrow>
    star_skip info p s = Some (c, p', s)"
  by (subst star_skip.simps) (auto simp: Utf8Read_eq)

lemma star_all:
  "sqlite3Utf8Read p = (c, p') \<Longrightarrow> p \<noteq> [] \<Longrightarrow> c = matchAll info \<Longrightarrow> c \<noteq> matchOne info \<Longrightarrow>
    star_skip info p s = star_skip info p' s"
  by (subst star_skip.simps) (simp add: Utf8Read_eq)

lemma star_one:
  "sqlite3Utf8Read p = (c, p') \<Longrightarrow> p \<noteq> [] \<Longrightarrow> c = matchOne info \<Longrightarrow> sqlite3Utf8Read s = (d, s') \<Longrightarrow>
    star_skip info p s = (if d = 0 then None else star_skip info p' s')"
  by (subst star_skip.simps) (simp add: Utf8Read_eq)

text \<open>Induction over the wildcards skipped.\<close>

lemma star_skip_induct [case_names stop all one]:
  assumes "\<And>c p p' s. sqlite3Utf8Read p = (c, p') \<Longrightarrow>
      p = [] \<or> c \<noteq> matchAll info \<and> c \<noteq> matchOne info \<Longrightarrow> P p s"
    and "\<And>c p p' s. sqlite3Utf8Read p = (c, p') \<Longrightarrow> p \<noteq> [] \<Longrightarrow> c = matchAll info \<Longrightarrow>
      c \<noteq> matchOne info \<Longrightarrow> P p' s \<Longrightarrow> P p s"
    and "\<And>c p p' s d s'. sqlite3Utf8Read p = (c, p') \<Longrightarrow> p \<noteq> [] \<Longrightarrow> c = matchOne info \<Longrightarrow>
      sqlite3Utf8Read s = (d, s') \<Longrightarrow> P p' s' \<Longrightarrow> P p s"
  shows "P p s"
proof (induction "length p" arbitrary: p s rule: less_induct)
  case (less p s)
  obtain c p' where r: "sqlite3Utf8Read p = (c, p')" by force
  obtain d s' where q: "sqlite3Utf8Read s = (d, s')" by force
  show ?case
  proof (cases "p \<noteq> [] \<and> (c = matchAll info \<or> c = matchOne info)")
    case True
    then have "length p' < length p" using read_length [OF r] by simp
    then have "P p' s" "P p' s'" using less by simp_all
    then show ?thesis using True assms(2) [OF r, of s] assms(3) [OF r _ _ q]
      by (cases "c = matchOne info") simp_all
  next
    case False
    then show ?thesis using assms(1) [OF r] by blast
  qed
qed

lemma star_skip_shorter:
  "star_skip info p s = Some (c, q, t) \<Longrightarrow> c \<noteq> 0 \<Longrightarrow> length q < length p"
proof (induction p s rule: star_skip_induct [of info])
  case (stop d p p' s)
  then show ?case using star_stop [OF stop(1,2), of s]
    by (cases "p = []") (auto dest: read_length)
next
  case (all d p p' s)
  then show ?case using star_all [OF all(1-4), of s] read_length [OF all(1,2)] by simp
next
  case (one d p p' s e s')
  then show ?case using star_one [OF one(1-4)] read_length [OF one(1,2)]
    by (simp split: if_splits)
qed

text \<open>
  The three searches for the end of a wildcard. \<open>rec\<close> is the recursive call with the rest
  of the pattern.
\<close>

fun stop_search :: "(byte list \<Rightarrow> match_result) \<Rightarrow> byte list \<Rightarrow> byte list \<Rightarrow> match_result" where
  "stop_search rec zStop [] = SQLITE_NOWILDCARDMATCH"
| "stop_search rec zStop (b # zString) =
     (if b \<in> set zStop
      then (if rec zString \<noteq> SQLITE_NOMATCH then rec zString else stop_search rec zStop zString)
      else stop_search rec zStop zString)"

function char_search :: "(byte list \<Rightarrow> match_result) \<Rightarrow> u32 \<Rightarrow> byte list \<Rightarrow> match_result" where
  "char_search rec c zString =
     (if zString = [] then SQLITE_NOWILDCARDMATCH
      else (let (c2, zString') = Utf8Read zString in
        if c2 = 0 then SQLITE_NOWILDCARDMATCH
        else if c2 \<noteq> c then char_search rec c zString'
        else if rec zString' \<noteq> SQLITE_NOMATCH then rec zString'
        else char_search rec c zString'))"
  by auto
termination
proof (relation "measure (\<lambda>(r, c, s). length s)", goal_cases)
qed (auto simp: Utf8Read_eq dest: read_length [OF sym] read_length split: prod.splits)

function set_search :: "(byte list \<Rightarrow> match_result) \<Rightarrow> byte list \<Rightarrow> match_result" where
  "set_search rec zString =
     (if zString = [] then SQLITE_NOWILDCARDMATCH
      else if rec zString \<noteq> SQLITE_NOMATCH then rec zString
      else set_search rec (SQLITE_SKIP_UTF8 zString))"
  by auto
termination
  by (relation "measure (\<lambda>(r, s). length s)") (auto intro: skip_utf8_shorter)

declare char_search.simps [simp del] set_search.simps [simp del]

definition star_search :: "compareInfo \<Rightarrow> u32 \<Rightarrow> (byte list \<Rightarrow> match_result) \<Rightarrow> byte list \<Rightarrow> match_result" where
  "star_search info c rec zString =
     (if c \<le> 0x80
      then stop_search rec (if noCase info then [sqlite3Toupper (ucast c), lower_byte c]
                            else [ucast c]) zString
      else char_search rec c zString)"

text \<open>The body of a set after \<open>[\<close>: the last character read, whether \<open>c\<close> was seen, the rest.\<close>

function set_loop :: "u32 \<Rightarrow> u32 \<Rightarrow> u32 \<Rightarrow> bool \<Rightarrow> byte list \<Rightarrow> u32 \<times> bool \<times> byte list" where
  "set_loop c c2 prior_c seen zPattern =
     (if c2 \<noteq> 0 \<and> c2 \<noteq> 93
      then
        (if c2 = 45 \<and> hd0 zPattern \<noteq> 93 \<and> hd0 zPattern \<noteq> 0 \<and> prior_c > 0
         then (let (c2, zPattern) = sqlite3Utf8Read zPattern;
                   seen' = (if c \<ge> prior_c \<and> c \<le> c2 then True else seen);
                   (c2, zPattern) = sqlite3Utf8Read zPattern
               in set_loop c c2 0 seen' zPattern)
         else (let (d, zPattern) = sqlite3Utf8Read zPattern
               in set_loop c d c2 (if c = c2 then True else seen) zPattern))
      else (c2, seen, zPattern))"
  by auto

lemma read_measure: "sqlite3Utf8Read z = (c, z') \<Longrightarrow>
    length z' + (if c = 0 then 0 else 1) < length z + 1"
  using utf8_read_shorter [of z] by (cases "z = []") auto

termination set_loop
proof (relation "measure (\<lambda>(c, c2, pr, seen, z). length z + (if c2 = 0 then 0 else 1))", goal_cases)
  case (2 c c2 prior_c seen z x d z1 seen' y e z2)
  then have "sqlite3Utf8Read z = (d, z1)" "sqlite3Utf8Read z1 = (e, z2)" by simp_all
  from read_measure [OF this(1)] read_measure [OF this(2)] 2(1) show ?case by auto
next
  case (3 c c2 prior_c seen z x d z1)
  then have "sqlite3Utf8Read z = (d, z1)" by simp
  from read_measure [OF this] 3(1) show ?case by auto
qed simp

declare set_loop.simps [simp del]

text \<open>
  A set \<open>[...]\<close> against the character \<open>c\<close>: whether it matches, and the pattern behind it.
\<close>

definition match_set :: "u32 \<Rightarrow> byte list \<Rightarrow> bool \<times> byte list" where
  "match_set c zPattern =
     (let (c2, zPattern) = sqlite3Utf8Read zPattern;
          invert = (c2 = 94);
          (c2, zPattern) = (if invert then sqlite3Utf8Read zPattern else (c2, zPattern));
          seen = (c2 = 93 \<and> c = 93);
          (c2, zPattern) = (if c2 = 93 then sqlite3Utf8Read zPattern else (c2, zPattern));
          (c2, seen, zPattern) = set_loop c c2 0 seen zPattern
      in (c2 \<noteq> 0 \<and> seen \<noteq> invert, zPattern))"

lemma set_loop_shorter: "length (snd (snd (set_loop c c2 pr seen z))) \<le> length z"
proof (induction c c2 pr seen z rule: set_loop.induct)
  case (1 c c2 pr seen z)
  have le: "length (snd (sqlite3Utf8Read z)) \<le> length z" for z
    using utf8_read_shorter [of z] by (cases "z = []") auto
  obtain d z1 where r: "sqlite3Utf8Read z = (d, z1)" by force
  obtain e z2 where q: "sqlite3Utf8Read z1 = (e, z2)" by force
  have z12: "length z1 \<le> length z" "length z2 \<le> length z1" using le [of z] le [of z1] r q by simp_all
  show ?case
  proof (cases "c2 \<noteq> 0 \<and> c2 \<noteq> 93")
    case False
    then show ?thesis by (subst set_loop.simps) auto
  next
    case outer: True
    show ?thesis
    proof (cases "c2 = 45 \<and> hd0 z \<noteq> 93 \<and> hd0 z \<noteq> 0 \<and> pr > 0")
      case True
      from "1.IH"(1) [OF outer True r [symmetric] refl refl q [symmetric] refl] z12 outer True r q
      show ?thesis by (subst set_loop.simps) (simp add: Let_def)
    next
      case False
      from "1.IH"(2) [OF outer False r [symmetric] refl] z12 outer False r
      show ?thesis by (subst set_loop.simps) (auto simp: Let_def)
    qed
  qed
qed

lemma match_set_shorter: "length (snd (match_set c z)) \<le> length z"
proof -
  have le: "sqlite3Utf8Read z = (d, z1) \<Longrightarrow> length z1 \<le> length z" for z z1 d
    using utf8_read_shorter [of z] by (cases "z = []") auto
  have sl: "set_loop c c2 pr seen z = (d, g, z1) \<Longrightarrow> length z1 \<le> length z" for c2 pr seen z d g z1
    using set_loop_shorter [of c c2 pr seen z] by simp
  show ?thesis
    by (auto simp: match_set_def Let_def split: prod.splits if_splits dest!: le sl)
qed

function patternCompare :: "compareInfo \<Rightarrow> u32 \<Rightarrow> byte list \<Rightarrow> byte list \<Rightarrow> match_result" where
  "patternCompare info matchOther zPattern zString =
     (case Utf8Read zPattern of (c, zPat) \<Rightarrow>
      if zPattern = [] \<or> c = 0 then (if hd0 zString = 0 then SQLITE_MATCH else SQLITE_NOMATCH)
      else if c = matchAll info then
        (case star_skip info zPat zString of
           None \<Rightarrow> SQLITE_NOWILDCARDMATCH
         | Some (c, zPat, zStr) \<Rightarrow>
             if c = 0 then SQLITE_MATCH
             else if c = matchOther then
               (if matchSet info = 0 then
                  (case sqlite3Utf8Read zPat of (c, zPat) \<Rightarrow>
                   if c = 0 then SQLITE_NOWILDCARDMATCH
                   else star_search info c (\<lambda>s. patternCompare info matchOther zPat s) zStr)
                else set_search (\<lambda>s. patternCompare info matchOther (ucast matchOther # zPat) s) zStr)
             else star_search info c (\<lambda>s. patternCompare info matchOther zPat s) zStr)
      else if c = matchOther \<and> matchSet info \<noteq> 0 then
        (case sqlite3Utf8Read zString of (d, zStr) \<Rightarrow>
         if d = 0 then SQLITE_NOMATCH
         else case match_set d zPat of (found, zPat) \<Rightarrow>
           if found then patternCompare info matchOther zPat zStr else SQLITE_NOMATCH)
      else
        (case (if c = matchOther then sqlite3Utf8Read zPat else (c, zPat)) of (c1, zPat) \<Rightarrow>
         if c1 = 0 then SQLITE_NOMATCH
         else case Utf8Read zString of (c2, zStr) \<Rightarrow>
           if c1 = c2
              \<or> (noCase info \<and> lower_byte c1 = lower_byte c2 \<and> c1 < 0x80 \<and> c2 < 0x80)
              \<or> (c1 = matchOne info \<and> c \<noteq> matchOther \<and> c2 \<noteq> 0)
           then patternCompare info matchOther zPat zStr
           else SQLITE_NOMATCH))"
  by auto

lemma read_le: "sqlite3Utf8Read z = (d, z1) \<Longrightarrow> length z1 \<le> length z"
  using utf8_read_shorter [of z] by (cases "z = []") auto

lemma wild_shorter:
  assumes "(c, zP) = Utf8Read p" and "p \<noteq> []" and "star_skip info zP s = Some (c', q, u)"
    and "c' \<noteq> 0"
  shows "Suc (length q) < length p"
proof -
  have "length zP < length p" using assms(1,2) by (auto simp: Utf8Read_eq dest: read_length [OF sym])
  moreover have "length q < length zP" by (rule star_skip_shorter [OF assms(3,4)])
  ultimately show ?thesis by simp
qed

lemma wild_escape_shorter:
  "(c, zP) = Utf8Read p \<Longrightarrow> p \<noteq> [] \<Longrightarrow> star_skip info zP s = Some (c', q, u) \<Longrightarrow>
    c' \<noteq> 0 \<Longrightarrow> (d, q') = sqlite3Utf8Read q \<Longrightarrow> length q' < length p"
  using wild_shorter [of c zP p info s c' q u] read_le [of q d q'] by simp

lemma set_shorter:
  "(c, zP) = Utf8Read p \<Longrightarrow> p \<noteq> [] \<Longrightarrow> (found, q) = match_set d zP \<Longrightarrow> length q < length p"
  using match_set_shorter [of d zP] read_length [of p c zP]
  by (metis Utf8Read_eq le_less_trans snd_conv)

lemma next_shorter:
  "(c, zP) = Utf8Read p \<Longrightarrow> p \<noteq> [] \<Longrightarrow>
    (d, q) = (if b then sqlite3Utf8Read zP else (c, zP)) \<Longrightarrow> length q < length p"
proof -
  assume r: "(c, zP) = Utf8Read p" and ne: "p \<noteq> []"
    and q: "(d, q) = (if b then sqlite3Utf8Read zP else (c, zP))"
  have l: "length zP < length p" using r ne read_length [of p c zP] by (simp add: Utf8Read_eq)
  show ?thesis
  proof (cases b)
    case True
    with q have "sqlite3Utf8Read zP = (d, q)" by simp
    from read_le [OF this] l show ?thesis by simp
  qed (use q l in simp)
qed

termination patternCompare
  by (relation "measure (\<lambda>(i, m, p, s). length p)")
    (auto dest: wild_shorter wild_escape_shorter set_shorter next_shorter simp del: split_paired_All)

declare patternCompare.simps [simp del]

definition sqlite3_strglob :: "byte list \<Rightarrow> byte list \<Rightarrow> match_result" where
  "sqlite3_strglob zGlobPattern zString = patternCompare globInfo 91 zGlobPattern zString"

definition sqlite3_strlike :: "byte list \<Rightarrow> byte list \<Rightarrow> u32 \<Rightarrow> match_result" where
  "sqlite3_strlike zPattern zStr esc = patternCompare likeInfoNorm esc zPattern zStr"

subsection \<open>The meaning of a pattern\<close>

text \<open>
  A pattern is a list of tokens over code points. \<open>Fail\<close> stands for an escape without a
  character or a set without an end, which nothing matches.
\<close>

datatype tok = Any | One | Lit u32 | OneOf "u32 \<Rightarrow> bool" | Fail

definition same_char :: "compareInfo \<Rightarrow> u32 \<Rightarrow> u32 \<Rightarrow> bool" where
  "same_char info p c \<longleftrightarrow> p = c \<or> (noCase info \<and> p < 0x80 \<and> c < 0x80 \<and> lower_byte p = lower_byte c)"

fun tmatch :: "compareInfo \<Rightarrow> tok list \<Rightarrow> u32 list \<Rightarrow> bool" where
  "tmatch info [] s \<longleftrightarrow> s = []"
| "tmatch info (Any # ts) [] \<longleftrightarrow> tmatch info ts []"
| "tmatch info (Any # ts) (c # s) \<longleftrightarrow> tmatch info ts (c # s) \<or> tmatch info (Any # ts) s"
| "tmatch info (One # ts) (c # s) \<longleftrightarrow> tmatch info ts s"
| "tmatch info (Lit p # ts) (c # s) \<longleftrightarrow> same_char info p c \<and> tmatch info ts s"
| "tmatch info (OneOf P # ts) (c # s) \<longleftrightarrow> P c \<and> tmatch info ts s"
| "tmatch info (t # ts) s \<longleftrightarrow> False"

text \<open>
  The items of a set are ranges, a single character being a range of its own; a range needs
  a character before the hyphen that does not end a range itself.
\<close>

fun set_items :: "u32 list \<Rightarrow> u32 \<Rightarrow> ((u32 \<times> u32) list \<times> u32 list) option" where
  "set_items [] prior = None"
| "set_items [c] prior = (if c = 93 then Some ([], []) else None)"
| "set_items (c # d # cs) prior =
     (if c = 93 then Some ([], d # cs)
      else if c = 45 \<and> d \<noteq> 93 \<and> prior \<noteq> 0
      then map_option (\<lambda>(items, rest). ((prior, d) # items, rest)) (set_items cs 0)
      else map_option (\<lambda>(items, rest). ((c, c) # items, rest)) (set_items (d # cs) c))"

definition in_items :: "u32 \<Rightarrow> (u32 \<times> u32) list \<Rightarrow> bool" where
  "in_items c items \<longleftrightarrow> list_ex (\<lambda>(lo, hi). lo \<le> c \<and> c \<le> hi) items"

fun drop_if :: "u32 \<Rightarrow> u32 list \<Rightarrow> bool \<times> u32 list" where
  "drop_if x (c # cs) = (if c = x then (True, cs) else (False, c # cs))"
| "drop_if x [] = (False, [])"

definition set_parse :: "u32 list \<Rightarrow> ((u32 \<Rightarrow> bool) \<times> u32 list) option" where
  "set_parse cs =
     (let (invert, cs) = drop_if 94 cs; (bracket, cs) = drop_if 93 cs
      in map_option (\<lambda>(items, rest).
           (\<lambda>c. ((bracket \<and> c = 93) \<or> in_items c items) \<noteq> invert, rest)) (set_items cs 0))"

lemma set_items_shorter: "set_items cs pr = Some (items, rest) \<Longrightarrow> length rest < length cs"
  by (induction cs pr arbitrary: items rule: set_items.induct) (fastforce split: if_splits)+

lemma drop_if_shorter: "length (snd (drop_if x cs)) \<le> length cs"
  by (cases "(x, cs)" rule: drop_if.cases) auto

lemma set_parse_shorter: "set_parse cs = Some (P, rest) \<Longrightarrow> length rest < length cs"
proof -
  assume "set_parse cs = Some (P, rest)"
  then obtain items where "set_items (snd (drop_if 93 (snd (drop_if 94 cs)))) 0 = Some (items, rest)"
    by (auto simp: set_parse_def Let_def split: prod.splits)
  from set_items_shorter [OF this] drop_if_shorter [of 93 "snd (drop_if 94 cs)"]
    drop_if_shorter [of 94 cs] show ?thesis by linarith
qed

function tokens :: "compareInfo \<Rightarrow> u32 \<Rightarrow> u32 list \<Rightarrow> tok list" where
  "tokens info matchOther [] = []"
| "tokens info matchOther (c # cs) =
     (if c = matchAll info then Any # tokens info matchOther cs
      else if c = matchOther then
        (if matchSet info = 0
         then (case cs of [] \<Rightarrow> [Fail] | d # ds \<Rightarrow> Lit d # tokens info matchOther ds)
         else (case set_parse cs of None \<Rightarrow> [Fail]
               | Some (P, rest) \<Rightarrow> OneOf P # tokens info matchOther rest))
      else if c = matchOne info then One # tokens info matchOther cs
      else Lit c # tokens info matchOther cs)"
  by pat_completeness auto
termination
  by (relation "measure (\<lambda>(i, m, cs). length cs)") (auto dest: set_parse_shorter)

declare tokens.simps(2) [simp del]

subsection \<open>Strings as code points\<close>

lemma tail_suffix: "utf8_tail c z = (d, z') \<Longrightarrow> \<exists>pre. z = pre @ z'"
proof (induction c z rule: utf8_tail.induct)
  case (2 c b z)
  show ?case
  proof (cases "b AND 0xc0 = 0x80")
    case True
    with 2 obtain pre where "z = pre @ z'" by auto
    then show ?thesis by (metis append_Cons)
  qed (use 2 in simp)
qed simp

lemma read_suffix: "sqlite3Utf8Read z = (c, z') \<Longrightarrow> \<exists>pre. z = pre @ z'"
proof (cases z)
  case (Cons b bs)
  assume r: "sqlite3Utf8Read z = (c, z')"
  show ?thesis
  proof (cases "0xc0 \<le> b")
    case True
    then obtain d where "utf8_tail (sqlite3Utf8Trans1 ! unat (b - 0xc0)) bs = (d, z')"
      using r Cons by (auto split: prod.splits)
    from tail_suffix [OF this] Cons show ?thesis by (metis append_Cons)
  next
    case False
    then have "z = [b] @ z'" using r Cons by simp
    then show ?thesis by blast
  qed
qed simp

lemma replaced_big: "0x80 \<le> replaced c"
  by (auto simp: replaced_def not_less)

text \<open>The first byte decides whether a character is ASCII.\<close>

lemma read_Cons:
  assumes "sqlite3Utf8Read (b # z) = (c, z')"
  shows "(b < 0x80 \<and> c = ucast b \<and> z' = z) \<or> (\<not> b < 0x80 \<and> 0x80 \<le> c)"
proof (cases "0xc0 \<le> b")
  case True
  then have "\<not> b < 0x80" by (simp add: word_less_nat_alt word_le_nat_alt)
  then show ?thesis using True assms replaced_big by (auto split: prod.splits)
next
  case False
  then show ?thesis using assms
    by (auto simp: word_less_nat_alt word_le_nat_alt unat_code)
qed

lemma c_string_append [simp]: "c_string (x @ y) \<longleftrightarrow> c_string x \<and> c_string y"
  by (auto simp: c_string_def)

lemma read_codes:
  assumes "c_string z" and "sqlite3Utf8Read z = (c, z')"
  shows "c_string z'" and "c = 0 \<longleftrightarrow> z = []" and "utf8_codes z = (if c = 0 then [] else c # utf8_codes z')"
proof -
  show "c_string z'" using assms(1) read_suffix [OF assms(2)] by auto
  show iff: "c = 0 \<longleftrightarrow> z = []"
  proof (cases z)
    case (Cons b bs)
    then have "b \<noteq> 0" using assms(1) by simp
    then have "unat b \<noteq> 0" by (simp add: unat_eq_zero)
    moreover have "(c = ucast b) \<or> 0x80 \<le> c" using read_Cons [of b bs c z'] assms(2) Cons by auto
    ultimately have "unat c \<noteq> 0" by (auto simp: unat_code word_le_nat_alt)
    then have "c \<noteq> 0" by auto
    then show ?thesis using Cons by simp
  qed (use assms(2) in simp)
  show "utf8_codes z = (if c = 0 then [] else c # utf8_codes z')"
    using iff assms(2) by (subst utf8_codes.simps) simp
qed

subsection \<open>Searching for the end of a wildcard\<close>

lemma any_iff: "tmatch info (Any # ts) s \<longleftrightarrow> (\<exists>k. tmatch info ts (drop k s))"
proof (induction s)
  case (Cons c s)
  have "(\<exists>k. tmatch info ts (drop k (c # s)))
      \<longleftrightarrow> tmatch info ts (c # s) \<or> (\<exists>k. tmatch info ts (drop k s))"
  proof
    assume "\<exists>k. tmatch info ts (drop k (c # s))"
    then obtain k where "tmatch info ts (drop k (c # s))" ..
    then show "tmatch info ts (c # s) \<or> (\<exists>k. tmatch info ts (drop k s))"
      by (cases k) auto
  next
    assume "tmatch info ts (c # s) \<or> (\<exists>k. tmatch info ts (drop k s))"
    then show "\<exists>k. tmatch info ts (drop k (c # s))" by (metis drop0 drop_Suc_Cons)
  qed
  with Cons show ?case by simp
qed simp

lemma any_any: "tmatch info (Any # Any # ts) s = tmatch info (Any # ts) s"
proof -
  have "(\<exists>k j. tmatch info ts (drop j (drop k s))) = (\<exists>k. tmatch info ts (drop k s))"
    by (metis drop_drop drop0)
  then show ?thesis by (simp only: any_iff)
qed

lemma any_one:
  "tmatch info (Any # One # ts) [] = False"
  "tmatch info (Any # One # ts) (c # s) = tmatch info (Any # ts) s"
proof -
  show "tmatch info (Any # One # ts) [] = False" by simp
  show "tmatch info (Any # One # ts) (c # s) = tmatch info (Any # ts) s"
  proof (induction s arbitrary: c)
    case (Cons d s)
    show ?case unfolding tmatch.simps(3) [of info "One # ts" c "d # s"] Cons by simp
  qed simp
qed

lemma any_mono: "tmatch info (Any # ts) (drop k s) \<Longrightarrow> tmatch info (Any # ts) s"
  by (metis any_iff drop_drop)

text \<open>
  \<open>rec\<close> decides \<open>T\<close>: it finds a match exactly when there is one, and when it gives up on
  wildcards then no later start would have matched either.
\<close>

definition decides :: "compareInfo \<Rightarrow> (byte list \<Rightarrow> match_result) \<Rightarrow> tok list \<Rightarrow> bool" where
  "decides info rec T \<longleftrightarrow> (\<forall>s. c_string s \<longrightarrow>
     (rec s = SQLITE_MATCH \<longleftrightarrow> tmatch info T (utf8_codes s))
     \<and> (rec s = SQLITE_NOWILDCARDMATCH \<longrightarrow> \<not> tmatch info (Any # T) (utf8_codes s)))"

text \<open>\<open>ends\<close>: a search that has found the answer for a wildcard in front of \<open>T\<close>.\<close>

definition ends :: "compareInfo \<Rightarrow> match_result \<Rightarrow> tok list \<Rightarrow> byte list \<Rightarrow> bool" where
  "ends info r T s \<longleftrightarrow> r \<noteq> SQLITE_NOMATCH
     \<and> (r = SQLITE_MATCH \<longleftrightarrow> tmatch info (Any # T) (utf8_codes s))"

lemma endsI: "ends info r T s \<Longrightarrow>
    (r = SQLITE_MATCH \<longleftrightarrow> tmatch info (Any # T) (utf8_codes s))
    \<and> (r = SQLITE_NOWILDCARDMATCH \<longrightarrow> \<not> tmatch info (Any # Any # T) (utf8_codes s))"
  by (auto simp: ends_def any_any)

text \<open>One step of a search: the literal is at the front or not.\<close>

lemma ends_miss:
  assumes "utf8_codes s = d # utf8_codes s'" and "\<not> same_char info c d"
    and "ends info r (Lit c # T) s'"
  shows "ends info r (Lit c # T) s"
  using assms by (simp add: ends_def)

lemma ends_hit:
  assumes "utf8_codes s = d # utf8_codes s'" and "c_string s'" and "same_char info c d"
    and "decides info rec T" and "ends info r (Lit c # T) s'"
  shows "ends info (if rec s' \<noteq> SQLITE_NOMATCH then rec s' else r) (Lit c # T) s"
proof (cases "rec s'")
  case SQLITE_MATCH
  then have "tmatch info T (utf8_codes s')" using assms(2,4) by (simp add: decides_def)
  with SQLITE_MATCH assms(1,3) show ?thesis by (simp add: ends_def)
next
  case SQLITE_NOMATCH
  then have "\<not> tmatch info T (utf8_codes s')" using assms(2,4) by (auto simp: decides_def)
  with SQLITE_NOMATCH assms(1,5) show ?thesis by (simp add: ends_def)
next
  case SQLITE_NOWILDCARDMATCH
  then have no: "\<not> tmatch info (Any # T) (utf8_codes s')" using assms(2,4) by (simp add: decides_def)
  have "\<not> tmatch info (Any # Lit c # T) (d # utf8_codes s')"
  proof
    assume "tmatch info (Any # Lit c # T) (d # utf8_codes s')"
    then obtain k where k: "tmatch info (Lit c # T) (drop k (d # utf8_codes s'))"
      by (auto simp only: any_iff)
    then obtain x xs where "drop k (d # utf8_codes s') = x # xs" "tmatch info T xs"
      by (cases "drop k (d # utf8_codes s')") auto
    then have "tmatch info T (drop k (utf8_codes s'))"
      by (metis drop_Suc_Cons drop_Suc list.sel(3) tl_drop)
    then show False using no by (auto simp only: any_iff)
  qed
  with SQLITE_NOWILDCARDMATCH assms(1) show ?thesis by (simp add: ends_def)
qed

lemma ends_empty: "ends info SQLITE_NOWILDCARDMATCH (Lit c # T) []"
  by (simp add: ends_def utf8_codes.simps)

lemma char_search_spec:
  assumes "decides info rec T" and "\<And>x. same_char info c x \<longleftrightarrow> x = c"
  shows "c_string s \<Longrightarrow> ends info (char_search rec c s) (Lit c # T) s"
proof (induction "length s" arbitrary: s rule: less_induct)
  case (less s)
  show ?case
  proof (cases "s = []")
    case True
    then show ?thesis by (simp add: char_search.simps ends_empty)
  next
    case False
    obtain d s' where r: "sqlite3Utf8Read s = (d, s')" by force
    note codes = read_codes [OF less.prems r]
    have d: "d \<noteq> 0" "utf8_codes s = d # utf8_codes s'" using codes(2,3) False by simp_all
    have IH: "ends info (char_search rec c s') (Lit c # T) s'"
      by (rule less.hyps [OF read_length [OF r False] codes(1)])
    have step: "char_search rec c s = (if d \<noteq> c then char_search rec c s'
        else if rec s' \<noteq> SQLITE_NOMATCH then rec s' else char_search rec c s')"
      using False r d(1) by (subst char_search.simps) (simp add: Utf8Read_eq)
    show ?thesis
    proof (cases "d = c")
      case True
      then have "same_char info c d" using assms(2) by simp
      from ends_hit [OF d(2) codes(1) this assms(1) IH] step True show ?thesis by simp
    next
      case False
      then have "\<not> same_char info c d" using assms(2) by simp
      from ends_miss [OF d(2) this IH] step False show ?thesis by simp
    qed
  qed
qed

lemma stop_search_tail:
  assumes "\<forall>b \<in> set Z. b < 0x80"
  shows "utf8_tail c z = (d, z') \<Longrightarrow> stop_search rec Z z = stop_search rec Z z'"
proof (induction c z rule: utf8_tail.induct)
  case (2 c b z)
  show ?case
  proof (cases "b AND 0xc0 = 0x80")
    case True
    then have "\<not> b < 0x80" by (simp add: cont_iff word_less_nat_alt)
    then have "b \<notin> set Z" using assms by blast
    with 2 True show ?thesis by simp
  qed (use 2 in simp)
qed simp

lemma stop_search_spec:
  assumes "decides info rec T" and "\<forall>b \<in> set Z. b < 0x80"
    and "\<And>x. same_char info c x \<longleftrightarrow> x \<in> ucast ` set Z"
  shows "c_string s \<Longrightarrow> ends info (stop_search rec Z s) (Lit c # T) s"
proof (induction "length s" arbitrary: s rule: less_induct)
  case (less s)
  show ?case
  proof (cases s)
    case Nil
    then show ?thesis by (simp add: ends_empty)
  next
    case (Cons b z)
    obtain d s' where r: "sqlite3Utf8Read s = (d, s')" by force
    note codes = read_codes [OF less.prems r]
    have d: "d \<noteq> 0" "utf8_codes s = d # utf8_codes s'" using codes(2,3) Cons by simp_all
    have IH: "ends info (stop_search rec Z s') (Lit c # T) s'"
      by (rule less.hyps [OF read_length [OF r] codes(1)]) (simp add: Cons)
    show ?thesis
    proof (cases "b < 0x80")
      case True
      then have z: "s' = z" "d = ucast b" using read_Cons [of b z d s'] r Cons by auto
      have "b \<in> set Z \<longleftrightarrow> same_char info c d"
      proof
        assume "same_char info c d"
        then obtain b' where "b' \<in> set Z" "(ucast b :: u32) = ucast b'" using assms(3) z(2) by auto
        then have "unat b = unat b'" by (metis unat_code)
        then have "b = b'" by (simp add: word_unat_eq_iff)
      then show "b \<in> set Z" using \<open>b' \<in> set Z\<close> by simp
      qed (use assms(3) z(2) in simp)
      then show ?thesis
        using ends_hit [OF d(2) codes(1) _ assms(1) IH] ends_miss [OF d(2) _ IH] Cons z(1) by auto
    next
      case False
      then have "b \<notin> set Z" using assms(2) by blast
      then have "stop_search rec Z s = stop_search rec Z z" using Cons by simp
      also have "\<dots> = stop_search rec Z s'"
        using r Cons stop_search_tail [OF assms(2)] by (auto split: if_splits prod.splits)
      finally have eq: "stop_search rec Z s = stop_search rec Z s'" .
      have "0x80 \<le> d" using read_Cons [of b z d s'] r Cons False by auto
      then have "d \<notin> ucast ` set Z"
        using assms(2) by (auto simp: word_le_nat_alt word_less_nat_alt unat_code)
      then have "\<not> same_char info c d" using assms(3) by simp
      from ends_miss [OF d(2) this IH] eq show ?thesis by simp
    qed
  qed
qed

lemma skip_tail_eq: "utf8_tail c z = (d, z') \<Longrightarrow> skip_tail z = z'"
  by (induction c z rule: utf8_tail.induct) (auto split: if_splits)

lemma skip_read: "sqlite3Utf8Read z = (c, z') \<Longrightarrow> SQLITE_SKIP_UTF8 z = z'"
  by (cases z) (auto split: if_splits prod.splits dest: skip_tail_eq)

lemma set_search_spec:
  assumes "decides info rec T" and "\<not> tmatch info T []"
  shows "c_string s \<Longrightarrow> ends info (set_search rec s) T s"
proof (induction "length s" arbitrary: s rule: less_induct)
  case (less s)
  show ?case
  proof (cases "s = []")
    case True
    then show ?thesis using assms(2) by (simp add: set_search.simps ends_def utf8_codes.simps)
  next
    case False
    obtain d s' where r: "sqlite3Utf8Read s = (d, s')" by force
    note codes = read_codes [OF less.prems r]
    have d: "utf8_codes s = d # utf8_codes s'" using codes(2,3) False by simp
    have IH: "ends info (set_search rec s') T s'"
      by (rule less.hyps [OF read_length [OF r False] codes(1)])
    have step: "set_search rec s = (if rec s \<noteq> SQLITE_NOMATCH then rec s else set_search rec s')"
      using False skip_read [OF r] by (subst set_search.simps) simp
    have dec: "rec s = SQLITE_MATCH \<longleftrightarrow> tmatch info T (utf8_codes s)"
      "rec s = SQLITE_NOWILDCARDMATCH \<longrightarrow> \<not> tmatch info (Any # T) (utf8_codes s)"
      using assms(1) less.prems by (simp_all add: decides_def)
    show ?thesis
      using step dec IH d by (cases "rec s") (simp_all add: ends_def)
  qed
qed

lemma unat_tolower: "unat (sqlite3Tolower b) = (if 65 \<le> unat b \<and> unat b \<le> 90 then unat b + 32 else unat b)"
  unfolding tolower_eq
  by (rule all_bytesI [of "\<lambda>b. unat (tolower b)
    = (if 65 \<le> unat b \<and> unat b \<le> 90 then unat b + 32 else unat b)"]) code_simp

lemma unat_toupper: "unat (sqlite3Toupper b) = (if 97 \<le> unat b \<and> unat b \<le> 122 then unat b - 32 else unat b)"
  unfolding sqlite3Toupper_def ctype_table all_bytes_nth
  by (rule all_bytesI [of "\<lambda>b. unat (b AND NOT (ctype_class b AND 32))
    = (if 97 \<le> unat b \<and> unat b \<le> 122 then unat b - 32 else unat b)"]) code_simp

lemma unat_low: "unat x < 128 \<Longrightarrow> unat (ucast (x :: u32) :: byte) = unat x"
  by (simp add: unat_byte)

lemma same_fold:
  assumes "c < 0x80" and "noCase info"
  shows "same_char info c x \<longleftrightarrow> x \<in> ucast ` set [sqlite3Toupper (ucast c), lower_byte c]"
proof -
  have c: "unat c < 128" using assms(1) by (simp add: word_less_nat_alt)
  have "x \<in> ucast ` set [sqlite3Toupper (ucast c), lower_byte c]
      \<longleftrightarrow> unat x = unat (sqlite3Toupper (ucast c)) \<or> unat x = unat (sqlite3Tolower (ucast c))"
    by (auto simp: word_unat_eq_iff unat_code lower_byte_def)
  also have "\<dots> \<longleftrightarrow> unat x = (if 97 \<le> unat c \<and> unat c \<le> 122 then unat c - 32 else unat c)
      \<or> unat x = (if 65 \<le> unat c \<and> unat c \<le> 90 then unat c + 32 else unat c)"
    using unat_toupper [of "ucast c"] unat_tolower [of "ucast c"] unat_low [OF c] by simp
  also have "\<dots> \<longleftrightarrow> unat x = unat c \<or> (unat x < 128
      \<and> (if 65 \<le> unat c \<and> unat c \<le> 90 then unat c + 32 else unat c)
        = (if 65 \<le> unat x \<and> unat x \<le> 90 then unat x + 32 else unat x))"
    using c by auto
  also have "\<dots> \<longleftrightarrow> same_char info c x"
  proof (cases "unat x < 128")
    case True
    then show ?thesis using assms c unat_tolower [of "ucast c"] unat_tolower [of "ucast x"]
        unat_low [OF c] unat_low [OF True]
      by (simp add: same_char_def lower_byte_def word_unat_eq_iff word_less_nat_alt eq_commute)
  next
    case False
    then show ?thesis using c
      by (auto simp: same_char_def word_unat_eq_iff word_less_nat_alt)
  qed
  finally show ?thesis ..
qed

lemma star_search_spec:
  assumes "decides info rec T" and "c \<noteq> 0x80" and "c_string s"
  shows "ends info (star_search info c rec s) (Lit c # T) s"
proof (cases "c \<le> 0x80")
  case False
  have "same_char info c x \<longleftrightarrow> x = c" for x using False by (auto simp: same_char_def)
  from char_search_spec [OF assms(1) this assms(3)] False show ?thesis
    by (simp add: star_search_def)
next
  case le: True
  then have c: "c < 0x80" using assms(2) by (simp add: word_less_nat_alt word_le_nat_alt word_unat_eq_iff)
  then have n: "unat c < 128" by (simp add: word_less_nat_alt)
  show ?thesis
  proof (cases "noCase info")
    case True
    have "\<forall>b \<in> set [sqlite3Toupper (ucast c), lower_byte c]. b < 0x80"
      using unat_toupper [of "ucast c"] unat_tolower [of "ucast c"] unat_low [OF n] n
      by (auto simp: word_less_nat_alt lower_byte_def)
    from stop_search_spec [OF assms(1) this same_fold [OF c True] assms(3)] le True
    show ?thesis by (simp add: star_search_def)
  next
    case False
    have "\<forall>b \<in> set [ucast c :: byte]. b < 0x80" using unat_low [OF n] n by (simp add: word_less_nat_alt)
    moreover have "same_char info c x \<longleftrightarrow> x \<in> ucast ` set [ucast c :: byte]" for x
      using False unat_low [OF n] by (auto simp: same_char_def word_unat_eq_iff unat_code)
    ultimately show ?thesis using stop_search_spec [OF assms(1) _ _ assms(3)] le False
      by (simp add: star_search_def)
  qed
qed

text \<open>The wildcards after a wildcard, and the character behind them.\<close>

definition code_cons :: "u32 \<Rightarrow> byte list \<Rightarrow> u32 list" where
  "code_cons c z = (if c = 0 then [] else c # utf8_codes z)"

lemma star_skip_spec:
  assumes "matchOther \<noteq> matchAll info" and "matchOther \<noteq> matchOne info"
    and "matchAll info \<noteq> matchOne info" and "matchAll info \<noteq> 0" and "matchOne info \<noteq> 0"
  shows "c_string p \<Longrightarrow> c_string s \<Longrightarrow>
    (case star_skip info p s of
       None \<Rightarrow> \<not> tmatch info (Any # tokens info matchOther (utf8_codes p)) (utf8_codes s)
     | Some (c, q, u) \<Rightarrow> c_string q \<and> c_string u \<and> c \<noteq> matchAll info \<and> c \<noteq> matchOne info
        \<and> tmatch info (Any # tokens info matchOther (utf8_codes p)) (utf8_codes s)
          = tmatch info (Any # tokens info matchOther (code_cons c q)) (utf8_codes u))"
proof (induction p s rule: star_skip_induct [of info])
  case (stop c p p' s)
  have "c \<noteq> matchAll info \<and> c \<noteq> matchOne info"
    using stop assms(4,5) read_codes(2) [OF stop(3,1)] by auto
  then show ?case using star_stop [OF stop(1,2), of s] read_codes [OF stop(3,1)] stop(4)
    by (simp add: code_cons_def)
next
  case (all c p p' s)
  note codes = read_codes [OF all(6,1)]
  have "tokens info matchOther (utf8_codes p) = Any # tokens info matchOther (utf8_codes p')"
    using codes(2,3) all(2,3) by (simp add: tokens.simps(2))
  then show ?case using all(5) [OF codes(1) all(7)] star_all [OF all(1-4), of s]
    by (simp only: any_any)
next
  case (one c p p' s d s')
  note codes = read_codes [OF one(6,1)] and scodes = read_codes [OF one(7,4)]
  have tok: "tokens info matchOther (utf8_codes p) = One # tokens info matchOther (utf8_codes p')"
    using codes(2,3) one(2,3) assms by (simp add: tokens.simps(2))
  show ?case
  proof (cases "d = 0")
    case True
    then show ?thesis using star_one [OF one(1-4)] tok scodes(3) any_one(1) by simp
  next
    case False
    then have "utf8_codes s = d # utf8_codes s'" using scodes(3) by simp
    with one(5) [OF codes(1) scodes(1)] star_one [OF one(1-4)] False tok
    show ?thesis by (simp only: any_one(2) if_False)
  qed
qed

lemma star_skip_subset:
  "c_string p \<Longrightarrow> star_skip info p s = Some (c, q, u) \<Longrightarrow> set (code_cons c q) \<subseteq> set (utf8_codes p)"
proof (induction p s rule: star_skip_induct [of info])
  case (stop d p p' s)
  then show ?case using star_stop [OF stop(1,2), of s] read_codes(3) [OF stop(3,1)]
    by (simp add: code_cons_def)
next
  case (all d p p' s)
  then show ?case using star_all [OF all(1-4), of s] read_codes [OF all(6,1)] by auto
next
  case (one d p p' s e s')
  then show ?case using star_one [OF one(1-4)] read_codes [OF one(6,1)]
    by (auto split: if_splits)
qed

subsection \<open>Sets\<close>

lemma hd0_code:
  assumes "c_string z" and "sqlite3Utf8Read z = (d, z')"
  shows "hd0 z = 93 \<longleftrightarrow> d = 93" and "hd0 z = 0 \<longleftrightarrow> d = 0"
proof -
  have "(hd0 z = 93 \<longleftrightarrow> d = 93) \<and> (hd0 z = 0 \<longleftrightarrow> d = 0)"
  proof (cases z)
    case Nil
    then show ?thesis using assms(2) by auto
  next
    case (Cons b bs)
    then have "b \<noteq> 0" "d \<noteq> 0" using assms read_codes(2) [OF assms] by simp_all
    then show ?thesis using read_Cons [of b bs d z'] assms(2) Cons
      by (auto simp: word_unat_eq_iff unat_code word_less_nat_alt word_le_nat_alt)
  qed
  then show "hd0 z = 93 \<longleftrightarrow> d = 93" and "hd0 z = 0 \<longleftrightarrow> d = 0" by simp_all
qed

lemma code_cons_read: "c_string z \<Longrightarrow> sqlite3Utf8Read z = (d, z') \<Longrightarrow> utf8_codes z = code_cons d z'"
  using read_codes(3) by (simp add: code_cons_def)

lemma in_items_Cons: "in_items c ((lo, hi) # items) \<longleftrightarrow> lo \<le> c \<and> c \<le> hi \<or> in_items c items"
  by (simp add: in_items_def)

lemma set_items_plain:
  "c \<noteq> 93 \<Longrightarrow> \<not> (c = 45 \<and> cs \<noteq> [] \<and> hd cs \<noteq> 93 \<and> pr \<noteq> 0) \<Longrightarrow>
    set_items (c # cs) pr = map_option (\<lambda>(items, rest). ((c, c) # items, rest)) (set_items cs c)"
  by (cases cs) auto

lemma set_loop_spec:
  "c_string z \<Longrightarrow> set_loop c c2 pr seen z = (e, seen', q) \<Longrightarrow>
    (case set_items (code_cons c2 z) pr of
       None \<Rightarrow> e = 0
     | Some (items, rest) \<Rightarrow> e = 93 \<and> seen' = (seen \<or> in_items c items)
         \<and> c_string q \<and> utf8_codes q = rest)"
proof (induction c c2 pr seen z rule: set_loop.induct)
  case (1 c c2 pr seen z)
  obtain d z1 where r: "sqlite3Utf8Read z = (d, z1)" by force
  note codes = read_codes [OF "1.prems"(1) r] and hd = hd0_code [OF "1.prems"(1) r]
  have cons: "utf8_codes z = code_cons d z1" by (rule code_cons_read [OF "1.prems"(1) r])
  consider (zero) "c2 = 0" | (close) "c2 = 93"
    | (range) "c2 \<noteq> 0 \<and> c2 \<noteq> 93" "c2 = 45 \<and> hd0 z \<noteq> 93 \<and> hd0 z \<noteq> 0 \<and> pr > 0"
    | (plain) "c2 \<noteq> 0 \<and> c2 \<noteq> 93" "\<not> (c2 = 45 \<and> hd0 z \<noteq> 93 \<and> hd0 z \<noteq> 0 \<and> pr > 0)"
    by blast
  then show ?case
  proof cases
    case zero
    then show ?thesis using "1.prems"(2) by (subst (asm) set_loop.simps) (simp add: code_cons_def)
  next
    case close
    have "set_items (93 # utf8_codes z) pr = Some ([], utf8_codes z)"
      by (cases "utf8_codes z") auto
    then show ?thesis using close "1.prems"
      by (subst (asm) set_loop.simps) (simp add: code_cons_def in_items_def)
  next
    case range
    obtain f z2 where q2: "sqlite3Utf8Read z1 = (f, z2)" by force
    note codes1 = read_codes [OF codes(1) q2]
    have d: "d \<noteq> 0" "d \<noteq> 93" "pr \<noteq> 0" using hd range(2) by (auto simp: word_gt_0)
    have items: "set_items (code_cons c2 z) pr
        = map_option (\<lambda>(items, rest). ((pr, d) # items, rest)) (set_items (code_cons f z2) 0)"
      using range cons d code_cons_read [OF codes(1) q2] by (simp add: code_cons_def)
    have "set_loop c f 0 (if pr \<le> c \<and> c \<le> d then True else seen) z2 = (e, seen', q)"
      using "1.prems"(2) range r q2 by (subst (asm) set_loop.simps) (simp add: Let_def)
    from "1.IH"(1) [OF range r [symmetric] refl refl q2 [symmetric] refl codes1(1) this]
    show ?thesis unfolding items by (auto simp: in_items_Cons split: option.splits if_splits)
  next
    case plain
    have items: "set_items (code_cons c2 z) pr
        = map_option (\<lambda>(items, rest). ((c2, c2) # items, rest)) (set_items (code_cons d z1) c2)"
    proof -
      have "\<not> (c2 = 45 \<and> code_cons d z1 \<noteq> [] \<and> hd (code_cons d z1) \<noteq> 93 \<and> pr \<noteq> 0)"
        using plain(2) hd by (auto simp: code_cons_def word_gt_0)
      from set_items_plain [OF conjunct2 [OF plain(1)] this] plain(1) cons
      show ?thesis by (simp add: code_cons_def)
    qed
    have "set_loop c d c2 (if c = c2 then True else seen) z1 = (e, seen', q)"
      using "1.prems"(2) plain r by (subst (asm) set_loop.simps) (auto simp: Let_def)
    from "1.IH"(2) [OF plain r [symmetric] refl codes(1) this]
    show ?thesis unfolding items by (auto simp: in_items_Cons split: option.splits if_splits)
  qed
qed

lemma drop_if_read:
  assumes "c_string z" and "sqlite3Utf8Read z = (c, z')" and "x \<noteq> 0"
    and "(b, cs) = drop_if x (code_cons c z')"
    and "(c', z'') = (if c = x then sqlite3Utf8Read z' else (c, z'))"
  shows "b = (c = x)" and "cs = code_cons c' z''" and "c_string z''"
    and "sqlite3Utf8Read (if c = x then z' else z) = (c', z'') \<and> c_string (if c = x then z' else z)"
proof -
  note codes = read_codes [OF assms(1,2)]
  have "b = (c = x) \<and> cs = code_cons c' z'' \<and> c_string z''
    \<and> sqlite3Utf8Read (if c = x then z' else z) = (c', z'') \<and> c_string (if c = x then z' else z)"
  proof (cases "c = x")
    case True
    then have r: "sqlite3Utf8Read z' = (c', z'')" using assms(5) by simp
    show ?thesis using True r assms(3,4) codes(1) code_cons_read [OF codes(1) r]
        read_codes(1) [OF codes(1) r] by (simp add: code_cons_def)
  next
    case False
    then show ?thesis using assms codes(1) by (auto simp: code_cons_def)
  qed
  then show "b = (c = x)" and "cs = code_cons c' z''" and "c_string z''"
    and "sqlite3Utf8Read (if c = x then z' else z) = (c', z'') \<and> c_string (if c = x then z' else z)"
    by simp_all
qed

lemma match_set_spec:
  assumes "c_string z" and "match_set d z = (found, q)"
  shows "case set_parse (utf8_codes z) of
       None \<Rightarrow> \<not> found
     | Some (P, rest) \<Rightarrow> found = P d \<and> c_string q \<and> utf8_codes q = rest"
proof -
  obtain c1 z1 where r1: "sqlite3Utf8Read z = (c1, z1)" by force
  obtain b1 cs1 where d1: "(b1, cs1) = drop_if 94 (code_cons c1 z1)" by (metis prod.exhaust)
  obtain c2 z2 where r2: "(c2, z2) = (if c1 = 94 then sqlite3Utf8Read z1 else (c1, z1))"
    by (metis prod.exhaust)
  note s1 = drop_if_read [OF assms(1) r1 _ d1 r2, simplified]
  obtain b2 cs2 where d2: "(b2, cs2) = drop_if 93 (code_cons c2 z2)" by (metis prod.exhaust)
  obtain c3 z3 where r3: "(c3, z3) = (if c2 = 93 then sqlite3Utf8Read z2 else (c2, z2))"
    by (metis prod.exhaust)
  note s2 = drop_if_read [OF conjunct2 [OF s1(4)] conjunct1 [OF s1(4)] _ d2 r3, simplified]
  obtain e seen u where l: "set_loop d c3 0 (c2 = 93 \<and> d = 93) z3 = (e, seen, u)"
    by (metis prod.exhaust)
  have ms: "found = (e \<noteq> 0 \<and> seen \<noteq> (c1 = 94))" "q = u"
    using assms(2) r1 r2 r3 l
    by (auto simp: match_set_def Let_def split: prod.splits if_splits)
  have sp: "set_parse (utf8_codes z) = map_option (\<lambda>(items, rest).
      (\<lambda>c. ((c2 = 93 \<and> c = 93) \<or> in_items c items) \<noteq> (c1 = 94), rest)) (set_items (code_cons c3 z3) 0)"
    using d1 d2 s1 s2 code_cons_read [OF assms(1) r1] by (auto simp: set_parse_def split: prod.splits)
  from set_loop_spec [OF s2(3) l] show ?thesis
    unfolding sp ms by (auto split: option.splits)
qed

subsection \<open>The matcher decides the meaning\<close>

definition proper :: "compareInfo \<Rightarrow> u32 \<Rightarrow> bool" where
  "proper info matchOther \<longleftrightarrow> matchAll info \<noteq> 0 \<and> matchOne info \<noteq> 0
     \<and> matchAll info \<noteq> matchOne info \<and> matchOther \<noteq> matchAll info \<and> matchOther \<noteq> matchOne info
     \<and> (matchSet info \<noteq> 0 \<longrightarrow> 0 < matchOther \<and> matchOther < 0x80)"

text \<open>A token that takes one character.\<close>

definition takes :: "compareInfo \<Rightarrow> tok \<Rightarrow> u32 \<Rightarrow> bool" where
  "takes info t c \<longleftrightarrow> (case t of One \<Rightarrow> True | Lit p \<Rightarrow> same_char info p c | OneOf P \<Rightarrow> P c | _ \<Rightarrow> False)"

lemma tmatch_takes: "t \<noteq> Any \<Longrightarrow> tmatch info (t # ts) (c # s) \<longleftrightarrow> takes info t c \<and> tmatch info ts s"
  by (cases t) (auto simp: takes_def)

lemma tmatch_end: "t \<noteq> Any \<Longrightarrow> \<not> tmatch info (t # ts) []"
  by (cases t) auto

lemma no_later:
  assumes "t \<noteq> Any" and "\<not> tmatch info (Any # ts) s"
  shows "\<not> tmatch info (Any # t # ts) (c # s)"
proof
  assume "tmatch info (Any # t # ts) (c # s)"
  then obtain k where k: "tmatch info (t # ts) (drop k (c # s))" by (auto simp only: any_iff)
  show False
  proof (cases "drop k (c # s)")
    case Nil
    then show False using k tmatch_end [OF assms(1)] by simp
  next
    case (Cons x xs)
    then have "tmatch info ts xs" using k tmatch_takes [OF assms(1)] by simp
    moreover have "xs = drop k s" using Cons by (metis drop_Suc_Cons drop_Suc list.sel(3) tl_drop)
    ultimately show False using assms(2) by (auto simp only: any_iff)
  qed
qed

definition verdict :: "compareInfo \<Rightarrow> match_result \<Rightarrow> tok list \<Rightarrow> byte list \<Rightarrow> bool" where
  "verdict info r T s \<longleftrightarrow> (r = SQLITE_MATCH \<longleftrightarrow> tmatch info T (utf8_codes s))
     \<and> (r = SQLITE_NOWILDCARDMATCH \<longrightarrow> \<not> tmatch info (Any # T) (utf8_codes s))"

lemma decides_verdict: "decides info rec T \<longleftrightarrow> (\<forall>s. c_string s \<longrightarrow> verdict info (rec s) T s)"
  by (simp add: decides_def verdict_def)

lemma verdict_wild:
  assumes "ends info r T' u"
    and "tmatch info (Any # T) (utf8_codes s) = tmatch info (Any # T') (utf8_codes u)"
  shows "verdict info r (Any # T) s"
  using assms by (auto simp: verdict_def ends_def any_any)

lemma verdict_fail: "T \<noteq> [] \<Longrightarrow> hd T \<noteq> Any \<Longrightarrow> utf8_codes s = [] \<Longrightarrow> verdict info SQLITE_NOMATCH T s"
  using tmatch_end [of "hd T" info "tl T"] by (simp add: verdict_def)

lemma verdict_step:
  assumes "t \<noteq> Any" and "utf8_codes s = d # utf8_codes s'" and "verdict info r T s'"
  shows "verdict info (if takes info t d then r else SQLITE_NOMATCH) (t # T) s"
  using assms no_later [OF assms(1), of info T "utf8_codes s'" d]
  by (auto simp: verdict_def tmatch_takes)

lemma set_items_subset: "set_items cs pr = Some (items, rest) \<Longrightarrow> set rest \<subseteq> set cs"
  by (induction cs pr arbitrary: items rule: set_items.induct) (fastforce split: if_splits)+

lemma drop_if_subset: "set (snd (drop_if x cs)) \<subseteq> set cs"
  by (cases "(x, cs)" rule: drop_if.cases) auto

lemma set_parse_subset: "set_parse cs = Some (P, rest) \<Longrightarrow> set rest \<subseteq> set cs"
proof -
  assume "set_parse cs = Some (P, rest)"
  then obtain items where "set_items (snd (drop_if 93 (snd (drop_if 94 cs)))) 0 = Some (items, rest)"
    by (auto simp: set_parse_def Let_def split: prod.splits)
  from set_items_subset [OF this] drop_if_subset [of 93 "snd (drop_if 94 cs)"]
    drop_if_subset [of 94 cs] show ?thesis by blast
qed

lemma set_token: "matchOther \<noteq> matchAll info \<Longrightarrow> matchSet info \<noteq> 0 \<Longrightarrow>
    tokens info matchOther (matchOther # cs) =
    (case set_parse cs of None \<Rightarrow> [Fail] | Some (P, rest) \<Rightarrow> OneOf P # tokens info matchOther rest)"
  by (simp add: tokens.simps(2))

lemma escape_token: "matchOther \<noteq> matchAll info \<Longrightarrow> matchSet info = 0 \<Longrightarrow>
    tokens info matchOther (matchOther # cs) =
    (case cs of [] \<Rightarrow> [Fail] | d # ds \<Rightarrow> Lit d # tokens info matchOther ds)"
  by (simp add: tokens.simps(2))

lemma plain_token: "c \<noteq> matchAll info \<Longrightarrow> c \<noteq> matchOther \<Longrightarrow>
    tokens info matchOther (c # cs)
      = (if c = matchOne info then One else Lit c) # tokens info matchOther cs"
  by (simp add: tokens.simps(2))

lemma set_head: "\<exists>t T. (case x of None \<Rightarrow> [Fail] | Some (P, rest) \<Rightarrow> OneOf P # f rest) = t # T
    \<and> t \<noteq> Any"
  by (cases x) auto

text \<open>The pattern behind the wildcards.\<close>

lemma wild_case:
  assumes "proper info mo" and "c_string q" and "c_string u" and "0x80 \<notin> set (code_cons c q)"
    and "c \<noteq> 0" and "c \<noteq> matchAll info" and "c \<noteq> matchOne info"
    and IH: "\<And>p. length p \<le> Suc (length q) \<Longrightarrow> c_string p \<Longrightarrow> 0x80 \<notin> set (utf8_codes p) \<Longrightarrow>
      decides info (patternCompare info mo p) (tokens info mo (utf8_codes p))"
  shows "ends info
      (if c = mo then
         (if matchSet info = 0 then
            (case sqlite3Utf8Read q of (c, q) \<Rightarrow>
             if c = 0 then SQLITE_NOWILDCARDMATCH
             else star_search info c (\<lambda>s. patternCompare info mo q s) u)
          else set_search (\<lambda>s. patternCompare info mo (ucast mo # q) s) u)
       else star_search info c (\<lambda>s. patternCompare info mo q s) u)
      (tokens info mo (code_cons c q)) u"
proof -
  have codes: "code_cons c q = c # utf8_codes q" "0x80 \<notin> set (utf8_codes q)" "c \<noteq> 0x80"
    using assms(4,5) by (auto simp: code_cons_def)
  have dq: "decides info (patternCompare info mo q) (tokens info mo (utf8_codes q))"
    by (rule IH) (use assms(2) codes(2) in simp_all)
  consider (esc) "c = mo" "matchSet info = 0" | (set) "c = mo" "matchSet info \<noteq> 0" | (plain) "c \<noteq> mo"
    by blast
  then show ?thesis
  proof cases
    case esc
    obtain d q' where r: "sqlite3Utf8Read q = (d, q')" by force
    note rc = read_codes [OF assms(2) r]
    have tok: "tokens info mo (code_cons c q)
        = (case utf8_codes q of [] \<Rightarrow> [Fail] | d # ds \<Rightarrow> Lit d # tokens info mo ds)"
      using esc assms(1) codes(1) by (simp add: proper_def escape_token)
    show ?thesis
    proof (cases "d = 0")
      case True
      have "\<not> tmatch info (Any # [Fail]) S" for S by (induction S) auto
      then show ?thesis using esc True r rc(3) tok by (simp add: ends_def)
    next
      case False
      have "decides info (patternCompare info mo q') (tokens info mo (utf8_codes q'))"
        by (rule IH) (use read_le [OF r] rc codes(2) False in auto)
      moreover have "d \<noteq> 0x80" using rc(3) codes(2) False by auto
      ultimately show ?thesis using star_search_spec assms(3) esc False r rc(3) tok by simp
    qed
  next
    case set
    have mo: "0 < mo" "mo < 0x80" using assms(1) set(2) by (simp_all add: proper_def)
    then have n: "unat mo < 128" by (simp add: word_less_nat_alt)
    have uu: "unat (ucast mo :: byte) = unat mo" by (rule unat_low [OF n])
    then have mo8: "(ucast (ucast mo :: byte) :: u32) = mo"
      by (simp add: word_unat_eq_iff unat_code)
    have "\<not> (0xc0 :: byte) \<le> ucast mo" using uu n by (simp add: byte_le_iff)
    then have r: "sqlite3Utf8Read (ucast mo # q) = (mo, q)" using mo8 by simp
    have "(ucast mo :: byte) \<noteq> 0" using uu mo(1) by (auto simp: word_unat_eq_iff word_less_nat_alt)
    then have cs: "c_string (ucast mo # q)" using assms(2) by simp
    have eq: "utf8_codes (ucast mo # q) = c # utf8_codes q"
      using read_codes(3) [OF cs r] set(1) assms(5) by simp
    have "decides info (patternCompare info mo (ucast mo # q)) (tokens info mo (c # utf8_codes q))"
      using IH [of "ucast mo # q"] cs eq codes by simp
    moreover obtain t T where "tokens info mo (c # utf8_codes q) = t # T" "t \<noteq> Any"
      using set_token [of mo info "utf8_codes q"] set_head [where x = "set_parse (utf8_codes q)" and f = "tokens info mo"]
        set assms(1) by (auto simp: proper_def)
    ultimately show ?thesis
      using set_search_spec [of info "patternCompare info mo (ucast mo # q)"] tmatch_end assms(3)
        set codes(1) by simp
  next
    case plain
    then show ?thesis using star_search_spec [OF dq codes(3) assms(3)] codes(1) assms(6,7)
      by (simp add: plain_token)
  qed
qed

lemma lower_byte_zero: "lower_byte c = lower_byte 0 \<Longrightarrow> c < 0x80 \<Longrightarrow> c = 0"
proof -
  assume "lower_byte c = lower_byte 0" "c < 0x80"
  then have n: "unat c < 128" by (simp add: word_less_nat_alt)
  have "unat (sqlite3Tolower (ucast c)) = unat (sqlite3Tolower 0)"
    using \<open>lower_byte c = lower_byte 0\<close> by (simp add: lower_byte_def)
  then have "unat c = 0"
    using unat_tolower [of "ucast c"] unat_tolower [of 0] unat_low [OF n] by (simp split: if_splits)
  then show "c = 0" by (simp add: unat_eq_zero)
qed

text \<open>What the comparison of one character tests.\<close>

lemma one_char:
  assumes "c1 \<noteq> 0" and "t = (if c1 = matchOne info \<and> \<not> escaped then One else Lit c1)"
  shows "(c1 = c2 \<or> (noCase info \<and> lower_byte c1 = lower_byte c2 \<and> c1 < 0x80 \<and> c2 < 0x80)
      \<or> (c1 = matchOne info \<and> \<not> escaped \<and> c2 \<noteq> 0))
    \<longleftrightarrow> c2 \<noteq> 0 \<and> takes info t c2"
  using assms lower_byte_zero [of c1] by (auto simp: takes_def same_char_def)

lemma patternCompare_decides:
  assumes "proper info mo"
  shows "c_string p \<Longrightarrow> 0x80 \<notin> set (utf8_codes p) \<Longrightarrow>
    decides info (patternCompare info mo p) (tokens info mo (utf8_codes p))"
proof (induction "length p" arbitrary: p rule: less_induct)
  case (less p)
  note P = assms [unfolded proper_def]
  have "verdict info (patternCompare info mo p s) (tokens info mo (utf8_codes p)) s"
    if s: "c_string s" for s
  proof (cases "p = []")
    case True
    have "hd0 s = 0 \<longleftrightarrow> utf8_codes s = []"
      using s by (cases s) (auto simp: utf8_codes.simps split: prod.splits)
    then show ?thesis using True by (subst patternCompare.simps)
        (simp add: Utf8Read_eq verdict_def utf8_codes.simps [of "[]"])
  next
    case False
    obtain c q where r: "sqlite3Utf8Read p = (c, q)" by force
    obtain d s' where rs: "sqlite3Utf8Read s = (d, s')" by force
    note codes = read_codes [OF less.prems(1) r] and scodes = read_codes [OF s rs]
    have c: "c \<noteq> 0" "utf8_codes p = c # utf8_codes q" using codes(2,3) False by simp_all
    have q80: "0x80 \<notin> set (utf8_codes q)" using less.prems(2) c by simp
    have lq: "length q < length p" by (rule read_length [OF r False])
    consider (wild) "c = matchAll info" | (set) "c \<noteq> matchAll info" "c = mo" "matchSet info \<noteq> 0"
      | (char) "c \<noteq> matchAll info" "\<not> (c = mo \<and> matchSet info \<noteq> 0)" by blast
    then show ?thesis
    proof cases
      case wild
      have tok: "tokens info mo (utf8_codes p) = Any # tokens info mo (utf8_codes q)"
        using wild c by (simp add: tokens.simps(2))
      note skip = star_skip_spec [of mo info q s, OF _ _ _ _ _ codes(1) s]
      show ?thesis
      proof (cases "star_skip info q s")
        case None
        then have "\<not> tmatch info (Any # tokens info mo (utf8_codes q)) (utf8_codes s)"
          using skip P by simp
        then show ?thesis unfolding tok using None wild c(1) False r
          by (subst patternCompare.simps) (simp add: Utf8Read_eq verdict_def any_any)
      next
        case (Some x)
        obtain c1 q1 u where x: "x = (c1, q1, u)" by (cases x)
        have sk: "c_string q1" "c_string u" "c1 \<noteq> matchAll info" "c1 \<noteq> matchOne info"
          "tmatch info (Any # tokens info mo (utf8_codes q)) (utf8_codes s)
            = tmatch info (Any # tokens info mo (code_cons c1 q1)) (utf8_codes u)"
          using skip P Some x by simp_all
        show ?thesis
        proof (cases "c1 = 0")
          case True
          have "tmatch info [Any] (utf8_codes u)"
            unfolding any_iff by (rule exI [of _ "length (utf8_codes u)"]) simp
          then show ?thesis unfolding tok using Some x True wild c(1) False r sk(5)
            by (subst patternCompare.simps) (simp add: Utf8Read_eq verdict_def code_cons_def)
        next
          case c1: False
          have l1: "Suc (length q1) < length p"
            using star_skip_shorter [OF Some [unfolded x] c1] lq by simp
          have "set (code_cons c1 q1) \<subseteq> set (utf8_codes q)"
            by (rule star_skip_subset [OF codes(1) Some [unfolded x]])
          then have c80: "0x80 \<notin> set (code_cons c1 q1)" using q80 by blast
          have IH: "length v \<le> Suc (length q1) \<Longrightarrow> c_string v \<Longrightarrow> 0x80 \<notin> set (utf8_codes v) \<Longrightarrow>
            decides info (patternCompare info mo v) (tokens info mo (utf8_codes v))" for v
            using less.hyps [of v] l1 by simp
          from verdict_wild [OF wild_case [OF assms sk(1,2) c80 c1 sk(3,4) IH] sk(5)]
          show ?thesis unfolding tok using Some x c1 wild c(1) False r
            by (subst patternCompare.simps) (simp add: Utf8Read_eq)
        qed
      qed
    next
      case set
      have tok: "tokens info mo (utf8_codes p) = (case set_parse (utf8_codes q) of
          None \<Rightarrow> [Fail] | Some (P, rest) \<Rightarrow> OneOf P # tokens info mo rest)"
        using set P c by (simp add: set_token)
      obtain found q1 where ms: "match_set d q = (found, q1)" by force
      note spec = match_set_spec [OF codes(1) ms]
      have run: "patternCompare info mo p s = (if d = 0 then SQLITE_NOMATCH
          else if found then patternCompare info mo q1 s' else SQLITE_NOMATCH)"
        using set c(1) False r rs ms by (subst patternCompare.simps) (simp add: Utf8Read_eq)
      show ?thesis
      proof (cases "d = 0")
        case True
        then have "utf8_codes s = []" using scodes(3) by simp
        then show ?thesis unfolding run tok using True
          by (auto intro!: verdict_fail split: option.split)
      next
        case d: False
        then have us: "utf8_codes s = d # utf8_codes s'" using scodes(3) by simp
        show ?thesis
        proof (cases "set_parse (utf8_codes q)")
          case None
          then show ?thesis unfolding run tok using spec d
              verdict_step [of Fail s d s' info SQLITE_NOMATCH "[]"] us
            by (simp add: verdict_def takes_def)
        next
          case (Some x)
          obtain Q rest where x: "x = (Q, rest)" by (cases x)
          have f: "found = Q d" "c_string q1" "utf8_codes q1 = rest" using spec Some x by simp_all
          have "length q1 < length p" using match_set_shorter [of d q] ms lq by simp
          moreover have "0x80 \<notin> set rest" using set_parse_subset [of "utf8_codes q" Q rest] Some x q80
            by auto
          ultimately have "verdict info (patternCompare info mo q1 s') (tokens info mo rest) s'"
            using less.hyps [of q1] f scodes(1) by (simp add: decides_verdict)
          from verdict_step [OF _ us this, of "OneOf Q"] show ?thesis
            unfolding run tok using d Some x f(1) by (simp add: takes_def)
        qed
      qed
    next
      case char
      obtain c1 q1 where r1: "(if c = mo then sqlite3Utf8Read q else (c, q)) = (c1, q1)" by force
      define t where "t = (if c1 = matchOne info \<and> \<not> c = mo then One else Lit c1)"
      have run: "patternCompare info mo p s = (if c1 = 0 then SQLITE_NOMATCH
          else if d \<noteq> 0 \<and> takes info t d then patternCompare info mo q1 s' else SQLITE_NOMATCH)"
      proof (cases "c1 = 0")
        case True
        then show ?thesis
          by (subst patternCompare.simps)
            (simp only: Utf8Read_eq r r1 char c(1) False prod.case if_False if_True simp_thms)
      next
        case c1: False
        have "patternCompare info mo p s = (if c1 = d
            \<or> (noCase info \<and> lower_byte c1 = lower_byte d \<and> c1 < 0x80 \<and> d < 0x80)
            \<or> (c1 = matchOne info \<and> \<not> c = mo \<and> d \<noteq> 0)
          then patternCompare info mo q1 s' else SQLITE_NOMATCH)"
          by (subst patternCompare.simps)
            (simp only: Utf8Read_eq r r1 rs char c(1) c1 False prod.case if_False simp_thms)
        then show ?thesis unfolding one_char [OF c1 t_def] using c1 by simp
      qed
      have tok: "tokens info mo (utf8_codes p)
          = (if c1 = 0 then [Fail] else t # tokens info mo (utf8_codes q1))"
        and q1: "c_string q1" "set (utf8_codes q1) \<subseteq> set (utf8_codes q)" "length q1 < length p"
      proof -
        have "tokens info mo (utf8_codes p)
            = (if c1 = 0 then [Fail] else t # tokens info mo (utf8_codes q1))
          \<and> c_string q1 \<and> set (utf8_codes q1) \<subseteq> set (utf8_codes q) \<and> length q1 < length p"
        proof (cases "c = mo")
          case True
          then have rq: "sqlite3Utf8Read q = (c1, q1)" using r1 by simp
          note cq = read_codes [OF codes(1) rq]
          have "matchSet info = 0" using char True by simp
          then show ?thesis using True c P cq read_le [OF rq] lq char(1)
            by (auto simp: escape_token t_def)
        next
          case False
          then show ?thesis using r1 c codes(1) lq char(1) by (simp add: plain_token t_def)
        qed
        then show "tokens info mo (utf8_codes p)
            = (if c1 = 0 then [Fail] else t # tokens info mo (utf8_codes q1))"
          "c_string q1" "set (utf8_codes q1) \<subseteq> set (utf8_codes q)" "length q1 < length p" by simp_all
      qed
      have t: "t \<noteq> Any" by (simp add: t_def)
      have fails: "verdict info SQLITE_NOMATCH [Fail] s"
        by (cases "utf8_codes s") (simp_all add: verdict_def)
      show ?thesis
      proof (cases "c1 = 0 \<or> d = 0")
        case True
        then show ?thesis unfolding run tok using fails t scodes(3)
          by (auto intro!: verdict_fail)
      next
        case False
        then have us: "utf8_codes s = d # utf8_codes s'" using scodes(3) by simp
        have "verdict info (patternCompare info mo q1 s') (tokens info mo (utf8_codes q1)) s'"
          using less.hyps [of q1] q1 q80 scodes(1) by (auto simp: decides_verdict)
        from verdict_step [OF t us this] show ?thesis unfolding run tok using False by simp
      qed
    qed
  qed
  then show ?case by (simp add: decides_verdict)
qed

subsection \<open>The SQL functions\<close>

text \<open>
  An argument by its type, with the bytes of its text; a number is \<open>TextArg\<close> of its decimal
  form. \<open>sqlite3_value_text\<close> hands out a pointer to the text, which a C string function
  reads to the first zero byte. The build defines \<open>SQLITE_LIKE_DOESNT_MATCH_BLOBS\<close>.
\<close>

datatype sql_arg = NullArg | BlobArg "byte list" | TextArg "byte list"
datatype sql_result = SqlNull | SqlInt int | SqlError string

definition is_blob :: "sql_arg \<Rightarrow> bool" where
  "is_blob v = (case v of BlobArg t \<Rightarrow> True | _ \<Rightarrow> False)"

definition value_text :: "sql_arg \<Rightarrow> byte list option" where
  "value_text v = (case v of NullArg \<Rightarrow> None | BlobArg t \<Rightarrow> Some (takeWhile (\<lambda>b. b \<noteq> 0) t)
     | TextArg t \<Rightarrow> Some (takeWhile (\<lambda>b. b \<noteq> 0) t))"

definition value_bytes :: "sql_arg \<Rightarrow> int" where
  "value_bytes v = (case v of NullArg \<Rightarrow> 0 | BlobArg t \<Rightarrow> int (length t) | TextArg t \<Rightarrow> int (length t))"

definition like_compare :: "compareInfo \<Rightarrow> byte list option \<Rightarrow> byte list option \<Rightarrow> u32 \<Rightarrow> sql_result" where
  "like_compare info zA zB escape =
     (case (zA, zB) of
        (Some zA, Some zB) \<Rightarrow> SqlInt (if patternCompare info escape zB zA = SQLITE_MATCH then 1 else 0)
      | _ \<Rightarrow> SqlNull)"

text \<open>\<open>limit\<close> is \<open>aLimit[SQLITE_LIMIT_LIKE_PATTERN_LENGTH]\<close> of the connection.\<close>

definition likeFunc :: "compareInfo \<Rightarrow> int \<Rightarrow> sql_arg list \<Rightarrow> sql_result" where
  "likeFunc info limit argv =
     (if is_blob (argv ! 0) \<or> is_blob (argv ! 1) then SqlInt 0
      else let zB = value_text (argv ! 0); zA = value_text (argv ! 1); nPat = value_bytes (argv ! 0) in
      if nPat > limit then SqlError ''LIKE or GLOB pattern too complex''
      else if length argv = 3
      then (case value_text (argv ! 2) of
              None \<Rightarrow> SqlNull
            | Some zEsc \<Rightarrow>
                if sqlite3Utf8CharLen zEsc (- 1) \<noteq> 1
                then SqlError ''ESCAPE expression must be a single character''
                else like_compare info zA zB (fst (sqlite3Utf8Read zEsc)))
      else like_compare info zA zB (matchSet info))"

lemma text_c_string [simp]: "c_string t \<Longrightarrow> takeWhile (\<lambda>b. b \<noteq> 0) t = t"
  by (auto simp: c_string_def takeWhile_eq_all_conv)

lemma patternCompare_match:
  assumes "proper info mo" and "c_string p" and "0x80 \<notin> set (utf8_codes p)" and "c_string s"
  shows "patternCompare info mo p s = SQLITE_MATCH
    \<longleftrightarrow> tmatch info (tokens info mo (utf8_codes p)) (utf8_codes s)"
  using patternCompare_decides [OF assms(1-3)] assms(4) by (simp add: decides_def)

lemma char_len_codes: "c_string z \<Longrightarrow> char_len z (- 1) = int (length (utf8_codes z))"
proof (induction "length z" arbitrary: z rule: less_induct)
  case (less z)
  show ?case
  proof (cases "z = []")
    case True
    then show ?thesis by (simp add: char_len.simps utf8_codes.simps)
  next
    case False
    obtain c z' where r: "sqlite3Utf8Read z = (c, z')" by force
    note codes = read_codes [OF less.prems r]
    have "hd z \<noteq> 0" using less.prems False by (cases z) simp_all
    then show ?thesis
      using less.hyps [OF read_length [OF r False] codes(1)] False codes(2,3) skip_read [OF r]
      by (subst char_len.simps) simp
  qed
qed



text \<open>
  The operator \<open>B LIKE A ESCAPE E\<close> on texts answers whether the text matches the
  pattern, ASCII letters compared without case and a character behind the escape character
  taken literally.
\<close>

theorem like_escape_answer:
  assumes "c_string a" and "c_string b" and "int (length b) \<le> limit"
    and "c_string e" and "utf8_codes e = [x]" and "x \<noteq> 37" and "x \<noteq> 95"
    and "0x80 \<notin> set (utf8_codes b)"
  shows "likeFunc likeInfoNorm limit [TextArg b, TextArg a, TextArg e] =
    SqlInt (if tmatch likeInfoNorm (tokens likeInfoNorm x (utf8_codes b)) (utf8_codes a) then 1 else 0)"
proof -
  obtain c z where r: "sqlite3Utf8Read e = (c, z)" by force
  have "c = x" using read_codes(3) [OF assms(4) r] assms(5) by (simp split: if_splits)
  moreover have "proper likeInfoNorm x" using assms(6,7) by (simp add: proper_def likeInfoNorm_def)
  ultimately show ?thesis using assms r
    by (simp add: likeFunc_def is_blob_def value_text_def value_bytes_def like_compare_def
      sqlite3Utf8CharLen_def char_len_codes patternCompare_match)
qed

text \<open>\<open>'a%' LIKE 'A!%' ESCAPE '!'\<close>.\<close>

theorem like_escape_answer_witness:
  "likeFunc likeInfoNorm 50000 [TextArg [65, 33, 37], TextArg [97, 37], TextArg [33]] = SqlInt 1"
proof -
  have "sqlite3Tolower 65 = sqlite3Tolower 97" by (simp add: word_unat_eq_iff unat_tolower)
  then show ?thesis
    by (subst like_escape_answer [of _ _ _ _ 33])
      (simp_all add: utf8_codes.simps [of "_ # _"] utf8_codes.simps [of "[]"] tokens.simps(2)
        likeInfoNorm_def same_char_def lower_byte_def)
qed

text \<open>
  U+0080 is outside the statement: behind a wildcard it is searched as the byte 0x80, which
  also continues other characters. \<open>%\<close> followed by U+0080 matches the string U+4000.
\<close>

lemma u0080_matches_inside_character:
  "patternCompare likeInfoNorm 0 [37, 0xC2, 0x80] [0xE4, 0x80, 0x80] = SQLITE_MATCH"
  "\<not> tmatch likeInfoNorm (tokens likeInfoNorm 0 (utf8_codes [37, 0xC2, 0x80]))
      (utf8_codes [0xE4, 0x80, 0x80])"
proof -
  have r: "sqlite3Utf8Read [0xC2, 0x80] = (0x80, [])" "sqlite3Utf8Read [37, 0xC2, 0x80] = (37, [0xC2, 0x80])"
    "sqlite3Utf8Read [0xE4, 0x80, 0x80] = (0x4000, [])"
    by code_simp+
  have t: "sqlite3Toupper 0x80 = 0x80" "sqlite3Tolower 0x80 = 0x80"
    by (simp_all add: word_unat_eq_iff unat_tolower unat_toupper)
  have rest: "patternCompare likeInfoNorm 0 [] [0x80] = SQLITE_NOMATCH"
    "patternCompare likeInfoNorm 0 [] [] = SQLITE_MATCH"
    by (simp_all add: patternCompare.simps Utf8Read_eq)
  have skip: "star_skip likeInfoNorm [0xC2, 0x80] s = Some (0x80, [], s)" for s
    by (rule star_stop [OF r(1)]) (simp add: likeInfoNorm_def)
  show "patternCompare likeInfoNorm 0 [37, 0xC2, 0x80] [0xE4, 0x80, 0x80] = SQLITE_MATCH"
    by (subst patternCompare.simps)
      (simp add: Utf8Read_eq r skip star_search_def lower_byte_def t rest likeInfoNorm_def [THEN arg_cong [of _ _ matchAll]]
        likeInfoNorm_def [THEN arg_cong [of _ _ noCase]])
  show "\<not> tmatch likeInfoNorm (tokens likeInfoNorm 0 (utf8_codes [37, 0xC2, 0x80]))
      (utf8_codes [0xE4, 0x80, 0x80])"
    by (simp add: utf8_codes.simps [of "_ # _"] utf8_codes.simps [of "[]"] tokens.simps(2) r
      likeInfoNorm_def same_char_def lower_byte_def del: sqlite3Utf8Read.simps)
qed

text \<open>
  The escape character \<open>_\<close> is outside it too: behind \<open>%\<close> it is still skipped as a wildcard,
  so that \<open>'a' LIKE '%_a' ESCAPE '_'\<close> is false.
\<close>

lemma escape_as_wildcard:
  "patternCompare likeInfoNorm 95 [37, 95, 97] [97] = SQLITE_NOWILDCARDMATCH"
  "tmatch likeInfoNorm (tokens likeInfoNorm 95 (utf8_codes [37, 95, 97])) (utf8_codes [97])"
proof -
  have "star_skip likeInfoNorm [95, 97] [97] = Some (97, [], [])"
    by (simp add: star_skip.simps Utf8Read_eq likeInfoNorm_def)
  then show "patternCompare likeInfoNorm 95 [37, 95, 97] [97] = SQLITE_NOWILDCARDMATCH"
    by (subst patternCompare.simps) (simp add: Utf8Read_eq star_search_def likeInfoNorm_def)
  show "tmatch likeInfoNorm (tokens likeInfoNorm 95 (utf8_codes [37, 95, 97])) (utf8_codes [97])"
    by (simp add: utf8_codes.simps [of "_ # _"] utf8_codes.simps [of "[]"] tokens.simps(2)
      likeInfoNorm_def same_char_def)
qed

end
