(* ===== verification/RecordFormat.thy ===== *)
theory RecordFormat
  imports Varint Utf
begin

section \<open>The record format\<close>

text \<open>
  Rows and index keys are stored as records: a header of variable-length integers, the size
  of the header first and then a serial type for each field, followed by the data of the
  fields. The virtual machine builds a record from a range of its registers
  (\<open>OP_MakeRecord\<close> of \<open>vdbe.c\<close>) with the serializers of \<open>vdbeaux.c\<close>, and
  \<open>sqlite3VdbeRecordUnpack\<close> turns one back into cells.

  A cell has the flags of the source and one field for each member of the union that they
  select; \<open>mem_z\<close> are the bytes \<open>z\<close> points to. A \<open>double\<close> is its 64 bits in IEEE 754
  format. The reference is the table of the file format: a field is a serial type with its
  data, and \<open>field_value\<close> says what SQL value that is.
\<close>

subsection \<open>Cells\<close>

record Cell = Mem +
  mem_i :: int
  mem_r :: u64
  mem_nZero :: nat
  uTemp :: u32

definition MEM_Null :: u16 where "MEM_Null = 0x0001"
definition MEM_Int :: u16 where "MEM_Int = 0x0004"
definition MEM_Real :: u16 where "MEM_Real = 0x0008"
definition MEM_Blob :: u16 where "MEM_Blob = 0x0010"
definition MEM_Ephem :: u16 where "MEM_Ephem = 0x1000"
definition MEM_Zero :: u16 where "MEM_Zero = 0x4000"

lemmas mem_flag_defs = MEM_Null_def MEM_Str_def MEM_Int_def MEM_Real_def MEM_Blob_def
  MEM_Ephem_def MEM_Zero_def MEM_Term_def

definition has_flag :: "Cell \<Rightarrow> u16 \<Rightarrow> bool" where
  "has_flag pMem f \<longleftrightarrow> mem_flags pMem AND f \<noteq> 0"

text \<open>\<open>ok\<close>: whether the larger buffer can be had.\<close>

definition sqlite3VdbeMemExpandBlob :: "bool \<Rightarrow> Cell \<Rightarrow> int \<times> Cell" where
  "sqlite3VdbeMemExpandBlob ok pMem =
     (if \<not> ok then (SQLITE_NOMEM, pMem)
      else (SQLITE_OK, pMem\<lparr>mem_z := take (mem_n pMem) (mem_z pMem) @ replicate (mem_nZero pMem) 0,
              mem_n := mem_n pMem + mem_nZero pMem,
              mem_flags := mem_flags pMem AND NOT (MEM_Zero OR MEM_Term)\<rparr>))"

subsection \<open>Serial types\<close>

definition MAX_6BYTE :: int where "MAX_6BYTE = push_bit 32 0x00008000 - 1"

text \<open>The serial type and the number of bytes of its data.\<close>

definition sqlite3VdbeSerialType :: "Cell \<Rightarrow> int \<Rightarrow> u32 \<times> u32" where
  "sqlite3VdbeSerialType pMem file_format =
     (if has_flag pMem MEM_Null then (0, 0)
      else if has_flag pMem MEM_Int then
        (let i = mem_i pMem; u = (if i < 0 then NOT i else i) in
         if u \<le> 127 then
           (if i AND 1 = i \<and> file_format \<ge> 4 then (8 + of_int u, 0) else (1, 1))
         else if u \<le> 32767 then (2, 2)
         else if u \<le> 8388607 then (3, 3)
         else if u \<le> 2147483647 then (4, 4)
         else if u \<le> MAX_6BYTE then (5, 6)
         else (6, 8))
      else if has_flag pMem MEM_Real then (7, 8)
      else
        (let k = of_nat (mem_n pMem) + (if has_flag pMem MEM_Zero then of_nat (mem_nZero pMem) else 0)
         in (k * 2 + 12 + (if has_flag pMem MEM_Str then 1 else 0), k)))"

definition sqlite3SmallTypeSizes :: "byte list" where
  "sqlite3SmallTypeSizes =
    [0, 1, 2, 3, 4, 6, 8, 8, 0, 0,
     0, 0, 0, 0, 1, 1, 2, 2, 3, 3,
     4, 4, 5, 5, 6, 6, 7, 7, 8, 8,
     9, 9, 10, 10, 11, 11, 12, 12, 13, 13,
     14, 14, 15, 15, 16, 16, 17, 17, 18, 18,
     19, 19, 20, 20, 21, 21, 22, 22, 23, 23,
     24, 24, 25, 25, 26, 26, 27, 27, 28, 28,
     29, 29, 30, 30, 31, 31, 32, 32, 33, 33,
     34, 34, 35, 35, 36, 36, 37, 37, 38, 38,
     39, 39, 40, 40, 41, 41, 42, 42, 43, 43,
     44, 44, 45, 45, 46, 46, 47, 47, 48, 48,
     49, 49, 50, 50, 51, 51, 52, 52, 53, 53,
     54, 54, 55, 55, 56, 56, 57, 57]"

definition sqlite3VdbeSerialTypeLen :: "u32 \<Rightarrow> u32" where
  "sqlite3VdbeSerialTypeLen serial_type =
     (if serial_type \<ge> 128 then (serial_type - 12) div 2
      else ucast (sqlite3SmallTypeSizes ! unat serial_type))"

definition sqlite3VdbeOneByteSerialTypeLen :: "byte \<Rightarrow> byte" where
  "sqlite3VdbeOneByteSerialTypeLen serial_type = sqlite3SmallTypeSizes ! unat serial_type"

subsection \<open>Data of a field\<close>

text \<open>The bytes of \<open>v\<close> in big-endian order, the last one first.\<close>

fun put_be :: "mem \<Rightarrow> ptr \<Rightarrow> nat \<Rightarrow> u64 \<Rightarrow> mem" where
  "put_be buf p 0 v = buf"
| "put_be buf p (Suc i) v = put_be (buf(p + i := ucast (v AND 0xFF))) p i (drop_bit 8 v)"

definition sqlite3VdbeSerialPut :: "mem \<Rightarrow> ptr \<Rightarrow> Cell \<Rightarrow> u32 \<Rightarrow> mem \<times> u32" where
  "sqlite3VdbeSerialPut buf p pMem serial_type =
     (if serial_type \<le> 7 \<and> serial_type > 0 then
        (let v = (if serial_type = 7 then mem_r pMem else of_int (mem_i pMem));
             len = sqlite3SmallTypeSizes ! unat serial_type
         in (put_be buf p (unat len) v, ucast len))
      else if serial_type \<ge> 12 then
        (put_bytes buf p (take (mem_n pMem) (mem_z pMem)), of_nat (mem_n pMem))
      else (buf, 0))"

definition ONE_BYTE_INT :: "mem \<Rightarrow> ptr \<Rightarrow> int" where
  "ONE_BYTE_INT m p = sint (m p)"
definition TWO_BYTE_INT :: "mem \<Rightarrow> ptr \<Rightarrow> int" where
  "TWO_BYTE_INT m p = 256 * sint (m p) OR uint (m (p + 1))"
definition THREE_BYTE_INT :: "mem \<Rightarrow> ptr \<Rightarrow> int" where
  "THREE_BYTE_INT m p = 65536 * sint (m p) OR push_bit 8 (uint (m (p + 1))) OR uint (m (p + 2))"
definition FOUR_BYTE_UINT :: "mem \<Rightarrow> ptr \<Rightarrow> u32" where
  "FOUR_BYTE_UINT m p = push_bit 24 (ucast (m p)) OR push_bit 16 (ucast (m (p + 1)))
     OR push_bit 8 (ucast (m (p + 2))) OR ucast (m (p + 3))"
definition FOUR_BYTE_INT :: "mem \<Rightarrow> ptr \<Rightarrow> int" where
  "FOUR_BYTE_INT m p = 16777216 * sint (m p) OR push_bit 16 (uint (m (p + 1)))
     OR push_bit 8 (uint (m (p + 2))) OR uint (m (p + 3))"

text \<open>\<open>isnan\<close>: all bits of the exponent set and some bit of the fraction.\<close>

definition sqlite3IsNaN :: "u64 \<Rightarrow> bool" where
  "sqlite3IsNaN x \<longleftrightarrow> x AND 0x7ff0000000000000 = 0x7ff0000000000000 \<and> x AND 0x000fffffffffffff \<noteq> 0"

definition mem_bytes :: "mem \<Rightarrow> ptr \<Rightarrow> nat \<Rightarrow> byte list" where
  "mem_bytes m p k = map (\<lambda>i. m (p + i)) [0..<k]"

definition serialGet :: "mem \<Rightarrow> ptr \<Rightarrow> u32 \<Rightarrow> Cell \<Rightarrow> Cell \<times> u32" where
  "serialGet buf p serial_type pMem =
     (let x = ucast (FOUR_BYTE_UINT buf p) :: u64; y = FOUR_BYTE_UINT buf (p + 4);
          x = push_bit 32 x + ucast y
      in if serial_type = 6 then (pMem\<lparr>mem_i := sint x, mem_flags := MEM_Int\<rparr>, 8)
         else (pMem\<lparr>mem_r := x, mem_flags := (if sqlite3IsNaN x then MEM_Null else MEM_Real)\<rparr>, 8))"

definition sqlite3VdbeSerialGet :: "mem \<Rightarrow> ptr \<Rightarrow> u32 \<Rightarrow> Cell \<Rightarrow> Cell \<times> u32" where
  "sqlite3VdbeSerialGet buf p serial_type pMem =
     (let int_cell = (\<lambda>i. pMem\<lparr>mem_i := i, mem_flags := MEM_Int\<rparr>) in
      if serial_type = 10
      then (pMem\<lparr>mem_flags := MEM_Null OR MEM_Zero, mem_n := 0, mem_nZero := 0\<rparr>, 0)
      else if serial_type = 11 \<or> serial_type = 0 then (pMem\<lparr>mem_flags := MEM_Null\<rparr>, 0)
      else if serial_type = 1 then (int_cell (ONE_BYTE_INT buf p), 1)
      else if serial_type = 2 then (int_cell (TWO_BYTE_INT buf p), 2)
      else if serial_type = 3 then (int_cell (THREE_BYTE_INT buf p), 3)
      else if serial_type = 4 then (int_cell (FOUR_BYTE_INT buf p), 4)
      else if serial_type = 5 then
        (int_cell (uint (FOUR_BYTE_UINT buf (p + 2)) + push_bit 32 1 * TWO_BYTE_INT buf p), 6)
      else if serial_type = 6 \<or> serial_type = 7 then serialGet buf p serial_type pMem
      else if serial_type = 8 \<or> serial_type = 9 then (int_cell (uint (serial_type - 8)), 0)
      else
        (let k = (serial_type - 12) div 2
         in (pMem\<lparr>mem_z := mem_bytes buf p (unat k), mem_n := unat k,
               mem_flags := (if serial_type AND 1 = 0 then MEM_Blob OR MEM_Ephem
                             else MEM_Str OR MEM_Ephem)\<rparr>, k)))"

subsection \<open>Making a record\<close>

text \<open>
  The sizes, from the last field to the first; \<open>None\<close> when a blob cannot be expanded. The
  number \<open>i\<close> of the field asks the allocator.
\<close>

fun size_loop :: "int \<Rightarrow> (nat \<Rightarrow> bool) \<Rightarrow> nat \<Rightarrow> Cell list
    \<Rightarrow> (Cell list \<times> nat \<times> nat \<times> nat) option" where
  "size_loop file_format ok i [] = Some ([], 0, 0, 0)"
| "size_loop file_format ok i (pRec # rest) =
     (case size_loop file_format ok (i + 1) rest of
        None \<Rightarrow> None
      | Some (rest, nData, nHdr, nZero) \<Rightarrow>
          let (serial_type, len) = sqlite3VdbeSerialType pRec file_format in
          (case (if has_flag pRec MEM_Zero then
                   (if serial_type = 0 then Some (pRec, 10, len, nZero)
                    else if nData \<noteq> 0 then
                      (case sqlite3VdbeMemExpandBlob (ok i) pRec of (rc, pRec) \<Rightarrow>
                       if rc \<noteq> SQLITE_OK then None else Some (pRec, serial_type, len, nZero))
                    else Some (pRec, serial_type, len - of_nat (mem_nZero pRec), nZero + mem_nZero pRec))
                 else Some (pRec, serial_type, len, nZero)) of
             None \<Rightarrow> None
           | Some (pRec, serial_type, len, nZero) \<Rightarrow>
               Some (pRec\<lparr>uTemp := serial_type\<rparr> # rest, nData + unat len,
                     nHdr + (if serial_type \<le> 127 then 1 else sqlite3VarintLen (ucast serial_type)),
                     nZero)))"

definition header_with_size :: "nat \<Rightarrow> nat" where
  "header_with_size nHdr =
     (if nHdr \<le> 126 then nHdr + 1
      else let nVarint = sqlite3VarintLen (of_nat nHdr); nHdr = nHdr + nVarint
           in if nVarint < sqlite3VarintLen (of_nat nHdr) then nHdr + 1 else nHdr)"

fun write_loop :: "mem \<Rightarrow> ptr \<Rightarrow> nat \<Rightarrow> nat \<Rightarrow> Cell list \<Rightarrow> mem" where
  "write_loop m p i j [] = m"
| "write_loop m p i j (pRec # rest) =
     (let serial_type = uTemp pRec;
          (m, l) = putVarint32 m (p + i) serial_type;
          (m, len) = sqlite3VdbeSerialPut m (p + j) pRec serial_type
      in write_loop m p (i + l) (j + unat len) rest)"

datatype record_result = Too_big | No_mem | Made mem Cell

text \<open>
  The registers \<open>cells\<close> into the buffer at \<open>p\<close> of the output register, which has
  \<open>szMalloc\<close> bytes already; affinities have been applied. \<open>limit\<close> is
  \<open>aLimit[SQLITE_LIMIT_LENGTH]\<close>. The answer for a larger buffer is \<open>ok\<close> of the number of
  fields.
\<close>

definition make_record :: "int \<Rightarrow> nat \<Rightarrow> nat \<Rightarrow> (nat \<Rightarrow> bool) \<Rightarrow> mem \<Rightarrow> ptr \<Rightarrow> Cell list \<Rightarrow> Cell
    \<Rightarrow> record_result" where
  "make_record file_format limit szMalloc ok m p cells pOut =
     (case size_loop file_format ok 0 cells of
        None \<Rightarrow> No_mem
      | Some (cells, nData, nHdr, nZero) \<Rightarrow>
          let nHdr = header_with_size nHdr; nByte = nHdr + nData in
          if \<not> nByte + nZero \<le> szMalloc \<and> nByte + nZero > limit then Too_big
          else if \<not> nByte + nZero \<le> szMalloc \<and> \<not> ok (length cells) then No_mem
          else
            let (m, i) = putVarint32 m p (of_nat nHdr);
                m = write_loop m p i nHdr cells
            in Made m (pOut\<lparr>mem_z := mem_bytes m p nByte, mem_n := nByte,
                 mem_flags := (if nZero \<noteq> 0 then MEM_Blob OR MEM_Zero else MEM_Blob),
                 mem_nZero := (if nZero \<noteq> 0 then nZero else mem_nZero pOut)\<rparr>))"

subsection \<open>Unpacking a record\<close>

text \<open>A collating function compares two texts in the encoding it was registered for.\<close>

record CollSeq =
  coll_enc :: nat
  xCmp :: "byte list \<Rightarrow> byte list \<Rightarrow> int"

record KeyInfo =
  key_enc :: nat
  nKeyField :: nat
  nAllField :: nat
  aSortOrder :: "bool list"
  aColl :: "CollSeq option list"

record UnpackedRecord =
  pKeyInfo :: KeyInfo
  aMem :: "Cell list"
  nField :: nat
  default_rc :: int
  errCode :: int
  r1 :: int
  r2 :: int
  eqSeen :: bool

text \<open>
  The loop over the header. \<open>d\<close> is a signed \<open>int\<close>; an offset before the record or a cell
  outside \<open>aMem\<close> makes the result \<open>None\<close>.
\<close>

function unpack_loop :: "nat \<Rightarrow> int \<Rightarrow> mem \<Rightarrow> ptr \<Rightarrow> u32 \<Rightarrow> nat \<Rightarrow> Cell list \<Rightarrow> u32 \<Rightarrow> int \<Rightarrow> nat
    \<Rightarrow> (Cell list \<times> nat) option" where
  "unpack_loop enc nKey aKey pKey szHdr nfield cells idx d u =
     (if idx < szHdr \<and> d \<le> nKey then
        (if d < 0 \<or> length cells \<le> u then None
         else
           let (l, serial_type) = getVarint32 aKey (pKey + unat idx);
               pMem = (cells ! u)\<lparr>mem_enc := enc, mem_z := []\<rparr>;
               (pMem, len) = sqlite3VdbeSerialGet aKey (pKey + nat d) serial_type pMem;
               cells = cells[u := pMem]
           in if u + 1 \<ge> nfield then Some (cells, u + 1)
              else unpack_loop enc nKey aKey pKey szHdr nfield cells (idx + of_nat l)
                     (c_int32 (d + uint len)) (u + 1))
      else Some (cells, u))"
  by auto
termination
  by (relation "measure (\<lambda>(e, k, m, p, h, n, c, i, d, u). n - u)") auto

declare unpack_loop.simps [simp del]

definition sqlite3VdbeRecordUnpack :: "KeyInfo \<Rightarrow> int \<Rightarrow> mem \<Rightarrow> ptr \<Rightarrow> UnpackedRecord
    \<Rightarrow> UnpackedRecord option" where
  "sqlite3VdbeRecordUnpack ki nKey aKey pKey p =
     (let (idx, szHdr) = getVarint32 aKey pKey in
      case unpack_loop (key_enc ki) nKey aKey pKey szHdr (nField p) (aMem p) (of_nat idx)
             (c_int32 (uint szHdr)) 0 of
        None \<Rightarrow> None
      | Some (cells, u) \<Rightarrow> Some (p\<lparr>default_rc := 0, aMem := cells, nField := u\<rparr>))"

subsection \<open>The format\<close>

text \<open>Big-endian numbers, unsigned and in two's complement.\<close>

definition be_nat :: "byte list \<Rightarrow> nat" where
  "be_nat ds = foldl (\<lambda>x d. x * 256 + unat d) 0 ds"

definition be_int :: "byte list \<Rightarrow> int" where
  "be_int ds = (if be_nat ds < 2 ^ (8 * length ds - 1) then int (be_nat ds)
                else int (be_nat ds) - 2 ^ (8 * length ds))"

datatype sval = VNull | VInt int | VReal u64 | VText "byte list" | VBlob "byte list"

type_synonym field = "u32 \<times> byte list"

text \<open>The table of the file format. A real that is not a number reads as NULL.\<close>

definition field_value :: "field \<Rightarrow> sval" where
  "field_value f = (case f of (st, ds) \<Rightarrow>
     if st = 0 then VNull
     else if st \<le> 6 then VInt (be_int ds)
     else if st = 7 then (if sqlite3IsNaN (of_nat (be_nat ds)) then VNull else VReal (of_nat (be_nat ds)))
     else if st = 8 then VInt 0
     else if st = 9 then VInt 1
     else if even (unat st) then VBlob ds else VText ds)"

definition field_ok :: "field \<Rightarrow> bool" where
  "field_ok f \<longleftrightarrow> (case f of (st, ds) \<Rightarrow> st \<noteq> 10 \<and> st \<noteq> 11
     \<and> length ds = (if unat st < 12 then [0, 1, 2, 3, 4, 6, 8, 8, 0, 0, 0, 0] ! unat st
                    else (unat st - 12) div 2))"

definition types_bytes :: "field list \<Rightarrow> byte list" where
  "types_bytes fs = concat (map (\<lambda>(st, ds). varint_bytes (ucast st)) fs)"

definition data_bytes :: "field list \<Rightarrow> byte list" where
  "data_bytes fs = concat (map snd fs)"

text \<open>The size of a header includes the bytes of the size itself.\<close>

definition header_size :: "nat \<Rightarrow> nat" where
  "header_size t = (if t + 1 < 2 ^ 7 then t + 1 else if t + 2 < 2 ^ 14 then t + 2
     else if t + 3 < 2 ^ 21 then t + 3 else if t + 4 < 2 ^ 28 then t + 4 else t + 5)"

definition record_bytes :: "field list \<Rightarrow> byte list" where
  "record_bytes fs =
     varint_bytes (of_nat (header_size (length (types_bytes fs)))) @ types_bytes fs @ data_bytes fs"

text \<open>The SQL value of a cell.\<close>

definition cell_value :: "Cell \<Rightarrow> sval" where
  "cell_value c =
     (if has_flag c MEM_Null then VNull
      else if has_flag c MEM_Int then VInt (mem_i c)
      else if has_flag c MEM_Real then VReal (mem_r c)
      else if has_flag c MEM_Str then VText (take (mem_n c) (mem_z c))
      else VBlob (take (mem_n c) (mem_z c)
             @ (if has_flag c MEM_Zero then replicate (mem_nZero c) 0 else [])))"

text \<open>
  What the machine maintains of a cell: the flags of at most one type (a number may also
  have its text), no real that is not a number, and the greatest length of a value.
\<close>

definition cell_ok :: "Cell \<Rightarrow> bool" where
  "cell_ok c \<longleftrightarrow> mem_n c \<le> length (mem_z c) \<and> in_int64 (mem_i c)
     \<and> mem_n c + (if has_flag c MEM_Zero then mem_nZero c else 0) \<le> 1000000000
     \<and> (has_flag c MEM_Null \<longrightarrow> \<not> has_flag c MEM_Int \<and> \<not> has_flag c MEM_Real
          \<and> \<not> has_flag c MEM_Str \<and> \<not> has_flag c MEM_Blob \<and> \<not> has_flag c MEM_Zero)
     \<and> (has_flag c MEM_Int \<longrightarrow> \<not> has_flag c MEM_Real \<and> \<not> has_flag c MEM_Zero)
     \<and> (has_flag c MEM_Real \<longrightarrow> \<not> has_flag c MEM_Zero \<and> \<not> sqlite3IsNaN (mem_r c))
     \<and> (has_flag c MEM_Str \<longrightarrow> \<not> has_flag c MEM_Zero)
     \<and> (has_flag c MEM_Null \<or> has_flag c MEM_Int \<or> has_flag c MEM_Real
          \<or> has_flag c MEM_Str \<or> has_flag c MEM_Blob)"

subsection \<open>Bytes in memory\<close>

definition bytes_at :: "mem \<Rightarrow> ptr \<Rightarrow> byte list \<Rightarrow> bool" where
  "bytes_at m p bs \<longleftrightarrow> mem_bytes m p (length bs) = bs"

lemma mem_bytes_length [simp]: "length (mem_bytes m p k) = k"
  by (simp add: mem_bytes_def)

lemma mem_bytes_simps [simp]:
  "mem_bytes m p 0 = []" "mem_bytes m p (Suc k) = m p # mem_bytes m (p + 1) k"
proof -
  have "[0..<Suc k] = 0 # map Suc [0..<k]" by (simp add: upt_conv_Cons map_Suc_upt)
  then show "mem_bytes m p (Suc k) = m p # mem_bytes m (p + 1) k"
    by (simp add: mem_bytes_def o_def)
qed (simp add: mem_bytes_def)

lemma mem_bytes_add: "mem_bytes m p (j + k) = mem_bytes m p j @ mem_bytes m (p + j) k"
  by (induction j arbitrary: p) simp_all

lemma mem_bytes_nth: "i < k \<Longrightarrow> mem_bytes m p k ! i = m (p + i)"
  by (simp add: mem_bytes_def)

lemma bytes_at_Nil [simp]: "bytes_at m p []"
  by (simp add: bytes_at_def)

lemma bytes_at_append [simp]:
  "bytes_at m p (xs @ ys) \<longleftrightarrow> bytes_at m p xs \<and> bytes_at m (p + length xs) ys"
  by (simp add: bytes_at_def mem_bytes_add)

lemma bytes_at_Cons [simp]: "bytes_at m p (x # xs) \<longleftrightarrow> m p = x \<and> bytes_at m (p + 1) xs"
  by (simp add: bytes_at_def)

lemma bytes_at_nth: "bytes_at m p bs \<longleftrightarrow> (\<forall>i < length bs. m (p + i) = bs ! i)"
  by (simp add: bytes_at_def list_eq_iff_nth_eq mem_bytes_nth)

lemma bytes_at_put [simp]: "bytes_at (put_bytes m p bs) p bs"
  by (simp add: bytes_at_nth put_bytes_at)

lemma bytes_at_frame:
  "bytes_at m q ys \<Longrightarrow> q + length ys \<le> p \<or> p + length bs \<le> q \<Longrightarrow> bytes_at (put_bytes m p bs) q ys"
  by (auto simp: bytes_at_nth put_bytes_frame)

lemma mem_bytes_nine: "nine m p = mem_bytes m p 9"
  by (simp add: nine_def eval_nat_numeral)

lemma get_varint32_at:
  assumes "bytes_at m p (varint_bytes (ucast (v :: u32)))"
  shows "getVarint32 m p = (length (varint_bytes (ucast v)), v)"
proof -
  let ?xs = "varint_bytes (ucast v)"
  have le: "length ?xs \<le> 9" by (rule varint_bytes_length_le)
  have "nine m p = mem_bytes m p (length ?xs + (9 - length ?xs))" using le by (simp add: mem_bytes_nine)
  then have "nine m p = ?xs @ mem_bytes m (p + length ?xs) (9 - length ?xs)"
    using assms by (simp add: mem_bytes_add bytes_at_def)
  then have "sqlite3GetVarint m p = (length ?xs, ucast v)"
    by (simp add: get_varint_is_loop varint_spec_def varint_bytes_decode)
  then show ?thesis by (simp add: get_varint32_saturates saturate32_widen)
qed

lemma put_varint32_bytes:
  "putVarint32 m p v = (put_bytes m p (varint_bytes (ucast v)), length (varint_bytes (ucast v)))"
proof (cases "v < 0x80")
  case True
  have u: "unat (ucast v :: u64) = unat v"
    using unsigned_less [where 'a = nat, of v] by (simp add: unsigned_ucast_eq take_bit_eq_mod)
  then have "(ucast v :: u64) \<le> 0x7f" using True by (simp add: word_le_nat_alt word_less_nat_alt)
  moreover have "(ucast ((ucast v :: u64) AND 0x7f) :: byte) = ucast v"
  proof (rule byte_eqI)
    have "\<not> bit v 7" using small_bits [of v 7 7] True by (simp add: word_less_nat_alt)
    then show "list_all (\<lambda>n. bit (ucast ((ucast v :: u64) AND 0x7f) :: byte) n \<longleftrightarrow> bit (ucast v :: byte) n) [0..<8]"
      by (simp add: word_bits)
  qed
  ultimately have "sqlite3PutVarint m p (ucast v) = (m(p := ucast v), 1)"
    by (simp add: sqlite3PutVarint_def)
  with True put_varint_bytes [of m p "ucast v"] show ?thesis by (simp add: putVarint32_def)
next
  case False
  with put_varint_bytes [of m p "ucast v"] show ?thesis by (simp add: putVarint32_def)
qed

subsection \<open>Integers in a field\<close>

lemma be_nat_simps [simp]:
  "be_nat [] = 0" "be_nat (xs @ [x]) = be_nat xs * 256 + unat x"
  by (simp_all add: be_nat_def)

lemma be_nat_bound: "be_nat ds < 256 ^ length ds"
proof (induction ds rule: rev_induct)
  case (snoc x xs)
  have "unat x < 256" using unsigned_less [where 'a = nat, of x] by simp
  then show ?case using snoc by simp
qed simp

fun be_bytes :: "nat \<Rightarrow> u64 \<Rightarrow> byte list" where
  "be_bytes 0 v = []"
| "be_bytes (Suc k) v = be_bytes k (drop_bit 8 v) @ [ucast v]"

lemma be_bytes_length [simp]: "length (be_bytes k v) = k"
  by (induction k v rule: be_bytes.induct) simp_all

lemma put_be_bytes: "put_be m p k v = put_bytes m p (be_bytes k v)"
proof (induction m p k v rule: put_be.induct)
  case (2 m p i v)
  have "(ucast (v AND 0xFF) :: byte) = ucast v" by (rule byte_eqI) (simp add: word_bits)
  then show ?case using 2 put_bytes_upd_after [of p "be_bytes i (drop_bit 8 v)" "p + i" m]
    by (simp add: put_bytes_append del: fun_upd_apply)
qed simp

lemma be_nat_bytes: "be_nat (be_bytes k v) = unat v mod 256 ^ k"
proof (induction k arbitrary: v)
  case (Suc k)
  have "unat (drop_bit 8 v) = unat v div 2 ^ 8" unfolding unat_drop_bit_eq by (rule drop_bit_eq_div)
  moreover have "unat (ucast v :: byte) = unat v mod 256" by (simp add: unsigned_ucast_eq take_bit_eq_mod)
  ultimately have "be_nat (be_bytes (Suc k) v) = unat v div 256 mod 256 ^ k * 256 + unat v mod 256"
    using Suc by simp
  also have "\<dots> = unat v mod (256 * 256 ^ k)" by (simp add: mod_mult2_eq)
  finally show ?case by simp
qed simp

text \<open>A disjunction with the lower bits is a sum.\<close>

lemma or_low: "0 \<le> y \<Longrightarrow> y < 2 ^ k \<Longrightarrow> x * 2 ^ k OR y = x * 2 ^ k + (y :: int)"
proof -
  assume y: "0 \<le> y" "y < 2 ^ k"
  have "x * 2 ^ k + y = push_bit k x + take_bit k y" using y by (simp add: push_bit_eq_mult take_bit_int_eq_self)
  also have "\<dots> = push_bit k x OR take_bit k y"
    by (rule disjunctive_add) (auto simp: bit_simps)
  finally show ?thesis using y by (simp add: push_bit_eq_mult take_bit_int_eq_self)
qed

lemma uint_byte: "0 \<le> uint (b :: byte)" "uint (b :: byte) < 256"
  using uint_lt2p [of b] by simp_all

lemma uint_unat_byte: "int (unat (b :: byte)) = uint b"
  by simp

lemma nat_uint_less: "uint (x :: byte) < 128 \<longleftrightarrow> unat x < 128"
  using of_nat_less_iff [of "unat x" 128, where 'a = int] by simp

lemma sint_byte: "sint (b :: byte) = (if uint b < 128 then uint b else uint b - 256)"
  by (rule all_bytesI [of "\<lambda>b. sint b = (if uint b < 128 then uint b else uint b - 256)"]) code_simp

lemma be_nat_Cons: "be_nat (x # xs) = unat x * 256 ^ length xs + be_nat xs"
proof (induction xs rule: rev_induct)
  case (snoc y ys)
  have "be_nat (x # ys @ [y]) = be_nat ((x # ys) @ [y])" by simp
  also have "\<dots> = be_nat (x # ys) * 256 + unat y" by (rule be_nat_simps(2))
  finally show ?case using snoc by (simp add: algebra_simps)
next
  case Nil
  show ?case using be_nat_simps(2) [of "[]" x] by simp
qed

text \<open>Two's complement is decided by the first byte.\<close>

lemma be_int_Cons: "be_int (x # xs) = sint x * 256 ^ length xs + int (be_nat xs)"
proof -
  have e: "(2 :: nat) ^ (8 * length xs) = 256 ^ length xs" by (simp add: power_mult)
  have b: "be_nat xs < 256 ^ length xs" by (rule be_nat_bound)
  have p: "8 * length (x # xs) - 1 = 8 * length xs + 7" by simp
  have "be_nat (x # xs) < 2 ^ (8 * length xs + 7) \<longleftrightarrow> unat x < 128"
  proof
    assume "be_nat (x # xs) < 2 ^ (8 * length xs + 7)"
    then have "unat x * 256 ^ length xs + be_nat xs < 128 * 256 ^ length xs"
      unfolding be_nat_Cons power_add e by simp
    then have "unat x * 256 ^ length xs < 128 * 256 ^ length xs" by (rule le_less_trans [OF le_add1])
    then show "unat x < 128" by simp
  next
    assume "unat x < 128"
    then have "Suc (unat x) * 256 ^ length xs \<le> 128 * 256 ^ length xs" by (intro mult_right_mono) simp_all
    then have "unat x * 256 ^ length xs + be_nat xs < 128 * 256 ^ length xs"
      using b unfolding mult_Suc by linarith
    then show "be_nat (x # xs) < 2 ^ (8 * length xs + 7)" by (simp add: be_nat_Cons power_add e)
  qed
  moreover have "(2 :: int) ^ (8 * length (x # xs)) = 256 * 256 ^ length xs"
    by (simp add: power_add power_mult)
  ultimately show ?thesis unfolding be_int_def p
    using nat_uint_less [of x] by (simp add: sint_byte be_nat_Cons algebra_simps)
qed

lemma or_bytes:
  "256 * x OR uint (b :: byte) = 256 * x + uint b"
  "65536 * x OR push_bit 8 (uint b) OR uint (c :: byte) = 65536 * x + (256 * uint b + uint c)"
  "16777216 * x OR push_bit 16 (uint b) OR push_bit 8 (uint c) OR uint (d :: byte)
    = 16777216 * x + (65536 * uint b + (256 * uint c + uint d))"
proof -
  have one: "256 * x OR uint b = 256 * x + uint b" for x and b :: byte
    using or_low [of "uint b" 8 x] uint_byte [of b] by (simp add: mult.commute)
  have two: "65536 * x OR (256 * uint b + uint c) = 65536 * x + (256 * uint b + uint c)" for x and b c :: byte
    using or_low [of "256 * uint b + uint c" 16 x] uint_byte [of b] uint_byte [of c]
    by (simp add: mult.commute)
  show "256 * x OR uint b = 256 * x + uint b" by (rule one)
  show "65536 * x OR push_bit 8 (uint b) OR uint c = 65536 * x + (256 * uint b + uint c)"
    using two [of x b c] one [of "uint b" c] by (simp add: push_bit_eq_mult or.assoc mult.commute)
  have "16777216 * x OR (65536 * uint b + (256 * uint c + uint d))
      = 16777216 * x + (65536 * uint b + (256 * uint c + uint d))"
    using or_low [of "65536 * uint b + (256 * uint c + uint d)" 24 x]
      uint_byte [of b] uint_byte [of c] uint_byte [of d] by (simp add: mult.commute)
  then show "16777216 * x OR push_bit 16 (uint b) OR push_bit 8 (uint c) OR uint d
      = 16777216 * x + (65536 * uint b + (256 * uint c + uint d))"
    using two [of "uint b" c d] one [of "uint c" d]
    by (simp add: push_bit_eq_mult or.assoc mult.commute)
qed

lemma mem_bytes_numeral:
  "mem_bytes m p 1 = [m p]" "mem_bytes m p 2 = [m p, m (p + 1)]"
  "mem_bytes m p 3 = [m p, m (p + 1), m (p + 2)]"
  "mem_bytes m p 4 = [m p, m (p + 1), m (p + 2), m (p + 3)]"
  by (simp_all add: eval_nat_numeral)

lemma be_nat_list:
  "be_nat [b] = unat b" "be_nat [b, c] = 256 * unat b + unat c"
  "be_nat [b, c, d] = 65536 * unat b + (256 * unat c + unat d)"
  "be_nat [b, c, d, e] = 16777216 * unat b + (65536 * unat c + (256 * unat d + unat e))"
  by (simp_all add: be_nat_Cons)

lemma byte_ints:
  "ONE_BYTE_INT m p = be_int (mem_bytes m p 1)"
  "TWO_BYTE_INT m p = be_int (mem_bytes m p 2)"
  "THREE_BYTE_INT m p = be_int (mem_bytes m p 3)"
  "FOUR_BYTE_INT m p = be_int (mem_bytes m p 4)"
  unfolding ONE_BYTE_INT_def TWO_BYTE_INT_def THREE_BYTE_INT_def FOUR_BYTE_INT_def
    or_bytes mem_bytes_numeral be_int_Cons be_nat_list be_nat_simps(1) by simp_all

lemma uint_widen: "uint (ucast (b :: byte) :: u32) = uint b"
proof -
  have "uint b < 2 ^ 32" by (rule less_trans [OF uint_byte(2)]) simp
  then show ?thesis by (simp add: unsigned_ucast_eq take_bit_int_eq_self)
qed

lemma uint_shift: "k \<le> 24 \<Longrightarrow> uint (push_bit k (ucast (b :: byte)) :: u32) = push_bit k (uint b)"
proof -
  assume "k \<le> 24"
  then have "(256 :: int) * 2 ^ k \<le> 256 * 2 ^ 24"
    using power_increasing [of k 24 "2 :: int"] by simp
  moreover have "uint b * 2 ^ k < 256 * 2 ^ k" using uint_byte [of b] by simp
  ultimately have "uint b * 2 ^ k < 256 * 2 ^ 24" by (rule less_le_trans [rotated])
  then have "uint b * 2 ^ k < 2 ^ 32" by simp
  then have "take_bit 32 (uint b * 2 ^ k) = uint b * 2 ^ k" by (intro take_bit_int_eq_self) simp_all
  then show ?thesis unfolding unsigned_push_bit_eq uint_widen unfolding push_bit_eq_mult by simp
qed

lemma four_byte_uint: "uint (FOUR_BYTE_UINT m p) = int (be_nat (mem_bytes m p 4))"
proof -
  have "uint (FOUR_BYTE_UINT m p) = push_bit 24 (uint (m p)) OR push_bit 16 (uint (m (p + 1)))
      OR push_bit 8 (uint (m (p + 2))) OR uint (m (p + 3))"
    by (simp add: FOUR_BYTE_UINT_def unsigned_or_eq uint_shift uint_widen)
  also have "push_bit 24 (uint (m p)) = 16777216 * uint (m p)" by (simp add: push_bit_eq_mult)
  finally show ?thesis unfolding or_bytes mem_bytes_numeral be_nat_list by simp
qed

lemma be_nat_append: "be_nat (xs @ ys) = be_nat xs * 256 ^ length ys + be_nat ys"
proof (induction ys rule: rev_induct)
  case (snoc y ys)
  have "be_nat (xs @ ys @ [y]) = be_nat (xs @ ys) * 256 + unat y"
    using be_nat_simps(2) [of "xs @ ys" y] by simp
  then show ?case using snoc by (simp add: algebra_simps)
qed simp

lemma six_byte_int:
  "uint (FOUR_BYTE_UINT m (p + 2)) + push_bit 32 1 * TWO_BYTE_INT m p = be_int (mem_bytes m p 6)"
proof -
  have "mem_bytes m p 6 = mem_bytes m p 2 @ mem_bytes m (p + 2) 4"
    using mem_bytes_add [of m p 2 4] by simp
  also have "\<dots> = m p # m (p + 1) # mem_bytes m (p + 2) 4" by (simp add: mem_bytes_numeral)
  finally have "be_int (mem_bytes m p 6)
      = sint (m p) * 256 ^ 5 + int (unat (m (p + 1)) * 256 ^ 4 + be_nat (mem_bytes m (p + 2) 4))"
    by (simp add: be_int_Cons be_nat_Cons)
  then show ?thesis
    unfolding four_byte_uint byte_ints mem_bytes_numeral be_int_Cons be_nat_list
    by (simp add: push_bit_eq_mult)
qed

lemma eight_bytes:
  "uint (push_bit 32 (ucast (FOUR_BYTE_UINT m p)) + ucast (FOUR_BYTE_UINT m (p + 4)) :: u64)
    = int (be_nat (mem_bytes m p 8))"
proof -
  let ?x = "FOUR_BYTE_UINT m p" and ?y = "FOUR_BYTE_UINT m (p + 4)"
  have w: "uint (ucast w :: u64) = uint w" "uint w < 2 ^ 32" for w :: u32
    using uint_lt2p [of w] by (simp_all add: unsigned_ucast_eq take_bit_eq_mod)
  have b: "uint ?x * 2 ^ 32 + uint ?y < 2 ^ 64" using w(2) [of ?x] w(2) [of ?y] by simp
  have "uint (push_bit 32 (ucast ?x :: u64)) = uint ?x * 2 ^ 32"
    unfolding unsigned_push_bit_eq w(1) unfolding push_bit_eq_mult
    using w(2) [of ?x] by (intro take_bit_int_eq_self) simp_all
  then have "uint (push_bit 32 (ucast ?x) + ucast ?y :: u64) = uint ?x * 2 ^ 32 + uint ?y"
    using b by (simp add: uint_word_ariths w(1))
  moreover have "mem_bytes m p 8 = mem_bytes m p 4 @ mem_bytes m (p + 4) 4"
    using mem_bytes_add [of m p 4 4] by simp
  ultimately show ?thesis by (simp add: four_byte_uint be_nat_append)
qed

text \<open>The signed reading of a 64-bit word.\<close>

lemma sint_u64: "sint (x :: u64) = (if uint x < 2 ^ 63 then uint x else uint x - 2 ^ 64)"
proof -
  have b: "0 \<le> uint x" "uint x < 2 ^ 64" using uint_lt2p [of x] by simp_all
  have s: "sint x = signed_take_bit 63 (uint x)" by (simp add: sint_uint)
  show ?thesis
  proof (cases "uint x < 2 ^ 63")
    case True
    have "- (2 ^ 63) \<le> uint x" by (rule order_trans [OF _ b(1)]) simp
    with True have "signed_take_bit 63 (uint x) = uint x" by (intro signed_take_bit_int_eq_self) simp_all
    with True show ?thesis by (simp add: s)
  next
    case False
    have "signed_take_bit 63 (uint x) = signed_take_bit 63 (uint x - 2 ^ 64)"
    proof (subst signed_take_bit_eq_iff_take_bit_eq)
      show "take_bit (Suc 63) (uint x) = take_bit (Suc 63) (uint x - 2 ^ 64)"
        by (simp add: take_bit_eq_mod)
    qed
    also have "\<dots> = uint x - 2 ^ 64" using False b by (intro signed_take_bit_int_eq_self) simp_all
    finally show ?thesis using False by (simp add: s)
  qed
qed

lemma eight_byte_int:
  "sint (push_bit 32 (ucast (FOUR_BYTE_UINT m p)) + ucast (FOUR_BYTE_UINT m (p + 4)) :: u64)
    = be_int (mem_bytes m p 8)"
  unfolding sint_u64 eight_bytes by (auto simp: be_int_def)

lemma eight_byte_word:
  "push_bit 32 (ucast (FOUR_BYTE_UINT m p)) + ucast (FOUR_BYTE_UINT m (p + 4))
    = (of_nat (be_nat (mem_bytes m p 8)) :: u64)"
proof -
  let ?x = "push_bit 32 (ucast (FOUR_BYTE_UINT m p)) + ucast (FOUR_BYTE_UINT m (p + 4)) :: u64"
  have "?x = of_int (uint ?x)" by simp
  then show ?thesis unfolding eight_bytes by (simp only: of_int_of_nat_eq)
qed

subsection \<open>Reading and writing a field\<close>

lemma type_cases:
  fixes st :: u32
  obtains "st = 0" | "st = 1" | "st = 2" | "st = 3" | "st = 4" | "st = 5" | "st = 6" | "st = 7"
  | "st = 8" | "st = 9" | "st = 10" | "st = 11" | "12 \<le> unat st"
proof (cases "unat st < 12")
  case True
  then have "unat st \<in> {0, 1, 2, 3, 4, 5, 6, 7, 8, 9, 10, 11}"
    by (auto simp: eval_nat_numeral less_Suc_eq)
  with that show thesis by (simp add: word_unat_eq_iff) (elim disjE; simp)
qed (use that(13) in simp)

lemma small_sizes:
  "k < 128 \<Longrightarrow> unat (sqlite3SmallTypeSizes ! k)
    = (if k < 12 then [0, 1, 2, 3, 4, 6, 8, 8, 0, 0, 0, 0] ! k else (k - 12) div 2)"
proof -
  have "list_all (\<lambda>k. unat (sqlite3SmallTypeSizes ! k)
    = (if k < 12 then [0, 1, 2, 3, 4, 6, 8, 8, 0, 0, 0, 0] ! k else (k - 12) div 2)) [0..<128]"
    by code_simp
  moreover assume "k < 128"
  ultimately show ?thesis by (simp add: list_all_iff)
qed

lemma unat_half: "12 \<le> unat st \<Longrightarrow> unat ((st - 12) div 2 :: u32) = (unat st - 12) div 2"
proof -
  assume "12 \<le> unat st"
  then have "unat (st - 12) = unat st - 12" by (subst unat_sub) (simp_all add: word_le_nat_alt)
  then show ?thesis by (simp only: unat_div_distrib unat_bintrunc) simp
qed

lemma type_len:
  "unat (sqlite3VdbeSerialTypeLen st)
    = (if unat st < 12 then [0, 1, 2, 3, 4, 6, 8, 8, 0, 0, 0, 0] ! unat st else (unat st - 12) div 2)"
proof (cases "128 \<le> st")
  case True
  then have "128 \<le> unat st" by (simp add: word_le_nat_alt)
  with True show ?thesis by (simp add: sqlite3VdbeSerialTypeLen_def unat_half)
next
  case False
  then have "unat st < 128" by (simp add: word_le_nat_alt)
  from small_sizes [OF this] False show ?thesis
    by (simp only: sqlite3VdbeSerialTypeLen_def unat_code if_False)
qed

lemma field_ok_len: "field_ok (st, ds) \<longleftrightarrow> st \<noteq> 10 \<and> st \<noteq> 11
    \<and> length ds = unat (sqlite3VdbeSerialTypeLen st)"
  by (simp only: field_ok_def type_len prod.case)

lemma has_flag_simps:
  "has_flag (c\<lparr>mem_flags := g\<rparr>) f \<longleftrightarrow> g AND f \<noteq> 0"
  "has_flag (c\<lparr>mem_z := z\<rparr>) f = has_flag c f" "has_flag (c\<lparr>mem_n := k\<rparr>) f = has_flag c f"
  "has_flag (c\<lparr>mem_i := i\<rparr>) f = has_flag c f" "has_flag (c\<lparr>mem_r := r\<rparr>) f = has_flag c f"
  "has_flag (c\<lparr>mem_nZero := k\<rparr>) f = has_flag c f" "has_flag (c\<lparr>uTemp := t\<rparr>) f = has_flag c f"
  by (simp_all add: has_flag_def)

lemma even_low_bit: "st AND 1 = 0 \<longleftrightarrow> even (unat (st :: u32))"
proof -
  have "unat (st mod 2) = unat st mod 2" by (simp add: unat_mod_distrib)
  then show ?thesis by (metis and_one_eq even_iff_mod_2_eq_zero unat_0_iff)
qed

lemma six_byte_sum:
  "uint (FOUR_BYTE_UINT m (Suc (Suc p))) + 4294967296 * be_int (mem_bytes m p 2)
    = be_int (mem_bytes m p 6)"
  using six_byte_int [of m p] by (simp add: byte_ints)

lemma sint_be: "length ds = 8 \<Longrightarrow> sint (of_nat (be_nat ds) :: u64) = be_int ds"
proof -
  assume l: "length ds = 8"
  then have "be_nat ds < 2 ^ 64" using be_nat_bound [of ds] by simp
  then have "uint (of_nat (be_nat ds) :: u64) = int (be_nat ds)"
    by (simp add: unsigned_of_nat take_bit_nat_eq_self)
  with l show ?thesis unfolding sint_u64 by (auto simp: be_int_def)
qed

lemma serial_get:
  assumes "field_ok (st, ds)" and "bytes_at m q ds"
  shows "cell_value (fst (sqlite3VdbeSerialGet m q st c)) = field_value (st, ds)"
    and "unat (snd (sqlite3VdbeSerialGet m q st c)) = length ds"
proof -
  have len: "length ds = (if unat st < 12 then [0, 1, 2, 3, 4, 6, 8, 8, 0, 0, 0, 0] ! unat st
      else (unat st - 12) div 2)" and st: "st \<noteq> 10" "st \<noteq> 11"
    using assms(1) by (simp_all add: field_ok_def)
  have ds: "mem_bytes m q (length ds) = ds" using assms(2) by (simp add: bytes_at_def)
  have "cell_value (fst (sqlite3VdbeSerialGet m q st c)) = field_value (st, ds)
      \<and> unat (snd (sqlite3VdbeSerialGet m q st c)) = length ds"
  proof (cases st rule: type_cases)
    case 13
    then have ne: "st \<noteq> 0" "st \<noteq> 1" "st \<noteq> 2" "st \<noteq> 3" "st \<noteq> 4" "st \<noteq> 5" "st \<noteq> 6" "st \<noteq> 7"
      "st \<noteq> 8" "st \<noteq> 9" "\<not> st \<le> 6"
      by (auto simp: word_unat_eq_iff word_le_nat_alt)
    have k: "unat ((st - 12) div 2) = length ds" using 13 len by (simp add: unat_half)
    show ?thesis using ne st ds k
      by (simp add: sqlite3VdbeSerialGet_def field_value_def cell_value_def Let_def has_flag_simps
        mem_flag_defs even_low_bit)
  qed (use len ds st in \<open>simp_all add: sqlite3VdbeSerialGet_def field_value_def cell_value_def
      has_flag_simps mem_flag_defs serialGet_def Let_def byte_ints six_byte_sum sint_be
      eight_byte_word\<close>)
  then show "cell_value (fst (sqlite3VdbeSerialGet m q st c)) = field_value (st, ds)"
    "unat (snd (sqlite3VdbeSerialGet m q st c)) = length ds" by simp_all
qed

lemma unat_small: "K < 2 ^ 32 \<Longrightarrow> unat (of_nat K :: u32) = K"
  by (simp add: unsigned_of_nat take_bit_nat_eq_self)

text \<open>The bytes the serializer writes.\<close>

definition put_data :: "Cell \<Rightarrow> u32 \<Rightarrow> byte list" where
  "put_data c st =
     (if st \<le> 7 \<and> st > 0
      then be_bytes (unat (sqlite3SmallTypeSizes ! unat st)) (if st = 7 then mem_r c else of_int (mem_i c))
      else if st \<ge> 12 then take (mem_n c) (mem_z c) else [])"

lemma serial_put:
  assumes "mem_n c \<le> length (mem_z c)" and "mem_n c \<le> 1000000000"
  shows "fst (sqlite3VdbeSerialPut m p c st) = put_bytes m p (put_data c st)"
    and "unat (snd (sqlite3VdbeSerialPut m p c st)) = length (put_data c st)"
proof -
  show "fst (sqlite3VdbeSerialPut m p c st) = put_bytes m p (put_data c st)"
    by (simp add: sqlite3VdbeSerialPut_def put_data_def put_be_bytes Let_def)
  have "unat (of_nat (mem_n c) :: u32) = mem_n c"
    using assms(2) by (simp add: unsigned_of_nat take_bit_nat_eq_self)
  then show "unat (snd (sqlite3VdbeSerialPut m p c st)) = length (put_data c st)"
    using assms(1) by (simp add: sqlite3VdbeSerialPut_def put_data_def Let_def unat_code)
qed

lemma be_int_bytes:
  assumes "k \<le> 8" and "0 < k" and "- (2 ^ (8 * k - 1)) \<le> i" and "i < 2 ^ (8 * k - 1)"
  shows "be_int (be_bytes k (of_int i)) = i"
proof -
  have e: "(256 :: int) ^ k = 2 ^ (8 * k)" by (simp add: power_mult)
  have "8 * k = Suc (8 * k - 1)" using assms(2) by simp
  then have dbl: "(2 :: int) ^ (8 * k) = 2 * 2 ^ (8 * k - 1)" by (metis power_Suc)
  have "int (be_nat (be_bytes k (of_int i))) = uint (of_int i :: u64) mod 256 ^ k"
    by (simp add: be_nat_bytes zmod_int)
  also have "\<dots> = i mod 2 ^ 64 mod 2 ^ (8 * k)"
    by (simp add: e unsigned_of_int take_bit_eq_mod)
  also have "\<dots> = i mod 2 ^ (8 * k)"
    by (rule mod_mod_cancel) (rule le_imp_power_dvd, use assms(1) in simp)
  finally have n: "int (be_nat (be_bytes k (of_int i))) = i mod 2 ^ (8 * k)" .
  show ?thesis
  proof (cases "0 \<le> i")
    case True
    then have "int (be_nat (be_bytes k (of_int i))) = i" using n assms(4) dbl by simp
    moreover from this have "be_nat (be_bytes k (of_int i)) < 2 ^ (8 * k - 1)"
      using assms(4) by (metis of_nat_less_iff of_nat_numeral of_nat_power)
    ultimately show ?thesis by (simp add: be_int_def)
  next
    case False
    have "i mod 2 ^ (8 * k) = (i + 2 ^ (8 * k)) mod 2 ^ (8 * k)" by simp
    also have "\<dots> = i + 2 ^ (8 * k)"
      by (rule mod_pos_pos_trivial) (use False assms(3) dbl in simp_all)
    finally have v: "int (be_nat (be_bytes k (of_int i))) = i + 2 ^ (8 * k)" using n by simp
    have "int (2 ^ (8 * k - 1)) \<le> int (be_nat (be_bytes k (of_int i)))"
      unfolding v using assms(3) dbl by simp
    then have "\<not> be_nat (be_bytes k (of_int i)) < 2 ^ (8 * k - 1)" unfolding of_nat_le_iff by simp
    with v show ?thesis by (simp add: be_int_def)
  qed
qed

definition zero_tail :: "Cell \<Rightarrow> byte list" where
  "zero_tail c = (if has_flag c MEM_Zero then replicate (mem_nZero c) 0 else [])"

text \<open>The serial type of an integer is the least width that holds it.\<close>

lemma serial_int:
  assumes "in_int64 (mem_i c)" and "has_flag c MEM_Int" and "\<not> has_flag c MEM_Null"
    and "sqlite3VdbeSerialType c ff = (st, len)"
  shows "field_ok (st, put_data c st) \<and> field_value (st, put_data c st) = VInt (mem_i c)
    \<and> unat len = length (put_data c st)"
proof -
  let ?i = "mem_i c"
  define u where "u = (if ?i < 0 then - ?i - 1 else ?i)"
  have u: "(if ?i < 0 then NOT ?i else ?i) = u" by (simp add: u_def not_int_def)
  have one: "?i AND 1 = ?i \<longleftrightarrow> ?i = 0 \<or> ?i = 1"
  proof -
    have "0 \<le> ?i mod 2" "?i mod 2 < 2" by simp_all
    moreover have "?i = 0 \<or> ?i = 1 \<Longrightarrow> ?i mod 2 = ?i" by auto
    ultimately show ?thesis unfolding and_one_eq by linarith
  qed
  have b: "?i < 2 ^ j \<and> - (2 ^ j) \<le> ?i \<longleftrightarrow> u < 2 ^ j" for j
    by (auto simp: u_def)
  have max: "MAX_6BYTE = 140737488355327" by (simp add: MAX_6BYTE_def push_bit_eq_mult)
  have "sqlite3VdbeSerialType c ff
    = (if u \<le> 127 then (if (?i = 0 \<or> ?i = 1) \<and> ff \<ge> 4 then (8 + of_int u, 0) else (1, 1))
      else if u \<le> 32767 then (2, 2) else if u \<le> 8388607 then (3, 3)
      else if u \<le> 2147483647 then (4, 4) else if u \<le> 140737488355327 then (5, 6) else (6, 8))"
    using assms(2,3)
    by (simp only: sqlite3VdbeSerialType_def Let_def u one if_True if_False max)
  then have st: "(st, len) = (if u \<le> 127 then (if (?i = 0 \<or> ?i = 1) \<and> ff \<ge> 4 then (8 + of_int u, 0) else (1, 1))
      else if u \<le> 32767 then (2, 2) else if u \<le> 8388607 then (3, 3)
      else if u \<le> 2147483647 then (4, 4) else if u \<le> 140737488355327 then (5, 6) else (6, 8))"
    using assms(4) by simp
  have u63: "u < 2 ^ 63" using assms(1) b [of 63] by (simp add: in_int64_def)
  have wide: ?thesis if "st = of_nat j" "len = of_nat k" "u < 2 ^ (8 * k - 1)"
    "(j, k) \<in> {(1, 1), (2, 2), (3, 3), (4, 4), (5, 6), (6, 8)}" for j k
  proof -
    have ds: "put_data c st = be_bytes k (of_int ?i)"
      using that(1,4) by (auto simp: put_data_def sqlite3SmallTypeSizes_def)
    have k: "0 < k" "k \<le> 8" using that(4) by auto
    have "be_int (be_bytes k (of_int ?i)) = ?i"
      by (rule be_int_bytes) (use k b [of "8 * k - 1"] that(3) in auto)
    moreover have "field_ok (st, be_bytes k (of_int ?i))" "st \<noteq> 0" "st \<le> 6" "unat len = k"
      using that(1,2,4) by (auto simp: field_ok_def)
    ultimately show ?thesis unfolding ds by (simp add: field_value_def)
  qed
  show ?thesis
  proof (cases "u \<le> 127 \<and> (?i = 0 \<or> ?i = 1) \<and> ff \<ge> 4")
    case True
    then have "(?i = 0 \<and> st = 8 \<or> ?i = 1 \<and> st = 9) \<and> len = 0" using st by (auto simp: u_def)
    then show ?thesis by (auto simp: field_ok_def field_value_def put_data_def)
  next
    case False
    with st u63 show ?thesis
      using wide [of 1 1] wide [of 2 2] wide [of 3 3] wide [of 4 4] wide [of 5 6] wide [of 6 8]
      by (simp split: if_splits)
  qed
qed

lemma serial_bytes:
  assumes "cell_ok c" and "\<not> has_flag c MEM_Null" "\<not> has_flag c MEM_Int" "\<not> has_flag c MEM_Real"
    and "sqlite3VdbeSerialType c ff = (st, len)"
  shows "field_ok (st, put_data c st @ zero_tail c) \<and> field_value (st, put_data c st @ zero_tail c) = cell_value c
    \<and> unat len = length (put_data c st @ zero_tail c) \<and> 12 \<le> unat st"
proof -
  define k where "k = mem_n c + (if has_flag c MEM_Zero then mem_nZero c else 0)"
  define s :: nat where "s = (if has_flag c MEM_Str then 1 else 0)"
  have le: "k \<le> 1000000000" "mem_n c \<le> length (mem_z c)" and s: "s \<le> 1"
    using assms(1) by (auto simp: cell_ok_def k_def s_def)
  have "sqlite3VdbeSerialType c ff = (of_nat (2 * k + 12 + s), of_nat k)"
    using assms(2-4) by (simp add: sqlite3VdbeSerialType_def k_def s_def Let_def algebra_simps)
  then have w: "st = of_nat (2 * k + 12 + s)" "len = of_nat k" using assms(5) by simp_all
  have st: "unat st = 2 * k + 12 + s" unfolding w by (rule unat_small) (use le s in simp)
  have len: "unat len = k" unfolding w by (rule unat_small) (use le in simp)
  have st12: "12 \<le> unat st" using st by simp
  then have ge: "st \<ge> 12" "\<not> st \<le> 7" "\<not> st \<le> 6" "st \<noteq> 0" "st \<noteq> 7" "st \<noteq> 8" "st \<noteq> 9" "st \<noteq> 10" "st \<noteq> 11"
    by (auto simp: word_le_nat_alt word_unat_eq_iff)
  have ds: "put_data c st @ zero_tail c = take (mem_n c) (mem_z c)
      @ (if has_flag c MEM_Zero then replicate (mem_nZero c) 0 else [])"
    using ge by (simp add: put_data_def zero_tail_def)
  have l: "length (put_data c st @ zero_tail c) = k" unfolding ds k_def using le by simp
  have "even (unat st) \<longleftrightarrow> \<not> has_flag c MEM_Str" using st s by (auto simp: s_def)
  moreover have "has_flag c MEM_Str \<Longrightarrow> \<not> has_flag c MEM_Zero" using assms(1) by (simp add: cell_ok_def)
  ultimately have "field_value (st, put_data c st @ zero_tail c) = cell_value c"
    unfolding ds using ge assms(2-4) by (auto simp: field_value_def cell_value_def)
  moreover have "field_ok (st, put_data c st @ zero_tail c)"
    using l st ge s by (auto simp: field_ok_def)
  ultimately show ?thesis using l len st12 by simp
qed

lemma field_null: "field_ok (0, [])" "field_value (0, []) = VNull"
  by (simp_all add: field_ok_def field_value_def)

lemma field_real: "\<not> sqlite3IsNaN x \<Longrightarrow> field_ok (7, be_bytes 8 x) \<and> field_value (7, be_bytes 8 x) = VReal x"
proof -
  have "be_nat (be_bytes 8 x) = unat x"
    using unsigned_less [where 'a = nat, of x] by (simp add: be_nat_bytes)
  then show "\<not> sqlite3IsNaN x \<Longrightarrow> field_ok (7, be_bytes 8 x) \<and> field_value (7, be_bytes 8 x) = VReal x"
    by (simp add: field_ok_def field_value_def)
qed

text \<open>What the serializers make of a cell is a field with the value of the cell.\<close>

lemma serial_field:
  assumes "cell_ok c" and "sqlite3VdbeSerialType c ff = (st, len)"
  shows "field_ok (st, put_data c st @ zero_tail c)"
    and "field_value (st, put_data c st @ zero_tail c) = cell_value c"
    and "unat len = length (put_data c st @ zero_tail c)"
    and "has_flag c MEM_Zero \<Longrightarrow> 12 \<le> unat st"
proof -
  have "field_ok (st, put_data c st @ zero_tail c)
    \<and> field_value (st, put_data c st @ zero_tail c) = cell_value c
    \<and> unat len = length (put_data c st @ zero_tail c) \<and> (has_flag c MEM_Zero \<longrightarrow> 12 \<le> unat st)"
  proof (cases "has_flag c MEM_Null \<or> has_flag c MEM_Int \<or> has_flag c MEM_Real")
    case True
    then have z: "zero_tail c = []" "\<not> has_flag c MEM_Zero"
      using assms(1) by (auto simp: cell_ok_def zero_tail_def)
    consider (null) "has_flag c MEM_Null" | (int) "\<not> has_flag c MEM_Null" "has_flag c MEM_Int"
      | (real) "\<not> has_flag c MEM_Null" "\<not> has_flag c MEM_Int" "has_flag c MEM_Real" using True by blast
    then show ?thesis
    proof cases
      case null
      then have "st = 0" "len = 0" using assms(2) by (simp_all add: sqlite3VdbeSerialType_def)
      then show ?thesis using null z by (simp add: put_data_def field_null cell_value_def)
    next
      case int
      moreover have "in_int64 (mem_i c)" using assms(1) by (simp add: cell_ok_def)
      ultimately show ?thesis using serial_int [OF _ _ _ assms(2)] z by (simp add: cell_value_def)
    next
      case real
      then have "st = 7" "len = 8" using assms(2) by (simp_all add: sqlite3VdbeSerialType_def)
      moreover from this have "put_data c st = be_bytes 8 (mem_r c)"
        by (simp add: put_data_def sqlite3SmallTypeSizes_def)
      moreover have "\<not> sqlite3IsNaN (mem_r c)" using assms(1) real by (simp add: cell_ok_def)
      ultimately show ?thesis using real z by (simp add: field_real cell_value_def)
    qed
  next
    case False
    then show ?thesis using serial_bytes [OF assms(1) _ _ _ assms(2)] by simp
  qed
  then show "field_ok (st, put_data c st @ zero_tail c)"
    "field_value (st, put_data c st @ zero_tail c) = cell_value c"
    "unat len = length (put_data c st @ zero_tail c)"
    "has_flag c MEM_Zero \<Longrightarrow> 12 \<le> unat st" by simp_all
qed

subsection \<open>The sizes\<close>

lemma u32_wide: "unat (ucast (st :: u32) :: u64) = unat st"
  using unsigned_less [where 'a = nat, of st] by (simp add: unsigned_ucast_eq take_bit_eq_mod)

lemma type_size:
  "(if st \<le> 127 then 1 else sqlite3VarintLen (ucast (st :: u32))) = length (varint_bytes (ucast st))"
proof -
  have "unat (ucast st :: u64) < 2 ^ (7 * Suc 4)"
    using unsigned_less [where 'a = nat, of st] by (simp add: u32_wide)
  then have "sqlite3VarintLen (ucast st) \<le> 5" using varint_len_le [of "ucast st" 4] by simp
  moreover have "sqlite3VarintLen (ucast st) = 1" if "st \<le> 127"
  proof -
    have "unat (ucast st :: u64) < 2 ^ (7 * Suc 0)" using that by (simp add: u32_wide word_le_nat_alt)
    then show ?thesis using varint_len_le [of "ucast st" 0] varint_len_range [of "ucast st"] by simp
  qed
  ultimately show ?thesis by (simp add: varint_bytes_length)
qed

lemma put_data_uTemp [simp]: "put_data (c\<lparr>uTemp := t\<rparr>) st = put_data c st"
  by (simp add: put_data_def)

lemma expanded_data:
  assumes "mem_n c \<le> length (mem_z c)" and "has_flag c MEM_Zero" and "12 \<le> unat st"
    and "sqlite3VdbeMemExpandBlob b c = (rc, c')" and "rc = SQLITE_OK"
  shows "put_data c' st = put_data c st @ zero_tail c"
    and "mem_n c' = mem_n c + mem_nZero c" and "mem_n c' \<le> length (mem_z c')"
proof -
  have st: "\<not> st \<le> 7" "12 \<le> st" using assms(3) by (simp_all add: word_le_nat_alt)
  have c': "c' = c\<lparr>mem_z := take (mem_n c) (mem_z c) @ replicate (mem_nZero c) 0,
      mem_n := mem_n c + mem_nZero c, mem_flags := mem_flags c AND NOT (MEM_Zero OR MEM_Term)\<rparr>"
    using assms(4,5) by (simp add: sqlite3VdbeMemExpandBlob_def result_codes split: if_splits)
  show "put_data c' st = put_data c st @ zero_tail c"
    using st assms(1,2) by (simp add: c' put_data_def zero_tail_def)
  show "mem_n c' = mem_n c + mem_nZero c" "mem_n c' \<le> length (mem_z c')"
    using assms(1) by (simp_all add: c')
qed

definition cell_data :: "Cell list \<Rightarrow> byte list" where
  "cell_data cs = concat (map (\<lambda>c. put_data c (uTemp c)) cs)"

definition fits :: "Cell \<Rightarrow> bool" where
  "fits c \<longleftrightarrow> mem_n c \<le> length (mem_z c) \<and> mem_n c \<le> 1000000000"

text \<open>The fields that are written, with a tail of zero bytes that is only counted.\<close>

definition sized :: "Cell list \<Rightarrow> field list \<Rightarrow> Cell list \<times> nat \<times> nat \<times> nat \<Rightarrow> bool" where
  "sized cells fs r \<longleftrightarrow> (case r of (cs, nData, nHdr, nZero) \<Rightarrow>
     list_all field_ok fs \<and> map field_value fs = map cell_value cells \<and> map fst fs = map uTemp cs
     \<and> data_bytes fs = cell_data cs @ replicate nZero 0 \<and> nData = length (cell_data cs)
     \<and> nHdr = length (types_bytes fs) \<and> list_all fits cs)"

lemma sized_Cons:
  assumes "sized cells fs (cs, nData, nHdr, nZero)" and "field_ok (st, ds)"
    and "field_value (st, ds) = cell_value c" and "fits c'"
    and "ds @ cell_data cs @ replicate nZero 0 = put_data c' st @ cell_data cs @ replicate nZero' 0"
    and "k = length (put_data c' st)"
  shows "sized (c # cells) ((st, ds) # fs) (c'\<lparr>uTemp := st\<rparr> # cs, nData + k,
    nHdr + (if st \<le> 127 then 1 else sqlite3VarintLen (ucast st)), nZero')"
  using assms unfolding sized_def type_size
  by (simp add: data_bytes_def types_bytes_def cell_data_def fits_def)

text \<open>The field of a cell.\<close>

definition ser_field :: "int \<Rightarrow> Cell \<Rightarrow> field" where
  "ser_field ff c = (case sqlite3VdbeSerialType c ff of (st, len) \<Rightarrow> (st, put_data c st @ zero_tail c))"

lemma size_loop_sized:
  "list_all cell_ok cells \<Longrightarrow> size_loop ff ok i cells = Some r \<Longrightarrow> sized cells (map (ser_field ff) cells) r"
proof (induction ff ok i cells arbitrary: r rule: size_loop.induct)
  case (1 ff ok i)
  then show ?case by (auto simp: sized_def data_bytes_def types_bytes_def cell_data_def)
next
  case (2 ff ok i c rest)
  obtain cs nData nHdr nZero where tl: "size_loop ff ok (i + 1) rest = Some (cs, nData, nHdr, nZero)"
    using "2.prems"(2) by (auto split: option.splits)
  have ok: "cell_ok c" and rest: "list_all cell_ok rest" using "2.prems"(1) by simp_all
  note fs = "2.IH" [OF rest tl]
  obtain st len where t: "sqlite3VdbeSerialType c ff = (st, len)" by force
  note f = serial_field [OF ok t]
  have ser: "map (ser_field ff) (c # rest) = (st, put_data c st @ zero_tail c) # map (ser_field ff) rest"
    using t by (simp add: ser_field_def)
  have fit: "fits c" using ok by (auto simp: cell_ok_def fits_def split: if_splits)
  show ?case
  proof (cases "has_flag c MEM_Zero")
    case False
    then have z: "zero_tail c = []" by (simp add: zero_tail_def)
    have r: "r = (c\<lparr>uTemp := st\<rparr> # cs, nData + unat len,
        nHdr + (if st \<le> 127 then 1 else sqlite3VarintLen (ucast st)), nZero)"
      using "2.prems"(2) tl t False by simp
    show ?thesis unfolding r ser
      by (rule sized_Cons [OF fs f(1,2) fit]) (use z f(3) in simp_all)
  next
    case True
    then have st: "12 \<le> unat st" "st \<noteq> 0" using f(4) by auto
    show ?thesis
    proof (cases "nData = 0")
      case nData: False
      obtain rc c' where e: "sqlite3VdbeMemExpandBlob (ok i) c = (rc, c')" by force
      have rc: "rc = SQLITE_OK" and r: "r = (c'\<lparr>uTemp := st\<rparr> # cs, nData + unat len,
          nHdr + (if st \<le> 127 then 1 else sqlite3VarintLen (ucast st)), nZero)"
        using "2.prems"(2) tl t True st nData e by (auto split: if_splits)
      have "mem_n c \<le> length (mem_z c)" using fit by (simp add: fits_def)
      note x = expanded_data [OF this True st(1) e rc]
      have fit': "fits c'" using x ok True by (simp add: fits_def cell_ok_def)
      show ?thesis unfolding r ser
        by (rule sized_Cons [OF fs f(1,2) fit']) (use x f(3) in simp_all)
    next
      case nData: True
      have r: "r = (c\<lparr>uTemp := st\<rparr> # cs, nData + unat (len - of_nat (mem_nZero c)),
          nHdr + (if st \<le> 127 then 1 else sqlite3VarintLen (ucast st)), nZero + mem_nZero c)"
        using "2.prems"(2) tl t True st nData by simp
      have z: "zero_tail c = replicate (mem_nZero c) 0" using True by (simp add: zero_tail_def)
      have "mem_nZero c \<le> 1000000000" using ok True by (simp add: cell_ok_def)
      then have w: "unat (of_nat (mem_nZero c) :: u32) = mem_nZero c" by (intro unat_small) simp
      have l: "unat len = length (put_data c st) + mem_nZero c" using f(3) z by simp
      have "unat (len - of_nat (mem_nZero c)) = length (put_data c st)"
        using l w by (subst unat_sub) (simp_all add: word_le_nat_alt)
      then have k: "unat (len - of_nat (mem_nZero c)) = length (put_data c st)" .
      have cs: "cell_data cs = []" using fs nData by (simp add: sized_def)
      show ?thesis unfolding r ser
        by (rule sized_Cons [OF fs f(1,2) fit])
          (use z k cs in \<open>simp_all add: replicate_add [symmetric] add.commute\<close>)
    qed
  qed
qed

lemma sized_length: "sized cells fs (cs, r) \<Longrightarrow> length fs = length cells \<and> length cs = length cells"
  by (auto simp: sized_def dest!: arg_cong [where f = length] split: prod.splits)

lemma types_length: "length (types_bytes fs) \<le> 5 * length fs"
proof (induction fs)
  case (Cons f fs)
  obtain st ds where f: "f = (st, ds)" by force
  have "unat (ucast st :: u64) < 2 ^ (7 * Suc 4)"
    using unsigned_less [where 'a = nat, of st] by (simp add: u32_wide)
  then have "sqlite3VarintLen (ucast st) \<le> 5" using varint_len_le [of "ucast st" 4] by simp
  with Cons f show ?case by (simp add: types_bytes_def varint_bytes_length)
qed (simp add: types_bytes_def)

lemma varint_len_nat:
  assumes "x < 2 ^ (7 * Suc j)" and "j = 0 \<or> 2 ^ (7 * j) \<le> x" and "j \<le> 3"
  shows "sqlite3VarintLen (of_nat x) = Suc j"
proof -
  have "(2 :: nat) ^ (7 * Suc j) \<le> 2 ^ 28" by (rule power_increasing) (use assms(3) in simp_all)
  then have x: "unat (of_nat x :: u64) = x"
    using assms(1) by (simp add: unsigned_of_nat take_bit_nat_eq_self)
  then have "sqlite3VarintLen (of_nat x) \<le> Suc j" using assms(1) varint_len_le [of "of_nat x" j] by simp
  moreover have "j < sqlite3VarintLen (of_nat x)"
    using assms(2,3) x varint_len_gt [of j "of_nat x"] varint_len_range [of "of_nat x"] by auto
  ultimately show ?thesis by simp
qed

text \<open>The header with its own size is found without a second pass.\<close>

lemma header_size_eq:
  assumes "t < 2 ^ 27"
  shows "header_with_size t = header_size t"
    and "length (varint_bytes (of_nat (header_size t))) + t = header_size t"
    and "header_size t < 2 ^ 28"
proof -
  have len: "length (varint_bytes (of_nat x)) = Suc j" if "x < 2 ^ (7 * Suc j)" "j = 0 \<or> 2 ^ (7 * j) \<le> x" "j \<le> 3"
    for x j
    using varint_len_nat [OF that] that(3) by (simp add: varint_bytes_length)
  consider "t \<le> 126" | "126 < t" "t < 2 ^ 14 - 2" | "2 ^ 14 - 2 \<le> t" "t < 2 ^ 21 - 3"
    | "2 ^ 21 - 3 \<le> t" "t < 2 ^ 27" using assms by linarith
  then have "header_with_size t = header_size t
    \<and> length (varint_bytes (of_nat (header_size t))) + t = header_size t \<and> header_size t < 2 ^ 28"
  proof cases
    case 1
    then show ?thesis using len [of "t + 1" 0] by (simp add: header_with_size_def header_size_def)
  next
    case 2
    have "sqlite3VarintLen (of_nat t) = (if t < 2 ^ 7 then 1 else 2)"
      using 2 varint_len_nat [of t 0] varint_len_nat [of t 1] by auto
    moreover have "sqlite3VarintLen (of_nat (t + 1)) = 2" "sqlite3VarintLen (of_nat (t + 2)) = 2"
      using 2 varint_len_nat [of "t + 1" 1] varint_len_nat [of "t + 2" 1] by auto
    moreover have "header_size t = t + 2" using 2 by (simp add: header_size_def)
    ultimately show ?thesis using 2 len [of "t + 2" 1] by (simp add: header_with_size_def Let_def add.commute)
  next
    case 3
    have "sqlite3VarintLen (of_nat t) = (if t < 2 ^ 14 then 2 else 3)"
      using 3 varint_len_nat [of t 1] varint_len_nat [of t 2] by auto
    moreover have "sqlite3VarintLen (of_nat (t + 2)) = 3" "sqlite3VarintLen (of_nat (t + 3)) = 3"
      using 3 varint_len_nat [of "t + 2" 2] varint_len_nat [of "t + 3" 2] by auto
    moreover have "header_size t = t + 3" using 3 by (simp add: header_size_def)
    ultimately show ?thesis using 3 len [of "t + 3" 2] by (simp add: header_with_size_def Let_def add.commute)
  next
    case 4
    have "sqlite3VarintLen (of_nat t) = (if t < 2 ^ 21 then 3 else 4)"
      using 4 varint_len_nat [of t 2] varint_len_nat [of t 3] by auto
    moreover have "sqlite3VarintLen (of_nat (t + 3)) = 4" "sqlite3VarintLen (of_nat (t + 4)) = 4"
      using 4 varint_len_nat [of "t + 3" 3] varint_len_nat [of "t + 4" 3] by auto
    moreover have "header_size t = t + 4" using 4 by (simp add: header_size_def)
    ultimately show ?thesis using 4 len [of "t + 4" 3] by (simp add: header_with_size_def Let_def add.commute)
  qed
  then show "header_with_size t = header_size t"
    "length (varint_bytes (of_nat (header_size t))) + t = header_size t" "header_size t < 2 ^ 28" by simp_all
qed

subsection \<open>Writing and reading a record\<close>

lemma bytes_at_cong:
  "bytes_at m q bs \<Longrightarrow> (\<And>r. q \<le> r \<Longrightarrow> r < q + length bs \<Longrightarrow> m' r = m r) \<Longrightarrow> bytes_at m' q bs"
  by (simp add: bytes_at_nth)

definition cell_types :: "Cell list \<Rightarrow> byte list" where
  "cell_types cs = concat (map (\<lambda>c. varint_bytes (ucast (uTemp c))) cs)"

lemma write_loop_bytes:
  assumes "list_all fits cs" and "i + length (cell_types cs) \<le> j"
  shows "bytes_at (write_loop m p i j cs) (p + i) (cell_types cs)"
    and "bytes_at (write_loop m p i j cs) (p + j) (cell_data cs)"
    and "\<And>q. q < p + i \<or> p + i + length (cell_types cs) \<le> q \<and> q < p + j \<or> p + j + length (cell_data cs) \<le> q \<Longrightarrow>
      write_loop m p i j cs q = m q"
proof -
  have "bytes_at (write_loop m p i j cs) (p + i) (cell_types cs)
    \<and> bytes_at (write_loop m p i j cs) (p + j) (cell_data cs)
    \<and> (\<forall>q. q < p + i \<or> p + i + length (cell_types cs) \<le> q \<and> q < p + j \<or> p + j + length (cell_data cs) \<le> q \<longrightarrow>
      write_loop m p i j cs q = m q)"
    using assms
  proof (induction cs arbitrary: m i j)
    case (Cons c cs)
    let ?t = "varint_bytes (ucast (uTemp c))" and ?d = "put_data c (uTemp c)"
    let ?m = "put_bytes (put_bytes m (p + i) ?t) (p + j) ?d"
    have fit: "mem_n c \<le> length (mem_z c)" "mem_n c \<le> 1000000000" using Cons.prems(1) by (simp_all add: fits_def)
    have w: "write_loop m p i j (c # cs) = write_loop ?m p (i + length ?t) (j + length ?d) cs"
      using serial_put [OF fit, of "put_bytes m (p + i) ?t" "p + j" "uTemp c"]
      by (auto simp: put_varint32_bytes Let_def split: prod.split)
    have b: "cell_types (c # cs) = ?t @ cell_types cs" "cell_data (c # cs) = ?d @ cell_data cs"
      by (simp_all add: cell_types_def cell_data_def)
    have le: "i + length ?t + length (cell_types cs) \<le> j" using Cons.prems(2) b by simp
    let ?w = "write_loop ?m p (i + length ?t) (j + length ?d) cs"
    have IH: "bytes_at ?w (p + (i + length ?t)) (cell_types cs)"
      "bytes_at ?w (p + (j + length ?d)) (cell_data cs)"
      "q < p + (i + length ?t) \<or> p + (i + length ?t) + length (cell_types cs) \<le> q \<and> q < p + (j + length ?d)
        \<or> p + (j + length ?d) + length (cell_data cs) \<le> q \<Longrightarrow> ?w q = ?m q" for q
    proof -
      have f: "list_all fits cs" using Cons.prems(1) by simp
      have l: "i + length ?t + length (cell_types cs) \<le> j + length ?d" using le by simp
      note I = Cons.IH [where i = "i + length ?t" and j = "j + length ?d" and m = ?m, OF f l]
      show "bytes_at ?w (p + (i + length ?t)) (cell_types cs)" by (rule I [THEN conjunct1])
      show "bytes_at ?w (p + (j + length ?d)) (cell_data cs)" by (rule I [THEN conjunct2, THEN conjunct1])
      show "q < p + (i + length ?t) \<or> p + (i + length ?t) + length (cell_types cs) \<le> q \<and> q < p + (j + length ?d)
        \<or> p + (j + length ?d) + length (cell_data cs) \<le> q \<Longrightarrow> ?w q = ?m q" for q
        by (rule I [THEN conjunct2, THEN conjunct2, rule_format])
    qed
    have "bytes_at ?m (p + i) ?t" by (rule bytes_at_frame) (use le in auto)
    then have "bytes_at ?w (p + i) ?t" by (rule bytes_at_cong) (rule IH(3), simp)
    moreover have "bytes_at ?w (p + j) ?d"
      by (rule bytes_at_cong [OF bytes_at_put]) (rule IH(3), use le in simp)
    moreover have "?w q = m q"
      if "q < p + i \<or> p + i + length (?t @ cell_types cs) \<le> q \<and> q < p + j
        \<or> p + j + length (?d @ cell_data cs) \<le> q" for q
    proof -
      have o: "q < p + (i + length ?t) \<or> p + (i + length ?t) + length (cell_types cs) \<le> q \<and> q < p + (j + length ?d)
          \<or> p + (j + length ?d) + length (cell_data cs) \<le> q"
        using that le by (elim disjE) simp_all
      have "q < p + j \<or> p + j + length ?d \<le> q" "q < p + i \<or> p + i + length ?t \<le> q"
        using that le by (elim disjE; simp)+
      then have "?m q = m q" by (simp add: put_bytes_frame)
      from IH(3) [OF o] this show ?thesis by (rule trans)
    qed
    ultimately show ?case unfolding w b using IH(1,2) by (simp add: add.assoc)
  qed (simp add: cell_types_def cell_data_def)
  then show "bytes_at (write_loop m p i j cs) (p + i) (cell_types cs)"
    "bytes_at (write_loop m p i j cs) (p + j) (cell_data cs)"
    "\<And>q. q < p + i \<or> p + i + length (cell_types cs) \<le> q \<and> q < p + j \<or> p + j + length (cell_data cs) \<le> q \<Longrightarrow>
      write_loop m p i j cs q = m q" by blast+
qed

lemma varint_nonempty: "0 < length (varint_bytes v)"
  using varint_len_range [of v] by (simp add: varint_bytes_length del: length_greater_0_conv)

lemma bytes_fields_Cons:
  "types_bytes ((st, ds) # fs) = varint_bytes (ucast st) @ types_bytes fs"
  "data_bytes ((st, ds) # fs) = ds @ data_bytes fs"
  by (simp_all add: types_bytes_def data_bytes_def)

lemma unpack_loop_fields:
  assumes "nKey < 2 ^ 31" and "nfield \<le> length cells"
  shows "list_all field_ok fs \<Longrightarrow> bytes_at m (p + unat idx) (types_bytes fs) \<Longrightarrow>
    unat idx + length (types_bytes fs) = unat szHdr \<Longrightarrow> 0 \<le> d \<Longrightarrow>
    bytes_at m (p + nat d) (data_bytes fs) \<Longrightarrow> d + int (length (data_bytes fs)) \<le> nKey \<Longrightarrow>
    u < nfield \<Longrightarrow>
    \<exists>cs. unpack_loop enc nKey m p szHdr nfield cells idx d u = Some (cs, u + min (length fs) (nfield - u))
      \<and> length cs = length cells \<and> (\<forall>k < u. cs ! k = cells ! k)
      \<and> map cell_value (take (min (length fs) (nfield - u)) (drop u cs))
        = map field_value (take (nfield - u) fs)"
  using assms(2)
proof (induction fs arbitrary: idx d u cells)
  case Nil
  then have "\<not> idx < szHdr" by (simp add: types_bytes_def word_less_nat_alt)
  then show ?case by (subst unpack_loop.simps) simp
next
  case (Cons f fs)
  obtain st ds where f: "f = (st, ds)" by force
  let ?t = "varint_bytes (ucast st)"
  note P = Cons.prems [unfolded f bytes_fields_Cons]
  have "unat idx < unat szHdr" using P(3) varint_nonempty [of "ucast st"]
    by (simp del: length_greater_0_conv)
  then have h: "idx < szHdr" by (simp add: word_less_nat_alt)
  have g: "getVarint32 m (p + unat idx) = (length ?t, st)" using P(2) by (simp add: get_varint32_at)
  let ?c = "(cells ! u)\<lparr>mem_enc := enc, mem_z := []\<rparr>"
  obtain c' len where s: "sqlite3VdbeSerialGet m (p + nat d) st ?c = (c', len)" by force
  have fo: "field_ok (st, ds)" and ba: "bytes_at m (p + nat d) ds" using P(1,5) by simp_all
  have c': "cell_value c' = field_value (st, ds)" "unat len = length ds"
    using serial_get [OF fo ba, of ?c] s by simp_all
  have len: "uint len = int (length ds)" using c'(2) by (metis of_nat_unat)
  have step: "unpack_loop enc nKey m p szHdr nfield cells idx d u =
     (if u + 1 \<ge> nfield then Some (cells[u := c'], u + 1)
      else unpack_loop enc nKey m p szHdr nfield (cells[u := c']) (idx + of_nat (length ?t))
             (c_int32 (d + uint len)) (u + 1))"
    using h P(4,6,7,8) g s by (subst unpack_loop.simps) (simp add: Let_def)
  show ?case
  proof (cases "u + 1 \<ge> nfield")
    case True
    then have "nfield - u = 1" using P(7) by simp
    then show ?thesis using step True P(7,8) c'(1)
      by (simp add: f min_def take_Suc_conv_app_nth hd_drop_conv_nth [symmetric] drop_update_cancel take_Suc)
        (simp add: hd_drop_conv_nth)
  next
    case False
    have i: "unat (idx + of_nat (length ?t)) = unat idx + length ?t"
    proof -
      have "length ?t \<le> 9" by (rule varint_bytes_length_le)
      then have "unat (of_nat (length ?t) :: u32) = length ?t" by (intro unat_small) simp
      moreover have "unat idx + length ?t < 2 ^ 32"
        using P(3) unsigned_less [where 'a = nat, of szHdr] by simp
      ultimately show ?thesis by (subst unat_add) simp_all
    qed
    have d: "c_int32 (d + uint len) = d + int (length ds)"
      using P(4,6) assms(1) len by (intro trans [OF c_int32_id]) (simp_all add: in_int32_def)
    have nd: "p + nat (d + int (length ds)) = p + nat d + length ds" using P(4) by (simp add: nat_add_distrib)
    let ?r = "unpack_loop enc nKey m p szHdr nfield (cells[u := c']) (idx + of_nat (length ?t)) (d + int (length ds)) (u + 1)"
    have "\<exists>cs. ?r = Some (cs, u + 1 + min (length fs) (nfield - (u + 1)))
      \<and> length cs = length (cells[u := c']) \<and> (\<forall>k < u + 1. cs ! k = cells[u := c'] ! k)
      \<and> map cell_value (take (min (length fs) (nfield - (u + 1))) (drop (u + 1) cs))
        = map field_value (take (nfield - (u + 1)) fs)"
      by (rule Cons.IH) (use P False i nd in \<open>simp_all add: add.assoc\<close>)
    then obtain cs where cs: "?r = Some (cs, u + 1 + min (length fs) (nfield - (u + 1)))"
      "length cs = length cells" "\<forall>k < u + 1. cs ! k = cells[u := c'] ! k"
      "map cell_value (take (min (length fs) (nfield - (u + 1))) (drop (u + 1) cs))
        = map field_value (take (nfield - (u + 1)) fs)" by auto
    have u: "u < length cs" using P(7,8) cs(2) by simp
    have k: "nfield - u = Suc (nfield - (u + 1))" using False by simp
    have "drop u cs = c' # drop (u + 1) cs"
      using u cs(3) P(7,8) by (simp add: Cons_nth_drop_Suc [symmetric])
    then have "map cell_value (take (min (length (f # fs)) (nfield - u)) (drop u cs))
        = map field_value (take (nfield - u) (f # fs))"
      unfolding k using cs(4) c'(1) f by simp
    moreover have "unpack_loop enc nKey m p szHdr nfield cells idx d u
        = Some (cs, u + min (length (f # fs)) (nfield - u))"
      using step False cs(1) d k by simp
    ultimately show ?thesis using cs(2,3) by auto
  qed
qed

text \<open>The bytes of a record cell, its tail of zero bytes included.\<close>

definition record_content :: "Cell \<Rightarrow> byte list" where
  "record_content c = take (mem_n c) (mem_z c) @ zero_tail c"

lemma ucast_of_nat: "x < 2 ^ 32 \<Longrightarrow> (ucast (of_nat x :: u32) :: u64) = of_nat x"
  by (simp add: word_unat_eq_iff u32_wide unsigned_of_nat take_bit_nat_eq_self)

lemma made_record:
  assumes sl: "size_loop ff ok 0 cells = Some (cs, nData, nHdr, nZero)"
    and "list_all cell_ok cells" and "length cells \<le> 32767"
  defines "fs \<equiv> map (ser_field ff) cells"
  shows "header_with_size nHdr + nData + nZero = length (record_bytes fs)"
    and "length cs = length cells"
    and "make_record ff limit sz ok m p cells pOut = Made m' out \<Longrightarrow> record_content out = record_bytes fs
      \<and> mem_n out = length (mem_z out) \<and> (\<forall>q. q < p \<or> p + mem_n out \<le> q \<longrightarrow> m' q = m q)"
proof -
  have fs: "sized cells fs (cs, nData, nHdr, nZero)"
    unfolding fs_def by (rule size_loop_sized [OF assms(2) sl])
  let ?h = "header_with_size nHdr"
  let ?H = "varint_bytes (of_nat (header_size nHdr))"
  have S: "nHdr = length (types_bytes fs)" "nData = length (cell_data cs)" "list_all fits cs"
    "data_bytes fs = cell_data cs @ replicate nZero 0" "map fst fs = map uTemp cs"
    "list_all field_ok fs" "map field_value fs = map cell_value cells"
    using fs by (simp_all add: sized_def)
  have lf: "length fs = length cells" using sized_length [OF fs] by simp
  have "nHdr < 2 ^ 27" using types_length [of fs] S(1) lf assms(3) by simp
  note hs = header_size_eq [OF this]
  have types: "types_bytes fs = cell_types cs"
  proof -
    have "map (\<lambda>f. varint_bytes (ucast (fst f))) fs = map (\<lambda>c. varint_bytes (ucast (uTemp c))) cs"
      using arg_cong [OF S(5), of "map (\<lambda>t. varint_bytes (ucast t))"] by (simp add: o_def)
    then show ?thesis by (simp add: types_bytes_def cell_types_def case_prod_unfold)
  qed
  have hw: "(ucast (of_nat (header_size nHdr) :: u32) :: u64) = of_nat (header_size nHdr)"
    using hs(3) by (intro ucast_of_nat) simp
  show "header_with_size nHdr + nData + nZero = length (record_bytes fs)"
    using hs(1,2) S(1,2,4) by (simp add: record_bytes_def)
  show "length cs = length cells" using sized_length [OF fs] by simp
  let ?m1 = "put_bytes m p ?H"
  let ?m2 = "write_loop ?m1 p (length ?H) (header_size nHdr) cs"
  assume made: "make_record ff limit sz ok m p cells pOut = Made m' out"
  have m': "m' = ?m2"
    and out: "mem_z out = mem_bytes m' p (header_size nHdr + nData)" "mem_n out = header_size nHdr + nData"
      "mem_flags out = (if nZero \<noteq> 0 then MEM_Blob OR MEM_Zero else MEM_Blob)"
      "nZero \<noteq> 0 \<Longrightarrow> mem_nZero out = nZero"
    using made sl by (auto simp: make_record_def Let_def hs(1) put_varint32_bytes hw split: if_splits)
  have le: "length ?H + length (cell_types cs) \<le> header_size nHdr" using hs(2) S(1) types by simp
  note w = write_loop_bytes [OF S(3) le, where m = ?m1 and p = p]
  have H: "bytes_at ?m2 p ?H" by (rule bytes_at_cong [OF bytes_at_put]) (rule w(3), simp)
  have "bytes_at ?m2 p (?H @ cell_types cs @ cell_data cs)"
    using H w(1,2) hs(2) S(1) types by (simp add: add.assoc)
  moreover have "length (?H @ cell_types cs @ cell_data cs) = header_size nHdr + nData"
    using hs(2) S(1,2) types by simp
  ultimately have "mem_bytes m' p (header_size nHdr + nData) = ?H @ cell_types cs @ cell_data cs"
    unfolding bytes_at_def m' by simp
  then have z: "mem_z out = ?H @ cell_types cs @ cell_data cs" using out(1) by simp
  have tail: "zero_tail out = replicate nZero 0"
    using out(3,4) by (auto simp: zero_tail_def has_flag_def mem_flag_defs)
  have content: "record_content out = record_bytes fs"
    using z out(2) tail types S(1,2,4) hs(2) by (simp add: record_content_def record_bytes_def)
  have frame: "m' q = m q" if "q < p \<or> p + mem_n out \<le> q" for q
  proof -
    have "?m2 q = ?m1 q" by (rule w(3)) (use that out(2) S(2) in auto)
    also have "\<dots> = m q" by (rule put_bytes_frame) (use that out(2) le in auto)
    finally show ?thesis by (simp add: m')
  qed
  have "mem_n out = length (mem_z out)" using out(1,2) by simp
  with content frame show "record_content out = record_bytes fs
      \<and> mem_n out = length (mem_z out) \<and> (\<forall>q. q < p \<or> p + mem_n out \<le> q \<longrightarrow> m' q = m q)" by blast
qed

lemma sizes_known: "(\<And>i. ok i) \<Longrightarrow> \<exists>r. size_loop ff ok i cells = Some r"
proof (induction ff ok i cells rule: size_loop.induct)
  case (2 ff ok i c rest)
  then obtain cs nData nHdr nZero where "size_loop ff ok (i + 1) rest = Some (cs, nData, nHdr, nZero)"
    by (metis prod_cases4)
  then show ?case using "2.prems" [of i]
    by (auto simp: sqlite3VdbeMemExpandBlob_def split: prod.split if_splits)
qed simp

text \<open>The three outcomes.\<close>

lemma make_record_outcome:
  assumes "list_all cell_ok cells" and "length cells \<le> 32767"
  shows "case make_record ff limit sz ok m p cells pOut of
      Too_big \<Rightarrow> max limit sz < length (record_bytes (map (ser_field ff) cells))
    | No_mem \<Rightarrow> \<exists>i. \<not> ok i
    | Made m' out \<Rightarrow> length (record_bytes (map (ser_field ff) cells)) \<le> max limit sz
        \<and> record_content out = record_bytes (map (ser_field ff) cells)
        \<and> mem_n out = length (mem_z out) \<and> (\<forall>q. q < p \<or> p + mem_n out \<le> q \<longrightarrow> m' q = m q)"
proof (cases "size_loop ff ok 0 cells")
  case None
  then have "\<exists>i. \<not> ok i" using sizes_known [of ok ff 0 cells] by auto
  with None show ?thesis by (simp add: make_record_def)
next
  case (Some r)
  obtain cs nData nHdr nZero where r: "r = (cs, nData, nHdr, nZero)" by (metis prod_cases4)
  note made = made_record [OF Some [unfolded r] assms]
  show ?thesis
  proof (cases "make_record ff limit sz ok m p cells pOut")
    case Too_big
    then show ?thesis using made(1) Some r
      by (auto simp: make_record_def Let_def split: if_splits prod.splits)
  next
    case No_mem
    then show ?thesis using Some r by (auto simp: make_record_def Let_def split: if_splits prod.splits)
  next
    case (Made m' out)
    then have "length (record_bytes (map (ser_field ff) cells)) \<le> max limit sz"
      using made(1) Some r by (auto simp: make_record_def Let_def split: if_splits prod.splits)
    with Made made(3) show ?thesis by simp
  qed
qed

lemma ser_fields:
  assumes "list_all cell_ok cells"
  shows "list_all field_ok (map (ser_field ff) cells)"
    and "map field_value (map (ser_field ff) cells) = map cell_value cells"
proof -
  have "field_ok (ser_field ff c) \<and> field_value (ser_field ff c) = cell_value c" if "cell_ok c" for c
    using serial_field [OF that] by (simp add: ser_field_def split: prod.split)
  with assms show "list_all field_ok (map (ser_field ff) cells)"
    "map field_value (map (ser_field ff) cells) = map cell_value cells"
    by (auto simp: list_all_iff)
qed

text \<open>The header of a stored record, and where its parts are.\<close>

lemma record_header:
  assumes "length fs \<le> 32767" and "bytes_at m p (record_bytes fs)"
  defines "t \<equiv> length (types_bytes fs)"
  defines "hs \<equiv> of_nat (header_size t) :: u32" and "h \<equiv> length (varint_bytes (of_nat (header_size t)))"
  shows "getVarint32 m p = (h, hs)" and "unat hs = header_size t" and "unat hs = h + t"
    and "unat (of_nat h :: u32) = h" and "unat hs < 2 ^ 28"
    and "bytes_at m p (varint_bytes (ucast hs))"
    and "bytes_at m (p + h) (types_bytes fs)" and "bytes_at m (p + unat hs) (data_bytes fs)"
    and "length (record_bytes fs) = unat hs + length (data_bytes fs)"
proof -
  let ?H = "varint_bytes (of_nat (header_size t))"
  have "t < 2 ^ 27" using types_length [of fs] assms(1) by (simp add: t_def)
  note H = header_size_eq [OF this]
  have hw: "(ucast hs :: u64) = of_nat (header_size t)"
    unfolding hs_def using H(3) by (intro ucast_of_nat) simp
  show u: "unat hs = header_size t" unfolding hs_def using H(3) by (intro unat_small) simp
  then show "unat hs = h + t" "unat hs < 2 ^ 28" using H(2,3) by (simp_all add: h_def)
  have "h \<le> 9" unfolding h_def by (rule varint_bytes_length_le)
  then show "unat (of_nat h :: u32) = h" by (intro unat_small) simp
  have r: "bytes_at m p ?H" "bytes_at m (p + h) (types_bytes fs)" "bytes_at m (p + header_size t) (data_bytes fs)"
    using assms(2) H(2) by (simp_all add: record_bytes_def add.assoc t_def h_def)
  then show "bytes_at m (p + h) (types_bytes fs)" "bytes_at m (p + unat hs) (data_bytes fs)"
    by (simp_all add: u)
  show g: "bytes_at m p (varint_bytes (ucast hs))" using r(1) by (simp add: hw)
  show "getVarint32 m p = (h, hs)" using get_varint32_at [OF g] by (simp add: hw h_def)
  show "length (record_bytes fs) = unat hs + length (data_bytes fs)"
    using H(2) by (simp add: record_bytes_def t_def u)
qed

lemma unpack_record:
  assumes "list_all field_ok fs" and "length fs \<le> 32767" and "bytes_at m p (record_bytes fs)"
    and "length (record_bytes fs) < 2 ^ 31" and "nField u \<le> length (aMem u)" and "0 < nField u"
  obtains u' where "sqlite3VdbeRecordUnpack ki (int (length (record_bytes fs))) m p u = Some u'"
    and "nField u' = min (length fs) (nField u)" and "default_rc u' = 0"
    and "map cell_value (take (nField u') (aMem u')) = map field_value (take (nField u) fs)"
    and "length (aMem u') = length (aMem u)"
proof -
  let ?n = "int (length (record_bytes fs))"
  obtain hs :: u32 and h where H: "getVarint32 m p = (h, hs)" "unat hs = h + length (types_bytes fs)"
    "unat (of_nat h :: u32) = h" "unat hs < 2 ^ 28" "bytes_at m (p + h) (types_bytes fs)"
    "bytes_at m (p + unat hs) (data_bytes fs)" "length (record_bytes fs) = unat hs + length (data_bytes fs)"
    using record_header [OF assms(2,3)] by blast
  have d: "uint hs = int (unat hs)" by simp
  have c: "c_int32 (int (unat hs)) = int (unat hs)"
    using H(4) by (intro c_int32_id) (simp add: in_int32_def del: of_nat_unat)
  have n: "?n < 2 ^ 31" using assms(4) by simp
  have L: "bytes_at m (p + unat (of_nat h :: u32)) (types_bytes fs)"
    "unat (of_nat h :: u32) + length (types_bytes fs) = unat hs" "0 \<le> int (unat hs)"
    "bytes_at m (p + nat (int (unat hs))) (data_bytes fs)"
    "int (unat hs) + int (length (data_bytes fs)) \<le> ?n"
    using H(3,5-7) by (simp_all only: nat_int of_nat_add of_nat_0_le_iff order_refl) (simp_all only: H(2))
  obtain cs where cs: "unpack_loop (key_enc ki) ?n m p hs (nField u) (aMem u) (of_nat h) (int (unat hs)) 0
        = Some (cs, min (length fs) (nField u))"
      "length cs = length (aMem u)"
      "map cell_value (take (min (length fs) (nField u)) cs) = map field_value (take (nField u) fs)"
    using unpack_loop_fields [OF n assms(5,1) L assms(6)] by auto
  show thesis
    by (rule that [of "u\<lparr>default_rc := 0, aMem := cs, nField := min (length fs) (nField u)\<rparr>"])
      (use H(1) c cs in \<open>simp_all add: sqlite3VdbeRecordUnpack_def d del: of_nat_unat\<close>)
qed

subsection \<open>Properties\<close>

text \<open>
  C27. \<open>OP_MakeRecord\<close> builds the record of the values in its registers, in the format of the
  file: header size, serial types and data, the zero bytes at the end of the last blobs only
  counted. It refuses exactly the records that are longer than the limit (and do not fit the
  buffer it has), fails otherwise only when the allocator does, and writes nowhere else.
\<close>

theorem make_record_outcomes:
  assumes "list_all cell_ok cells" and "length cells \<le> 32767"
  shows "\<exists>fs. list_all field_ok fs \<and> map field_value fs = map cell_value cells \<and>
    (case make_record file_format limit szMalloc ok m p cells pOut of
       Too_big \<Rightarrow> max limit szMalloc < length (record_bytes fs)
     | No_mem \<Rightarrow> \<exists>i. \<not> ok i
     | Made m' out \<Rightarrow> length (record_bytes fs) \<le> max limit szMalloc
         \<and> record_content out = record_bytes fs \<and> mem_n out = length (mem_z out)
         \<and> (\<forall>q. q < p \<or> p + mem_n out \<le> q \<longrightarrow> m' q = m q))"
  using ser_fields [OF assms(1)] make_record_outcome [OF assms] by blast

text \<open>Three registers: the integer 300, the text \<open>ab\<close> and a blob of five zero bytes.\<close>

definition sample_cells :: "Cell list" where
  "sample_cells =
    [\<lparr>mem_z = [], mem_n = 0, mem_enc = 1, mem_flags = 4, mem_i = 300, mem_r = 0, mem_nZero = 0, uTemp = 0\<rparr>,
     \<lparr>mem_z = [97, 98], mem_n = 2, mem_enc = 1, mem_flags = 2, mem_i = 0, mem_r = 0, mem_nZero = 0, uTemp = 0\<rparr>,
     \<lparr>mem_z = [], mem_n = 0, mem_enc = 1, mem_flags = 0x4010, mem_i = 0, mem_r = 0, mem_nZero = 5, uTemp = 0\<rparr>]"

lemma sample_ok: "list_all cell_ok sample_cells"
  by (simp add: sample_cells_def cell_ok_def has_flag_def mem_flag_defs in_int64_def)

lemma sample_length: "length sample_cells \<le> 32767"
  by (simp add: sample_cells_def)

theorem make_record_outcomes_witness:
  "\<exists>fs. list_all field_ok fs \<and> map field_value fs = map cell_value sample_cells \<and>
    (case make_record 4 20 0 (\<lambda>i. True) (\<lambda>q. 0) 100 sample_cells (hd sample_cells) of
       Too_big \<Rightarrow> max 20 0 < length (record_bytes fs)
     | No_mem \<Rightarrow> \<exists>i :: nat. \<not> True
     | Made m' out \<Rightarrow> length (record_bytes fs) \<le> max 20 0
         \<and> record_content out = record_bytes fs \<and> mem_n out = length (mem_z out)
         \<and> (\<forall>q. q < 100 \<or> 100 + mem_n out \<le> q \<longrightarrow> m' q = 0))"
  using make_record_outcomes [OF sample_ok sample_length, where file_format = 4 and limit = 20
      and szMalloc = 0 and ok = "\<lambda>i. True" and m = "\<lambda>q. 0" and p = 100 and pOut = "hd sample_cells"]
  by simp

text \<open>
  C28. Round trip: the bytes of a record made of the values in some registers, wherever they
  are stored, are unpacked to cells with the same values, every integer at its width, every
  real, text and blob, the counted zero bytes included.
\<close>

theorem record_round_trip:
  assumes "list_all cell_ok cells" and "length cells \<le> 32767"
    and "make_record file_format limit szMalloc ok m p cells pOut = Made m' out"
    and "max limit szMalloc < 2 ^ 31"
    and "bytes_at m2 q (record_content out)"
    and "nField u \<le> length (aMem u)" and "length cells \<le> nField u" and "0 < nField u"
  shows "\<exists>u'. sqlite3VdbeRecordUnpack ki (int (length (record_content out))) m2 q u = Some u'
    \<and> nField u' = length cells
    \<and> map cell_value (take (length cells) (aMem u')) = map cell_value cells"
proof -
  let ?fs = "map (ser_field file_format) cells"
  have out: "record_content out = record_bytes ?fs" "length (record_bytes ?fs) \<le> max limit szMalloc"
    using make_record_outcome [OF assms(1,2), where ff = file_format and limit = limit
        and sz = szMalloc and ok = ok and m = m and p = p and pOut = pOut] assms(3)
    by simp_all
  have pre: "length ?fs \<le> 32767" "bytes_at m2 q (record_bytes ?fs)" "length (record_bytes ?fs) < 2 ^ 31"
    using assms(2,5) out le_less_trans [OF out(2) assms(4)] by simp_all
  obtain u' where u': "sqlite3VdbeRecordUnpack ki (int (length (record_bytes ?fs))) m2 q u = Some u'"
    "nField u' = min (length ?fs) (nField u)" "default_rc u' = 0"
    "map cell_value (take (nField u') (aMem u')) = map field_value (take (nField u) ?fs)"
    "length (aMem u') = length (aMem u)"
    by (rule unpack_record [OF ser_fields(1) [OF assms(1)] pre assms(6,8)])
  then show ?thesis using ser_fields(2) [OF assms(1), of file_format] assms(7) out
    by (simp add: take_map)
qed

definition sample_key :: KeyInfo where
  "sample_key = \<lparr>key_enc = 1, nKeyField = 3, nAllField = 3, aSortOrder = [False, False, False],
     aColl = [None, None, None]\<rparr>"

definition sample_unpacked :: UnpackedRecord where
  "sample_unpacked = \<lparr>pKeyInfo = sample_key, aMem = sample_cells, nField = 3, default_rc = 0,
     errCode = 0, r1 = 0, r2 = 0, eqSeen = False\<rparr>"

theorem record_round_trip_witness:
  "\<exists>m' out u'. make_record 4 100 0 (\<lambda>i. True) (\<lambda>q. 0) 7 sample_cells (hd sample_cells) = Made m' out
    \<and> sqlite3VdbeRecordUnpack sample_key (int (length (record_content out)))
        (put_bytes (\<lambda>q. 0) 50 (record_content out)) 50 sample_unpacked = Some u'
    \<and> map cell_value (take (length sample_cells) (aMem u')) = [VInt 300, VText [97, 98], VBlob [0, 0, 0, 0, 0]]"
proof -
  have small: "length (record_bytes (map (ser_field 4) sample_cells)) \<le> 100" by code_simp
  obtain m' out where made: "make_record 4 100 0 (\<lambda>i. True) (\<lambda>q. 0) 7 sample_cells (hd sample_cells) = Made m' out"
    using make_record_outcome [OF sample_ok sample_length, where ff = 4 and limit = 100 and sz = 0
        and ok = "\<lambda>i. True" and m = "\<lambda>q. 0" and p = 7 and pOut = "hd sample_cells"] small
    by (cases "make_record 4 100 0 (\<lambda>i. True) (\<lambda>q. 0) 7 sample_cells (hd sample_cells)") simp_all
  have vals: "map cell_value sample_cells = [VInt 300, VText [97, 98], VBlob [0, 0, 0, 0, 0]]"
    by code_simp
  have u: "nField sample_unpacked \<le> length (aMem sample_unpacked)"
    "length sample_cells \<le> nField sample_unpacked" "0 < nField sample_unpacked" "max 100 0 < (2 :: nat) ^ 31"
    by (simp_all add: sample_unpacked_def sample_cells_def)
  from record_round_trip [OF sample_ok sample_length made u(4) bytes_at_put u(1-3),
      where ki = sample_key and m1 = "\<lambda>q. 0" and q = 50] made vals
  show ?thesis by metis
qed

text \<open>
  A header size of \<open>2 ^ 31\<close> or more is negative as the \<open>int\<close> \<open>d\<close>, passes the test \<open>d <= nKey\<close>
  and makes the loop read in front of the record.
\<close>

lemma unpack_negative_offset:
  "sqlite3VdbeRecordUnpack sample_key 10 (put_bytes (\<lambda>q. 0) 50 [0x88, 0x80, 0x80, 0x80, 0x00, 0x01]) 50
     sample_unpacked = None"
  by code_simp

end
