(* ===== verification/RecordCompare.thy ===== *)
theory RecordCompare
  imports RecordFormat Ctype "HOL-Library.Log_Nat"
begin

section \<open>Comparing records\<close>

text \<open>
  The order of SQL values and of index keys: \<open>sqlite3MemCompare\<close> compares two cells, and
  \<open>sqlite3VdbeRecordCompare\<close> of \<open>vdbeaux.c\<close> compares a stored record with an unpacked key
  field by field, without unpacking the record. For keys that begin with an integer or a
  text, \<open>sqlite3VdbeFindCompare\<close> chooses a specialised routine. The built-in collating
  functions are those of \<open>main.c\<close>; others are parameters, as \<open>xCmp\<close> is in the code.

  The reference is the order of the values (\<open>sval_cmp\<close>) and its lexicographic extension to
  records (\<open>record_cmp\<close>). All three routines are shown to implement it. The sign of a
  result is what its callers use; \<open>memcmp\<close> returns the difference of the first two bytes
  that differ.
\<close>

subsection \<open>Numbers\<close>

text \<open>
  A finite double is an integer multiple of \<open>2 ^ -1074\<close>; \<open>scaled\<close> is that integer, and an
  infinity is beyond all of them.
\<close>

definition scaled :: "u64 \<Rightarrow> int" where
  "scaled r =
     (let e = unat (drop_bit 52 r AND 0x7ff); f = int (unat (r AND 0xfffffffffffff));
          x = (if e = 0 then f else (2 ^ 52 + f) * 2 ^ (e - 1))
      in if bit r 63 then - x else x)"

definition unit_double :: int where "unit_double = 2 ^ 1074"

definition scaled_int :: "int \<Rightarrow> int" where
  "scaled_int i = i * unit_double"

definition double_less :: "u64 \<Rightarrow> u64 \<Rightarrow> bool" where
  "double_less x y \<longleftrightarrow> \<not> sqlite3IsNaN x \<and> \<not> sqlite3IsNaN y \<and> scaled x < scaled y"

text \<open>Conversion of a double to an integer truncates; \<open>(double)i\<close> rounds to the nearest, ties to even.\<close>

definition trunc_scaled :: "int \<Rightarrow> int" where
  "trunc_scaled x = (if 0 \<le> x then x div unit_double else - ((- x) div unit_double))"

definition round_53 :: "int \<Rightarrow> int" where
  "round_53 i =
     (let k = floorlog 2 (nat \<bar>i\<bar>) - 53; q = \<bar>i\<bar> div 2 ^ k; rest = \<bar>i\<bar> mod 2 ^ k;
          q = (if 2 * rest > 2 ^ k \<or> (2 * rest = 2 ^ k \<and> k > 0 \<and> odd q) then q + 1 else q)
      in sgn i * q * 2 ^ k)"

text \<open>
  \<open>quad\<close> is whether \<open>long double\<close> has more than 8 bytes, as on the 64-bit targets, where it
  holds every 64-bit integer.
\<close>

definition sqlite3IntFloatCompare :: "bool \<Rightarrow> int \<Rightarrow> u64 \<Rightarrow> int" where
  "sqlite3IntFloatCompare quad i r =
     (if sqlite3IsNaN r then 0
      else if quad then
        (if scaled_int i < scaled r then - 1 else if scaled_int i > scaled r then 1 else 0)
      else
        (if scaled r < scaled_int (- (2 ^ 63)) then 1
         else if scaled r \<ge> scaled_int (2 ^ 63) then - 1
         else let y = trunc_scaled (scaled r) in
           if i < y then - 1 else if i > y then 1
           else let s = scaled_int (round_53 i) in
             if s < scaled r then - 1 else if s > scaled r then 1 else 0))"

subsection \<open>Bytes and texts\<close>

fun memcmp :: "byte list \<Rightarrow> byte list \<Rightarrow> int" where
  "memcmp (x # xs) (y # ys) = (if x = y then memcmp xs ys else int (unat x) - int (unat y))"
| "memcmp xs ys = 0"

definition isAllZero :: "byte list \<Rightarrow> bool" where
  "isAllZero z = list_all (\<lambda>b. b = 0) z"

definition cell_bytes :: "Cell \<Rightarrow> byte list" where
  "cell_bytes c = take (mem_n c) (mem_z c)"

definition sqlite3BlobCompare :: "Cell \<Rightarrow> Cell \<Rightarrow> int" where
  "sqlite3BlobCompare pB1 pB2 =
     (let n1 = int (mem_n pB1); n2 = int (mem_n pB2) in
      if has_flag pB1 MEM_Zero \<or> has_flag pB2 MEM_Zero then
        (if has_flag pB1 MEM_Zero \<and> has_flag pB2 MEM_Zero
         then int (mem_nZero pB1) - int (mem_nZero pB2)
         else if has_flag pB1 MEM_Zero then
           (if \<not> isAllZero (cell_bytes pB2) then - 1 else int (mem_nZero pB1) - n2)
         else
           (if \<not> isAllZero (cell_bytes pB1) then 1 else n1 - int (mem_nZero pB2)))
      else
        (let c = memcmp (cell_bytes pB1) (cell_bytes pB2) in if c \<noteq> 0 then c else n1 - n2))"

text \<open>The text of a cell in another encoding; \<open>ok\<close> is what the allocator answers.\<close>

definition text_in :: "bool \<Rightarrow> nat \<Rightarrow> nat \<Rightarrow> byte list \<Rightarrow> byte list option" where
  "text_in ok enc desired z =
     (if enc = desired then Some z
      else case sqlite3VdbeMemTranslate ok desired
             \<lparr>mem_z = z, mem_n = length z, mem_enc = enc, mem_flags = MEM_Str\<rparr> of
        Some (rc, c) \<Rightarrow> if rc = SQLITE_OK then Some (take (mem_n c) (mem_z c)) else None
      | None \<Rightarrow> None)"

text \<open>The result and whether memory ran out.\<close>

definition vdbeCompareMemString :: "(nat \<Rightarrow> bool) \<Rightarrow> nat \<Rightarrow> byte list \<Rightarrow> nat \<Rightarrow> byte list \<Rightarrow> CollSeq
    \<Rightarrow> int \<times> bool" where
  "vdbeCompareMemString ok enc1 z1 enc2 z2 pColl =
     (if enc1 = coll_enc pColl then (xCmp pColl z1 z2, False)
      else case (text_in (ok 0) enc1 (coll_enc pColl) z1, text_in (ok 1) enc2 (coll_enc pColl) z2) of
        (Some v1, Some v2) \<Rightarrow> (xCmp pColl v1 v2, False)
      | _ \<Rightarrow> (0, True))"

subsection \<open>Cells\<close>

definition sqlite3MemCompare :: "bool \<Rightarrow> (nat \<Rightarrow> bool) \<Rightarrow> Cell \<Rightarrow> Cell \<Rightarrow> CollSeq option \<Rightarrow> int" where
  "sqlite3MemCompare quad ok pMem1 pMem2 pColl =
     (let f1 = has_flag pMem1; f2 = has_flag pMem2 in
      if f1 MEM_Null \<or> f2 MEM_Null
      then (if f2 MEM_Null then 1 else 0) - (if f1 MEM_Null then 1 else 0)
      else if f1 MEM_Int \<or> f1 MEM_Real \<or> f2 MEM_Int \<or> f2 MEM_Real then
        (if f1 MEM_Int \<and> f2 MEM_Int then
           (if mem_i pMem1 < mem_i pMem2 then - 1 else if mem_i pMem1 > mem_i pMem2 then 1 else 0)
         else if f1 MEM_Real \<and> f2 MEM_Real then
           (if double_less (mem_r pMem1) (mem_r pMem2) then - 1
            else if double_less (mem_r pMem2) (mem_r pMem1) then 1 else 0)
         else if f1 MEM_Int then
           (if f2 MEM_Real then sqlite3IntFloatCompare quad (mem_i pMem1) (mem_r pMem2) else - 1)
         else if f1 MEM_Real then
           (if f2 MEM_Int then - sqlite3IntFloatCompare quad (mem_i pMem2) (mem_r pMem1) else - 1)
         else 1)
      else if (f1 MEM_Str \<or> f2 MEM_Str) \<and> \<not> f1 MEM_Str then 1
      else if (f1 MEM_Str \<or> f2 MEM_Str) \<and> \<not> f2 MEM_Str then - 1
      else if (f1 MEM_Str \<or> f2 MEM_Str) \<and> pColl \<noteq> None then
        fst (vdbeCompareMemString ok (mem_enc pMem1) (cell_bytes pMem1) (mem_enc pMem2)
          (cell_bytes pMem2) (the pColl))
      else sqlite3BlobCompare pMem1 pMem2)"

subsection \<open>A record against a key\<close>

definition vdbeRecordDecodeInt :: "u32 \<Rightarrow> mem \<Rightarrow> ptr \<Rightarrow> int" where
  "vdbeRecordDecodeInt serial_type aKey p =
     (if serial_type = 0 \<or> serial_type = 1 then ONE_BYTE_INT aKey p
      else if serial_type = 2 then TWO_BYTE_INT aKey p
      else if serial_type = 3 then THREE_BYTE_INT aKey p
      else if serial_type = 4 then sint (FOUR_BYTE_UINT aKey p)
      else if serial_type = 5
      then uint (FOUR_BYTE_UINT aKey (p + 2)) + push_bit 32 1 * TWO_BYTE_INT aKey p
      else if serial_type = 6
      then sint (push_bit 32 (ucast (FOUR_BYTE_UINT aKey p)) OR ucast (FOUR_BYTE_UINT aKey (p + 4)) :: u64)
      else uint (serial_type - 8))"

text \<open>
  One field: its result with the serial type as far as the branch has read it and whether
  memory ran out, or corruption. \<open>i\<close> is the number of the field.
\<close>

datatype field_result = Compared int u32 bool | Corrupt

definition compare_field :: "bool \<Rightarrow> (nat \<Rightarrow> bool) \<Rightarrow> mem \<Rightarrow> ptr \<Rightarrow> u32 \<Rightarrow> KeyInfo \<Rightarrow> nat \<Rightarrow> Cell
    \<Rightarrow> u32 \<Rightarrow> u32 \<Rightarrow> field_result" where
  "compare_field quad ok aKey1 p nKey1 ki i pRhs idx1 d1 =
     (let type_byte = ucast (aKey1 (p + unat idx1)) :: u32;
          data = p + unat d1;
          mem1 = (\<lambda>st. fst (sqlite3VdbeSerialGet aKey1 data st pRhs))
      in
      if has_flag pRhs MEM_Int then
        (let serial_type = type_byte in
         Compared
           (if serial_type \<ge> 10 then 1
            else if serial_type = 0 then - 1
            else if serial_type = 7
            then - sqlite3IntFloatCompare quad (mem_i pRhs) (mem_r (mem1 serial_type))
            else let lhs = vdbeRecordDecodeInt serial_type aKey1 data; rhs = mem_i pRhs in
              if lhs < rhs then - 1 else if lhs > rhs then 1 else 0) serial_type False)
      else if has_flag pRhs MEM_Real then
        (let serial_type = type_byte in
         Compared
           (if serial_type \<ge> 10 then 1
            else if serial_type = 0 then - 1
            else if serial_type = 7 then
              (if double_less (mem_r (mem1 serial_type)) (mem_r pRhs) then - 1
               else if double_less (mem_r pRhs) (mem_r (mem1 serial_type)) then 1 else 0)
            else sqlite3IntFloatCompare quad (mem_i (mem1 serial_type)) (mem_r pRhs)) serial_type False)
      else if has_flag pRhs MEM_Str then
        (let serial_type = snd (getVarint32 aKey1 (p + unat idx1)) in
         if serial_type < 12 then Compared (- 1) serial_type False
         else if serial_type AND 1 = 0 then Compared 1 serial_type False
         else
           (let k = (serial_type - 12) div 2 in
            if d1 + k > nKey1 then Corrupt
            else case aColl ki ! i of
              Some coll \<Rightarrow>
                (case vdbeCompareMemString ok (key_enc ki) (mem_bytes aKey1 data (unat k))
                        (mem_enc pRhs) (cell_bytes pRhs) coll of
                   (rc, err) \<Rightarrow> Compared rc serial_type err)
            | None \<Rightarrow>
                (let rc = memcmp (mem_bytes aKey1 data (unat k)) (cell_bytes pRhs) in
                 Compared (if rc = 0 then int (unat k) - int (mem_n pRhs) else rc) serial_type False)))
      else if has_flag pRhs MEM_Blob then
        (let serial_type = snd (getVarint32 aKey1 (p + unat idx1)) in
         if serial_type < 12 \<or> serial_type AND 1 \<noteq> 0 then Compared (- 1) serial_type False
         else
           (let k = (serial_type - 12) div 2 in
            if d1 + k > nKey1 then Corrupt
            else if has_flag pRhs MEM_Zero then
              Compared (if \<not> isAllZero (mem_bytes aKey1 data (unat k)) then 1
                        else int (unat k) - int (mem_nZero pRhs)) serial_type False
            else
              (let rc = memcmp (mem_bytes aKey1 data (unat k)) (cell_bytes pRhs) in
               Compared (if rc = 0 then int (unat k) - int (mem_n pRhs) else rc) serial_type False)))
      else (let serial_type = type_byte in Compared (if serial_type \<noteq> 0 then 1 else 0) serial_type False))"

text \<open>
  \<open>None\<close> is an access outside the arrays of the key. The allocator is asked twice for each
  field.
\<close>

function compare_loop :: "bool \<Rightarrow> (nat \<Rightarrow> nat \<Rightarrow> bool) \<Rightarrow> mem \<Rightarrow> ptr \<Rightarrow> u32 \<Rightarrow> u32 \<Rightarrow> UnpackedRecord
    \<Rightarrow> nat \<Rightarrow> u32 \<Rightarrow> u32 \<Rightarrow> (int \<times> UnpackedRecord) option" where
  "compare_loop quad ok aKey1 p nKey1 szHdr1 key i idx1 d1 =
     (let ki = pKeyInfo key in
      if length (aMem key) \<le> i \<or> length (aSortOrder ki) \<le> i \<or> length (aColl ki) \<le> i then None
      else
        case compare_field quad (ok i) aKey1 p nKey1 ki i (aMem key ! i) idx1 d1 of
          Corrupt \<Rightarrow> Some (0, key\<lparr>errCode := SQLITE_CORRUPT\<rparr>)
        | Compared rc serial_type err \<Rightarrow>
            (let key = (if err then key\<lparr>errCode := SQLITE_NOMEM\<rparr> else key) in
             if rc \<noteq> 0 then Some (if aSortOrder ki ! i then - rc else rc, key)
             else if i + 1 = nField key then Some (default_rc key, key\<lparr>eqSeen := True\<rparr>)
             else
               (let d1 = d1 + sqlite3VdbeSerialTypeLen serial_type;
                    idx1 = idx1 + of_nat (sqlite3VarintLen (ucast serial_type))
                in if idx1 < szHdr1 \<and> d1 \<le> nKey1
                   then compare_loop quad ok aKey1 p nKey1 szHdr1 key (i + 1) idx1 d1
                   else Some (default_rc key, key\<lparr>eqSeen := True\<rparr>))))"
  by auto
termination
  by (relation "measure (\<lambda>(w, ok, m, p, n, h, key, i, x, d). length (aMem key) - i)")
    (auto split: if_splits)

declare compare_loop.simps [simp del]

definition sqlite3VdbeRecordCompareWithSkip :: "bool \<Rightarrow> (nat \<Rightarrow> nat \<Rightarrow> bool) \<Rightarrow> u32 \<Rightarrow> mem \<Rightarrow> ptr
    \<Rightarrow> UnpackedRecord \<Rightarrow> bool \<Rightarrow> (int \<times> UnpackedRecord) option" where
  "sqlite3VdbeRecordCompareWithSkip quad ok nKey1 aKey1 p pPKey2 bSkip =
     (if bSkip then
        (let (l, s1) = getVarint32 aKey1 (p + 1); idx1 = 1 + of_nat l;
             szHdr1 = ucast (aKey1 p); d1 = szHdr1 + sqlite3VdbeSerialTypeLen s1
         in compare_loop quad ok aKey1 p nKey1 szHdr1 pPKey2 1 idx1 d1)
      else
        (let (idx1, szHdr1) = getVarint32 aKey1 p; d1 = szHdr1 in
         if d1 > nKey1 then Some (0, pPKey2\<lparr>errCode := SQLITE_CORRUPT\<rparr>)
         else compare_loop quad ok aKey1 p nKey1 szHdr1 pPKey2 0 (of_nat idx1) d1))"

definition sqlite3VdbeRecordCompare :: "bool \<Rightarrow> (nat \<Rightarrow> nat \<Rightarrow> bool) \<Rightarrow> u32 \<Rightarrow> mem \<Rightarrow> ptr
    \<Rightarrow> UnpackedRecord \<Rightarrow> (int \<times> UnpackedRecord) option" where
  "sqlite3VdbeRecordCompare quad ok nKey1 pKey1 p pPKey2 =
     sqlite3VdbeRecordCompareWithSkip quad ok nKey1 pKey1 p pPKey2 False"

subsection \<open>The specialised routines\<close>

text \<open>The switch on the type of the first field: \<open>None\<close> leaves it to the general routine.\<close>

definition first_int :: "mem \<Rightarrow> ptr \<Rightarrow> byte \<Rightarrow> int option" where
  "first_int m aKey serial_type =
     (if serial_type = 1 then Some (ONE_BYTE_INT m aKey)
      else if serial_type = 2 then Some (TWO_BYTE_INT m aKey)
      else if serial_type = 3 then Some (THREE_BYTE_INT m aKey)
      else if serial_type = 4 then Some (sint (FOUR_BYTE_UINT m aKey))
      else if serial_type = 5
      then Some (uint (FOUR_BYTE_UINT m (aKey + 2)) + push_bit 32 1 * TWO_BYTE_INT m aKey)
      else if serial_type = 6
      then Some (sint (push_bit 32 (ucast (FOUR_BYTE_UINT m aKey)) OR ucast (FOUR_BYTE_UINT m (aKey + 4)) :: u64))
      else if serial_type = 8 then Some 0
      else if serial_type = 9 then Some 1
      else None)"

definition vdbeRecordCompareInt :: "bool \<Rightarrow> (nat \<Rightarrow> nat \<Rightarrow> bool) \<Rightarrow> u32 \<Rightarrow> mem \<Rightarrow> ptr
    \<Rightarrow> UnpackedRecord \<Rightarrow> (int \<times> UnpackedRecord) option" where
  "vdbeRecordCompareInt quad ok nKey1 pKey1 p pPKey2 =
     (let aKey = p + unat (pKey1 p AND 0x3F) in
      case first_int pKey1 aKey (pKey1 (p + 1)) of
        None \<Rightarrow> sqlite3VdbeRecordCompare quad ok nKey1 pKey1 p pPKey2
      | Some lhs \<Rightarrow>
          (let v = mem_i (aMem pPKey2 ! 0) in
           if v > lhs then Some (r1 pPKey2, pPKey2)
           else if v < lhs then Some (r2 pPKey2, pPKey2)
           else if nField pPKey2 > 1
           then sqlite3VdbeRecordCompareWithSkip quad ok nKey1 pKey1 p pPKey2 True
           else Some (default_rc pPKey2, pPKey2\<lparr>eqSeen := True\<rparr>)))"

definition vdbeRecordCompareString :: "bool \<Rightarrow> (nat \<Rightarrow> nat \<Rightarrow> bool) \<Rightarrow> u32 \<Rightarrow> mem \<Rightarrow> ptr
    \<Rightarrow> UnpackedRecord \<Rightarrow> (int \<times> UnpackedRecord) option" where
  "vdbeRecordCompareString quad ok nKey1 aKey1 p pPKey2 =
     (let serial_type = sint (snd (getVarint32 aKey1 (p + 1))) in
      if serial_type < 12 then Some (r1 pPKey2, pPKey2)
      else if even serial_type then Some (r2 pPKey2, pPKey2)
      else
        (let szHdr = uint (aKey1 p); nStr = (serial_type - 12) div 2; rhs = aMem pPKey2 ! 0 in
         if szHdr + nStr > sint nKey1 then Some (0, pPKey2\<lparr>errCode := SQLITE_CORRUPT\<rparr>)
         else
           (let res = memcmp (mem_bytes aKey1 (p + nat szHdr) (nat nStr)) (cell_bytes rhs) in
            if res = 0 then
              (let res = nStr - int (mem_n rhs) in
               if res = 0 then
                 (if nField pPKey2 > 1
                  then sqlite3VdbeRecordCompareWithSkip quad ok nKey1 aKey1 p pPKey2 True
                  else Some (default_rc pPKey2, pPKey2\<lparr>eqSeen := True\<rparr>))
               else if res > 0 then Some (r2 pPKey2, pPKey2)
               else Some (r1 pPKey2, pPKey2))
            else if res > 0 then Some (r2 pPKey2, pPKey2)
            else Some (r1 pPKey2, pPKey2))))"

datatype record_compare = CompareInt | CompareString | CompareRecord

definition sqlite3VdbeFindCompare :: "UnpackedRecord \<Rightarrow> record_compare \<times> UnpackedRecord" where
  "sqlite3VdbeFindCompare p =
     (if nAllField (pKeyInfo p) \<le> 13 then
        (let p' = (if aSortOrder (pKeyInfo p) ! 0 then p\<lparr>r1 := 1, r2 := - 1\<rparr>
                   else p\<lparr>r1 := - 1, r2 := 1\<rparr>);
             pMem = aMem p ! 0
         in if has_flag pMem MEM_Int then (CompareInt, p')
            else if \<not> has_flag pMem MEM_Real \<and> \<not> has_flag pMem MEM_Null \<and> \<not> has_flag pMem MEM_Blob
                 \<and> aColl (pKeyInfo p) ! 0 = None
            then (CompareString, p')
            else (CompareRecord, p'))
      else (CompareRecord, p))"

definition run_compare :: "record_compare \<Rightarrow> bool \<Rightarrow> (nat \<Rightarrow> nat \<Rightarrow> bool) \<Rightarrow> u32 \<Rightarrow> mem \<Rightarrow> ptr
    \<Rightarrow> UnpackedRecord \<Rightarrow> (int \<times> UnpackedRecord) option" where
  "run_compare f =
     (case f of CompareInt \<Rightarrow> vdbeRecordCompareInt | CompareString \<Rightarrow> vdbeRecordCompareString
      | CompareRecord \<Rightarrow> sqlite3VdbeRecordCompare)"

subsection \<open>The built-in collating functions\<close>

function allSpaces :: "byte list \<Rightarrow> bool" where
  "allSpaces z = (if z \<noteq> [] \<and> last z = 32 then allSpaces (butlast z) else z = [])"
  by auto
termination
  by (relation "measure length") auto

definition binCollFunc :: "bool \<Rightarrow> byte list \<Rightarrow> byte list \<Rightarrow> int" where
  "binCollFunc padFlag pKey1 pKey2 =
     (let k = min (length pKey1) (length pKey2); rc = memcmp (take k pKey1) (take k pKey2) in
      if rc = 0 then
        (if padFlag \<and> allSpaces (drop k pKey1) \<and> allSpaces (drop k pKey2) then rc
         else int (length pKey1) - int (length pKey2))
      else rc)"

definition nocaseCollatingFunc :: "byte list \<Rightarrow> byte list \<Rightarrow> int" where
  "nocaseCollatingFunc pKey1 pKey2 =
     (let r = sqlite3_strnicmp (Some pKey1) (Some pKey2) (int (min (length pKey1) (length pKey2))) in
      if r = 0 then int (length pKey1) - int (length pKey2) else r)"

subsection \<open>Integers and doubles\<close>

lemma unit_pos: "0 < unit_double"
  by (simp add: unit_double_def)

lemma round_small: "\<bar>i\<bar> < 2 ^ 53 \<Longrightarrow> round_53 i = i"
proof -
  assume "\<bar>i\<bar> < 2 ^ 53"
  then have "nat \<bar>i\<bar> < 2 ^ 53" by (simp add: nat_less_iff)
  then have "floorlog 2 (nat \<bar>i\<bar>) \<le> 53" by (intro floorlog_leI) simp_all
  then show ?thesis by (simp add: round_53_def Let_def sgn_mult_abs)
qed

lemma round_exact: "2 ^ 52 \<le> M \<Longrightarrow> M < 2 ^ 53 \<Longrightarrow> \<bar>i\<bar> = M * 2 ^ j \<Longrightarrow> round_53 i = i"
proof -
  assume M: "2 ^ 52 \<le> M" "M < 2 ^ 53" and i: "\<bar>i\<bar> = M * 2 ^ j"
  have "floorlog 2 (nat M) \<le> 53" by (intro floorlog_leI) (use M in \<open>simp_all add: nat_less_iff\<close>)
  moreover have "53 \<le> floorlog 2 (nat M)" by (rule floorlog_geI) (use M in \<open>simp_all add: le_nat_iff\<close>)
  ultimately have fl: "floorlog 2 (nat M) = 53" by simp
  have "nat \<bar>i\<bar> = nat M * 2 ^ j" using i M by (simp add: nat_mult_distrib nat_power_eq)
  moreover have "floorlog 2 (nat M * 2 ^ j) = floorlog 2 (nat M) + j" by (rule floorlog_power) (use M in simp_all)
  ultimately have "floorlog 2 (nat \<bar>i\<bar>) - 53 = j" using fl by simp
  then have "round_53 i = sgn i * (M * 2 ^ j)" using i by (simp add: round_53_def Let_def)
  then show ?thesis using i by (metis sgn_mult_abs)
qed

text \<open>A double beyond \<open>2 ^ 53\<close> is a 53-bit integer times a power of two.\<close>

lemma scaled_large:
  assumes "2 ^ 53 * unit_double \<le> \<bar>scaled r\<bar>"
  obtains M j where "2 ^ 52 \<le> M" "M < 2 ^ 53" "\<bar>scaled r\<bar> = M * 2 ^ j * unit_double"
proof -
  let ?f = "int (unat (r AND 0xfffffffffffff))" and ?e = "unat (drop_bit 52 r AND 0x7ff)"
  have "r AND 0xfffffffffffff = take_bit 52 r" by (rule u64_eqI) (simp add: word_bits)
  then have "unat (r AND 0xfffffffffffff) = unat r mod 2 ^ 52" unfolding take_bit_eq_mod [symmetric]
    by (simp only: unsigned_take_bit_eq)
  then have f: "?f < 2 ^ 52" by simp
  have big: "(2 :: int) ^ 52 \<le> 2 ^ 53 * unit_double"
    unfolding unit_double_def power_add [symmetric] by (rule power_increasing) simp_all
  have ne: "?e \<noteq> 0"
  proof
    assume "?e = 0"
    then have "\<bar>scaled r\<bar> = ?f" by (simp add: scaled_def Let_def)
    with f big assms show False by linarith
  qed
  then have sc: "\<bar>scaled r\<bar> = (2 ^ 52 + ?f) * 2 ^ (?e - 1)"
    by (simp add: scaled_def Let_def abs_mult)
  have "1074 \<le> ?e - 1"
  proof (rule ccontr)
    assume "\<not> 1074 \<le> ?e - 1"
    then have "(2 :: int) ^ (?e - 1) \<le> 2 ^ 1074" by (intro power_increasing) simp_all
    then have "(2 ^ 52 + ?f) * 2 ^ (?e - 1) \<le> (2 ^ 52 + ?f) * unit_double"
      unfolding unit_double_def by (intro mult_left_mono) simp_all
    also have "\<dots> < 2 ^ 53 * unit_double" using f unit_pos by simp
    finally show False using assms sc by simp
  qed
  then have "?e - 1 = (?e - 1 - 1074) + 1074" by simp
  then have "(2 :: int) ^ (?e - 1) = 2 ^ (?e - 1 - 1074) * unit_double"
    unfolding unit_double_def by (metis power_add)
  with that [of "2 ^ 52 + ?f" "?e - 1 - 1074"] sc f show thesis by simp
qed

lemma trunc_bounds:
  "0 \<le> x \<Longrightarrow> trunc_scaled x * unit_double \<le> x \<and> x < (trunc_scaled x + 1) * unit_double"
  "x < 0 \<Longrightarrow> x \<le> trunc_scaled x * unit_double \<and> (trunc_scaled x - 1) * unit_double < x"
proof -
  have d: "y div unit_double * unit_double \<le> y \<and> y < (y div unit_double + 1) * unit_double" for y
  proof -
    have "y = y div unit_double * unit_double + y mod unit_double" by simp
    then show ?thesis using pos_mod_sign [OF unit_pos, of y] pos_mod_bound [OF unit_pos, of y]
      unfolding distrib_right by linarith
  qed
  show "0 \<le> x \<Longrightarrow> trunc_scaled x * unit_double \<le> x \<and> x < (trunc_scaled x + 1) * unit_double"
    using d [of x] by (simp add: trunc_scaled_def)
  show "x < 0 \<Longrightarrow> x \<le> trunc_scaled x * unit_double \<and> (trunc_scaled x - 1) * unit_double < x"
    using d [of "- x"] by (simp add: trunc_scaled_def algebra_simps)
qed

lemma trunc_sign: "0 \<le> x \<Longrightarrow> 0 \<le> trunc_scaled x" "x < 0 \<Longrightarrow> trunc_scaled x \<le> 0"
  using unit_pos by (simp_all add: trunc_scaled_def pos_imp_zdiv_nonneg_iff)

text \<open>Both branches of the comparison are exact.\<close>

lemma int_float_exact:
  assumes "in_int64 i" and "\<not> sqlite3IsNaN r"
  shows "sqlite3IntFloatCompare quad i r = sgn (scaled_int i - scaled r)"
proof (cases quad)
  case True
  with assms show ?thesis by (auto simp: sqlite3IntFloatCompare_def sgn_if)
next
  case False
  let ?x = "scaled r" and ?y = "trunc_scaled (scaled r)"
  have mono: "j < k \<longleftrightarrow> j * unit_double < k * unit_double" "j \<le> k \<longleftrightarrow> j * unit_double \<le> k * unit_double" for j k
    using unit_pos by simp_all
  have i: "- (2 ^ 63) * unit_double \<le> i * unit_double" "i * unit_double < 2 ^ 63 * unit_double"
    using assms(1) unfolding in_int64_def mono [symmetric] by auto
  consider (low) "?x < scaled_int (- (2 ^ 63))" | (high) "scaled_int (2 ^ 63) \<le> ?x"
    | (less) "\<not> ?x < scaled_int (- (2 ^ 63))" "\<not> scaled_int (2 ^ 63) \<le> ?x" "i < ?y"
    | (more) "\<not> ?x < scaled_int (- (2 ^ 63))" "\<not> scaled_int (2 ^ 63) \<le> ?x" "?y < i"
    | (same) "\<not> ?x < scaled_int (- (2 ^ 63))" "\<not> scaled_int (2 ^ 63) \<le> ?x" "i = ?y" by linarith
  then show ?thesis
  proof cases
    case low
    then have "scaled_int i - ?x > 0" using i by (simp add: scaled_int_def)
    with low False assms(2) show ?thesis by (simp add: sqlite3IntFloatCompare_def)
  next
    case high
    then have "scaled_int i - ?x < 0" using i by (simp add: scaled_int_def)
    moreover have "\<not> ?x < scaled_int (- (2 ^ 63))" using high unit_pos by (simp add: scaled_int_def)
    ultimately show ?thesis using high False assms(2) by (simp add: sqlite3IntFloatCompare_def)
  next
    case less
    then have "i * unit_double \<le> (?y - 1) * unit_double" "i * unit_double < ?y * unit_double"
      using mono(2) [of i "?y - 1"] mono(1) [of i ?y] by simp_all
    then have "scaled_int i - ?x < 0"
      using trunc_bounds(1) [of ?x] trunc_bounds(2) [of ?x] by (cases "0 \<le> ?x") (auto simp: scaled_int_def)
    with less False assms(2) show ?thesis by (simp add: sqlite3IntFloatCompare_def)
  next
    case more
    then have "(?y + 1) * unit_double \<le> i * unit_double" "?y * unit_double < i * unit_double"
      using mono(2) [of "?y + 1" i] mono(1) [of ?y i] by simp_all
    then have "scaled_int i - ?x > 0"
      using trunc_bounds(1) [of ?x] trunc_bounds(2) [of ?x] by (cases "0 \<le> ?x") (auto simp: scaled_int_def)
    with more False assms(2) show ?thesis by (simp add: sqlite3IntFloatCompare_def)
  next
    case same
    have "round_53 i = i"
    proof (cases "\<bar>i\<bar> < 2 ^ 53")
      case False
      have "\<bar>i\<bar> * unit_double \<le> \<bar>?x\<bar>"
      proof (cases "0 \<le> ?x")
        case True
        then show ?thesis using trunc_bounds(1) [of ?x] trunc_sign(1) [of ?x] same(3) by simp
      next
        case False
        then have "\<bar>i\<bar> = - i" using trunc_sign(2) [of ?x] same(3) by simp
        then show ?thesis using False trunc_bounds(2) [of ?x] same(3) by simp
      qed
      moreover have "2 ^ 53 * unit_double \<le> \<bar>i\<bar> * unit_double" using False mono(2) [of "2 ^ 53" "\<bar>i\<bar>"] by simp
      ultimately obtain M j where M: "2 ^ 52 \<le> M" "M < 2 ^ 53" "\<bar>?x\<bar> = M * 2 ^ j * unit_double"
        by (meson order_trans scaled_large)
      have "\<bar>?y\<bar> = M * 2 ^ j"
      proof -
        have "0 < M * 2 ^ j" using M(1) by simp
        then show ?thesis using M(3) unit_pos by (auto simp: trunc_scaled_def abs_if split: if_splits)
      qed
      with same(3) show ?thesis by (intro round_exact [OF M(1,2), of i j]) simp
    qed (rule round_small)
    then show ?thesis using same False assms(2)
      by (simp add: sqlite3IntFloatCompare_def sgn_if)
  qed
qed

subsection \<open>The order of values\<close>

text \<open>Bytes in lexicographic order, a prefix first.\<close>

fun bytes_cmp :: "byte list \<Rightarrow> byte list \<Rightarrow> int" where
  "bytes_cmp [] [] = 0"
| "bytes_cmp [] (y # ys) = - 1"
| "bytes_cmp (x # xs) [] = 1"
| "bytes_cmp (x # xs) (y # ys) =
     (if x = y then bytes_cmp xs ys else if unat x < unat y then - 1 else 1)"

fun rank :: "sval \<Rightarrow> int" where
  "rank VNull = 0"
| "rank (VInt i) = 1"
| "rank (VReal r) = 1"
| "rank (VText t) = 2"
| "rank (VBlob b) = 3"

fun num_key :: "sval \<Rightarrow> int" where
  "num_key (VInt i) = scaled_int i"
| "num_key (VReal r) = scaled r"
| "num_key v = 0"

text \<open>NULL before numbers before texts before blobs; \<open>tc\<close> compares the texts.\<close>

definition sval_cmp :: "(byte list \<Rightarrow> byte list \<Rightarrow> int) \<Rightarrow> sval \<Rightarrow> sval \<Rightarrow> int" where
  "sval_cmp tc v w =
     (if rank v \<noteq> rank w then sgn (rank v - rank w)
      else case (v, w) of
        (VText s, VText t) \<Rightarrow> sgn (tc s t)
      | (VBlob s, VBlob t) \<Rightarrow> bytes_cmp s t
      | _ \<Rightarrow> sgn (num_key v - num_key w))"

text \<open>Texts of encoding \<open>enc\<close> by a collating function, in the encoding of the function.\<close>

definition coll_cmp :: "nat \<Rightarrow> CollSeq option \<Rightarrow> byte list \<Rightarrow> byte list \<Rightarrow> int" where
  "coll_cmp enc coll s t =
     (case coll of None \<Rightarrow> bytes_cmp s t
      | Some c \<Rightarrow> xCmp c (the (text_in True enc (coll_enc c) s)) (the (text_in True enc (coll_enc c) t)))"

lemma bytes_cmp_sgn [simp]: "sgn (bytes_cmp s t) = bytes_cmp s t"
  by (induction s t rule: bytes_cmp.induct) auto

lemma memcmp_bytes_if:
  "sgn (if memcmp s t = 0 then int (length s) - int (length t) else memcmp s t) = bytes_cmp s t"
proof (induction s t rule: bytes_cmp.induct)
  case (4 x xs y ys)
  show ?case
  proof (cases "x = y")
    case False
    then have "unat x \<noteq> unat y" by (simp add: word_unat_eq_iff)
    moreover from this have "int (unat x) \<noteq> int (unat y)" by linarith
    moreover have "int (unat x) < int (unat y) \<longleftrightarrow> unat x < unat y" by linarith
    ultimately show ?thesis using False by (simp add: sgn_if del: of_nat_unat of_nat_less_iff)
  qed (use 4 in \<open>cases "memcmp xs ys = 0"; simp\<close>)
qed (simp_all add: sgn_if)

lemma memcmp_bytes:
  "memcmp s t = 0 \<Longrightarrow> sgn (int (length s) - int (length t)) = bytes_cmp s t"
  "memcmp s t \<noteq> 0 \<Longrightarrow> sgn (memcmp s t) = bytes_cmp s t"
  using memcmp_bytes_if [of s t] by simp_all

lemma bytes_cmp_refl [simp]: "bytes_cmp s s = 0"
  by (induction s) simp_all

lemma bytes_cmp_zero: "bytes_cmp s t = 0 \<longleftrightarrow> s = t"
  by (induction s t rule: bytes_cmp.induct) auto

lemma bytes_cmp_swap: "bytes_cmp t s = - bytes_cmp s t"
proof (induction s t rule: bytes_cmp.induct)
  case (4 x xs y ys)
  show ?case
  proof (cases "x = y")
    case False
    then have "unat x \<noteq> unat y" by (simp add: word_unat_eq_iff)
    then show ?thesis using False by auto
  qed (use 4 in simp)
qed simp_all

lemma bytes_cmp_zeros:
  "bytes_cmp (replicate k 0) t = (if isAllZero t then sgn (int k - int (length t)) else - 1)"
proof (induction t arbitrary: k)
  case Nil
  then show ?case by (cases k) (simp_all add: isAllZero_def)
next
  case (Cons x t)
  show ?case
  proof (cases k)
    case 0
    then show ?thesis by (simp add: isAllZero_def)
  next
    case (Suc j)
    have "x \<noteq> 0 \<Longrightarrow> 0 < unat x" by (simp add: unat_gt_0)
    then show ?thesis using Suc Cons [of j] by (auto simp: isAllZero_def)
  qed
qed

lemma cell_bytes_length: "mem_n c \<le> length (mem_z c) \<Longrightarrow> length (cell_bytes c) = mem_n c"
  by (simp add: cell_bytes_def)

text \<open>A blob with a tail of zero bytes has no other bytes when it is compared.\<close>

definition blob_ok :: "Cell \<Rightarrow> bool" where
  "blob_ok c \<longleftrightarrow> mem_n c \<le> length (mem_z c) \<and> (has_flag c MEM_Zero \<longrightarrow> mem_n c = 0)"

lemma blob_compare:
  assumes "blob_ok c" and "blob_ok d"
  shows "sgn (sqlite3BlobCompare c d) = bytes_cmp (cell_bytes c @ zero_tail c) (cell_bytes d @ zero_tail d)"
proof -
  have len: "length (cell_bytes c) = mem_n c" "length (cell_bytes d) = mem_n d"
    using assms by (simp_all add: blob_ok_def cell_bytes_length)
  have z: "has_flag c MEM_Zero \<Longrightarrow> cell_bytes c = [] \<and> zero_tail c = replicate (mem_nZero c) 0"
    "has_flag d MEM_Zero \<Longrightarrow> cell_bytes d = [] \<and> zero_tail d = replicate (mem_nZero d) 0"
    "\<not> has_flag c MEM_Zero \<Longrightarrow> zero_tail c = []" "\<not> has_flag d MEM_Zero \<Longrightarrow> zero_tail d = []"
    using assms by (auto simp: blob_ok_def cell_bytes_def zero_tail_def)
  show ?thesis
  proof (cases "has_flag c MEM_Zero"; cases "has_flag d MEM_Zero")
    assume c: "has_flag c MEM_Zero" and d: "has_flag d MEM_Zero"
    then show ?thesis using z by (simp add: sqlite3BlobCompare_def bytes_cmp_zeros isAllZero_def list_all_iff)
  next
    assume c: "has_flag c MEM_Zero" and d: "\<not> has_flag d MEM_Zero"
    then show ?thesis using z len by (simp add: sqlite3BlobCompare_def bytes_cmp_zeros Let_def)
  next
    assume c: "\<not> has_flag c MEM_Zero" and d: "has_flag d MEM_Zero"
    have "bytes_cmp (cell_bytes c) (replicate (mem_nZero d) 0)
        = - bytes_cmp (replicate (mem_nZero d) 0) (cell_bytes c)" by (rule bytes_cmp_swap)
    with c d show ?thesis using z len
      by (simp add: sqlite3BlobCompare_def bytes_cmp_zeros Let_def) (simp add: sgn_if)
  next
    assume c: "\<not> has_flag c MEM_Zero" and d: "\<not> has_flag d MEM_Zero"
    then show ?thesis using z memcmp_bytes [of "cell_bytes c" "cell_bytes d"] len
      by (cases "memcmp (cell_bytes c) (cell_bytes d) = 0") (simp_all add: sqlite3BlobCompare_def Let_def)
  qed
qed

subsection \<open>Cells are compared by their values\<close>

lemma text_in_some:
  assumes "is_enc e" and "is_enc d"
  shows "text_in True e d z \<noteq> None"
proof (cases "e = d")
  case False
  let ?m = "\<lparr>mem_z = z, mem_n = length z, mem_enc = e, mem_flags = MEM_Str\<rparr>"
  have "sqlite3VdbeMemTranslate True d ?m \<noteq> None"
    by (rule translate_fits) (use assms False in simp_all)
  moreover have "rc = SQLITE_OK" if "sqlite3VdbeMemTranslate True d ?m = Some (rc, c)" for rc c
    using that by (auto simp: sqlite3VdbeMemTranslate_def Let_def split: if_splits)
  ultimately show ?thesis using False by (force simp: text_in_def)
qed (simp add: text_in_def)

definition coll_ok :: "CollSeq option \<Rightarrow> bool" where
  "coll_ok coll \<longleftrightarrow> (case coll of None \<Rightarrow> True | Some c \<Rightarrow> is_enc (coll_enc c))"

lemma compare_text:
  assumes "is_enc e" and "is_enc (coll_enc c)"
  shows "vdbeCompareMemString (\<lambda>i. True) e s e t c = (coll_cmp e (Some c) s t, False)"
  using text_in_some [OF assms, of s] text_in_some [OF assms, of t]
  by (auto simp: vdbeCompareMemString_def coll_cmp_def text_in_def)

text \<open>What the comparison relies on besides: the encoding, and where a tail of zeros is allowed.\<close>

definition key_cell :: "nat \<Rightarrow> Cell \<Rightarrow> bool" where
  "key_cell enc c \<longleftrightarrow> cell_ok c \<and> blob_ok c \<and> (has_flag c MEM_Str \<longrightarrow> mem_enc c = enc)"

lemma cell_kinds [consumes 1]:
  assumes "key_cell enc c"
  obtains (null) "cell_value c = VNull" "has_flag c MEM_Null" "\<not> has_flag c MEM_Int" "\<not> has_flag c MEM_Real"
      "\<not> has_flag c MEM_Str" "\<not> has_flag c MEM_Blob"
  | (int) "cell_value c = VInt (mem_i c)" "in_int64 (mem_i c)" "\<not> has_flag c MEM_Null" "has_flag c MEM_Int"
      "\<not> has_flag c MEM_Real"
  | (real) "cell_value c = VReal (mem_r c)" "\<not> sqlite3IsNaN (mem_r c)" "\<not> has_flag c MEM_Null"
      "\<not> has_flag c MEM_Int" "has_flag c MEM_Real"
  | (str) "cell_value c = VText (cell_bytes c)" "\<not> has_flag c MEM_Null" "\<not> has_flag c MEM_Int"
      "\<not> has_flag c MEM_Real" "has_flag c MEM_Str" "mem_enc c = enc" "zero_tail c = []"
  | (blob) "cell_value c = VBlob (cell_bytes c @ zero_tail c)" "\<not> has_flag c MEM_Null"
      "\<not> has_flag c MEM_Int" "\<not> has_flag c MEM_Real" "\<not> has_flag c MEM_Str" "has_flag c MEM_Blob"
  using assms by (auto simp: key_cell_def cell_ok_def cell_value_def cell_bytes_def zero_tail_def)

lemma scaled_less_iff: "scaled_int i < scaled_int j \<longleftrightarrow> i < j" "scaled_int i = scaled_int j \<longleftrightarrow> i = j"
  using unit_pos by (simp_all add: scaled_int_def)

lemma sgn_scaled: "sgn (scaled_int i - scaled_int j) = (if i < j then - 1 else if i > j then 1 else 0)"
  using scaled_less_iff [of i j] scaled_less_iff [of j i] by (simp add: sgn_if)

lemma mem_compare_exact:
  assumes "key_cell enc c" and "key_cell enc d" and "is_enc enc" and "coll_ok coll"
  shows "sgn (sqlite3MemCompare quad (\<lambda>i. True) c d coll)
    = sval_cmp (coll_cmp enc coll) (cell_value c) (cell_value d)"
proof -
  have b: "blob_ok c" "blob_ok d" using assms by (simp_all add: key_cell_def)
  show ?thesis using assms(1)
  proof (cases rule: cell_kinds)
    case c: null
    from assms(2) show ?thesis
      by (cases rule: cell_kinds) (use c in \<open>simp_all add: sqlite3MemCompare_def sval_cmp_def\<close>)
  next
    case c: int
    from assms(2) show ?thesis
      by (cases rule: cell_kinds) (use c in \<open>simp_all add: sqlite3MemCompare_def sval_cmp_def
        sgn_scaled int_float_exact\<close>)
  next
    case c: real
    from assms(2) show ?thesis
    proof (cases rule: cell_kinds)
      case int
      have "sgn (- sgn (scaled_int (mem_i d) - scaled (mem_r c))) = sgn (scaled (mem_r c) - scaled_int (mem_i d))"
        by (simp add: sgn_if)
      with c int show ?thesis by (simp add: sqlite3MemCompare_def sval_cmp_def int_float_exact)
    qed (use c in \<open>simp_all add: sqlite3MemCompare_def sval_cmp_def double_less_def sgn_if\<close>)
  next
    case c: str
    from assms(2) show ?thesis
    proof (cases rule: cell_kinds)
      case str
      show ?thesis
      proof (cases coll)
        case None
        with c str blob_compare [OF b] show ?thesis
          by (simp add: sqlite3MemCompare_def sval_cmp_def coll_cmp_def)
      next
        case (Some f)
        then have "is_enc (coll_enc f)" using assms(4) by (simp add: coll_ok_def)
        with Some c str show ?thesis
          by (simp add: sqlite3MemCompare_def sval_cmp_def compare_text [OF assms(3)])
      qed
    qed (use c in \<open>simp_all add: sqlite3MemCompare_def sval_cmp_def\<close>)
  next
    case c: blob
    from assms(2) show ?thesis
    proof (cases rule: cell_kinds)
      case blob
      with c blob_compare [OF b] show ?thesis by (simp add: sqlite3MemCompare_def sval_cmp_def)
    qed (use c in \<open>simp_all add: sqlite3MemCompare_def sval_cmp_def\<close>)
  qed
qed

subsection \<open>Comparing one field\<close>

lemma small_type_bytes: "unat st < 128 \<Longrightarrow> varint_bytes (ucast (st :: u32)) = [ucast st]"
proof -
  assume "unat st < 128"
  then have lt: "st < 0x80" by (simp add: word_less_nat_alt)
  let ?v = "varint_bytes (ucast st)" and ?z = "(\<lambda>q. 0) :: mem"
  have e: "(?z(0 := ucast st), 1) = (put_bytes ?z 0 ?v, length ?v)"
    using put_varint32_bytes [of ?z 0 st] lt by (simp add: putVarint32_def)
  then have "length ?v = 1" by simp
  then obtain x where x: "?v = [x]" by (cases ?v) auto
  with e have "(?z(0 := ucast st)) 0 = (put_bytes ?z 0 [x]) 0" by (metis prod.inject)
  with x show ?thesis by simp
qed

lemma first_byte:
  assumes "bytes_at m q (varint_bytes (ucast (st :: u32)))"
  shows "unat st < 128 \<Longrightarrow> (ucast (m q) :: u32) = st"
    and "128 \<le> unat st \<Longrightarrow> 128 \<le> unat (ucast (m q) :: u32)"
proof -
  assume s: "unat st < 128"
  have "unat (ucast st :: byte) = unat st" using s by (simp add: unat_byte)
  moreover have "m q = ucast st" using assms small_type_bytes [OF s] by simp
  ultimately show "(ucast (m q) :: u32) = st" by (simp add: word_unat_eq_iff unat_code)
next
  assume s: "128 \<le> unat st"
  show "128 \<le> unat (ucast (m q) :: u32)"
  proof (rule ccontr)
    assume "\<not> 128 \<le> unat (ucast (m q) :: u32)"
    then have lt: "unat (m q) < 128" by (simp add: unat_code)
    then have "st = ucast (m q)"
      using get_varint32_at [OF assms] by (simp add: getVarint32_def word_less_nat_alt)
    then show False using s lt by (simp add: unat_code)
  qed
qed

lemma sint_u32: "sint (x :: u32) = (if uint x < 2 ^ 31 then uint x else uint x - 2 ^ 32)"
proof -
  have b: "0 \<le> uint x" "uint x < 2 ^ 32" using uint_lt2p [of x] by simp_all
  have s: "sint x = signed_take_bit 31 (uint x)" by (simp add: sint_uint)
  show ?thesis
  proof (cases "uint x < 2 ^ 31")
    case True
    have "- (2 ^ 31) \<le> uint x" by (rule order_trans [OF _ b(1)]) simp
    with True have "signed_take_bit 31 (uint x) = uint x" by (intro signed_take_bit_int_eq_self) simp_all
    with True show ?thesis by (simp add: s)
  next
    case False
    have "signed_take_bit 31 (uint x) = signed_take_bit 31 (uint x - 2 ^ 32)"
    proof (subst signed_take_bit_eq_iff_take_bit_eq)
      show "take_bit (Suc 31) (uint x) = take_bit (Suc 31) (uint x - 2 ^ 32)"
        by (simp add: take_bit_eq_mod)
    qed
    also have "\<dots> = uint x - 2 ^ 32" using False b by (intro signed_take_bit_int_eq_self) simp_all
    finally show ?thesis using False by (simp add: s)
  qed
qed

lemma four_byte_sint: "sint (FOUR_BYTE_UINT m p) = be_int (mem_bytes m p 4)"
  unfolding sint_u32 four_byte_uint by (auto simp: be_int_def)

lemma eight_byte_or:
  "push_bit 32 (ucast (x :: u32)) OR ucast (y :: u32) = (push_bit 32 (ucast x) + ucast y :: u64)"
  by (rule disjunctive_add [symmetric]) (auto simp: bit_simps dest: bit_imp_le_length)

text \<open>The types of integers, and what the two readers of them return.\<close>

definition int_type :: "u32 \<Rightarrow> bool" where
  "int_type st \<longleftrightarrow> st \<noteq> 0 \<and> st \<noteq> 7 \<and> unat st < 10"

lemma int_type_cases:
  assumes "int_type st"
  obtains "st = 1" | "st = 2" | "st = 3" | "st = 4" | "st = 5" | "st = 6" | "st = 8" | "st = 9"
proof (cases st rule: type_cases)
  case 13
  then show thesis using assms by (simp add: int_type_def)
qed (use assms that in \<open>simp_all add: int_type_def\<close>)

lemma int_field:
  assumes "field_ok (st, ds)" and "bytes_at m q ds" and "int_type st"
  shows "field_value (st, ds) = VInt (vdbeRecordDecodeInt st m q)"
    and "mem_i (fst (sqlite3VdbeSerialGet m q st c)) = vdbeRecordDecodeInt st m q"
proof -
  have ds: "mem_bytes m q (length ds) = ds" using assms(2) by (simp add: bytes_at_def)
  note defs = field_value_def vdbeRecordDecodeInt_def byte_ints four_byte_sint six_byte_sum
    eight_byte_or eight_byte_int sqlite3VdbeSerialGet_def serialGet_def
  show "field_value (st, ds) = VInt (vdbeRecordDecodeInt st m q)"
    using assms(3) by (cases rule: int_type_cases)
      (use assms(1) ds in \<open>simp_all add: defs field_ok_def\<close>)
  show "mem_i (fst (sqlite3VdbeSerialGet m q st c)) = vdbeRecordDecodeInt st m q"
    using assms(3) by (cases rule: int_type_cases)
      (use assms(1) ds in \<open>simp_all add: defs field_ok_def Let_def\<close>)
qed

lemma real_field:
  assumes "field_ok (7, ds)" and "bytes_at m q ds"
  shows "mem_r (fst (sqlite3VdbeSerialGet m q 7 c)) = of_nat (be_nat ds)"
proof -
  have "length ds = 8" using assms(1) by (simp add: field_ok_def)
  with assms(2) have "mem_bytes m q 8 = ds" by (simp add: bytes_at_def)
  then show ?thesis by (simp add: sqlite3VdbeSerialGet_def serialGet_def Let_def eight_byte_word)
qed

lemma be_int_range: "ds \<noteq> [] \<Longrightarrow> length ds \<le> 8 \<Longrightarrow> in_int64 (be_int ds)"
proof -
  assume ne: "ds \<noteq> []" and le: "length ds \<le> 8"
  have "8 * length ds = Suc (8 * length ds - 1)" using ne by (cases ds) simp_all
  then have dbl: "(2 :: int) ^ (8 * length ds) = 2 * 2 ^ (8 * length ds - 1)" by (metis power_Suc)
  have "int (be_nat ds) < int (256 ^ length ds)" using be_nat_bound [of ds] by (simp only: of_nat_less_iff)
  then have b: "int (be_nat ds) < 2 ^ (8 * length ds)" by (simp add: power_mult)
  have "(2 :: int) ^ (8 * length ds - 1) \<le> 2 ^ 63" by (rule power_increasing) (use le in simp_all)
  then have p: "(2 :: int) ^ (8 * length ds - 1) \<le> 9223372036854775808" by simp
  have iff: "be_nat ds < 2 ^ (8 * length ds - 1) \<longleftrightarrow> int (be_nat ds) < 2 ^ (8 * length ds - 1)"
    by (metis of_nat_less_iff of_nat_numeral of_nat_power)
  show "in_int64 (be_int ds)"
  proof (cases "int (be_nat ds) < 2 ^ (8 * length ds - 1)")
    case True
    then have "be_int ds = int (be_nat ds)" unfolding be_int_def iff by simp
    moreover have "int (be_nat ds) < 9223372036854775808" using True p by linarith
    ultimately show ?thesis by (simp add: in_int64_def)
  next
    case False
    from False have "be_int ds = int (be_nat ds) - 2 * 2 ^ (8 * length ds - 1)" unfolding be_int_def iff dbl by simp
    moreover from False p b dbl
    have "- 9223372036854775808 \<le> int (be_nat ds) - 2 * 2 ^ (8 * length ds - 1)"
      "int (be_nat ds) - 2 * 2 ^ (8 * length ds - 1) < 9223372036854775808" by linarith+
    ultimately show ?thesis by (simp add: in_int64_def)
  qed
qed

lemma int_field_range:
  assumes "field_ok (st, ds)" and "int_type st" and "field_value (st, ds) = VInt i"
  shows "in_int64 i"
proof -
  have r: "length ds \<in> {1..8} \<Longrightarrow> in_int64 (be_int ds)" using be_int_range [of ds] by (cases ds) auto
  show ?thesis using assms(2) by (cases rule: int_type_cases)
    (use assms(1,3) r in \<open>auto simp: field_ok_def field_value_def in_int64_def\<close>)
qed

text \<open>A field of a record without a real that is not a number, and its rank by type.\<close>

definition stored_field :: "field \<Rightarrow> bool" where
  "stored_field f \<longleftrightarrow> field_ok f \<and> (fst f = 7 \<longrightarrow> \<not> sqlite3IsNaN (of_nat (be_nat (snd f))))"

lemma field_kinds [consumes 1]:
  assumes "stored_field (st, ds)"
  obtains (null) "st = 0" "field_value (st, ds) = VNull"
  | (int) "int_type st" "unat st < 10"
  | (real) "st = 7" "field_value (st, ds) = VReal (of_nat (be_nat ds))" "\<not> sqlite3IsNaN (of_nat (be_nat ds))"
  | (blob) "12 \<le> unat st" "even (unat st)" "field_value (st, ds) = VBlob ds"
  | (str) "12 \<le> unat st" "odd (unat st)" "field_value (st, ds) = VText ds"
proof (cases st rule: type_cases)
  case 13
  then have "\<not> st \<le> 6" "st \<noteq> 0" "st \<noteq> 7" "st \<noteq> 8" "st \<noteq> 9"
    by (auto simp: word_le_nat_alt word_unat_eq_iff)
  then show thesis using blob str 13 by (cases "even (unat st)") (simp_all add: field_value_def)
qed (use assms null int real in \<open>simp_all add: stored_field_def field_ok_def int_type_def field_value_def\<close>)

text \<open>The header byte tells small types apart.\<close>

lemma type_byte:
  assumes "bytes_at m q (varint_bytes (ucast st))"
  shows "unat st < 10 \<Longrightarrow> (ucast (m q) :: u32) = st"
    and "12 \<le> unat st \<Longrightarrow> 10 \<le> (ucast (m q) :: u32) \<and> (ucast (m q) :: u32) \<noteq> 0"
proof -
  show "unat st < 10 \<Longrightarrow> (ucast (m q) :: u32) = st" using first_byte(1) [OF assms] by simp
  assume st: "12 \<le> unat st"
  have "12 \<le> unat (ucast (m q) :: u32)"
    using first_byte [OF assms] st by (cases "unat st < 128") auto
  then show "10 \<le> (ucast (m q) :: u32) \<and> (ucast (m q) :: u32) \<noteq> 0"
    by (auto simp: word_le_nat_alt word_unat_eq_iff)
qed

definition field_compared :: "field_result \<Rightarrow> int \<Rightarrow> u32 \<Rightarrow> bool" where
  "field_compared r c st \<longleftrightarrow> (\<exists>rc st'. r = Compared rc st' False \<and> sgn rc = c \<and> (rc = 0 \<longrightarrow> st' = st))"

lemma field_comparedI:
  "r = Compared rc st' False \<Longrightarrow> sgn rc = c \<Longrightarrow> (rc = 0 \<Longrightarrow> st' = st) \<Longrightarrow> field_compared r c st"
  by (auto simp: field_compared_def)

text \<open>A field of a record in memory: its type at \<open>idx1\<close> and its data at \<open>d1\<close>, inside the record.\<close>

definition field_at :: "mem \<Rightarrow> ptr \<Rightarrow> u32 \<Rightarrow> u32 \<Rightarrow> u32 \<Rightarrow> field \<Rightarrow> bool" where
  "field_at m p nKey1 idx1 d1 f \<longleftrightarrow> stored_field f
     \<and> bytes_at m (p + unat idx1) (varint_bytes (ucast (fst f)))
     \<and> bytes_at m (p + unat d1) (snd f) \<and> unat d1 + length (snd f) \<le> unat nKey1"

lemma field_atD:
  assumes "field_at m p nKey1 idx1 d1 (st, ds)"
  shows "stored_field (st, ds)" "field_ok (st, ds)" "bytes_at m (p + unat idx1) (varint_bytes (ucast st))"
    "bytes_at m (p + unat d1) ds" "unat d1 + length ds \<le> unat nKey1"
    "snd (getVarint32 m (p + unat idx1)) = st"
  using assms get_varint32_at [of m "p + unat idx1" st] by (auto simp: field_at_def stored_field_def)

lemma field_length:
  assumes "field_at m p nKey1 idx1 d1 (st, ds)" and "12 \<le> unat st"
  shows "unat ((st - 12) div 2) = length ds" and "\<not> d1 + (st - 12) div 2 > nKey1"
    and "mem_bytes m (p + unat d1) (unat ((st - 12) div 2)) = ds" and "\<not> st < 12"
proof -
  note f = field_atD [OF assms(1)]
  show l: "unat ((st - 12) div 2) = length ds" using f(2) assms(2) by (simp add: field_ok_def unat_half)
  have "unat d1 + unat ((st - 12) div 2) < 2 ^ 32"
    using f(5) l unsigned_less [where 'a = nat, of nKey1] by simp
  then have "unat (d1 + (st - 12) div 2) = unat d1 + length ds" unfolding l [symmetric] by (rule unat_add)
  then show "\<not> d1 + (st - 12) div 2 > nKey1" using f(5) by (simp add: word_less_nat_alt)
  show "mem_bytes m (p + unat d1) (unat ((st - 12) div 2)) = ds" using f(4) l by (simp add: bytes_at_def)
  show "\<not> st < 12" using assms(2) by (simp add: word_less_nat_alt)
qed

lemma compare_field_int:
  assumes f: "field_at m p nKey1 idx1 d1 (st, ds)" and c: "cell_value c = VInt (mem_i c)" "in_int64 (mem_i c)"
    "has_flag c MEM_Int"
  shows "field_compared (compare_field quad ok m p nKey1 ki i c idx1 d1)
    (sval_cmp tc (field_value (st, ds)) (cell_value c)) st"
proof -
  note D = field_atD [OF f] and T = type_byte [OF field_atD(3) [OF f]]
  from D(1) show ?thesis
  proof (cases rule: field_kinds)
    case null
    then have t: "(ucast (m (p + unat idx1)) :: u32) = 0" using T(1) by simp
    show ?thesis by (rule field_comparedI [where rc = "- 1"])
      (use c null t in \<open>simp_all add: compare_field_def sval_cmp_def\<close>)
  next
    case int
    have t: "(ucast (m (p + unat idx1)) :: u32) = st" using T(1) int by simp
    have st: "st \<noteq> 0" "st \<noteq> 7" "\<not> 10 \<le> st" using int by (simp_all add: int_type_def word_le_nat_alt)
    note v = int_field(1) [OF D(2,4) int(1)]
    show ?thesis
      by (rule field_comparedI [where rc = "if vdbeRecordDecodeInt st m (p + unat d1) < mem_i c then - 1
            else if vdbeRecordDecodeInt st m (p + unat d1) > mem_i c then 1 else 0" and st' = st])
        (use c t st v in \<open>simp_all add: compare_field_def sval_cmp_def sgn_scaled\<close>)
  next
    case real
    then have t: "(ucast (m (p + unat idx1)) :: u32) = 7" using T(1) by simp
    have r: "mem_r (fst (sqlite3VdbeSerialGet m (p + unat d1) 7 c)) = of_nat (be_nat ds)"
      by (rule real_field) (use D real in simp_all)
    have "sgn (- sgn (scaled_int (mem_i c) - x)) = sgn (x - scaled_int (mem_i c))" for x
      by (simp add: sgn_if)
    then show ?thesis
      by (intro field_comparedI [where rc = "- sqlite3IntFloatCompare quad (mem_i c) (of_nat (be_nat ds))"])
        (use c t r real in \<open>simp_all add: compare_field_def sval_cmp_def int_float_exact\<close>)
  next
    case blob
    show ?thesis by (rule field_comparedI [where rc = 1])
      (use c blob T(2) in \<open>simp_all add: compare_field_def sval_cmp_def\<close>)
  next
    case str
    show ?thesis by (rule field_comparedI [where rc = 1])
      (use c str T(2) in \<open>simp_all add: compare_field_def sval_cmp_def\<close>)
  qed
qed

lemma compare_field_real:
  assumes f: "field_at m p nKey1 idx1 d1 (st, ds)" and c: "cell_value c = VReal (mem_r c)"
    "\<not> sqlite3IsNaN (mem_r c)" "\<not> has_flag c MEM_Int" "has_flag c MEM_Real"
  shows "field_compared (compare_field quad ok m p nKey1 ki i c idx1 d1)
    (sval_cmp tc (field_value (st, ds)) (cell_value c)) st"
proof -
  note D = field_atD [OF f] and T = type_byte [OF field_atD(3) [OF f]]
  from D(1) show ?thesis
  proof (cases rule: field_kinds)
    case null
    then have t: "(ucast (m (p + unat idx1)) :: u32) = 0" using T(1) by simp
    show ?thesis by (rule field_comparedI [where rc = "- 1"])
      (use c null t in \<open>simp_all add: compare_field_def sval_cmp_def\<close>)
  next
    case int
    have t: "(ucast (m (p + unat idx1)) :: u32) = st" using T(1) int by simp
    have st: "st \<noteq> 0" "st \<noteq> 7" "\<not> 10 \<le> st" using int by (simp_all add: int_type_def word_le_nat_alt)
    note v = int_field [OF D(2,4) int(1)]
    have i64: "in_int64 (vdbeRecordDecodeInt st m (p + unat d1))" by (rule int_field_range [OF D(2) int(1) v(1)])
    show ?thesis
      by (rule field_comparedI [where rc = "sqlite3IntFloatCompare quad (vdbeRecordDecodeInt st m (p + unat d1)) (mem_r c)"
            and st' = st])
        (use c t st v i64 in \<open>simp_all add: compare_field_def sval_cmp_def int_float_exact\<close>)
  next
    case real
    then have t: "(ucast (m (p + unat idx1)) :: u32) = 7" using T(1) by simp
    have r: "mem_r (fst (sqlite3VdbeSerialGet m (p + unat d1) 7 c)) = of_nat (be_nat ds)"
      by (rule real_field) (use D real in simp_all)
    show ?thesis
      by (rule field_comparedI [where rc = "if double_less (of_nat (be_nat ds)) (mem_r c) then - 1
            else if double_less (mem_r c) (of_nat (be_nat ds)) then 1 else 0" and st' = 7])
        (use c t r real in \<open>simp_all add: compare_field_def sval_cmp_def double_less_def sgn_if\<close>)
  next
    case blob
    show ?thesis by (rule field_comparedI [where rc = 1])
      (use c blob T(2) in \<open>simp_all add: compare_field_def sval_cmp_def\<close>)
  next
    case str
    show ?thesis by (rule field_comparedI [where rc = 1])
      (use c str T(2) in \<open>simp_all add: compare_field_def sval_cmp_def\<close>)
  qed
qed

lemma type_less_12: "stored_field (st, ds) \<Longrightarrow> unat st < 10 \<Longrightarrow> st < 12 \<and> rank (field_value (st, ds)) < 2"
proof -
  assume s: "stored_field (st, ds)" and lt: "unat st < 10"
  have "rank (field_value (st, ds)) < 2" using s
    by (cases rule: field_kinds) (use lt in \<open>auto elim!: int_type_cases simp: field_value_def\<close>)
  with lt show ?thesis by (simp add: word_less_nat_alt)
qed

lemma compare_field_text:
  assumes f: "field_at m p nKey1 idx1 d1 (st, ds)" and c: "cell_value c = VText (cell_bytes c)"
    "\<not> has_flag c MEM_Int" "\<not> has_flag c MEM_Real" "has_flag c MEM_Str" "mem_enc c = enc"
    "length (cell_bytes c) = mem_n c"
    and k: "key_enc ki = enc" "is_enc enc" "coll_ok (aColl ki ! i)"
  shows "field_compared (compare_field quad (\<lambda>j. True) m p nKey1 ki i c idx1 d1)
    (sval_cmp (coll_cmp enc (aColl ki ! i)) (field_value (st, ds)) (cell_value c)) st"
proof -
  note D = field_atD [OF f]
  have low: ?thesis if "unat st < 10"
  proof -
    note r = type_less_12 [OF D(1) that]
    show ?thesis by (rule field_comparedI [where rc = "- 1"])
      (use c D(6) r in \<open>simp_all add: compare_field_def sval_cmp_def sgn_if\<close>)
  qed
  from D(1) show ?thesis
  proof (cases rule: field_kinds)
    case blob
    note l = field_length [OF f blob(1)]
    have e: "st AND 1 = 0" using blob(2) by (simp add: even_low_bit)
    show ?thesis by (rule field_comparedI [where rc = 1])
      (use c D(6) l e blob in \<open>simp_all add: compare_field_def sval_cmp_def\<close>)
  next
    case str
    note l = field_length [OF f str(1)]
    have e: "st AND 1 \<noteq> 0" using str(2) even_low_bit [of st] by simp
    show ?thesis
    proof (cases "aColl ki ! i")
      case None
      show ?thesis
        by (rule field_comparedI [where rc = "if memcmp ds (cell_bytes c) = 0
              then int (length ds) - int (mem_n c) else memcmp ds (cell_bytes c)" and st' = st])
          (use c D(6) l e str None memcmp_bytes [of ds "cell_bytes c"] in
            \<open>simp_all add: compare_field_def sval_cmp_def coll_cmp_def Let_def\<close>)
    next
      case (Some coll)
      then have "is_enc (coll_enc coll)" using k(3) by (simp add: coll_ok_def)
      note t = compare_text [OF k(2) this, of ds "cell_bytes c"]
      show ?thesis
        by (rule field_comparedI [where rc = "coll_cmp enc (Some coll) ds (cell_bytes c)" and st' = st])
          (use c D(6) l e str Some k(1) t in \<open>simp_all add: compare_field_def sval_cmp_def Let_def\<close>)
    qed
  qed (use low in \<open>simp_all add: int_type_def\<close>)
qed

lemma compare_field_blob:
  assumes f: "field_at m p nKey1 idx1 d1 (st, ds)" and c: "cell_value c = VBlob (cell_bytes c @ zero_tail c)"
    "\<not> has_flag c MEM_Int" "\<not> has_flag c MEM_Real" "\<not> has_flag c MEM_Str" "has_flag c MEM_Blob" "blob_ok c"
  shows "field_compared (compare_field quad ok m p nKey1 ki i c idx1 d1)
    (sval_cmp tc (field_value (st, ds)) (cell_value c)) st"
proof -
  note D = field_atD [OF f]
  have len: "length (cell_bytes c) = mem_n c" using c(6) by (simp add: blob_ok_def cell_bytes_length)
  have low: ?thesis if "unat st < 10"
  proof -
    note r = type_less_12 [OF D(1) that]
    show ?thesis by (rule field_comparedI [where rc = "- 1"])
      (use c D(6) r in \<open>simp_all add: compare_field_def sval_cmp_def sgn_if\<close>)
  qed
  from D(1) show ?thesis
  proof (cases rule: field_kinds)
    case str
    note l = field_length [OF f str(1)]
    have e: "st AND 1 \<noteq> 0" using str(2) even_low_bit [of st] by simp
    show ?thesis by (rule field_comparedI [where rc = "- 1"])
      (use c D(6) l e str in \<open>simp_all add: compare_field_def sval_cmp_def\<close>)
  next
    case blob
    note l = field_length [OF f blob(1)]
    have e: "st AND 1 = 0" using blob(2) by (simp add: even_low_bit)
    show ?thesis
    proof (cases "has_flag c MEM_Zero")
      case True
      then have z: "cell_bytes c = []" "zero_tail c = replicate (mem_nZero c) 0"
        using c(6) by (simp_all add: blob_ok_def cell_bytes_def zero_tail_def)
      have "bytes_cmp ds (replicate (mem_nZero c) 0)
          = sgn (if \<not> isAllZero ds then 1 else int (length ds) - int (mem_nZero c))"
        using bytes_cmp_swap [of ds "replicate (mem_nZero c) 0"] by (simp add: bytes_cmp_zeros sgn_if)
      then show ?thesis
        by (intro field_comparedI [where rc = "if \<not> isAllZero ds then 1
              else int (length ds) - int (mem_nZero c)" and st' = st])
          (use c D(6) l e blob True z in \<open>simp_all add: compare_field_def sval_cmp_def Let_def\<close>)
    next
      case False
      then have z: "zero_tail c = []" by (simp add: zero_tail_def)
      show ?thesis
        by (rule field_comparedI [where rc = "if memcmp ds (cell_bytes c) = 0
              then int (length ds) - int (mem_n c) else memcmp ds (cell_bytes c)" and st' = st])
          (use c D(6) l e blob False z len memcmp_bytes [of ds "cell_bytes c"] in
            \<open>simp_all add: compare_field_def sval_cmp_def Let_def\<close>)
    qed
  qed (use low in \<open>simp_all add: int_type_def\<close>)
qed

lemma compare_field_null:
  assumes f: "field_at m p nKey1 idx1 d1 (st, ds)" and c: "cell_value c = VNull"
    "\<not> has_flag c MEM_Int" "\<not> has_flag c MEM_Real" "\<not> has_flag c MEM_Str" "\<not> has_flag c MEM_Blob"
  shows "field_compared (compare_field quad ok m p nKey1 ki i c idx1 d1)
    (sval_cmp tc (field_value (st, ds)) (cell_value c)) st"
proof -
  note D = field_atD [OF f] and T = type_byte [OF field_atD(3) [OF f]]
  from D(1) show ?thesis
  proof (cases rule: field_kinds)
    case null
    then have t: "(ucast (m (p + unat idx1)) :: u32) = 0" using T(1) by simp
    show ?thesis by (rule field_comparedI [where rc = 0 and st' = 0])
      (use c null t in \<open>simp_all add: compare_field_def sval_cmp_def\<close>)
  next
    case int
    have t: "(ucast (m (p + unat idx1)) :: u32) = st" using T(1) int by simp
    have st: "st \<noteq> 0" using int by (simp add: int_type_def)
    note v = int_field(1) [OF D(2,4) int(1)]
    show ?thesis by (rule field_comparedI [where rc = 1])
      (use c t st v in \<open>simp_all add: compare_field_def sval_cmp_def\<close>)
  next
    case real
    then have t: "(ucast (m (p + unat idx1)) :: u32) = 7" using T(1) by simp
    show ?thesis by (rule field_comparedI [where rc = 1])
      (use c t real in \<open>simp_all add: compare_field_def sval_cmp_def\<close>)
  next
    case blob
    show ?thesis by (rule field_comparedI [where rc = 1])
      (use c blob T(2) in \<open>simp_all add: compare_field_def sval_cmp_def\<close>)
  next
    case str
    show ?thesis by (rule field_comparedI [where rc = 1])
      (use c str T(2) in \<open>simp_all add: compare_field_def sval_cmp_def\<close>)
  qed
qed

lemma compare_field_exact:
  assumes f: "field_at m p nKey1 idx1 d1 (st, ds)" and c: "key_cell enc c"
    and k: "key_enc ki = enc" "is_enc enc" "coll_ok (aColl ki ! i)"
  shows "field_compared (compare_field quad (\<lambda>j. True) m p nKey1 ki i c idx1 d1)
    (sval_cmp (coll_cmp enc (aColl ki ! i)) (field_value (st, ds)) (cell_value c)) st"
  using c
proof (cases rule: cell_kinds)
  case null
  then show ?thesis by (intro compare_field_null [OF f])
next
  case int
  then show ?thesis by (intro compare_field_int [OF f])
next
  case real
  then show ?thesis by (intro compare_field_real [OF f])
next
  case str
  have "length (cell_bytes c) = mem_n c" using c by (simp add: key_cell_def blob_ok_def cell_bytes_length)
  with str show ?thesis by (intro compare_field_text [OF f _ _ _ _ _ _ k])
next
  case blob
  moreover have "blob_ok c" using c by (simp add: key_cell_def)
  ultimately show ?thesis by (intro compare_field_blob [OF f])
qed

subsection \<open>Comparing records\<close>

text \<open>
  The first column in which two rows differ decides; a column sorted in descending order
  turns the result round. \<open>None\<close>: no difference in the columns both rows have.
\<close>

type_synonym column = "bool \<times> (byte list \<Rightarrow> byte list \<Rightarrow> int)"

fun first_diff :: "column list \<Rightarrow> sval list \<Rightarrow> sval list \<Rightarrow> int option" where
  "first_diff ((descending, tc) # cols) (v # vs) (w # ws) =
     (let c = sval_cmp tc v w in
      if c \<noteq> 0 then Some (if descending then - c else c) else first_diff cols vs ws)"
| "first_diff cols vs ws = None"

definition record_cmp :: "int \<Rightarrow> column list \<Rightarrow> sval list \<Rightarrow> sval list \<Rightarrow> int" where
  "record_cmp dflt cols vs ws = (case first_diff cols vs ws of None \<Rightarrow> dflt | Some c \<Rightarrow> c)"

text \<open>The columns and values of a key.\<close>

definition key_columns :: "UnpackedRecord \<Rightarrow> column list" where
  "key_columns key = map (\<lambda>k. (aSortOrder (pKeyInfo key) ! k,
     coll_cmp (key_enc (pKeyInfo key)) (aColl (pKeyInfo key) ! k))) [0..<nField key]"

definition key_values :: "UnpackedRecord \<Rightarrow> sval list" where
  "key_values key = map (\<lambda>k. cell_value (aMem key ! k)) [0..<nField key]"

definition key_ok :: "UnpackedRecord \<Rightarrow> bool" where
  "key_ok key \<longleftrightarrow> 0 < nField key \<and> nField key \<le> length (aMem key)
     \<and> nField key \<le> length (aSortOrder (pKeyInfo key)) \<and> nField key \<le> length (aColl (pKeyInfo key))
     \<and> is_enc (key_enc (pKeyInfo key))
     \<and> list_all (key_cell (key_enc (pKeyInfo key))) (take (nField key) (aMem key))
     \<and> list_all coll_ok (take (nField key) (aColl (pKeyInfo key)))"

lemma key_okD:
  assumes "key_ok key" and "i < nField key"
  shows "i < length (aMem key)" "i < length (aSortOrder (pKeyInfo key))" "i < length (aColl (pKeyInfo key))"
    "is_enc (key_enc (pKeyInfo key))" "key_cell (key_enc (pKeyInfo key)) (aMem key ! i)"
    "coll_ok (aColl (pKeyInfo key) ! i)"
  using assms by (auto simp: key_ok_def list_all_length)

lemma drop_key:
  assumes "i < nField key"
  shows "drop i (key_columns key) = (aSortOrder (pKeyInfo key) ! i,
      coll_cmp (key_enc (pKeyInfo key)) (aColl (pKeyInfo key) ! i)) # drop (Suc i) (key_columns key)"
    and "drop i (key_values key) = cell_value (aMem key ! i) # drop (Suc i) (key_values key)"
  using assms by (simp_all add: key_columns_def key_values_def Cons_nth_drop_Suc [symmetric])

lemma drop_key_end: "nField key \<le> i \<Longrightarrow> drop i (key_columns key) = []"
  by (simp add: key_columns_def)

text \<open>The answer and what it records in the key.\<close>

definition compared :: "UnpackedRecord \<Rightarrow> int option \<Rightarrow> (int \<times> UnpackedRecord) option \<Rightarrow> bool" where
  "compared key d r \<longleftrightarrow> (\<exists>rc. case d of
     None \<Rightarrow> r = Some (default_rc key, key\<lparr>eqSeen := True\<rparr>)
   | Some c \<Rightarrow> r = Some (rc, key) \<and> sgn rc = c)"

definition fields_at :: "mem \<Rightarrow> ptr \<Rightarrow> u32 \<Rightarrow> u32 \<Rightarrow> u32 \<Rightarrow> u32 \<Rightarrow> field list \<Rightarrow> bool" where
  "fields_at m p nKey1 szHdr1 idx1 d1 fs \<longleftrightarrow> list_all stored_field fs
     \<and> bytes_at m (p + unat idx1) (types_bytes fs) \<and> bytes_at m (p + unat d1) (data_bytes fs)
     \<and> unat idx1 + length (types_bytes fs) = unat szHdr1
     \<and> unat d1 + length (data_bytes fs) \<le> unat nKey1"

lemma type_varint_len: "sqlite3VarintLen (ucast (st :: u32)) = length (varint_bytes (ucast st))"
proof -
  have "unat (ucast st :: u64) < 2 ^ (7 * Suc 4)"
    using unsigned_less [where 'a = nat, of st] by (simp add: u32_wide)
  then have "sqlite3VarintLen (ucast st) \<le> 5" using varint_len_le [of "ucast st" 4] by simp
  then show ?thesis by (simp add: varint_bytes_length)
qed

lemma fields_at_Cons:
  assumes "fields_at m p nKey1 szHdr1 idx1 d1 ((st, ds) # fs)"
  defines "idx2 \<equiv> idx1 + of_nat (sqlite3VarintLen (ucast st))"
    and "d2 \<equiv> d1 + sqlite3VdbeSerialTypeLen st"
  shows "field_at m p nKey1 idx1 d1 (st, ds)" and "fields_at m p nKey1 szHdr1 idx2 d2 fs"
    and "idx2 < szHdr1 \<and> d2 \<le> nKey1 \<longleftrightarrow> fs \<noteq> []" and "idx1 < szHdr1" and "d1 \<le> nKey1"
proof -
  note f = assms(1) [unfolded fields_at_def bytes_fields_Cons, simplified]
  show "field_at m p nKey1 idx1 d1 (st, ds)" using f by (simp add: field_at_def)
  have l: "length (varint_bytes (ucast st)) \<le> 9" by (rule varint_bytes_length_le)
  have "unat (of_nat (length (varint_bytes (ucast st))) :: u32) = length (varint_bytes (ucast st))"
    by (rule unat_small) (use l in simp)
  then have idx2: "unat idx2 = unat idx1 + length (varint_bytes (ucast st))"
    unfolding idx2_def type_varint_len
    using f unsigned_less [where 'a = nat, of szHdr1] by (subst unat_add) simp_all
  have "length ds = unat (sqlite3VdbeSerialTypeLen st)" using f by (simp add: stored_field_def field_ok_len)
  then have d2: "unat d2 = unat d1 + length ds"
    unfolding d2_def using f unsigned_less [where 'a = nat, of nKey1] by (subst unat_add) simp_all
  show "fields_at m p nKey1 szHdr1 idx2 d2 fs"
    using f by (simp add: fields_at_def idx2 d2 add.assoc)
  have ne: "fs \<noteq> [] \<longleftrightarrow> 0 < length (types_bytes fs)"
    using varint_nonempty by (cases fs) (auto simp: types_bytes_def split: prod.splits)
  have "idx2 < szHdr1 \<longleftrightarrow> 0 < length (types_bytes fs)"
    unfolding word_less_nat_alt idx2 using f by (metis add.assoc less_add_same_cancel1)
  moreover have "d2 \<le> nKey1" unfolding word_le_nat_alt d2 using f by linarith
  ultimately show "idx2 < szHdr1 \<and> d2 \<le> nKey1 \<longleftrightarrow> fs \<noteq> []" using ne by blast
  show "idx1 < szHdr1" "d1 \<le> nKey1"
    using f varint_nonempty [of "ucast st"] by (simp_all add: word_less_nat_alt word_le_nat_alt del: length_greater_0_conv)
qed

lemma compare_loop_exact:
  assumes "key_ok key"
  shows "fields_at m p nKey1 szHdr1 idx1 d1 fs \<Longrightarrow> fs \<noteq> [] \<Longrightarrow> i < nField key \<Longrightarrow>
    compared key (first_diff (drop i (key_columns key)) (map field_value fs) (drop i (key_values key)))
      (compare_loop quad (\<lambda>i j. True) m p nKey1 szHdr1 key i idx1 d1)"
proof (induction fs arbitrary: idx1 d1 i)
  case (Cons f fs)
  obtain st ds where f: "f = (st, ds)" by force
  let ?ki = "pKeyInfo key"
  let ?tc = "coll_cmp (key_enc ?ki) (aColl ?ki ! i)"
  let ?c = "sval_cmp ?tc (field_value (st, ds)) (cell_value (aMem key ! i))"
  note K = key_okD [OF assms Cons.prems(3)] and F = fields_at_Cons [OF Cons.prems(1) [unfolded f]]
  obtain rc st' where r: "compare_field quad (\<lambda>j. True) m p nKey1 ?ki i (aMem key ! i) idx1 d1 = Compared rc st' False"
    "sgn rc = ?c" "rc = 0 \<longrightarrow> st' = st"
    using compare_field_exact [OF F(1) K(5) refl K(4,6), where quad = quad] by (auto simp: field_compared_def)
  show ?case
  proof (cases "rc = 0")
    case False
    then have "?c \<noteq> 0" using r(2) by (metis sgn_0_0)
    then show ?thesis using K(1-3) r False
      by (subst compare_loop.simps)
        (auto simp: f drop_key [OF Cons.prems(3)] compared_def sgn_if split: if_splits)
  next
    case True
    then have st: "st' = st" and c: "?c = 0" using r by simp_all
    show ?thesis
    proof (cases "i + 1 = nField key")
      case last: True
      then have "drop (Suc i) (key_columns key) = []" by (intro drop_key_end) simp
      then show ?thesis using K(1-3) r True last c
        by (subst compare_loop.simps) (simp add: f drop_key [OF Cons.prems(3)] compared_def)
    next
      case False
      let ?x = "idx1 + of_nat (sqlite3VarintLen (ucast st))" and ?d = "d1 + sqlite3VdbeSerialTypeLen st"
      have step: "compare_loop quad (\<lambda>i j. True) m p nKey1 szHdr1 key i idx1 d1
          = (if fs \<noteq> [] then compare_loop quad (\<lambda>i j. True) m p nKey1 szHdr1 key (i + 1) ?x ?d
             else Some (default_rc key, key\<lparr>eqSeen := True\<rparr>))"
        unfolding F(3) [symmetric]
        using K(1-3) r True False st by (subst compare_loop.simps) (simp add: Let_def)
      show ?thesis
      proof (cases "fs = []")
        case True
        then show ?thesis unfolding step f drop_key [OF Cons.prems(3)] using c
          by (cases "drop (Suc i) (key_columns key)") (auto simp: compared_def)
      next
        case ne: False
        have "i + 1 < nField key" using False Cons.prems(3) by simp
        from Cons.IH [OF F(2) ne this] ne c show ?thesis
          unfolding step f drop_key [OF Cons.prems(3)] by simp
      qed
    qed
  qed
qed simp

text \<open>Where the fields of a stored record are.\<close>

lemma record_fields_at:
  assumes "list_all stored_field fs" and "length fs \<le> 32767" and "bytes_at m p (record_bytes fs)"
    and "length (record_bytes fs) < 2 ^ 31"
  defines "t \<equiv> length (types_bytes fs)"
  defines "hs \<equiv> of_nat (header_size t) :: u32" and "h \<equiv> length (varint_bytes (of_nat (header_size t)))"
    and "len \<equiv> of_nat (length (record_bytes fs)) :: u32"
  shows "getVarint32 m p = (h, hs)" and "hs \<le> len" and "fields_at m p len hs (of_nat h) hs fs"
    and "unat hs = h + t" and "unat len = length (record_bytes fs)" and "unat hs = header_size t"
    and "bytes_at m p (varint_bytes (ucast hs))"
proof -
  note H = record_header [OF assms(2,3), folded t_def, folded hs_def h_def]
  show l: "unat len = length (record_bytes fs)" unfolding len_def using assms(4) by (intro unat_small) simp
  show "getVarint32 m p = (h, hs)" "unat hs = h + t" "unat hs = header_size t"
    "bytes_at m p (varint_bytes (ucast hs))" by (rule H)+
  show "hs \<le> len" by (simp add: word_le_nat_alt l H(9))
  show "fields_at m p len hs (of_nat h) hs fs"
    using assms(1) H(7,8) by (simp add: fields_at_def l H(3,4,9) t_def [symmetric] del: of_nat_unat)
qed

lemma record_compare:
  assumes "key_ok key" and "list_all stored_field fs" and "fs \<noteq> []" and "length fs \<le> 32767"
    and "bytes_at m p (record_bytes fs)" and "length (record_bytes fs) < 2 ^ 31"
  shows "compared key (first_diff (key_columns key) (map field_value fs) (key_values key))
    (sqlite3VdbeRecordCompare quad (\<lambda>i j. True) (of_nat (length (record_bytes fs))) m p key)"
proof -
  note R = record_fields_at [OF assms(2,4-6)]
  have "0 < nField key" using assms(1) by (simp add: key_ok_def)
  from compare_loop_exact [OF assms(1) R(3) assms(3) this, where quad = quad] R(1) leD [OF R(2)]
  show ?thesis by (simp add: sqlite3VdbeRecordCompare_def sqlite3VdbeRecordCompareWithSkip_def)
qed

subsection \<open>The specialised routines agree\<close>

text \<open>A header of one byte, and the fields after the first.\<close>

lemma short_header:
  assumes "getVarint32 m p = (h, hs)" and "unat hs < 128" and "bytes_at m p (varint_bytes (ucast hs))"
  shows "unat (m p) = unat hs" and "h = 1" and "(ucast (m p) :: u32) = hs"
proof -
  have x: "varint_bytes (ucast hs) = [ucast hs]" by (rule small_type_bytes [OF assms(2)])
  then show "(ucast (m p) :: u32) = hs" by (intro first_byte(1) [OF assms(3,2)])
  then show "unat (m p) = unat hs" by (metis unat_code)
  show "h = 1" using get_varint32_at [OF assms(3)] assms(1) x by simp
qed

lemma skip_exact:
  assumes "key_ok key" and "1 < nField key" and "fs \<noteq> []"
    and f: "fields_at m p len hs 1 hs ((st, ds) # fs)" and b: "(ucast (m p) :: u32) = hs"
  shows "compared key (first_diff (drop 1 (key_columns key)) (map field_value fs) (drop 1 (key_values key)))
    (sqlite3VdbeRecordCompareWithSkip quad (\<lambda>i j. True) len m p key True)"
proof -
  note F = fields_at_Cons [OF f]
  have "getVarint32 m (p + 1) = (length (varint_bytes (ucast st)), st)"
    using get_varint32_at [of m "p + 1" st] F(1) by (simp add: field_at_def)
  then show ?thesis
    using compare_loop_exact [OF assms(1) F(2) assms(3,2), where quad = quad] b
    by (simp add: sqlite3VdbeRecordCompareWithSkip_def type_varint_len)
qed

text \<open>The results of a specialised routine once the first column has been compared.\<close>

definition sort_ok :: "UnpackedRecord \<Rightarrow> bool" where
  "sort_ok key \<longleftrightarrow> r1 key = (if aSortOrder (pKeyInfo key) ! 0 then 1 else - 1) \<and> r2 key = - r1 key"

lemma key_first:
  assumes "key_ok key"
  shows "key_columns key = (aSortOrder (pKeyInfo key) ! 0,
      coll_cmp (key_enc (pKeyInfo key)) (aColl (pKeyInfo key) ! 0)) # drop 1 (key_columns key)"
    and "key_values key = cell_value (aMem key ! 0) # drop 1 (key_values key)"
  using assms drop_key [of 0 key] by (simp_all add: key_ok_def)

lemma first_column:
  assumes "key_ok key" and "sort_ok key"
  defines "c \<equiv> (\<lambda>f. sval_cmp (coll_cmp (key_enc (pKeyInfo key)) (aColl (pKeyInfo key) ! 0))
    (field_value f) (cell_value (aMem key ! 0)))"
  shows "c f = - 1 \<Longrightarrow> compared key (first_diff (key_columns key) (map field_value (f # fs)) (key_values key))
      (Some (r1 key, key))"
    and "c f = 1 \<Longrightarrow> compared key (first_diff (key_columns key) (map field_value (f # fs)) (key_values key))
      (Some (r2 key, key))"
    and "c f = 0 \<Longrightarrow> first_diff (key_columns key) (map field_value (f # fs)) (key_values key)
      = first_diff (drop 1 (key_columns key)) (map field_value fs) (drop 1 (key_values key))"
  using assms(2) unfolding c_def
  by (subst key_first(1) [OF assms(1)], subst key_first(2) [OF assms(1)],
      simp add: compared_def sort_ok_def)+

text \<open>The end of both routines: the first column is equal.\<close>

lemma equal_first:
  assumes "key_ok key" and "sort_ok key" and "nField key = 1 \<or> fs \<noteq> []"
    and f: "fields_at m p len hs 1 hs ((st, ds) # fs)" and b: "(ucast (m p) :: u32) = hs"
    and c: "sval_cmp (coll_cmp (key_enc (pKeyInfo key)) (aColl (pKeyInfo key) ! 0))
      (field_value (st, ds)) (cell_value (aMem key ! 0)) = 0"
  shows "compared key (first_diff (key_columns key) (map field_value ((st, ds) # fs)) (key_values key))
    (if nField key > 1 then sqlite3VdbeRecordCompareWithSkip quad (\<lambda>i j. True) len m p key True
     else Some (default_rc key, key\<lparr>eqSeen := True\<rparr>))"
proof (cases "1 < nField key")
  case True
  then show ?thesis
    using skip_exact [OF assms(1) True _ f b, where quad = quad] assms(3) first_column(3) [OF assms(1,2) c]
    by simp
next
  case False
  then have "drop 1 (key_columns key) = []" by (intro drop_key_end) simp
  then show ?thesis using False first_column(3) [OF assms(1,2) c] by (simp add: compared_def)
qed

lemma first_int_exact:
  assumes "stored_field (st, ds)" and "bytes_at m q (varint_bytes (ucast st))"
  shows "int_type st \<Longrightarrow> first_int m x (m q) = Some (vdbeRecordDecodeInt st m x)"
    and "\<not> int_type st \<Longrightarrow> first_int m x (m q) = None"
proof -
  note T = type_byte [OF assms(2)]
  assume i: "int_type st"
  have b: "(ucast (m q) :: u32) = st" using T(1) i by (simp add: int_type_def)
  moreover have "unat st < 10" using i by (simp add: int_type_def)
  ultimately have "m q = ucast st" by (auto simp: word_unat_eq_iff unat_code unat_byte)
  with i show "first_int m x (m q) = Some (vdbeRecordDecodeInt st m x)"
    by (cases rule: int_type_cases) (simp_all add: first_int_def vdbeRecordDecodeInt_def)
next
  note T = type_byte [OF assms(2)]
  assume ni: "\<not> int_type st"
  have b: "unat (m q) \<in> {0, 7} \<or> 10 \<le> unat (m q)" using assms(1)
  proof (cases rule: field_kinds)
    case int
    with ni show ?thesis by simp
  qed (use T ni in \<open>auto simp: word_le_nat_alt unat_code dest: arg_cong [where f = unat]\<close>)
  then show "first_int m x (m q) = None" by (auto simp: first_int_def)
qed

lemma low_six_bits: "unat (b :: byte) < 64 \<Longrightarrow> unat (b AND 0x3F) = unat b"
proof -
  assume b: "unat b < 64"
  have "b AND 0x3F = take_bit 6 b" using take_bit_eq_mask [of 6 b] by (simp add: mask_eq_exp_minus_1)
  then have "unat (b AND 0x3F) = take_bit 6 (unat b)" by (simp only: unsigned_take_bit_eq)
  then show ?thesis using b by (simp add: take_bit_nat_eq_self)
qed

lemma compare_int_exact:
  assumes k: "key_ok key" "sort_ok key" "has_flag (aMem key ! 0) MEM_Int" and n: "nField key = 1 \<or> fs \<noteq> []"
    and f: "fields_at m p len hs 1 hs ((st, ds) # fs)" and b: "unat (m p) = unat hs" "(ucast (m p) :: u32) = hs"
    and short: "unat st < 10 \<Longrightarrow> unat hs < 64"
    and full: "compared key (first_diff (key_columns key) (map field_value ((st, ds) # fs)) (key_values key))
      (sqlite3VdbeRecordCompare quad (\<lambda>i j. True) len m p key)"
  shows "compared key (first_diff (key_columns key) (map field_value ((st, ds) # fs)) (key_values key))
    (vdbeRecordCompareInt quad (\<lambda>i j. True) len m p key)"
proof -
  note D = field_atD [OF fields_at_Cons(1) [OF f]]
  have one: "unat (1 :: u32) = 1" by simp
  note I = first_int_exact [OF D(1) D(3) [unfolded one]]
  let ?v = "mem_i (aMem key ! 0)" and ?tc = "coll_cmp (key_enc (pKeyInfo key)) (aColl (pKeyInfo key) ! 0)"
  have cv: "cell_value (aMem key ! 0) = VInt ?v"
    using key_okD(5) [OF k(1), of 0] k(1,3) by (auto simp: key_ok_def elim: cell_kinds)
  let ?x = "p + unat (m p AND 0x3F)"
  show ?thesis
  proof (cases "int_type st")
    case False
    have "first_int m ?x (m (p + 1)) = None"
      by (rule I(2) [OF False])
    with full show ?thesis by (simp add: vdbeRecordCompareInt_def)
  next
    case True
    then have "unat hs < 64" using short by (simp add: int_type_def)
    then have x: "?x = p + unat hs" using b(1) low_six_bits [of "m p"] by simp
    let ?l = "vdbeRecordDecodeInt st m (p + unat hs)"
    have l: "first_int m ?x (m (p + 1)) = Some ?l" unfolding x by (rule I(1) [OF True])
    have v: "field_value (st, ds) = VInt ?l" by (rule int_field(1) [OF D(2,4) True])
    have c: "sval_cmp ?tc (field_value (st, ds)) (cell_value (aMem key ! 0))
        = (if ?l < ?v then - 1 else if ?l > ?v then 1 else 0)"
      by (simp add: sval_cmp_def cv v sgn_scaled)
    show ?thesis
    proof (cases "?l = ?v")
      case True
      then show ?thesis using equal_first [OF k(1,2) n f b(2), where quad = quad] c l
        by (simp add: vdbeRecordCompareInt_def Let_def)
    next
      case False
      then show ?thesis using first_column(1,2) [OF k(1,2), of "(st, ds)" fs] c l
        by (cases "?l < ?v") (simp_all add: vdbeRecordCompareInt_def Let_def)
    qed
  qed
qed

lemma sint_small_type: "unat (st :: u32) < 2 ^ 31 \<Longrightarrow> sint st = int (unat st)"
  by (simp add: sint_u32 uint_nat del: of_nat_unat)

lemma compare_string_exact:
  assumes k: "key_ok key" "sort_ok key" "has_flag (aMem key ! 0) MEM_Str" "\<not> has_flag (aMem key ! 0) MEM_Int"
      "\<not> has_flag (aMem key ! 0) MEM_Real" "aColl (pKeyInfo key) ! 0 = None"
    and n: "nField key = 1 \<or> fs \<noteq> []"
    and f: "fields_at m p len hs 1 hs ((st, ds) # fs)" and b: "unat (m p) = unat hs" "(ucast (m p) :: u32) = hs"
    and small: "unat len \<le> 1000000000"
  shows "compared key (first_diff (key_columns key) (map field_value ((st, ds) # fs)) (key_values key))
    (vdbeRecordCompareString quad (\<lambda>i j. True) len m p key)"
proof -
  note F = fields_at_Cons(1) [OF f]
  note D = field_atD [OF F]
  let ?c = "aMem key ! 0" and ?tc = "coll_cmp (key_enc (pKeyInfo key)) (aColl (pKeyInfo key) ! 0)"
  have kc: "key_cell (key_enc (pKeyInfo key)) ?c" using key_okD(5) [OF k(1), of 0] k(1) by (simp add: key_ok_def)
  then have cv: "cell_value ?c = VText (cell_bytes ?c)" using k(3-5) by (cases rule: cell_kinds) auto
  have cl: "length (cell_bytes ?c) = mem_n ?c" using kc by (simp add: key_cell_def blob_ok_def cell_bytes_length)
  have g: "snd (getVarint32 m (p + 1)) = st" using D(6) by simp
  have low: ?thesis if "unat st < 10"
  proof -
    have "sval_cmp ?tc (field_value (st, ds)) (cell_value ?c) = - 1"
      using type_less_12 [OF D(1) that] cv by (simp add: sval_cmp_def sgn_if)
    moreover have "sint st < 12" using that by (simp add: sint_small_type del: of_nat_unat)
    ultimately show ?thesis using first_column(1) [OF k(1,2), of "(st, ds)" fs] g
      by (simp add: vdbeRecordCompareString_def)
  qed
  have big: "length ds = (unat st - 12) div 2 \<and> sint st = int (unat st) \<and> \<not> sint st < 12" if "12 \<le> unat st"
  proof -
    have "length ds = (unat st - 12) div 2" using D(2) that by (simp add: field_ok_def)
    moreover from this have "unat st < 2 ^ 31" using D(5) small by simp
    ultimately show ?thesis using that by (simp add: sint_small_type del: of_nat_unat)
  qed
  from D(1) show ?thesis
  proof (cases rule: field_kinds)
    case blob
    have "sval_cmp ?tc (field_value (st, ds)) (cell_value ?c) = 1" using blob cv by (simp add: sval_cmp_def)
    moreover have "even (sint st)" "\<not> sint st < 12"
      using big [OF blob(1)] blob(2) by (simp_all del: of_nat_unat)
    ultimately show ?thesis using first_column(2) [OF k(1,2), of "(st, ds)" fs] g
      by (simp add: vdbeRecordCompareString_def Let_def)
  next
    case str
    have odd: "\<not> even (sint st)" "\<not> sint st < 12"
      using big [OF str(1)] str(2) by (simp_all del: of_nat_unat)
    have "(int (unat st) - 12) div 2 = int ((unat st - 12) div 2)" using str(1) by (simp add: of_nat_diff zdiv_int del: of_nat_unat)
    then have nStr: "(sint st - 12) div 2 = int (length ds)" using big [OF str(1)] by (simp del: of_nat_unat)
    have "sint len = int (unat len)" using small by (intro sint_small_type) simp
    then have fit: "\<not> uint (m p) + int (length ds) > sint len"
      using b(1) D(5) by (simp add: uint_nat del: of_nat_unat)
    have bytes: "mem_bytes m (p + unat (m p)) (length ds) = ds" using D(4) b(1) by (simp add: bytes_at_def)
    have c: "sval_cmp ?tc (field_value (st, ds)) (cell_value ?c) = bytes_cmp ds (cell_bytes ?c)"
      using str cv k(6) by (simp add: sval_cmp_def coll_cmp_def)
    note M = memcmp_bytes [of ds "cell_bytes ?c"] 
    have run: "vdbeRecordCompareString quad (\<lambda>i j. True) len m p key =
      (let r = (if memcmp ds (cell_bytes ?c) = 0 then int (length ds) - int (length (cell_bytes ?c))
                else memcmp ds (cell_bytes ?c))
       in if r = 0 then (if nField key > 1 then sqlite3VdbeRecordCompareWithSkip quad (\<lambda>i j. True) len m p key True
            else Some (default_rc key, key\<lparr>eqSeen := True\<rparr>))
          else if r > 0 then Some (r2 key, key) else Some (r1 key, key))"
      using g odd nStr fit bytes cl by (simp add: vdbeRecordCompareString_def Let_def)
    define r where "r = (if memcmp ds (cell_bytes ?c) = 0 then int (length ds) - int (length (cell_bytes ?c))
                else memcmp ds (cell_bytes ?c))"
    have r: "sgn r = bytes_cmp ds (cell_bytes ?c)" unfolding r_def by (rule memcmp_bytes_if)
    consider "r = 0" | "r < 0" | "r > 0" by linarith
    then show ?thesis
    proof cases
      case 1
      with r c equal_first [OF k(1,2) n f b(2), where quad = quad] show ?thesis
        unfolding run r_def [symmetric] by simp
    next
      case 2
      with r c first_column(1) [OF k(1,2), of "(st, ds)" fs] show ?thesis
        unfolding run r_def [symmetric] by simp
    next
      case 3
      with r c first_column(2) [OF k(1,2), of "(st, ds)" fs] show ?thesis
        unfolding run r_def [symmetric] by simp
    qed
  qed (use low in \<open>simp_all add: int_type_def\<close>)
qed

lemma types_first:
  "unat st < 10 \<Longrightarrow> length (types_bytes ((st, ds) # fs)) \<le> 1 + 5 * length fs"
  using types_length [of fs] small_type_bytes [of st] by (simp add: bytes_fields_Cons)

lemma find_compare:
  assumes k: "key_ok key" and fs: "list_all stored_field fs" "fs \<noteq> []" "length fs \<le> 32767"
    and fields: "length fs \<le> nAllField (pKeyInfo key)" "nField key = 1 \<or> 1 < length fs"
    and r: "bytes_at m p (record_bytes fs)" "length (record_bytes fs) \<le> 1000000000"
  shows "case sqlite3VdbeFindCompare key of (f, key') \<Rightarrow>
    compared key' (first_diff (key_columns key) (map field_value fs) (key_values key))
      (run_compare f quad (\<lambda>i j. True) (of_nat (length (record_bytes fs))) m p key')"
proof (cases "nAllField (pKeyInfo key) \<le> 13")
  case False
  then show ?thesis using record_compare [OF k fs r(1), where quad = quad] r(2)
    by (simp add: sqlite3VdbeFindCompare_def run_compare_def)
next
  case True
  define key' where "key' = (if aSortOrder (pKeyInfo key) ! 0 then key\<lparr>r1 := 1, r2 := - 1\<rparr>
    else key\<lparr>r1 := - 1, r2 := 1\<rparr>)"
  have k': "key_ok key'" "sort_ok key'" "key_columns key' = key_columns key" "key_values key' = key_values key"
    "nField key' = nField key" "pKeyInfo key' = pKeyInfo key" "aMem key' = aMem key"
    using k by (auto simp: key'_def key_ok_def sort_ok_def key_columns_def key_values_def)
  let ?t = "length (types_bytes fs)"
  let ?len = "of_nat (length (record_bytes fs)) :: u32" and ?hs = "of_nat (header_size ?t) :: u32"
  have small: "length (record_bytes fs) < 2 ^ 31" using r(2) by simp
  note R = record_fields_at [OF fs(1,3) r(1) small]
  obtain st ds fs' where f: "fs = (st, ds) # fs'" using fs(2) by (cases fs) auto
  have t: "?t \<le> 65" using types_length [of fs] fields(1) True by simp
  then have h: "unat ?hs < 128" "unat ?hs = ?t + 1" using R(6) by (simp_all add: header_size_def)
  note S = short_header [OF R(1) h(1) R(7)]
  have F: "fields_at m p ?len ?hs 1 ?hs ((st, ds) # fs')" using R(3) S(2) f by simp
  have n: "nField key' = 1 \<or> fs' \<noteq> []" using fields(2) f k'(5) by auto
  have "unat st < 10 \<Longrightarrow> ?t \<le> 61" using types_first [of st ds fs'] fields(1) True f by simp
  then have short: "unat st < 10 \<Longrightarrow> unat ?hs < 64" using h(2) by simp
  have full: "compared key' (first_diff (key_columns key') (map field_value ((st, ds) # fs')) (key_values key'))
      (sqlite3VdbeRecordCompare quad (\<lambda>i j. True) ?len m p key')"
    using record_compare [OF k'(1) fs r(1) small, where quad = quad] f by simp
  have kc: "key_cell (key_enc (pKeyInfo key)) (aMem key ! 0)"
    using key_okD(5) [OF k, of 0] k by (simp add: key_ok_def)
  have choice: "sqlite3VdbeFindCompare key =
    (if has_flag (aMem key ! 0) MEM_Int then (CompareInt, key')
     else if \<not> has_flag (aMem key ! 0) MEM_Real \<and> \<not> has_flag (aMem key ! 0) MEM_Null
       \<and> \<not> has_flag (aMem key ! 0) MEM_Blob \<and> aColl (pKeyInfo key) ! 0 = None then (CompareString, key')
     else (CompareRecord, key'))"
    using True by (simp add: sqlite3VdbeFindCompare_def Let_def key'_def)
  consider (int) "has_flag (aMem key ! 0) MEM_Int"
    | (str) "\<not> has_flag (aMem key ! 0) MEM_Int" "\<not> has_flag (aMem key ! 0) MEM_Real"
      "\<not> has_flag (aMem key ! 0) MEM_Null" "\<not> has_flag (aMem key ! 0) MEM_Blob"
      "aColl (pKeyInfo key) ! 0 = None"
    | (rest) "sqlite3VdbeFindCompare key = (CompareRecord, key')"
    using choice by argo
  then show ?thesis
  proof cases
    case int
    then have "sqlite3VdbeFindCompare key = (CompareInt, key')" by (simp add: choice)
    then show ?thesis
      using compare_int_exact [OF k'(1,2) _ n F S(1,3) short full] int k' f by (simp add: run_compare_def)
  next
    case str
    then have "has_flag (aMem key ! 0) MEM_Str" using kc by (auto elim: cell_kinds)
    moreover have "sqlite3VdbeFindCompare key = (CompareString, key')" using str by (simp add: choice)
    ultimately show ?thesis
      using str compare_string_exact [OF k'(1,2) _ _ _ _ n F S(1,3), where quad = quad] k' f R(5) r(2)
      by (simp add: run_compare_def)
  next
    case rest
    then show ?thesis using full k' f by (simp add: run_compare_def)
  qed
qed

subsection \<open>The order of rows\<close>

text \<open>
  The contract of a comparison: its sign turns round with the arguments, and it is
  transitive. A collating function has to keep it for the pages of an index to be sorted.
\<close>

locale three_way =
  fixes cmp :: "'x \<Rightarrow> 'x \<Rightarrow> int"
  assumes swap: "sgn (cmp y x) = - sgn (cmp x y)"
    and trans_le: "cmp x y \<le> 0 \<Longrightarrow> cmp y z \<le> 0 \<Longrightarrow> cmp x z \<le> 0"
begin

lemma swap_iff: "cmp y x \<le> 0 \<longleftrightarrow> 0 \<le> cmp x y" "cmp y x < 0 \<longleftrightarrow> 0 < cmp x y" "cmp y x = 0 \<longleftrightarrow> cmp x y = 0"
  using swap [of y x] by (auto simp: sgn_if split: if_splits)

lemma refl: "cmp x x = 0"
  using swap [of x x] by (simp add: sgn_if split: if_splits)

lemma trans_less: "cmp x y < 0 \<Longrightarrow> cmp y z \<le> 0 \<Longrightarrow> cmp x z < 0" "cmp x y \<le> 0 \<Longrightarrow> cmp y z < 0 \<Longrightarrow> cmp x z < 0"
proof -
  show "cmp x y < 0 \<Longrightarrow> cmp y z \<le> 0 \<Longrightarrow> cmp x z < 0"
    using trans_le [of y z x] trans_le [of x y z] swap_iff [of y x] swap_iff [of x z] by linarith
  show "cmp x y \<le> 0 \<Longrightarrow> cmp y z < 0 \<Longrightarrow> cmp x z < 0"
    using trans_le [of z x y] trans_le [of x y z] swap_iff [of z y] swap_iff [of x z] by linarith
qed

lemma trans_eq: "cmp x y = 0 \<Longrightarrow> cmp y z = 0 \<Longrightarrow> cmp x z = 0"
  using trans_le [of x y z] trans_le [of z y x] swap_iff [of z x] swap_iff [of z y] swap_iff [of y x]
  by simp

end

locale collation = three_way cmp for cmp :: "byte list \<Rightarrow> byte list \<Rightarrow> int"

lemma bytes_cmp_trans: "bytes_cmp s t \<le> 0 \<Longrightarrow> bytes_cmp t u \<le> 0 \<Longrightarrow> bytes_cmp s u \<le> 0"
proof (induction s t arbitrary: u rule: bytes_cmp.induct)
  case (4 x xs y ys)
  show ?case
  proof (cases u)
    case Nil
    with 4 show ?thesis by simp
  next
    case (Cons z zs)
    with 4 show ?thesis by (auto split: if_splits)
  qed
next
  case (2 y ys)
  then show ?case by (cases u) simp_all
qed simp_all

lemma bytes_lex_collation:
  assumes "\<And>s t. sgn (c s t) = (if k s \<noteq> k t then bytes_cmp (k s) (k t) else sgn (int (l s) - int (l t)))"
  shows "collation c"
proof unfold_locales
  fix x y z :: "byte list"
  show "sgn (c y x) = - sgn (c x y)"
    unfolding assms using bytes_cmp_swap [of "k y" "k x"] by (simp add: sgn_if)
  have le: "c s t \<le> 0 \<longleftrightarrow> bytes_cmp (k s) (k t) < 0 \<or> k s = k t \<and> l s \<le> l t" for s t
    using assms [of s t] bytes_cmp_zero [of "k s" "k t"] bytes_cmp_sgn [of "k s" "k t"]
    by (auto simp: sgn_if split: if_splits)
  have strict: "bytes_cmp s u < 0" if "bytes_cmp s t < 0" "bytes_cmp t u < 0" for s t u :: "byte list"
    using that bytes_cmp_trans [of s t u] bytes_cmp_zero [of s u] bytes_cmp_swap [of t s] by fastforce
  show "c x y \<le> 0 \<Longrightarrow> c y z \<le> 0 \<Longrightarrow> c x z \<le> 0"
    unfolding le using strict by (metis le_trans)
qed

interpretation bytes: collation bytes_cmp
  by (rule bytes_lex_collation [where k = "\<lambda>s. s" and l = "\<lambda>s. 0"]) simp

text \<open>BINARY.\<close>

lemma memcmp_take: "length s \<le> j \<Longrightarrow> memcmp s (take j t) = memcmp s t" "length t \<le> j \<Longrightarrow> memcmp (take j s) t = memcmp s t"
proof -
  show "length s \<le> j \<Longrightarrow> memcmp s (take j t) = memcmp s t"
  proof (induction s t arbitrary: j rule: memcmp.induct)
    case (1 x xs y ys)
    then show ?case by (cases j) auto
  qed simp_all
  show "length t \<le> j \<Longrightarrow> memcmp (take j s) t = memcmp s t"
  proof (induction s t arbitrary: j rule: memcmp.induct)
    case (1 x xs y ys)
    then show ?case by (cases j) auto
  qed simp_all
qed

lemma binary_bytes: "sgn (binCollFunc False s t) = bytes_cmp s t"
proof -
  let ?k = "min (length s) (length t)"
  have "memcmp (take ?k s) (take ?k t) = memcmp s t"
    using memcmp_take [of s "length s" t] memcmp_take [of t "length t" s]
      memcmp_take(1) [of s ?k t] memcmp_take(2) [of t ?k s] by (cases "length s \<le> length t") (simp_all add: min_def)
  then show ?thesis using memcmp_bytes [of s t] by (simp add: binCollFunc_def Let_def)
qed

interpretation binary: collation "binCollFunc False"
  by (rule bytes_lex_collation [where k = "\<lambda>s. s" and l = "\<lambda>s. 0"]) (simp add: binary_bytes)

text \<open>NOCASE folds the letters and does not look past a NUL byte, only at the lengths.\<close>

fun nocase_key :: "byte list \<Rightarrow> byte list" where
  "nocase_key [] = []"
| "nocase_key (x # xs) = (if x = 0 then [0] else sqlite3Tolower x # nocase_key xs)"

lemma nocase_loop:
  "nocaseCollatingFunc s t = (let r = strnicmp_loop s t (min (length s) (length t)) in
     if r = 0 then int (length s) - int (length t) else r)"
  by (simp add: nocaseCollatingFunc_def sqlite3_strnicmp_def Let_def del: of_nat_min)

lemma nocase_bytes:
  "sgn (nocaseCollatingFunc s t) = (if nocase_key s \<noteq> nocase_key t then bytes_cmp (nocase_key s) (nocase_key t)
     else sgn (int (length s) - int (length t)))"
  unfolding nocase_loop
proof (induction s t rule: list_induct2')
  case (4 x xs y ys)
  let ?x = "tolower x" and ?y = "tolower y"
  have u: "uint ?x < uint ?y \<longleftrightarrow> unat ?x < unat ?y" "uint ?x = uint ?y \<longleftrightarrow> ?x = ?y"
    by (simp_all add: word_less_alt word_less_nat_alt [symmetric] word_uint_eq_iff)
  show ?case
  proof (cases "x \<noteq> 0 \<and> ?x = ?y")
    case True
    then have "y \<noteq> 0" using tolower_0 by metis
    with True 4 show ?thesis by (simp add: Let_def tolower_eq split del: if_split cong: if_cong)
  next
    case diff: False
    show ?thesis
    proof (cases "?x = ?y")
      case True
      with diff have "x = 0" "y = 0" using tolower_0 by metis+
      then show ?thesis by (simp add: Let_def sgn_if)
    next
      case False
      have "sgn (uint ?x - uint ?y) = (if unat ?x < unat ?y then - 1 else 1)"
        using u False by (simp add: sgn_if) linarith
      moreover have "uint ?x - uint ?y \<noteq> 0" using u(2) False by simp
      moreover have "nocase_key (x # xs) = ?x # (if x = 0 then [] else nocase_key xs)"
        "nocase_key (y # ys) = ?y # (if y = 0 then [] else nocase_key ys)"
        using tolower_0 [of 0] by (simp_all add: tolower_eq)
      ultimately show ?thesis using False by (simp add: Let_def tolower_eq del: nocase_key.simps)
    qed
  qed
qed (simp_all add: Let_def)

interpretation nocase: collation nocaseCollatingFunc
  by (rule bytes_lex_collation) (rule nocase_bytes)

fun sval_bytes :: "sval \<Rightarrow> byte list" where
  "sval_bytes (VText t) = t"
| "sval_bytes (VBlob b) = b"
| "sval_bytes v = []"

text \<open>Values are ordered when texts are, and so are the texts in the encoding of a collating function.\<close>

context collation
begin

lemma value_swap: "sval_cmp cmp w v = - sval_cmp cmp v w"
proof (cases "rank v = rank w")
  case False
  then show ?thesis by (simp add: sval_cmp_def sgn_if)
next
  case True
  have t: "sgn (cmp y x) = - sgn (cmp x y)" for x y by (rule swap)
  from True show ?thesis
  proof (cases v; cases w)
    fix x y assume "v = VText x" and "w = VText y"
    then show ?thesis using swap [of y x] by (simp add: sval_cmp_def)
  next
    fix x y assume "v = VBlob x" and "w = VBlob y"
    then show ?thesis using bytes_cmp_swap [of y x] by (simp add: sval_cmp_def)
  qed (simp_all add: sval_cmp_def sgn_if)
qed

lemma value_le:
  "sval_cmp cmp v w \<le> 0 \<longleftrightarrow> rank v < rank w \<or> rank v = rank w \<and>
     (if rank v = 2 then cmp (sval_bytes v) (sval_bytes w) \<le> 0
      else if rank v = 3 then bytes_cmp (sval_bytes v) (sval_bytes w) \<le> 0
      else num_key v \<le> num_key w)"
proof (cases "rank v = rank w")
  case True
  then show ?thesis by (cases v; cases w) (simp_all add: sval_cmp_def sgn_if)
qed (simp add: sval_cmp_def sgn_if)

lemma value_trans:
  assumes "sval_cmp cmp v w \<le> 0" and "sval_cmp cmp w x \<le> 0"
  shows "sval_cmp cmp v x \<le> 0"
proof (cases "rank v = rank w \<and> rank w = rank x")
  case True
  then show ?thesis using assms unfolding value_le
    by (auto split: if_splits intro: trans_le bytes_cmp_trans)
next
  case False
  then show ?thesis using assms unfolding value_le by auto
qed

sublocale sqlvalue: three_way "sval_cmp cmp"
proof unfold_locales
  show "sgn (sval_cmp cmp w v) = - sgn (sval_cmp cmp v w)" for v w
    unfolding value_swap [of w v] by (simp add: sgn_if)
qed (rule value_trans)

lemma value_three_way: "three_way (sval_cmp cmp)"
  by unfold_locales

end

text \<open>Rows: the first column that differs decides.\<close>

definition column_cmp :: "column \<Rightarrow> sval \<Rightarrow> sval \<Rightarrow> int" where
  "column_cmp c v w = (if fst c then - sval_cmp (snd c) v w else sval_cmp (snd c) v w)"

lemma three_way_minus: "three_way cmp \<Longrightarrow> three_way (\<lambda>x y. - cmp x y)"
proof -
  assume t: "three_way cmp"
  show "three_way (\<lambda>x y. - cmp x y)"
  proof unfold_locales
    show "sgn (- cmp y x) = - sgn (- cmp x y)" for x y
      using three_way.swap [OF t, of y x] by (simp add: sgn_if split: if_splits)
    show "- cmp x y \<le> 0 \<Longrightarrow> - cmp y z \<le> 0 \<Longrightarrow> - cmp x z \<le> 0" for x y z
      using three_way.trans_le [OF t, of z y x] three_way.swap_iff(1) [OF t] by simp
  qed
qed

lemma collation_column: "collation tc \<Longrightarrow> three_way (column_cmp (b, tc))"
  using collation.value_three_way [of tc] three_way_minus [of "sval_cmp tc"]
  by (cases b) (simp_all add: column_cmp_def [abs_def])

lemma record_cmp_Cons:
  "record_cmp 0 (c # cols) (v # vs) (w # ws) =
     (if column_cmp c v w \<noteq> 0 then column_cmp c v w else record_cmp 0 cols vs ws)"
  "record_cmp 0 [] vs ws = 0"
  by (cases c; simp add: record_cmp_def column_cmp_def Let_def)+

lemma record_cmp_swap:
  assumes "list_all (\<lambda>c. three_way (column_cmp c)) cols" and "length cols \<le> length vs" and "length cols \<le> length ws"
  shows "sgn (record_cmp 0 cols ws vs) = - sgn (record_cmp 0 cols vs ws)"
  using assms
proof (induction cols arbitrary: vs ws)
  case (Cons c cols)
  obtain v vs' w ws' where e: "vs = v # vs'" "ws = w # ws'"
    using Cons.prems by (cases vs; cases ws) auto
  have t: "three_way (column_cmp c)" using Cons.prems by simp
  show ?case using Cons.IH [of vs' ws'] Cons.prems three_way.swap [OF t, of w v] three_way.swap_iff(3) [OF t, of v w]
    by (simp add: e record_cmp_Cons)
qed (simp add: record_cmp_Cons)

lemma record_cmp_trans:
  assumes "list_all (\<lambda>c. three_way (column_cmp c)) cols"
    and "length cols \<le> length us" and "length cols \<le> length vs" and "length cols \<le> length ws"
    and "record_cmp 0 cols us vs \<le> 0" and "record_cmp 0 cols vs ws \<le> 0"
  shows "record_cmp 0 cols us ws \<le> 0"
  using assms
proof (induction cols arbitrary: us vs ws)
  case (Cons c cols)
  obtain u us' v vs' w ws' where e: "us = u # us'" "vs = v # vs'" "ws = w # ws'"
    using Cons.prems by (cases us; cases vs; cases ws) auto
  have t: "three_way (column_cmp c)" using Cons.prems by simp
  let ?c = "column_cmp c"
  have le: "?c u v \<le> 0" "?c v w \<le> 0" using Cons.prems(5,6) by (auto simp: e record_cmp_Cons split: if_splits)
  consider "?c u v < 0 \<or> ?c v w < 0" | "?c u v = 0" "?c v w = 0" using le by linarith
  then show ?case
  proof cases
    case 1
    then have "?c u w < 0" using three_way.trans_less [OF t] le by blast
    then show ?thesis by (simp add: e record_cmp_Cons)
  next
    case 2
    then have "?c u w = 0" using three_way.trans_eq [OF t] by blast
    with 2 Cons.IH [of us' vs' ws'] Cons.prems show ?thesis by (simp add: e record_cmp_Cons)
  qed
qed (simp add: record_cmp_Cons)

text \<open>The columns of a key with built-in collations.\<close>

lemma coll_cmp_collation:
  assumes "case coll of None \<Rightarrow> True | Some c \<Rightarrow> collation (xCmp c)"
  shows "collation (coll_cmp enc coll)"
proof (cases coll)
  case None
  then have "coll_cmp enc coll = bytes_cmp" by (simp add: coll_cmp_def fun_eq_iff)
  then show ?thesis by (simp add: bytes.collation_axioms)
next
  case (Some c)
  then have c: "three_way (xCmp c)" using assms by (simp add: collation_def)
  have e: "coll_cmp enc coll = (\<lambda>s t. xCmp c (the (text_in True enc (coll_enc c) s)) (the (text_in True enc (coll_enc c) t)))"
    by (simp add: coll_cmp_def Some fun_eq_iff)
  show ?thesis unfolding e by unfold_locales (rule three_way.swap [OF c], rule three_way.trans_le [OF c])
qed

definition builtin_coll :: "CollSeq option \<Rightarrow> bool" where
  "builtin_coll coll \<longleftrightarrow> (case coll of None \<Rightarrow> True
     | Some c \<Rightarrow> xCmp c = binCollFunc False \<or> xCmp c = nocaseCollatingFunc)"

lemma key_columns_ok:
  assumes "key_ok key" and "list_all builtin_coll (aColl (pKeyInfo key))"
  shows "list_all (\<lambda>c. three_way (column_cmp c)) (key_columns key)"
proof -
  have "collation (coll_cmp (key_enc (pKeyInfo key)) (aColl (pKeyInfo key) ! k))" if "k < nField key" for k
  proof -
    have "builtin_coll (aColl (pKeyInfo key) ! k)"
      using assms(2) key_okD(3) [OF assms(1) that] by (simp add: list_all_length)
    then show ?thesis using binary.collation_axioms nocase.collation_axioms
      by (intro coll_cmp_collation) (auto simp: builtin_coll_def split: option.splits)
  qed
  then show ?thesis by (auto simp: list_all_iff key_columns_def intro: collation_column)
qed

text \<open>RTRIM does not keep the contract.\<close>

lemma rtrim_not_transitive:
  "binCollFunc True [97, 32] [97] = 0 \<and> binCollFunc True [97] [97, 9] < 0 \<and> binCollFunc True [97, 32] [97, 9] > 0"
  by code_simp

subsection \<open>Properties\<close>

text \<open>
  Both builds of \<open>sqlite3IntFloatCompare\<close>, with a wide \<open>long double\<close> and without,
  compare a 64-bit integer with a double exactly: the sign of the difference of the two real
  numbers, whatever rounding \<open>(double)i\<close> does above \<open>2 ^ 53\<close>.
\<close>

theorem int_float_compare_exact:
  assumes "in_int64 i" and "\<not> sqlite3IsNaN r"
  shows "sqlite3IntFloatCompare quad i r = sgn (scaled_int i - scaled r)"
  by (rule int_float_exact [OF assms])

text \<open>\<open>2 ^ 53 + 1\<close> is not a double, and more than the double \<open>2 ^ 53\<close>.\<close>

theorem int_float_compare_witness:
  "sqlite3IntFloatCompare False (2 ^ 53 + 1) 0x4340000000000000
     = sgn (scaled_int (2 ^ 53 + 1) - scaled 0x4340000000000000)
   \<and> round_53 (2 ^ 53 + 1) = 2 ^ 53"
proof
  have nan: "\<not> sqlite3IsNaN 0x4340000000000000" by code_simp
  show "sqlite3IntFloatCompare False (2 ^ 53 + 1) 0x4340000000000000
     = sgn (scaled_int (2 ^ 53 + 1) - scaled 0x4340000000000000)"
    by (rule int_float_compare_exact [OF _ nan]) (simp add: in_int64_def)
  have "floorlog 2 9007199254740993 \<le> 54" by (rule floorlog_leI) simp_all
  moreover have "54 \<le> floorlog 2 9007199254740993" by (rule floorlog_geI) simp_all
  ultimately have "floorlog 2 9007199254740993 = 54" by simp
  then show "round_53 (2 ^ 53 + 1) = 2 ^ 53" by (simp add: round_53_def Let_def)
qed

text \<open>
  \<open>sqlite3MemCompare\<close> orders the values of two cells as SQL does: NULL before numbers,
  integers and reals by their exact values, texts by the collating function in the encoding
  it wants, blobs by their bytes, the zero bytes that are only counted included.
\<close>

theorem mem_compare_values:
  assumes "key_cell enc c" and "key_cell enc d" and "is_enc enc" and "coll_ok coll"
  shows "sgn (sqlite3MemCompare quad (\<lambda>i. True) c d coll)
    = sval_cmp (coll_cmp enc coll) (cell_value c) (cell_value d)"
  by (rule mem_compare_exact [OF assms])

text \<open>A key of two columns, an integer in descending order and a text under NOCASE.\<close>

definition sample_nocase :: CollSeq where
  "sample_nocase = \<lparr>coll_enc = 1, xCmp = nocaseCollatingFunc\<rparr>"

definition sample_int :: "int \<Rightarrow> Cell" where
  "sample_int i = \<lparr>mem_z = [], mem_n = 0, mem_enc = 1, mem_flags = 4, mem_i = i, mem_r = 0,
     mem_nZero = 0, uTemp = 0\<rparr>"

definition sample_text :: "byte list \<Rightarrow> Cell" where
  "sample_text z = \<lparr>mem_z = z, mem_n = length z, mem_enc = 1, mem_flags = 2, mem_i = 0, mem_r = 0,
     mem_nZero = 0, uTemp = 0\<rparr>"

definition sample_probe :: UnpackedRecord where
  "sample_probe = \<lparr>pKeyInfo = \<lparr>key_enc = 1, nKeyField = 2, nAllField = 2, aSortOrder = [True, False],
       aColl = [None, Some sample_nocase]\<rparr>,
     aMem = [sample_int 5, sample_text [97, 98]], nField = 2, default_rc = 0, errCode = 0, r1 = 0,
     r2 = 0, eqSeen = False\<rparr>"

definition sample_fields :: "field list" where
  "sample_fields = [(1, [5]), (17, [65, 67])]"

lemma sample_cells_ok: "key_cell 1 (sample_int 5)" "key_cell 1 (sample_text [97, 98])" "is_enc 1"
    "coll_ok (Some sample_nocase)" "coll_ok None"
  by (simp_all add: key_cell_def sample_int_def sample_text_def cell_ok_def blob_ok_def has_flag_def
      mem_flag_defs in_int64_def is_enc_def coll_ok_def sample_nocase_def enc_defs)

lemma sample_probe_ok: "key_ok sample_probe"
  using sample_cells_ok by (simp add: key_ok_def sample_probe_def)

lemma sample_fields_ok: "list_all stored_field sample_fields" "sample_fields \<noteq> []" "length sample_fields \<le> 32767"
    "length (record_bytes sample_fields) = 6"
proof -
  show "list_all stored_field sample_fields" "sample_fields \<noteq> []" "length sample_fields \<le> 32767"
    by (simp_all add: sample_fields_def stored_field_def field_ok_def)
  show "length (record_bytes sample_fields) = 6" by code_simp
qed

theorem mem_compare_witness:
  "sgn (sqlite3MemCompare False (\<lambda>i. True) (sample_int 5) (sample_text [97, 98]) (Some sample_nocase)) = - 1"
  unfolding mem_compare_values [OF sample_cells_ok(1-4), where quad = False]
  by (simp add: cell_value_def sample_int_def sample_text_def has_flag_def mem_flag_defs sval_cmp_def)

text \<open>
  C29. \<open>sqlite3VdbeRecordCompare\<close>, which never unpacks the record, compares the stored bytes
  with the key column by column like the values they stand for: the first column that differs
  decides, turned round where the column is in descending order, and if none does the result
  is the default of the key, which notes that the rows were equal.
\<close>

theorem record_compare_values:
  assumes "key_ok key" and "list_all stored_field fs" and "fs \<noteq> []" and "length fs \<le> 32767"
    and "bytes_at m p (record_bytes fs)" and "length (record_bytes fs) < 2 ^ 31"
  shows "compared key (first_diff (key_columns key) (map field_value fs) (key_values key))
    (sqlite3VdbeRecordCompare quad (\<lambda>i j. True) (of_nat (length (record_bytes fs))) m p key)"
  by (rule record_compare [OF assms])

lemma sample_diff: "first_diff (key_columns sample_probe) (map field_value sample_fields) (key_values sample_probe) = Some 1"
  by code_simp

theorem record_compare_witness:
  "\<exists>rc. sqlite3VdbeRecordCompare True (\<lambda>i j. True) 6 (put_bytes (\<lambda>q. 0) 50 (record_bytes sample_fields)) 50
      sample_probe = Some (rc, sample_probe) \<and> sgn rc = 1"
  using record_compare_values [OF sample_probe_ok sample_fields_ok(1-3) bytes_at_put, where quad = True
      and m1 = "\<lambda>q. 0" and p = 50] sample_fields_ok(4) sample_diff
  by (simp add: compared_def)



text \<open>
  C31. Under the built-in collations BINARY and NOCASE the rows of an index are ordered: the
  comparison of two rows turns its sign with its arguments and is transitive, columns in
  descending order included, so that the pages of an index can be sorted by it.
\<close>

theorem rows_ordered:
  assumes "key_ok key" and "list_all builtin_coll (aColl (pKeyInfo key))"
    and "nField key \<le> length us" and "nField key \<le> length vs" and "nField key \<le> length ws"
  shows "sgn (record_cmp 0 (key_columns key) vs us) = - sgn (record_cmp 0 (key_columns key) us vs)
    \<and> (record_cmp 0 (key_columns key) us vs \<le> 0 \<longrightarrow> record_cmp 0 (key_columns key) vs ws \<le> 0 \<longrightarrow>
       record_cmp 0 (key_columns key) us ws \<le> 0)"
proof -
  note c = key_columns_ok [OF assms(1,2)]
  have "length (key_columns key) = nField key" by (simp add: key_columns_def)
  then show ?thesis using record_cmp_swap [OF c, of us vs] record_cmp_trans [OF c, of us vs ws] assms(3-5)
    by simp
qed

theorem rows_ordered_witness:
  "record_cmp 0 (key_columns sample_probe) [VInt 7, VText [98]] [VInt 5, VText [66]] \<le> 0
   \<and> record_cmp 0 (key_columns sample_probe) [VInt 5, VText [66]] [VInt 5, VText [99]] \<le> 0
   \<and> record_cmp 0 (key_columns sample_probe) [VInt 7, VText [98]] [VInt 5, VText [99]] \<le> 0"
proof -
  have b: "list_all builtin_coll (aColl (pKeyInfo sample_probe))"
    by (simp add: builtin_coll_def sample_probe_def sample_nocase_def)
  have n: "nField sample_probe \<le> length [VInt 7, VText [98]]" "nField sample_probe \<le> length [VInt 5, VText [66]]"
    "nField sample_probe \<le> length [VInt 5, VText [99]]" by (simp_all add: sample_probe_def)
  have "record_cmp 0 (key_columns sample_probe) [VInt 7, VText [98]] [VInt 5, VText [66]] \<le> 0"
    "record_cmp 0 (key_columns sample_probe) [VInt 5, VText [66]] [VInt 5, VText [99]] \<le> 0"
    by code_simp+
  with rows_ordered [OF sample_probe_ok b n] show ?thesis by blast
qed

end
