(* ===== verification/WalIndex.thy ===== *)
theory WalIndex
  imports Prelude
begin

section \<open>The index of the write-ahead log\<close>

text \<open>
  The wal-index (\<open>wal.c\<close>) finds the frame of the log that holds the newest copy of a page. It
  is a sequence of pages in memory shared by all connections; each has the page numbers of up
  to 4096 frames (\<open>aPgno\<close>) and an open-addressing hash table of 8192 slots over them
  (\<open>aHash\<close>). One writer appends and rolls back while readers search, without a lock between
  them: a reader is protected by ignoring what lies behind the end of the log at the time its
  transaction started.

  The model keeps the pages as functions of their indices, those of \<open>WalHashLoc\<close>, in a state
  that all connections share, and a record \<open>Wal\<close> for a connection. A search takes the shared
  memory at each of its accesses as an argument, so that a writer may move between any two of
  them. Frame numbers are natural numbers (a log has fewer than \<open>2 ^ 31\<close> frames); page numbers
  are words, since their hash wraps.
\<close>

subsection \<open>Constants and state\<close>

definition HASHTABLE_NPAGE :: nat where "HASHTABLE_NPAGE = 4096"
definition HASHTABLE_HASH_1 :: u32 where "HASHTABLE_HASH_1 = 383"
definition HASHTABLE_NSLOT :: nat where "HASHTABLE_NSLOT = HASHTABLE_NPAGE * 2"
definition WALINDEX_HDR_SIZE :: nat where "WALINDEX_HDR_SIZE = 136"
definition HASHTABLE_NPAGE_ONE :: nat where
  "HASHTABLE_NPAGE_ONE = HASHTABLE_NPAGE - WALINDEX_HDR_SIZE div 4"

lemmas wal_sizes = HASHTABLE_NPAGE_def HASHTABLE_HASH_1_def HASHTABLE_NSLOT_def WALINDEX_HDR_SIZE_def
  HASHTABLE_NPAGE_ONE_def

record WalPage =
  aPgno :: "nat \<Rightarrow> u32"
  aHash :: "nat \<Rightarrow> nat"

text \<open>The header of the log as a connection knows it; the checksum over it is taken when it is written.\<close>

record WalIndexHdr =
  iChange :: u32
  isInit :: bool
  bigEndCksum :: bool
  hdr_szPage :: u16
  mxFrame :: nat
  nPage :: u32
  aFrameCksum :: "u32 \<times> u32"
  aSalt :: "u32 \<times> u32"

text \<open>
  The shared memory: the header of the last transaction, what \<open>WalCkptInfo\<close> says of checkpoints
  and readers, and the pages.
\<close>

record WalShm =
  live_hdr :: WalIndexHdr
  nBackfill :: nat
  nBackfillAttempted :: nat
  aReadMark :: "nat list"
  wal_pages :: "nat \<Rightarrow> WalPage"

datatype wal_mode = WAL_NORMAL_MODE | WAL_EXCLUSIVE_MODE | WAL_HEAPMEMORY_MODE

text \<open>A connection; \<open>apWiData\<close> says which pages of the index it has a pointer to.\<close>

record Wal =
  apWiData :: "bool list"
  readLock :: int
  exclusiveMode :: wal_mode
  writeLock :: bool
  shm_rdonly :: bool
  bShmUnreliable :: bool
  hdr :: WalIndexHdr
  minFrame :: nat
  iReCksum :: nat
  nCkpt :: u32
  truncateOnCommit :: bool
  wal_szPage :: nat

text \<open>
  What the allocator and the file system answer: whether the array of pointers can grow,
  whether a page can be allocated, and the result code of \<open>xShmMap\<close> for a page with whether
  it returned a pointer.
\<close>

record shm_env =
  realloc_ok :: bool
  malloc_ok :: "nat \<Rightarrow> bool"
  shm_map :: "nat \<Rightarrow> int \<times> bool"

subsection \<open>Pages of the index\<close>

definition walIndexPageRealloc :: "shm_env \<Rightarrow> Wal \<Rightarrow> nat \<Rightarrow> int \<times> bool \<times> Wal" where
  "walIndexPageRealloc env w iPage =
     (if length (apWiData w) \<le> iPage \<and> \<not> realloc_ok env then (SQLITE_NOMEM, False, w)
      else
        let ap = (if length (apWiData w) \<le> iPage
                  then apWiData w @ replicate (iPage + 1 - length (apWiData w)) False else apWiData w)
        in if exclusiveMode w = WAL_HEAPMEMORY_MODE then
             (if malloc_ok env iPage then SQLITE_OK else SQLITE_NOMEM, malloc_ok env iPage,
              w\<lparr>apWiData := ap[iPage := malloc_ok env iPage]\<rparr>)
           else
             (case shm_map env iPage of (rc, p) \<Rightarrow>
               let ro = (rc AND 0xff = SQLITE_READONLY) in
               (if ro \<and> rc = SQLITE_READONLY then SQLITE_OK else rc, p,
                w\<lparr>apWiData := ap[iPage := p], shm_rdonly := shm_rdonly w \<or> ro\<rparr>)))"

definition walIndexPage :: "shm_env \<Rightarrow> Wal \<Rightarrow> nat \<Rightarrow> int \<times> bool \<times> Wal" where
  "walIndexPage env w iPage =
     (if length (apWiData w) \<le> iPage \<or> \<not> apWiData w ! iPage then walIndexPageRealloc env w iPage
      else (SQLITE_OK, True, w))"

definition walHash :: "u32 \<Rightarrow> nat" where
  "walHash iPage = unat (iPage * HASHTABLE_HASH_1 AND of_nat (HASHTABLE_NSLOT - 1))"

definition walNextHash :: "nat \<Rightarrow> nat" where
  "walNextHash iPriorHash = (iPriorHash + 1) AND (HASHTABLE_NSLOT - 1)"

definition iZero_of :: "nat \<Rightarrow> nat" where
  "iZero_of iHash = (if iHash = 0 then 0 else HASHTABLE_NPAGE_ONE + (iHash - 1) * HASHTABLE_NPAGE)"

text \<open>
  The result code, whether there is a pointer, and \<open>iZero\<close>. The caller goes on when the code
  is \<open>SQLITE_OK\<close>, and then uses the pointer without looking at it.
\<close>

definition walHashGet :: "shm_env \<Rightarrow> Wal \<Rightarrow> nat \<Rightarrow> int \<times> bool \<times> nat \<times> Wal" where
  "walHashGet env w iHash =
     (case walIndexPage env w iHash of (rc, p, w) \<Rightarrow> (rc, p, iZero_of iHash, w))"

definition walFramePage :: "nat \<Rightarrow> nat" where
  "walFramePage iFrame = (iFrame + HASHTABLE_NPAGE - HASHTABLE_NPAGE_ONE - 1) div HASHTABLE_NPAGE"

definition walFramePgno :: "WalShm \<Rightarrow> nat \<Rightarrow> u32" where
  "walFramePgno s iFrame =
     (let iHash = walFramePage iFrame in
      if iHash = 0 then aPgno (wal_pages s 0) iFrame
      else aPgno (wal_pages s iHash) ((iFrame - 1 - HASHTABLE_NPAGE_ONE) mod HASHTABLE_NPAGE + 1))"

definition page_frames :: "nat \<Rightarrow> nat" where
  "page_frames iHash = (if iHash = 0 then HASHTABLE_NPAGE_ONE else HASHTABLE_NPAGE)"

subsection \<open>Appending and rolling back\<close>

text \<open>The loop over the slots and the \<open>memset\<close> behind it.\<close>

definition cleanup_page :: "nat \<Rightarrow> nat \<Rightarrow> WalPage \<Rightarrow> WalPage" where
  "cleanup_page iHash iLimit p =
     p\<lparr>aHash := (\<lambda>i. if i < HASHTABLE_NSLOT \<and> aHash p i > iLimit then 0 else aHash p i),
       aPgno := (\<lambda>j. if iLimit < j \<and> j \<le> page_frames iHash then 0 else aPgno p j)\<rparr>"

text \<open>\<open>None\<close>: the page could not be mapped, and the code uses a location that was never set.\<close>

definition walCleanupHash :: "shm_env \<Rightarrow> Wal \<Rightarrow> WalShm \<Rightarrow> (Wal \<times> WalShm) option" where
  "walCleanupHash env w s =
     (if mxFrame (hdr w) = 0 then Some (w, s)
      else
        let h = walFramePage (mxFrame (hdr w)) in
        case walHashGet env w h of (rc, p, iZero, w) \<Rightarrow>
          if rc \<noteq> SQLITE_OK \<or> \<not> p then None
          else Some (w, s\<lparr>wal_pages := (wal_pages s)(h :=
                 cleanup_page h (mxFrame (hdr w) - iZero) (wal_pages s h))\<rparr>))"

definition zero_page :: "nat \<Rightarrow> WalPage \<Rightarrow> WalPage" where
  "zero_page iHash p =
     p\<lparr>aPgno := (\<lambda>j. if 1 \<le> j \<and> j \<le> page_frames iHash then 0 else aPgno p j),
       aHash := (\<lambda>i. if i < HASHTABLE_NSLOT then 0 else aHash p i)\<rparr>"

fun append_slot :: "WalPage \<Rightarrow> nat \<Rightarrow> nat \<Rightarrow> nat option" where
  "append_slot p nCollide iKey =
     (if aHash p iKey = 0 then Some iKey
      else case nCollide of 0 \<Rightarrow> None | Suc k \<Rightarrow> append_slot p k (walNextHash iKey))"

definition walIndexAppend :: "shm_env \<Rightarrow> Wal \<Rightarrow> WalShm \<Rightarrow> nat \<Rightarrow> u32 \<Rightarrow> (int \<times> Wal \<times> WalShm) option" where
  "walIndexAppend env w s iFrame iPage =
     (let h = walFramePage iFrame in
      case walHashGet env w h of (rc, p, iZero, w) \<Rightarrow>
        if rc \<noteq> SQLITE_OK then Some (rc, w, s)
        else if \<not> p then None
        else
          let idx = iFrame - iZero;
              s = (if idx = 1 then s\<lparr>wal_pages := (wal_pages s)(h := zero_page h (wal_pages s h))\<rparr> else s)
          in case (if aPgno (wal_pages s h) idx \<noteq> 0 then walCleanupHash env w s else Some (w, s)) of
               None \<Rightarrow> None
             | Some (w, s) \<Rightarrow>
                 (case append_slot (wal_pages s h) idx (walHash iPage) of
                    None \<Rightarrow> Some (SQLITE_CORRUPT, w, s)
                  | Some iKey \<Rightarrow>
                      (let q = wal_pages s h;
                           q = q\<lparr>aPgno := (aPgno q)(idx := iPage), aHash := (aHash q)(iKey := idx)\<rparr>
                       in Some (SQLITE_OK, w, s\<lparr>wal_pages := (wal_pages s)(h := q)\<rparr>))))"

declare append_slot.simps [simp del]

subsection \<open>Transactions\<close>

text \<open>The end of \<open>sqlite3WalFrames\<close>: the frames written to the file go into the index.\<close>

fun index_frames :: "shm_env \<Rightarrow> Wal \<Rightarrow> WalShm \<Rightarrow> nat \<Rightarrow> u32 list \<Rightarrow> (int \<times> nat \<times> Wal \<times> WalShm) option" where
  "index_frames env w s iFrame [] = Some (SQLITE_OK, iFrame, w, s)"
| "index_frames env w s iFrame (pgno # pgnos) =
     (case walIndexAppend env w s (iFrame + 1) pgno of
        None \<Rightarrow> None
      | Some (rc, w, s) \<Rightarrow>
          if rc \<noteq> SQLITE_OK then Some (rc, iFrame + 1, w, s) else index_frames env w s (iFrame + 1) pgnos)"

definition walIndexWriteHdr :: "Wal \<Rightarrow> WalShm \<Rightarrow> Wal \<times> WalShm" where
  "walIndexWriteHdr w s =
     (let w = w\<lparr>hdr := (hdr w)\<lparr>isInit := True\<rparr>\<rparr> in (w, s\<lparr>live_hdr := hdr w\<rparr>))"

text \<open>A page of \<open>pList\<close> is given by its \<open>PGHDR_WAL_APPEND\<close> flag and its number.\<close>

definition frames_index :: "shm_env \<Rightarrow> Wal \<Rightarrow> WalShm \<Rightarrow> (bool \<times> u32) list \<Rightarrow> nat \<Rightarrow> u32 \<Rightarrow> bool \<Rightarrow> u32
    \<Rightarrow> (int \<times> Wal \<times> WalShm) option" where
  "frames_index env w s pList nExtra szPage isCommit nTruncate =
     (let pgnos = map snd (filter fst pList) in
      case index_frames env w s (mxFrame (hdr w)) (pgnos @ replicate nExtra (last pgnos)) of
        None \<Rightarrow> None
      | Some (rc, iFrame, w, s) \<Rightarrow>
          if rc \<noteq> SQLITE_OK then Some (rc, w, s)
          else
            let w = w\<lparr>hdr := (hdr w)\<lparr>hdr_szPage := ucast ((szPage AND 0xff00) OR drop_bit 16 szPage), mxFrame := iFrame\<rparr>\<rparr>;
                w = (if isCommit then w\<lparr>hdr := (hdr w)\<lparr>iChange := iChange (hdr w) + 1, nPage := nTruncate\<rparr>\<rparr> else w);
                (w, s) = (if isCommit then walIndexWriteHdr w s else (w, s))
            in Some (SQLITE_OK, w, s))"

text \<open>The log starts anew, when all of it is in the database and no reader uses it.\<close>

definition READMARK_NOT_USED :: nat where "READMARK_NOT_USED = 0xffffffff"

definition walRestartHdr :: "Wal \<Rightarrow> WalShm \<Rightarrow> u32 \<Rightarrow> Wal \<times> WalShm" where
  "walRestartHdr w s salt1 =
     (let w = w\<lparr>nCkpt := nCkpt w + 1, hdr := (hdr w)\<lparr>mxFrame := 0, aSalt := (fst (aSalt (hdr w)) + 1, salt1)\<rparr>\<rparr>;
          (w, s) = walIndexWriteHdr w s
      in (w, s\<lparr>nBackfill := 0, nBackfillAttempted := 0,
               aReadMark := (case aReadMark s of m0 # m1 # ms \<Rightarrow> m0 # 0 # map (\<lambda>_. READMARK_NOT_USED) ms | ms \<Rightarrow> ms)\<rparr>))"

text \<open>
  A transaction can only be written on top of the last one; \<open>lock\<close> is the result of the request
  for the lock of the writer.
\<close>

definition SQLITE_BUSY_SNAPSHOT :: int where "SQLITE_BUSY_SNAPSHOT = (5 OR push_bit 8 2)"

definition sqlite3WalBeginWriteTransaction :: "bool \<Rightarrow> int \<Rightarrow> Wal \<Rightarrow> WalShm \<Rightarrow> int \<times> Wal" where
  "sqlite3WalBeginWriteTransaction readOnly lock w s =
     (if readOnly then (SQLITE_READONLY, w)
      else if lock \<noteq> SQLITE_OK then (lock, w)
      else if hdr w \<noteq> live_hdr s then (SQLITE_BUSY_SNAPSHOT, w\<lparr>writeLock := False\<rparr>)
      else (SQLITE_OK, w\<lparr>writeLock := True\<rparr>))"

definition sqlite3WalEndWriteTransaction :: "Wal \<Rightarrow> int \<times> Wal" where
  "sqlite3WalEndWriteTransaction w =
     (SQLITE_OK, if writeLock w then w\<lparr>writeLock := False, iReCksum := 0, truncateOnCommit := False\<rparr> else w)"

text \<open>The callbacks of an undo, until one fails, and the pages they were made for.\<close>

fun undo_loop :: "WalShm \<Rightarrow> (u32 \<Rightarrow> int) \<Rightarrow> nat \<Rightarrow> nat \<Rightarrow> int \<times> u32 list" where
  "undo_loop s xUndo iFrame 0 = (SQLITE_OK, [])"
| "undo_loop s xUndo iFrame (Suc k) =
     (let pgno = walFramePgno s iFrame; rc = xUndo pgno in
      if rc \<noteq> SQLITE_OK then (rc, [pgno])
      else case undo_loop s xUndo (iFrame + 1) k of (rc, pgnos) \<Rightarrow> (rc, pgno # pgnos))"

definition sqlite3WalUndo :: "shm_env \<Rightarrow> (u32 \<Rightarrow> int) \<Rightarrow> Wal \<Rightarrow> WalShm
    \<Rightarrow> (int \<times> u32 list \<times> Wal \<times> WalShm) option" where
  "sqlite3WalUndo env xUndo w s =
     (if writeLock w then
        (let iMax = mxFrame (hdr w);
             w = w\<lparr>hdr := live_hdr s\<rparr>;
             (rc, pgnos) = undo_loop s xUndo (mxFrame (hdr w) + 1) (iMax - mxFrame (hdr w))
         in case (if iMax \<noteq> mxFrame (hdr w) then walCleanupHash env w s else Some (w, s)) of
              None \<Rightarrow> None
            | Some (w, s) \<Rightarrow> Some (rc, pgnos, w, s))
      else Some (SQLITE_OK, [], w, s))"

type_synonym wal_savepoint = "nat \<times> u32 \<times> u32 \<times> u32"

definition sqlite3WalSavepoint :: "Wal \<Rightarrow> wal_savepoint" where
  "sqlite3WalSavepoint w =
     (mxFrame (hdr w), fst (aFrameCksum (hdr w)), snd (aFrameCksum (hdr w)), nCkpt w)"

definition sqlite3WalSavepointUndo :: "shm_env \<Rightarrow> Wal \<Rightarrow> WalShm \<Rightarrow> wal_savepoint
    \<Rightarrow> (wal_savepoint \<times> Wal \<times> WalShm) option" where
  "sqlite3WalSavepointUndo env w s aWalData =
     (case aWalData of (frame, s1, s2, ckpt) \<Rightarrow>
       let (frame, ckpt) = (if ckpt \<noteq> nCkpt w then (0, nCkpt w) else (frame, ckpt)) in
       case (if frame < mxFrame (hdr w)
             then walCleanupHash env (w\<lparr>hdr := (hdr w)\<lparr>mxFrame := frame, aFrameCksum := (s1, s2)\<rparr>\<rparr>) s
             else Some (w, s)) of
         None \<Rightarrow> None
       | Some (w, s) \<Rightarrow> Some ((frame, s1, s2, ckpt), w, s))"

definition sqlite3WalDbsize :: "Wal option \<Rightarrow> u32" where
  "sqlite3WalDbsize pWal = (case pWal of None \<Rightarrow> 0 | Some w \<Rightarrow> if readLock w \<ge> 0 then nPage (hdr w) else 0)"

subsection \<open>Searching\<close>

text \<open>
  The loop over the slots of one table. \<open>rd t\<close> is the page at the \<open>t\<close>-th access: a slot is read
  to see whether it is used, again for the number of the frame, and again for the number of
  the page. \<open>None\<close> is the answer \<open>SQLITE_CORRUPT\<close>.
\<close>

fun find_loop :: "(nat \<Rightarrow> WalPage) \<Rightarrow> nat \<Rightarrow> nat \<Rightarrow> nat \<Rightarrow> nat \<Rightarrow> u32 \<Rightarrow> nat \<Rightarrow> nat \<Rightarrow> nat \<Rightarrow> nat option" where
  "find_loop rd iLast iMin iZero t pgno nCollide iKey iRead =
     (if aHash (rd t) iKey = 0 then Some iRead
      else
        let iFrame = aHash (rd (t + 1)) iKey + iZero;
            iRead = (if iFrame \<le> iLast \<and> iFrame \<ge> iMin
                        \<and> aPgno (rd (t + 2)) (aHash (rd (t + 2)) iKey) = pgno
                     then iFrame else iRead)
        in case nCollide of 0 \<Rightarrow> None
           | Suc k \<Rightarrow> find_loop rd iLast iMin iZero (t + 3) pgno k (walNextHash iKey) iRead)"

declare find_loop.simps [simp del]

text \<open>
  The tables from the newest to that of \<open>minFrame\<close>. \<open>None\<close> is the use of a pointer that
  \<open>walHashGet\<close> did not set.
\<close>

function find_hashes :: "shm_env \<Rightarrow> (nat \<Rightarrow> nat \<Rightarrow> WalPage) \<Rightarrow> nat \<Rightarrow> u32 \<Rightarrow> nat \<Rightarrow> nat \<Rightarrow> Wal
    \<Rightarrow> (int \<times> nat \<times> Wal) option" where
  "find_hashes env rd iLast pgno iMinHash iHash w =
     (if iHash < iMinHash then Some (SQLITE_OK, 0, w)
      else case walHashGet env w iHash of (rc, p, iZero, w) \<Rightarrow>
        if rc \<noteq> SQLITE_OK then Some (rc, 0, w)
        else if \<not> p then None
        else case find_loop (rd iHash) iLast (minFrame w) iZero 0 pgno HASHTABLE_NSLOT (walHash pgno) 0 of
          None \<Rightarrow> Some (SQLITE_CORRUPT, 0, w)
        | Some iRead \<Rightarrow>
            if iRead \<noteq> 0 then Some (SQLITE_OK, iRead, w)
            else if iHash = 0 then Some (SQLITE_OK, 0, w)
            else find_hashes env rd iLast pgno iMinHash (iHash - 1) w)"
  by auto
termination find_hashes
  by (relation "measure (\<lambda>(e, rd, l, p, m, i, w). i)") auto

declare find_hashes.simps [simp del]

text \<open>\<open>rd h t\<close>: page \<open>h\<close> of the index at the \<open>t\<close>-th access to it.\<close>

definition sqlite3WalFindFrame :: "shm_env \<Rightarrow> (nat \<Rightarrow> nat \<Rightarrow> WalPage) \<Rightarrow> Wal \<Rightarrow> u32 \<Rightarrow> (int \<times> nat \<times> Wal) option" where
  "sqlite3WalFindFrame env rd w pgno =
     (let iLast = mxFrame (hdr w) in
      if iLast = 0 \<or> (readLock w = 0 \<and> \<not> bShmUnreliable w) then Some (SQLITE_OK, 0, w)
      else find_hashes env rd iLast pgno (walFramePage (minFrame w)) (walFramePage iLast) w)"

subsection \<open>Places of frames\<close>

lemma slot_num [simp]: "HASHTABLE_NSLOT = 8192"
  by (simp add: wal_sizes)

lemma walHash_less: "walHash p < 8192"
proof -
  have "x AND 0x1fff = take_bit 13 x" for x :: u32 using take_bit_eq_mask [of 13 x] by (simp add: mask_eq_exp_minus_1)
  then have "walHash p = unat (take_bit 13 (p * HASHTABLE_HASH_1))" by (simp add: walHash_def)
  also have "\<dots> < 2 ^ 13" unfolding unsigned_take_bit_eq by (rule take_bit_nat_less_exp)
  finally show ?thesis by simp
qed

lemma walNextHash_mod: "walNextHash i = (i + 1) mod 8192"
proof -
  have "(i + 1) AND mask 13 = (i + 1) mod 2 ^ 13" by (simp only: take_bit_eq_mod flip: take_bit_eq_mask)
  then show ?thesis by (simp add: walNextHash_def mask_eq_exp_minus_1)
qed

text \<open>The slot probed after \<open>d\<close> collisions.\<close>

definition probe :: "u32 \<Rightarrow> nat \<Rightarrow> nat" where
  "probe pgno d = cyc 8192 (walHash pgno) d"

lemma probe_simps [simp]: "probe p 0 = walHash p" "probe p d < 8192" "walNextHash (probe p d) = probe p (Suc d)"
  using walHash_less [of p] by (simp_all add: probe_def cyc_0 walNextHash_mod)

lemma probe_inj: "probe p d = probe p e \<Longrightarrow> d < 8192 \<Longrightarrow> e < 8192 \<Longrightarrow> d = e"
  unfolding probe_def by (rule cyc_inj)

lemma probe_surj: "i < 8192 \<Longrightarrow> \<exists>d < 8192. probe p d = i"
  unfolding probe_def by (rule cyc_surj) simp_all

lemma page_frames_pos [simp]: "0 < page_frames h" "page_frames h \<le> 4096"
  by (simp_all add: page_frames_def wal_sizes)

lemma iZero_Suc: "iZero_of (Suc h) = iZero_of h + page_frames h"
  by (cases h) (simp_all add: iZero_of_def page_frames_def)

lemma iZero_mono: "h \<le> k \<Longrightarrow> iZero_of h \<le> iZero_of k"
  by (rule lift_Suc_mono_le) (simp_all add: iZero_Suc)

lemma iZero_0 [simp]: "iZero_of 0 = 0"
  by (simp add: iZero_of_def)

lemma walFramePage_iff:
  assumes "0 < f"
  shows "walFramePage f = h \<longleftrightarrow> iZero_of h < f \<and> f \<le> iZero_of h + page_frames h"
proof -
  have "walFramePage f = h \<longleftrightarrow> h * 4096 \<le> f + 33 \<and> f + 33 < (h + 1) * 4096"
    unfolding walFramePage_def wal_sizes using div_nat_eqI [of 4096 h "f + 33"] by auto
  then show ?thesis using assms by (cases h) (auto simp: iZero_of_def page_frames_def wal_sizes)
qed

lemma frame_place:
  assumes "0 < f"
  shows "iZero_of (walFramePage f) < f" and "f \<le> iZero_of (walFramePage f) + page_frames (walFramePage f)"
  using walFramePage_iff [OF assms, of "walFramePage f"] by simp_all

lemma walFramePage_mono: "f \<le> g \<Longrightarrow> walFramePage f \<le> walFramePage g"
  unfolding walFramePage_def by (intro div_le_mono) simp

subsection \<open>One table\<close>

text \<open>
  The entries of the first \<open>l\<close> frames of a table are in place: frame \<open>j\<close> of page \<open>pg j\<close> after
  \<open>D j\<close> collisions, all of them with older frames. Other slots may hold anything newer.
\<close>

definition placed :: "(nat \<Rightarrow> nat) \<Rightarrow> (nat \<Rightarrow> u32) \<Rightarrow> nat \<Rightarrow> WalPage \<Rightarrow> bool" where
  "placed D pg l p \<longleftrightarrow>
     (\<forall>j. 1 \<le> j \<and> j \<le> l \<longrightarrow> D j < 8192 \<and> aPgno p j = pg j \<and> aHash p (probe (pg j) (D j)) = j
        \<and> (\<forall>e < D j. 0 < aHash p (probe (pg j) e) \<and> aHash p (probe (pg j) e) < j))
     \<and> (\<forall>i < 8192. 0 < aHash p i \<and> aHash p i \<le> l \<longrightarrow> i = probe (pg (aHash p i)) (D (aHash p i)))"

lemma placedD:
  assumes "placed D pg l p" and "1 \<le> j" and "j \<le> l"
  shows "D j < 8192" "aPgno p j = pg j" "aHash p (probe (pg j) (D j)) = j"
    "e < D j \<Longrightarrow> 0 < aHash p (probe (pg j) e)" "e < D j \<Longrightarrow> aHash p (probe (pg j) e) < j"
  using assms by (auto simp: placed_def)

lemma placed_slot:
  "placed D pg l p \<Longrightarrow> i < 8192 \<Longrightarrow> 0 < aHash p i \<Longrightarrow> aHash p i \<le> l \<Longrightarrow> i = probe (pg (aHash p i)) (D (aHash p i))"
  by (simp add: placed_def)

lemma placed_le: "placed D pg l p \<Longrightarrow> k \<le> l \<Longrightarrow> placed D pg k p"
  by (simp add: placed_def)

lemma placed_0 [simp]: "placed D pg 0 p"
  by (simp add: placed_def)

text \<open>A table with exactly the frames \<open>1\<close> to \<open>k\<close>.\<close>

definition indexed :: "(nat \<Rightarrow> u32) \<Rightarrow> nat \<Rightarrow> nat \<Rightarrow> WalPage \<Rightarrow> bool" where
  "indexed pg k h p \<longleftrightarrow> (\<exists>D. placed D pg k p) \<and> k \<le> page_frames h \<and> (\<forall>j. 1 \<le> j \<and> j \<le> k \<longrightarrow> pg j \<noteq> 0)
     \<and> (\<forall>i < 8192. aHash p i \<le> k) \<and> (\<forall>j. k < j \<and> j \<le> page_frames h \<longrightarrow> aPgno p j = 0)"

text \<open>Writing a slot that was empty, and removing newer entries, leaves older ones in place.\<close>

lemma placed_add:
  assumes "placed D pg l p" and "aHash p i = 0" and "l < idx"
  shows "placed D pg l (p\<lparr>aPgno := (aPgno p)(idx := x), aHash := (aHash p)(i := idx)\<rparr>)"
proof -
  let ?p = "p\<lparr>aPgno := (aPgno p)(idx := x), aHash := (aHash p)(i := idx)\<rparr>"
  have "D j < 8192 \<and> aPgno ?p j = pg j \<and> aHash ?p (probe (pg j) (D j)) = j
      \<and> (\<forall>e < D j. 0 < aHash ?p (probe (pg j) e) \<and> aHash ?p (probe (pg j) e) < j)" if j: "1 \<le> j" "j \<le> l" for j
  proof -
    note P = placedD [OF assms(1) j]
    have "probe (pg j) (D j) \<noteq> i" using P(3) j assms(2) by auto
    moreover have "probe (pg j) e \<noteq> i" if "e < D j" for e using P(4) [OF that] assms(2) by auto
    ultimately show ?thesis using P j assms(3) by simp
  qed
  moreover have "n = probe (pg (aHash ?p n)) (D (aHash ?p n))" if "n < 8192" "0 < aHash ?p n" "aHash ?p n \<le> l" for n
    using that assms(3) placed_slot [OF assms(1), of n] by (cases "n = i") auto
  ultimately show ?thesis by (simp add: placed_def)
qed

lemma placed_cleanup:
  assumes "placed D pg l p" and "l \<le> m"
  shows "placed D pg l (cleanup_page h m p)"
proof -
  let ?p = "cleanup_page h m p"
  have keep: "aHash p i \<le> l \<Longrightarrow> aHash ?p i = aHash p i" for i using assms(2) by (simp add: cleanup_page_def)
  have "D j < 8192 \<and> aPgno ?p j = pg j \<and> aHash ?p (probe (pg j) (D j)) = j
      \<and> (\<forall>e < D j. 0 < aHash ?p (probe (pg j) e) \<and> aHash ?p (probe (pg j) e) < j)" if j: "1 \<le> j" "j \<le> l" for j
  proof -
    note P = placedD [OF assms(1) j]
    have "aHash ?p (probe (pg j) (D j)) = j" using keep P(3) j by simp
    moreover have "aHash ?p (probe (pg j) e) = aHash p (probe (pg j) e)" if "e < D j" for e
      by (rule keep) (use P(5) [OF that] j in simp)
    moreover have "aPgno ?p j = pg j" using P(2) j assms(2) by (simp add: cleanup_page_def)
    ultimately show ?thesis using P by simp
  qed
  moreover have "n = probe (pg (aHash ?p n)) (D (aHash ?p n))" if "n < 8192" "0 < aHash ?p n" "aHash ?p n \<le> l" for n
    using that placed_slot [OF assms(1), of n] by (auto simp: cleanup_page_def split: if_splits)
  ultimately show ?thesis by (simp add: placed_def)
qed

lemma indexed_cleanup:
  assumes "indexed pg k h p" and "m \<le> k"
  shows "indexed pg m h (cleanup_page h m p)"
proof -
  obtain D where "placed D pg k p" using assms(1) by (auto simp: indexed_def)
  from placed_cleanup [OF placed_le [OF this assms(2)], of m h] have "placed D pg m (cleanup_page h m p)" by simp
  then show ?thesis using assms by (auto simp: indexed_def cleanup_page_def)
qed

lemma indexed_zero: "indexed pg 0 h (zero_page h p)"
  by (auto simp: indexed_def zero_page_def)

text \<open>The entries of a table come from different slots, so that one of the first \<open>k + 1\<close> is free.\<close>

lemma free_slot:
  assumes "indexed pg k h p"
  obtains d where "d \<le> k" "aHash p (probe x d) = 0" "\<forall>e < d. aHash p (probe x e) \<noteq> 0"
proof -
  obtain D where D: "placed D pg k p" using assms by (auto simp: indexed_def)
  have k: "k \<le> 4096" using assms le_trans [OF _ page_frames_pos(2)] by (auto simp: indexed_def)
  have "\<exists>d \<le> k. aHash p (probe x d) = 0"
  proof (rule ccontr)
    assume "\<not> (\<exists>d \<le> k. aHash p (probe x d) = 0)"
    then have nz: "\<And>d. d \<le> k \<Longrightarrow> 0 < aHash p (probe x d)" by auto
    have "inj_on (\<lambda>d. aHash p (probe x d)) {..k}"
    proof (rule inj_onI)
      fix d e assume d: "d \<in> {..k}" "e \<in> {..k}" and eq: "aHash p (probe x d) = aHash p (probe x e)"
      have le: "aHash p i \<le> k" if "i < 8192" for i using assms that by (simp add: indexed_def)
      have "probe x d = probe x e"
        using placed_slot [OF D, of "probe x d"] placed_slot [OF D, of "probe x e"] nz d eq le by simp
      then show "d = e" using probe_inj [of x d e] d k by simp
    qed
    moreover have "(\<lambda>d. aHash p (probe x d)) ` {..k} \<subseteq> {1..k}"
      using nz assms by (force simp: indexed_def)
    ultimately have "card {..k} \<le> card {1..k}" by (intro card_inj_on_le) auto
    then show False by simp
  qed
  then obtain d0 where "d0 \<le> k" "aHash p (probe x d0) = 0" by blast
  then have "aHash p (probe x (LEAST d. aHash p (probe x d) = 0)) = 0" "(LEAST d. aHash p (probe x d) = 0) \<le> d0"
    by (auto intro: LeastI Least_le)
  with \<open>d0 \<le> k\<close> that [of "LEAST d. aHash p (probe x d) = 0"] show thesis by (meson le_trans not_less_Least)
qed

lemma append_slot_finds:
  assumes "aHash p (probe x (e + d)) = 0" and "\<forall>n < d. aHash p (probe x (e + n)) \<noteq> 0" and "d \<le> c"
  shows "append_slot p c (probe x e) = Some (probe x (e + d))"
  using assms
proof (induction d arbitrary: e c)
  case 0
  then show ?case by (subst append_slot.simps) simp
next
  case (Suc d)
  then have "aHash p (probe x e) \<noteq> 0" by (metis add.right_neutral zero_less_Suc)
  moreover obtain c' where c: "c = Suc c'" "d \<le> c'" using Suc.prems(3) by (cases c) auto
  moreover have "append_slot p c' (probe x (Suc e)) = Some (probe x (Suc e + d))"
    by (rule Suc.IH) (use Suc.prems c in auto)
  ultimately show ?case by (subst append_slot.simps) simp
qed

lemma indexed_append:
  assumes "indexed pg k h p" and "k < page_frames h" and "x \<noteq> 0"
  obtains i where "append_slot p (Suc k) (walHash x) = Some i" "aHash p i = 0"
    "indexed (pg(Suc k := x)) (Suc k) h (p\<lparr>aPgno := (aPgno p)(Suc k := x), aHash := (aHash p)(i := Suc k)\<rparr>)"
proof -
  obtain D where D: "placed D pg k p" using assms(1) by (auto simp: indexed_def)
  obtain d where d: "d \<le> k" "aHash p (probe x d) = 0" "\<forall>e < d. aHash p (probe x e) \<noteq> 0"
    by (rule free_slot [OF assms(1)])
  let ?i = "probe x d" and ?pg = "pg(Suc k := x)" and ?D = "D(Suc k := d)"
  let ?p = "p\<lparr>aPgno := (aPgno p)(Suc k := x), aHash := (aHash p)(?i := Suc k)\<rparr>"
  have kN: "k < 4096" using assms(2) page_frames_pos(2) [of h] by linarith
  have a: "append_slot p (Suc k) (walHash x) = Some ?i"
    using append_slot_finds [of p x 0 d "Suc k"] d by simp
  have "placed D pg k ?p" by (rule placed_add [OF D d(2)]) simp
  then have old: "placed ?D ?pg k ?p" by (simp add: placed_def)
  have ne: "probe x e \<noteq> ?i" if "e < d" for e using d(3) d(2) that by metis
  have le: "aHash p n \<le> k" if "n < 8192" for n using assms(1) that by (simp add: indexed_def)
  have "placed ?D ?pg (Suc k) ?p"
    unfolding placed_def
  proof (intro conjI allI impI)
    fix j assume "1 \<le> j \<and> j \<le> Suc k"
    then consider "1 \<le> j" "j \<le> k" | "j = Suc k" by linarith
    then have "?D j < 8192 \<and> aPgno ?p j = ?pg j \<and> aHash ?p (probe (?pg j) (?D j)) = j
        \<and> (\<forall>e < ?D j. 0 < aHash ?p (probe (?pg j) e) \<and> aHash ?p (probe (?pg j) e) < j)"
    proof cases
      case 1
      then show ?thesis using placedD [OF old 1] by auto
    next
      case 2
      then show ?thesis using d ne kN le by (auto simp: less_Suc_eq_le)
    qed
    then show "?D j < 8192" "aPgno ?p j = ?pg j" "aHash ?p (probe (?pg j) (?D j)) = j"
      "\<And>e. e < ?D j \<Longrightarrow> 0 < aHash ?p (probe (?pg j) e)" "\<And>e. e < ?D j \<Longrightarrow> aHash ?p (probe (?pg j) e) < j" by blast+
  next
    fix n assume n: "n < (8192 :: nat)" "0 < aHash ?p n \<and> aHash ?p n \<le> Suc k"
    show "n = probe (?pg (aHash ?p n)) (?D (aHash ?p n))"
    proof (cases "n = ?i")
      case True
      then show ?thesis by simp
    next
      case False
      then show ?thesis using n placed_slot [OF old n(1)] le [OF n(1)] by simp
    qed
  qed
  then have "indexed ?pg (Suc k) h ?p" using assms le by (auto simp: indexed_def le_Suc_eq)
  with a d(2) show thesis by (rule that)
qed

subsection \<open>Searching a table that changes\<close>

text \<open>The greatest number up to \<open>l\<close> with a property, or 0.\<close>

fun newest :: "(nat \<Rightarrow> bool) \<Rightarrow> nat \<Rightarrow> nat" where
  "newest P 0 = 0"
| "newest P (Suc j) = (if P (Suc j) then Suc j else newest P j)"

text \<open>
  What a reader relies on: the entries of its snapshot are in place, and any other entry
  it can meet is behind its end of the log.
\<close>

definition snapshot :: "(nat \<Rightarrow> nat) \<Rightarrow> (nat \<Rightarrow> u32) \<Rightarrow> nat \<Rightarrow> nat \<Rightarrow> nat \<Rightarrow> WalPage \<Rightarrow> bool" where
  "snapshot D pg l iZero iLast p \<longleftrightarrow> placed D pg l p \<and> iZero + l \<le> iLast
     \<and> (\<forall>i < 8192. aHash p i \<le> l \<or> iLast < iZero + aHash p i)"

text \<open>
  A slot that is in use at the first of the three reads in a round of the loop is not
  cleared before the second.
\<close>

definition steady :: "(nat \<Rightarrow> WalPage) \<Rightarrow> bool" where
  "steady rd \<longleftrightarrow> (\<forall>n. \<forall>i < 8192. aHash (rd (3 * n)) i \<noteq> 0 \<longrightarrow> aHash (rd (3 * n + 1)) i \<noteq> 0)"

definition found :: "(nat \<Rightarrow> nat) \<Rightarrow> (nat \<Rightarrow> u32) \<Rightarrow> nat \<Rightarrow> nat \<Rightarrow> nat \<Rightarrow> u32 \<Rightarrow> nat \<Rightarrow> nat" where
  "found D pg l iZero iMin pgno e =
     (let j = newest (\<lambda>j. pg j = pgno \<and> iMin \<le> iZero + j \<and> D j < e) l in if j = 0 then 0 else iZero + j)"

lemma newest_cong: "(\<And>j. 1 \<le> j \<Longrightarrow> j \<le> l \<Longrightarrow> P j \<longleftrightarrow> Q j) \<Longrightarrow> newest P l = newest Q l"
  by (induction l) auto

lemma newest_eq: "1 \<le> v \<Longrightarrow> v \<le> l \<Longrightarrow> P v \<Longrightarrow> (\<And>j. v < j \<Longrightarrow> j \<le> l \<Longrightarrow> \<not> P j) \<Longrightarrow> newest P l = v"
proof (induction l)
  case (Suc l)
  then show ?case by (cases "v = Suc l") auto
qed simp

lemma found_step:
  assumes "placed D pg l p" and "e < 8192" and "v = aHash p (probe pgno e)" and "0 < v" and "v \<le> l"
  shows "found D pg l iZero iMin pgno (Suc e)
    = (if iMin \<le> iZero + v \<and> pg v = pgno then iZero + v else found D pg l iZero iMin pgno e)"
proof -
  have slot: "probe pgno e = probe (pg v) (D v)" using placed_slot [OF assms(1), of "probe pgno e"] assms by simp
  have at: "v = j" if "1 \<le> j" "j \<le> l" "pg j = pgno" "D j = e" for j
    using placedD(3) [OF assms(1) that(1,2)] that assms(3) by simp
  have same: "D v = e" if "pg v = pgno"
  proof (rule probe_inj)
    show "probe pgno (D v) = probe pgno e" unfolding slot that ..
    show "D v < 8192" using placedD(1) [OF assms(1)] assms(4,5) by simp
  qed (rule assms(2))
  show ?thesis
  proof (cases "iMin \<le> iZero + v \<and> pg v = pgno")
    case True
    have "newest (\<lambda>j. pg j = pgno \<and> iMin \<le> iZero + j \<and> D j < Suc e) l = v"
    proof (rule newest_eq)
      fix j assume j: "v < j" "j \<le> l"
      show "\<not> (pg j = pgno \<and> iMin \<le> iZero + j \<and> D j < Suc e)"
      proof
        assume P: "pg j = pgno \<and> iMin \<le> iZero + j \<and> D j < Suc e"
        then have "D j \<noteq> e" using at [of j] j assms(4) by auto
        then have "D j < D v" using P same True by simp
        then have "aHash p (probe (pg v) (D j)) < v" using placedD(5) [OF assms(1), of v "D j"] assms(4,5) by simp
        then show False using placedD(3) [OF assms(1), of j] P True j by simp
      qed
    qed (use True same assms(4,5) in simp_all)
    with True assms(4) show ?thesis by (simp add: found_def Let_def)
  next
    case False
    have "newest (\<lambda>j. pg j = pgno \<and> iMin \<le> iZero + j \<and> D j < Suc e) l
        = newest (\<lambda>j. pg j = pgno \<and> iMin \<le> iZero + j \<and> D j < e) l"
    proof (rule newest_cong)
      fix j assume "1 \<le> j" "j \<le> l"
      then show "(pg j = pgno \<and> iMin \<le> iZero + j \<and> D j < Suc e) = (pg j = pgno \<and> iMin \<le> iZero + j \<and> D j < e)"
        using at [of j] False by (auto simp: less_Suc_eq)
    qed
    with False show ?thesis by (auto simp: found_def)
  qed
qed

lemma found_skip:
  assumes "placed D pg l p" and "\<not> (0 < aHash p (probe pgno e) \<and> aHash p (probe pgno e) \<le> l)"
  shows "found D pg l iZero iMin pgno (Suc e) = found D pg l iZero iMin pgno e"
proof -
  have "D j \<noteq> e" if "1 \<le> j" "j \<le> l" "pg j = pgno" for j
    using placedD(3) [OF assms(1) that(1,2)] assms(2) that by auto
  then have "newest (\<lambda>j. pg j = pgno \<and> iMin \<le> iZero + j \<and> D j < Suc e) l
      = newest (\<lambda>j. pg j = pgno \<and> iMin \<le> iZero + j \<and> D j < e) l"
    by (intro newest_cong) (auto simp: less_Suc_eq)
  then show ?thesis by (simp add: found_def)
qed

text \<open>At the first free slot all entries of the page have been seen.\<close>

lemma found_end:
  assumes "placed D pg l p" and "aHash p (probe pgno e) = 0 \<or> 8192 \<le> e"
  shows "found D pg l iZero iMin pgno e = found D pg l iZero iMin pgno 8192"
proof -
  have "D j < e \<and> D j < 8192" if j: "1 \<le> j" "j \<le> l" and pg: "pg j = pgno" for j
  proof -
    have "\<not> e \<le> D j" if free: "aHash p (probe pgno e) = 0"
    proof
      assume "e \<le> D j"
      then consider "e = D j" | "e < D j" by linarith
      then show False
      proof cases
        case 2
        then show False using placedD(4) [OF assms(1) j 2] pg free by simp
      qed (use placedD(3) [OF assms(1) j] pg free j(1) in simp)
    qed
    then show ?thesis using placedD(1) [OF assms(1) j] assms(2) by auto
  qed
  then have "newest (\<lambda>j. pg j = pgno \<and> iMin \<le> iZero + j \<and> D j < e) l
      = newest (\<lambda>j. pg j = pgno \<and> iMin \<le> iZero + j \<and> D j < 8192) l"
    by (intro newest_cong) auto
  then show ?thesis by (simp add: found_def)
qed

text \<open>An entry of the snapshot is the same at all accesses.\<close>

lemma placed_same:
  assumes "placed D pg l p" and "placed D pg l q" and "i < 8192" and "0 < aHash p i" and "aHash p i \<le> l"
  shows "aHash q i = aHash p i" and "aPgno q (aHash q i) = pg (aHash p i)"
  using placed_slot [OF assms(1,3,4,5)] placedD(2,3) [OF assms(2), of "aHash p i"] assms(4,5) by simp_all

lemma find_loop_snapshot:
  assumes snap: "\<And>t. snapshot D pg l iZero iLast (rd t)" and steady: "steady rd"
  shows "e + c = 8192 \<Longrightarrow> iRead = found D pg l iZero iMin pgno e \<Longrightarrow>
    find_loop rd iLast iMin iZero (3 * e) pgno c (probe pgno e) iRead
      \<in> {None, Some (found D pg l iZero iMin pgno 8192)}"
proof (induction c arbitrary: e iRead)
  case 0
  note P = snap [unfolded snapshot_def, THEN conjunct1]
  show ?case
    using found_end [OF P [of "3 * e"], where e = e and pgno = pgno] 0 by (subst find_loop.simps) (simp add: Let_def)
next
  case (Suc c)
  note P = snap [unfolded snapshot_def, THEN conjunct1]
  let ?v = "aHash (rd (3 * e + 1)) (probe pgno e)"
  show ?case
  proof (cases "aHash (rd (3 * e)) (probe pgno e) = 0")
    case True
    then show ?thesis using found_end [OF P [of "3 * e"], where e = e and pgno = pgno] Suc.prems
      by (subst find_loop.simps) simp
  next
    case False
    have e: "e < 8192" using Suc.prems by simp
    have v: "0 < ?v" using steady False by (simp add: steady_def)
    let ?r = "if ?v + iZero \<le> iLast \<and> ?v + iZero \<ge> iMin
      \<and> aPgno (rd (3 * e + 2)) (aHash (rd (3 * e + 2)) (probe pgno e)) = pgno then ?v + iZero else iRead"
    have "?r = found D pg l iZero iMin pgno (Suc e)"
    proof (cases "?v \<le> l")
      case True
      have "iZero + l \<le> iLast" using snap by (simp add: snapshot_def)
      then have "?v + iZero \<le> iLast" using True by simp
      then show ?thesis
        using found_step [OF P e refl v True, where iZero = iZero and iMin = iMin] Suc.prems(2)
          placed_same(2) [OF P P [of "3 * e + 2"] _ v True]
        by (simp add: add.commute)
    next
      case gt: False
      then have "iLast < iZero + ?v" using snap [of "3 * e + 1"] probe_simps(2) [of pgno e] unfolding snapshot_def by blast
      then show ?thesis
        using found_skip [OF P [of "3 * e + 1"], where e = e and pgno = pgno] gt Suc.prems by simp
    qed
    moreover have "find_loop rd iLast iMin iZero (3 * e) pgno (Suc c) (probe pgno e) iRead
        = find_loop rd iLast iMin iZero (3 * Suc e) pgno c (probe pgno (Suc e)) ?r"
      using False by (subst find_loop.simps) (simp add: Let_def add.commute)
    ultimately show ?thesis using Suc.IH [of "Suc e" ?r] Suc.prems(1) by simp
  qed
qed

lemma found_all:
  assumes "placed D pg l p"
  shows "found D pg l iZero iMin pgno 8192
    = (let j = newest (\<lambda>j. pg j = pgno \<and> iMin \<le> iZero + j) l in if j = 0 then 0 else iZero + j)"
proof -
  have "newest (\<lambda>j. pg j = pgno \<and> iMin \<le> iZero + j \<and> D j < 8192) l
      = newest (\<lambda>j. pg j = pgno \<and> iMin \<le> iZero + j) l"
    using placedD(1) [OF assms] by (intro newest_cong) auto
  then show ?thesis by (simp add: found_def)
qed

lemma found_start: "found D pg l iZero iMin pgno 0 = 0"
  by (simp add: found_def newest_eq)
    (induction l; simp)

lemma find_loop_ends:
  "aHash (rd (t + 3 * d)) (probe pgno (e + d)) = 0 \<Longrightarrow> d \<le> c \<Longrightarrow>
    find_loop rd iLast iMin iZero t pgno c (probe pgno e) iRead \<noteq> None"
proof (induction d arbitrary: t e c iRead)
  case 0
  then show ?case by (subst find_loop.simps) simp
next
  case (Suc d)
  then obtain c' where c: "c = Suc c'" "d \<le> c'" by (cases c) auto
  have "find_loop rd iLast iMin iZero (t + 3) pgno c' (probe pgno (Suc e)) r \<noteq> None" for r
    by (rule Suc.IH) (use Suc.prems c in \<open>simp_all add: ac_simps\<close>)
  then show ?case by (subst find_loop.simps) (simp add: c Let_def)
qed

text \<open>What one table answers to a reader.\<close>

lemma find_table:
  assumes "\<And>t. snapshot D pg l iZero iLast (rd t)" and "steady rd"
  shows "find_loop rd iLast iMin iZero 0 pgno 8192 (walHash pgno) 0 \<in> {None,
      Some (let j = newest (\<lambda>j. pg j = pgno \<and> iMin \<le> iZero + j) l in if j = 0 then 0 else iZero + j)}"
  using find_loop_snapshot [OF assms, of 0 8192 0 iMin pgno] found_start
    found_all [OF assms(1) [unfolded snapshot_def, THEN conjunct1], where iZero = iZero and iMin = iMin and pgno = pgno]
  by simp

subsection \<open>The whole index\<close>

text \<open>The index of a log: a list of page numbers, frame 1 first.\<close>

definition frame_pg :: "u32 list \<Rightarrow> nat \<Rightarrow> nat \<Rightarrow> u32" where
  "frame_pg L h j = L ! (iZero_of h + j - 1)"

definition table_len :: "nat \<Rightarrow> nat \<Rightarrow> nat" where
  "table_len n h = min (page_frames h) (n - iZero_of h)"

definition index_of :: "u32 list \<Rightarrow> WalShm \<Rightarrow> bool" where
  "index_of L s \<longleftrightarrow> (\<forall>h. iZero_of h < length L \<longrightarrow>
     indexed (frame_pg L h) (table_len (length L) h) h (wal_pages s h))"

text \<open>The newest frame of a page among the first \<open>n\<close> frames, from \<open>iMin\<close> on.\<close>

definition last_frame :: "u32 list \<Rightarrow> u32 \<Rightarrow> nat \<Rightarrow> nat \<Rightarrow> nat" where
  "last_frame L pgno iMin n = newest (\<lambda>f. L ! (f - 1) = pgno \<and> iMin \<le> f) n"

lemma newest_add:
  "newest P (m + l) = (let j = newest (\<lambda>j. P (m + j)) l in if j = 0 then newest P m else m + j)"
  by (induction l) (auto simp: Let_def)

lemma newest_none: "(\<And>j. 1 \<le> j \<Longrightarrow> j \<le> l \<Longrightarrow> \<not> P j) \<Longrightarrow> newest P l = 0"
  by (induction l) auto

lemma indexed_cong: "(\<And>j. 1 \<le> j \<Longrightarrow> j \<le> k \<Longrightarrow> pg j = pg' j) \<Longrightarrow> indexed pg k h p \<longleftrightarrow> indexed pg' k h p"
proof -
  assume c: "\<And>j. 1 \<le> j \<Longrightarrow> j \<le> k \<Longrightarrow> pg j = pg' j"
  have "placed D pg k p \<longleftrightarrow> placed D pg' k p" for D using c by (auto simp: placed_def)
  then show ?thesis using c by (auto simp: indexed_def)
qed

lemma placed_cong: "(\<And>j. 1 \<le> j \<Longrightarrow> j \<le> k \<Longrightarrow> pg j = pg' j) \<Longrightarrow> placed D pg k p \<longleftrightarrow> placed D pg' k p"
  by (auto simp: placed_def)

text \<open>A mapped page stays mapped, and a connection only changes its pointers and a flag.\<close>

lemma walHashGet_keeps:
  "walHashGet env w h = (rc, p, z, w') \<Longrightarrow> hdr w' = hdr w \<and> minFrame w' = minFrame w \<and> readLock w' = readLock w
    \<and> bShmUnreliable w' = bShmUnreliable w \<and> writeLock w' = writeLock w \<and> z = iZero_of h"
  by (auto simp: walHashGet_def walIndexPage_def walIndexPageRealloc_def Let_def split: if_splits prod.splits)

lemma walIndexPage_maps:
  assumes "walIndexPage env w h = (rc, True, w')"
  shows "h < length (apWiData w') \<and> apWiData w' ! h"
proof (cases "length (apWiData w) \<le> h \<or> \<not> apWiData w ! h")
  case True
  let ?ap = "if length (apWiData w) \<le> h
    then apWiData w @ replicate (h + 1 - length (apWiData w)) False else apWiData w"
  have l: "h < length ?ap" by simp
  have "apWiData w' = ?ap[h := True]"
    using assms True by (cases "shm_map env h")
      (simp add: walIndexPage_def walIndexPageRealloc_def Let_def split: if_splits; force)
  with l show ?thesis by simp
next
  case False
  with assms show ?thesis by (auto simp: walIndexPage_def)
qed

lemma walHashGet_again:
  "walHashGet env w h = (SQLITE_OK, True, z, w') \<Longrightarrow> walHashGet env w' h = (SQLITE_OK, True, z, w')"
  using walIndexPage_maps [of env w h] by (auto simp: walHashGet_def walIndexPage_def [of env w'] split: prod.splits)

lemma table_len_full: "iZero_of (Suc h) \<le> n \<Longrightarrow> table_len n h = page_frames h"
  by (simp add: table_len_def iZero_Suc)

lemma index_of_take:
  assumes "index_of L s" and "m \<le> length L" and "\<And>h. iZero_of h < m \<Longrightarrow>
    (wal_pages s' h = wal_pages s h \<and> (iZero_of h + page_frames h \<le> m \<or> m = length L))
    \<or> (h = walFramePage m \<and> wal_pages s' h = cleanup_page h (m - iZero_of h) (wal_pages s h))"
  shows "index_of (take m L) s'"
  unfolding index_of_def
proof (intro allI impI)
  fix h assume "iZero_of h < length (take m L)"
  then have h: "iZero_of h < m" "iZero_of h < length L" using assms(2) by simp_all
  note I = assms(1) [unfolded index_of_def, rule_format, OF h(2)]
  have pg: "frame_pg (take m L) h j = frame_pg L h j" if "1 \<le> j" "j \<le> table_len m h" for j
  proof -
    have "iZero_of h + j - 1 < m" using that h unfolding table_len_def by linarith
    then show ?thesis by (simp add: frame_pg_def)
  qed
  have len: "length (take m L) = m" using assms(2) by simp
  have "indexed (frame_pg L h) (table_len m h) h (wal_pages s' h)"
  proof (cases "wal_pages s' h = wal_pages s h \<and> (iZero_of h + page_frames h \<le> m \<or> m = length L)")
    case True
    then have "table_len m h = table_len (length L) h"
      using assms(2) by (auto simp: table_len_def)
    then show ?thesis using I True by simp
  next
    case False
    then have c: "h = walFramePage m" "wal_pages s' h = cleanup_page h (m - iZero_of h) (wal_pages s h)"
      using assms(3) [OF h(1)] by blast+
    have "m \<le> iZero_of h + page_frames h" using frame_place(2) [of m] h c(1) by simp
    then have "m - iZero_of h \<le> page_frames h" "m - iZero_of h \<le> length L - iZero_of h"
      using assms(2) by linarith+
    then have t: "table_len m h = m - iZero_of h" "m - iZero_of h \<le> table_len (length L) h"
      by (simp_all add: table_len_def)
    from indexed_cleanup [OF I t(2)] show ?thesis using c(2) t(1) by simp
  qed
  then show "indexed (frame_pg (take m L) h) (table_len (length (take m L)) h) h (wal_pages s' h)"
    unfolding len using indexed_cong [of "table_len m h" "frame_pg (take m L) h" "frame_pg L h"] pg by blast
qed

lemma walCleanupHash_cases:
  assumes "walCleanupHash env w s = Some (w', s')" and "0 < mxFrame (hdr w)"
  defines "m \<equiv> mxFrame (hdr w)"
  shows "s' = s\<lparr>wal_pages := (wal_pages s)(walFramePage m :=
      cleanup_page (walFramePage m) (m - iZero_of (walFramePage m)) (wal_pages s (walFramePage m)))\<rparr>"
    and "hdr w' = hdr w"
proof -
  obtain rc p z v where g: "walHashGet env w (walFramePage m) = (rc, p, z, v)" by (metis prod_cases4)
  note k = walHashGet_keeps [OF g]
  have "rc = SQLITE_OK" "p" using assms(1,2) g by (auto simp: walCleanupHash_def Let_def m_def split: if_splits)
  then show "s' = s\<lparr>wal_pages := (wal_pages s)(walFramePage m :=
      cleanup_page (walFramePage m) (m - iZero_of (walFramePage m)) (wal_pages s (walFramePage m)))\<rparr>" "hdr w' = hdr w"
    using assms(1,2) g k by (auto simp: walCleanupHash_def Let_def m_def)
qed

lemma cleanup_index:
  assumes "walCleanupHash env w s = Some (w', s')" and "index_of L s" and "mxFrame (hdr w) \<le> length L"
  shows "index_of (take (mxFrame (hdr w)) L) s'" and "live_hdr s' = live_hdr s" and "hdr w' = hdr w"
    and "placed D pg l (wal_pages s h) \<Longrightarrow> iZero_of h + l \<le> mxFrame (hdr w) \<Longrightarrow> placed D pg l (wal_pages s' h)"
proof -
  let ?m = "mxFrame (hdr w)"
  have "index_of (take ?m L) s' \<and> live_hdr s' = live_hdr s \<and> hdr w' = hdr w
    \<and> (placed D pg l (wal_pages s h) \<and> iZero_of h + l \<le> ?m \<longrightarrow> placed D pg l (wal_pages s' h))"
  proof (cases "?m = 0")
    case True
    then show ?thesis using assms(1) by (auto simp: walCleanupHash_def index_of_def)
  next
    case False
    note c = walCleanupHash_cases [OF assms(1)]
    have "index_of (take ?m L) s'"
    proof (rule index_of_take [OF assms(2,3)])
      fix g assume g: "iZero_of g < ?m"
      show "(wal_pages s' g = wal_pages s g \<and> (iZero_of g + page_frames g \<le> ?m \<or> ?m = length L))
        \<or> (g = walFramePage ?m \<and> wal_pages s' g = cleanup_page g (?m - iZero_of g) (wal_pages s g))"
        using c(1) False g walFramePage_iff [of ?m g] by (cases "g = walFramePage ?m") auto
    qed
    moreover have "placed D pg l (wal_pages s' h)" if "placed D pg l (wal_pages s h)" "iZero_of h + l \<le> ?m"
      using that c(1) False placed_cleanup [of D pg l "wal_pages s h" "?m - iZero_of h"] by auto
    ultimately show ?thesis using c False by simp
  qed
  then show "index_of (take ?m L) s'" "live_hdr s' = live_hdr s" "hdr w' = hdr w"
    "placed D pg l (wal_pages s h) \<Longrightarrow> iZero_of h + l \<le> ?m \<Longrightarrow> placed D pg l (wal_pages s' h)" by blast+
qed

text \<open>One more frame.\<close>

lemma index_of_snoc:
  assumes I: "index_of L s" and len: "length L = f - 1" "0 < f" and h: "h = walFramePage f"
    and new: "indexed ((frame_pg L h)(f - iZero_of h := x)) (f - iZero_of h) h q"
  shows "index_of (L @ [x]) (s\<lparr>wal_pages := (wal_pages s)(h := q)\<rparr>)"
  unfolding index_of_def
proof (intro allI impI)
  fix g assume g: "iZero_of g < length (L @ [x])"
  note P = frame_place [OF len(2), folded h]
  have n: "length (L @ [x]) = f" using len by simp
  show "indexed (frame_pg (L @ [x]) g) (table_len (length (L @ [x])) g) g
      (wal_pages (s\<lparr>wal_pages := (wal_pages s)(h := q)\<rparr>) g)"
  proof (cases "g = h")
    case True
    have t: "table_len f h = f - iZero_of h" using P by (simp add: table_len_def)
    have "((frame_pg L h)(f - iZero_of h := x)) j = frame_pg (L @ [x]) h j" if "1 \<le> j" "j \<le> f - iZero_of h" for j
    proof (cases "j = f - iZero_of h")
      case True
      have "iZero_of h + (f - iZero_of h) - 1 = length L" using P len by simp
      then show ?thesis using True by (simp add: frame_pg_def)
    next
      case False
      then have "iZero_of h + j - 1 < length L" using that len by linarith
      then show ?thesis using False by (simp add: frame_pg_def nth_append)
    qed
    with new True t n show ?thesis
      using indexed_cong [of "f - iZero_of h" "(frame_pg L h)(f - iZero_of h := x)" "frame_pg (L @ [x]) h"] by simp
  next
    case False
    then have "\<not> f \<le> iZero_of g + page_frames g" using g n walFramePage_iff [of f g] h by auto
    then have g': "iZero_of g < length L" "table_len f g = page_frames g" "table_len (length L) g = page_frames g"
      using len page_frames_pos(1) [of g] by (simp_all add: table_len_def del: page_frames_pos)
    have "frame_pg (L @ [x]) g j = frame_pg L g j" if "1 \<le> j" "j \<le> page_frames g" for j
    proof -
      have "iZero_of g + j - 1 < length L" using that \<open>\<not> f \<le> iZero_of g + page_frames g\<close> len by linarith
      then show ?thesis by (simp add: frame_pg_def nth_append)
    qed
    then show ?thesis using I [unfolded index_of_def, rule_format, OF g'(1)] g'(2,3) False n
        indexed_cong [of "page_frames g" "frame_pg (L @ [x]) g" "frame_pg L g"]
      by simp
  qed
qed

lemma append_in_page:
  assumes I: "index_of L s" and f: "length L = f - 1" "0 < f" and x: "x \<noteq> 0"
    and page: "indexed (frame_pg L (walFramePage f)) (f - 1 - iZero_of (walFramePage f)) (walFramePage f)
      (wal_pages s (walFramePage f))"
  obtains i where "append_slot (wal_pages s (walFramePage f)) (f - iZero_of (walFramePage f)) (walHash x) = Some i"
    "aHash (wal_pages s (walFramePage f)) i = 0"
    "index_of (L @ [x]) (s\<lparr>wal_pages := (wal_pages s)(walFramePage f := (wal_pages s (walFramePage f))
      \<lparr>aPgno := (aPgno (wal_pages s (walFramePage f)))(f - iZero_of (walFramePage f) := x),
       aHash := (aHash (wal_pages s (walFramePage f)))(i := f - iZero_of (walFramePage f))\<rparr>)\<rparr>)"
proof -
  let ?h = "walFramePage f"
  note P = frame_place [OF f(2)]
  have k: "Suc (f - 1 - iZero_of ?h) = f - iZero_of ?h" using P by linarith
  have "f - 1 - iZero_of ?h < page_frames ?h" using P by linarith
  from indexed_append [OF page this x, unfolded k] obtain i where
    "append_slot (wal_pages s ?h) (f - iZero_of ?h) (walHash x) = Some i" "aHash (wal_pages s ?h) i = 0"
    "indexed ((frame_pg L ?h)(f - iZero_of ?h := x)) (f - iZero_of ?h) ?h
      ((wal_pages s ?h)\<lparr>aPgno := (aPgno (wal_pages s ?h))(f - iZero_of ?h := x),
       aHash := (aHash (wal_pages s ?h))(i := f - iZero_of ?h)\<rparr>)" by blast
  with index_of_snoc [OF I f refl this(3)] that show thesis by blast
qed

text \<open>
  The frame appended is the first behind the log, or the first behind the last transaction
  when frames of a writer that died are in the way; then these are removed.
\<close>

lemma before_append:
  assumes I: "index_of L s" and f: "0 < f" "f = length L + 1 \<or> (f = mxFrame (hdr v) + 1 \<and> f \<le> length L)"
    and g: "walHashGet env v (walFramePage f) = (SQLITE_OK, True, z, v)"
  defines "h \<equiv> walFramePage f" and "L' \<equiv> take (f - 1) L"
  defines "s1 \<equiv> (if f - iZero_of h = 1 then s\<lparr>wal_pages := (wal_pages s)(h := zero_page h (wal_pages s h))\<rparr> else s)"
  obtains v2 s2 where "(if aPgno (wal_pages s1 h) (f - iZero_of h) \<noteq> 0 then walCleanupHash env v s1 else Some (v, s1))
      = Some (v2, s2)" "hdr v2 = hdr v" "live_hdr s2 = live_hdr s" "index_of L' s2"
    "indexed (frame_pg L' h) (f - 1 - iZero_of h) h (wal_pages s2 h)"
    "\<And>D pg l n. placed D pg l (wal_pages s n) \<Longrightarrow> iZero_of n + l < f \<Longrightarrow> placed D pg l (wal_pages s2 n)"
proof -
  note P = frame_place [OF f(1), folded h_def]
  have len: "length L' = f - 1" using f unfolding L'_def by auto
  show thesis
  proof (cases "f - iZero_of h = 1")
    case True
    then have fz: "f - 1 = iZero_of h" using P by linarith
    have s1: "s1 = s\<lparr>wal_pages := (wal_pages s)(h := zero_page h (wal_pages s h))\<rparr>" using True by (simp add: s1_def)
    have "aPgno (wal_pages s1 h) 1 = 0" using page_frames_pos(1) [of h] by (simp add: s1 zero_page_def Suc_le_eq)
    then have e: "(if aPgno (wal_pages s1 h) (f - iZero_of h) \<noteq> 0 then walCleanupHash env v s1 else Some (v, s1)) = Some (v, s1)"
      using True by simp
    have ix: "index_of L' s1" unfolding L'_def
    proof (rule index_of_take [OF I])
      show "f - 1 \<le> length L" using f by auto
      fix n assume n: "iZero_of n < f - 1"
      then have "n < h" using fz iZero_mono [of h n] by (metis not_le)
      then have "iZero_of (Suc n) \<le> iZero_of h" by (intro iZero_mono) simp
      then show "(wal_pages s1 n = wal_pages s n \<and> (iZero_of n + page_frames n \<le> f - 1 \<or> f - 1 = length L))
          \<or> (n = walFramePage (f - 1) \<and> wal_pages s1 n = cleanup_page n (f - 1 - iZero_of n) (wal_pages s n))"
        using \<open>n < h\<close> fz by (simp add: s1 iZero_Suc)
    qed
    have pl: "placed D pg l (wal_pages s1 n)" if "placed D pg l (wal_pages s n)" "iZero_of n + l < f" for D pg l n
    proof (cases "n = h")
      case True
      then have "l = 0" using that(2) fz f(1) by simp
      then show ?thesis by simp
    qed (use that in \<open>simp add: s1\<close>)
    show thesis
    proof (rule that [OF e refl _ ix _ pl])
      show "indexed (frame_pg L' h) (f - 1 - iZero_of h) h (wal_pages s1 h)"
        unfolding fz by (simp add: s1 indexed_zero)
    qed (simp add: s1)
  next
    case False
    then have s1: "s1 = s" by (simp add: s1_def)
    have zf: "iZero_of h < f - 1" using False P by linarith
    have t: "table_len (f - 1) h = f - 1 - iZero_of h" using P by (simp add: table_len_def)
    have "0 < f - 1" "f - 1 \<le> iZero_of h + page_frames h" using zf P by linarith+
    then have hf: "h = walFramePage (f - 1)" using walFramePage_iff [of "f - 1" h] zf by blast
    show thesis
    proof (cases "f = length L + 1")
      case True
      then have L: "L' = L" by (simp add: L'_def)
      then have ix: "indexed (frame_pg L' h) (f - 1 - iZero_of h) h (wal_pages s h)"
        using I zf t True by (auto simp: index_of_def)
      have "f - 1 - iZero_of h < f - iZero_of h" "f - iZero_of h \<le> page_frames h" using zf P by linarith+
      with ix have "aPgno (wal_pages s h) (f - iZero_of h) = 0" unfolding indexed_def by blast
      then show thesis using I L ix by (intro that [of v s]) (simp_all add: s1)
    next
      case n: False
      then have mx: "mxFrame (hdr v) = f - 1" "f \<le> length L" using f by auto
      have m0: "0 < f - 1" using zf by simp
      let ?s2 = "s\<lparr>wal_pages := (wal_pages s)(h := cleanup_page h (f - 1 - iZero_of h) (wal_pages s h))\<rparr>"
      have c: "walCleanupHash env v s = Some (v, ?s2)"
        using m0 mx(1) g [folded h_def] hf walHashGet_keeps [OF g] by (simp add: walCleanupHash_def Let_def sqlite_codes h_def)
      have "iZero_of h < length L" using mx zf by linarith
      note ix = I [unfolded index_of_def, rule_format, OF this]
      have "f - iZero_of h \<le> table_len (length L) h" using mx P unfolding table_len_def by linarith
      moreover have "1 \<le> f - iZero_of h" using zf by linarith
      ultimately have "aPgno (wal_pages s h) (f - iZero_of h) \<noteq> 0"
        using ix by (auto simp: indexed_def placed_def)
      then have e: "(if aPgno (wal_pages s1 h) (f - iZero_of h) \<noteq> 0 then walCleanupHash env v s1 else Some (v, s1))
          = Some (v, ?s2)" using c by (simp add: s1)
      have le: "mxFrame (hdr v) \<le> length L" using mx by simp
      note ci = cleanup_index [OF c I le, unfolded mx(1)]
      have "indexed (frame_pg L' h) (f - 1 - iZero_of h) h (wal_pages ?s2 h)"
        using ci(1) zf len t unfolding index_of_def L'_def [symmetric] by metis
      then show thesis using ci(1,4) len by (intro that [OF e]) (auto simp: L'_def)
    qed
  qed
qed

lemma walIndexAppend_index:
  assumes I: "index_of L s" and x: "x \<noteq> 0"
    and f: "0 < f" "f = length L + 1 \<or> (f = mxFrame (hdr w) + 1 \<and> f \<le> length L)"
    and run: "walIndexAppend env w s f x = Some (rc, w', s')"
  shows "rc = SQLITE_OK \<Longrightarrow> index_of (take (f - 1) L @ [x]) s'" and "rc \<noteq> SQLITE_OK \<Longrightarrow> s' = s"
    and "live_hdr s' = live_hdr s" and "hdr w' = hdr w"
    and "placed D pg l (wal_pages s g) \<Longrightarrow> iZero_of g + l < f \<Longrightarrow> placed D pg l (wal_pages s' g)"
proof -
  let ?h = "walFramePage f" and ?L = "take (f - 1) L"
  let ?z = "iZero_of ?h"
  note P = frame_place [OF f(1)]
  have len: "length ?L = f - 1" using f by auto
  obtain rc0 p z v where g: "walHashGet env w ?h = (rc0, p, z, v)" by (metis prod_cases4)
  note k = walHashGet_keeps [OF g]
  have "(rc = SQLITE_OK \<longrightarrow> index_of (?L @ [x]) s') \<and> (rc \<noteq> SQLITE_OK \<longrightarrow> s' = s) \<and> live_hdr s' = live_hdr s
    \<and> hdr w' = hdr w \<and> (placed D pg l (wal_pages s g) \<and> iZero_of g + l < f \<longrightarrow> placed D pg l (wal_pages s' g))"
  proof (cases "rc0 = SQLITE_OK")
    case False
    then show ?thesis using run g k by (auto simp: walIndexAppend_def Let_def)
  next
    case True
    then have p: p using run g by (auto simp: walIndexAppend_def Let_def split: if_splits)
    define s1 where "s1 = (if f - ?z = 1 then s\<lparr>wal_pages := (wal_pages s)(?h := zero_page ?h (wal_pages s ?h))\<rparr> else s)"
    have gv: "walHashGet env v ?h = (SQLITE_OK, True, z, v)" using walHashGet_again g p True by simp
    have fv: "f = length L + 1 \<or> (f = mxFrame (hdr v) + 1 \<and> f \<le> length L)" using f(2) k by simp
    obtain v2 s2 where B: "(if aPgno (wal_pages s1 ?h) (f - ?z) \<noteq> 0 then walCleanupHash env v s1 else Some (v, s1)) = Some (v2, s2)"
      "hdr v2 = hdr v" "live_hdr s2 = live_hdr s" "index_of ?L s2"
      "indexed (frame_pg ?L ?h) (f - 1 - ?z) ?h (wal_pages s2 ?h)"
      "\<And>D pg l n. placed D pg l (wal_pages s n) \<Longrightarrow> iZero_of n + l < f \<Longrightarrow> placed D pg l (wal_pages s2 n)"
      by (rule before_append [OF I f(1) fv gv, folded s1_def]) blast
    obtain i where S: "append_slot (wal_pages s2 ?h) (f - ?z) (walHash x) = Some i" "aHash (wal_pages s2 ?h) i = 0"
      "index_of (?L @ [x]) (s2\<lparr>wal_pages := (wal_pages s2)(?h := (wal_pages s2 ?h)
        \<lparr>aPgno := (aPgno (wal_pages s2 ?h))(f - ?z := x), aHash := (aHash (wal_pages s2 ?h))(i := f - ?z)\<rparr>)\<rparr>)"
      by (rule append_in_page [OF B(4) len f(1) x B(5)])
    have step: "walIndexAppend env w s f x =
        (case (if aPgno (wal_pages s1 ?h) (f - ?z) \<noteq> 0 then walCleanupHash env v s1 else Some (v, s1)) of
           None \<Rightarrow> None
         | Some (w, s) \<Rightarrow>
             (case append_slot (wal_pages s ?h) (f - ?z) (walHash x) of
                None \<Rightarrow> Some (SQLITE_CORRUPT, w, s)
              | Some iKey \<Rightarrow> Some (SQLITE_OK, w, s\<lparr>wal_pages := (wal_pages s)(?h := (wal_pages s ?h)
                  \<lparr>aPgno := (aPgno (wal_pages s ?h))(f - ?z := x), aHash := (aHash (wal_pages s ?h))(iKey := f - ?z)\<rparr>)\<rparr>)))"
      unfolding walIndexAppend_def Let_def g s1_def using p True k by simp
    have r: "rc = SQLITE_OK" "w' = v2" "s' = s2\<lparr>wal_pages := (wal_pages s2)(?h := (wal_pages s2 ?h)
        \<lparr>aPgno := (aPgno (wal_pages s2 ?h))(f - ?z := x), aHash := (aHash (wal_pages s2 ?h))(i := f - ?z)\<rparr>)\<rparr>"
      using run [unfolded step] B(1) S(1) by simp_all
    have "placed D pg l (wal_pages s' g)" if pl: "placed D pg l (wal_pages s g)" "iZero_of g + l < f"
    proof (cases "g = ?h")
      case True
      then have "l < f - ?z" using pl(2) by (simp add: less_diff_conv add.commute)
      with placed_add [OF B(6) [OF pl], of i "f - ?z" x] S(2) True r(3) show ?thesis by simp
    next
      case False
      then show ?thesis using B(6) [OF pl] r(3) by simp
    qed
    then show ?thesis using S(3) r B(2,3) k by simp
  qed
  then show "rc = SQLITE_OK \<Longrightarrow> index_of (take (f - 1) L @ [x]) s'" "rc \<noteq> SQLITE_OK \<Longrightarrow> s' = s"
    "live_hdr s' = live_hdr s" "hdr w' = hdr w"
    "placed D pg l (wal_pages s g) \<Longrightarrow> iZero_of g + l < f \<Longrightarrow> placed D pg l (wal_pages s' g)" by blast+
qed

subsection \<open>Searching the index\<close>

text \<open>No error from the allocator or the file system.\<close>

definition maps_all :: "shm_env \<Rightarrow> bool" where
  "maps_all env \<longleftrightarrow> realloc_ok env \<and> (\<forall>h. malloc_ok env h \<and> shm_map env h = (SQLITE_OK, True))"

lemma walHashGet_ok:
  assumes "maps_all env"
  obtains w' where "walHashGet env w h = (SQLITE_OK, True, iZero_of h, w')" "minFrame w' = minFrame w"
    "hdr w' = hdr w" "readLock w' = readLock w" "bShmUnreliable w' = bShmUnreliable w"
proof -
  obtain rc p z w' where g: "walHashGet env w h = (rc, p, z, w')" by (metis prod_cases4)
  then have "rc = SQLITE_OK \<and> p"
    using assms by (auto simp: walHashGet_def walIndexPage_def walIndexPageRealloc_def maps_all_def Let_def
        sqlite_codes SQLITE_READONLY_def split: if_splits)
  with that walHashGet_keeps [OF g] g show thesis by simp
qed

text \<open>
  A reader of the log \<open>L\<close>: at each access the tables hold its snapshot, and perhaps newer
  entries.
\<close>

definition reads_log :: "u32 list \<Rightarrow> (nat \<Rightarrow> nat \<Rightarrow> WalPage) \<Rightarrow> bool" where
  "reads_log L rd \<longleftrightarrow> (\<forall>h. iZero_of h < length L \<longrightarrow> steady (rd h)
     \<and> (\<exists>D. \<forall>t. snapshot D (frame_pg L h) (table_len (length L) h) (iZero_of h) (length L) (rd h t)))"

definition free_for :: "u32 \<Rightarrow> (nat \<Rightarrow> WalPage) \<Rightarrow> bool" where
  "free_for pgno rd \<longleftrightarrow> (\<exists>d \<le> 8192. \<forall>t. aHash (rd t) (probe pgno d) = 0)"

lemma newest_table:
  assumes "iZero_of h < length L"
  shows "newest (\<lambda>f. L ! (f - 1) = pgno \<and> iMin \<le> f) (min (length L) (iZero_of h + page_frames h))
    = (let j = newest (\<lambda>j. frame_pg L h j = pgno \<and> iMin \<le> iZero_of h + j) (table_len (length L) h)
       in if j = 0 then newest (\<lambda>f. L ! (f - 1) = pgno \<and> iMin \<le> f) (iZero_of h) else iZero_of h + j)"
proof -
  have "min (length L) (iZero_of h + page_frames h) = iZero_of h + table_len (length L) h"
    using assms by (auto simp: table_len_def min_def)
  then show ?thesis by (simp add: newest_add frame_pg_def del: One_nat_def)
qed

lemma find_hashes_spec:
  fixes w :: Wal
  assumes env: "maps_all env" and reads: "reads_log L rd"
  shows "iZero_of h < length L \<Longrightarrow> \<exists>rc r w'.
    find_hashes env rd (length L) pgno (walFramePage (minFrame w)) h w = Some (rc, r, w')
    \<and> (rc = SQLITE_OK \<and> r = newest (\<lambda>f. L ! (f - 1) = pgno \<and> minFrame w \<le> f) (min (length L) (iZero_of h + page_frames h))
       \<or> rc = SQLITE_CORRUPT \<and> (\<exists>g. iZero_of g < length L \<and> \<not> free_for pgno (rd g)))"
proof (induction h arbitrary: w rule: less_induct)
  case (less h w)
  note h = less.prems
  let ?P = "\<lambda>f. L ! (f - 1) = pgno \<and> minFrame w \<le> f" and ?m = "walFramePage (minFrame w)"
  show ?case
  proof (cases "h < ?m")
    case True
    then have "0 < minFrame w" by (cases "minFrame w = 0") (simp_all add: walFramePage_def wal_sizes)
    have "newest ?P (min (length L) (iZero_of h + page_frames h)) = 0"
    proof (rule newest_none)
      fix j assume "1 \<le> j" "j \<le> min (length L) (iZero_of h + page_frames h)"
      then have "j \<le> iZero_of (Suc h)" by (simp add: iZero_Suc)
      also have "\<dots> \<le> iZero_of ?m" using True by (intro iZero_mono) simp
      also have "\<dots> < minFrame w" by (rule frame_place(1)) fact
      finally show "\<not> ?P j" by simp
    qed
    with True show ?thesis by (subst find_hashes.simps) simp
  next
    case False
    obtain v where g: "walHashGet env w h = (SQLITE_OK, True, iZero_of h, v)" "minFrame v = minFrame w"
      by (rule walHashGet_ok [OF env])
    let ?j = "newest (\<lambda>j. frame_pg L h j = pgno \<and> minFrame w \<le> iZero_of h + j) (table_len (length L) h)"
    let ?loop = "find_loop (rd h) (length L) (minFrame v) (iZero_of h) 0 pgno HASHTABLE_NSLOT (walHash pgno) 0"
    obtain D where D: "\<And>t. snapshot D (frame_pg L h) (table_len (length L) h) (iZero_of h) (length L) (rd h t)"
      and st: "steady (rd h)" using reads h by (auto simp: reads_log_def)
    note T = find_table [OF D st, of "minFrame v" pgno, folded slot_num, unfolded g(2)]
    show ?thesis
    proof (cases ?loop)
      case None
      have "\<not> free_for pgno (rd h)"
      proof
        assume "free_for pgno (rd h)"
        then obtain d where "d \<le> 8192" "\<And>t. aHash (rd h t) (probe pgno d) = 0" by (auto simp: free_for_def)
        then have "?loop \<noteq> None" using find_loop_ends [of "rd h" 0 d pgno 0 8192] by simp
        with None show False by simp
      qed
      with h False g None show ?thesis by (subst find_hashes.simps) (auto simp: sqlite_codes)
    next
      case (Some r)
      then have r: "r = (if ?j = 0 then 0 else iZero_of h + ?j)" using T g(2) by (simp add: Let_def)
      note N = newest_table [OF h, of pgno "minFrame w"]
      show ?thesis
      proof (cases "r = 0")
        case False
        then have "?j \<noteq> 0" using r by (auto split: if_splits)
        then have "newest ?P (min (length L) (iZero_of h + page_frames h)) = r" using N r by (simp add: Let_def)
        with Some False \<open>\<not> h < ?m\<close> g show ?thesis by (subst find_hashes.simps) simp
      next
        case True
        then have j: "?j = 0" using r by (auto split: if_splits)
        show ?thesis
        proof (cases h)
          case 0
          then have "newest ?P (min (length L) (iZero_of h + page_frames h)) = 0" using N j by (simp add: Let_def)
          with Some True \<open>\<not> h < ?m\<close> g 0 show ?thesis by (subst find_hashes.simps) simp
        next
          case (Suc k)
          have z: "iZero_of k + page_frames k = iZero_of h" using Suc by (simp add: iZero_Suc)
          then have "min (length L) (iZero_of k + page_frames k) = iZero_of h" using h by simp
          moreover have "k < h" "iZero_of k < length L" using Suc h z by simp_all
          note less.IH [OF this, of v]
          moreover have "find_hashes env rd (length L) pgno ?m h w = find_hashes env rd (length L) pgno ?m k v"
            using Some True \<open>\<not> h < ?m\<close> g Suc by (subst find_hashes.simps) simp
          ultimately show ?thesis using N j g(2) by (simp add: Let_def)
        qed
      qed
    qed
  qed
qed

text \<open>The search of a reader whose transaction sees the log \<open>L\<close>.\<close>

lemma find_frame_reads:
  assumes "maps_all env" and "reads_log L rd" and "mxFrame (hdr w) = length L"
    and "readLock w \<noteq> 0 \<or> bShmUnreliable w"
  shows "\<exists>rc r w'. sqlite3WalFindFrame env rd w pgno = Some (rc, r, w')
    \<and> (rc = SQLITE_OK \<and> r = last_frame L pgno (minFrame w) (length L)
       \<or> rc = SQLITE_CORRUPT \<and> (\<exists>g. iZero_of g < length L \<and> \<not> free_for pgno (rd g)))"
proof (cases "L = []")
  case True
  then show ?thesis using assms(3) by (simp add: sqlite3WalFindFrame_def last_frame_def)
next
  case False
  let ?h = "walFramePage (length L)"
  have P: "iZero_of ?h < length L" "length L \<le> iZero_of ?h + page_frames ?h"
    using frame_place [of "length L"] False by simp_all
  then have "min (length L) (iZero_of ?h + page_frames ?h) = length L" by simp
  with find_hashes_spec [OF assms(1,2) P(1), of pgno w] False assms(3,4) show ?thesis
    by (auto simp: sqlite3WalFindFrame_def last_frame_def Let_def)
qed

subsection \<open>What a writer does to the pages\<close>

text \<open>
  The single writes that a reader of \<open>m\<close> frames tolerates: the number of a page behind its end
  of the log, a slot of such a frame cleared, and a free slot taken by such a frame.
\<close>

inductive word_write :: "nat \<Rightarrow> nat \<Rightarrow> WalPage \<Rightarrow> WalPage \<Rightarrow> bool" for iZero m where
  write_pgno: "m < iZero + j \<Longrightarrow> word_write iZero m p (p\<lparr>aPgno := (aPgno p)(j := x)\<rparr>)"
| clear_slot: "m < iZero + aHash p i \<Longrightarrow> word_write iZero m p (p\<lparr>aHash := (aHash p)(i := 0)\<rparr>)"
| take_slot: "aHash p i = 0 \<Longrightarrow> m < iZero + idx \<Longrightarrow> word_write iZero m p (p\<lparr>aHash := (aHash p)(i := idx)\<rparr>)"

abbreviation word_writes :: "nat \<Rightarrow> nat \<Rightarrow> WalPage \<Rightarrow> WalPage \<Rightarrow> bool" where
  "word_writes iZero m \<equiv> (word_write iZero m)\<^sup>*\<^sup>*"

lemma snapshot_word_write:
  assumes "word_write iZero m p q" and "snapshot D pg l iZero m p"
  shows "snapshot D pg l iZero m q"
  using assms
proof (induction rule: word_write.induct)
  case (write_pgno j p x)
  then have "l < j" by (auto simp: snapshot_def)
  with write_pgno show ?case by (auto simp: snapshot_def placed_def)
next
  case (clear_slot p i)
  then have n: "l < aHash p i" by (auto simp: snapshot_def)
  have "placed D pg l p" using clear_slot by (simp add: snapshot_def)
  from placedD [OF this] n have "placed D pg l (p\<lparr>aHash := (aHash p)(i := 0)\<rparr>)"
    unfolding placed_def using placed_slot [OF \<open>placed D pg l p\<close>] by fastforce
  with clear_slot show ?case by (simp add: snapshot_def)
next
  case (take_slot p i idx)
  then have n: "l < idx" by (auto simp: snapshot_def)
  have "placed D pg l p" using take_slot by (simp add: snapshot_def)
  from placedD [OF this] n take_slot(1) have "placed D pg l (p\<lparr>aHash := (aHash p)(i := idx)\<rparr>)"
    unfolding placed_def using placed_slot [OF \<open>placed D pg l p\<close>] by fastforce
  with take_slot show ?case by (simp add: snapshot_def)
qed

lemma snapshot_word_writes:
  assumes "word_writes iZero m p q" and "snapshot D pg l iZero m p"
  shows "snapshot D pg l iZero m q"
  using assms by (induction rule: rtranclp_induct) (auto intro: snapshot_word_write)

text \<open>A \<open>memset\<close> and a loop over slots are sequences of such writes.\<close>

lemma writes_pgnos:
  assumes "\<And>j. x j \<noteq> aPgno p j \<Longrightarrow> m < iZero + j \<and> j < n"
  shows "word_writes iZero m p (p\<lparr>aPgno := x\<rparr>)"
proof -
  have "word_writes iZero m p (p\<lparr>aPgno := (\<lambda>j. if j < k then x j else aPgno p j)\<rparr>)" for k
  proof (induction k)
    case 0
    then show ?case by simp
  next
    case (Suc k)
    let ?q = "\<lambda>k. p\<lparr>aPgno := (\<lambda>j. if j < k then x j else aPgno p j)\<rparr>"
    show ?case
    proof (cases "x k = aPgno p k")
      case True
      then have "(\<lambda>j. if j < Suc k then x j else aPgno p j) = (\<lambda>j. if j < k then x j else aPgno p j)"
        by (auto simp: less_Suc_eq)
      with Suc show ?thesis by simp
    next
      case False
      then have "word_write iZero m (?q k) ((?q k)\<lparr>aPgno := (aPgno (?q k))(k := x k)\<rparr>)"
        using assms by (intro write_pgno) simp
      with Suc have w: "word_writes iZero m p ((?q k)\<lparr>aPgno := (aPgno (?q k))(k := x k)\<rparr>)"
        by (rule rtranclp.rtrancl_into_rtrancl)
      have e: "(?q k)\<lparr>aPgno := (aPgno (?q k))(k := x k)\<rparr> = ?q (Suc k)"
        by (rule WalPage.equality) (auto simp: fun_eq_iff less_Suc_eq)
      show ?thesis using w unfolding e .
    qed
  qed
  from this [of n] have "word_writes iZero m p (p\<lparr>aPgno := (\<lambda>j. if j < n then x j else aPgno p j)\<rparr>)" .
  moreover have e: "(\<lambda>j. if j < n then x j else aPgno p j) = x" using assms by force
  ultimately show ?thesis unfolding e by simp
qed

lemma writes_clear:
  "word_writes iZero m p (p\<lparr>aHash := (\<lambda>i. if i < n \<and> P i \<and> m < iZero + aHash p i then 0 else aHash p i)\<rparr>)"
proof (induction n)
  case 0
  then show ?case by simp
next
  case (Suc k)
  let ?q = "\<lambda>k. p\<lparr>aHash := (\<lambda>i. if i < k \<and> P i \<and> m < iZero + aHash p i then 0 else aHash p i)\<rparr>"
  show ?case
  proof (cases "P k \<and> m < iZero + aHash p k")
    case False
    then have "?q (Suc k) = ?q k" by (intro WalPage.equality) (auto simp: fun_eq_iff less_Suc_eq)
    with Suc show ?thesis by simp
  next
    case True
    then have "word_write iZero m (?q k) ((?q k)\<lparr>aHash := (aHash (?q k))(k := 0)\<rparr>)" by (intro clear_slot) simp
    with Suc have w: "word_writes iZero m p ((?q k)\<lparr>aHash := (aHash (?q k))(k := 0)\<rparr>)"
      by (rule rtranclp.rtrancl_into_rtrancl)
    have e: "(?q k)\<lparr>aHash := (aHash (?q k))(k := 0)\<rparr> = ?q (Suc k)"
      using True by (intro WalPage.equality) (auto simp: fun_eq_iff less_Suc_eq)
    show ?thesis using w unfolding e .
  qed
qed

lemma writes_cleanup:
  assumes "m \<le> iZero + iLimit"
  shows "word_writes iZero m p (cleanup_page h iLimit p)"
proof -
  let ?q = "p\<lparr>aHash := (\<lambda>i. if i < HASHTABLE_NSLOT \<and> iLimit < aHash p i \<and> m < iZero + aHash p i then 0 else aHash p i)\<rparr>"
  have a: "word_writes iZero m p ?q" by (rule writes_clear)
  have b: "word_writes iZero m ?q
    (?q\<lparr>aPgno := (\<lambda>j. if iLimit < j \<and> j \<le> page_frames h then 0 else aPgno p j)\<rparr>)"
    by (rule writes_pgnos [where n = "Suc (page_frames h)"]) (use assms in \<open>auto split: if_splits\<close>)
  have e: "?q\<lparr>aPgno := (\<lambda>j. if iLimit < j \<and> j \<le> page_frames h then 0 else aPgno p j)\<rparr> = cleanup_page h iLimit p"
    using assms by (intro WalPage.equality) (auto simp: cleanup_page_def fun_eq_iff)
  show ?thesis using rtranclp_trans [OF a b] unfolding e .
qed

lemma writes_zero:
  assumes "m \<le> iZero"
  shows "word_writes iZero m p (zero_page h p)"
proof -
  let ?q = "p\<lparr>aPgno := (\<lambda>j. if 1 \<le> j \<and> j \<le> page_frames h then 0 else aPgno p j)\<rparr>"
  let ?r = "?q\<lparr>aHash := (\<lambda>i. if i < HASHTABLE_NSLOT \<and> True \<and> m < iZero + aHash ?q i then 0 else aHash ?q i)\<rparr>"
  have a: "word_writes iZero m p ?q"
    by (rule writes_pgnos [where n = "Suc (page_frames h)"]) (use assms in \<open>auto split: if_splits\<close>)
  have b: "word_writes iZero m ?q ?r" by (rule writes_clear)
  have e: "?r = zero_page h p"
    using assms by (intro WalPage.equality) (auto simp: zero_page_def fun_eq_iff)
  show ?thesis using rtranclp_trans [OF a b] unfolding e .
qed

text \<open>All pages of the index, by writes behind \<open>m\<close>.\<close>

definition writes_behind :: "nat \<Rightarrow> WalShm \<Rightarrow> WalShm \<Rightarrow> bool" where
  "writes_behind m s s' \<longleftrightarrow> (\<forall>h. word_writes (iZero_of h) m (wal_pages s h) (wal_pages s' h))"

lemma writes_behind_refl [simp]: "writes_behind m s s"
  by (simp add: writes_behind_def)

lemma writes_behind_trans: "writes_behind m s t \<Longrightarrow> writes_behind m t u \<Longrightarrow> writes_behind m s u"
  unfolding writes_behind_def by (blast intro: rtranclp_trans)

lemma writes_behind_page:
  assumes "word_writes (iZero_of h) m (wal_pages s h) q"
  shows "writes_behind m s (s\<lparr>wal_pages := (wal_pages s)(h := q)\<rparr>)"
  using assms by (simp add: writes_behind_def)

lemma walCleanupHash_writes:
  assumes "walCleanupHash env w s = Some (w', s')" and "m \<le> mxFrame (hdr w)"
  shows "writes_behind m s s'"
proof (cases "mxFrame (hdr w) = 0")
  case True
  with assms(1) show ?thesis by (simp add: walCleanupHash_def)
next
  case False
  then have c: "0 < mxFrame (hdr w)" by simp
  show ?thesis unfolding walCleanupHash_cases(1) [OF assms(1) c]
    by (intro writes_behind_page writes_cleanup) (use assms(2) in simp)
qed

lemma walCleanupHash_hdr:
  assumes "walCleanupHash env w s = Some (w', s')"
  shows "hdr w' = hdr w"
proof (cases "mxFrame (hdr w) = 0")
  case True
  with assms show ?thesis by (simp add: walCleanupHash_def)
qed (use walCleanupHash_cases(2) [OF assms] in simp)

lemma append_slot_free: "append_slot p c i = Some k \<Longrightarrow> aHash p k = 0"
proof (induction c arbitrary: i)
  case 0
  then show ?case by (simp add: append_slot.simps [of p 0] split: if_splits)
next
  case (Suc c)
  then show ?case by (simp add: append_slot.simps [of p "Suc c"] split: if_splits)
qed

lemma walIndexAppend_writes:
  assumes run: "walIndexAppend env w s f x = Some (rc, w', s')" and m: "m < f" "m \<le> mxFrame (hdr w)"
  shows "writes_behind m s s'" and "hdr w' = hdr w"
proof -
  let ?h = "walFramePage f"
  let ?z = "iZero_of ?h"
  have P: "?z < f" using frame_place(1) m by simp
  obtain rc0 p z v where g: "walHashGet env w ?h = (rc0, p, z, v)" by (metis prod_cases4)
  note k = walHashGet_keeps [OF g]
  define s1 where "s1 = (if f - ?z = 1 then s\<lparr>wal_pages := (wal_pages s)(?h := zero_page ?h (wal_pages s ?h))\<rparr> else s)"
  have "writes_behind m s s' \<and> hdr w' = hdr w"
  proof (cases "rc0 = SQLITE_OK \<and> p")
    case False
    then show ?thesis using run g k by (auto simp: walIndexAppend_def Let_def split: if_splits)
  next
    case True
    obtain v2 s2 where c: "(if aPgno (wal_pages s1 ?h) (f - ?z) \<noteq> 0 then walCleanupHash env v s1 else Some (v, s1)) = Some (v2, s2)"
      and r: "(case append_slot (wal_pages s2 ?h) (f - ?z) (walHash x) of
                None \<Rightarrow> Some (SQLITE_CORRUPT, v2, s2)
              | Some iKey \<Rightarrow> Some (SQLITE_OK, v2, s2\<lparr>wal_pages := (wal_pages s2)(?h := (wal_pages s2 ?h)
                  \<lparr>aPgno := (aPgno (wal_pages s2 ?h))(f - ?z := x), aHash := (aHash (wal_pages s2 ?h))(iKey := f - ?z)\<rparr>)\<rparr>))
          = Some (rc, w', s')"
      using run g True k unfolding walIndexAppend_def Let_def s1_def by (auto split: option.splits prod.splits if_splits)
    have "writes_behind m s s1"
    proof (cases "f - ?z = 1")
      case True
      then have "m \<le> ?z" using m by linarith
      from writes_behind_page [OF writes_zero [OF this]] show ?thesis using True by (simp add: s1_def)
    qed (simp add: s1_def)
    moreover have "writes_behind m s1 s2 \<and> hdr v2 = hdr v"
    proof (cases "aPgno (wal_pages s1 ?h) (f - ?z) = 0")
      case False
      then have "walCleanupHash env v s1 = Some (v2, s2)" using c by simp
      then show ?thesis using walCleanupHash_writes [of env v s1 v2 s2 m] walCleanupHash_hdr m(2) k by auto
    qed (use c in simp)
    moreover have "writes_behind m s2 s' \<and> w' = v2"
    proof (cases "append_slot (wal_pages s2 ?h) (f - ?z) (walHash x)")
      case (Some i)
      define q where "q = (wal_pages s2 ?h)\<lparr>aPgno := (aPgno (wal_pages s2 ?h))(f - ?z := x)\<rparr>"
      have "word_write ?z m (wal_pages s2 ?h) q"
        unfolding q_def by (rule write_pgno) (use P m in simp)
      moreover have "word_write ?z m q (q\<lparr>aHash := (aHash q)(i := f - ?z)\<rparr>)"
        by (rule take_slot) (use append_slot_free [OF Some] P m in \<open>simp_all add: q_def\<close>)
      ultimately have "word_writes ?z m (wal_pages s2 ?h) (q\<lparr>aHash := (aHash q)(i := f - ?z)\<rparr>)" by simp
      then have "writes_behind m s2 (s2\<lparr>wal_pages := (wal_pages s2)(?h := q\<lparr>aHash := (aHash q)(i := f - ?z)\<rparr>)\<rparr>)"
        by (rule writes_behind_page)
      with r Some show ?thesis by (auto simp: q_def)
    qed (use r in simp)
    ultimately show ?thesis using writes_behind_trans k by metis
  qed
  then show "writes_behind m s s'" "hdr w' = hdr w" by simp_all
qed

lemma index_frames_writes:
  "index_frames env w s iFrame pgnos = Some (rc, iFrame', w', s') \<Longrightarrow> m \<le> iFrame \<Longrightarrow> m \<le> mxFrame (hdr w) \<Longrightarrow>
    writes_behind m s s' \<and> hdr w' = hdr w"
proof (induction pgnos arbitrary: w s iFrame)
  case (Cons x pgnos)
  obtain r v u where a: "walIndexAppend env w s (iFrame + 1) x = Some (r, v, u)"
    using Cons.prems(1) by (auto split: option.splits)
  note A = walIndexAppend_writes [OF a, of m]
  show ?case
  proof (cases "r = SQLITE_OK")
    case True
    then have "writes_behind m u s' \<and> hdr w' = hdr v"
      using Cons.prems a A by (intro Cons.IH [of v u "iFrame + 1"]) simp_all
    then show ?thesis using A Cons.prems writes_behind_trans by fastforce
  qed (use Cons.prems a A in auto)
qed simp

lemma index_frames_index:
  assumes "index_of L s" and "\<forall>x \<in> set pgnos. x \<noteq> 0" and "index_frames env w s f pgnos = Some (rc, f', w', s')"
    and "f = length L \<or> (f = mxFrame (hdr w) \<and> f \<le> length L)"
  shows "rc = SQLITE_OK \<Longrightarrow> f' = f + length pgnos \<and> index_of (if pgnos = [] then L else take f L @ pgnos) s'"
    and "\<exists>n. index_of (if n = 0 then L else take f L @ take n pgnos) s'"
    and "live_hdr s' = live_hdr s" and "hdr w' = hdr w"
proof -
  have "(rc = SQLITE_OK \<longrightarrow> f' = f + length pgnos \<and> index_of (if pgnos = [] then L else take f L @ pgnos) s')
    \<and> (\<exists>n. index_of (if n = 0 then L else take f L @ take n pgnos) s') \<and> live_hdr s' = live_hdr s \<and> hdr w' = hdr w"
    using assms
  proof (induction pgnos arbitrary: w s f L)
    case Nil
    then show ?case by (auto intro: exI [of _ 0])
  next
    case (Cons x pgnos)
    obtain r v u where a: "walIndexAppend env w s (f + 1) x = Some (r, v, u)"
      using Cons.prems(3) by (auto split: option.splits)
    have x: "x \<noteq> 0" and f: "0 < f + 1" "f + 1 = length L + 1 \<or> (f + 1 = mxFrame (hdr w) + 1 \<and> f + 1 \<le> length L)"
      using Cons.prems(2,4) by auto
    note A = walIndexAppend_index [OF Cons.prems(1) x f a]
    show ?case
    proof (cases "r = SQLITE_OK")
      case False
      then have "s' = s" "rc = r" "w' = v" using Cons.prems(3) a A(2) by auto
      then show ?thesis using False A(4) Cons.prems(1) by (auto intro: exI [of _ 0])
    next
      case True
      let ?L = "take f L @ [x]"
      have len: "length ?L = f + 1" using Cons.prems(4) by auto
      have run: "index_frames env v u (f + 1) pgnos = Some (rc, f', w', s')" using Cons.prems(3) a True by simp
      have t: "take (f + 1) ?L = ?L" using len by simp
      have H: "(rc = SQLITE_OK \<longrightarrow> f' = f + 1 + length pgnos \<and> index_of (if pgnos = [] then ?L else take (f + 1) ?L @ pgnos) s')
        \<and> (\<exists>n. index_of (if n = 0 then ?L else take (f + 1) ?L @ take n pgnos) s') \<and> live_hdr s' = live_hdr u \<and> hdr w' = hdr v"
        using A(1) True Cons.prems(2) run len by (intro Cons.IH) simp_all
      then have B: "rc = SQLITE_OK \<longrightarrow> f' = f + 1 + length pgnos \<and> index_of (take f L @ x # pgnos) s'"
        "live_hdr s' = live_hdr s" "hdr w' = hdr w"
        using A(3,4) unfolding t by (auto split: if_splits)
      from H have "\<exists>n. index_of (if n = 0 then ?L else take (f + 1) ?L @ take n pgnos) s'" by blast
      then obtain k where k: "index_of (if k = 0 then ?L else ?L @ take k pgnos) s'" unfolding t by blast
      have "index_of (take f L @ x # take k pgnos) s'" using k by (cases "k = 0") simp_all
      then obtain n where "index_of (take f L @ take (Suc n) (x # pgnos)) s'" by auto
      then have "\<exists>n. index_of (if n = 0 then L else take f L @ take n (x # pgnos)) s'" by (intro exI [of _ "Suc n"]) simp
      with B show ?thesis by auto
    qed
  qed
  then show "rc = SQLITE_OK \<Longrightarrow> f' = f + length pgnos \<and> index_of (if pgnos = [] then L else take f L @ pgnos) s'"
    "\<exists>n. index_of (if n = 0 then L else take f L @ take n pgnos) s'" "live_hdr s' = live_hdr s" "hdr w' = hdr w" by blast+
qed

subsection \<open>Connections at work\<close>

text \<open>
  The writer, the shared memory, the savepoints of the transaction, and a reader of the log:
  the number of frames its transaction sees. Only one writer holds the lock; a new one takes
  over when the last has ended its transaction or died with its frames in the index. The
  log only starts anew when no reader uses it.
\<close>

type_synonym wal_world = "Wal \<times> WalShm \<times> wal_savepoint list \<times> nat option"

inductive wal_step :: "wal_world \<Rightarrow> wal_world \<Rightarrow> bool" where
  begin_write: "sqlite3WalBeginWriteTransaction ro lock v s = (SQLITE_OK, w') \<Longrightarrow>
    wal_step (w, s, ms, r) (w', s, [], r)"
| frames: "frames_index env w s pList nExtra szPage isCommit nTruncate = Some (rc, w', s') \<Longrightarrow>
    (\<forall>(a, pgno) \<in> set pList. pgno \<noteq> 0) \<Longrightarrow> (nExtra > 0 \<longrightarrow> filter fst pList \<noteq> []) \<Longrightarrow>
    wal_step (w, s, ms, r) (w', s', if isCommit then [] else ms, r)"
| mark: "wal_step (w, s, ms, r) (w, s, sqlite3WalSavepoint w # ms, r)"
| savepoint_undo: "m \<in> set ms \<Longrightarrow> sqlite3WalSavepointUndo env w s m = Some (m', w', s') \<Longrightarrow>
    wal_step (w, s, ms, r) (w', s', m' # ms, r)"
| undo: "sqlite3WalUndo env xUndo w s = Some (rc, pgnos, w', s') \<Longrightarrow> writeLock w \<Longrightarrow>
    wal_step (w, s, ms, r) (w', s', [], r)"
| end_write: "sqlite3WalEndWriteTransaction w = (rc, w') \<Longrightarrow> wal_step (w, s, ms, r) (w', s, ms, r)"
| restart: "walRestartHdr w s salt1 = (w', s') \<Longrightarrow> wal_step (w, s, ms, None) (w', s', ms, None)"
| begin_read: "wal_step (w, s, ms, None) (w, s, ms, Some (mxFrame (live_hdr s)))"
| end_read: "wal_step (w, s, ms, r) (w, s, ms, None)"

text \<open>
  The index holds a log \<open>L\<close>: the frames of the last transaction, those of the writer behind them,
  and perhaps some that were given up.
\<close>

definition mark_ok :: "Wal \<Rightarrow> WalShm \<Rightarrow> wal_savepoint \<Rightarrow> bool" where
  "mark_ok w s = (\<lambda>(f, s1, s2, ckpt). mxFrame (live_hdr s) \<le> (if ckpt = nCkpt w then f else 0))"

lemma mark_ok_cong:
  "mxFrame (live_hdr s') = mxFrame (live_hdr s) \<Longrightarrow> nCkpt w' = nCkpt w \<Longrightarrow> mark_ok w' s' m = mark_ok w s m"
  by (simp add: mark_ok_def)

lemma mark_ok_now: "mark_ok w s (f, s1, s2, nCkpt w) \<longleftrightarrow> mxFrame (live_hdr s) \<le> f"
  by (simp add: mark_ok_def)

lemma mark_ok_0: "mxFrame (live_hdr s) = 0 \<Longrightarrow> mark_ok w s m"
  by (simp add: mark_ok_def split: prod.splits)

definition wal_log :: "u32 list \<Rightarrow> wal_world \<Rightarrow> bool" where
  "wal_log L = (\<lambda>(w, s, ms, r). index_of L s \<and> mxFrame (live_hdr s) \<le> mxFrame (hdr w) \<and> mxFrame (hdr w) \<le> length L
     \<and> (\<forall>m \<in> set ms. mark_ok w s m)
     \<and> (\<forall>m. r = Some m \<longrightarrow> m \<le> mxFrame (live_hdr s)))"

definition wal_inv :: "wal_world \<Rightarrow> bool" where
  "wal_inv \<sigma> \<longleftrightarrow> (\<exists>L. wal_log L \<sigma>)"

lemma wal_invI:
  assumes "index_of L s" and "mxFrame (live_hdr s) \<le> mxFrame (hdr w)" and "mxFrame (hdr w) \<le> length L"
    and "\<And>m. m \<in> set ms \<Longrightarrow> mark_ok w s m"
    and "\<And>m. r = Some m \<Longrightarrow> m \<le> mxFrame (live_hdr s)"
  shows "wal_inv (w, s, ms, r)"
  unfolding wal_inv_def wal_log_def using assms by fast

lemma wal_logD:
  assumes "wal_log L (w, s, ms, r)"
  shows "index_of L s" "mxFrame (live_hdr s) \<le> mxFrame (hdr w)" "mxFrame (hdr w) \<le> length L"
    "mk \<in> set ms \<Longrightarrow> mark_ok w s mk"
    "r = Some m \<Longrightarrow> m \<le> mxFrame (live_hdr s)"
  using assms unfolding wal_log_def by fast+

text \<open>A cleanup, seen from the transaction.\<close>

lemma walHashGet_nCkpt: "walHashGet env w h = (rc, p, z, w') \<Longrightarrow> nCkpt w' = nCkpt w \<and> wal_szPage w' = wal_szPage w"
  by (auto simp: walHashGet_def walIndexPage_def walIndexPageRealloc_def Let_def split: if_splits prod.splits)

lemma walCleanupHash_nCkpt: "walCleanupHash env w s = Some (w', s') \<Longrightarrow> nCkpt w' = nCkpt w \<and> wal_szPage w' = wal_szPage w"
  by (auto simp: walCleanupHash_def Let_def split: if_splits prod.splits dest: walHashGet_nCkpt)

lemma walIndexAppend_nCkpt: "walIndexAppend env w s f x = Some (rc, w', s') \<Longrightarrow> nCkpt w' = nCkpt w \<and> wal_szPage w' = wal_szPage w"
  by (auto simp: walIndexAppend_def Let_def split: if_splits prod.splits option.splits
      dest!: walHashGet_nCkpt walCleanupHash_nCkpt)

lemma index_frames_nCkpt: "index_frames env w s f pgnos = Some (rc, f', w', s') \<Longrightarrow> nCkpt w' = nCkpt w"
  by (induction pgnos arbitrary: w s f) (auto split: option.splits if_splits dest!: walIndexAppend_nCkpt)

lemma frames_index_split:
  assumes "frames_index env w s pList nExtra szPage isCommit nTruncate = Some (rc, w', s')"
  defines "pgnos \<equiv> map snd (filter fst pList)"
  obtains f v u where "index_frames env w s (mxFrame (hdr w)) (pgnos @ replicate nExtra (last pgnos)) = Some (rc, f, v, u)"
    "rc \<noteq> SQLITE_OK \<Longrightarrow> w' = v \<and> s' = u" "nCkpt w' = nCkpt w" "wal_pages s' = wal_pages u"
    "rc = SQLITE_OK \<Longrightarrow> mxFrame (hdr w') = f"
    "live_hdr s' = (if isCommit \<and> rc = SQLITE_OK then hdr w' else live_hdr u)"
  using assms by (auto simp: frames_index_def walIndexWriteHdr_def Let_def split: option.splits prod.splits if_splits
      dest: index_frames_nCkpt)

lemma index_of_pages: "wal_pages s' = wal_pages s \<Longrightarrow> index_of L s' = index_of L s"
  by (simp add: index_of_def)

lemma frames_index_step:
  assumes I: "wal_inv (w, s, ms, r)" and run: "frames_index env w s pList nExtra szPage isCommit nTruncate = Some (rc, w', s')"
    and pages: "\<forall>(a, pgno) \<in> set pList. pgno \<noteq> 0" and extra: "nExtra > 0 \<longrightarrow> filter fst pList \<noteq> []"
  shows "wal_inv (w', s', if isCommit then [] else ms, r)" and "r = Some m \<Longrightarrow> writes_behind m s s'"
proof -
  obtain L where W: "wal_log L (w, s, ms, r)" using I by (auto simp: wal_inv_def)
  note L = wal_logD [OF W]
  let ?p = "map snd (filter fst pList)"
  let ?pg = "?p @ replicate nExtra (last ?p)"
  obtain f v u where F: "index_frames env w s (mxFrame (hdr w)) ?pg = Some (rc, f, v, u)"
    "rc \<noteq> SQLITE_OK \<Longrightarrow> w' = v \<and> s' = u" "nCkpt w' = nCkpt w" "wal_pages s' = wal_pages u"
    "rc = SQLITE_OK \<Longrightarrow> mxFrame (hdr w') = f"
    "live_hdr s' = (if isCommit \<and> rc = SQLITE_OK then hdr w' else live_hdr u)"
    by (rule frames_index_split [OF run]) blast
  have "last ?p \<in> set ?p" if "0 < nExtra" using extra that by (intro last_in_set) simp
  moreover have p: "\<forall>x \<in> set ?p. x \<noteq> 0"
  proof
    fix x assume "x \<in> set ?p"
    then obtain a where "(a, x) \<in> set pList" by auto
    with pages show "x \<noteq> 0" by blast
  qed
  ultimately have "\<forall>x \<in> set (replicate nExtra (last ?p)). x \<noteq> 0" by (metis in_set_replicate gr0I)
  with p have nz: "\<forall>x \<in> set ?pg. x \<noteq> 0" unfolding set_append by blast
  have start: "mxFrame (hdr w) = length L \<or> (mxFrame (hdr w) = mxFrame (hdr w) \<and> mxFrame (hdr w) \<le> length L)" using L by simp
  note X = index_frames_index [OF L(1) nz F(1) start]
  show "wal_inv (w', s', if isCommit then [] else ms, r)"
  proof (cases "rc = SQLITE_OK")
    case True
    let ?L = "if ?pg = [] then L else take (mxFrame (hdr w)) L @ ?pg"
    have len: "mxFrame (hdr w') = mxFrame (hdr w) + length ?pg" using X(1) True F(5) by simp
    show ?thesis
    proof (rule wal_invI)
      show "index_of ?L s'" using X(1) True index_of_pages [OF F(4)] by blast
      show "mxFrame (hdr w') \<le> length ?L" using len L(3) by auto
      have h: "isCommit \<Longrightarrow> mxFrame (live_hdr s') = mxFrame (hdr w')" "\<not> isCommit \<Longrightarrow> mxFrame (live_hdr s') = mxFrame (live_hdr s)"
        using F(6) X(3) True by simp_all
      show "mxFrame (live_hdr s') \<le> mxFrame (hdr w')" using h len L(2) by (cases isCommit) simp_all
      show "mark_ok w' s' x" if "x \<in> set (if isCommit then [] else ms)" for x
        using that L(4) [of x] mark_ok_cong [OF h(2) F(3)] by (cases isCommit) simp_all
      show "n \<le> mxFrame (live_hdr s')" if "r = Some n" for n
        using h len L(2) L(5) [OF that] by (cases isCommit) simp_all
    qed
  next
    case False
    obtain n where n: "index_of (if n = 0 then L else take (mxFrame (hdr w)) L @ take n ?pg) s'"
      using X(2) index_of_pages [OF F(4)] by blast
    show ?thesis
    proof (rule wal_invI)
      show "index_of (if n = 0 then L else take (mxFrame (hdr w)) L @ take n ?pg) s'" by (rule n)
      show "mxFrame (hdr w') \<le> length (if n = 0 then L else take (mxFrame (hdr w)) L @ take n ?pg)"
        using L(3) False F(2) X(4) by simp
      have h: "mxFrame (live_hdr s') = mxFrame (live_hdr s)" using F(6) X(3) False by simp
      show "mxFrame (live_hdr s') \<le> mxFrame (hdr w')" using h L(2) F(2) X(4) False by simp
      show "mark_ok w' s' x" if "x \<in> set (if isCommit then [] else ms)" for x
        using that L(4) [of x] mark_ok_cong [OF h F(3)] by (simp split: if_splits)
      show "n \<le> mxFrame (live_hdr s')" if "r = Some n" for n
        using h L(5) [OF that] by simp
    qed
  qed
  show "writes_behind m s s'" if "r = Some m"
    using index_frames_writes [OF F(1), of m] L(2,5) that F(4) by (simp add: writes_behind_def)
qed

text \<open>A cleanup after the end of the log went back to \<open>k\<close>.\<close>

lemma cleanup_step:
  assumes L: "index_of L s" "mxFrame (live_hdr s) \<le> mxFrame (hdr w)" "mxFrame (hdr w) \<le> length L"
    "\<And>m. m \<in> set ms \<Longrightarrow> mark_ok w s m"
    "\<And>m. r = Some m \<Longrightarrow> m \<le> mxFrame (live_hdr s)"
    and run: "walCleanupHash env w s = Some (w', s')"
  shows "wal_inv (w', s', ms, r)" and "r = Some m \<Longrightarrow> writes_behind m s s'"
proof -
  note c = cleanup_index [OF run L(1,3)] and n = walCleanupHash_nCkpt [OF run]
  show "wal_inv (w', s', ms, r)"
    by (rule wal_invI [OF c(1)]) (use c(2,3) L n mark_ok_cong [of s' s w' w] in auto)
  show "writes_behind m s s'" if "r = Some m"
    by (rule walCleanupHash_writes [OF run]) (use L(2) L(5) [OF that] in simp)
qed

lemma savepoint_undo_step:
  assumes I: "wal_inv (w, s, ms, r)" and mem: "d \<in> set ms" and run: "sqlite3WalSavepointUndo env w s d = Some (d', w', s')"
  shows "wal_inv (w', s', d' # ms, r)" and "r = Some m \<Longrightarrow> writes_behind m s s'"
proof -
  obtain L where W: "wal_log L (w, s, ms, r)" using I by (auto simp: wal_inv_def)
  note L = wal_logD [OF W]
  obtain f s1 s2 ckpt where d: "d = (f, s1, s2, ckpt)" by (metis prod_cases4)
  define f' where "f' = (if ckpt \<noteq> nCkpt w then 0 else f)"
  have live: "mxFrame (live_hdr s) \<le> f'" using L(4) [OF mem] d by (auto simp: f'_def mark_ok_def split: if_splits)
  have d': "d' = (f', s1, s2, nCkpt w)"
    using run by (auto simp: sqlite3WalSavepointUndo_def d f'_def Let_def split: if_splits option.splits)
  have ms: "mark_ok w s x" if "x \<in> set (d' # ms)" for x
    using that L(4) [of x] live by (cases "x = d'") (simp_all add: d' mark_ok_now)
  have "wal_inv (w', s', d' # ms, r) \<and> (r = Some m \<longrightarrow> writes_behind m s s')"
  proof (cases "f' < mxFrame (hdr w)")
    case True
    then have c: "walCleanupHash env (w\<lparr>hdr := (hdr w)\<lparr>mxFrame := f', aFrameCksum := (s1, s2)\<rparr>\<rparr>) s = Some (w', s')"
      using run by (auto simp: sqlite3WalSavepointUndo_def d f'_def Let_def split: if_splits option.splits)
    have "wal_inv (w', s', d' # ms, r)" "r = Some m \<Longrightarrow> writes_behind m s s'"
      using cleanup_step [OF L(1) _ _ _ L(5) c, where ms = "d' # ms"] live True L(3) ms mark_ok_cong [of s s "w\<lparr>hdr := (hdr w)\<lparr>mxFrame := f', aFrameCksum := (s1, s2)\<rparr>\<rparr>" w]
      by (simp_all add: le_trans less_imp_le)
    then show ?thesis by blast
  next
    case False
    then have "w' = w" "s' = s" using run
      by (auto simp: sqlite3WalSavepointUndo_def d f'_def Let_def split: if_splits option.splits)
    moreover have "wal_inv (w, s, d' # ms, r)" by (rule wal_invI [OF L(1-3)]) (use ms L(5) in blast)+
    ultimately show ?thesis by simp
  qed
  then show "wal_inv (w', s', d' # ms, r)" "r = Some m \<Longrightarrow> writes_behind m s s'" by blast+
qed

lemma undo_step:
  assumes I: "wal_inv (w, s, ms, r)" and run: "sqlite3WalUndo env xUndo w s = Some (rc, pgnos, w', s')" and lock: "writeLock w"
  shows "wal_inv (w', s', [], r)" and "r = Some m \<Longrightarrow> writes_behind m s s'"
proof -
  obtain L where W: "wal_log L (w, s, ms, r)" using I by (auto simp: wal_inv_def)
  note L = wal_logD [OF W]
  let ?w = "w\<lparr>hdr := live_hdr s\<rparr>"
  have c: "(if mxFrame (hdr w) \<noteq> mxFrame (live_hdr s) then walCleanupHash env ?w s else Some (?w, s)) = Some (w', s')"
    using run lock by (auto simp: sqlite3WalUndo_def Let_def split: option.splits prod.splits if_splits)
  have "wal_inv (w', s', [], r) \<and> (r = Some m \<longrightarrow> writes_behind m s s')"
  proof (cases "mxFrame (hdr w) = mxFrame (live_hdr s)")
    case True
    then have w: "w' = ?w" "s' = s" using c by auto
    have "wal_inv (?w, s, [], r)" by (rule wal_invI [OF L(1)]) (use True L in auto)
    then show ?thesis using w by simp
  next
    case False
    then have c: "walCleanupHash env ?w s = Some (w', s')" using c by simp
    have "wal_inv (w', s', [], r)" "r = Some m \<Longrightarrow> writes_behind m s s'"
      using cleanup_step [OF L(1) _ _ _ L(5) c, where ms = "[]"] L(2,3) by simp_all
    then show ?thesis by blast
  qed
  then show "wal_inv (w', s', [], r)" "r = Some m \<Longrightarrow> writes_behind m s s'" by blast+
qed

lemma begin_write_hdr:
  "sqlite3WalBeginWriteTransaction ro lock v s = (SQLITE_OK, w) \<Longrightarrow> hdr w = live_hdr s"
  by (auto simp: sqlite3WalBeginWriteTransaction_def SQLITE_READONLY_def SQLITE_BUSY_SNAPSHOT_def sqlite_codes split: if_splits)

lemma end_write_hdr: "sqlite3WalEndWriteTransaction w = (rc, w') \<Longrightarrow> hdr w' = hdr w \<and> nCkpt w' = nCkpt w"
  by (auto simp: sqlite3WalEndWriteTransaction_def split: if_splits)

lemma restart_hdr: "walRestartHdr w s salt1 = (w', s') \<Longrightarrow>
    mxFrame (hdr w') = 0 \<and> live_hdr s' = hdr w' \<and> wal_pages s' = wal_pages s"
  by (auto simp: walRestartHdr_def walIndexWriteHdr_def Let_def)

text \<open>Every step keeps the invariant, and writes only behind the end of the reader's log.\<close>

lemma wal_step_inv:
  assumes "wal_step (w, s, ms, r) (w', s', ms', r')" and I: "wal_inv (w, s, ms, r)"
  shows "wal_inv (w', s', ms', r') \<and> (\<forall>m. r = Some m \<longrightarrow> writes_behind m s s')"
  using assms(1)
proof (cases rule: wal_step.cases)
  case (begin_write ro lock v)
  obtain L where W: "wal_log L (w, s, ms, r)" using I by (auto simp: wal_inv_def)
  note L = wal_logD [OF W]
  with begin_write begin_write_hdr [of ro lock v s w'] show ?thesis by (auto intro!: wal_invI [OF L(1)])
next
  case (frames env pList nExtra szPage isCommit nTruncate rc)
  from frames_index_step [OF I frames(3,4,5)] frames show ?thesis by auto
next
  case mark
  obtain L where W: "wal_log L (w, s, ms, r)" using I by (auto simp: wal_inv_def)
  note L = wal_logD [OF W]
  have "wal_inv (w, s, sqlite3WalSavepoint w # ms, r)"
    by (rule wal_invI [OF L(1-3)]) (use L(2,4,5) in \<open>auto simp: sqlite3WalSavepoint_def mark_ok_now\<close>)
  with mark show ?thesis by simp
next
  case (savepoint_undo d env d')
  from savepoint_undo_step [OF I savepoint_undo(3,4)] savepoint_undo show ?thesis by auto
next
  case (undo env xUndo rc pgnos)
  from undo_step [OF I undo(3,4)] undo show ?thesis by auto
next
  case (end_write rc)
  with I end_write_hdr [OF end_write(4)] mark_ok_cong [of s s w' w] show ?thesis by (auto simp: wal_inv_def wal_log_def)
next
  case (restart salt1)
  obtain L where W: "wal_log L (w, s, ms, r)" using I by (auto simp: wal_inv_def)
  note L = wal_logD [OF W]
  have "wal_inv (w', s', ms, None)"
    by (rule wal_invI [of L]) (use L restart_hdr [OF restart(4)] index_of_pages [of s' s L] in \<open>auto intro: mark_ok_0\<close>)
  with restart show ?thesis by simp
qed (use I in \<open>auto simp: wal_inv_def wal_log_def\<close>)

subsection \<open>Readers beside a writer\<close>

definition reader_of :: "wal_world \<Rightarrow> nat option" where
  "reader_of \<sigma> = snd (snd (snd \<sigma>))"

definition shm_of :: "wal_world \<Rightarrow> WalShm" where
  "shm_of \<sigma> = fst (snd \<sigma>)"

text \<open>What can happen while a reader of \<open>m\<close> frames stays.\<close>

abbreviation wal_run :: "nat \<Rightarrow> wal_world \<Rightarrow> wal_world \<Rightarrow> bool" where
  "wal_run m \<equiv> (\<lambda>\<sigma> \<sigma>'. wal_step \<sigma> \<sigma>' \<and> reader_of \<sigma>' = Some m)\<^sup>*\<^sup>*"

definition wal_init :: "wal_world \<Rightarrow> bool" where
  "wal_init = (\<lambda>(w, s, ms, r). mxFrame (live_hdr s) = 0 \<and> mxFrame (hdr w) = 0 \<and> ms = [] \<and> r = None)"

definition wal_reach :: "wal_world \<Rightarrow> bool" where
  "wal_reach \<sigma> \<longleftrightarrow> (\<exists>\<sigma>\<^sub>0. wal_init \<sigma>\<^sub>0 \<and> wal_step\<^sup>*\<^sup>* \<sigma>\<^sub>0 \<sigma>)"

lemma wal_step_keeps: "wal_step \<sigma> \<sigma>' \<Longrightarrow> wal_inv \<sigma> \<Longrightarrow> wal_inv \<sigma>'"
  using wal_step_inv by (cases \<sigma>; cases \<sigma>') blast

lemma wal_reach_inv: "wal_reach \<sigma> \<Longrightarrow> wal_inv \<sigma>"
proof -
  assume "wal_reach \<sigma>"
  then obtain \<sigma>\<^sub>0 where "wal_init \<sigma>\<^sub>0" and run: "wal_step\<^sup>*\<^sup>* \<sigma>\<^sub>0 \<sigma>" by (auto simp: wal_reach_def)
  then have "wal_inv \<sigma>\<^sub>0" by (cases \<sigma>\<^sub>0) (auto simp: wal_init_def index_of_def intro!: wal_invI [of "[]"])
  with run show ?thesis by (induction rule: rtranclp_induct) (auto intro: wal_step_keeps)
qed

lemma wal_run_writes:
  assumes "wal_run m \<sigma> \<sigma>'" and "wal_inv \<sigma>" and "reader_of \<sigma> = Some m"
  shows "writes_behind m (shm_of \<sigma>) (shm_of \<sigma>')"
proof -
  have "wal_inv \<sigma>' \<and> reader_of \<sigma>' = Some m \<and> writes_behind m (shm_of \<sigma>) (shm_of \<sigma>')"
    using assms(1)
  proof (induction rule: rtranclp_induct)
    case base
    then show ?case using assms(2,3) by simp
  next
    case (step \<tau> \<tau>')
    obtain w s ms w' s' ms' where t: "\<tau> = (w, s, ms, Some m)" "\<tau>' = (w', s', ms', Some m)"
      using step by (cases \<tau>; cases \<tau>') (auto simp: reader_of_def)
    have "wal_inv \<tau>' \<and> writes_behind m s s'" using wal_step_inv [of w s ms "Some m" w' s' ms' "Some m"] step t by simp
    then show ?case using step t writes_behind_trans by (auto simp: shm_of_def)
  qed
  then show ?thesis by simp
qed

lemma index_snapshot:
  assumes "index_of L s" and "m \<le> length L" and "iZero_of h < m"
  obtains D where "snapshot D (frame_pg (take m L) h) (table_len m h) (iZero_of h) m (wal_pages s h)"
proof -
  have I: "indexed (frame_pg L h) (table_len (length L) h) h (wal_pages s h)"
    using assms by (simp add: index_of_def)
  then obtain D where D: "placed D (frame_pg L h) (table_len (length L) h) (wal_pages s h)" by (auto simp: indexed_def)
  have le: "table_len m h \<le> table_len (length L) h" using assms(2) by (auto simp: table_len_def)
  have "frame_pg (take m L) h j = frame_pg L h j" if "1 \<le> j" "j \<le> table_len m h" for j
  proof -
    have "iZero_of h + j - 1 < m" using that assms(3) unfolding table_len_def by linarith
    then show ?thesis by (simp add: frame_pg_def)
  qed
  then have "placed D (frame_pg (take m L) h) (table_len m h) (wal_pages s h)"
    using placed_le [OF D le] placed_cong [of "table_len m h" "frame_pg (take m L) h" "frame_pg L h"] by blast
  moreover have "aHash (wal_pages s h) i \<le> table_len m h \<or> m < iZero_of h + aHash (wal_pages s h) i" if "i < 8192" for i
  proof -
    have "aHash (wal_pages s h) i \<le> table_len (length L) h" using I that by (simp add: indexed_def)
    then have "aHash (wal_pages s h) i \<le> page_frames h" by (simp add: table_len_def)
    then show ?thesis by (auto simp: table_len_def)
  qed
  moreover have "iZero_of h + table_len m h \<le> m" using assms(3) by (simp add: table_len_def)
  ultimately show thesis by (intro that) (simp add: snapshot_def)
qed

lemma reads_run:
  assumes "wal_inv \<sigma>" and "reader_of \<sigma> = Some m" and "index_of L (shm_of \<sigma>)" and "m \<le> length L"
    and seen: "\<And>h t. \<exists>\<sigma>'. wal_run m \<sigma> \<sigma>' \<and> word_writes (iZero_of h) m (wal_pages (shm_of \<sigma>') h) (rd h t)"
    and "\<And>h. steady (rd h)"
  shows "reads_log (take m L) rd"
  unfolding reads_log_def
proof (intro allI impI conjI)
  fix h assume "iZero_of h < length (take m L)"
  then have h: "iZero_of h < m" by simp
  have len: "length (take m L) = m" using assms(4) by simp
  obtain D where D: "snapshot D (frame_pg (take m L) h) (table_len m h) (iZero_of h) m (wal_pages (shm_of \<sigma>) h)"
    by (rule index_snapshot [OF assms(3,4) h])
  have "snapshot D (frame_pg (take m L) h) (table_len m h) (iZero_of h) m (rd h t)" for t
  proof -
    obtain \<sigma>' where "wal_run m \<sigma> \<sigma>'" and w: "word_writes (iZero_of h) m (wal_pages (shm_of \<sigma>') h) (rd h t)"
      using seen by blast
    then have "word_writes (iZero_of h) m (wal_pages (shm_of \<sigma>) h) (wal_pages (shm_of \<sigma>') h)"
      using wal_run_writes assms(1,2) by (simp add: writes_behind_def)
    with w have "word_writes (iZero_of h) m (wal_pages (shm_of \<sigma>) h) (rd h t)" by (rule rtranclp_trans [rotated])
    from snapshot_word_writes [OF this D] show ?thesis .
  qed
  then show "\<exists>D. \<forall>t. snapshot D (frame_pg (take m L) h) (table_len (length (take m L)) h) (iZero_of h)
      (length (take m L)) (rd h t)" unfolding len by blast
qed (rule assms(6))

lemma steady_const: "steady (\<lambda>t. p)"
  by (simp add: steady_def)

text \<open>A table that does not change always has a free slot.\<close>

lemma index_free:
  assumes "index_of L s" and "iZero_of h < length L"
  shows "free_for pgno (\<lambda>t. wal_pages s h)"
proof -
  have I: "indexed (frame_pg L h) (table_len (length L) h) h (wal_pages s h)"
    using assms by (simp add: index_of_def)
  then have "table_len (length L) h \<le> 4096" using le_trans [OF _ page_frames_pos(2)] by (auto simp: indexed_def)
  moreover obtain d where "d \<le> table_len (length L) h" "aHash (wal_pages s h) (probe pgno d) = 0"
    by (rule free_slot [OF I])
  ultimately show ?thesis unfolding free_for_def by (intro exI [of _ d]) simp
qed

lemma find_frame_quiet:
  assumes "maps_all env" and I: "index_of L s" and m: "mxFrame (hdr v) = m" "m \<le> length L"
    and "readLock v \<noteq> 0 \<or> bShmUnreliable v"
  shows "\<exists>v'. sqlite3WalFindFrame env (\<lambda>h t. wal_pages s h) v pgno
    = Some (SQLITE_OK, last_frame (take m L) pgno (minFrame v) m, v')"
proof -
  have len: "length (take m L) = m" using m by simp
  have "reads_log (take m L) (\<lambda>h t. wal_pages s h)"
    unfolding reads_log_def len using index_snapshot [OF I m(2)] steady_const by metis
  moreover have "free_for pgno (\<lambda>t. wal_pages s g)" if "iZero_of g < m" for g
    by (rule index_free [OF I]) (use that m in simp)
  ultimately show ?thesis using find_frame_reads [of env "take m L" "\<lambda>h t. wal_pages s h" v pgno] assms len by auto
qed

lemma frames_index_ok:
  assumes "index_of L s" and "mxFrame (hdr w) \<le> length L" and "\<forall>(a, p) \<in> set pList. p \<noteq> 0"
    and "filter fst pList \<noteq> []"
    and run: "frames_index env w s pList nExtra szPage isCommit nTruncate = Some (SQLITE_OK, w', s')"
  defines "pgnos \<equiv> map snd (filter fst pList)"
  defines "L' \<equiv> take (mxFrame (hdr w)) L @ pgnos @ replicate nExtra (last pgnos)"
  shows "index_of L' s'" and "mxFrame (hdr w') = length L'"
proof -
  let ?pg = "pgnos @ replicate nExtra (last pgnos)"
  obtain f u t where F: "index_frames env w s (mxFrame (hdr w)) ?pg = Some (SQLITE_OK, f, u, t)"
    "wal_pages s' = wal_pages t" "mxFrame (hdr w') = f"
    by (rule frames_index_split [OF run, folded pgnos_def]) blast
  have ne: "pgnos \<noteq> []" using assms(4) by (simp add: pgnos_def)
  have "\<forall>x \<in> set pgnos. x \<noteq> 0" using assms(3) by (force simp: pgnos_def)
  then have nz: "\<forall>x \<in> set ?pg. x \<noteq> 0" using ne by (auto simp: in_set_replicate)
  have "f = mxFrame (hdr w) + length ?pg \<and> index_of L' t"
    using index_frames_index(1) [OF assms(1) nz F(1)] assms(2) ne by (simp add: L'_def)
  then show "index_of L' s'" "mxFrame (hdr w') = length L'"
    using F assms(2) index_of_pages [OF F(2)] by (simp_all add: L'_def)
qed

subsection \<open>Properties\<close>

text \<open>C32. In every state that connections can reach the index is exact: it holds some log \<open>L\<close>, with one
  entry in the right place for each frame, behind no free slot of its search and behind all
  older frames of the page, with no entry besides; the log reaches at least to the end of the
  writer's transaction, and that to the end of the last transaction and of the reader's. This
  includes the states after rollbacks, failed appends and the death of a writer.\<close>

theorem wal_index_exact:
  assumes "wal_reach (w, s, ms, r)"
  shows "\<exists>L. index_of L s \<and> mxFrame (live_hdr s) \<le> mxFrame (hdr w) \<and> mxFrame (hdr w) \<le> length L
    \<and> (\<forall>m. r = Some m \<longrightarrow> m \<le> mxFrame (live_hdr s))"
  using wal_reach_inv [OF assms] wal_logD(1-3,5) by (fastforce simp: wal_inv_def)


text \<open>C34. After the frames of a set of pages have gone into the index behind the end of the log, which
  may have removed frames that were given up, a search with the new end of the log finds the
  newest frame of each page in the log with the new frames.\<close>

theorem append_then_find:
  assumes "index_of L s" and "mxFrame (hdr w) \<le> length L" and "\<forall>(a, p) \<in> set pList. p \<noteq> 0"
    and "filter fst pList \<noteq> []"
    and "frames_index env w s pList nExtra szPage isCommit nTruncate = Some (SQLITE_OK, w', s')"
    and "maps_all env'" and "mxFrame (hdr v) = mxFrame (hdr w')" and "readLock v \<noteq> 0"
  defines "pgnos \<equiv> map snd (filter fst pList)"
  defines "L' \<equiv> take (mxFrame (hdr w)) L @ pgnos @ replicate nExtra (last pgnos)"
  shows "mxFrame (hdr w') = length L' \<and> (\<exists>v'. sqlite3WalFindFrame env' (\<lambda>h t. wal_pages s' h) v pgno
    = Some (SQLITE_OK, last_frame L' pgno (minFrame v) (length L'), v'))"
proof -
  note X = frames_index_ok [OF assms(1-5), folded pgnos_def, folded L'_def]
  from find_frame_quiet [OF assms(6) X(1), of v "length L'" pgno] X(2) assms(7,8) show ?thesis by simp
qed

text \<open>The page numbers of frames.\<close>

lemma walFramePgno_index:
  assumes "index_of L s" and "0 < f" and "f \<le> length L"
  shows "walFramePgno s f = L ! (f - 1)"
proof -
  let ?h = "walFramePage f"
  note P = frame_place [OF assms(2)]
  have "iZero_of ?h < length L" using P assms(3) by linarith
  then have I: "indexed (frame_pg L ?h) (table_len (length L) ?h) ?h (wal_pages s ?h)" using assms(1) by (simp add: index_of_def)
  have "f - iZero_of ?h \<le> table_len (length L) ?h" "1 \<le> f - iZero_of ?h" using P assms(3) by (auto simp: table_len_def)
  with I have "aPgno (wal_pages s ?h) (f - iZero_of ?h) = frame_pg L ?h (f - iZero_of ?h)"
    by (auto simp: indexed_def placed_def)
  moreover have "frame_pg L ?h (f - iZero_of ?h) = L ! (f - 1)" using P by (simp add: frame_pg_def)
  moreover have "(f - 1 - HASHTABLE_NPAGE_ONE) mod HASHTABLE_NPAGE + 1 = f - iZero_of ?h" if "?h \<noteq> 0"
  proof -
    obtain k where k: "?h = Suc k" using \<open>?h \<noteq> 0\<close> by (cases ?h) auto
    have z: "iZero_of ?h = HASHTABLE_NPAGE_ONE + k * HASHTABLE_NPAGE" by (simp add: iZero_of_def k)
    have b: "f - iZero_of ?h - 1 < HASHTABLE_NPAGE" "1 \<le> f - iZero_of ?h"
      using P by (auto simp: page_frames_def wal_sizes split: if_splits)
    have "f - 1 - HASHTABLE_NPAGE_ONE = (f - iZero_of ?h - 1) + k * HASHTABLE_NPAGE" using P z by linarith
    then have "(f - 1 - HASHTABLE_NPAGE_ONE) mod HASHTABLE_NPAGE = f - iZero_of ?h - 1" using b(1) by simp
    with b(2) show ?thesis by simp
  qed
  ultimately show ?thesis by (cases "?h = 0") (simp_all add: walFramePgno_def Let_def)
qed

lemma undo_loop_pages:
  assumes "index_of L s" and "\<And>p. xUndo p = SQLITE_OK"
  shows "f + k \<le> length L \<Longrightarrow> undo_loop s xUndo (f + 1) k = (SQLITE_OK, take k (drop f L))"
proof (induction k arbitrary: f)
  case (Suc k)
  have "walFramePgno s (f + 1) = L ! f" using walFramePgno_index [OF assms(1), of "f + 1"] Suc.prems by simp
  moreover have "undo_loop s xUndo (f + 1 + 1) k = (SQLITE_OK, take k (drop (f + 1) L))" by (rule Suc.IH) (use Suc.prems in simp)
  moreover have "take (Suc k) (drop f L) = L ! f # take k (drop (f + 1) L)"
    using Suc.prems Cons_nth_drop_Suc [of f L, symmetric] by simp
  ultimately show ?case using assms(2) [of "L ! f"] by (simp add: Let_def)
qed simp

text \<open>C35. A rollback restores the header of the last transaction, calls back for the pages of exactly
  the frames that the transaction wrote, in their order, and leaves an index in which every
  reader finds what the last transaction left.\<close>

theorem undo_restores:
  assumes "index_of L s" and "mxFrame (live_hdr s) \<le> mxFrame (hdr w)" and "mxFrame (hdr w) \<le> length L"
    and "writeLock w" and "maps_all env" and "\<And>p. xUndo p = SQLITE_OK"
    and "mxFrame (hdr v) = mxFrame (live_hdr s)" and "readLock v \<noteq> 0"
  shows "\<exists>w' s' v'. sqlite3WalUndo env xUndo w s
      = Some (SQLITE_OK, drop (mxFrame (live_hdr s)) (take (mxFrame (hdr w)) L), w', s')
    \<and> hdr w' = live_hdr s \<and> live_hdr s' = live_hdr s
    \<and> sqlite3WalFindFrame env (\<lambda>h t. wal_pages s' h) v pgno
      = Some (SQLITE_OK, last_frame L pgno (minFrame v) (mxFrame (live_hdr s)), v')"
proof -
  let ?w = "w\<lparr>hdr := live_hdr s\<rparr>" and ?m = "mxFrame (live_hdr s)" and ?M = "mxFrame (hdr w)"
  have loop: "undo_loop s xUndo (?m + 1) (?M - ?m) = (SQLITE_OK, drop ?m (take ?M L))"
    using undo_loop_pages [where f = ?m and k = "?M - ?m", OF assms(1,6)] assms(2,3) by (simp add: drop_take)
  have "\<exists>w' s'. (if ?M \<noteq> ?m then walCleanupHash env ?w s else Some (?w, s)) = Some (w', s')
    \<and> hdr w' = live_hdr s \<and> live_hdr s' = live_hdr s \<and> (\<exists>K. index_of K s' \<and> take ?m K = take ?m L \<and> ?m \<le> length K)"
  proof (cases "?M = ?m")
    case True
    then show ?thesis using assms(1,3) by auto
  next
    case False
    have "\<exists>w' s'. walCleanupHash env ?w s = Some (w', s')"
    proof -
      obtain u where "walHashGet env ?w (walFramePage ?m) = (SQLITE_OK, True, iZero_of (walFramePage ?m), u)"
        by (rule walHashGet_ok [OF assms(5)])
      then show ?thesis by (simp add: walCleanupHash_def Let_def)
    qed
    then obtain w' s' where c: "walCleanupHash env ?w s = Some (w', s')" by blast
    have "mxFrame (hdr ?w) \<le> length L" using assms(2,3) by simp
    note C = cleanup_index(1-3) [OF c assms(1) this]
    have "index_of (take ?m L) s' \<and> take ?m (take ?m L) = take ?m L \<and> ?m \<le> length (take ?m L)"
      using C(1) assms(2,3) by simp
    with C c False show ?thesis by auto
  qed
  then obtain w' s' K where U: "(if ?M \<noteq> ?m then walCleanupHash env ?w s else Some (?w, s)) = Some (w', s')"
    "hdr w' = live_hdr s" "live_hdr s' = live_hdr s" "index_of K s'" "take ?m K = take ?m L" "?m \<le> length K" by blast
  obtain v' where "sqlite3WalFindFrame env (\<lambda>h t. wal_pages s' h) v pgno
      = Some (SQLITE_OK, last_frame (take ?m K) pgno (minFrame v) ?m, v')"
    using find_frame_quiet [OF assms(5) U(4) assms(7) U(6)] assms(8) by blast
  moreover have "last_frame (take ?m L) pgno (minFrame v) ?m = last_frame L pgno (minFrame v) ?m"
    unfolding last_frame_def by (rule newest_cong) simp
  moreover have "sqlite3WalUndo env xUndo w s = Some (SQLITE_OK, drop ?m (take ?M L), w', s')"
    using assms(4) loop U(1) by (simp add: sqlite3WalUndo_def Let_def)
  ultimately show ?thesis using U by auto
qed

subsection \<open>Witnesses\<close>

text \<open>An empty log, and what the first transaction, of one page, makes of it.\<close>

definition demo_env :: shm_env where
  "demo_env = \<lparr>realloc_ok = True, malloc_ok = (\<lambda>_. True), shm_map = (\<lambda>_. (SQLITE_OK, True))\<rparr>"

definition demo_w :: Wal where
  "demo_w = \<lparr>apWiData = [True], readLock = 1, exclusiveMode = WAL_NORMAL_MODE, writeLock = True, shm_rdonly = False,
     bShmUnreliable = False, hdr = \<lparr>iChange = 0, isInit = True, bigEndCksum = False, hdr_szPage = 4096, mxFrame = 0,
       nPage = 0, aFrameCksum = (0, 0), aSalt = (0, 0)\<rparr>, minFrame = 1, iReCksum = 0, nCkpt = 0, truncateOnCommit = False,
     wal_szPage = 4096\<rparr>"

definition demo_s :: WalShm where
  "demo_s = \<lparr>live_hdr = hdr demo_w, nBackfill = 0, nBackfillAttempted = 0, aReadMark = [0, 0, 0, 0, 0],
     wal_pages = (\<lambda>_. \<lparr>aPgno = (\<lambda>_. 0), aHash = (\<lambda>_. 0)\<rparr>)\<rparr>"

definition demo_w1 :: Wal where
  "demo_w1 = demo_w\<lparr>hdr := (hdr demo_w)\<lparr>iChange := 1, hdr_szPage := 4096, mxFrame := 1, nPage := 7\<rparr>\<rparr>"

definition demo_s1 :: WalShm where
  "demo_s1 = demo_s\<lparr>live_hdr := hdr demo_w1, wal_pages := (wal_pages demo_s)(0 :=
     \<lparr>aPgno = (\<lambda>_. 0)(1 := 5), aHash = (\<lambda>_. 0)(walHash 5 := 1)\<rparr>)\<rparr>"

lemma demo_maps: "maps_all demo_env"
  by (simp add: maps_all_def demo_env_def)

lemma demo_empty: "index_of [] demo_s"
  by (simp add: index_of_def)

lemma demo_frames: "frames_index demo_env demo_w demo_s [(True, 5)] 0 4096 True 7 = Some (SQLITE_OK, demo_w1, demo_s1)"
  by (simp add: frames_index_def walIndexAppend_def walFramePage_def wal_sizes walHashGet_def walIndexPage_def
      demo_env_def demo_w_def demo_s_def demo_w1_def demo_s1_def Let_def zero_page_def append_slot.simps walIndexWriteHdr_def
      fun_eq_iff sqlite_codes page_frames_def)

lemma demo_index: "index_of [5] demo_s1" "mxFrame (hdr demo_w1) = 1" "live_hdr demo_s1 = hdr demo_w1"
  using frames_index_ok(1) [OF demo_empty _ _ _ demo_frames] by (simp_all add: demo_w_def demo_w1_def demo_s1_def)

lemma demo_run: "wal_step\<^sup>*\<^sup>* (demo_w, demo_s, [], None) (demo_w1, demo_s1, [], Some 1)"
proof -
  have "wal_step (demo_w, demo_s, [], None) (demo_w1, demo_s1, [], None)"
    using wal_step.frames [OF demo_frames, of "[]" None] by simp
  moreover have "wal_step (demo_w1, demo_s1, [], None) (demo_w1, demo_s1, [], Some 1)"
    using wal_step.begin_read [of demo_w1 demo_s1 "[]"] demo_index by simp
  ultimately show ?thesis by simp
qed

lemma demo_reach: "wal_reach (demo_w1, demo_s1, [], Some 1)"
  using demo_run unfolding wal_reach_def
  by (intro exI [of _ "(demo_w, demo_s, [], None)"]) (simp add: wal_init_def demo_s_def demo_w_def)

lemma wal_index_exact_witness: "\<exists>L. index_of L demo_s1 \<and> mxFrame (live_hdr demo_s1) \<le> mxFrame (hdr demo_w1)
    \<and> mxFrame (hdr demo_w1) \<le> length L \<and> (\<forall>m. Some 1 = Some m \<longrightarrow> m \<le> mxFrame (live_hdr demo_s1))"
  by (rule wal_index_exact [OF demo_reach])


lemma append_then_find_witness:
  "mxFrame (hdr demo_w1) = length (take (mxFrame (hdr demo_w)) ([] :: u32 list) @ [5] @ replicate 0 5)
    \<and> (\<exists>v'. sqlite3WalFindFrame demo_env (\<lambda>h t. wal_pages demo_s1 h) demo_w1 5 = Some (SQLITE_OK, last_frame [5] 5 1 1, v'))"
  using append_then_find [OF demo_empty _ _ _ demo_frames demo_maps refl, of 5]
  by (simp add: demo_w_def demo_w1_def)

lemma undo_restores_witness:
  "\<exists>w' s' v'. sqlite3WalUndo demo_env (\<lambda>_. SQLITE_OK) (demo_w1\<lparr>hdr := (hdr demo_w1)\<lparr>mxFrame := 1\<rparr>\<rparr>) (demo_s1\<lparr>live_hdr := hdr demo_w\<rparr>)
      = Some (SQLITE_OK, [5], w', s')
    \<and> hdr w' = hdr demo_w \<and> live_hdr s' = hdr demo_w
    \<and> sqlite3WalFindFrame demo_env (\<lambda>h t. wal_pages s' h) demo_w 5 = Some (SQLITE_OK, last_frame [5] 5 1 0, v')"
proof -
  have I: "index_of [5] (demo_s1\<lparr>live_hdr := hdr demo_w\<rparr>)" using demo_index index_of_pages [of "demo_s1\<lparr>live_hdr := hdr demo_w\<rparr>" demo_s1] by simp
  from undo_restores [OF I, of "demo_w1\<lparr>hdr := (hdr demo_w1)\<lparr>mxFrame := 1\<rparr>\<rparr>" demo_env "\<lambda>_. SQLITE_OK" demo_w 5] demo_maps
  show ?thesis by (simp add: demo_w_def demo_w1_def)
qed

subsection \<open>Two weak spots\<close>

text \<open>
  A slot of a later frame is in use at the first read and cleared by a rollback before the
  second: the number of the frame becomes \<open>iZero\<close>, and the word before the page numbers decides.
\<close>

lemma find_loop_race:
  defines "p \<equiv> \<lparr>aPgno = (\<lambda>_. 0)(0 := 5), aHash = (\<lambda>_. 0)\<rparr>"
  shows "find_loop (\<lambda>t. if t = 0 then p\<lparr>aHash := (\<lambda>_. 0)(walHash 5 := 200)\<rparr> else p) 4100 1 (iZero_of 1) 0 5 8192 (walHash 5) 0
    = Some 4062"
proof -
  have "find_loop (\<lambda>t. if t = 0 then p\<lparr>aHash := (\<lambda>_. 0)(walHash 5 := 200)\<rparr> else p) 4100 1 (iZero_of 1) 0 5 (Suc 8191) (walHash 5) 0
    = Some 4062"
    by (simp add: find_loop.simps p_def Let_def iZero_of_def wal_sizes)
  then show ?thesis by simp
qed

text \<open>The file system may answer \<open>SQLITE_OK\<close> without a page to a connection that does not write.\<close>

lemma find_frame_unmapped:
  assumes "mxFrame (hdr w) = 1" and "minFrame w = 1" and "readLock w = 1" and "apWiData w = []" and "exclusiveMode w = WAL_NORMAL_MODE"
    and "realloc_ok env" and "shm_map env 0 = (SQLITE_OK, False)"
  shows "sqlite3WalFindFrame env rd w pgno = None"
  using assms by (simp add: sqlite3WalFindFrame_def Let_def walFramePage_def wal_sizes find_hashes.simps walHashGet_def
      walIndexPage_def walIndexPageRealloc_def sqlite_codes SQLITE_READONLY_def)

end
