(* ===== verification/WalIterator.thy ===== *)
theory WalIterator
  imports WalIndex
begin

section \<open>The iterator over the pages of the log\<close>

text \<open>
  A checkpoint visits the pages of the log in ascending order, each with its newest frame
  (\<open>wal.c\<close>). The iterator sorts the frames of each page of the index by their database page, by a
  merge sort in place that drops older frames of a page, and merges the sorted segments as it
  goes.

  An array of slots is a list, a part of it an offset with a length. The content that a sort
  looks at is a function of the slot.
\<close>

subsection \<open>Sorting a segment\<close>

definition skip_equal :: "(nat \<Rightarrow> u32) \<Rightarrow> nat \<Rightarrow> nat list \<Rightarrow> nat list" where
  "skip_equal aContent logpage ls =
     (case ls of [] \<Rightarrow> [] | l # ls' \<Rightarrow> if aContent l = aContent logpage then ls' else ls)"

lemma length_skip [simp]: "length (skip_equal c x ls) \<le> length ls"
  by (simp add: skip_equal_def split: list.splits)

lemma length_skip_less [simp]: "length (skip_equal c x ls) < Suc (length ls)"
  "length (skip_equal c x (l # ls)) < Suc (Suc (length ls))"
proof -
  show "length (skip_equal c x ls) < Suc (length ls)" using length_skip [of c x ls] by (rule le_imp_less_Suc)
  show "length (skip_equal c x (l # ls)) < Suc (Suc (length ls))" using length_skip [of c x "l # ls"] by simp
qed

text \<open>The loop of \<open>walMerge\<close>: what is left of the two lists, and what it writes.\<close>

function (sequential) merge_loop :: "(nat \<Rightarrow> u32) \<Rightarrow> nat list \<Rightarrow> nat list \<Rightarrow> nat list" where
  "merge_loop aContent [] [] = []"
| "merge_loop aContent (l # ls) [] = l # merge_loop aContent (skip_equal aContent l ls) []"
| "merge_loop aContent [] (r # rs) = r # merge_loop aContent [] rs"
| "merge_loop aContent (l # ls) (r # rs) =
     (if aContent l < aContent r then l # merge_loop aContent (skip_equal aContent l ls) (r # rs)
      else r # merge_loop aContent (skip_equal aContent r (l # ls)) rs)"
  by pat_completeness auto
termination merge_loop
  by (relation "measure (\<lambda>(c, ls, rs). length ls + length rs)")
    (auto intro: less_imp_le)

definition walMerge :: "(nat \<Rightarrow> u32) \<Rightarrow> nat list \<Rightarrow> nat \<times> nat \<Rightarrow> nat \<times> nat \<Rightarrow> nat list \<times> nat \<times> nat" where
  "walMerge aContent a left right =
     (case (left, right) of ((aLeft, nLeft), (aRight, nRight)) \<Rightarrow>
       let aTmp = merge_loop aContent (take nLeft (drop aLeft a)) (take nRight (drop aRight a))
       in (take aLeft a @ aTmp @ drop (aLeft + length aTmp) a, aLeft, length aTmp))"

text \<open>The loop of \<open>walMergesort\<close> over the sublists to merge a new element with.\<close>

function merge_carry :: "(nat \<Rightarrow> u32) \<Rightarrow> (nat \<Rightarrow> nat \<times> nat) \<Rightarrow> nat \<Rightarrow> nat \<Rightarrow> nat list \<Rightarrow> nat \<times> nat
    \<Rightarrow> nat \<times> nat list \<times> nat \<times> nat" where
  "merge_carry aContent aSub iList iSub a aMerge =
     (if odd (iList div 2 ^ iSub)
      then case walMerge aContent a (aSub iSub) aMerge of (a, aMerge) \<Rightarrow>
             merge_carry aContent aSub iList (iSub + 1) a aMerge
      else (iSub, a, aMerge))"
  by auto
termination merge_carry
proof (relation "measure (\<lambda>(c, sub, iList, iSub, a, m). iList div 2 ^ iSub)", goal_cases)
  case (2 c sub iList iSub a m)
  from 2(1) have "0 < iList div 2 ^ iSub" by (rule odd_pos)
  then have "iList div 2 ^ iSub div 2 < iList div 2 ^ iSub" by simp
  then have "iList div 2 ^ (iSub + 1) < iList div 2 ^ iSub" by (simp only: power_Suc2 div_mult2_eq Suc_eq_plus1 [symmetric])
  then show ?case by simp
qed simp

declare merge_carry.simps [simp del]

fun sort_loop :: "(nat \<Rightarrow> u32) \<Rightarrow> nat \<Rightarrow> nat \<Rightarrow> nat list \<Rightarrow> (nat \<Rightarrow> nat \<times> nat) \<Rightarrow> nat \<Rightarrow> nat \<times> nat
    \<Rightarrow> nat list \<times> (nat \<Rightarrow> nat \<times> nat) \<times> nat \<times> nat \<times> nat" where
  "sort_loop aContent 0 iList a aSub iSub aMerge = (a, aSub, iSub, aMerge)"
| "sort_loop aContent (Suc k) iList a aSub iSub aMerge =
     (case merge_carry aContent aSub iList 0 a (iList, 1) of (iSub, a, aMerge) \<Rightarrow>
        sort_loop aContent k (iList + 1) a (aSub(iSub := aMerge)) iSub aMerge)"

text \<open>Thirteen sublists are enough for the frames of a page.\<close>

definition ArraySize_aSub :: nat where "ArraySize_aSub = 13"

fun merge_rest :: "(nat \<Rightarrow> u32) \<Rightarrow> (nat \<Rightarrow> nat \<times> nat) \<Rightarrow> nat \<Rightarrow> nat \<Rightarrow> nat \<Rightarrow> nat list \<Rightarrow> nat \<times> nat
    \<Rightarrow> nat list \<times> nat \<times> nat" where
  "merge_rest aContent aSub nList 0 iSub a aMerge = (a, aMerge)"
| "merge_rest aContent aSub nList (Suc k) iSub a aMerge =
     (if odd (nList div 2 ^ iSub)
      then case walMerge aContent a (aSub iSub) aMerge of (a, aMerge) \<Rightarrow>
             merge_rest aContent aSub nList k (iSub + 1) a aMerge
      else merge_rest aContent aSub nList k (iSub + 1) a aMerge)"

definition walMergesort :: "(nat \<Rightarrow> u32) \<Rightarrow> nat list \<Rightarrow> nat \<Rightarrow> nat list \<times> nat \<times> nat" where
  "walMergesort aContent aList nList =
     (case sort_loop aContent nList 0 aList (\<lambda>_. (0, 0)) 0 (0, 0) of (a, aSub, iSub, aMerge) \<Rightarrow>
        merge_rest aContent aSub nList (ArraySize_aSub - (iSub + 1)) (iSub + 1) a aMerge)"

subsection \<open>The sort is right\<close>

text \<open>The newest slots of each page among those from \<open>lo\<close> to \<open>hi\<close>, ascending by page.\<close>

definition is_run :: "(nat \<Rightarrow> u32) \<Rightarrow> nat \<Rightarrow> nat \<Rightarrow> nat list \<Rightarrow> bool" where
  "is_run c lo hi xs \<longleftrightarrow> sorted_wrt (\<lambda>i j. c i < c j) xs
     \<and> set xs = {i. lo \<le> i \<and> i < hi \<and> (\<forall>j. i < j \<and> j < hi \<longrightarrow> c j \<noteq> c i)}"

lemma skip_none: "\<forall>l \<in> set ls. c x < c l \<Longrightarrow> skip_equal c x ls = ls"
  by (auto simp: skip_equal_def split: list.splits)

lemma merge_loop_spec:
  assumes "sorted_wrt (\<lambda>i j. c i < c j) ls" and "sorted_wrt (\<lambda>i j. c i < c j) rs"
  shows "sorted_wrt (\<lambda>i j. c i < c j) (merge_loop c ls rs)
    \<and> set (merge_loop c ls rs) = set rs \<union> {l \<in> set ls. c l \<notin> c ` set rs}
    \<and> length (merge_loop c ls rs) \<le> length ls + length rs"
  using assms
proof (induction c ls rs rule: merge_loop.induct)
  case (2 c l ls)
  then show ?case using skip_none [of ls c l] by auto
next
  case (4 c l ls r rs)
  show ?case
  proof (cases "c l < c r")
    case True
    have s: "skip_equal c l ls = ls" using 4(3) by (intro skip_none) simp
    note IH = 4(1) [OF True, unfolded s]
    have "\<forall>x \<in> set (r # rs). c l < c x" using True 4(4) by auto
    then show ?thesis using IH 4(3,4) True s by fastforce
  next
    case False
    let ?ls = "skip_equal c r (l # ls)"
    have s: "?ls = (if c l = c r then ls else l # ls)" by (simp add: skip_equal_def)
    have gt: "\<forall>x \<in> set ?ls. c r < c x" using 4(3) False s by (auto simp: not_less)
    have len: "length ?ls \<le> Suc (length ls)" using s by simp
    have "sorted_wrt (\<lambda>i j. c i < c j) ?ls" using 4(3) s by simp
    note IH = 4(2) [OF False this]
    have eq: "{x \<in> set (l # ls). c x \<notin> c ` set (r # rs)} = {x \<in> set ?ls. c x \<notin> c ` set rs}"
    proof -
      have "c x \<noteq> c r" if "x \<in> set ?ls" for x using gt that by (metis less_irrefl)
      moreover have "x \<in> set ?ls" if "x \<in> set (l # ls)" "c x \<noteq> c r" for x using s that by auto
      moreover have "set ?ls \<subseteq> set (l # ls)" using s by auto
      ultimately show ?thesis by auto
    qed
    have m: "merge_loop c (l # ls) (r # rs) = r # merge_loop c ?ls rs" using False by simp
    have rs: "\<forall>x \<in> set rs. c r < c x" "sorted_wrt (\<lambda>i j. c i < c j) rs" using 4(4) by simp_all
    have I: "sorted_wrt (\<lambda>i j. c i < c j) (merge_loop c ?ls rs)"
      "set (merge_loop c ?ls rs) = set rs \<union> {x \<in> set ?ls. c x \<notin> c ` set rs}"
      "length (merge_loop c ?ls rs) \<le> length ?ls + length rs" using IH [OF rs(2)] by blast+
    have "\<forall>x \<in> set (merge_loop c ?ls rs). c r < c x" using I(2) gt rs(1) by blast
    then have "sorted_wrt (\<lambda>i j. c i < c j) (r # merge_loop c ?ls rs)" using I(1) by simp
    moreover have "set (r # merge_loop c ?ls rs) = set (r # rs) \<union> {x \<in> set (l # ls). c x \<notin> c ` set (r # rs)}"
      unfolding eq using I(2) by auto
    moreover have "length (r # merge_loop c ?ls rs) \<le> length (l # ls) + length (r # rs)" using I(3) len by simp
    ultimately show ?thesis unfolding m by blast
  qed
qed auto

lemma run_merge:
  assumes "is_run c lo mid ls" and "is_run c mid hi rs" and "lo \<le> mid" and "mid \<le> hi"
  shows "is_run c lo hi (merge_loop c ls rs)" and "length (merge_loop c ls rs) \<le> length ls + length rs"
proof -
  have S: "sorted_wrt (\<lambda>i j. c i < c j) ls" "sorted_wrt (\<lambda>i j. c i < c j) rs" using assms by (simp_all add: is_run_def)
  note M = merge_loop_spec [OF S]
  have pages: "(\<exists>j \<in> set rs. c j = c i) \<longleftrightarrow> (\<exists>j. mid \<le> j \<and> j < hi \<and> c j = c i)" for i
  proof
    assume "\<exists>j. mid \<le> j \<and> j < hi \<and> c j = c i"
    then obtain j where j: "mid \<le> j" "j < hi" "c j = c i" by blast
    define k where "k = (GREATEST k. mid \<le> k \<and> k < hi \<and> c k = c i)"
    have k: "mid \<le> k \<and> k < hi \<and> c k = c i" unfolding k_def by (rule GreatestI_nat [of _ j hi]) (use j in auto)
    have "c n \<noteq> c k" if "k < n" "n < hi" for n
    proof
      assume "c n = c k"
      then have "n \<le> k" using k that unfolding k_def by (intro Greatest_le_nat [of _ _ hi]) auto
      with that show False by simp
    qed
    then have "k \<in> set rs" using assms(2) k by (simp add: is_run_def)
    with k show "\<exists>j \<in> set rs. c j = c i" by blast
  qed (use assms(2) in \<open>auto simp: is_run_def\<close>)
  have "set (merge_loop c ls rs) = {i. lo \<le> i \<and> i < hi \<and> (\<forall>j. i < j \<and> j < hi \<longrightarrow> c j \<noteq> c i)}"
  proof (intro set_eqI)
    fix i
    have "i \<in> set (merge_loop c ls rs) \<longleftrightarrow> i \<in> set rs \<or> i \<in> set ls \<and> \<not> (\<exists>j. mid \<le> j \<and> j < hi \<and> c j = c i)"
      using M pages [of i] by (auto simp: image_iff)
    also have "\<dots> \<longleftrightarrow> lo \<le> i \<and> i < hi \<and> (\<forall>j. i < j \<and> j < hi \<longrightarrow> c j \<noteq> c i)"
      using assms by (cases "i < mid") (auto simp: is_run_def dest: leD)
    finally show "i \<in> set (merge_loop c ls rs) \<longleftrightarrow> i \<in> {i. lo \<le> i \<and> i < hi \<and> (\<forall>j. i < j \<and> j < hi \<longrightarrow> c j \<noteq> c i)}" by simp
  qed
  then show "is_run c lo hi (merge_loop c ls rs)" "length (merge_loop c ls rs) \<le> length ls + length rs"
    using M by (simp_all add: is_run_def)
qed

text \<open>A part of the array is the run of the slots from \<open>lo\<close> to \<open>hi\<close>, and starts in its place.\<close>

definition block :: "(nat \<Rightarrow> u32) \<Rightarrow> nat list \<Rightarrow> nat \<times> nat \<Rightarrow> nat \<Rightarrow> nat \<Rightarrow> bool" where
  "block c a m lo hi \<longleftrightarrow> fst m = lo \<and> lo < hi \<and> lo + snd m \<le> hi \<and> hi \<le> length a
     \<and> is_run c lo hi (take (snd m) (drop lo a))"

lemma block_take:
  assumes "block c a m lo hi" and "take k a' = take k a" and "hi \<le> k" and "length a' = length a"
  shows "block c a' m lo hi"
proof -
  have "take (snd m) (drop lo x) = drop lo (take (lo + snd m) (take k x))" for x :: "nat list"
    using assms(1,3) by (simp add: block_def drop_take)
  then have "take (snd m) (drop lo a') = take (snd m) (drop lo a)" using assms(2) by metis
  then show ?thesis using assms by (simp add: block_def)
qed

lemma walMerge_block:
  assumes L: "block c a ml lo mid" and R: "block c a mr mid hi" and run: "walMerge c a ml mr = (a', m)"
  shows "block c a' m lo hi" and "length a' = length a" and "take lo a' = take lo a" and "drop hi a' = drop hi a"
proof -
  let ?l = "take (snd ml) (drop lo a)" and ?r = "take (snd mr) (drop mid a)"
  let ?out = "merge_loop c ?l ?r"
  note l = L [unfolded block_def] and r = R [unfolded block_def]
  have M: "is_run c lo hi ?out" "length ?out \<le> length ?l + length ?r"
    using run_merge [of c lo mid ?l hi ?r] l r by simp_all
  have "length ?l \<le> mid - lo" "length ?r \<le> hi - mid" using l r by auto
  then have len: "lo + length ?out \<le> hi" using l r M(2) by linarith
  have e: "a' = take lo a @ ?out @ drop (lo + length ?out) a" "m = (lo, length ?out)"
    using run l r by (auto simp: walMerge_def Let_def split: prod.splits)
  have low: "length (take lo a) = lo" using l r by simp
  have "take (length ?out) (drop lo a') = ?out" using e(1) low by simp
  then show "block c a' m lo hi" using M(1) len l r e low by (simp add: block_def)
  show "length a' = length a" using e(1) low len r by simp
  show "take lo a' = take lo a" using e(1) low by simp
  have "drop hi a' = drop (hi - lo - length ?out) (drop (lo + length ?out) a)"
    using e(1) low len by simp
  then show "drop hi a' = drop hi a" using len by simp
qed

lemma odd_div_Suc: "odd (k div 2 ^ b) \<Longrightarrow> k div 2 ^ Suc b * 2 ^ Suc b + 2 ^ b = k div 2 ^ b * 2 ^ b" for k :: nat
proof -
  assume "odd (k div 2 ^ b)"
  then have "k div 2 ^ b = 2 * (k div 2 ^ b div 2) + 1" by simp
  moreover have "k div 2 ^ b div 2 = k div 2 ^ Suc b" by (simp only: power_Suc2 div_mult2_eq)
  ultimately have "k div 2 ^ b * 2 ^ b = (2 * (k div 2 ^ Suc b) + 1) * 2 ^ b" by simp
  then show ?thesis by (simp add: algebra_simps)
qed

lemma even_div_Suc: "even (k div 2 ^ b) \<Longrightarrow> k div 2 ^ Suc b * 2 ^ Suc b = k div 2 ^ b * 2 ^ b" for k :: nat
proof -
  assume "even (k div 2 ^ b)"
  then have "k div 2 ^ b = 2 * (k div 2 ^ b div 2)" by simp
  moreover have "k div 2 ^ b div 2 = k div 2 ^ Suc b" by (simp only: power_Suc2 div_mult2_eq)
  ultimately have "k div 2 ^ b * 2 ^ b = (2 * (k div 2 ^ Suc b)) * 2 ^ b" by simp
  then show ?thesis by (simp add: algebra_simps)
qed

lemma div_mult_mono: "i \<le> b \<Longrightarrow> k div 2 ^ b * 2 ^ b \<le> k div 2 ^ i * 2 ^ i" for k :: nat
proof (induction rule: dec_induct)
  case (step b)
  have "k div 2 ^ Suc b * 2 ^ Suc b \<le> k div 2 ^ b * 2 ^ b"
    using odd_div_Suc [of k b] even_div_Suc [of k b] by (cases "odd (k div 2 ^ b)") linarith+
  with step show ?case by (rule_tac le_trans)
qed simp

text \<open>The sublists after \<open>k\<close> elements: one for each bit of \<open>k\<close> from \<open>i\<close> on.\<close>

definition subs_from :: "nat \<Rightarrow> (nat \<Rightarrow> u32) \<Rightarrow> nat list \<Rightarrow> (nat \<Rightarrow> nat \<times> nat) \<Rightarrow> nat \<Rightarrow> bool" where
  "subs_from i c a sub k \<longleftrightarrow> (\<forall>b \<ge> i. odd (k div 2 ^ b) \<longrightarrow>
     block c a (sub b) (k div 2 ^ Suc b * 2 ^ Suc b) (k div 2 ^ b * 2 ^ b))"

lemma subs_from_Suc:
  assumes "subs_from i c a sub k" and "take (k div 2 ^ Suc i * 2 ^ Suc i) a' = take (k div 2 ^ Suc i * 2 ^ Suc i) a"
    and "length a' = length a"
  shows "subs_from (Suc i) c a' sub k"
  unfolding subs_from_def
proof (intro allI impI)
  fix b assume b: "Suc i \<le> b" "odd (k div 2 ^ b)"
  then have "block c a (sub b) (k div 2 ^ Suc b * 2 ^ Suc b) (k div 2 ^ b * 2 ^ b)" using assms(1) by (simp add: subs_from_def)
  then show "block c a' (sub b) (k div 2 ^ Suc b * 2 ^ Suc b) (k div 2 ^ b * 2 ^ b)"
    by (rule block_take [OF _ assms(2) div_mult_mono [OF b(1)] assms(3)])
qed

lemma merge_carry_block:
  assumes "subs_from i c a sub k" and "k mod 2 ^ i = 2 ^ i - 1" and "block c a m (k div 2 ^ i * 2 ^ i) (k + 1)"
    and "merge_carry c sub k i a m = (i', a', m')"
  shows "even (k div 2 ^ i') \<and> k mod 2 ^ i' = 2 ^ i' - 1 \<and> block c a' m' (k div 2 ^ i' * 2 ^ i') (k + 1)
    \<and> subs_from i' c a' sub k \<and> length a' = length a \<and> drop (k + 1) a' = drop (k + 1) a"
  using assms
proof (induction c sub k i a m arbitrary: i' a' m' rule: merge_carry.induct)
  case (1 c sub k i a m)
  show ?case
  proof (cases "odd (k div 2 ^ i)")
    case False
    then show ?thesis using 1(2-) by (subst (asm) merge_carry.simps) simp
  next
    case True
    obtain a1 m1 where w: "walMerge c a (sub i) m = (a1, m1)" by (rule prod.exhaust)
    have "block c a (sub i) (k div 2 ^ Suc i * 2 ^ Suc i) (k div 2 ^ i * 2 ^ i)"
      using 1(2) True by (simp add: subs_from_def)
    note W = walMerge_block [OF this 1(4) w]
    have "k mod 2 ^ Suc i = 2 ^ i * (k div 2 ^ i mod 2) + k mod 2 ^ i"
      by (simp only: power_Suc2 mod_mult2_eq)
    also have "k div 2 ^ i mod 2 = 1" using True by (simp add: odd_iff_mod_2_eq_one)
    also have "2 ^ i * 1 + k mod 2 ^ i = 2 ^ Suc i - 1" using 1(3) by simp
    finally have m: "k mod 2 ^ Suc i = 2 ^ Suc i - 1" .
    have "merge_carry c sub k (i + 1) a1 m1 = (i', a', m')"
      using 1(5) True w by (subst (asm) merge_carry.simps) simp
    then show ?thesis using 1(1) [OF True w [symmetric], of i' a' m'] subs_from_Suc [OF 1(2) W(3,2)] m W by simp
  qed
qed

text \<open>One element more.\<close>

lemma subs_add:
  assumes "even (k div 2 ^ i)" and "k mod 2 ^ i = 2 ^ i - 1" and "block c a m (k div 2 ^ i * 2 ^ i) (k + 1)"
    and "subs_from i c a sub k"
  shows "subs_from 0 c a (sub(i := m)) (k + 1)" and "block c a m ((k + 1) div 2 ^ Suc i * 2 ^ Suc i) (k + 1)"
proof -
  let ?q = "k div 2 ^ i"
  have "k = ?q * 2 ^ i + k mod 2 ^ i" by (rule div_mult_mod_eq [symmetric])
  moreover have "2 ^ i - 1 + 1 = (2 :: nat) ^ i" by simp
  ultimately have k: "k + 1 = (?q + 1) * 2 ^ i" unfolding assms(2) by (metis add.assoc add_mult_distrib mult_1)
  have q: "(k + 1) div 2 ^ i = ?q + 1" unfolding k by simp
  have "(?q + 1) div 2 = ?q div 2" using assms(1) by auto
  then have s: "(k + 1) div 2 ^ Suc i = k div 2 ^ Suc i" by (simp only: power_Suc2 div_mult2_eq q)
  have up: "(k + 1) div 2 ^ b = k div 2 ^ b" if "Suc i \<le> b" for b
  proof -
    have "(2 :: nat) ^ b = 2 ^ Suc i * 2 ^ (b - Suc i)" using that by (simp only: power_add [symmetric] le_add_diff_inverse)
    then show ?thesis by (simp only: div_mult2_eq s)
  qed
  have lo: "(k + 1) div 2 ^ Suc i * 2 ^ Suc i = ?q * 2 ^ i" unfolding s by (rule even_div_Suc [OF assms(1)])
  show "block c a m ((k + 1) div 2 ^ Suc i * 2 ^ Suc i) (k + 1)" unfolding lo by (rule assms(3))
  show "subs_from 0 c a (sub(i := m)) (k + 1)"
    unfolding subs_from_def
  proof (intro allI impI)
    fix b assume b: "odd ((k + 1) div 2 ^ b)"
    consider "b < i" | "b = i" | "Suc i \<le> b" by linarith
    then show "block c a ((sub(i := m)) b) ((k + 1) div 2 ^ Suc b * 2 ^ Suc b) ((k + 1) div 2 ^ b * 2 ^ b)"
    proof cases
      case 1
      then have "(2 :: nat) ^ i = 2 ^ (i - b) * 2 ^ b" by (simp flip: power_add)
      then have "(k + 1) div 2 ^ b = (?q + 1) * 2 ^ (i - b)" unfolding k by (simp add: mult.assoc [symmetric])
      with b 1 show ?thesis by simp
    next
      case 2
      have e: "(k + 1) div 2 ^ i * 2 ^ i = k + 1" unfolding q using k by simp
      show ?thesis unfolding 2 fun_upd_same lo e by (rule assms(3))
    next
      case 3
      then have "block c a (sub b) (k div 2 ^ Suc b * 2 ^ Suc b) (k div 2 ^ b * 2 ^ b)"
        using assms(4) b up [OF 3] by (simp add: subs_from_def)
      then show ?thesis using 3 up [of b] up [of "Suc b"] by simp
    qed
  qed
qed

lemma sort_loop_block:
  assumes "subs_from 0 c a sub k" and "\<forall>j. k \<le> j \<and> j < k + n \<longrightarrow> a ! j = j" and "k + n \<le> length a"
    and "n = 0 \<Longrightarrow> block c a m (k div 2 ^ Suc i * 2 ^ Suc i) k"
    and "sort_loop c n k a sub i m = (a', sub', i', m')"
  shows "subs_from 0 c a' sub' (k + n) \<and> block c a' m' ((k + n) div 2 ^ Suc i' * 2 ^ Suc i') (k + n)
    \<and> length a' = length a \<and> drop (k + n) a' = drop (k + n) a"
  using assms
proof (induction n arbitrary: k a sub i m)
  case 0
  then show ?case by simp
next
  case (Suc n)
  obtain i1 a1 m1 where r: "merge_carry c sub k 0 a (k, 1) = (i1, a1, m1)" by (metis prod_cases3)
  have "take 1 (drop k a) = [k]" using Suc.prems(2,3) by (subst Cons_nth_drop_Suc [symmetric]) auto
  then have b: "block c a (k, 1) (k div 2 ^ 0 * 2 ^ 0) (k + 1)"
    using Suc.prems(3) by (auto simp: block_def is_run_def)
  note C = merge_carry_block [OF Suc.prems(1) _ b r]
  have len: "length a1 = length a" and d: "drop (k + 1) a1 = drop (k + 1) a" using C by simp_all
  have S: "subs_from 0 c a1 (sub(i1 := m1)) (k + 1)" "block c a1 m1 ((k + 1) div 2 ^ Suc i1 * 2 ^ Suc i1) (k + 1)"
    using subs_add [of k i1 c a1 m1 sub] C by simp_all
  have "a1 ! j = j" if "k + 1 \<le> j" "j < k + 1 + n" for j
  proof -
    have "a1 ! j = drop (k + 1) a1 ! (j - (k + 1))" "a ! j = drop (k + 1) a ! (j - (k + 1))"
      using that len Suc.prems(3) by simp_all
    then show ?thesis using d Suc.prems(2) that by simp
  qed
  moreover have "sort_loop c n (k + 1) a1 (sub(i1 := m1)) i1 m1 = (a', sub', i', m')" using Suc.prems(5) r by simp
  ultimately have "subs_from 0 c a' sub' (k + 1 + n) \<and> block c a' m' ((k + 1 + n) div 2 ^ Suc i' * 2 ^ Suc i') (k + 1 + n)
    \<and> length a' = length a1 \<and> drop (k + 1 + n) a' = drop (k + 1 + n) a1"
    using S Suc.prems(3) len by (intro Suc.IH) (simp_all del: fun_upd_apply add: fun_upd_def [symmetric])
  moreover have "drop (k + 1 + n) a1 = drop (k + 1 + n) a" using d by (metis add.commute drop_drop)
  ultimately show ?case using len by simp
qed

lemma merge_rest_block:
  assumes "subs_from i c a sub n" and "block c a m (n div 2 ^ i * 2 ^ i) n" and "merge_rest c sub n k i a m = (a', m')"
  shows "block c a' m' (n div 2 ^ (i + k) * 2 ^ (i + k)) n \<and> length a' = length a \<and> drop n a' = drop n a"
  using assms
proof (induction k arbitrary: i a m)
  case 0
  then show ?case by simp
next
  case (Suc k)
  show ?case
  proof (cases "odd (n div 2 ^ i)")
    case True
    obtain a1 m1 where w: "walMerge c a (sub i) m = (a1, m1)" by (rule prod.exhaust)
    have "block c a (sub i) (n div 2 ^ Suc i * 2 ^ Suc i) (n div 2 ^ i * 2 ^ i)"
      using Suc.prems(1) True by (simp add: subs_from_def)
    note W = walMerge_block [OF this Suc.prems(2) w]
    have "merge_rest c sub n k (Suc i) a1 m1 = (a', m')" using Suc.prems(3) True w by simp
    from Suc.IH [OF subs_from_Suc [OF Suc.prems(1) W(3,2)] W(1) this] W show ?thesis by simp
  next
    case False
    have "merge_rest c sub n k (Suc i) a m = (a', m')" using Suc.prems(3) False by simp
    moreover have "block c a m (n div 2 ^ Suc i * 2 ^ Suc i) n" using Suc.prems(2) even_div_Suc [of n i] False by (simp only: not_not)
    ultimately show ?thesis using Suc.IH [of "Suc i" a m] subs_from_Suc [OF Suc.prems(1) refl refl] by simp
  qed
qed

text \<open>The sort of slots in their order.\<close>

lemma walMergesort_run:
  assumes "0 < n" and "n \<le> HASHTABLE_NPAGE" and "n \<le> length a" and "\<forall>j < n. a ! j = j"
  obtains a' len where "walMergesort c a n = (a', 0, len)" "len \<le> n" "is_run c 0 n (take len a')"
    "length a' = length a" "drop n a' = drop n a"
proof -
  obtain a1 sub i m where s: "sort_loop c n 0 a (\<lambda>_. (0, 0)) 0 (0, 0) = (a1, sub, i, m)" by (metis prod_cases4)
  have S: "subs_from 0 c a1 sub n" "block c a1 m (n div 2 ^ Suc i * 2 ^ Suc i) n" "length a1 = length a" "drop n a1 = drop n a"
    using sort_loop_block [of c a "\<lambda>_. (0, 0)" 0 n "(0, 0)" 0 a1 sub i m] s assms by (simp_all add: subs_from_def)
  obtain a' m' where r: "merge_rest c sub n (ArraySize_aSub - (i + 1)) (i + 1) a1 m = (a', m')" by (rule prod.exhaust)
  have "subs_from (i + 1) c a1 sub n" using S(1) by (simp add: subs_from_def)
  with S(2) r have R: "block c a' m' (n div 2 ^ (i + 1 + (ArraySize_aSub - (i + 1))) * 2 ^ (i + 1 + (ArraySize_aSub - (i + 1)))) n"
    "length a' = length a" "drop n a' = drop n a"
    using merge_rest_block [of "i + 1" c a1 sub n m] S(3,4) by simp_all
  have "13 \<le> i + 1 + (ArraySize_aSub - (i + 1))" by (simp add: ArraySize_aSub_def)
  then have "(2 :: nat) ^ 13 \<le> 2 ^ (i + 1 + (ArraySize_aSub - (i + 1)))" by (rule power_increasing) simp
  then have "n < 2 ^ (i + 1 + (ArraySize_aSub - (i + 1)))" using assms(2) by (simp add: wal_sizes)
  then have "n div 2 ^ (i + 1 + (ArraySize_aSub - (i + 1))) = 0" by (rule div_less)
  with R(1) have B: "block c a' m' 0 n" by simp
  obtain len where "m' = (0, len)" using B by (cases m') (simp add: block_def)
  moreover have "walMergesort c a n = (a', m')" using s r by (simp add: walMergesort_def)
  ultimately show thesis using B R by (intro that [of a' len]) (simp_all add: block_def)
qed

subsection \<open>The iterator\<close>

text \<open>A segment reads its page numbers from page \<open>seg_page\<close> of the index.\<close>

record WalSegment =
  iNext :: nat
  aIndex :: "nat list"
  seg_page :: nat
  nEntry :: nat
  seg_iZero :: nat

record WalIterator =
  iPrior :: u32
  aSegment :: "WalSegment list"

definition empty_segment :: WalSegment where
  "empty_segment = \<lparr>iNext = 0, aIndex = [], seg_page = 0, nEntry = 0, seg_iZero = 0\<rparr>"

text \<open>\<open>None\<close>: a pointer that was never set is used.\<close>

fun init_loop :: "shm_env \<Rightarrow> WalShm \<Rightarrow> nat \<Rightarrow> nat \<Rightarrow> nat \<Rightarrow> nat \<Rightarrow> Wal \<Rightarrow> WalSegment list
    \<Rightarrow> (int \<times> Wal \<times> WalSegment list) option" where
  "init_loop env s iLast nSegment 0 i w segs = Some (SQLITE_OK, w, segs)"
| "init_loop env s iLast nSegment (Suc k) i w segs =
     (case walHashGet env w i of (rc, p, iZero, w) \<Rightarrow>
        if rc \<noteq> SQLITE_OK then Some (rc, w, segs)
        else if \<not> p then None
        else
          let n = (if i + 1 = nSegment then iLast - iZero else page_frames i) in
          case walMergesort (\<lambda>j. aPgno (wal_pages s i) (j + 1)) [0..<n] n of (a, _, n) \<Rightarrow>
            init_loop env s iLast nSegment k (i + 1) w
              (segs[i := \<lparr>iNext = 0, aIndex = a, seg_page = i, nEntry = n, seg_iZero = iZero + 1\<rparr>]))"

definition walIteratorInit :: "shm_env \<Rightarrow> bool \<Rightarrow> bool \<Rightarrow> Wal \<Rightarrow> WalShm \<Rightarrow> nat
    \<Rightarrow> (int \<times> WalIterator option \<times> Wal) option" where
  "walIteratorInit env ok_iter ok_tmp w s nBack =
     (let iLast = mxFrame (hdr w); nSegment = walFramePage iLast + 1; start = walFramePage (nBack + 1) in
      if \<not> ok_iter then Some (SQLITE_NOMEM, None, w)
      else if \<not> ok_tmp then Some (SQLITE_NOMEM, None, w)
      else case init_loop env s iLast nSegment (nSegment - start) start w (replicate nSegment empty_segment) of
        None \<Rightarrow> None
      | Some (rc, w, segs) \<Rightarrow>
          Some (rc, if rc \<noteq> SQLITE_OK then None else Some \<lparr>iPrior = 0, aSegment = segs\<rparr>, w))"

definition seg_pgno :: "WalShm \<Rightarrow> WalSegment \<Rightarrow> u32" where
  "seg_pgno s seg = aPgno (wal_pages s (seg_page seg)) (aIndex seg ! iNext seg + 1)"

function advance :: "WalShm \<Rightarrow> u32 \<Rightarrow> WalSegment \<Rightarrow> WalSegment" where
  "advance s iMin seg =
     (if iNext seg < nEntry seg \<and> \<not> seg_pgno s seg > iMin then advance s iMin (seg\<lparr>iNext := iNext seg + 1\<rparr>) else seg)"
  by auto
termination advance
  by (relation "measure (\<lambda>(s, m, seg). nEntry seg - iNext seg)") auto

declare advance.simps [simp del]

text \<open>The loop over the segments, the last first.\<close>

fun next_segs :: "WalShm \<Rightarrow> u32 \<Rightarrow> WalSegment list \<Rightarrow> u32 \<Rightarrow> nat \<Rightarrow> WalSegment list \<times> u32 \<times> nat" where
  "next_segs s iMin [] iRet iFrame = ([], iRet, iFrame)"
| "next_segs s iMin (seg # segs) iRet iFrame =
     (case next_segs s iMin segs iRet iFrame of (segs, iRet, iFrame) \<Rightarrow>
        let seg = advance s iMin seg in
        if iNext seg < nEntry seg \<and> seg_pgno s seg < iRet
        then (seg # segs, seg_pgno s seg, seg_iZero seg + aIndex seg ! iNext seg)
        else (seg # segs, iRet, iFrame))"

definition walIteratorNext :: "WalShm \<Rightarrow> WalIterator \<Rightarrow> nat \<Rightarrow> bool \<times> u32 \<times> nat \<times> WalIterator" where
  "walIteratorNext s p iFrame =
     (case next_segs s (iPrior p) (aSegment p) 0xFFFFFFFF iFrame of (segs, iRet, iFrame) \<Rightarrow>
        (iRet = 0xFFFFFFFF, iRet, iFrame, p\<lparr>iPrior := iRet, aSegment := segs\<rparr>))"

subsection \<open>What the iterator returns\<close>

text \<open>The first \<open>n\<close> frames of the log are in the index.\<close>

definition frames_in :: "u32 list \<Rightarrow> nat \<Rightarrow> WalShm \<Rightarrow> bool" where
  "frames_in L n s \<longleftrightarrow> (\<forall>h j. j < table_len n h \<longrightarrow> aPgno (wal_pages s h) (j + 1) = L ! (iZero_of h + j))"

definition seg_ok :: "u32 list \<Rightarrow> nat \<Rightarrow> nat \<Rightarrow> u32 \<Rightarrow> nat \<Rightarrow> WalSegment \<Rightarrow> bool" where
  "seg_ok L start n prior h seg \<longleftrightarrow>
     (if h < start then nEntry seg = 0
      else seg_page seg = h \<and> seg_iZero seg = iZero_of h + 1 \<and> nEntry seg \<le> length (aIndex seg)
        \<and> is_run (\<lambda>j. L ! (iZero_of h + j)) 0 (table_len n h) (take (nEntry seg) (aIndex seg))
        \<and> (\<forall>i < iNext seg. i < nEntry seg \<longrightarrow> L ! (iZero_of h + aIndex seg ! i) \<le> prior))"

fun segs_ok :: "u32 list \<Rightarrow> nat \<Rightarrow> nat \<Rightarrow> u32 \<Rightarrow> nat \<Rightarrow> WalSegment list \<Rightarrow> bool" where
  "segs_ok L start n prior h [] \<longleftrightarrow> n \<le> iZero_of h"
| "segs_ok L start n prior h (seg # segs) \<longleftrightarrow> seg_ok L start n prior h seg \<and> segs_ok L start n prior (Suc h) segs"

text \<open>The smallest page above \<open>prior\<close> among some frames, with its newest frame.\<close>

definition least_page :: "u32 list \<Rightarrow> nat \<Rightarrow> nat \<Rightarrow> u32 \<Rightarrow> u32 \<Rightarrow> nat \<Rightarrow> bool" where
  "least_page L lo n prior iRet iFrame \<longleftrightarrow>
     (\<forall>f. lo < f \<and> f \<le> n \<and> prior < L ! (f - 1) \<longrightarrow> iRet \<le> L ! (f - 1))
     \<and> (iRet \<noteq> 0xFFFFFFFF \<longrightarrow> lo < iFrame \<and> iFrame \<le> n \<and> L ! (iFrame - 1) = iRet \<and> prior < iRet
        \<and> (\<forall>f. iFrame < f \<and> f \<le> n \<longrightarrow> L ! (f - 1) \<noteq> iRet))"

lemma run_entry:
  assumes "is_run c lo hi xs" and "i < length xs"
  shows "lo \<le> xs ! i" "xs ! i < hi" "xs ! i < j \<Longrightarrow> j < hi \<Longrightarrow> c j \<noteq> c (xs ! i)"
proof -
  have "xs ! i \<in> set xs" using assms(2) by simp
  with assms(1) show "lo \<le> xs ! i" "xs ! i < hi" "xs ! i < j \<Longrightarrow> j < hi \<Longrightarrow> c j \<noteq> c (xs ! i)"
    unfolding is_run_def by auto
qed

lemma run_page:
  assumes "is_run c lo hi xs" and "lo \<le> j" and "j < hi"
  obtains i where "i < length xs" "c (xs ! i) = c j" "j \<le> xs ! i"
proof -
  define k where "k = (GREATEST k. j \<le> k \<and> k < hi \<and> c k = c j)"
  have k: "j \<le> k \<and> k < hi \<and> c k = c j" unfolding k_def by (rule GreatestI_nat [of _ j hi]) (use assms in auto)
  have "c n \<noteq> c k" if "k < n" "n < hi" for n
  proof
    assume "c n = c k"
    then have "n \<le> k" using k that unfolding k_def by (intro Greatest_le_nat [of _ _ hi]) auto
    with that show False by simp
  qed
  then have "k \<in> set xs" using assms k by (auto simp: is_run_def)
  then obtain i where "i < length xs" "xs ! i = k" by (auto simp: in_set_conv_nth)
  with k show thesis by (intro that) auto
qed

lemma run_sorted: "is_run c lo hi xs \<Longrightarrow> i \<le> j \<Longrightarrow> j < length xs \<Longrightarrow> c (xs ! i) \<le> c (xs ! j)"
  by (cases "i = j") (auto simp: is_run_def sorted_wrt_iff_nth_less intro: less_imp_le)

lemma seg_pgno_in:
  assumes "frames_in L n s" and "seg_ok L start n prior h seg" and "start \<le> h" and "iNext seg < nEntry seg"
  shows "seg_pgno s seg = L ! (iZero_of h + aIndex seg ! iNext seg)" and "aIndex seg ! iNext seg < table_len n h"
proof -
  have r: "is_run (\<lambda>j. L ! (iZero_of h + j)) 0 (table_len n h) (take (nEntry seg) (aIndex seg))"
    and l: "nEntry seg \<le> length (aIndex seg)" "seg_page seg = h" using assms(2,3) by (simp_all add: seg_ok_def)
  show "aIndex seg ! iNext seg < table_len n h" using run_entry(2) [OF r, of "iNext seg"] l assms(4) by simp
  then show "seg_pgno s seg = L ! (iZero_of h + aIndex seg ! iNext seg)"
    using assms(1) l by (simp add: seg_pgno_def frames_in_def)
qed

lemma advance_ok:
  assumes "frames_in L n s" and "seg_ok L start n prior h seg"
  shows "seg_ok L start n prior h (advance s prior seg)
    \<and> (iNext (advance s prior seg) < nEntry (advance s prior seg) \<longrightarrow> seg_pgno s (advance s prior seg) > prior)"
  using assms
proof (induction s prior seg rule: advance.induct)
  case (1 s prior seg)
  show ?case
  proof (cases "iNext seg < nEntry seg \<and> \<not> seg_pgno s seg > prior")
    case False
    then have "advance s prior seg = seg" by (subst advance.simps) auto
    then show ?thesis using 1(3) False by simp
  next
    case True
    have "seg_ok L start n prior h (seg\<lparr>iNext := iNext seg + 1\<rparr>)"
    proof (cases "h < start")
      case False
      then have "seg_pgno s seg = L ! (iZero_of h + aIndex seg ! iNext seg)"
        using seg_pgno_in(1) [OF 1(2,3)] True by simp
      with 1(3) True False show ?thesis by (auto simp: seg_ok_def less_Suc_eq not_less)
    qed (use 1(3) in \<open>simp add: seg_ok_def\<close>)
    moreover have "advance s prior seg = advance s prior (seg\<lparr>iNext := iNext seg + 1\<rparr>)"
      using True by (subst advance.simps) simp
    ultimately show ?thesis using 1(1) [OF True 1(2)] by simp
  qed
qed

lemma segs_ok_iff:
  "segs_ok L start n prior h segs \<longleftrightarrow>
     (\<forall>i < length segs. seg_ok L start n prior (h + i) (segs ! i)) \<and> n \<le> iZero_of (h + length segs)"
proof (induction segs arbitrary: h)
  case (Cons seg segs)
  have "(\<forall>i < Suc (length segs). seg_ok L start n prior (h + i) ((seg # segs) ! i))
    \<longleftrightarrow> seg_ok L start n prior h seg \<and> (\<forall>i < length segs. seg_ok L start n prior (Suc h + i) (segs ! i))"
    unfolding All_less_Suc2 by simp
  with Cons show ?case by simp
qed simp

lemma seg_ok_mono: "seg_ok L start n prior h seg \<Longrightarrow> prior \<le> prior' \<Longrightarrow> seg_ok L start n prior' h seg"
  unfolding seg_ok_def by (cases "h < start") (simp_all, meson order_trans)

lemma segs_ok_mono: "segs_ok L start n prior h segs \<Longrightarrow> prior \<le> prior' \<Longrightarrow> segs_ok L start n prior' h segs"
  unfolding segs_ok_iff by (blast intro: seg_ok_mono)

text \<open>The first entry of a segment above \<open>prior\<close> has its smallest page above \<open>prior\<close>.\<close>

lemma seg_least:
  assumes "frames_in L n s" and "seg_ok L start n prior h seg" and "start \<le> h"
    and "j < table_len n h" and "prior < L ! (iZero_of h + j)"
  shows "iNext seg < nEntry seg" and "seg_pgno s seg \<le> L ! (iZero_of h + j)"
proof -
  let ?c = "\<lambda>j. L ! (iZero_of h + j)"
  have r: "is_run ?c 0 (table_len n h) (take (nEntry seg) (aIndex seg))"
    and l: "nEntry seg \<le> length (aIndex seg)" and p: "\<forall>i < iNext seg. i < nEntry seg \<longrightarrow> ?c (aIndex seg ! i) \<le> prior"
    using assms(2,3) by (simp_all add: seg_ok_def)
  obtain i where i: "i < length (take (nEntry seg) (aIndex seg))" "?c (take (nEntry seg) (aIndex seg) ! i) = ?c j"
    by (rule run_page [OF r _ assms(4)]) auto
  then have i': "i < nEntry seg" "?c (aIndex seg ! i) = ?c j" using l by simp_all
  then have n: "iNext seg \<le> i" using p assms(5) by (metis leD not_le_imp_less)
  then show "iNext seg < nEntry seg" using i'(1) by simp
  then have "seg_pgno s seg = ?c (aIndex seg ! iNext seg)" using seg_pgno_in(1) [OF assms(1-3)] by simp
  moreover have "?c (aIndex seg ! iNext seg) \<le> ?c (aIndex seg ! i)"
    using run_sorted [OF r n] i'(1) l n by simp
  ultimately show "seg_pgno s seg \<le> L ! (iZero_of h + j)" using i'(2) by simp
qed

lemma next_segs_ok:
  assumes "frames_in L n s"
  shows "segs_ok L start n prior h segs \<Longrightarrow> next_segs s prior segs 0xFFFFFFFF iFrame\<^sub>0 = (segs', iRet, iFrame) \<Longrightarrow>
    segs_ok L start n prior h segs' \<and> least_page L (max (iZero_of h) (iZero_of start)) n prior iRet iFrame"
proof (induction segs arbitrary: h segs' iRet iFrame)
  case Nil
  then show ?case by (auto simp: least_page_def)
next
  case (Cons seg segs)
  obtain segs1 iRet1 iFrame1 where r: "next_segs s prior segs 0xFFFFFFFF iFrame\<^sub>0 = (segs1, iRet1, iFrame1)" by (metis prod_cases3)
  let ?seg = "advance s prior seg"
  have I: "segs_ok L start n prior (Suc h) segs1" "least_page L (max (iZero_of (Suc h)) (iZero_of start)) n prior iRet1 iFrame1"
    using Cons.IH [OF _ r] Cons.prems(1) by simp_all
  have A: "seg_ok L start n prior h ?seg" "iNext ?seg < nEntry ?seg \<Longrightarrow> seg_pgno s ?seg > prior"
    using advance_ok [OF assms, of start prior h seg] Cons.prems(1) by simp_all
  have segs': "segs' = ?seg # segs1" using Cons.prems(2) r by (auto simp: Let_def split: if_splits)
  have "least_page L (max (iZero_of h) (iZero_of start)) n prior iRet iFrame"
  proof (cases "h < start")
    case True
    then have "iZero_of (Suc h) \<le> iZero_of start" "iZero_of h \<le> iZero_of start" by (simp_all add: iZero_mono)
    moreover have "iRet = iRet1" "iFrame = iFrame1" using Cons.prems(2) r True A(1) by (auto simp: Let_def seg_ok_def)
    ultimately show ?thesis using I(2) by (simp add: max_absorb2)
  next
    case False
    then have h: "start \<le> h" by simp
    then have lo: "max (iZero_of h) (iZero_of start) = iZero_of h" "max (iZero_of (Suc h)) (iZero_of start) = iZero_of (Suc h)"
      by (simp_all add: iZero_mono max_absorb1)
    note I2 = I(2) [unfolded lo least_page_def]
    have table: "f \<le> iZero_of (Suc h) \<Longrightarrow> \<exists>j < table_len n h. f = iZero_of h + j + 1" if "iZero_of h < f" "f \<le> n" for f
      using that by (intro exI [of _ "f - iZero_of h - 1"]) (auto simp: table_len_def iZero_Suc)
    show ?thesis
    proof (cases "iNext ?seg < nEntry ?seg \<and> seg_pgno s ?seg < iRet1")
      case True
      let ?k = "aIndex ?seg ! iNext ?seg"
      have new: "iRet = seg_pgno s ?seg" "iFrame = iZero_of h + 1 + ?k"
        using Cons.prems(2) r True A(1) h by (auto simp: Let_def seg_ok_def)
      have k: "seg_pgno s ?seg = L ! (iZero_of h + ?k)" "?k < table_len n h"
        using seg_pgno_in [OF assms A(1) h] True by simp_all
      have run: "is_run (\<lambda>j. L ! (iZero_of h + j)) 0 (table_len n h) (take (nEntry ?seg) (aIndex ?seg))"
        "nEntry ?seg \<le> length (aIndex ?seg)" using A(1) h by (simp_all add: seg_ok_def)
      have "iRet \<le> L ! (f - 1)" if f: "iZero_of h < f" "f \<le> n" "prior < L ! (f - 1)" for f
      proof (cases "f \<le> iZero_of (Suc h)")
        case True
        then obtain j where "j < table_len n h" "f = iZero_of h + j + 1" using table f by blast
        then show ?thesis using seg_least(2) [OF assms A(1) h, of j] f new by simp
      next
        case False
        then have "iRet1 \<le> L ! (f - 1)" using I2 f by simp
        then show ?thesis using True new(1) by (metis less_imp_le order_trans)
      qed
      moreover have "L ! (f - 1) \<noteq> iRet" if f: "iFrame < f" "f \<le> n" for f
      proof (cases "f \<le> iZero_of (Suc h)")
        case True
        moreover have "iZero_of h < f" using f new by simp
        ultimately obtain j where j: "j < table_len n h" "f = iZero_of h + j + 1" using table f by blast
        then have "?k < j" using f new by simp
        then show ?thesis using run_entry(3) [OF run(1), of "iNext ?seg" j] j run(2) \<open>iNext ?seg < nEntry ?seg \<and> _\<close> new k by simp
      next
        case False
        then have "prior < L ! (f - 1) \<Longrightarrow> iRet1 \<le> L ! (f - 1)" using I2 f by simp
        then show ?thesis using True new A(2) by auto
      qed
      moreover have "iZero_of h < iFrame" "iFrame \<le> n" "L ! (iFrame - 1) = iRet" using new k by (auto simp: table_len_def)
      ultimately show ?thesis unfolding lo least_page_def using True A(2) new by auto
    next
      case False
      then have old: "iRet = iRet1" "iFrame = iFrame1" using Cons.prems(2) r by (auto simp: Let_def)
      have "iRet \<le> L ! (f - 1)" if f: "iZero_of h < f" "f \<le> n" "prior < L ! (f - 1)" for f
      proof (cases "f \<le> iZero_of (Suc h)")
        case True
        then obtain j where "j < table_len n h" "f = iZero_of h + j + 1" using table f by blast
        then have "iNext ?seg < nEntry ?seg" "seg_pgno s ?seg \<le> L ! (f - 1)" using seg_least [OF assms A(1) h, of j] f by simp_all
        then show ?thesis using False old by auto
      qed (use I2 f old in simp)
      moreover have "iZero_of h \<le> iZero_of (Suc h)" by (simp add: iZero_mono)
      ultimately show ?thesis unfolding lo least_page_def using I2 old by auto
    qed
  qed
  with segs' A(1) I(1) show ?case by simp
qed

text \<open>One call of \<open>walIteratorNext\<close>.\<close>

lemma walIteratorNext_spec:
  assumes "frames_in L n s" and "segs_ok L start n (iPrior p) 0 (aSegment p)"
    and run: "walIteratorNext s p iFrame\<^sub>0 = (fin, iRet, iFrame, p')"
  shows "least_page L (iZero_of start) n (iPrior p) iRet iFrame" and "fin \<longleftrightarrow> iRet = 0xFFFFFFFF"
    and "iPrior p' = iRet" and "segs_ok L start n (iPrior p') 0 (aSegment p')"
proof -
  obtain segs where r: "next_segs s (iPrior p) (aSegment p) 0xFFFFFFFF iFrame\<^sub>0 = (segs, iRet, iFrame)"
    and p: "p' = p\<lparr>iPrior := iRet, aSegment := segs\<rparr>" "fin = (iRet = 0xFFFFFFFF)"
    using run by (auto simp: walIteratorNext_def split: prod.splits)
  note N = next_segs_ok [OF assms(1,2) r]
  show l: "least_page L (iZero_of start) n (iPrior p) iRet iFrame" using N by simp
  show "fin \<longleftrightarrow> iRet = 0xFFFFFFFF" "iPrior p' = iRet" using p by simp_all
  have "iPrior p \<le> iRet"
  proof (cases "iRet = 0xFFFFFFFF")
    case True
    have "(0xFFFFFFFF :: u32) = - 1" by simp
    then have "x \<le> (0xFFFFFFFF :: u32)" for x by (metis word_order.extremum)
    then show ?thesis using True by simp
  qed (use l in \<open>simp add: least_page_def less_imp_le\<close>)
  with N show "segs_ok L start n (iPrior p') 0 (aSegment p')" using segs_ok_mono [of L start n "iPrior p" 0 segs iRet] p by simp
qed

text \<open>The segments that \<open>walIteratorInit\<close> sets up.\<close>

lemma is_run_cong: "(\<And>j. lo \<le> j \<Longrightarrow> j < hi \<Longrightarrow> c j = d j) \<Longrightarrow> is_run c lo hi xs \<longleftrightarrow> is_run d lo hi xs"
proof -
  assume c: "\<And>j. lo \<le> j \<Longrightarrow> j < hi \<Longrightarrow> c j = d j"
  have s: "{i. lo \<le> i \<and> i < hi \<and> (\<forall>j. i < j \<and> j < hi \<longrightarrow> c j \<noteq> c i)} = {i. lo \<le> i \<and> i < hi \<and> (\<forall>j. i < j \<and> j < hi \<longrightarrow> d j \<noteq> d i)}"
    using c by auto
  have "sorted_wrt (\<lambda>i j. c i < c j) xs = sorted_wrt (\<lambda>i j. d i < d j) xs" if "\<forall>x \<in> set xs. lo \<le> x \<and> x < hi"
    using that c by (auto simp: sorted_wrt_iff_nth_less)
  then show ?thesis unfolding is_run_def s by auto
qed

lemma init_loop_ok:
  assumes "frames_in L n s" and "0 < n"
  shows "init_loop env s n nSegment k i w segs = Some (SQLITE_OK, w', segs') \<Longrightarrow> nSegment = walFramePage n + 1 \<Longrightarrow>
    i + k = nSegment \<Longrightarrow> length segs = nSegment \<Longrightarrow> start \<le> i \<Longrightarrow> \<forall>h < i. seg_ok L start n 0 h (segs ! h) \<Longrightarrow>
    length segs' = nSegment \<and> (\<forall>h < nSegment. seg_ok L start n 0 h (segs' ! h))"
proof (induction k arbitrary: i w segs)
  case 0
  then show ?case by simp
next
  case (Suc k)
  obtain rc p z v where g: "walHashGet env w i = (rc, p, z, v)" by (metis prod_cases4)
  have ok: "rc = SQLITE_OK" p "z = iZero_of i" using Suc.prems(1) g walHashGet_keeps [OF g] by (auto split: if_splits)
  define m where "m = (if i + 1 = nSegment then n - z else page_frames i)"
  have i: "i \<le> walFramePage n" using Suc.prems(2,3) by simp
  have F: "iZero_of (walFramePage n) < n" "n \<le> iZero_of (walFramePage n) + page_frames (walFramePage n)"
    using frame_place [OF assms(2)] by simp_all
  have m: "m = table_len n i \<and> 0 < m \<and> m \<le> page_frames i"
  proof (cases "i = walFramePage n")
    case True
    then show ?thesis using F Suc.prems(2) ok(3) by (auto simp: m_def table_len_def)
  next
    case False
    then have "iZero_of (Suc i) \<le> iZero_of (walFramePage n)" using i by (intro iZero_mono) simp
    then show ?thesis using False F(1) Suc.prems(2) table_len_full [of i n] by (simp add: m_def)
  qed
  have "m \<le> HASHTABLE_NPAGE" using m le_trans [OF _ page_frames_pos(2), of m i] by (simp add: wal_sizes)
  then obtain a len where W: "walMergesort (\<lambda>j. aPgno (wal_pages s i) (j + 1)) [0..<m] m = (a, 0, len)" "len \<le> m"
    "is_run (\<lambda>j. aPgno (wal_pages s i) (j + 1)) 0 m (take len a)" "length a = m"
    using walMergesort_run [of m "[0..<m]"] m by (metis (no_types, lifting) diff_zero length_upt nth_upt add_0 order_refl)
  let ?seg = "\<lparr>iNext = 0, aIndex = a, seg_page = i, nEntry = len, seg_iZero = z + 1\<rparr>"
  have run: "is_run (\<lambda>j. L ! (iZero_of i + j)) 0 (table_len n i) (take len a)"
    using W(3) m assms(1) is_run_cong [of 0 m "\<lambda>j. aPgno (wal_pages s i) (j + 1)" "\<lambda>j. L ! (iZero_of i + j)"]
    by (simp add: frames_in_def)
  have "seg_ok L start n 0 i ?seg" using run W Suc.prems(5) ok(3) by (simp add: seg_ok_def)
  then have "\<forall>h < i + 1. seg_ok L start n 0 h (segs[i := ?seg] ! h)"
    using Suc.prems(3,4,6) by (auto simp: less_Suc_eq nth_list_update)
  moreover have "init_loop env s n nSegment k (i + 1) v (segs[i := ?seg]) = Some (SQLITE_OK, w', segs')"
    using Suc.prems(1) W(1) g ok(1,2) by (simp add: m_def Let_def)
  ultimately show ?case using Suc.prems(2-5) by (intro Suc.IH) simp_all
qed

lemma empty_ok: "h < start \<Longrightarrow> seg_ok L start n prior h empty_segment"
  by (simp add: seg_ok_def empty_segment_def)

lemma walIteratorInit_ok:
  assumes "frames_in L (mxFrame (hdr w)) s" and "0 < mxFrame (hdr w)"
    and run: "walIteratorInit env ok_iter ok_tmp w s nBack = Some (SQLITE_OK, it, w')"
  obtains p where "it = Some p" "iPrior p = 0"
    "segs_ok L (walFramePage (nBack + 1)) (mxFrame (hdr w)) 0 0 (aSegment p)"
proof -
  let ?n = "mxFrame (hdr w)" and ?start = "walFramePage (nBack + 1)"
  let ?nSegment = "walFramePage ?n + 1"
  obtain segs where r: "init_loop env s ?n ?nSegment (?nSegment - ?start) ?start w (replicate ?nSegment empty_segment)
      = Some (SQLITE_OK, w', segs)" and it: "it = Some \<lparr>iPrior = 0, aSegment = segs\<rparr>"
    using run by (auto simp: walIteratorInit_def Let_def sqlite_codes split: if_splits option.splits)
  have "length segs = ?nSegment \<and> (\<forall>h < ?nSegment. seg_ok L ?start ?n 0 h (segs ! h))"
  proof (cases "?start \<le> ?nSegment")
    case True
    then show ?thesis
      by (intro init_loop_ok [OF assms(1,2) r]) (simp_all add: empty_ok del: replicate_Suc)
  next
    case False
    then have "segs = replicate ?nSegment empty_segment" using r by auto
    then show ?thesis using False by (simp add: empty_ok del: replicate_Suc)
  qed
  moreover have "?n \<le> iZero_of ?nSegment" using frame_place(2) [OF assms(2)] by (simp add: iZero_Suc)
  ultimately have "segs_ok L ?start ?n 0 0 segs" by (simp add: segs_ok_iff)
  with it show thesis using that [of "\<lparr>iPrior = 0, aSegment = segs\<rparr>"] by simp
qed

lemma index_frames_in: "index_of L s \<Longrightarrow> n \<le> length L \<Longrightarrow> frames_in L n s"
  unfolding frames_in_def
proof (intro allI impI)
  fix h j assume I: "index_of L s" "n \<le> length L" and j: "j < table_len n h"
  then have "iZero_of h < length L" "Suc j \<le> table_len (length L) h" by (auto simp: table_len_def)
  then have "indexed (frame_pg L h) (table_len (length L) h) h (wal_pages s h)" using I(1) by (simp add: index_of_def)
  with \<open>Suc j \<le> _\<close> have "aPgno (wal_pages s h) (j + 1) = frame_pg L h (j + 1)" by (auto simp: indexed_def placed_def)
  then show "aPgno (wal_pages s h) (j + 1) = L ! (iZero_of h + j)" by (simp add: frame_pg_def)
qed

text \<open>All the calls of \<open>walIteratorNext\<close> until it ends.\<close>

lemma next_segs_prior:
  "next_segs s iMin segs iRet iFrame = (segs', iRet', iFrame') \<Longrightarrow> iRet' = iRet \<or> iMin < iRet'"
proof (induction segs arbitrary: segs' iRet' iFrame')
  case (Cons seg segs)
  have "iNext (advance s iMin seg) < nEntry (advance s iMin seg) \<Longrightarrow> iMin < seg_pgno s (advance s iMin seg)" for seg
  proof (induction s iMin seg rule: advance.induct)
    case (1 s iMin seg)
    show ?case
    proof (cases "iNext seg < nEntry seg \<and> \<not> seg_pgno s seg > iMin")
      case True
      then have "advance s iMin seg = advance s iMin (seg\<lparr>iNext := iNext seg + 1\<rparr>)" by (subst advance.simps) simp
      with 1 True show ?thesis by simp
    next
      case False
      then have "advance s iMin seg = seg" by (subst advance.simps) auto
      with 1(2) False show ?thesis by simp
    qed
  qed
  with Cons show ?case by (fastforce simp: Let_def split: prod.splits if_splits)
qed simp

lemma walIteratorNext_up:
  assumes "walIteratorNext s p iFrame = (False, iRet, iFrame', p')"
  shows "iPrior p < iPrior p'"
  using assms next_segs_prior by (fastforce simp: walIteratorNext_def split: prod.splits)

lemma iterator_measure:
  assumes "walIteratorNext s p iFrame = (False, iRet, iFrame', p')"
  shows "2 ^ 32 - unat (iPrior p') < 2 ^ 32 - unat (iPrior p)"
proof -
  have "unat (iPrior p) < unat (iPrior p')" using walIteratorNext_up [OF assms] by (simp add: word_less_nat_alt)
  moreover have "unat (iPrior p') < 2 ^ 32" using unsigned_less [of "iPrior p'"] by simp
  ultimately show ?thesis by simp
qed

function iterate :: "WalShm \<Rightarrow> WalIterator \<Rightarrow> nat \<Rightarrow> (u32 \<times> nat) list" where
  "iterate s p iFrame =
     (case walIteratorNext s p iFrame of (fin, iRet, iFrame, p) \<Rightarrow>
        if fin then [] else (iRet, iFrame) # iterate s p iFrame)"
  by auto
termination iterate
proof (relation "measure (\<lambda>(s, p, f). 2 ^ 32 - unat (iPrior p))", goal_cases)
  case (2 s p iFrame fin y iRet z iFrame' p')
  then have "walIteratorNext s p iFrame = (False, iRet, iFrame', p')" by simp
  then show ?case using iterator_measure by simp
qed simp

declare iterate.simps [simp del]

text \<open>The pages of the frames from \<open>lo\<close> to \<open>n\<close> with their newest frames.\<close>

definition newest_frames :: "u32 list \<Rightarrow> nat \<Rightarrow> nat \<Rightarrow> u32 \<Rightarrow> (u32 \<times> nat) set" where
  "newest_frames L lo n prior =
     {(L ! (f - 1), f) | f. lo < f \<and> f \<le> n \<and> prior < L ! (f - 1) \<and> (\<forall>g. f < g \<and> g \<le> n \<longrightarrow> L ! (g - 1) \<noteq> L ! (f - 1))}"

lemma least_page_step:
  assumes "least_page L lo n prior iRet iFrame" and "iRet \<noteq> 0xFFFFFFFF"
  shows "newest_frames L lo n prior = insert (iRet, iFrame) (newest_frames L lo n iRet)"
proof -
  note A = assms(1) [unfolded least_page_def]
  have B: "lo < iFrame" "iFrame \<le> n" "L ! (iFrame - 1) = iRet" "prior < iRet"
    "\<And>f. iFrame < f \<Longrightarrow> f \<le> n \<Longrightarrow> L ! (f - 1) \<noteq> iRet" using A assms(2) by blast+
  have C: "iRet \<le> L ! (f - 1)" if "lo < f" "f \<le> n" "prior < L ! (f - 1)" for f using A that by blast
  show ?thesis
  proof (intro set_eqI iffI)
    fix x assume "x \<in> newest_frames L lo n prior"
    then obtain f where f: "x = (L ! (f - 1), f)" "lo < f" "f \<le> n" "prior < L ! (f - 1)"
      "\<And>g. f < g \<Longrightarrow> g \<le> n \<Longrightarrow> L ! (g - 1) \<noteq> L ! (f - 1)" by (auto simp: newest_frames_def)
    show "x \<in> insert (iRet, iFrame) (newest_frames L lo n iRet)"
    proof (cases "L ! (f - 1) = iRet")
      case True
      have "f = iFrame" using f(5) [of iFrame] B(5) [of f] B f True by (cases f iFrame rule: linorder_cases) auto
      with f True show ?thesis by simp
    next
      case False
      then have "iRet < L ! (f - 1)" using C [OF f(2-4)] by simp
      with f show ?thesis by (auto simp: newest_frames_def)
    qed
  next
    fix x assume "x \<in> insert (iRet, iFrame) (newest_frames L lo n iRet)"
    then show "x \<in> newest_frames L lo n prior"
      using B by (auto simp: newest_frames_def intro: less_trans)
  qed
qed

lemma iterate_spec:
  assumes "frames_in L n s" and "0xFFFFFFFF \<notin> set (take n L)" and "n \<le> length L"
    and "segs_ok L start n (iPrior p) 0 (aSegment p)"
  shows "sorted_wrt (<) (map fst (iterate s p iFrame)) \<and> set (iterate s p iFrame) = newest_frames L (iZero_of start) n (iPrior p)
    \<and> (\<forall>x \<in> set (iterate s p iFrame). iPrior p < fst x)"
  using assms
proof (induction s p iFrame rule: iterate.induct)
  case (1 s p iFrame)
  obtain fin iRet iFrame' p' where r: "walIteratorNext s p iFrame = (fin, iRet, iFrame', p')" by (metis prod_cases4)
  note N = walIteratorNext_spec [OF 1(2,5) r]
  show ?case
  proof (cases "iRet = 0xFFFFFFFF")
    case True
    then have "iterate s p iFrame = []" using r N(2) by (subst iterate.simps) simp
    moreover have "newest_frames L (iZero_of start) n (iPrior p) = {}"
    proof -
      have False if f: "iZero_of start < f" "f \<le> n" "iPrior p < L ! (f - 1)" for f
      proof -
        have "0xFFFFFFFF \<le> L ! (f - 1)" using N(1) f True by (simp add: least_page_def)
        moreover have "(0xFFFFFFFF :: u32) = - 1" by simp
        ultimately have "L ! (f - 1) = 0xFFFFFFFF" by (metis word_order.extremum_uniqueI)
        moreover have "L ! (f - 1) \<in> set (take n L)"
          unfolding in_set_conv_nth using f 1(4) by (intro exI [of _ "f - 1"]) auto
        ultimately show False using 1(3) by simp
      qed
      then show ?thesis by (auto simp: newest_frames_def)
    qed
    ultimately show ?thesis by simp
  next
    case False
    then have it: "iterate s p iFrame = (iRet, iFrame') # iterate s p' iFrame'" using r N(2) by (subst iterate.simps) simp
    have "fin = False" using False N(2) by simp
    then have IH: "sorted_wrt (<) (map fst (iterate s p' iFrame')) \<and> set (iterate s p' iFrame') = newest_frames L (iZero_of start) n iRet
      \<and> (\<forall>x \<in> set (iterate s p' iFrame'). iRet < fst x)"
      using 1(1) [OF r [symmetric] refl refl _ 1(2-4) N(4)] N(3) by simp
    have "iPrior p < iRet" using N(1) False by (simp add: least_page_def)
    with IH show ?thesis unfolding it least_page_step [OF N(1) False] by (auto intro: less_trans)
  qed
qed

text \<open>Writers beside a checkpoint only append behind its end of the log.\<close>

lemma word_write_pgno: "word_write iZero m p q \<Longrightarrow> iZero + j \<le> m \<Longrightarrow> aPgno q j = aPgno p j"
  by (induction rule: word_write.induct) auto

lemma word_writes_pgno: "word_writes iZero m p q \<Longrightarrow> iZero + j \<le> m \<Longrightarrow> aPgno q j = aPgno p j"
  by (induction rule: rtranclp_induct) (auto simp: word_write_pgno)

lemma frames_in_writes: "frames_in L n s \<Longrightarrow> writes_behind n s s' \<Longrightarrow> frames_in L n s'"
  unfolding frames_in_def writes_behind_def
proof (intro allI impI)
  fix h j assume F: "\<forall>h j. j < table_len n h \<longrightarrow> aPgno (wal_pages s h) (j + 1) = L ! (iZero_of h + j)"
    and W: "\<forall>h. word_writes (iZero_of h) n (wal_pages s h) (wal_pages s' h)" and j: "j < table_len n h"
  then have "iZero_of h + (j + 1) \<le> n" unfolding table_len_def by linarith
  from word_writes_pgno [OF W [rule_format] this] F j
  show "aPgno (wal_pages s' h) (j + 1) = L ! (iZero_of h + j)" by simp
qed

subsection \<open>Properties\<close>

text \<open>\<open>walMergesort\<close> on the slots in their order leaves, at the start of the array, exactly the
  slots that are the last with their page, in strictly ascending order of the pages, and
  touches nothing behind the slots it was given.\<close>

lemma walMergesort_newest:
  assumes "0 < n" and "n \<le> HASHTABLE_NPAGE" and "n \<le> length a" and "\<forall>j < n. a ! j = j"
  shows "\<exists>a' len. walMergesort c a n = (a', 0, len) \<and> len \<le> n \<and> length a' = length a \<and> drop n a' = drop n a
    \<and> sorted_wrt (\<lambda>i j. c i < c j) (take len a')
    \<and> set (take len a') = {i. i < n \<and> (\<forall>j. i < j \<and> j < n \<longrightarrow> c j \<noteq> c i)}"
  using walMergesort_run [OF assms, of c] unfolding is_run_def by (metis (no_types, lifting) zero_le Collect_cong)

text \<open>C36. The iterator of a checkpoint returns each page of the log once, in ascending order, with its
  newest frame, while writers append to the log, and starts no later than the first frame
  that is not yet in the database.\<close>

theorem iterator_pages:
  assumes "index_of L s" and "mxFrame (hdr w) \<le> length L" and "0 < mxFrame (hdr w)"
    and "0xFFFFFFFF \<notin> set (take (mxFrame (hdr w)) L)"
    and "walIteratorInit env ok_iter ok_tmp w s nBack = Some (SQLITE_OK, it, w')"
    and "writes_behind (mxFrame (hdr w)) s s'"
  shows "\<exists>p lo. it = Some p \<and> lo \<le> nBack \<and> sorted_wrt (<) (map fst (iterate s' p iFrame))
    \<and> set (iterate s' p iFrame) = newest_frames L lo (mxFrame (hdr w)) 0"
proof -
  note F = index_frames_in [OF assms(1,2)]
  obtain p where p: "it = Some p" "iPrior p = 0"
    "segs_ok L (walFramePage (nBack + 1)) (mxFrame (hdr w)) 0 0 (aSegment p)"
    by (rule walIteratorInit_ok [OF F assms(3,5)])
  have "iZero_of (walFramePage (nBack + 1)) \<le> nBack" using frame_place(1) [of "nBack + 1"] by simp
  with iterate_spec [OF frames_in_writes [OF F assms(6)] assms(4,2), of "walFramePage (nBack + 1)" p iFrame] p
  show ?thesis by auto
qed

subsection \<open>Witnesses\<close>

lemma demo_init: "\<exists>it. walIteratorInit demo_env True True demo_w1 demo_s1 0 = Some (SQLITE_OK, it, demo_w1)"
  by (simp add: walIteratorInit_def demo_w1_def demo_w_def demo_env_def walFramePage_def wal_sizes walHashGet_def walIndexPage_def
      Let_def split: prod.splits)

lemma iterator_pages_witness:
  "\<exists>it p lo. walIteratorInit demo_env True True demo_w1 demo_s1 0 = Some (SQLITE_OK, it, demo_w1)
    \<and> it = Some p \<and> lo \<le> 0 \<and> sorted_wrt (<) (map fst (iterate demo_s1 p 0))
    \<and> set (iterate demo_s1 p 0) = newest_frames [5] lo 1 0"
proof -
  obtain it where i: "walIteratorInit demo_env True True demo_w1 demo_s1 0 = Some (SQLITE_OK, it, demo_w1)" using demo_init by blast
  from iterator_pages [OF demo_index(1) _ _ _ i writes_behind_refl, of 0] i demo_index(2) show ?thesis by simp
qed

end
