(* ===== verification/WalCheckpoint.thy ===== *)
theory WalCheckpoint
  imports WalIterator
begin

section \<open>Checkpoints\<close>

text \<open>
  A checkpoint copies the newest frames of the log into the database (\<open>walCheckpoint\<close> of
  \<open>wal.c\<close>) while readers keep their snapshots. It may copy a frame only when no reader would
  miss the older page: the marks of the readers bound the last frame that is safe.

  A file is its pages: the content of frame \<open>f\<close> of the log, and of page \<open>p\<close> of the database,
  where \<open>None\<close> says that the file does not reach there. What the file system, the locks and the
  scheduler answer is an argument. A failed write may leave anything in its page.
\<close>

definition SQLITE_BUSY :: int where "SQLITE_BUSY = 5"
definition SQLITE_INTERRUPT :: int where "SQLITE_INTERRUPT = 9"

datatype ckpt_mode = CHECKPOINT_PASSIVE | CHECKPOINT_FULL | CHECKPOINT_RESTART | CHECKPOINT_TRUNCATE

text \<open>
  \<open>busy_lock i\<close> is what \<open>walBusyLock\<close> returns for \<open>WAL_READ_LOCK(i)\<close>, \<open>restart_lock\<close> for all of
  them but the first; \<open>interrupted k\<close> whether an interrupt is seen in round \<open>k\<close> of the copy.
\<close>

record 'pg ckpt_env =
  shm_answers :: shm_env
  iter_ok :: bool
  tmp_ok :: bool
  busy_lock :: "nat \<Rightarrow> int"
  restart_lock :: int
  wal_sync :: int
  db_size :: int
  wal_read :: "nat \<Rightarrow> int \<times> 'pg"
  db_write :: "u32 \<Rightarrow> int \<times> 'pg option"
  db_truncate :: int
  db_sync :: int
  wal_truncate :: int
  interrupted :: "nat \<Rightarrow> bool"
  mallocFailed :: bool
  new_salt :: u32

definition WAL_NREADER :: nat where "WAL_NREADER = 5"

text \<open>The loop over the marks of the readers: the result code, the marks and the last safe frame.\<close>

fun safe_loop :: "'pg ckpt_env \<Rightarrow> nat \<Rightarrow> nat \<Rightarrow> nat list \<Rightarrow> nat \<Rightarrow> int \<times> nat list \<times> nat" where
  "safe_loop env 0 i marks mxSafeFrame = (SQLITE_OK, marks, mxSafeFrame)"
| "safe_loop env (Suc k) i marks mxSafeFrame =
     (let y = marks ! i in
      if mxSafeFrame > y then
        (let rc = busy_lock env i in
         if rc = SQLITE_OK
         then safe_loop env k (i + 1) (marks[i := (if i = 1 then mxSafeFrame else READMARK_NOT_USED)]) mxSafeFrame
         else if rc = SQLITE_BUSY then safe_loop env k (i + 1) marks y
         else (rc, marks, mxSafeFrame))
      else safe_loop env k (i + 1) marks mxSafeFrame)"

text \<open>The loop over the pages of the log.\<close>

function ckpt_copy :: "'pg ckpt_env \<Rightarrow> WalShm \<Rightarrow> nat \<Rightarrow> nat \<Rightarrow> u32 \<Rightarrow> nat \<Rightarrow> WalIterator \<Rightarrow> nat
    \<Rightarrow> (u32 \<Rightarrow> 'pg option) \<Rightarrow> int \<times> (u32 \<Rightarrow> 'pg option)" where
  "ckpt_copy env s nBack mxSafeFrame mxPage k p iFrame db =
     (case walIteratorNext s p iFrame of (fin, iDbpage, iFrame, p) \<Rightarrow>
        if fin then (SQLITE_OK, db)
        else if interrupted env k then (if mallocFailed env then SQLITE_NOMEM else SQLITE_INTERRUPT, db)
        else if iFrame \<le> nBack \<or> iFrame > mxSafeFrame \<or> iDbpage > mxPage
        then ckpt_copy env s nBack mxSafeFrame mxPage (k + 1) p iFrame db
        else case wal_read env iFrame of (rc, zBuf) \<Rightarrow>
          if rc \<noteq> SQLITE_OK then (rc, db)
          else case db_write env iDbpage of (rc, left) \<Rightarrow>
            if rc \<noteq> SQLITE_OK then (rc, db(iDbpage := left))
            else ckpt_copy env s nBack mxSafeFrame mxPage (k + 1) p iFrame (db(iDbpage := Some zBuf)))"
  by auto
termination ckpt_copy
proof (relation "measure (\<lambda>(env, s, b, m, x, k, p, f, db). 2 ^ 32 - unat (iPrior p))", goal_cases)
  case (2 env s b m x k p f db fin y iDbpage z iFrame p')
  then have "walIteratorNext s p f = (False, iDbpage, iFrame, p')" by simp
  then show ?case using iterator_measure by simp
next
  case (3 env s b m x k p f db fin y iDbpage z iFrame p')
  then have "walIteratorNext s p f = (False, iDbpage, iFrame, p')" by simp
  then show ?case using iterator_measure by simp
qed simp

declare ckpt_copy.simps [simp del]

text \<open>What is done while the lock of the readers of the database is held.\<close>

definition ckpt_write :: "'pg ckpt_env \<Rightarrow> Wal \<Rightarrow> WalShm \<Rightarrow> WalIterator \<Rightarrow> nat \<Rightarrow> (u32 \<Rightarrow> 'pg option)
    \<Rightarrow> int \<times> WalShm \<times> (u32 \<Rightarrow> 'pg option)" where
  "ckpt_write env w s p mxSafeFrame db =
     (let s = s\<lparr>nBackfillAttempted := mxSafeFrame\<rparr>;
          rc = (if wal_sync env = SQLITE_OK then db_size env else wal_sync env);
          (rc, db) = (if rc = SQLITE_OK
                      then ckpt_copy env s (nBackfill s) mxSafeFrame (nPage (hdr w)) 0 p 0 db else (rc, db));
          (rc, db) = (if rc = SQLITE_OK \<and> mxSafeFrame = mxFrame (live_hdr s)
                      then (if db_truncate env = SQLITE_OK
                            then (db_sync env, \<lambda>p. if p \<le> nPage (hdr w) then db p else None)
                            else (db_truncate env, db))
                      else (rc, db))
      in (rc, if rc = SQLITE_OK then s\<lparr>nBackfill := mxSafeFrame\<rparr> else s, db))"

text \<open>
  The backfill: whether the function is left at once (an error at the marks), the code, the
  connection, the shared memory and the database.
\<close>

definition ckpt_backfill :: "'pg ckpt_env \<Rightarrow> Wal \<Rightarrow> WalShm \<Rightarrow> (u32 \<Rightarrow> 'pg option)
    \<Rightarrow> (bool \<times> int \<times> Wal \<times> WalShm \<times> (u32 \<Rightarrow> 'pg option)) option" where
  "ckpt_backfill env w s db =
     (case safe_loop env (WAL_NREADER - 1) 1 (aReadMark s) (mxFrame (hdr w)) of (rc, marks, mxSafeFrame) \<Rightarrow>
        let s = s\<lparr>aReadMark := marks\<rparr> in
        if rc \<noteq> SQLITE_OK then Some (True, rc, w, s, db)
        else
          case (if nBackfill s < mxSafeFrame
                then walIteratorInit (shm_answers env) (iter_ok env) (tmp_ok env) w s (nBackfill s)
                else Some (SQLITE_OK, None, w)) of
            None \<Rightarrow> None
          | Some (rc, pIter, w) \<Rightarrow>
              let (rc, s, db) =
                (case pIter of
                   None \<Rightarrow> (rc, s, db)
                 | Some p \<Rightarrow>
                     if busy_lock env 0 = SQLITE_OK then ckpt_write env w s p mxSafeFrame db
                     else (busy_lock env 0, s, db))
              in Some (False, if rc = SQLITE_BUSY then SQLITE_OK else rc, w, s, db))"

definition walCheckpoint :: "'pg ckpt_env \<Rightarrow> ckpt_mode \<Rightarrow> Wal \<Rightarrow> WalShm \<Rightarrow> (u32 \<Rightarrow> 'pg option)
    \<Rightarrow> (int \<times> Wal \<times> WalShm \<times> (u32 \<Rightarrow> 'pg option)) option" where
  "walCheckpoint env eMode w s db =
     (case (if nBackfill s < mxFrame (hdr w) then ckpt_backfill env w s db else Some (False, SQLITE_OK, w, s, db)) of
        None \<Rightarrow> None
      | Some (out, rc, w, s, db) \<Rightarrow>
          if \<not> out \<and> rc = SQLITE_OK \<and> eMode \<noteq> CHECKPOINT_PASSIVE then
            (if nBackfill s < mxFrame (hdr w) then Some (SQLITE_BUSY, w, s, db)
             else if eMode = CHECKPOINT_RESTART \<or> eMode = CHECKPOINT_TRUNCATE then
               (if restart_lock env \<noteq> SQLITE_OK then Some (restart_lock env, w, s, db)
                else if eMode = CHECKPOINT_TRUNCATE then
                  (case walRestartHdr w s (new_salt env) of (w, s) \<Rightarrow> Some (wal_truncate env, w, s, db))
                else Some (SQLITE_OK, w, s, db))
             else Some (SQLITE_OK, w, s, db))
          else Some (rc, w, s, db))"

subsection \<open>What a reader sees\<close>

text \<open>
  The content of a page for a reader of \<open>n\<close> frames that ignores those before \<open>lo\<close>: its newest
  frame, which \<open>sqlite3WalFindFrame\<close> finds, or the page of the database.
\<close>

definition view :: "(nat \<Rightarrow> 'pg) \<Rightarrow> u32 list \<Rightarrow> (u32 \<Rightarrow> 'pg option) \<Rightarrow> u32 \<Rightarrow> nat \<Rightarrow> nat \<Rightarrow> 'pg option" where
  "view content L db pgno lo n =
     (let f = last_frame L pgno lo n in if f = 0 then db pgno else Some (content f))"

text \<open>A reader that starts now.\<close>

definition fresh_view :: "(nat \<Rightarrow> 'pg) \<Rightarrow> u32 list \<Rightarrow> WalShm \<Rightarrow> (u32 \<Rightarrow> 'pg option) \<Rightarrow> u32 \<Rightarrow> 'pg option" where
  "fresh_view content L s db pgno = view content L db pgno (nBackfill s + 1) (mxFrame (live_hdr s))"

definition frame_content :: "'pg ckpt_env \<Rightarrow> nat \<Rightarrow> 'pg" where
  "frame_content env f = snd (wal_read env f)"

lemma newest_found: "newest P n \<noteq> 0 \<Longrightarrow> P (newest P n) \<and> newest P n \<le> n \<and> (\<forall>j. newest P n < j \<and> j \<le> n \<longrightarrow> \<not> P j)"
  by (induction n) (auto simp: le_Suc_eq)

lemma newest_0: "newest P n = 0 \<longleftrightarrow> (\<forall>j. 1 \<le> j \<and> j \<le> n \<longrightarrow> \<not> P j)"
  by (induction n) (auto simp: le_Suc_eq)

lemma last_frame_0: "last_frame L p lo n = 0 \<longleftrightarrow> (\<forall>f. 1 \<le> f \<and> f \<le> n \<and> lo \<le> f \<longrightarrow> L ! (f - 1) \<noteq> p)"
  unfolding last_frame_def newest_0 by auto

lemma last_frame_eq:
  "1 \<le> f \<Longrightarrow> f \<le> n \<Longrightarrow> lo \<le> f \<Longrightarrow> L ! (f - 1) = p \<Longrightarrow> (\<And>j. f < j \<Longrightarrow> j \<le> n \<Longrightarrow> L ! (j - 1) \<noteq> p) \<Longrightarrow> last_frame L p lo n = f"
  unfolding last_frame_def by (rule newest_eq) auto

lemma last_frame_found:
  assumes "last_frame L p lo n \<noteq> 0"
  shows "lo \<le> last_frame L p lo n" "last_frame L p lo n \<le> n" "L ! (last_frame L p lo n - 1) = p"
    "last_frame L p lo n < j \<Longrightarrow> j \<le> n \<Longrightarrow> L ! (j - 1) \<noteq> p"
proof -
  let ?P = "\<lambda>f. L ! (f - 1) = p \<and> lo \<le> f"
  have F: "?P (newest ?P n) \<and> newest ?P n \<le> n \<and> (\<forall>j. newest ?P n < j \<and> j \<le> n \<longrightarrow> \<not> ?P j)"
    by (rule newest_found) (use assms in \<open>simp add: last_frame_def\<close>)
  then show "lo \<le> last_frame L p lo n" "last_frame L p lo n \<le> n" "L ! (last_frame L p lo n - 1) = p"
    unfolding last_frame_def by blast+
  show "L ! (j - 1) \<noteq> p" if "last_frame L p lo n < j" "j \<le> n"
  proof -
    have "newest ?P n < j" "lo \<le> j" using that F unfolding last_frame_def by linarith+
    with F that(2) show ?thesis by blast
  qed
qed

lemma view_same: "db' p = db p \<Longrightarrow> view content L db' p lo n = view content L db p lo n"
  by (simp add: view_def Let_def)

text \<open>A page with a frame in the log of the reader is not read from the database.\<close>

lemma view_frame:
  "1 \<le> f \<Longrightarrow> f \<le> n \<Longrightarrow> lo \<le> f \<Longrightarrow> L ! (f - 1) = p \<Longrightarrow> view content L db p lo n = view content L db' p lo n"
  using last_frame_0 [of L p lo n] by (auto simp: view_def Let_def)

subsection \<open>The marks\<close>

lemma safe_loop_le:
  assumes "safe_loop env k i marks m = (SQLITE_OK, marks', m')" and "i + k \<le> length marks"
  shows "m' \<le> m" and "i \<le> j \<Longrightarrow> j < i + k \<Longrightarrow> busy_lock env j \<noteq> SQLITE_OK \<Longrightarrow> m' \<le> marks ! j"
proof -
  have "m' \<le> m \<and> (\<forall>j. i \<le> j \<and> j < i + k \<and> busy_lock env j \<noteq> SQLITE_OK \<longrightarrow> m' \<le> marks ! j)"
    using assms
  proof (induction k arbitrary: i marks m)
    case 0
    then show ?case by simp
  next
    case (Suc k)
    let ?y = "marks ! i"
    consider (free) "m > ?y" "busy_lock env i = SQLITE_OK"
        "safe_loop env k (i + 1) (marks[i := (if i = 1 then m else READMARK_NOT_USED)]) m = (SQLITE_OK, marks', m')"
      | (busy) "m > ?y" "safe_loop env k (i + 1) marks ?y = (SQLITE_OK, marks', m')"
      | (high) "\<not> m > ?y" "safe_loop env k (i + 1) marks m = (SQLITE_OK, marks', m')"
      using Suc.prems(1) by (auto simp: Let_def split: if_splits)
    then show ?case
    proof cases
      case free
      note IH = Suc.IH [OF free(3)]
      have "m' \<le> marks ! j" if j: "i \<le> j" "j < i + Suc k" "busy_lock env j \<noteq> SQLITE_OK" for j
      proof -
        have "j \<noteq> i" using j free(2) by auto
        then show ?thesis using IH Suc.prems(2) j by simp
      qed
      with IH Suc.prems(2) show ?thesis by simp
    next
      case busy
      note IH = Suc.IH [OF busy(2)]
      have "m' \<le> marks ! j" if j: "i \<le> j" "j < i + Suc k" "busy_lock env j \<noteq> SQLITE_OK" for j
        using IH Suc.prems(2) j by (cases "j = i") simp_all
      with IH Suc.prems(2) busy(1) show ?thesis by simp
    next
      case high
      note IH = Suc.IH [OF high(2)]
      have "m' \<le> marks ! j" if j: "i \<le> j" "j < i + Suc k" "busy_lock env j \<noteq> SQLITE_OK" for j
        using IH Suc.prems(2) j high(1) by (cases "j = i") simp_all
      with IH Suc.prems(2) show ?thesis by simp
    qed
  qed
  then show "m' \<le> m" "i \<le> j \<Longrightarrow> j < i + k \<Longrightarrow> busy_lock env j \<noteq> SQLITE_OK \<Longrightarrow> m' \<le> marks ! j" by blast+
qed

subsection \<open>The copy\<close>

definition copied :: "nat \<Rightarrow> nat \<Rightarrow> u32 \<Rightarrow> u32 \<times> nat \<Rightarrow> bool" where
  "copied nBack mxSafe mxPage = (\<lambda>(pg, f). nBack < f \<and> f \<le> mxSafe \<and> pg \<le> mxPage)"

lemma ckpt_copy_spec:
  assumes "ckpt_copy env s nBack mxSafe mxPage k p iFrame db = (rc, db')" and "sorted_wrt (<) (map fst (iterate s p iFrame))"
  shows "db' pg \<noteq> db pg \<Longrightarrow> \<exists>f. (pg, f) \<in> set (iterate s p iFrame) \<and> copied nBack mxSafe mxPage (pg, f)"
    and "rc = SQLITE_OK \<Longrightarrow> (pg, f) \<in> set (iterate s p iFrame) \<Longrightarrow> copied nBack mxSafe mxPage (pg, f)
      \<Longrightarrow> db' pg = Some (frame_content env f)"
proof -
  have "(\<forall>pg. db' pg \<noteq> db pg \<longrightarrow> (\<exists>f. (pg, f) \<in> set (iterate s p iFrame) \<and> copied nBack mxSafe mxPage (pg, f)))
    \<and> (rc = SQLITE_OK \<longrightarrow> (\<forall>(pg, f) \<in> set (iterate s p iFrame). copied nBack mxSafe mxPage (pg, f)
      \<longrightarrow> db' pg = Some (frame_content env f)))"
    using assms
  proof (induction env s nBack mxSafe mxPage k p iFrame db rule: ckpt_copy.induct)
    case (1 env s nBack mxSafe mxPage k p iFrame db)
    obtain fin x g q where r: "walIteratorNext s p iFrame = (fin, x, g, q)" by (metis prod_cases4)
    have it: "iterate s p iFrame = (if fin then [] else (x, g) # iterate s q g)"
      using r by (subst iterate.simps) simp
    note run = 1(3) [unfolded ckpt_copy.simps [of env s nBack mxSafe mxPage k p iFrame db], unfolded r, simplified]
    show ?case
    proof (cases "fin \<or> interrupted env k")
      case True
      then show ?thesis using run it by (auto simp: SQLITE_INTERRUPT_def sqlite_codes split: if_splits)
    next
      case False
      then have fin: "fin = False" "\<not> interrupted env k" by simp_all
      have sorted: "sorted_wrt (<) (map fst (iterate s q g))" "\<forall>y \<in> set (iterate s q g). x < fst y"
        using 1(4) it fin by auto
      show ?thesis
      proof (cases "g \<le> nBack \<or> g > mxSafe \<or> x > mxPage")
        case True
        then have "ckpt_copy env s nBack mxSafe mxPage (k + 1) q g db = (rc, db')" using run fin by simp
        from 1(1) [OF r [symmetric] refl refl _ _ True this sorted(1)] fin True show ?thesis
          using it by (auto simp: copied_def)
      next
        case copy: False
        then have c: "copied nBack mxSafe mxPage (x, g)" by (auto simp: copied_def)
        obtain rc1 z where rd: "wal_read env g = (rc1, z)" by fastforce
        obtain rc2 left where wr: "db_write env x = (rc2, left)" by fastforce
        show ?thesis
        proof (cases "rc1 = SQLITE_OK \<and> rc2 = SQLITE_OK")
          case False
          then have "rc \<noteq> SQLITE_OK \<and> (db' = db \<or> db' = db(x := left))" using run fin copy rd wr by (auto split: if_splits)
          with it fin c show ?thesis by (auto split: if_splits)
        next
          case True
          then have "ckpt_copy env s nBack mxSafe mxPage (k + 1) q g (db(x := Some z)) = (rc, db')"
            using run fin copy rd wr by auto
          note IH = 1(2) [OF r [symmetric] refl refl _ _ copy rd [symmetric] _ wr [symmetric] _ this sorted(1)]
          have IH': "\<forall>pg. db' pg \<noteq> (db(x := Some z)) pg \<longrightarrow> (\<exists>f. (pg, f) \<in> set (iterate s q g) \<and> copied nBack mxSafe mxPage (pg, f))"
            "rc = SQLITE_OK \<longrightarrow> (\<forall>(pg, f) \<in> set (iterate s q g). copied nBack mxSafe mxPage (pg, f) \<longrightarrow> db' pg = Some (frame_content env f))"
            using IH fin True by simp_all
          have "db' x = Some z"
          proof (rule ccontr)
            assume "db' x \<noteq> Some z"
            then obtain f where "(x, f) \<in> set (iterate s q g)" using IH'(1) [rule_format, of x] by auto
            with sorted(2) have "x < x" by fastforce
            then show False by simp
          qed
          with IH' it fin c rd show ?thesis by (auto simp: frame_content_def split: if_splits)
        qed
      qed
    qed
  qed
  then show "db' pg \<noteq> db pg \<Longrightarrow> \<exists>f. (pg, f) \<in> set (iterate s p iFrame) \<and> copied nBack mxSafe mxPage (pg, f)"
    "rc = SQLITE_OK \<Longrightarrow> (pg, f) \<in> set (iterate s p iFrame) \<Longrightarrow> copied nBack mxSafe mxPage (pg, f)
      \<Longrightarrow> db' pg = Some (frame_content env f)" by blast+
qed

subsection \<open>The backfill\<close>

lemma init_loop_hdr: "init_loop env s n m k i w segs = Some (rc, w', segs') \<Longrightarrow> hdr w' = hdr w"
proof (induction k arbitrary: i w segs)
  case (Suc k)
  obtain r p z v where g: "walHashGet env w i = (r, p, z, v)" by (metis prod_cases4)
  note K = walHashGet_keeps [OF g]
  from Suc g K show ?case by (auto simp: Let_def split: if_splits prod.splits)
qed simp

lemma walIteratorInit_hdr: "walIteratorInit env a b w s n = Some (rc, it, w') \<Longrightarrow> hdr w' = hdr w"
  by (auto simp: walIteratorInit_def Let_def split: if_splits option.splits dest: init_loop_hdr)

lemma ckpt_write_spec:
  assumes F: "frames_in L n s" and n: "n \<le> length L" and pages: "0xFFFFFFFF \<notin> set (take n L)"
    and segs: "segs_ok L start n (iPrior p) 0 (aSegment p)" "iPrior p = 0" "iZero_of start \<le> nBackfill s"
    and run: "ckpt_write env w s p m db = (rc, s', db')" and pg: "pg \<le> nPage (hdr w)" and m: "m \<le> n"
  shows "live_hdr s' = live_hdr s" and "nBackfill s' = (if rc = SQLITE_OK then m else nBackfill s)"
    and "db' pg \<noteq> db pg \<Longrightarrow> \<exists>f. nBackfill s < f \<and> f \<le> m \<and> L ! (f - 1) = pg"
    and "rc = SQLITE_OK \<Longrightarrow> nBackfill s < f \<Longrightarrow> f \<le> m \<Longrightarrow> L ! (f - 1) = pg \<Longrightarrow> 0 < pg \<Longrightarrow>
      (\<And>g. f < g \<Longrightarrow> g \<le> n \<Longrightarrow> L ! (g - 1) \<noteq> pg) \<Longrightarrow> db' pg = Some (frame_content env f)"
proof -
  let ?s = "s\<lparr>nBackfillAttempted := m\<rparr>"
  have F': "frames_in L n ?s" using F by (simp add: frames_in_def)
  note it = iterate_spec [OF F' pages n segs(1), of 0, unfolded segs(2)]
  obtain rc1 where rc1: "rc1 = (if wal_sync env = SQLITE_OK then db_size env else wal_sync env)" by simp
  obtain rc2 db2 where cp: "(if rc1 = SQLITE_OK then ckpt_copy env ?s (nBackfill s) m (nPage (hdr w)) 0 p 0 db else (rc1, db)) = (rc2, db2)"
    by fastforce
  have r: "live_hdr s' = live_hdr s" "nBackfill s' = (if rc = SQLITE_OK then m else nBackfill s)" "db' pg = db2 pg"
    "rc = SQLITE_OK \<Longrightarrow> rc2 = SQLITE_OK"
    using run cp pg unfolding ckpt_write_def rc1 [symmetric] Let_def
    by (auto split: if_splits prod.splits)
  show "live_hdr s' = live_hdr s" "nBackfill s' = (if rc = SQLITE_OK then m else nBackfill s)" by (fact r)+
  have sorted: "sorted_wrt (<) (map fst (iterate ?s p 0))" and set: "set (iterate ?s p 0) = newest_frames L (iZero_of start) n 0"
    using it by simp_all
  show "\<exists>f. nBackfill s < f \<and> f \<le> m \<and> L ! (f - 1) = pg" if "db' pg \<noteq> db pg"
  proof (cases "rc1 = SQLITE_OK")
    case True
    then have "ckpt_copy env ?s (nBackfill s) m (nPage (hdr w)) 0 p 0 db = (rc2, db2)" using cp by simp
    from ckpt_copy_spec(1) [OF this sorted, of pg] that r(3) set show ?thesis
      by (auto simp: newest_frames_def copied_def)
  next
    case False
    then show ?thesis using cp that r(3) by simp
  qed
  show "db' pg = Some (frame_content env f)" if "rc = SQLITE_OK" and f: "nBackfill s < f" "f \<le> m" "L ! (f - 1) = pg" "0 < pg"
    "\<And>g. f < g \<Longrightarrow> g \<le> n \<Longrightarrow> L ! (g - 1) \<noteq> pg"
  proof -
    have rc2: "rc2 = SQLITE_OK" using r(4) that(1) by simp
    then have "rc1 = SQLITE_OK" using cp by (auto split: if_splits)
    then have c: "ckpt_copy env ?s (nBackfill s) m (nPage (hdr w)) 0 p 0 db = (rc2, db2)" using cp by simp
    have "(pg, f) \<in> newest_frames L (iZero_of start) n 0"
      unfolding newest_frames_def using f m segs(3) by fastforce
    with ckpt_copy_spec(2) [OF c sorted rc2, of pg f] set f pg r(3) show ?thesis by (simp add: copied_def)
  qed
qed

lemma ckpt_backfill_spec:
  assumes I: "index_of L s" and n: "mxFrame (hdr w) \<le> length L" and pages: "0xFFFFFFFF \<notin> set (take (mxFrame (hdr w)) L)"
    and marks: "length (aReadMark s) = WAL_NREADER"
    and run: "ckpt_backfill env w s db = Some (out, rc, w', s', db')" and p: "pg \<le> nPage (hdr w)"
  obtains m where "\<And>i. 1 \<le> i \<Longrightarrow> i < WAL_NREADER \<Longrightarrow> busy_lock env i \<noteq> SQLITE_OK \<Longrightarrow> m \<le> aReadMark s ! i"
    "m \<le> mxFrame (hdr w)" "live_hdr s' = live_hdr s" "nBackfill s' = nBackfill s \<or> nBackfill s' = m"
    "db' pg \<noteq> db pg \<Longrightarrow> \<exists>f. nBackfill s < f \<and> f \<le> m \<and> L ! (f - 1) = pg"
    "nBackfill s' \<noteq> nBackfill s \<Longrightarrow> nBackfill s < m \<and> (\<forall>f. nBackfill s < f \<and> f \<le> m \<and> L ! (f - 1) = pg \<and> 0 < pg
      \<and> (\<forall>g. f < g \<and> g \<le> mxFrame (hdr w) \<longrightarrow> L ! (g - 1) \<noteq> pg) \<longrightarrow> db' pg = Some (frame_content env f))"
    "mxFrame (hdr w') = mxFrame (hdr w)"
proof -
  let ?n = "mxFrame (hdr w)"
  obtain rc1 marks1 m where sl: "safe_loop env (WAL_NREADER - 1) 1 (aReadMark s) ?n = (rc1, marks1, m)" by (metis prod_cases3)
  show thesis
  proof (cases "rc1 = SQLITE_OK")
    case False
    then have "w' = w" "s' = s\<lparr>aReadMark := marks1\<rparr>" "db' = db" using run sl by (simp_all add: ckpt_backfill_def Let_def)
    then show thesis by (intro that [of 0]) simp_all
  next
    case True
    have len: "1 + (WAL_NREADER - 1) \<le> length (aReadMark s)" using marks by (simp add: WAL_NREADER_def)
    note S = safe_loop_le [OF sl [unfolded True] len]
    have S2: "m \<le> aReadMark s ! i" if "1 \<le> i" "i < WAL_NREADER" "busy_lock env i \<noteq> SQLITE_OK" for i
      using S(2) [of i] that by simp
    let ?s = "s\<lparr>aReadMark := marks1\<rparr>"
    let ?I = "if nBackfill ?s < m
      then walIteratorInit (shm_answers env) (iter_ok env) (tmp_ok env) w ?s (nBackfill ?s) else Some (SQLITE_OK, None, w)"
    have run': "(case ?I of None \<Rightarrow> None
        | Some (rc, pIter, w) \<Rightarrow>
            case (case pIter of None \<Rightarrow> (rc, ?s, db)
                  | Some p \<Rightarrow> if busy_lock env 0 = SQLITE_OK then ckpt_write env w ?s p m db else (busy_lock env 0, ?s, db)) of
              (rc, s, db) \<Rightarrow> Some (False, if rc = SQLITE_BUSY then SQLITE_OK else rc, w, s, db)) = Some (out, rc, w', s', db')"
      using run unfolding ckpt_backfill_def Let_def sl True by simp
    obtain rc2 it w2 where it: "?I = Some (rc2, it, w2)" using run' by (cases ?I) (auto simp del: if_split)
    note run' = run' [unfolded it, simplified]
    have w2: "hdr w2 = hdr w" using it walIteratorInit_hdr by (auto split: if_splits)
    show thesis
    proof (cases "it = None \<or> busy_lock env 0 \<noteq> SQLITE_OK")
      case True
      then have "w' = w2" "s' = ?s" "db' = db"
        using run' by (auto split: option.splits)
      then show thesis using S(1) S2 w2 by (intro that [of m]) simp_all
    next
      case False
      then obtain q where q: "it = Some q" and lock: "busy_lock env 0 = SQLITE_OK" by auto
      have lt: "nBackfill s < m" and init: "walIteratorInit (shm_answers env) (iter_ok env) (tmp_ok env) w ?s (nBackfill s) = Some (rc2, Some q, w2)"
        using it q by (auto split: if_splits)
      have rc2: "rc2 = SQLITE_OK" using init by (auto simp: walIteratorInit_def Let_def split: if_splits option.splits)
      have F: "frames_in L ?n ?s" using index_frames_in [OF I n] by (simp add: frames_in_def)
      obtain q' where q': "Some q = Some q'" "iPrior q' = 0"
        "segs_ok L (walFramePage (nBackfill s + 1)) ?n 0 0 (aSegment q')"
        by (rule walIteratorInit_ok [OF F _ init [unfolded rc2]]) (use lt S(1) in auto)
      obtain rc3 s3 db3 where W: "ckpt_write env w2 ?s q m db = (rc3, s3, db3)" by (metis prod_cases3)
      have e: "w' = w2" "s' = s3" "db' = db3"
        using run' q lock W by auto
      have z: "iZero_of (walFramePage (nBackfill s + 1)) \<le> nBackfill ?s" using frame_place(1) [of "nBackfill s + 1"] by simp
      have segs: "segs_ok L (walFramePage (nBackfill s + 1)) ?n (iPrior q) 0 (aSegment q)" "iPrior q = 0" using q' by simp_all
      have p2: "pg \<le> nPage (hdr w2)" using p w2 by simp
      note X = ckpt_write_spec [OF F n pages segs z W p2 S(1)]
      show thesis
      proof (rule that [OF S2 S(1)])
        show "live_hdr s' = live_hdr s" "nBackfill s' = nBackfill s \<or> nBackfill s' = m" using X(1,2) e by simp_all
        show "mxFrame (hdr w') = ?n" using e w2 by simp
        show "db' pg \<noteq> db pg \<Longrightarrow> \<exists>f. nBackfill s < f \<and> f \<le> m \<and> L ! (f - 1) = pg" using X(3) e by simp
        show "nBackfill s < m \<and> (\<forall>f. nBackfill s < f \<and> f \<le> m \<and> L ! (f - 1) = pg \<and> 0 < pg
          \<and> (\<forall>g. f < g \<and> g \<le> ?n \<longrightarrow> L ! (g - 1) \<noteq> pg) \<longrightarrow> db' pg = Some (frame_content env f))" if "nBackfill s' \<noteq> nBackfill s"
        proof -
          have "rc3 = SQLITE_OK" using X(2) e that by (simp split: if_splits)
          then show ?thesis using X(4) lt e by auto
        qed
      qed
    qed
  qed
qed

text \<open>After the backfill a checkpoint writes nothing more to the database.\<close>

lemma walCheckpoint_split:
  assumes "walCheckpoint env eMode w s db = Some (rc, w', s', db')"
  obtains w1 s1 out rc1 where "(if nBackfill s < mxFrame (hdr w) then ckpt_backfill env w s db else Some (False, SQLITE_OK, w, s, db))
      = Some (out, rc1, w1, s1, db')"
    "s' = s1 \<or> (eMode = CHECKPOINT_TRUNCATE \<and> restart_lock env = SQLITE_OK \<and> \<not> nBackfill s1 < mxFrame (hdr w1)
      \<and> s' = snd (walRestartHdr w1 s1 (new_salt env)))"
  using assms unfolding walCheckpoint_def by (auto split: option.splits if_splits prod.splits)


text \<open>C38. A checkpoint does not change the database that a reader starting afterwards sees: with the
  frames it has copied out of sight and, in mode TRUNCATE, the log started anew, each page up
  to the size of the database has the content it had before, whatever fails on the way.\<close>

theorem checkpoint_keeps_database:
  assumes "index_of L s" and "mxFrame (live_hdr s) \<le> length L" and "0xFFFFFFFF \<notin> set (take (mxFrame (hdr w)) L)"
    and "length (aReadMark s) = WAL_NREADER"
    and "mxFrame (hdr w) \<le> mxFrame (live_hdr s)"
    and "eMode \<noteq> CHECKPOINT_PASSIVE \<Longrightarrow> mxFrame (live_hdr s) = mxFrame (hdr w)"
    and "0 < pgno" and "pgno \<le> nPage (hdr w)"
    and "walCheckpoint env eMode w s db = Some (rc, w', s', db')"
  shows "fresh_view (frame_content env) L s' db' pgno = fresh_view (frame_content env) L s db pgno"
proof -
  let ?n = "mxFrame (hdr w)" and ?N = "mxFrame (live_hdr s)" and ?c = "frame_content env"
  obtain w1 s1 out rc1 where B: "(if nBackfill s < ?n then ckpt_backfill env w s db else Some (False, SQLITE_OK, w, s, db))
      = Some (out, rc1, w1, s1, db')"
    "s' = s1 \<or> (eMode = CHECKPOINT_TRUNCATE \<and> restart_lock env = SQLITE_OK \<and> \<not> nBackfill s1 < mxFrame (hdr w1)
      \<and> s' = snd (walRestartHdr w1 s1 (new_salt env)))" by (rule walCheckpoint_split [OF assms(9)])
  have first: "fresh_view ?c L s1 db' pgno = fresh_view ?c L s db pgno \<and> live_hdr s1 = live_hdr s \<and> mxFrame (hdr w1) = ?n"
  proof (cases "nBackfill s < ?n")
    case False
    then show ?thesis using B(1) by auto
  next
    case True
    then have run: "ckpt_backfill env w s db = Some (out, rc1, w1, s1, db')" using B(1) by simp
    have n: "?n \<le> length L" using assms(2,5) by simp
    obtain m where M: "m \<le> ?n" "live_hdr s1 = live_hdr s" "nBackfill s1 = nBackfill s \<or> nBackfill s1 = m"
      "db' pgno \<noteq> db pgno \<Longrightarrow> \<exists>f. nBackfill s < f \<and> f \<le> m \<and> L ! (f - 1) = pgno"
      "nBackfill s1 \<noteq> nBackfill s \<Longrightarrow> nBackfill s < m \<and> (\<forall>f. nBackfill s < f \<and> f \<le> m \<and> L ! (f - 1) = pgno \<and> 0 < pgno
        \<and> (\<forall>g. f < g \<and> g \<le> ?n \<longrightarrow> L ! (g - 1) \<noteq> pgno) \<longrightarrow> db' pgno = Some (?c f))"
      "mxFrame (hdr w1) = ?n"
      by (rule ckpt_backfill_spec [OF assms(1) n assms(3,4) run assms(8)]) blast
    have "view ?c L db' pgno (nBackfill s1 + 1) ?N = view ?c L db pgno (nBackfill s + 1) ?N"
    proof (cases "nBackfill s1 = nBackfill s")
      case True
      show ?thesis
      proof (cases "db' pgno = db pgno")
        case same: True
        then show ?thesis unfolding True by (rule view_same)
      next
        case False
        then obtain f where "nBackfill s < f" "f \<le> m" "L ! (f - 1) = pgno" using M(4) by blast
        then show ?thesis unfolding True using M(1) assms(5) by (intro view_frame [of f]) auto
      qed
    next
      case False
      then have m: "nBackfill s1 = m" "nBackfill s < m" using M(3,5) by blast+
      let ?f = "last_frame L pgno (nBackfill s + 1) ?N"
      show ?thesis
      proof (cases "?f = 0")
        case True
        then have none: "\<And>f. nBackfill s < f \<Longrightarrow> f \<le> ?N \<Longrightarrow> L ! (f - 1) \<noteq> pgno" unfolding last_frame_0 by auto
        have "m \<le> ?N" using M(1) assms(5) by simp
        then have "db' pgno = db pgno" using none M(4) by (meson le_trans)
        moreover have "last_frame L pgno (nBackfill s1 + 1) ?N = 0" unfolding last_frame_0 using none m by auto
        ultimately show ?thesis using True by (simp add: view_def)
      next
        case found: False
        note F = last_frame_found [OF found]
        show ?thesis
        proof (cases "?f \<le> m")
          case True
          have "db' pgno = Some (?c ?f)" using M(5) [OF False] F True assms(5,7) by auto
          moreover have "last_frame L pgno (nBackfill s1 + 1) ?N = 0" unfolding last_frame_0 using F(4) True m by auto
          ultimately show ?thesis using found by (simp add: view_def Let_def)
        next
          case gt: False
          have "last_frame L pgno (nBackfill s1 + 1) ?N = ?f"
            by (rule last_frame_eq) (use F m gt in auto)
          then show ?thesis using found by (simp add: view_def Let_def)
        qed
      qed
    qed
    then show ?thesis using M(2,6) by (simp add: fresh_view_def)
  qed
  show ?thesis
  proof (cases "s' = s1")
    case True
    with first show ?thesis by simp
  next
    case False
    then have R: "eMode = CHECKPOINT_TRUNCATE" "?n \<le> nBackfill s1" "s' = snd (walRestartHdr w1 s1 (new_salt env))"
      using B(2) first by auto
    obtain w2 where "walRestartHdr w1 s1 (new_salt env) = (w2, s')" using R(3) by (metis prod.collapse)
    note H = restart_hdr [OF this]
    have "?N \<le> nBackfill s1" using assms(6) R by simp
    then have "last_frame L pgno (nBackfill s1 + 1) ?N = 0" unfolding last_frame_0 by auto
    then have "fresh_view ?c L s1 db' pgno = db' pgno" using first by (simp add: fresh_view_def view_def)
    moreover have "fresh_view ?c L s' db' pgno = db' pgno" using H by (simp add: fresh_view_def view_def last_frame_def)
    ultimately show ?thesis using first by simp
  qed
qed

subsection \<open>Witnesses\<close>

text \<open>The log of one frame is copied; reader 2 holds the lock of its mark.\<close>

definition demo_ckpt :: "string ckpt_env" where
  "demo_ckpt = \<lparr>shm_answers = demo_env, iter_ok = True, tmp_ok = True, busy_lock = (\<lambda>i. if i = 2 then SQLITE_BUSY else SQLITE_OK),
     restart_lock = SQLITE_OK, wal_sync = SQLITE_OK, db_size = SQLITE_OK, wal_read = (\<lambda>_. (SQLITE_OK, ''new'')),
     db_write = (\<lambda>_. (SQLITE_OK, None)), db_truncate = SQLITE_OK, db_sync = SQLITE_OK, wal_truncate = SQLITE_OK,
     interrupted = (\<lambda>_. False), mallocFailed = False, new_salt = 0\<rparr>"

definition demo_s2 :: WalShm where
  "demo_s2 = demo_s1\<lparr>aReadMark := [0, 1, 1, READMARK_NOT_USED, READMARK_NOT_USED]\<rparr>"

lemma demo_s2_simps: "aReadMark demo_s2 = [0, 1, 1, READMARK_NOT_USED, READMARK_NOT_USED]" "live_hdr demo_s2 = hdr demo_w1"
    "nBackfill demo_s2 = 0" "index_of [5] demo_s2"
  using demo_index index_of_pages [of demo_s2 demo_s1 "[5]"] by (simp_all add: demo_s2_def demo_s1_def demo_s_def)

lemma demo_safe: "safe_loop demo_ckpt 4 1 (aReadMark demo_s2) 1 = (SQLITE_OK, aReadMark demo_s2, 1)"
proof -
  have four: "(4 :: nat) = Suc (Suc (Suc (Suc 0)))" by simp
  show ?thesis unfolding four by (simp add: demo_s2_simps READMARK_NOT_USED_def)
qed

lemma demo_init2: "\<exists>it. walIteratorInit demo_env True True demo_w1 demo_s2 0 = Some (SQLITE_OK, it, demo_w1)"
  by (simp add: walIteratorInit_def demo_w1_def demo_w_def demo_env_def walFramePage_def wal_sizes walHashGet_def walIndexPage_def
      Let_def split: prod.splits)

lemma ckpt_backfill_returns:
  assumes "safe_loop env (WAL_NREADER - 1) 1 (aReadMark s) (mxFrame (hdr w)) = (SQLITE_OK, aReadMark s, m)"
    and "walIteratorInit (shm_answers env) (iter_ok env) (tmp_ok env) w s (nBackfill s) = Some (rc, it, w')" and "nBackfill s < m"
  shows "\<exists>out rc w' s' db'. ckpt_backfill env w s db = Some (out, rc, w', s', db')"
proof -
  have s: "s\<lparr>aReadMark := aReadMark s\<rparr> = s" by simp
  show ?thesis unfolding ckpt_backfill_def assms(1) Let_def prod.case s using assms(2,3) by (auto split: prod.split)
qed

lemma demo_checkpoint: "\<exists>rc w' s' db'. walCheckpoint demo_ckpt CHECKPOINT_PASSIVE demo_w1 demo_s2 (\<lambda>_. Some ''old'') = Some (rc, w', s', db')"
proof -
  obtain it where it: "walIteratorInit demo_env True True demo_w1 demo_s2 0 = Some (SQLITE_OK, it, demo_w1)" using demo_init2 by blast
  have four: "WAL_NREADER - 1 = 4" by (simp add: WAL_NREADER_def)
  have "\<exists>out rc w' s' db'. ckpt_backfill demo_ckpt demo_w1 demo_s2 (\<lambda>_. Some ''old'') = Some (out, rc, w', s', db')"
  proof (rule ckpt_backfill_returns)
    show "safe_loop demo_ckpt (WAL_NREADER - 1) 1 (aReadMark demo_s2) (mxFrame (hdr demo_w1)) = (SQLITE_OK, aReadMark demo_s2, 1)"
      unfolding four demo_index(2) by (rule demo_safe)
    show "walIteratorInit (shm_answers demo_ckpt) (iter_ok demo_ckpt) (tmp_ok demo_ckpt) demo_w1 demo_s2 (nBackfill demo_s2)
        = Some (SQLITE_OK, it, demo_w1)" unfolding demo_s2_simps(3) using it by (simp add: demo_ckpt_def)
  qed (simp add: demo_s2_simps(3))
  then obtain out rc w' s' db' where b: "ckpt_backfill demo_ckpt demo_w1 demo_s2 (\<lambda>_. Some ''old'') = Some (out, rc, w', s', db')" by blast
  have "nBackfill demo_s2 < mxFrame (hdr demo_w1)" by (simp add: demo_s2_simps(3) demo_index(2))
  with b have "walCheckpoint demo_ckpt CHECKPOINT_PASSIVE demo_w1 demo_s2 (\<lambda>_. Some ''old'') = Some (rc, w', s', db')"
    unfolding walCheckpoint_def by simp
  then show ?thesis by blast
qed


lemma checkpoint_keeps_database_witness:
  "\<exists>rc w' s' db'. walCheckpoint demo_ckpt CHECKPOINT_PASSIVE demo_w1 demo_s2 (\<lambda>_. Some ''old'') = Some (rc, w', s', db')
    \<and> fresh_view (frame_content demo_ckpt) [5] s' db' 5 = fresh_view (frame_content demo_ckpt) [5] demo_s2 (\<lambda>_. Some ''old'') 5"
proof -
  obtain rc w' s' db' where r: "walCheckpoint demo_ckpt CHECKPOINT_PASSIVE demo_w1 demo_s2 (\<lambda>_. Some ''old'') = Some (rc, w', s', db')"
    using demo_checkpoint by blast
  from checkpoint_keeps_database [OF demo_s2_simps(4) _ _ _ _ _ _ _ r, of 5] r
  show ?thesis by (simp add: demo_index(2) demo_s2_simps WAL_NREADER_def demo_w1_def)
qed

end
