(* ===== verification/WalRecover.thy ===== *)
theory WalRecover
  imports WalIndex Varint
begin

section \<open>The file of the log and its recovery\<close>

text \<open>
  The file of a write-ahead log (\<open>wal.c\<close>) is a header and a sequence of frames, each a header
  of its own with the content of a page. A checksum runs over the whole file. Recovery reads
  the file as far as it is valid and makes the index from it; the log ends with the last
  frame that commits a transaction.

  Files and buffers are lists of bytes. The machine is little-endian, as all targets of the
  application are. The salts of a header are the numbers that their bytes are in big-endian
  order.
\<close>

subsection \<open>Integers and checksums\<close>

type_synonym bytes = "byte list"

definition SQLITE_BIGENDIAN :: bool where "SQLITE_BIGENDIAN = False"
definition WAL_HDRSIZE :: nat where "WAL_HDRSIZE = 32"
definition WAL_FRAME_HDRSIZE :: nat where "WAL_FRAME_HDRSIZE = 24"
definition WAL_MAGIC :: u32 where "WAL_MAGIC = 0x377f0682"
definition WAL_MAX_VERSION :: u32 where "WAL_MAX_VERSION = 3007000"
definition SQLITE_MAX_PAGE_SIZE :: nat where "SQLITE_MAX_PAGE_SIZE = 65536"

lemmas wal_file_sizes = WAL_HDRSIZE_def WAL_FRAME_HDRSIZE_def

definition walFrameOffset :: "nat \<Rightarrow> nat \<Rightarrow> nat" where
  "walFrameOffset iFrame szPage = WAL_HDRSIZE + (iFrame - 1) * (szPage + WAL_FRAME_HDRSIZE)"

text \<open>The four bytes that \<open>sqlite3Put4byte\<close> writes, and the number that \<open>sqlite3Get4byte\<close> reads at \<open>i\<close>.\<close>

definition Put4byte :: "u32 \<Rightarrow> bytes" where
  "Put4byte v = map (sqlite3Put4byte (\<lambda>_. 0) 0 v) [0..<4]"

definition Get4byte :: "bytes \<Rightarrow> nat \<Rightarrow> u32" where
  "Get4byte p i = sqlite3Get4byte (\<lambda>i. p ! i) i"

text \<open>A 32-bit load on the machine.\<close>

definition native_load :: "bytes \<Rightarrow> nat \<Rightarrow> u32" where
  "native_load p i = push_bit 24 (ucast (p ! (i + 3))) OR push_bit 16 (ucast (p ! (i + 2)))
     OR push_bit 8 (ucast (p ! (i + 1))) OR ucast (p ! i)"

definition BYTESWAP32 :: "u32 \<Rightarrow> u32" where
  "BYTESWAP32 x = push_bit 24 (x AND 0x000000FF) + push_bit 8 (x AND 0x0000FF00)
     + drop_bit 8 (x AND 0x00FF0000) + drop_bit 24 (x AND 0xFF000000)"

text \<open>The loops of \<open>walChecksumBytes\<close>, eight bytes a round.\<close>

function walChecksumBytes :: "bool \<Rightarrow> bytes \<Rightarrow> u32 \<times> u32 \<Rightarrow> u32 \<times> u32" where
  "walChecksumBytes nativeCksum a aIn =
     (case aIn of (s1, s2) \<Rightarrow>
       let d0 = native_load a 0; d1 = native_load a 4;
           s1 = s1 + (if nativeCksum then d0 else BYTESWAP32 d0) + s2;
           s2 = s2 + (if nativeCksum then d1 else BYTESWAP32 d1) + s1
       in if length a > 8 then walChecksumBytes nativeCksum (drop 8 a) (s1, s2) else (s1, s2))"
  by auto
termination walChecksumBytes
  by (relation "measure (\<lambda>(n, a, c). length a)") auto

declare walChecksumBytes.simps [simp del]

subsection \<open>Frames\<close>

definition salt_bytes :: "WalIndexHdr \<Rightarrow> bytes" where
  "salt_bytes h = Put4byte (fst (aSalt h)) @ Put4byte (snd (aSalt h))"

text \<open>The header of a frame, and the connection with the checksum that runs on.\<close>

definition walEncodeFrame :: "Wal \<Rightarrow> u32 \<Rightarrow> u32 \<Rightarrow> bytes \<Rightarrow> bytes \<times> Wal" where
  "walEncodeFrame w iPage nTruncate aData =
     (let aFrame = Put4byte iPage @ Put4byte nTruncate in
      if iReCksum w = 0 then
        (let nativeCksum = (bigEndCksum (hdr w) = SQLITE_BIGENDIAN);
             aCksum = walChecksumBytes nativeCksum aFrame (aFrameCksum (hdr w));
             aCksum = walChecksumBytes nativeCksum aData aCksum
         in (aFrame @ salt_bytes (hdr w) @ Put4byte (fst aCksum) @ Put4byte (snd aCksum),
             w\<lparr>hdr := (hdr w)\<lparr>aFrameCksum := aCksum\<rparr>\<rparr>))
      else (aFrame @ replicate 16 0, w))"

definition walDecodeFrame :: "Wal \<Rightarrow> bytes \<Rightarrow> bytes \<Rightarrow> (u32 \<times> u32) option \<times> Wal" where
  "walDecodeFrame w aData aFrame =
     (if take 8 (drop 8 aFrame) \<noteq> salt_bytes (hdr w) then (None, w)
      else
        let pgno = Get4byte aFrame 0 in
        if pgno = 0 then (None, w)
        else
          let nativeCksum = (bigEndCksum (hdr w) = SQLITE_BIGENDIAN);
              aCksum = walChecksumBytes nativeCksum (take 8 aFrame) (aFrameCksum (hdr w));
              aCksum = walChecksumBytes nativeCksum aData aCksum;
              w = w\<lparr>hdr := (hdr w)\<lparr>aFrameCksum := aCksum\<rparr>\<rparr>
          in if fst aCksum \<noteq> Get4byte aFrame 16 \<or> snd aCksum \<noteq> Get4byte aFrame 20 then (None, w)
             else (Some (pgno, Get4byte aFrame 4), w))"

subsection \<open>Writing the log\<close>

text \<open>The header that \<open>sqlite3WalFrames\<close> writes in front of the first frame, and the connection after it.\<close>

definition wal_header :: "Wal \<Rightarrow> nat \<Rightarrow> u32 \<times> u32 \<Rightarrow> bytes \<times> Wal" where
  "wal_header w szPage salts =
     (let w = (if nCkpt w = 0 then w\<lparr>hdr := (hdr w)\<lparr>aSalt := salts\<rparr>\<rparr> else w);
          aWalHdr = Put4byte (WAL_MAGIC OR of_bool SQLITE_BIGENDIAN) @ Put4byte WAL_MAX_VERSION
            @ Put4byte (of_nat szPage) @ Put4byte (nCkpt w) @ salt_bytes (hdr w);
          aCksum = walChecksumBytes True aWalHdr (0, 0)
      in (aWalHdr @ Put4byte (fst aCksum) @ Put4byte (snd aCksum),
          w\<lparr>wal_szPage := szPage, truncateOnCommit := True,
            hdr := (hdr w)\<lparr>bigEndCksum := SQLITE_BIGENDIAN, aFrameCksum := aCksum\<rparr>\<rparr>))"

text \<open>A frame is the number of its page, the size of the database for a commit or 0, and the content.\<close>

type_synonym frame = "u32 \<times> u32 \<times> bytes"

fun write_frames :: "Wal \<Rightarrow> frame list \<Rightarrow> bytes \<times> Wal" where
  "write_frames w [] = ([], w)"
| "write_frames w ((pgno, nTruncate, pData) # fs) =
     (case walEncodeFrame w pgno nTruncate pData of (aFrame, w) \<Rightarrow>
      case write_frames w fs of (log, w) \<Rightarrow> (aFrame @ pData @ log, w))"

subsection \<open>Recovery\<close>

definition zero_hdr :: WalIndexHdr where
  "zero_hdr = \<lparr>iChange = 0, isInit = False, bigEndCksum = False, hdr_szPage = 0, mxFrame = 0, nPage = 0,
     aFrameCksum = (0, 0), aSalt = (0, 0)\<rparr>"

text \<open>
  What the file system and the allocator answer to a recovery: the locks, the size, the read
  at an offset, the buffer for a frame.
\<close>

record recover_env =
  rec_shm :: shm_env
  lock_wal :: int
  lock_readers :: int
  file_size :: int
  read_at :: "nat \<Rightarrow> int"
  frame_buf :: bool

text \<open>The loop over the frames; \<open>ck\<close> is the checksum at the last commit.\<close>

function recover_loop :: "recover_env \<Rightarrow> bytes \<Rightarrow> nat \<Rightarrow> nat \<Rightarrow> Wal \<Rightarrow> WalShm \<Rightarrow> u32 \<times> u32
    \<Rightarrow> (int \<times> Wal \<times> WalShm \<times> u32 \<times> u32) option" where
  "recover_loop env file iOffset iFrame w s ck =
     (let szFrame = wal_szPage w + WAL_FRAME_HDRSIZE; aFrame = take szFrame (drop iOffset file); iFrame = iFrame + 1 in
      if \<not> iOffset + szFrame \<le> length file then Some (SQLITE_OK, w, s, ck)
      else if read_at env iOffset \<noteq> SQLITE_OK then Some (read_at env iOffset, w, s, ck)
      else case walDecodeFrame w (drop WAL_FRAME_HDRSIZE aFrame) (take WAL_FRAME_HDRSIZE aFrame) of
        (None, w) \<Rightarrow> Some (SQLITE_OK, w, s, ck)
      | (Some (pgno, nTruncate), w) \<Rightarrow>
          (case walIndexAppend (rec_shm env) w s iFrame pgno of
             None \<Rightarrow> None
           | Some (rc, w, s) \<Rightarrow>
               if rc \<noteq> SQLITE_OK then Some (rc, w, s, ck)
               else if nTruncate \<noteq> 0 then
                 recover_loop env file (iOffset + szFrame) iFrame
                   (w\<lparr>hdr := (hdr w)\<lparr>mxFrame := iFrame, nPage := nTruncate,
                       hdr_szPage := ucast ((of_nat (wal_szPage w) AND 0xff00) OR drop_bit 16 (of_nat (wal_szPage w) :: u32))\<rparr>\<rparr>)
                   s (aFrameCksum (hdr w))
               else recover_loop env file (iOffset + szFrame) iFrame w s ck))"
  by auto
termination recover_loop
  by (relation "measure (\<lambda>(env, file, off, f, w, s, ck). length file - off)") (auto simp: wal_file_sizes)

declare recover_loop.simps [simp del]

definition finish_recover :: "Wal \<Rightarrow> WalShm \<Rightarrow> u32 \<times> u32 \<Rightarrow> int \<times> Wal \<times> WalShm" where
  "finish_recover w s ck =
     (let w = w\<lparr>hdr := (hdr w)\<lparr>aFrameCksum := ck\<rparr>\<rparr>;
          (w, s) = walIndexWriteHdr w s;
          n = length (aReadMark s);
          marks = 0 # replicate (n - 1) READMARK_NOT_USED
      in (SQLITE_OK, w, s\<lparr>nBackfill := 0, nBackfillAttempted := mxFrame (hdr w),
            aReadMark := (if mxFrame (hdr w) \<noteq> 0 then marks[1 := mxFrame (hdr w)] else marks)\<rparr>))"

definition walIndexRecover :: "recover_env \<Rightarrow> bytes \<Rightarrow> Wal \<Rightarrow> WalShm \<Rightarrow> (int \<times> Wal \<times> WalShm) option" where
  "walIndexRecover env file w s =
     (if lock_wal env \<noteq> SQLITE_OK then Some (lock_wal env, w, s)
      else if lock_readers env \<noteq> SQLITE_OK then Some (lock_readers env, w, s)
      else
        let w = w\<lparr>hdr := zero_hdr\<rparr> in
        if file_size env \<noteq> SQLITE_OK then Some (file_size env, w, s)
        else if \<not> length file > WAL_HDRSIZE then Some (finish_recover w s (0, 0))
        else if read_at env 0 \<noteq> SQLITE_OK then Some (read_at env 0, w, s)
        else
          let magic = Get4byte file 0; szPage = unat (Get4byte file 8) in
          if magic AND 0xFFFFFFFE \<noteq> WAL_MAGIC \<or> szPage AND (szPage - 1) \<noteq> 0 \<or> szPage > SQLITE_MAX_PAGE_SIZE \<or> szPage < 512
          then Some (finish_recover w s (0, 0))
          else
            let w = w\<lparr>wal_szPage := szPage, nCkpt := Get4byte file 12,
                  hdr := (hdr w)\<lparr>bigEndCksum := (magic AND 1 \<noteq> 0), aSalt := (Get4byte file 16, Get4byte file 20)\<rparr>\<rparr>;
                aCksum = walChecksumBytes (bigEndCksum (hdr w) = SQLITE_BIGENDIAN) (take (WAL_HDRSIZE - 8) file) (0, 0);
                w = w\<lparr>hdr := (hdr w)\<lparr>aFrameCksum := aCksum\<rparr>\<rparr>
            in if fst aCksum \<noteq> Get4byte file 24 \<or> snd aCksum \<noteq> Get4byte file 28 then Some (finish_recover w s (0, 0))
               else if Get4byte file 4 \<noteq> WAL_MAX_VERSION then Some (SQLITE_CANTOPEN, w, s)
               else if \<not> frame_buf env then Some (SQLITE_NOMEM, w, s)
               else case recover_loop env file WAL_HDRSIZE 0 w s (0, 0) of
                 None \<Rightarrow> None
               | Some (rc, w, s, ck) \<Rightarrow> if rc = SQLITE_OK then Some (finish_recover w s ck) else Some (rc, w, s))"

subsection \<open>Round trips\<close>

lemma Put4byte_bytes: "Put4byte v = [ucast (drop_bit 24 v), ucast (drop_bit 16 v), ucast (drop_bit 8 v), ucast v]"
  by (simp add: Put4byte_def sqlite3Put4byte_def upt_rec)

lemma length_Put4byte [simp]: "length (Put4byte v) = 4"
  by (simp add: Put4byte_def)

lemma Get4byte_Put4byte: "i = length p \<Longrightarrow> Get4byte (p @ Put4byte v @ q) i = v"
  by (rule u32_eqI) (simp add: Get4byte_def sqlite3Get4byte_def Put4byte_bytes nth_append word_bits)

text \<open>A byte-swapped load is the big-endian number, so that the checksum depends on the bytes alone.\<close>

lemma BYTESWAP32_load: "BYTESWAP32 (native_load p i) = Get4byte p i"
proof -
  let ?x = "native_load p i"
  let ?a = "push_bit 24 (?x AND 0x000000FF)" and ?b = "push_bit 8 (?x AND 0x0000FF00)"
  let ?c = "drop_bit 8 (?x AND 0x00FF0000)" and ?d = "drop_bit 24 (?x AND 0xFF000000)"
  have ab: "?a + ?b = ?a OR ?b" by (rule disjunctive_add_eq_or, rule u32_eqI) (simp add: word_bits)
  have abc: "(?a OR ?b) + ?c = (?a OR ?b) OR ?c" by (rule disjunctive_add_eq_or, rule u32_eqI) (simp add: word_bits)
  have abcd: "((?a OR ?b) OR ?c) + ?d = ((?a OR ?b) OR ?c) OR ?d" by (rule disjunctive_add_eq_or, rule u32_eqI) (simp add: word_bits)
  have "BYTESWAP32 ?x = ((?a OR ?b) OR ?c) OR ?d" unfolding BYTESWAP32_def ab abc abcd ..
  also have "\<dots> = Get4byte p i"
    by (rule u32_eqI) (simp add: word_bits native_load_def Get4byte_def sqlite3Get4byte_def)
  finally show ?thesis .
qed

text \<open>What the checksum of a log depends on.\<close>

definition cks :: "Wal \<Rightarrow> bool \<times> (u32 \<times> u32) \<times> u32 \<times> u32" where
  "cks w = (bigEndCksum (hdr w), aSalt (hdr w), aFrameCksum (hdr w))"

lemma cks_simps: "cks v = cks w \<longleftrightarrow> bigEndCksum (hdr v) = bigEndCksum (hdr w) \<and> aSalt (hdr v) = aSalt (hdr w)
    \<and> aFrameCksum (hdr v) = aFrameCksum (hdr w)"
  by (auto simp: cks_def)

lemma length_salt [simp]: "length (salt_bytes h) = 8"
  by (simp add: salt_bytes_def)

text \<open>What is written is read back, and both sides go on with the same checksum.\<close>

lemma decode_encode:
  assumes enc: "walEncodeFrame w iPage nTruncate aData = (aFrame, w')" and "iReCksum w = 0" and "iPage \<noteq> 0" and "cks v = cks w"
  obtains v' where "walDecodeFrame v aData aFrame = (Some (iPage, nTruncate), v')" "cks v' = cks w'" "length aFrame = WAL_FRAME_HDRSIZE"
    "iReCksum w' = 0" "wal_szPage v' = wal_szPage v" "mxFrame (hdr v') = mxFrame (hdr v)" "nPage (hdr v') = nPage (hdr v)"
proof -
  let ?n = "bigEndCksum (hdr w) = SQLITE_BIGENDIAN" and ?f = "Put4byte iPage @ Put4byte nTruncate"
  let ?c = "walChecksumBytes ?n aData (walChecksumBytes ?n ?f (aFrameCksum (hdr w)))"
  have F: "aFrame = ?f @ salt_bytes (hdr w) @ Put4byte (fst ?c) @ Put4byte (snd ?c)"
    "w' = w\<lparr>hdr := (hdr w)\<lparr>aFrameCksum := ?c\<rparr>\<rparr>"
    using enc assms(2) by (simp_all add: walEncodeFrame_def Let_def)
  have g: "Get4byte aFrame 0 = iPage" "Get4byte aFrame 4 = nTruncate" "Get4byte aFrame 16 = fst ?c" "Get4byte aFrame 20 = snd ?c"
    using Get4byte_Put4byte [of 0 "[]" iPage] Get4byte_Put4byte [of 4 "Put4byte iPage"]
      Get4byte_Put4byte [of 16 "?f @ salt_bytes (hdr w)" "fst ?c" "Put4byte (snd ?c)"]
      Get4byte_Put4byte [of 20 "?f @ salt_bytes (hdr w) @ Put4byte (fst ?c)" "snd ?c" "[]"]
    by (simp_all add: F(1))
  have s: "take 8 (drop 8 aFrame) = salt_bytes (hdr v)" "take 8 aFrame = ?f"
    using assms(4) by (simp_all add: F(1) cks_simps salt_bytes_def)
  let ?v = "v\<lparr>hdr := (hdr v)\<lparr>aFrameCksum := ?c\<rparr>\<rparr>"
  have "walDecodeFrame v aData aFrame = (Some (iPage, nTruncate), ?v)"
    unfolding walDecodeFrame_def s g using assms(3,4) by (simp add: Let_def cks_simps)
  moreover have "length aFrame = WAL_FRAME_HDRSIZE" by (simp add: F(1) WAL_FRAME_HDRSIZE_def)
  ultimately show thesis using F(2) assms(2,4) that [of ?v] by (simp add: cks_simps)
qed

lemma walCleanupHash_marks: "walCleanupHash env w s = Some (w', s') \<Longrightarrow> aReadMark s' = aReadMark s"
  by (auto simp: walCleanupHash_def Let_def split: if_splits prod.splits)

lemma walIndexAppend_marks: "walIndexAppend env w s f x = Some (rc, w', s') \<Longrightarrow> aReadMark s' = aReadMark s"
  by (auto simp: walIndexAppend_def Let_def split: if_splits prod.splits option.splits dest!: walCleanupHash_marks)

text \<open>Appending behind the end of the log succeeds when pages can be mapped.\<close>

lemma walIndexAppend_returns:
  assumes "maps_all env" and I: "index_of L s" and x: "x \<noteq> 0"
  obtains w' s' where "walIndexAppend env w s (length L + 1) x = Some (SQLITE_OK, w', s')" "index_of (L @ [x]) s'"
    "hdr w' = hdr w" "wal_szPage w' = wal_szPage w" "live_hdr s' = live_hdr s" "aReadMark s' = aReadMark s"
proof -
  define f where "f = length L + 1"
  have t: "take (f - 1) L = L" "length L = f - 1" "0 < f" by (simp_all add: f_def)
  let ?h = "walFramePage f"
  let ?z = "iZero_of ?h"
  obtain v where g: "walHashGet env w ?h = (SQLITE_OK, True, ?z, v)" "hdr v = hdr w" by (rule walHashGet_ok [OF assms(1)])
  have fv: "f = length L + 1 \<or> (f = mxFrame (hdr v) + 1 \<and> f \<le> length L)" and fw: "f = length L + 1 \<or> (f = mxFrame (hdr w) + 1 \<and> f \<le> length L)"
    by (simp_all add: f_def)
  have gv: "walHashGet env v ?h = (SQLITE_OK, True, ?z, v)" by (rule walHashGet_again [OF g(1)])
  define s1 where "s1 = (if f - ?z = 1 then s\<lparr>wal_pages := (wal_pages s)(?h := zero_page ?h (wal_pages s ?h))\<rparr> else s)"
  obtain v2 s2 where B: "(if aPgno (wal_pages s1 ?h) (f - ?z) \<noteq> 0 then walCleanupHash env v s1 else Some (v, s1)) = Some (v2, s2)"
    "index_of L s2" "indexed (frame_pg L ?h) (f - 1 - ?z) ?h (wal_pages s2 ?h)"
    by (rule before_append [OF I t(3) fv gv, folded s1_def, unfolded t(1)]) blast
  obtain i where S: "append_slot (wal_pages s2 ?h) (f - ?z) (walHash x) = Some i"
    by (rule append_in_page [OF B(2) t(2,3) x B(3)]) blast
  have "walIndexAppend env w s f x =
      (case (if aPgno (wal_pages s1 ?h) (f - ?z) \<noteq> 0 then walCleanupHash env v s1 else Some (v, s1)) of
         None \<Rightarrow> None
       | Some (w, s) \<Rightarrow>
           (case append_slot (wal_pages s ?h) (f - ?z) (walHash x) of
              None \<Rightarrow> Some (SQLITE_CORRUPT, w, s)
            | Some iKey \<Rightarrow> Some (SQLITE_OK, w, s\<lparr>wal_pages := (wal_pages s)(?h := (wal_pages s ?h)
                \<lparr>aPgno := (aPgno (wal_pages s ?h))(f - ?z := x), aHash := (aHash (wal_pages s ?h))(iKey := f - ?z)\<rparr>)\<rparr>)))"
    unfolding walIndexAppend_def Let_def g(1) s1_def by simp
  then obtain w' s' where r: "walIndexAppend env w s f x = Some (SQLITE_OK, w', s')" unfolding B(1) by (simp add: S)
  note A = walIndexAppend_index [OF I x t(3) fw r]
  show thesis using r A(1) [unfolded t(1)] A(3,4) walIndexAppend_nCkpt [OF r] walIndexAppend_marks [OF r]
    that [of w' s'] by (simp add: f_def)
qed

subsection \<open>The end of the recovered log\<close>

text \<open>The last frame that commits, the size it gives the database and the checksum there.\<close>

definition last_commit :: "frame list \<Rightarrow> nat" where
  "last_commit fs = newest (\<lambda>f. fst (snd (fs ! (f - 1))) \<noteq> 0) (length fs)"

definition commit_size :: "frame list \<Rightarrow> u32" where
  "commit_size fs = (if last_commit fs = 0 then 0 else fst (snd (fs ! (last_commit fs - 1))))"

definition commit_cksum :: "Wal \<Rightarrow> frame list \<Rightarrow> u32 \<times> u32" where
  "commit_cksum w fs = (if last_commit fs = 0 then (0, 0)
     else aFrameCksum (hdr (snd (write_frames w (take (last_commit fs) fs)))))"

lemma newest_le: "newest P n \<le> n"
  by (induction n) auto

lemma last_commit_le: "last_commit fs \<le> length fs"
  unfolding last_commit_def by (rule newest_le)

lemma last_commit_snoc: "last_commit (fs @ [(p, n, d)]) = (if n \<noteq> 0 then length fs + 1 else last_commit fs)"
proof -
  have e: "newest (\<lambda>f. fst (snd ((fs @ [(p, n, d)]) ! (f - 1))) \<noteq> 0) (length fs) = newest (\<lambda>f. fst (snd (fs ! (f - 1))) \<noteq> 0) (length fs)"
    by (rule newest_cong) (auto simp: nth_append)
  show ?thesis using e by (cases "n = 0") (simp_all add: last_commit_def)
qed

lemma commit_snoc:
  "commit_size (fs @ [(p, n, d)]) = (if n \<noteq> 0 then n else commit_size fs)"
  "commit_cksum w (fs @ [(p, n, d)])
    = (if n \<noteq> 0 then aFrameCksum (hdr (snd (write_frames w (fs @ [(p, n, d)])))) else commit_cksum w fs)"
  using last_commit_le [of fs] by (auto simp: commit_size_def commit_cksum_def last_commit_snoc nth_append)

lemma write_frames_Cons:
  "fst (write_frames w ((p, n, d) # fs)) = fst (walEncodeFrame w p n d) @ d @ fst (write_frames (snd (walEncodeFrame w p n d)) fs)"
  "snd (write_frames w ((p, n, d) # fs)) = snd (write_frames (snd (walEncodeFrame w p n d)) fs)"
  by (simp_all split: prod.split)

lemma write_frames_append:
  "write_frames w (fs @ gs) = (case write_frames w fs of (a, w) \<Rightarrow> case write_frames w gs of (b, w) \<Rightarrow> (a @ b, w))"
  by (induction w fs rule: write_frames.induct) (auto split: prod.splits)

text \<open>A tail that does not go on with the log: too short, or its first frame is not valid.\<close>

definition log_ends :: "Wal \<Rightarrow> bytes \<Rightarrow> bool" where
  "log_ends w t \<longleftrightarrow> (let szFrame = wal_szPage w + WAL_FRAME_HDRSIZE in length t < szFrame
     \<or> fst (walDecodeFrame w (drop WAL_FRAME_HDRSIZE (take szFrame t)) (take WAL_FRAME_HDRSIZE (take szFrame t))) = None)"

lemma decode_cong: "cks v = cks w \<Longrightarrow> fst (walDecodeFrame v d f) = fst (walDecodeFrame w d f)"
  by (simp add: walDecodeFrame_def cks_simps salt_bytes_def Let_def)

lemma log_ends_cong: "cks v = cks w \<Longrightarrow> wal_szPage v = wal_szPage w \<Longrightarrow> log_ends v t = log_ends w t"
  using decode_cong unfolding log_ends_def Let_def by metis

lemma decode_keeps: "walDecodeFrame w d f = (r, w') \<Longrightarrow> mxFrame (hdr w') = mxFrame (hdr w) \<and> nPage (hdr w') = nPage (hdr w)
    \<and> wal_szPage w' = wal_szPage w \<and> bigEndCksum (hdr w') = bigEndCksum (hdr w) \<and> aSalt (hdr w') = aSalt (hdr w)"
  by (auto simp: walDecodeFrame_def Let_def split: if_splits)

lemma encode_keeps: "walEncodeFrame w p n d = (a, w') \<Longrightarrow> wal_szPage w' = wal_szPage w"
  by (auto simp: walEncodeFrame_def Let_def split: if_splits)

lemma recover_loop_frames:
  assumes maps: "maps_all (rec_shm env)" and io: "\<And>i. read_at env i = SQLITE_OK"
  shows "drop off file = fst (write_frames wk gs) @ t \<Longrightarrow> wk = snd (write_frames w ds) \<Longrightarrow> cks v = cks wk \<Longrightarrow> iReCksum wk = 0 \<Longrightarrow>
    wal_szPage v = wal_szPage wk \<Longrightarrow> \<forall>(p, n, d) \<in> set gs. p \<noteq> 0 \<and> length d = wal_szPage wk \<Longrightarrow>
    log_ends (snd (write_frames wk gs)) t \<Longrightarrow> index_of (map fst ds) s \<Longrightarrow> off \<le> length file \<Longrightarrow>
    mxFrame (hdr v) = last_commit ds \<Longrightarrow> nPage (hdr v) = commit_size ds \<Longrightarrow> ck = commit_cksum w ds \<Longrightarrow>
    \<exists>v' s'. recover_loop env file off (length ds) v s ck = Some (SQLITE_OK, v', s', commit_cksum w (ds @ gs))
      \<and> mxFrame (hdr v') = last_commit (ds @ gs) \<and> nPage (hdr v') = commit_size (ds @ gs)
      \<and> aSalt (hdr v') = aSalt (hdr v) \<and> wal_szPage v' = wal_szPage v
      \<and> index_of (map fst (ds @ gs)) s' \<and> aReadMark s' = aReadMark s"
proof (induction gs arbitrary: ds wk off v s ck)
  case Nil
  let ?sz = "wal_szPage v + WAL_FRAME_HDRSIZE"
  have tail: "drop off file = t" "log_ends v t" using Nil.prems log_ends_cong [of v wk t] by simp_all
  have len: "off + ?sz \<le> length file \<longleftrightarrow> \<not> length t < ?sz" using tail(1) Nil.prems(9) by (metis length_drop le_diff_conv2 add.commute not_less)
  show ?case
  proof (cases "length t < ?sz")
    case True
    then show ?thesis using Nil.prems len by (subst recover_loop.simps) (simp add: Let_def)
  next
    case False
    then obtain v' where d: "walDecodeFrame v (drop WAL_FRAME_HDRSIZE (take ?sz t)) (take WAL_FRAME_HDRSIZE (take ?sz t)) = (None, v')"
      using tail(2) by (auto simp: log_ends_def Let_def) (metis fst_conv surj_pair)
    have "recover_loop env file off (length ds) v s ck = Some (SQLITE_OK, v', s, ck)"
      using False len io d tail(1) by (subst recover_loop.simps) (simp add: Let_def)
    then show ?thesis using Nil.prems decode_keeps [OF d] by auto
  qed
next
  case (Cons g gs)
  obtain p n d where g: "g = (p, n, d)" by (metis prod_cases3)
  let ?sz = "wal_szPage v + WAL_FRAME_HDRSIZE"
  obtain a wk' where e: "walEncodeFrame wk p n d = (a, wk')" by fastforce
  have p: "p \<noteq> 0" "length d = wal_szPage v" using Cons.prems(5,6) g by simp_all
  obtain v1 where D: "walDecodeFrame v d a = (Some (p, n), v1)" "cks v1 = cks wk'" "length a = WAL_FRAME_HDRSIZE"
    "iReCksum wk' = 0" "wal_szPage v1 = wal_szPage v" "mxFrame (hdr v1) = mxFrame (hdr v)" "nPage (hdr v1) = nPage (hdr v)"
    by (rule decode_encode [OF e Cons.prems(4) p(1) Cons.prems(3)])
  have rest: "drop off file = a @ d @ fst (write_frames wk' gs) @ t" "snd (write_frames wk (g # gs)) = snd (write_frames wk' gs)"
    using Cons.prems(1) e g by (simp_all split: prod.splits)
  have frame: "take ?sz (drop off file) = a @ d" using rest(1) D(3) p(2) by simp
  have cut: "drop WAL_FRAME_HDRSIZE (a @ d) = d" "take WAL_FRAME_HDRSIZE (a @ d) = a" using D(3) by simp_all
  have "?sz \<le> length (drop off file)" using rest(1) D(3) p(2) by simp
  then have len: "off + ?sz \<le> length file" using Cons.prems(9) by simp
  have drop': "drop (off + ?sz) file = fst (write_frames wk' gs) @ t"
  proof -
    have "drop (off + ?sz) file = drop ?sz (drop off file)" by (simp add: add.commute)
    then show ?thesis unfolding rest(1) using D(3) p(2) by simp
  qed
  obtain v2 s2 where A: "walIndexAppend (rec_shm env) v1 s (length ds + 1) p = Some (SQLITE_OK, v2, s2)"
    "index_of (map fst ds @ [p]) s2" "hdr v2 = hdr v1" "wal_szPage v2 = wal_szPage v1" "aReadMark s2 = aReadMark s"
    by (rule walIndexAppend_returns [OF maps Cons.prems(8) p(1), of v1, unfolded length_map]) blast
  have wk': "wk' = snd (write_frames w (ds @ [g]))"
    using Cons.prems(2) e g by (cases "write_frames w ds") (simp add: write_frames_append)
  have sz: "wal_szPage wk' = wal_szPage wk" by (rule encode_keeps [OF e])
  have ck2: "aFrameCksum (hdr v2) = aFrameCksum (hdr wk')" using A(3) D(2) by (simp add: cks_simps)
  define v3 where "v3 = (if n \<noteq> 0 then v2\<lparr>hdr := (hdr v2)\<lparr>mxFrame := length ds + 1, nPage := n,
      hdr_szPage := ucast ((of_nat (wal_szPage v2) AND 0xff00) OR drop_bit 16 (of_nat (wal_szPage v2) :: u32))\<rparr>\<rparr> else v2)"
  define ck3 where "ck3 = (if n \<noteq> 0 then aFrameCksum (hdr v2) else ck)"
  have step: "recover_loop env file off (length ds) v s ck = recover_loop env file (off + ?sz) (length (ds @ [g])) v3 s2 ck3"
    using len io D(1) A(1) cut frame D(5) A(4)
    by (subst recover_loop.simps) (simp add: Let_def v3_def ck3_def)
  have "\<exists>v' s'. recover_loop env file (off + ?sz) (length (ds @ [g])) v3 s2 ck3 = Some (SQLITE_OK, v', s', commit_cksum w ((ds @ [g]) @ gs))
      \<and> mxFrame (hdr v') = last_commit ((ds @ [g]) @ gs) \<and> nPage (hdr v') = commit_size ((ds @ [g]) @ gs)
      \<and> aSalt (hdr v') = aSalt (hdr v3) \<and> wal_szPage v' = wal_szPage v3
      \<and> index_of (map fst ((ds @ [g]) @ gs)) s' \<and> aReadMark s' = aReadMark s2"
  proof (rule Cons.IH [OF drop' wk'])
    show "cks v3 = cks wk'" using D(2) A(3) by (simp add: v3_def cks_simps)
    show "iReCksum wk' = 0" by (rule D(4))
    show "wal_szPage v3 = wal_szPage wk'" using A(4) D(5) sz Cons.prems(5) by (simp add: v3_def)
    show "\<forall>(p, n, d) \<in> set gs. p \<noteq> 0 \<and> length d = wal_szPage wk'" using Cons.prems(6) sz by simp
    show "log_ends (snd (write_frames wk' gs)) t" using Cons.prems(7) rest(2) by simp
    show "index_of (map fst (ds @ [g])) s2" using A(2) g by simp
    show "off + ?sz \<le> length file" by (rule len)
    show "mxFrame (hdr v3) = last_commit (ds @ [g])" using Cons.prems(10) A(3) D(6) g by (simp add: v3_def last_commit_snoc)
    show "nPage (hdr v3) = commit_size (ds @ [g])" using Cons.prems(11) A(3) D(7) g by (simp add: v3_def commit_snoc)
    show "ck3 = commit_cksum w (ds @ [g])" using Cons.prems(12) ck2 wk' g by (simp add: ck3_def commit_snoc)
  qed
  moreover have "aSalt (hdr v3) = aSalt (hdr v)" "wal_szPage v3 = wal_szPage v"
    using A(3,4) D(5) decode_keeps [OF D(1)] by (simp_all add: v3_def)
  ultimately show ?case unfolding step using A(5) by simp
qed

subsection \<open>Writing and rewriting frames\<close>

text \<open>A write to the file at an offset; bytes between its end and the offset are zero.\<close>

definition os_write :: "bytes \<Rightarrow> nat \<Rightarrow> bytes \<Rightarrow> bytes" where
  "os_write file iOffset b =
     take iOffset (file @ replicate (iOffset - length file) 0) @ b @ drop (iOffset + length b) file"

text \<open>
  What the file system answers to the writer: to a write at an offset, a read at an offset,
  a sync; and whether a buffer can be allocated.
\<close>

record writer_env =
  write_rc :: "nat \<Rightarrow> int"
  read_rc :: "nat \<Rightarrow> int"
  sync_rc :: int
  buf_ok :: bool

definition walWriteToLog :: "writer_env \<Rightarrow> nat \<Rightarrow> bytes \<Rightarrow> bytes \<Rightarrow> nat \<Rightarrow> int \<times> bytes" where
  "walWriteToLog env iSyncPoint file pContent iOffset =
     (let iAmt = length pContent in
      if iOffset < iSyncPoint \<and> iOffset + iAmt \<ge> iSyncPoint then
        (let iFirstAmt = iSyncPoint - iOffset; rc = write_rc env iOffset in
         if rc \<noteq> SQLITE_OK then (rc, file)
         else
           let file = os_write file iOffset (take iFirstAmt pContent);
               iOffset = iOffset + iFirstAmt; iAmt = iAmt - iFirstAmt; pContent = drop iFirstAmt pContent;
               rc = sync_rc env
           in if iAmt = 0 \<or> rc \<noteq> SQLITE_OK then (rc, file)
              else (write_rc env iOffset, if write_rc env iOffset = SQLITE_OK then os_write file iOffset pContent else file))
      else (write_rc env iOffset, if write_rc env iOffset = SQLITE_OK then os_write file iOffset pContent else file))"

definition walWriteOneFrame :: "writer_env \<Rightarrow> nat \<Rightarrow> Wal \<Rightarrow> bytes \<Rightarrow> u32 \<Rightarrow> bytes \<Rightarrow> u32 \<Rightarrow> nat \<Rightarrow> int \<times> Wal \<times> bytes" where
  "walWriteOneFrame env iSyncPoint w file pgno pData nTruncate iOffset =
     (case walEncodeFrame w pgno nTruncate pData of (aFrame, w) \<Rightarrow>
      case walWriteToLog env iSyncPoint file aFrame iOffset of (rc, file) \<Rightarrow>
        if rc \<noteq> SQLITE_OK then (rc, w, file)
        else case walWriteToLog env iSyncPoint file pData (iOffset + length aFrame) of (rc, file) \<Rightarrow> (rc, w, file))"

fun rewrite_loop :: "writer_env \<Rightarrow> int \<Rightarrow> nat \<Rightarrow> nat \<Rightarrow> Wal \<Rightarrow> bytes \<Rightarrow> int \<times> Wal \<times> bytes" where
  "rewrite_loop env rc 0 iRead w file = (rc, w, file)"
| "rewrite_loop env rc (Suc k) iRead w file =
     (if rc \<noteq> SQLITE_OK then (rc, w, file)
      else
        let iOff = walFrameOffset iRead (wal_szPage w) in
        if read_rc env iOff \<noteq> SQLITE_OK then (read_rc env iOff, w, file)
        else
          let aBuf = take (wal_szPage w + WAL_FRAME_HDRSIZE) (drop iOff file) in
          case walEncodeFrame w (Get4byte aBuf 0) (Get4byte aBuf 4) (drop WAL_FRAME_HDRSIZE aBuf) of (aFrame, w) \<Rightarrow>
            rewrite_loop env (write_rc env iOff) k (iRead + 1) w
              (if write_rc env iOff = SQLITE_OK then os_write file iOff aFrame else file))"

definition walRewriteChecksums :: "writer_env \<Rightarrow> Wal \<Rightarrow> bytes \<Rightarrow> nat \<Rightarrow> int \<times> Wal \<times> bytes" where
  "walRewriteChecksums env w file iLast =
     (if \<not> buf_ok env then (SQLITE_NOMEM, w, file)
      else
        let iCksumOff = (if iReCksum w = 1 then 24 else walFrameOffset (iReCksum w - 1) (wal_szPage w) + 16);
            aBuf = take 8 (drop iCksumOff file);
            iRead = iReCksum w;
            w = w\<lparr>iReCksum := 0, hdr := (hdr w)\<lparr>aFrameCksum := (Get4byte aBuf 0, Get4byte aBuf 4)\<rparr>\<rparr>
        in rewrite_loop env (read_rc env iCksumOff) (iLast + 1 - iRead) iRead w file)"

lemma os_write_inside: "iOffset = length a \<Longrightarrow> length b = length c \<Longrightarrow> os_write (a @ b @ t) iOffset c = a @ c @ t"
  by (simp add: os_write_def)

lemma os_write_end: "iOffset = length a \<Longrightarrow> os_write a iOffset c = a @ c"
  by (simp add: os_write_def)

text \<open>Where the write is split for a sync does not matter.\<close>

lemma walWriteToLog_end:
  assumes "\<And>i. write_rc env i = SQLITE_OK" and "sync_rc env = SQLITE_OK" and "iOffset = length file"
  shows "walWriteToLog env iSyncPoint file pContent iOffset = (SQLITE_OK, file @ pContent)"
proof (cases "iOffset < iSyncPoint \<and> iOffset + length pContent \<ge> iSyncPoint")
  case False
  then show ?thesis using assms by (auto simp: walWriteToLog_def Let_def os_write_end)
next
  case True
  let ?k = "iSyncPoint - iOffset"
  have "min (length pContent) ?k = ?k" using True assms(3) by linarith
  then have "iOffset + ?k = length (file @ take ?k pContent)" using assms(3) by simp
  with True show ?thesis using assms by (auto simp: walWriteToLog_def Let_def os_write_end)
qed

lemma walWriteOneFrame_end:
  assumes "\<And>i. write_rc env i = SQLITE_OK" and "sync_rc env = SQLITE_OK" and "iOffset = length file"
  shows "walWriteOneFrame env iSyncPoint w file pgno pData nTruncate iOffset
    = (case write_frames w [(pgno, nTruncate, pData)] of (log, w) \<Rightarrow> (SQLITE_OK, w, file @ log))"
  using assms by (cases "walEncodeFrame w pgno nTruncate pData") (simp add: walWriteOneFrame_def walWriteToLog_end)

text \<open>Frames whose checksums are out of date: sixteen bytes of the header are arbitrary.\<close>

definition stale_frames :: "(frame \<times> bytes) list \<Rightarrow> bytes" where
  "stale_frames xs = concat (map (\<lambda>((p, n, d), x). Put4byte p @ Put4byte n @ x @ d) xs)"

lemma encode_cong:
  "cks v = cks w \<Longrightarrow> iReCksum v = iReCksum w \<Longrightarrow> fst (walEncodeFrame v p n d) = fst (walEncodeFrame w p n d)
    \<and> cks (snd (walEncodeFrame v p n d)) = cks (snd (walEncodeFrame w p n d))
    \<and> iReCksum (snd (walEncodeFrame v p n d)) = iReCksum (snd (walEncodeFrame w p n d))"
  by (simp add: walEncodeFrame_def cks_simps salt_bytes_def Let_def)

lemma write_frames_cong:
  "cks v = cks w \<Longrightarrow> iReCksum v = iReCksum w \<Longrightarrow> fst (write_frames v fs) = fst (write_frames w fs)
    \<and> cks (snd (write_frames v fs)) = cks (snd (write_frames w fs))"
proof (induction fs arbitrary: v w)
  case (Cons f fs)
  obtain p n d where f: "f = (p, n, d)" by (metis prod_cases3)
  note E = encode_cong [OF Cons.prems, of p n d]
  from Cons.IH [OF E [THEN conjunct2, THEN conjunct1] E [THEN conjunct2, THEN conjunct2]] E
  show ?case unfolding f write_frames_Cons by simp
qed simp

lemma encode_0: "iReCksum w = 0 \<Longrightarrow> walEncodeFrame w p n d = (a, w') \<Longrightarrow> length a = WAL_FRAME_HDRSIZE \<and> iReCksum w' = 0"
  by (auto simp: walEncodeFrame_def Let_def WAL_FRAME_HDRSIZE_def)

lemma rewrite_loop_ok:
  assumes "\<And>i. write_rc env i = SQLITE_OK" and "\<And>i. read_rc env i = SQLITE_OK"
  shows "length A = walFrameOffset i (wal_szPage w) \<Longrightarrow> iReCksum w = 0 \<Longrightarrow> 0 < i \<Longrightarrow>
    \<forall>((p, n, d), x) \<in> set xs. length d = wal_szPage w \<and> length x = 16 \<Longrightarrow>
    rewrite_loop env SQLITE_OK (length xs) i w (A @ stale_frames xs @ t)
      = (case write_frames w (map fst xs) of (log, w) \<Rightarrow> (SQLITE_OK, w, A @ log @ t))"
proof (induction xs arbitrary: A i w)
  case Nil
  then show ?case by (simp add: stale_frames_def)
next
  case (Cons y xs)
  obtain p n d x where y: "y = ((p, n, d), x)" by (metis prod_cases4 prod.collapse)
  have len: "length d = wal_szPage w" "length x = 16" using Cons.prems(4) y by auto
  let ?h = "Put4byte p @ Put4byte n @ x"
  let ?rest = "stale_frames xs @ t"
  have whole: "A @ stale_frames (y # xs) @ t = A @ ?h @ d @ ?rest" by (simp add: stale_frames_def y)
  have buf: "take (wal_szPage w + WAL_FRAME_HDRSIZE) (drop (length A) (A @ ?h @ d @ ?rest)) = ?h @ d"
    using len by (simp add: WAL_FRAME_HDRSIZE_def)
  have get: "Get4byte (?h @ d) 0 = p" "Get4byte (?h @ d) 4 = n" "drop WAL_FRAME_HDRSIZE (?h @ d) = d"
    using Get4byte_Put4byte [of 0 "[]" p] Get4byte_Put4byte [of 4 "Put4byte p" n] len by (simp_all add: WAL_FRAME_HDRSIZE_def)
  obtain a w' where e: "walEncodeFrame w p n d = (a, w')" by fastforce
  note E = encode_0 [OF Cons.prems(2) e] encode_keeps [OF e]
  have w: "os_write (A @ ?h @ d @ ?rest) (length A) a = (A @ a @ d) @ ?rest"
    using os_write_inside [of "length A" A ?h a "d @ ?rest"] E len by (simp add: WAL_FRAME_HDRSIZE_def)
  have off: "length (A @ a @ d) = walFrameOffset (i + 1) (wal_szPage w')"
    using Cons.prems(1,3) E len by (cases i) (simp_all add: walFrameOffset_def)
  have "rewrite_loop env SQLITE_OK (length (y # xs)) i w (A @ stale_frames (y # xs) @ t)
      = rewrite_loop env SQLITE_OK (length xs) (i + 1) w' ((A @ a @ d) @ ?rest)"
    unfolding whole length_Cons rewrite_loop.simps Let_def Cons.prems(1) [symmetric] buf get e prod.case w
    by (simp only: assms simp_thms if_True if_False)
  also have "\<dots> = (case write_frames w' (map fst xs) of (log, w) \<Rightarrow> (SQLITE_OK, w, (A @ a @ d) @ log @ t))"
    by (rule Cons.IH [OF off]) (use Cons.prems(4) E in auto)
  finally show ?case using e y by (simp split: prod.splits)
qed

text \<open>The checksum in the last frame of a log is the one that goes on.\<close>

lemma last_cksum:
  assumes "iReCksum w = 0" and "length d = wal_szPage w"
  shows "\<exists>x. fst (write_frames w [(p, n, d)]) = x @ Put4byte (fst (aFrameCksum (hdr (snd (write_frames w [(p, n, d)])))))
      @ Put4byte (snd (aFrameCksum (hdr (snd (write_frames w [(p, n, d)]))))) @ d \<and> length x = 16"
  using assms by (auto simp: walEncodeFrame_def Let_def split: prod.splits)

lemma write_frames_keeps:
  "iReCksum w = 0 \<Longrightarrow> iReCksum (snd (write_frames w fs)) = 0 \<and> wal_szPage (snd (write_frames w fs)) = wal_szPage w"
proof (induction fs arbitrary: w)
  case (Cons f fs)
  obtain p n d where f: "f = (p, n, d)" by (metis prod_cases3)
  obtain a w' where e: "walEncodeFrame w p n d = (a, w')" by fastforce
  from Cons encode_0 [OF Cons.prems e] encode_keeps [OF e] show ?case by (simp add: f e write_frames_Cons del: write_frames.simps)
qed simp

lemma write_frames_length:
  "iReCksum w = 0 \<Longrightarrow> \<forall>(p, n, d) \<in> set fs. length d = wal_szPage w \<Longrightarrow>
    length (fst (write_frames w fs)) = length fs * (wal_szPage w + WAL_FRAME_HDRSIZE)"
proof (induction fs arbitrary: w)
  case (Cons f fs)
  obtain p n d where f: "f = (p, n, d)" by (metis prod_cases3)
  obtain a w' where e: "walEncodeFrame w p n d = (a, w')" by fastforce
  note E = encode_0 [OF Cons.prems(1) e] encode_keeps [OF e]
  have "length (fst (write_frames w' fs)) = length fs * (wal_szPage w' + WAL_FRAME_HDRSIZE)"
    using Cons.prems E by (intro Cons.IH) auto
  then show ?case using E Cons.prems by (simp add: f e write_frames_Cons del: write_frames.simps)
qed simp

subsection \<open>Properties\<close>

text \<open>The header is read back.\<close>

lemma unat_szPage: "szPage \<le> SQLITE_MAX_PAGE_SIZE \<Longrightarrow> unat (of_nat szPage :: u32) = szPage"
  by (simp add: unsigned_of_nat take_bit_nat_eq_self_iff SQLITE_MAX_PAGE_SIZE_def)

lemma wal_header_fields:
  assumes "wal_header w szPage salts = (hb, w1)" and "szPage \<le> SQLITE_MAX_PAGE_SIZE"
  shows "length hb = WAL_HDRSIZE" "Get4byte (hb @ t) 0 = WAL_MAGIC" "Get4byte (hb @ t) 4 = WAL_MAX_VERSION"
    "unat (Get4byte (hb @ t) 8) = szPage" "Get4byte (hb @ t) 12 = nCkpt w" "Get4byte (hb @ t) 16 = fst (aSalt (hdr w1))"
    "Get4byte (hb @ t) 20 = snd (aSalt (hdr w1))" "Get4byte (hb @ t) 24 = fst (aFrameCksum (hdr w1))"
    "Get4byte (hb @ t) 28 = snd (aFrameCksum (hdr w1))"
    "aFrameCksum (hdr w1) = walChecksumBytes True (take (WAL_HDRSIZE - 8) (hb @ t)) (0, 0)"
    "wal_szPage w1 = szPage" "iReCksum w1 = iReCksum w" "bigEndCksum (hdr w1) = SQLITE_BIGENDIAN"
proof -
  let ?w = "if nCkpt w = 0 then w\<lparr>hdr := (hdr w)\<lparr>aSalt := salts\<rparr>\<rparr> else w"
  let ?a = "Put4byte WAL_MAGIC" and ?b = "Put4byte WAL_MAX_VERSION" and ?c = "Put4byte (of_nat szPage)" and ?d = "Put4byte (nCkpt w)"
  let ?s1 = "Put4byte (fst (aSalt (hdr ?w)))" and ?s2 = "Put4byte (snd (aSalt (hdr ?w)))"
  let ?h = "?a @ ?b @ ?c @ ?d @ ?s1 @ ?s2"
  let ?k = "walChecksumBytes True ?h (0, 0)"
  have n: "nCkpt ?w = nCkpt w" "iReCksum ?w = iReCksum w" by simp_all
  have "wal_header w szPage salts = (?h @ Put4byte (fst ?k) @ Put4byte (snd ?k), ?w\<lparr>wal_szPage := szPage, truncateOnCommit := True,
            hdr := (hdr ?w)\<lparr>bigEndCksum := SQLITE_BIGENDIAN, aFrameCksum := ?k\<rparr>\<rparr>)"
    unfolding wal_header_def Let_def n by (simp add: salt_bytes_def SQLITE_BIGENDIAN_def)
  then have H: "hb = ?h @ Put4byte (fst ?k) @ Put4byte (snd ?k)" and w1: "w1 = ?w\<lparr>wal_szPage := szPage, truncateOnCommit := True,
            hdr := (hdr ?w)\<lparr>bigEndCksum := SQLITE_BIGENDIAN, aFrameCksum := ?k\<rparr>\<rparr>" using assms(1) by simp_all
  show "length hb = WAL_HDRSIZE" by (simp add: H WAL_HDRSIZE_def)
  show "Get4byte (hb @ t) 0 = WAL_MAGIC" using Get4byte_Put4byte [of 0 "[]"] by (simp add: H)
  show "Get4byte (hb @ t) 4 = WAL_MAX_VERSION" using Get4byte_Put4byte [of 4 "?a"] by (simp add: H)
  show "unat (Get4byte (hb @ t) 8) = szPage" using Get4byte_Put4byte [of 8 "?a @ ?b"] unat_szPage [OF assms(2)] by (simp add: H)
  show "Get4byte (hb @ t) 12 = nCkpt w" using Get4byte_Put4byte [of 12 "?a @ ?b @ ?c"] by (simp add: H)
  show "Get4byte (hb @ t) 16 = fst (aSalt (hdr w1))"
    using Get4byte_Put4byte [of 16 "?a @ ?b @ ?c @ ?d" "fst (aSalt (hdr ?w))"] unfolding H w1 by simp
  show "Get4byte (hb @ t) 20 = snd (aSalt (hdr w1))"
    using Get4byte_Put4byte [of 20 "?a @ ?b @ ?c @ ?d @ ?s1" "snd (aSalt (hdr ?w))"] unfolding H w1 by simp
  show "Get4byte (hb @ t) 24 = fst (aFrameCksum (hdr w1))"
    using Get4byte_Put4byte [of 24 "?h" "fst ?k"] unfolding H w1 by simp
  show "Get4byte (hb @ t) 28 = snd (aFrameCksum (hdr w1))"
    using Get4byte_Put4byte [of 28 "?h @ Put4byte (fst ?k)" "snd ?k"] unfolding H w1 by simp
  show "aFrameCksum (hdr w1) = walChecksumBytes True (take (WAL_HDRSIZE - 8) (hb @ t)) (0, 0)"
    unfolding H w1 by (simp add: WAL_HDRSIZE_def)
  show "wal_szPage w1 = szPage" "iReCksum w1 = iReCksum w" "bigEndCksum (hdr w1) = SQLITE_BIGENDIAN" unfolding w1 by simp_all
qed

lemma wal_header_end:
  "wal_header w szPage salts = (hb, w1) \<Longrightarrow>
    \<exists>h. hb = h @ Put4byte (fst (aFrameCksum (hdr w1))) @ Put4byte (snd (aFrameCksum (hdr w1))) \<and> length h = 24"
  by (auto simp: wal_header_def Let_def)

lemma write_frames_salts:
  "bigEndCksum (hdr (snd (write_frames w fs))) = bigEndCksum (hdr w) \<and> aSalt (hdr (snd (write_frames w fs))) = aSalt (hdr w)"
proof (induction fs arbitrary: w)
  case (Cons f fs)
  obtain p n d where f: "f = (p, n, d)" by (metis prod_cases3)
  have "bigEndCksum (hdr (snd (walEncodeFrame w p n d))) = bigEndCksum (hdr w)" "aSalt (hdr (snd (walEncodeFrame w p n d))) = aSalt (hdr w)"
    by (simp_all add: walEncodeFrame_def Let_def)
  with Cons show ?case by (simp add: f write_frames_Cons del: write_frames.simps)
qed simp

text \<open>C39. Frames that a transaction overwrites leave the checksums from the first of them on out of
  date. Rewriting the checksums makes the file the log that would have been written with the
  final contents, whatever the old checksum fields hold, and the connection goes on from it.\<close>

theorem rewrite_restores:
  assumes hdr: "wal_header w0 szPage salts = (hb, w1)" "iReCksum w0 = 0" "szPage \<le> SQLITE_MAX_PAGE_SIZE"
    and io: "\<And>i. write_rc env i = SQLITE_OK" "\<And>i. read_rc env i = SQLITE_OK" "buf_ok env"
    and ds: "\<forall>(p, n, d) \<in> set ds. length d = szPage"
    and xs: "\<forall>((p, n, d), x) \<in> set xs. length d = szPage \<and> length x = 16"
    and w: "iReCksum w = length ds + 1" "wal_szPage w = szPage" "bigEndCksum (hdr w) = bigEndCksum (hdr w1)" "aSalt (hdr w) = aSalt (hdr w1)"
  shows "\<exists>w'. walRewriteChecksums env w (hb @ fst (write_frames w1 ds) @ stale_frames xs @ t) (length ds + length xs)
      = (SQLITE_OK, w', hb @ fst (write_frames w1 (ds @ map fst xs)) @ t)
    \<and> cks w' = cks (snd (write_frames w1 (ds @ map fst xs))) \<and> iReCksum w' = 0"
proof -
  note H = wal_header_fields [OF hdr(1,3)]
  let ?A = "hb @ fst (write_frames w1 ds)" and ?wd = "snd (write_frames w1 ds)"
  let ?file = "?A @ stale_frames xs @ t"
  have w1: "iReCksum w1 = 0" "wal_szPage w1 = szPage" using H(11,12) hdr(2) by simp_all
  have len: "length ?A = walFrameOffset (length ds + 1) szPage"
    using H(1) write_frames_length [OF w1(1), of ds] ds w1(2) by (simp add: walFrameOffset_def)
  let ?off = "if length ds + 1 = 1 then 24 else walFrameOffset (length ds + 1 - 1) szPage + 16"
  have ck: "(Get4byte (take 8 (drop ?off ?file)) 0, Get4byte (take 8 (drop ?off ?file)) 4) = aFrameCksum (hdr ?wd)"
  proof (cases ds rule: rev_cases)
    case Nil
    then have o: "?off = 24" by simp
    have "take 8 (drop 24 ?file) = Put4byte (fst (aFrameCksum (hdr w1))) @ Put4byte (snd (aFrameCksum (hdr w1)))"
      using wal_header_end [OF hdr(1)] Nil by auto
    then show ?thesis unfolding o using Nil Get4byte_Put4byte [of 0 "[]" "fst (aFrameCksum (hdr w1))" "Put4byte (snd (aFrameCksum (hdr w1)))"]
        Get4byte_Put4byte [of 4 "Put4byte (fst (aFrameCksum (hdr w1)))" "snd (aFrameCksum (hdr w1))" "[]"] by simp
  next
    case (snoc es f)
    obtain p n d where f: "f = (p, n, d)" by (metis prod_cases3)
    let ?we = "snd (write_frames w1 es)"
    note K = write_frames_keeps [OF w1(1), of es]
    have d: "length d = wal_szPage ?we" using ds snoc f K w1(2) by simp
    have wd: "?wd = snd (write_frames ?we [(p, n, d)])" "fst (write_frames w1 ds) = fst (write_frames w1 es) @ fst (write_frames ?we [(p, n, d)])"
      using snoc f by (simp_all add: write_frames_append split: prod.splits)
    obtain x where x: "fst (write_frames ?we [(p, n, d)]) = x @ Put4byte (fst (aFrameCksum (hdr ?wd))) @ Put4byte (snd (aFrameCksum (hdr ?wd))) @ d"
      "length x = 16" using last_cksum [of ?we d p n] K d unfolding wd(1) [symmetric] by auto
    have le: "length (hb @ fst (write_frames w1 es)) = walFrameOffset (length ds + 1 - 1) szPage"
      using H(1) write_frames_length [OF w1(1), of es] ds w1(2) snoc by (simp add: walFrameOffset_def)
    have o: "?off = length (hb @ fst (write_frames w1 es) @ x)" using le x(2) snoc by simp
    have "take 8 (drop ?off ?file) = Put4byte (fst (aFrameCksum (hdr ?wd))) @ Put4byte (snd (aFrameCksum (hdr ?wd)))"
      unfolding o wd(2) x(1) by simp
    then show ?thesis using Get4byte_Put4byte [of 0 "[]" "fst (aFrameCksum (hdr ?wd))" "Put4byte (snd (aFrameCksum (hdr ?wd)))"]
        Get4byte_Put4byte [of 4 "Put4byte (fst (aFrameCksum (hdr ?wd)))" "snd (aFrameCksum (hdr ?wd))" "[]"] by simp
  qed
  let ?w = "w\<lparr>iReCksum := 0, hdr := (hdr w)\<lparr>aFrameCksum := aFrameCksum (hdr ?wd)\<rparr>\<rparr>"
  have "cks ?wd = (bigEndCksum (hdr w1), aSalt (hdr w1), aFrameCksum (hdr ?wd))" by (simp add: cks_def write_frames_salts)
  then have cw: "cks ?w = cks ?wd" using w(3,4) by (simp add: cks_def)
  have run: "walRewriteChecksums env w ?file (length ds + length xs)
      = rewrite_loop env SQLITE_OK (length xs) (length ds + 1) ?w ?file"
    unfolding walRewriteChecksums_def Let_def w(1,2) ck using io by simp
  also have "\<dots> = (case write_frames ?w (map fst xs) of (log, w) \<Rightarrow> (SQLITE_OK, w, ?A @ log @ t))"
    using len w(2) xs by (intro rewrite_loop_ok [OF io(1,2)]) simp_all
  finally have r: "walRewriteChecksums env w ?file (length ds + length xs)
      = (SQLITE_OK, snd (write_frames ?w (map fst xs)), ?A @ fst (write_frames ?w (map fst xs)) @ t)" by (simp split: prod.splits)
  have "iReCksum ?w = iReCksum ?wd" using write_frames_keeps [OF w1(1), of ds] by simp
  note C = write_frames_cong [OF cw this, of "map fst xs"]
  have a: "fst (write_frames w1 (ds @ map fst xs)) = fst (write_frames w1 ds) @ fst (write_frames ?wd (map fst xs))"
    "snd (write_frames w1 (ds @ map fst xs)) = snd (write_frames ?wd (map fst xs))"
    by (simp_all add: write_frames_append split: prod.splits)
  have "iReCksum (snd (write_frames ?w (map fst xs))) = 0" using write_frames_keeps [of ?w "map fst xs"] by simp
  then show ?thesis using r C a by simp
qed


subsection \<open>Witnesses\<close>

definition demo_page :: bytes where "demo_page = replicate 512 0"

definition demo_log :: "bytes \<times> Wal" where "demo_log = wal_header demo_w 512 (3, 4)"

definition demo_recover :: recover_env where
  "demo_recover = \<lparr>rec_shm = demo_env, lock_wal = SQLITE_OK, lock_readers = SQLITE_OK, file_size = SQLITE_OK,
     read_at = (\<lambda>_. SQLITE_OK), frame_buf = True\<rparr>"

definition demo_writer :: writer_env where
  "demo_writer = \<lparr>write_rc = (\<lambda>_. SQLITE_OK), read_rc = (\<lambda>_. SQLITE_OK), sync_rc = SQLITE_OK, buf_ok = True\<rparr>"

lemma demo_header: "wal_header demo_w 512 (3, 4) = (fst demo_log, snd demo_log)"
  by (simp add: demo_log_def)

lemma demo_log_fields: "iReCksum demo_w = 0" "iReCksum (snd demo_log) = 0" "wal_szPage (snd demo_log) = 512" "bigEndCksum (hdr (snd demo_log)) = False"
    "aSalt (hdr (snd demo_log)) = (3, 4)"
  by (simp_all add: demo_log_def wal_header_def Let_def demo_w_def SQLITE_BIGENDIAN_def)

lemma rewrite_restores_witness:
  "\<exists>w'. walRewriteChecksums demo_writer (demo_w\<lparr>iReCksum := 2, wal_szPage := 512, hdr := (hdr demo_w)\<lparr>aSalt := (3, 4)\<rparr>\<rparr>)
      (fst demo_log @ fst (write_frames (snd demo_log) [(7, 0, demo_page)]) @ stale_frames [((8, 9, demo_page), replicate 16 1)] @ [5]) 2
      = (SQLITE_OK, w', fst demo_log @ fst (write_frames (snd demo_log) [(7, 0, demo_page), (8, 9, demo_page)]) @ [5])
    \<and> cks w' = cks (snd (write_frames (snd demo_log) [(7, 0, demo_page), (8, 9, demo_page)])) \<and> iReCksum w' = 0"
  using rewrite_restores [OF demo_header demo_log_fields(1), of demo_writer "[(7, 0, demo_page)]" "[((8, 9, demo_page), replicate 16 1)]"
      "demo_w\<lparr>iReCksum := 2, wal_szPage := 512, hdr := (hdr demo_w)\<lparr>aSalt := (3, 4)\<rparr>\<rparr>" "[5]"]
  by (simp add: SQLITE_MAX_PAGE_SIZE_def demo_writer_def demo_page_def demo_log_fields numeral_2_eq_2 del: write_frames.simps)
    (simp add: demo_w_def)


end
