(* ===== verification/Spec2Isabelle.thy ===== *)
theory Spec2Isabelle
  imports IntArrayIndex IntArrayLife WrapperBuffer Varint Numbers Bitvec Hash Rowset Utf Like
    RecordCompare WalCheckpoint WalRecover
begin

text \<open>
  \<^bold>\<open>The native part of the application.\<close>

  The application is an Android client for OpenVPN with a map of servers; its C code is the
  database layer under \<open>src/app/src/main/jni\<close>. It consists of sqlite4java, a wrapper
  (\<open>sqlite4java/native\<close>) through which Java reaches SQLite by JNI and which adds virtual
  tables over integer arrays (INTARRAY), and of the SQLite amalgamation 3.26.0 it is built on
  (\<open>sqlite4java/sqlite/sqlite3.c\<close>). This development models all of the hand-written C of the
  wrapper and the self-contained components of SQLite on which its file format, its pager,
  its planner and its SQL functions rest.

  \<^bold>\<open>How the parts work together.\<close> A Java method calls a native method
  (\<open>sqlite3_wrap_manual.c\<close>), which converts its arguments, calls SQLite and releases what it
  acquired. Through four of these methods it registers the INTARRAY module, creates arrays,
  binds their content and destroys them; SQLite then calls the module back to open cursors on
  an array, to plan a query (\<open>xBestIndex\<close>) and to run it (\<open>xFilter\<close>, \<open>xNext\<close>, \<open>xEof\<close>). The name of
  an array is looked up in the module's own hash table. Inside SQLite, names are looked up in
  symbol tables, text is read and translated between encodings, numbers are read from it, and
  patterns are matched against it; rowids, lengths and headers are written to the file as
  variable-length integers; the pager keeps the set of pages it has journalled in a bitmap;
  a statement collects rowids in a rowset. A row is stored as a record, made of cells by one
  instruction of the virtual machine; an index is searched and sorted by comparing stored
  records with a key.

  \<^bold>\<open>The theories.\<close>

  \<^item> \<open>Prelude\<close>: C integers and their conversions, bytes and strings, result codes, cyclic
  indices; what every theory shares.

  \<^item> \<open>IntArrayMap\<close> (\<open>native/intarray.c\<close>, \<open>intarrayMapInit\<close> to \<open>intarrayMapFind\<close>): the
  open-addressing table of names, with tombstones, probing and rehashing. The invariant of
  reachable tables, the locale \<open>name_table\<close> with its interpretation \<open>nt\<close>, and the failure of
  removal behind a tombstone.

  \<^item> \<open>IntArrayCursor\<close>, \<open>IntArrayIndex\<close> (same file, \<open>intarrayBestIndex\<close> to \<open>intarrayNext\<close>): the
  planner, the encoding of a plan in \<open>idxNum\<close>, the bounds \<open>intarrayFilter\<close> derives from the
  arguments, the binary search and the movement of the cursor. Planner and cursor are
  composed: a query returns the rows that satisfy the constraints the planner took over.

  \<^item> \<open>IntArrayLife\<close> (same file, registration to destruction): arrays, tables and cursors in a
  heap, with every call of the wrapper and of SQLite as a step of an inductive relation;
  memory safety, stability of the content under open cursors, balance of the buffers.

  \<^item> \<open>JniWrapper\<close> (\<open>native/sqlite3_wrap_manual.c\<close>): every native method as a result code and
  the trace of the JNI, SQLite and allocator calls it makes; one discipline for all of them.

  \<^item> \<open>WrapperBuffer\<close> (same file, direct buffers and the progress handler): the two control
  bytes of a buffer under every order of binding, release and disposal.

  \<^item> \<open>Varint\<close> (\<open>util.c\<close>): writer and unrolled readers of variable-length integers over a
  memory, against the loop the file format describes.

  \<^item> \<open>Ctype\<close>, \<open>Numbers\<close> (\<open>global.c\<close>, \<open>util.c\<close>): character tables, folding, quoting, checked
  arithmetic, integers from text, hexadecimal blobs and logarithmic estimates.

  \<^item> \<open>Bitvec\<close> (\<open>bitvec.c\<close>): the page bitmap in its three representations as a refinement of a
  set, with the locale \<open>page_set\<close> and its interpretation \<open>bv\<close>, and the built-in self-test.

  \<^item> \<open>Hash\<close> (\<open>hash.c\<close>): the symbol table, a doubly linked list and its buckets in a store of
  elements, as a refinement of a map on folded names; locale \<open>keyed_table\<close>, interpretation
  \<open>symtab\<close>.

  \<^item> \<open>Rowset\<close> (\<open>rowset.c\<close>): insertion, the bucket merge sort, the balanced trees and the
  batched membership test; locale \<open>rowid_collector\<close>, interpretation \<open>rowset\<close>.

  \<^item> \<open>Utf\<close> (\<open>utf.c\<close>): reading, writing and translating UTF-8 and UTF-16.

  \<^item> \<open>Like\<close> (\<open>func.c\<close>): the pattern matcher of LIKE and GLOB against the plain meaning of a
  pattern.

  \<^item> \<open>RecordFormat\<close> (\<open>vdbeaux.c\<close>, \<open>OP_MakeRecord\<close> of \<open>vdbe.c\<close>): serial types, the record made of
  some cells and its unpacking, as a round trip through the file format.

  \<^item> \<open>RecordCompare\<close> (\<open>vdbeaux.c\<close>, collating functions of \<open>main.c\<close>): the comparison of cells and of
  stored records with a key, and the specialised routines, against the order of the values.
  The locale \<open>three_way\<close> is the contract of a comparison, \<open>collation\<close> that of a collating
  function, interpreted on BINARY (\<open>binary\<close>), NOCASE (\<open>nocase\<close>) and the bytes (\<open>bytes\<close>); the
  sublocale \<open>sqlvalue\<close> carries it to values, and to rows.

  \<^item> \<open>WalIndex\<close> (\<open>wal.c\<close>): the hash tables of the write-ahead log in shared memory. The invariant
  that the index holds exactly a log in every state writers can reach, the single writes they
  make behind the end of a reader's log, and a search beside them.

  \<^item> \<open>WalIterator\<close>, \<open>WalCheckpoint\<close> (same file, \<open>walMerge\<close> to \<open>walCheckpoint\<close>): the sorted visit of the
  pages of the log and the copy into the database. A checkpoint changes neither what a reader
  with a snapshot sees nor what a new reader finds, whatever fails on the way.

  \<^item> \<open>WalRecover\<close> (same file, \<open>walChecksumBytes\<close> to \<open>walDecodeFrame\<close>, \<open>walIndexRecover\<close>,
  \<open>walWriteToLog\<close> to \<open>walRewriteChecksums\<close>): the bytes of the log. What is written is read back;
  rewritten checksums make the file valid again; after a crash recovery ends at the last
  committed frame and gives an index that satisfies the contract of \<open>WalIndex\<close>.

  \<^bold>\<open>Conventions.\<close> A C \<open>int\<close> or 64-bit integer is an \<^typ>\<open>int\<close> in its range, with the
  wrap-around written out where it can occur; unsigned values are words. A result of
  \<open>None\<close> is undefined behaviour, an access to a freed object, a violated assertion or an index
  outside an array; theorems that say \<open>Some\<close> are theorems of memory safety. What an allocator
  answers is an argument, and the theorems hold for every answer unless they name one. SQLite,
  the JVM and Java are parameters where the wrapper calls them; \<open>exec_contract\<close> states what the
  life cycle of arrays relies on.

  \<^bold>\<open>Bounds.\<close> No theorem depends on fuel: loops are functions with a proof of termination, or
  carry a counter with a lemma that it suffices. Arrays and tables have fewer than \<open>2 ^ 31\<close>
  elements, as their C counters require; a rowset takes at most \<open>2 ^ 40\<close> entries, the capacity
  of its forty buckets; sizes of structures are those of a 64-bit target.

  \<^bold>\<open>Not modelled.\<close> The SWIG wrappers are generated and only forward. SQLite's parser, code
  generator, virtual machine, b-tree, pager and operating-system layer are a vendored library
  of more than two hundred thousand lines; the components above are those whose contract can
  be stated without them. The two copies of SQLite under \<open>sqlite\<close> and \<open>sqlite-android\<close> are
  later releases of the same amalgamation. The Android bindings, the JNI helpers and the asset
  file system are C++, the VPN client and the user interface Java and Kotlin.
\<close>

end
